(* ===== verification/Prelude.thy ===== *)
theory Prelude
  imports Main "HOL-Library.Word" "HOL-Library.Multiset" "HOL-Library.AList"
    "HOL-Library.Char_ord" "HOL-Library.List_Lexorder"
begin

text \<open>
  Shared vocabulary of the development: the Go types the model uses (byte slices, 64-bit LSNs,
  instants, durations), the functions of the \<^verbatim>\<open>strings\<close>, \<^verbatim>\<open>sort\<close>, \<^verbatim>\<open>fmt\<close> and
  \<^verbatim>\<open>encoding/hex\<close> packages that the sources call, and generic lemmas on lists, association
  lists and words.

  Conventions. An instant (\<^verbatim>\<open>time.Time\<close>) is the number of nanoseconds since
  0001-01-01T00:00:00Z, so Go's zero time is \<open>0\<close> and \<^verbatim>\<open>IsZero\<close> is \<open>t = 0\<close>. A duration is
  a number of nanoseconds. Instants and durations are unbounded integers: the code's 64-bit
  limit (292 years for a duration) is not reached by the configuration values the sources use.
  A Go map whose iteration order does not matter is an association list.
\<close>

type_synonym bytes = "8 word list"
type_synonym lsn = "64 word"
type_synonym tli = "32 word"
type_synonym instant = int
type_synonym duration = int

named_theorems go_strings \<open>characterisations of the string functions\<close>
named_theorems frame_rules \<open>what an operation leaves unchanged\<close>

subsection \<open>time\<close>

abbreviation zero_time :: instant where
  "zero_time \<equiv> 0"

definition nanosecond :: duration where "nanosecond = 1"
definition second :: duration where "second = 1000000000"
definition minute :: duration where "minute = 60 * second"
definition hour :: duration where "hour = 60 * minute"

lemmas duration_defs = nanosecond_def second_def minute_def hour_def

subsection \<open>strings\<close>

definition HasPrefix :: "string \<Rightarrow> string \<Rightarrow> bool" where
  "HasPrefix s p \<longleftrightarrow> take (length p) s = p"

definition HasSuffix :: "string \<Rightarrow> string \<Rightarrow> bool" where
  "HasSuffix s p \<longleftrightarrow> length p \<le> length s \<and> drop (length s - length p) s = p"

fun Contains :: "string \<Rightarrow> string \<Rightarrow> bool" where
  "Contains [] p = (p = [])"
| "Contains (c # s) p = (HasPrefix (c # s) p \<or> Contains s p)"

definition TrimPrefix :: "string \<Rightarrow> string \<Rightarrow> string" where
  "TrimPrefix s p = (if HasPrefix s p then drop (length p) s else s)"

definition TrimSuffix :: "string \<Rightarrow> string \<Rightarrow> string" where
  "TrimSuffix s p = (if HasSuffix s p then take (length s - length p) s else s)"

text \<open>\<^verbatim>\<open>strings.Split\<close> with a one-byte separator.\<close>

fun Split :: "char \<Rightarrow> string \<Rightarrow> string list" where
  "Split c [] = [[]]"
| "Split c (x # xs) =
     (if x = c then [] # Split c xs
      else case Split c xs of [] \<Rightarrow> [[x]] | y # ys \<Rightarrow> (x # y) # ys)"

fun Join :: "char \<Rightarrow> string list \<Rightarrow> string" where
  "Join c [] = []"
| "Join c [x] = x"
| "Join c (x # y # ys) = x @ c # Join c (y # ys)"

text \<open>\<^verbatim>\<open>strings.Cut\<close> with a one-byte separator.\<close>

definition Cut :: "string \<Rightarrow> char \<Rightarrow> string \<times> string \<times> bool" where
  "Cut s c = (if c \<in> set s then (takeWhile (\<lambda>x. x \<noteq> c) s, tl (dropWhile (\<lambda>x. x \<noteq> c) s), True)
              else (s, [], False))"

text \<open>\<^verbatim>\<open>s[strings.LastIndexByte(s, '/')+1:]\<close>, the last path element.\<close>

definition Basename :: "string \<Rightarrow> string" where
  "Basename s = rev (takeWhile (\<lambda>c. c \<noteq> CHR ''/'') (rev s))"

lemma HasPrefix_append [simp, go_strings]: "HasPrefix (p @ s) p"
  by (simp add: HasPrefix_def)

lemma HasPrefix_iff [go_strings]: "HasPrefix s p \<longleftrightarrow> (\<exists>r. s = p @ r)"
  by (auto simp: HasPrefix_def) (metis append_take_drop_id)

lemma HasSuffix_append [simp, go_strings]: "HasSuffix (s @ p) p"
  by (simp add: HasSuffix_def)

lemma HasSuffix_iff [go_strings]: "HasSuffix s p \<longleftrightarrow> (\<exists>r. s = r @ p)"
  by (auto simp: HasSuffix_def) (metis append_take_drop_id)

lemma TrimPrefix_append [simp]: "TrimPrefix (p @ s) p = s"
  by (simp add: TrimPrefix_def)

lemma TrimSuffix_append [simp]: "TrimSuffix (s @ p) p = s"
  by (simp add: TrimSuffix_def)

lemma Split_ne [simp]: "Split c s \<noteq> []"
  by (induction s) (auto split: list.splits)

lemma Split_no_sep: "c \<notin> set s \<Longrightarrow> Split c s = [s]"
  by (induction s) auto

lemma Split_append_sep: "c \<notin> set a \<Longrightarrow> Split c (a @ c # b) = a # Split c b"
  by (induction a) auto

lemma Join_Split: "Join c (Split c s) = s"
proof (induction s)
  case (Cons x xs)
  then show ?case by (cases "Split c xs"; cases "tl (Split c xs)") auto
qed simp

lemma Basename_no_slash: "CHR ''/'' \<notin> set b \<Longrightarrow> Basename (d @ CHR ''/'' # b) = b"
proof -
  assume "CHR ''/'' \<notin> set b"
  then have "takeWhile (\<lambda>c. c \<noteq> CHR ''/'') (rev b @ CHR ''/'' # rev d) = rev b"
    by (subst takeWhile_append2) auto
  then show ?thesis by (simp add: Basename_def)
qed

subsection \<open>sort.SliceStable\<close>

text \<open>
  \<^verbatim>\<open>sort.SliceStable\<close> under a strict weak order has one possible result, which stable
  insertion computes.
\<close>

fun insert_stable :: "('a \<Rightarrow> 'a \<Rightarrow> bool) \<Rightarrow> 'a \<Rightarrow> 'a list \<Rightarrow> 'a list" where
  "insert_stable lt x [] = [x]"
| "insert_stable lt x (y # ys) =
     (if lt y x then y # insert_stable lt x ys else x # y # ys)"

definition SliceStable :: "('a \<Rightarrow> 'a \<Rightarrow> bool) \<Rightarrow> 'a list \<Rightarrow> 'a list" where
  "SliceStable lt xs = foldr (insert_stable lt) xs []"

lemma mset_insert_stable [simp]: "mset (insert_stable lt x xs) = add_mset x (mset xs)"
  by (induction xs) auto

lemma mset_SliceStable [simp]: "mset (SliceStable lt xs) = mset xs"
  by (induction xs) (auto simp: SliceStable_def)

lemma set_SliceStable [simp]: "set (SliceStable lt xs) = set xs"
  by (metis mset_SliceStable set_mset_mset)

lemma length_SliceStable [simp]: "length (SliceStable lt xs) = length xs"
  by (metis mset_SliceStable size_mset)

lemma SliceStable_Nil [simp]: "SliceStable lt [] = []"
  by (simp add: SliceStable_def)

lemma SliceStable_eq_Nil [simp]: "SliceStable lt xs = [] \<longleftrightarrow> xs = []"
  by (metis length_0_conv length_SliceStable)

lemma distinct_map_SliceStable [simp]:
  "distinct (map f (SliceStable lt xs)) \<longleftrightarrow> distinct (map f xs)"
  by (metis mset_SliceStable mset_eq_imp_distinct_iff mset_map)

lemma set_insert_stable [simp]: "set (insert_stable lt x xs) = insert x (set xs)"
  by (induction xs) auto

lemma sorted_insert_stable:
  assumes tr: "\<And>a b c. \<not> lt b a \<Longrightarrow> \<not> lt c b \<Longrightarrow> \<not> lt c a"
    and as: "\<And>a b. lt a b \<Longrightarrow> \<not> lt b a"
  shows "sorted_wrt (\<lambda>a b. \<not> lt b a) xs \<Longrightarrow>
    sorted_wrt (\<lambda>a b. \<not> lt b a) (insert_stable lt x xs)"
  by (induction xs) (auto dest: as tr)

lemma sorted_SliceStable:
  assumes "\<And>a b c. \<not> lt b a \<Longrightarrow> \<not> lt c b \<Longrightarrow> \<not> lt c a"
    and "\<And>a b. lt a b \<Longrightarrow> \<not> lt b a"
  shows "sorted_wrt (\<lambda>a b. \<not> lt b a) (SliceStable lt xs)"
  unfolding SliceStable_def
  by (induction xs) (simp_all add: sorted_insert_stable [OF assms])

subsection \<open>fmt: decimal and hexadecimal output\<close>

definition digit_char :: "nat \<Rightarrow> char" where
  "digit_char n = char_of (48 + n)"

fun dec_digits :: "nat \<Rightarrow> string" where
  "dec_digits n = (if n < 10 then [digit_char n] else dec_digits (n div 10) @ [digit_char (n mod 10)])"

declare dec_digits.simps [simp del]

definition pad_zero :: "nat \<Rightarrow> string \<Rightarrow> string" where
  "pad_zero w s = replicate (w - length s) (CHR ''0'') @ s"

text \<open>\<^verbatim>\<open>%0<w>d\<close>: the sign counts towards the width.\<close>

definition fmt_d :: "nat \<Rightarrow> int \<Rightarrow> string" where
  "fmt_d w i = (if i < 0 then CHR ''-'' # pad_zero (w - 1) (dec_digits (nat (- i)))
                else pad_zero w (dec_digits (nat i)))"

lemma digit_char_no: "n < 10 \<Longrightarrow> digit_char n \<notin> {CHR ''/'', CHR ''.''}"
proof -
  have "\<forall>n \<in> set [0..<10]. digit_char n \<notin> {CHR ''/'', CHR ''.''}" by code_simp
  then show "n < 10 \<Longrightarrow> ?thesis" by (metis atLeastLessThan_iff set_upt zero_le)
qed

lemma dec_digits_set:
  assumes "\<And>m. m < 10 \<Longrightarrow> digit_char m \<in> D"
  shows "set (dec_digits n) \<subseteq> D"
proof (induction n rule: dec_digits.induct)
  case (1 n)
  then show ?case using assms by (subst dec_digits.simps) auto
qed

lemma fmt_d_no: "c \<in> {CHR ''/'', CHR ''.''} \<Longrightarrow> c \<notin> set (fmt_d w i)"
proof -
  assume c: "c \<in> {CHR ''/'', CHR ''.''}"
  have "c \<notin> set (dec_digits n)" for n using dec_digits_set [of "- {c}" n] digit_char_no c by fastforce
  then show ?thesis using c by (auto simp: fmt_d_def pad_zero_def)
qed

text \<open>The digits of a number that may be large: nanoseconds are counted in binary.\<close>

function dec_int :: "int \<Rightarrow> string" where
  "dec_int n = (if n < 10 then [digit_char (nat n)] else dec_int (n div 10) @ [digit_char (nat (n mod 10))])"
  by pat_completeness auto
termination
  by (relation "measure nat") auto

declare dec_int.simps [simp del]

lemma dec_int_digits: "dec_int (int n) = dec_digits n"
proof (induction n rule: dec_digits.induct)
  case (1 n)
  show ?case
  proof (cases "n < 10")
    case True
    then show ?thesis by (simp add: dec_int.simps [of "int n"] dec_digits.simps [of n])
  next
    case False
    then show ?thesis using 1 by (simp add: dec_int.simps [of "int n"] dec_digits.simps [of n] nat_mod_distrib zdiv_int)
  qed
qed

text \<open>\<^verbatim>\<open>time.Duration.String\<close>.\<close>

definition fmt_frac :: "nat \<Rightarrow> int \<Rightarrow> string" where
  "fmt_frac prec v =
     (let ds = rev (dropWhile (\<lambda>c. c = CHR ''0'')
                 (rev (if prec = 0 then [] else pad_zero prec (dec_int (v mod 10 ^ prec)))))
      in if ds = [] then [] else CHR ''.'' # ds)"

definition Duration_String :: "duration \<Rightarrow> string" where
  "Duration_String d =
     (let u = \<bar>d\<bar>; sub = (\<lambda>p unit. dec_int (u div 10 ^ p) @ fmt_frac p u @ unit) in
      if u = 0 then ''0s'' else
      (if d < 0 then ''-'' else []) @
      (if u < 1000 then sub 0 ''ns''
       else if u < 1000000 then sub 3 [char_of (0xC2::nat), char_of (0xB5::nat), CHR ''s'']
       else if u < 1000000000 then sub 6 ''ms''
       else (let secs = u div 10 ^ 9; mins = secs div 60; hrs = mins div 60 in
             (if 0 < hrs then dec_int hrs @ ''h'' else []) @
             (if 0 < mins then dec_int (mins mod 60) @ ''m'' else []) @
             dec_int (secs mod 60) @ fmt_frac 9 u @ ''s'')))"

subsection \<open>time: the calendar\<close>

text \<open>
  Day number \<open>0\<close> is Monday, 1 January of year 1 of the proleptic Gregorian calendar. Years are
  counted from March so that the leap day is the last of its year.
\<close>

definition day_of :: "instant \<Rightarrow> int" where
  "day_of t = t div (24 * hour)"

definition civil :: "int \<Rightarrow> int \<times> int \<times> int" where
  "civil n =
     (let z = n + 306; era = z div 146097; doe = z mod 146097;
          yoe = (doe - doe div 1460 + doe div 36524 - doe div 146096) div 365;
          doy = doe - (365 * yoe + yoe div 4 - yoe div 100);
          mp = (5 * doy + 2) div 153; d = doy - (153 * mp + 2) div 5 + 1;
          m = (if mp < 10 then mp + 3 else mp - 9)
      in (yoe + era * 400 + (if m \<le> 2 then 1 else 0), m, d))"

definition Year :: "instant \<Rightarrow> int" where "Year t = fst (civil (day_of t))"
definition Month :: "instant \<Rightarrow> int" where "Month t = fst (snd (civil (day_of t)))"
definition Day :: "instant \<Rightarrow> int" where "Day t = snd (snd (civil (day_of t)))"

definition new_year :: "int \<Rightarrow> int" where
  "new_year y = 365 * (y - 1) + (y - 1) div 4 - (y - 1) div 100 + (y - 1) div 400"

text \<open>The year and number of the week of an instant: those of the Thursday of its week.\<close>

definition ISOWeek :: "instant \<Rightarrow> int \<times> int" where
  "ISOWeek t = (let n = day_of t; thu = n - n mod 7 + 3; y = fst (civil thu)
                in (y, (thu - new_year y) div 7 + 1))"

subsection \<open>Lists\<close>

lemma length_filter_mono: "(\<And>x. Q x \<Longrightarrow> P x) \<Longrightarrow> length (filter Q xs) \<le> length (filter P xs)"
  by (induction xs) (auto simp: le_Suc_eq)

lemma length_filter_strict:
  assumes "x \<in> set xs" "P x" "\<not> Q x" "\<And>y. Q y \<Longrightarrow> P y"
  shows "length (filter Q xs) < length (filter P xs)"
  using assms by (induction xs) (auto simp: less_Suc_eq_le intro!: length_filter_mono)

lemma mset_filter_split: "mset (filter P xs) + mset (filter (\<lambda>x. \<not> P x) xs) = mset xs"
  by (induction xs) auto

subsection \<open>Association lists\<close>

definition keys :: "('k \<times> 'v) list \<Rightarrow> 'k set" where
  "keys al = fst ` set al"

lemma keys_update [simp]: "keys (AList.update k v al) = insert k (keys al)"
  by (auto simp: keys_def dom_update)

lemma keys_Nil [simp]: "keys [] = {}"
  by (simp add: keys_def)

lemma keys_Cons [simp]: "keys (kv # al) = insert (fst kv) (keys al)"
  by (simp add: keys_def)

lemma map_of_None_keys: "map_of al k = None \<longleftrightarrow> k \<notin> keys al"
  by (simp add: keys_def map_of_eq_None_iff)

lemma map_of_Some_keys: "map_of al k = Some v \<Longrightarrow> k \<in> keys al"
  by (metis map_of_None_keys option.distinct(1))

lemma finite_keys [simp]: "finite (keys al)"
  by (simp add: keys_def)

subsection \<open>errors\<close>

text \<open>
  Go errors. The sentinels are the exported \<^verbatim>\<open>errors.New\<close> variables that callers test for with
  \<^verbatim>\<open>errors.Is\<close>; \<open>Errorf\<close> is \<^verbatim>\<open>fmt.Errorf\<close> with the errors its \<^verbatim>\<open>%w\<close> verbs wrap; \<open>SysErr\<close> is what the
  \<^verbatim>\<open>os\<close> package returns. Error texts are abbreviated to their leading words: no caller reads them.
\<close>

datatype errno = ENOENT | EEXIST | EISDIR | ENOTDIR | ENOTEMPTY | EIO | ENOSPC | EACCES

datatype sentinel =
    ErrAlreadyExists | ErrNotFound | ErrChecksumMismatch | ErrUnsupported
  | ErrCorruptEnvelope | ErrUnknownAlgorithm
  | ErrAuthenticationFailed | ErrUnknownEncryptionAlgorithm | ErrInvalidKey
  | ErrNotAChunkKey | ErrRetentionUnenforceable | ContextCanceled | DeadlineExceeded
  | IoEOF | IoErrUnexpectedEOF

datatype error =
    Sentinel sentinel
  | ErrorNew string
  | SysErr errno
  | Errorf string "error list"

text \<open>\<^verbatim>\<open>errors.Is\<close>: the target is the error itself or one it wraps.\<close>

fun errors_Is :: "error \<Rightarrow> error \<Rightarrow> bool" where
  "errors_Is (Errorf msg es) t = (Errorf msg es = t \<or> list_ex (\<lambda>e. errors_Is e t) es)"
| "errors_Is e t = (e = t)"

abbreviation is_err :: "error \<Rightarrow> sentinel \<Rightarrow> bool" where
  "is_err e s \<equiv> errors_Is e (Sentinel s)"

abbreviation is_sys :: "error \<Rightarrow> errno \<Rightarrow> bool" where
  "is_sys e s \<equiv> errors_Is e (SysErr s)"

subsection \<open>encoding/hex\<close>

definition hextable :: "nat \<Rightarrow> char" where
  "hextable n = ''0123456789abcdef'' ! n"

definition hex_byte :: "8 word \<Rightarrow> string" where
  "hex_byte b = [hextable (unat b div 16), hextable (unat b mod 16)]"

definition EncodeToString :: "bytes \<Rightarrow> string" where
  "EncodeToString bs = concat (map hex_byte bs)"

definition hexNibble :: "char \<Rightarrow> nat option" where
  "hexNibble c =
     (if CHR ''0'' \<le> c \<and> c \<le> CHR ''9'' then Some (of_char c - of_char (CHR ''0''))
      else if CHR ''a'' \<le> c \<and> c \<le> CHR ''f'' then Some (of_char c - of_char (CHR ''a'') + 10)
      else if CHR ''A'' \<le> c \<and> c \<le> CHR ''F'' then Some (of_char c - of_char (CHR ''A'') + 10)
      else None)"

fun DecodeString :: "string \<Rightarrow> bytes option" where
  "DecodeString [] = Some []"
| "DecodeString [c] = None"
| "DecodeString (a # b # s) =
     (case (hexNibble a, hexNibble b, DecodeString s) of
        (Some hi, Some lo, Some bs) \<Rightarrow> Some (word_of_nat (hi * 16 + lo) # bs)
      | _ \<Rightarrow> None)"

lemma nibble_cases: "n < 16 \<Longrightarrow> n \<in> set [0..<16]"
  by simp

lemma hexNibble_hextable [simp]: "n < 16 \<Longrightarrow> hexNibble (hextable n) = Some n"
proof -
  have "\<forall>n \<in> set [0..<16]. hexNibble (hextable n) = Some n" by code_simp
  then show "n < 16 \<Longrightarrow> hexNibble (hextable n) = Some n" using nibble_cases by blast
qed

lemma EncodeToString_simps [simp]:
  "EncodeToString [] = []" "EncodeToString (b # bs) = hex_byte b @ EncodeToString bs"
  "EncodeToString (as @ bs) = EncodeToString as @ EncodeToString bs"
  by (simp_all add: EncodeToString_def)

lemma length_EncodeToString [simp]: "length (EncodeToString bs) = 2 * length bs"
  by (induction bs) (auto simp: hex_byte_def)

lemma unat_byte_less: "unat (b :: 8 word) < 256"
proof -
  have "unat b < 2 ^ LENGTH(8)" by (rule unsigned_less)
  then show ?thesis by simp
qed

lemma hex_chars:
  assumes "\<And>n. n < 16 \<Longrightarrow> hextable n \<noteq> c"
  shows "c \<notin> set (EncodeToString b)"
proof (induction b)
  case (Cons x xs)
  have "unat x div 16 < 16" "unat x mod 16 < 16" using unat_byte_less [of x] by auto
  then have "hextable (unat x div 16) \<noteq> c" "hextable (unat x mod 16) \<noteq> c" using assms by blast+
  then have "c \<notin> set (hex_byte x)" by (auto simp: hex_byte_def)
  then show ?case using Cons by simp
qed simp

lemma hextable_no: "n < 16 \<Longrightarrow> hextable n \<notin> {CHR ''/'', CHR ''-'', CHR ''p'', CHR ''.''}"
proof -
  have "\<forall>n \<in> set [0..<16]. hextable n \<notin> {CHR ''/'', CHR ''-'', CHR ''p'', CHR ''.''}" by code_simp
  then show "n < 16 \<Longrightarrow> ?thesis" using nibble_cases by blast
qed

lemma hex_no: "CHR ''/'' \<notin> set (EncodeToString b)" "CHR ''-'' \<notin> set (EncodeToString b)"
  "CHR ''p'' \<notin> set (EncodeToString b)" "CHR ''.'' \<notin> set (EncodeToString b)"
  by ((rule hex_chars, drule hextable_no, simp))+

lemma DecodeString_Encode [simp]: "DecodeString (EncodeToString bs) = Some bs"
proof (induction bs)
  case (Cons b bs)
  have "unat b div 16 < 16" "unat b mod 16 < 16" using unat_byte_less [of b] by auto
  then show ?case using Cons by (simp add: hex_byte_def)
qed simp

lemma DecodeString_length: "DecodeString s = Some bs \<Longrightarrow> length s = 2 * length bs"
  by (induction s arbitrary: bs rule: DecodeString.induct) (auto split: option.splits)

lemma EncodeToString_inject [simp]: "EncodeToString a = EncodeToString b \<longleftrightarrow> a = b"
  by (metis DecodeString_Encode option.inject)

subsection \<open>io\<close>

text \<open>A reader is the bytes it still delivers and how it then ends: end of file or an error.\<close>

record 'e reader =
  rd_data :: bytes
  rd_err :: "'e option"

definition bytes_NewReader :: "bytes \<Rightarrow> 'e reader" where
  "bytes_NewReader b = \<lparr>rd_data = b, rd_err = None\<rparr>"

lemma bytes_NewReader_sel [simp]: "rd_data (bytes_NewReader b) = b" "rd_err (bytes_NewReader b) = None"
  by (simp_all add: bytes_NewReader_def)

text \<open>\<^verbatim>\<open>io.ReadAll\<close>; and \<^verbatim>\<open>io.LimitReader\<close>, which ends without an error once \<open>n\<close> bytes are delivered.\<close>

definition ReadAll :: "'e reader \<Rightarrow> 'e + bytes" where
  "ReadAll r = (case rd_err r of None \<Rightarrow> Inr (rd_data r) | Some e \<Rightarrow> Inl e)"

definition LimitReader :: "'e reader \<Rightarrow> nat \<Rightarrow> 'e reader" where
  "LimitReader r n =
     (if length (rd_data r) \<ge> n then \<lparr>rd_data = take n (rd_data r), rd_err = None\<rparr> else r)"

end
