(* ===== verification/ChunkKey.thy ===== *)
theory ChunkKey
  imports Prelude
begin

text \<open>
  Content hashes and the keys they are stored under: \<^verbatim>\<open>internal/repo/hash.go\<close>,
  \<^verbatim>\<open>internal/repo/chunkkey.go\<close>, \<^verbatim>\<open>ParseChunkKey\<close> of \<^verbatim>\<open>cas.go\<close> and \<^verbatim>\<open>parseHexHash\<close> of \<^verbatim>\<open>gc.go\<close>. A
  \<^verbatim>\<open>Hash\<close> is a \<^verbatim>\<open>[32]byte\<close> array, here a type of its own. SHA-256 itself is a parameter wherever it is used.
\<close>

subsection \<open>Hash\<close>

typedef Hash = "{bs :: bytes. length bs = 32}" morphisms hash_bytes Abs_Hash
  by (rule exI [of _ "replicate 32 0"]) simp

lemma hash_bytes_code [code abstype]: "Abs_Hash (hash_bytes h) = h"
  by (rule hash_bytes_inverse)

lemma length_hash_bytes [simp]: "length (hash_bytes h) = 32"
  using hash_bytes [of h] by simp

instantiation Hash :: equal
begin

definition equal_Hash :: "Hash \<Rightarrow> Hash \<Rightarrow> bool" where
  "equal_Hash a b \<longleftrightarrow> hash_bytes a = hash_bytes b"

instance
  by standard (simp add: equal_Hash_def hash_bytes_inject)

end

text \<open>\<^verbatim>\<open>copy(h[:], b)\<close> into a zero hash.\<close>

definition hash_of_bytes :: "bytes \<Rightarrow> Hash" where
  "hash_of_bytes b = Abs_Hash (take 32 (b @ replicate 32 0))"

lemma hash_bytes_hash_of_bytes [code abstract]: "hash_bytes (hash_of_bytes b) = take 32 (b @ replicate 32 0)"
  unfolding hash_of_bytes_def by (rule Abs_Hash_inverse) simp

lemma hash_bytes_of_bytes [simp]: "length b = 32 \<Longrightarrow> hash_bytes (hash_of_bytes b) = b"
  by (simp add: hash_bytes_hash_of_bytes)

lemma hash_of_hash_bytes [simp]: "hash_of_bytes (hash_bytes h) = h"
  by (simp add: hash_bytes_hash_of_bytes flip: hash_bytes_inject)

definition zero_hash :: Hash where
  "zero_hash = hash_of_bytes []"

definition Hash_String :: "Hash \<Rightarrow> string" where
  "Hash_String h = EncodeToString (hash_bytes h)"

definition Hash_IsZero :: "Hash \<Rightarrow> bool" where
  "Hash_IsZero h \<longleftrightarrow> list_all (\<lambda>b. b = 0) (hash_bytes h)"

definition MarshalText :: "Hash \<Rightarrow> string" where
  "MarshalText h = EncodeToString (hash_bytes h)"

definition UnmarshalText :: "string \<Rightarrow> error + Hash" where
  "UnmarshalText b =
     (if length b \<noteq> 64 then Inl (Errorf ''hash: bad length'' [])
      else case DecodeString b of
        None \<Rightarrow> Inl (Errorf ''hash: decode'' [ErrorNew ''encoding/hex: invalid byte''])
      | Some bs \<Rightarrow> if length bs \<noteq> 32 then Inl (Errorf ''hash: decoded'' []) else Inr (hash_of_bytes bs))"

definition ParseHash :: "string \<Rightarrow> error + Hash" where
  "ParseHash s = (case UnmarshalText s of Inl e \<Rightarrow> Inl e | Inr h \<Rightarrow> Inr h)"

text \<open>\<^verbatim>\<open>bytes.Compare\<close>: lexicographic on unsigned bytes.\<close>

definition Compare :: "Hash \<Rightarrow> Hash \<Rightarrow> int" where
  "Compare h o' =
     (let a = map unat (hash_bytes h); b = map unat (hash_bytes o')
      in if a = b then 0 else if a < b then - 1 else 1)"

definition sortHashes :: "Hash list \<Rightarrow> Hash list" where
  "sortHashes hs = SliceStable (\<lambda>a b. Compare a b < 0) hs"

instantiation Hash :: linorder
begin

definition less_eq_Hash :: "Hash \<Rightarrow> Hash \<Rightarrow> bool" where
  "less_eq_Hash a b \<longleftrightarrow> map unat (hash_bytes a) \<le> map unat (hash_bytes b)"

definition less_Hash :: "Hash \<Rightarrow> Hash \<Rightarrow> bool" where
  "less_Hash a b \<longleftrightarrow> map unat (hash_bytes a) < map unat (hash_bytes b)"

instance
proof
  fix x y z :: Hash
  have inj: "map unat (hash_bytes x) = map unat (hash_bytes y) \<Longrightarrow> x = y"
    by (metis hash_of_hash_bytes inj_map_eq_map inj_on_def unsigned_word_eqI)
  show "x \<le> y \<Longrightarrow> y \<le> x \<Longrightarrow> x = y" unfolding less_eq_Hash_def using inj by simp
  show "x < y \<longleftrightarrow> x \<le> y \<and> \<not> y \<le> x" unfolding less_eq_Hash_def less_Hash_def by (rule less_le_not_le)
  show "x \<le> y \<Longrightarrow> y \<le> z \<Longrightarrow> x \<le> z" unfolding less_eq_Hash_def by (rule order_trans)
  show "x \<le> y \<or> y \<le> x" unfolding less_eq_Hash_def by (rule linear)
qed (simp add: less_eq_Hash_def)

end

lemma Compare_less: "Compare a b < 0 \<longleftrightarrow> a < b"
  by (auto simp: Compare_def less_Hash_def)

lemma sortHashes_sorted: "sorted (sortHashes hs)"
proof -
  have "sorted_wrt (\<lambda>a b. \<not> Compare b a < 0) (sortHashes hs)"
    unfolding sortHashes_def by (rule sorted_SliceStable) (auto simp: Compare_less)
  then show ?thesis by (simp add: Compare_less not_less)
qed

lemma set_sortHashes [simp]: "set (sortHashes hs) = set hs"
  by (simp add: sortHashes_def)

subsection \<open>Chunk keys\<close>

definition chunk_prefix :: string where "chunk_prefix = ''chunks/sha256/''"
definition chunk_suffix :: string where "chunk_suffix = ''.chk''"

definition ChunkKey :: "Hash \<Rightarrow> string" where
  "ChunkKey hash =
     (let s = Hash_String hash
      in ''chunks/sha256/'' @ take 2 s @ ''/'' @ take 2 (drop 2 s) @ ''/'' @ s @ ''.chk'')"

definition ParseChunkKey :: "string \<Rightarrow> error + Hash" where
  "ParseChunkKey key =
     (let bad = Inl (Sentinel ErrNotAChunkKey) in
      if length key < length chunk_prefix + 64 + length chunk_suffix then bad
      else if take (length chunk_prefix) key \<noteq> chunk_prefix then bad
      else if drop (length key - length chunk_suffix) key \<noteq> chunk_suffix then bad
      else
        let rest = drop (length chunk_prefix) (take (length key - length chunk_suffix) key) in
        if length rest \<noteq> 2 + 1 + 2 + 1 + 64 \<or> rest ! 2 \<noteq> CHR ''/'' \<or> rest ! 5 \<noteq> CHR ''/'' then bad
        else
          let hexHash = drop 6 rest in
          if take 2 hexHash \<noteq> take 2 rest \<or> take 2 (drop 2 hexHash) \<noteq> take 2 (drop 3 rest) then bad
          else case DecodeString hexHash of
            None \<Rightarrow> bad
          | Some b \<Rightarrow> Inr (hash_of_bytes b))"

text \<open>The loop of \<open>parseHexHash\<close> over the 32 byte positions.\<close>

fun parseHexHash_loop :: "string \<Rightarrow> nat list \<Rightarrow> bytes option" where
  "parseHexHash_loop s [] = Some []"
| "parseHexHash_loop s (i # is) =
     (case (hexNibble (s ! (2 * i)), hexNibble (s ! (2 * i + 1))) of
        (Some hi, Some lo) \<Rightarrow>
          (case parseHexHash_loop s is of
             None \<Rightarrow> None
           | Some bs \<Rightarrow> Some (or (push_bit 4 (word_of_nat hi)) (word_of_nat lo) # bs))
      | _ \<Rightarrow> None)"

definition parseHexHash :: "string \<Rightarrow> error + Hash" where
  "parseHexHash s =
     (if length s \<noteq> 64 then Inl (Sentinel ErrNotAChunkKey)
      else case parseHexHash_loop s [0..<32] of
        None \<Rightarrow> Inl (Sentinel ErrNotAChunkKey)
      | Some bs \<Rightarrow> Inr (hash_of_bytes bs))"

subsection \<open>The key of a hash names it\<close>

lemma Hash_String_split: "\<exists>a b c d r. Hash_String h = a # b # c # d # r \<and> length r = 60"
proof -
  have "length (Hash_String h) = 64" by (simp add: Hash_String_def)
  then show ?thesis by (auto simp: length_Suc_conv numeral_eq_Suc)
qed

lemma DecodeString_Hash_String [simp]: "DecodeString (Hash_String h) = Some (hash_bytes h)"
  by (simp add: Hash_String_def)

lemma ParseChunkKey_ChunkKey [simp]: "ParseChunkKey (ChunkKey h) = Inr h"
proof -
  obtain a b c d r where s: "Hash_String h = a # b # c # d # r" "length r = 60"
    using Hash_String_split by blast
  have key: "ChunkKey h = chunk_prefix @ [a, b, CHR ''/'', c, d, CHR ''/''] @ Hash_String h @ chunk_suffix"
    by (simp add: ChunkKey_def s chunk_prefix_def chunk_suffix_def Let_def)
  have l: "length (Hash_String h) = 64" by (simp add: Hash_String_def)
  have tl: "take 2 (Hash_String h) = [a, b]" "take 2 (drop 2 (Hash_String h)) = [c, d]"
    by (simp_all add: s)
  have cl: "length chunk_prefix = 14" "length chunk_suffix = 4"
    by (simp_all add: chunk_prefix_def chunk_suffix_def)
  show ?thesis
    unfolding ParseChunkKey_def Let_def key by (simp add: cl l tl)
qed

lemma ChunkKey_inject [simp]: "ChunkKey a = ChunkKey b \<longleftrightarrow> a = b"
  by (metis ParseChunkKey_ChunkKey sum.inject(2))

text \<open>\<open>parseHexHash\<close> reads by index what \<open>DecodeString\<close> reads by recursion.\<close>

lemma nibbles_or: "hi < 16 \<Longrightarrow> lo < 16 \<Longrightarrow>
    or (push_bit 4 (word_of_nat hi)) (word_of_nat lo) = (word_of_nat (hi * 16 + lo) :: 8 word)"
proof -
  have "\<forall>hi \<in> set [0..<16]. \<forall>lo \<in> set [0..<16].
      or (push_bit 4 (word_of_nat hi)) (word_of_nat lo) = (word_of_nat (hi * 16 + lo) :: 8 word)"
    by code_simp
  then show "hi < 16 \<Longrightarrow> lo < 16 \<Longrightarrow> ?thesis" using nibble_cases by blast
qed

lemma hexNibble_less: "hexNibble c = Some n \<Longrightarrow> n < 16"
  by (auto simp: hexNibble_def less_eq_char_def split: if_splits)

lemma parseHexHash_loop_Decode:
  "length p = 2 * k \<Longrightarrow> even (length s) \<Longrightarrow>
     parseHexHash_loop (p @ s) [k..<k + length s div 2] = DecodeString s"
proof (induction s arbitrary: p k rule: DecodeString.induct)
  case (3 a b s)
  have "[k..<k + length (a # b # s) div 2] = k # [Suc k..<Suc k + length s div 2]"
    by (simp add: upt_rec)
  moreover have "(p @ a # b # s) ! (2 * k) = a" "(p @ a # b # s) ! (2 * k + 1) = b"
    using 3(2) by (simp_all add: nth_append)
  moreover have "parseHexHash_loop ((p @ [a, b]) @ s) [Suc k..<Suc k + length s div 2] = DecodeString s"
    using 3(2,3) by (intro 3(1)) auto
  ultimately have "parseHexHash_loop (p @ a # b # s) [k..<k + length (a # b # s) div 2] =
      (case (hexNibble a, hexNibble b) of
         (Some hi, Some lo) \<Rightarrow>
           (case DecodeString s of
              None \<Rightarrow> None
            | Some bs \<Rightarrow> Some (or (push_bit 4 (word_of_nat hi)) (word_of_nat lo) # bs))
       | _ \<Rightarrow> None)"
    by (simp only: parseHexHash_loop.simps append.assoc append.simps)
  then show ?case by (auto simp: nibbles_or hexNibble_less split: option.splits)
qed simp_all

lemma parseHexHash_ParseHash:
  "parseHexHash s = (case ParseHash s of Inl _ \<Rightarrow> Inl (Sentinel ErrNotAChunkKey) | Inr h \<Rightarrow> Inr h)"
proof (cases "length s = 64")
  case True
  then have "parseHexHash_loop s [0..<32] = DecodeString s"
    using parseHexHash_loop_Decode [of "[]" 0 s] by simp
  then show ?thesis
    using True DecodeString_length [of s]
    by (auto simp: parseHexHash_def ParseHash_def UnmarshalText_def split: option.splits)
qed (simp add: parseHexHash_def ParseHash_def UnmarshalText_def)

lemma ParseHash_String [simp]: "ParseHash (Hash_String h) = Inr h"
  by (simp add: ParseHash_def UnmarshalText_def) (simp add: Hash_String_def)

lemma parseHexHash_String [simp]: "parseHexHash (Hash_String h) = Inr h"
  by (simp add: parseHexHash_ParseHash)

text \<open>\<^verbatim>\<open>strings.ToLower\<close> on ASCII.\<close>

definition ToLower :: "string \<Rightarrow> string" where
  "ToLower s = map (\<lambda>c. if CHR ''A'' \<le> c \<and> c \<le> CHR ''Z'' then char_of (of_char c + 32 :: nat) else c) s"

lemma ToLower_append [simp]: "ToLower (a @ b) = ToLower a @ ToLower b"
  by (simp add: ToLower_def)

lemma hexNibble_lower: "hexNibble c = Some n \<Longrightarrow> ToLower [c] = [hextable n]"
proof -
  assume n: "hexNibble c = Some n"
  have "\<forall>i \<in> set ([48..<58] @ [65..<71] @ [97..<103]). \<forall>n. hexNibble (char_of i) = Some n \<longrightarrow>
      ToLower [char_of i] = [hextable n]"
    by (simp add: upt_rec hexNibble_def less_eq_char_def ToLower_def hextable_def) code_simp
  moreover have "of_char c \<in> set ([48..<58] @ [65..<71] @ [97..<103::nat])"
    using n unfolding set_append set_upt
    by (simp add: hexNibble_def less_eq_char_def split: if_splits)
  ultimately have "hexNibble (char_of (of_char c :: nat)) = Some n \<longrightarrow>
      ToLower [char_of (of_char c :: nat)] = [hextable n]" by blast
  then show ?thesis using n by simp
qed

lemma unat_word_of_nat_byte: "n < 256 \<Longrightarrow> unat (word_of_nat n :: 8 word) = n"
  by (simp add: unat_of_nat)

lemma DecodeString_lower: "DecodeString s = Some bs \<Longrightarrow> EncodeToString bs = ToLower s"
proof (induction s arbitrary: bs rule: DecodeString.induct)
  case (3 a b s)
  then obtain hi lo bs' where d: "hexNibble a = Some hi" "hexNibble b = Some lo" "DecodeString s = Some bs'"
    "bs = word_of_nat (hi * 16 + lo) # bs'"
    by (auto split: option.splits)
  have "unat (word_of_nat (hi * 16 + lo) :: 8 word) = hi * 16 + lo"
    using hexNibble_less [OF d(1)] hexNibble_less [OF d(2)] by (intro unat_word_of_nat_byte) simp
  then have "hex_byte (word_of_nat (hi * 16 + lo)) = ToLower [a, b]"
    using hexNibble_lower [OF d(1)] hexNibble_lower [OF d(2)] hexNibble_less [OF d(2)]
    by (simp add: hex_byte_def ToLower_def)
  then show ?case using 3(1) [OF d(3)] d(4) ToLower_append [of "[a, b]" s] by simp
qed (auto simp: ToLower_def)

lemma ParseChunkKey_shape:
  assumes "ParseChunkKey k = Inr h"
  shows "\<exists>s. k = chunk_prefix @ take 2 s @ ''/'' @ take 2 (drop 2 s) @ ''/'' @ s @ chunk_suffix \<and>
    DecodeString s = Some (hash_bytes h)"
proof -
  have cl: "length chunk_prefix = 14" "length chunk_suffix = 4"
    by (simp_all add: chunk_prefix_def chunk_suffix_def)
  define rest where "rest = drop 14 (take (length k - 4) k)"
  have r: "take 14 k = chunk_prefix" "drop (length k - 4) k = chunk_suffix" "82 \<le> length k"
    "length rest = 70" "rest ! 2 = CHR ''/''" "rest ! 5 = CHR ''/''"
    "take 2 (drop 6 rest) = take 2 rest" "take 2 (drop 2 (drop 6 rest)) = take 2 (drop 3 rest)"
    and d: "\<exists>b. DecodeString (drop 6 rest) = Some b \<and> h = hash_of_bytes b"
    using assms unfolding ParseChunkKey_def Let_def cl rest_def
    by (auto split: if_splits option.splits)
  have "k = take 14 k @ rest @ drop (length k - 4) k"
  proof -
    have "take (length k - 4) k = take 14 k @ rest"
      unfolding rest_def using r(3) append_take_drop_id [of 14 "take (length k - 4) k"]
      by (simp add: min_def split: if_splits)
    then show ?thesis using append_take_drop_id [of "length k - 4" k] by simp
  qed
  moreover have "rest = take 2 rest @ ''/'' @ take 2 (drop 3 rest) @ ''/'' @ drop 6 rest"
  proof -
    have "length (take 6 rest) = Suc (Suc (Suc (Suc (Suc (Suc 0)))))" using r(4) by simp
    then obtain a b c d e f where "take 6 rest = [a, b, c, d, e, f]"
      unfolding length_Suc_conv length_0_conv by blast
    then have "rest = [a, b, c, d, e, f] @ drop 6 rest" by (metis append_take_drop_id)
    then obtain r' where "rest = a # b # c # d # e # f # r'" by simp
    then show ?thesis using r(5,6) by (simp add: numeral_eq_Suc)
  qed
  ultimately have "k = chunk_prefix @ take 2 (drop 6 rest) @ ''/'' @ take 2 (drop 2 (drop 6 rest)) @ ''/'' @
      drop 6 rest @ chunk_suffix"
    using r(1,2,7,8) by (metis append.assoc)
  moreover have "DecodeString (drop 6 rest) = Some (hash_bytes h)"
    using d DecodeString_length [of "drop 6 rest"] r(4) by auto
  ultimately show ?thesis by blast
qed

subsection \<open>Properties\<close>

text \<open>
  C8. A hash and its names determine each other: \<^verbatim>\<open>ParseChunkKey\<close> inverts \<^verbatim>\<open>ChunkKey\<close>, \<^verbatim>\<open>ParseHash\<close> and
  the index-based \<^verbatim>\<open>parseHexHash\<close> invert the hex form, the two parsers accept the same strings with
  the same result, and a key that \<^verbatim>\<open>ParseChunkKey\<close> accepts is, up to the case of its hex digits, the
  \<^verbatim>\<open>ChunkKey\<close> of the hash it returns.
\<close>

theorem chunk_keys_name_hashes:
  "ParseChunkKey (ChunkKey h) = Inr h \<and> ParseHash (Hash_String h) = Inr h \<and>
   parseHexHash (Hash_String h) = Inr h \<and>
   (ParseHash s = Inr h' \<longleftrightarrow> parseHexHash s = Inr h') \<and>
   (ParseChunkKey k = Inr h' \<longrightarrow> ToLower k = ChunkKey h')"
proof -
  have "ToLower k = ChunkKey h'" if p: "ParseChunkKey k = Inr h'"
  proof -
    obtain s where s: "k = chunk_prefix @ take 2 s @ ''/'' @ take 2 (drop 2 s) @ ''/'' @ s @ chunk_suffix"
      "DecodeString s = Some (hash_bytes h')"
      using ParseChunkKey_shape [OF p] by blast
    have "ToLower s = Hash_String h'" using DecodeString_lower [OF s(2)] by (simp add: Hash_String_def)
    moreover have "ToLower (take n t) = take n (ToLower t)" "ToLower (drop n t) = drop n (ToLower t)" for n t
      by (simp_all add: ToLower_def take_map drop_map)
    moreover have "ToLower chunk_prefix = chunk_prefix" "ToLower chunk_suffix = chunk_suffix" "ToLower ''/'' = ''/''"
      by code_simp+
    moreover have "ChunkKey h' = chunk_prefix @ take 2 (Hash_String h') @ ''/'' @
        take 2 (drop 2 (Hash_String h')) @ ''/'' @ Hash_String h' @ chunk_suffix"
      by (simp add: ChunkKey_def Let_def chunk_prefix_def chunk_suffix_def)
    ultimately show ?thesis unfolding s(1) by (simp only: ToLower_append)
  qed
  moreover have "ParseHash s = Inr h' \<longleftrightarrow> parseHexHash s = Inr h'"
    by (auto simp: parseHexHash_ParseHash split: sum.splits)
  ultimately show ?thesis by simp
qed

definition ex_upper_key :: string where
  "ex_upper_key = chunk_prefix @ ''AA/AA/'' @ concat (replicate 32 ''AA'') @ chunk_suffix"

theorem chunk_keys_name_hashes_witness:
  "ParseChunkKey ex_upper_key = Inr (hash_of_bytes (replicate 32 170)) \<and>
   ToLower ex_upper_key = ChunkKey (hash_of_bytes (replicate 32 170))"
proof -
  have "ParseChunkKey ex_upper_key = Inr (hash_of_bytes (replicate 32 170))" by code_simp
  then show ?thesis using chunk_keys_name_hashes by blast
qed

text \<open>The case of the hex digits is not checked, so \<^verbatim>\<open>ParseChunkKey\<close> is not injective.\<close>

lemma ParseChunkKey_case_insensitive:
  "ParseChunkKey ex_upper_key = Inr (hash_of_bytes (replicate 32 170)) \<and>
   ChunkKey (hash_of_bytes (replicate 32 170)) \<noteq> ex_upper_key"
  by code_simp

end
