(* ===== verification/Manifest.thy ===== *)
theory Manifest
  imports ChunkKey
begin

text \<open>
  The backup manifest of \<^verbatim>\<open>internal/backup/manifest.go\<close>: its structs as records, field for
  field (the unexported \<^verbatim>\<open>stream\<close> cursor apart, which only the streaming readers use), and Go's
  zero value of each. Field names carry a prefix that names their struct. LSNs are kept as the
  strings the JSON document holds.
\<close>

datatype BackupType = BackupTypeUnset | BackupTypeFull | BackupTypeIncremental
  | BackupTypeSnapshot | BackupTypeOther string

record WALGap =
  wg_SlotName :: string
  wg_SlotRole :: string
  wg_Timeline :: tli
  wg_GapStartLSN :: string
  wg_GapEndLSN :: string
  wg_GapBytes :: "64 word"
  wg_DetectedAt :: instant

record EncryptionInfo =
  ei_Scheme :: string
  ei_KEKRef :: string
  ei_WrappedDEK :: string
  ei_EnvelopeVersion :: int

record SourceTDEInfo =
  td_Engine :: string
  td_KeyRef :: string

record Tablespace =
  ts_OID :: "32 word"
  ts_Location :: string

record ChunkRef =
  cr_Hash :: Hash
  cr_Offset :: int
  cr_Len :: int

record FileEntry =
  fe_Path :: string
  fe_Size :: int
  fe_Mode :: "32 word"
  fe_ModTime :: instant
  fe_TablespaceOID :: "32 word"
  fe_Chunks :: "ChunkRef list"

record DirEntry =
  de_Path :: string
  de_Mode :: "32 word"
  de_TablespaceOID :: "32 word"

record Attestation =
  at_Scheme :: string
  at_PublicKey :: string
  at_Signature :: string

record Manifest =
  m_Schema :: string
  m_BackupID :: string
  m_Deployment :: string
  m_Tenant :: string
  m_Type :: BackupType
  m_ParentBackupID :: string
  m_PGVersion :: int
  m_SystemIdentifier :: string
  m_StartLSN :: string
  m_StopLSN :: string
  m_Timeline :: tli
  m_StartedAt :: instant
  m_StoppedAt :: instant
  m_Compression :: string
  m_Encryption :: "EncryptionInfo option"
  m_SourceTDE :: "SourceTDEInfo option"
  m_Tablespaces :: "Tablespace list"
  m_Files :: "FileEntry list"
  m_Dirs :: "DirEntry list"
  m_WALRequired :: "string list"
  m_BackupLabel :: string
  m_TablespaceMap :: string
  m_PGBackupManifest :: bytes
  m_WALGaps :: "WALGap list"
  m_Attestation :: "Attestation option"

definition Manifest_zero :: Manifest where
  "Manifest_zero =
    \<lparr>m_Schema = [], m_BackupID = [], m_Deployment = [], m_Tenant = [], m_Type = BackupTypeUnset,
     m_ParentBackupID = [], m_PGVersion = 0, m_SystemIdentifier = [], m_StartLSN = [],
     m_StopLSN = [], m_Timeline = 0, m_StartedAt = zero_time, m_StoppedAt = zero_time,
     m_Compression = [], m_Encryption = None, m_SourceTDE = None, m_Tablespaces = [],
     m_Files = [], m_Dirs = [], m_WALRequired = [], m_BackupLabel = [], m_TablespaceMap = [],
     m_PGBackupManifest = [], m_WALGaps = [], m_Attestation = None\<rparr>"

end
