(* ===== verification/Retention.thy ===== *)
theory Retention
  imports Manifest
begin

text \<open>
  \<^verbatim>\<open>internal/backup/retention\<close>: the pure package that splits a deployment's manifests into
  those to keep and those to delete. \<^verbatim>\<open>policy.go\<close> holds the decision record, the common sort and
  \<open>finalize\<close> with its three safety rules (keep the newest, keep what has no date, keep the chain
  parents of what is kept); \<^verbatim>\<open>simple.go\<close>, \<^verbatim>\<open>count.go\<close> and \<^verbatim>\<open>gfs.go\<close> hold the three policies. The
  locale \<open>retention_policy\<close> is the contract the rotate command relies on; each policy
  interprets it. The iteration order of the Go map \<^verbatim>\<open>Reasons\<close> is that of an association list;
  \<open>promoteChainParents_keys\<close> shows that the kept identifiers do not depend on it.
\<close>

subsection \<open>policy.go: decisions\<close>

type_synonym reasons = "(string \<times> string list) list"

record Decision =
  d_PolicyName :: string
  d_Keep :: "Manifest list"
  d_Delete :: "Manifest list"
  d_Reasons :: reasons

definition KeptCount :: "Decision \<Rightarrow> nat" where
  "KeptCount d = length (d_Keep d)"

definition DeletedCount :: "Decision \<Rightarrow> nat" where
  "DeletedCount d = length (d_Delete d)"

definition addReason :: "reasons \<Rightarrow> string \<Rightarrow> string \<Rightarrow> reasons" where
  "addReason rs i label =
     AList.update i ((case map_of rs i of None \<Rightarrow> [] | Some ls \<Rightarrow> ls) @ [label]) rs"

definition newer_first :: "Manifest \<Rightarrow> Manifest \<Rightarrow> bool" where
  "newer_first a b = (if m_StoppedAt a \<noteq> m_StoppedAt b then m_StoppedAt a > m_StoppedAt b
                      else m_BackupID a > m_BackupID b)"

definition sortByStoppedAtDesc :: "Manifest list \<Rightarrow> Manifest list" where
  "sortByStoppedAtDesc ms = SliceStable newer_first ms"

subsection \<open>policy.go: finalize\<close>

text \<open>The map \<^verbatim>\<open>byID\<close>, filled front to back, so that the last manifest with an identifier wins.\<close>

definition byID :: "Manifest list \<Rightarrow> string \<rightharpoonup> Manifest" where
  "byID ms = map_of (rev (map (\<lambda>m. (m_BackupID m, m)) ms))"

fun keepUndatable :: "reasons \<Rightarrow> Manifest list \<Rightarrow> reasons" where
  "keepUndatable rs [] = rs"
| "keepUndatable rs (m # ms) =
     (if m_StoppedAt m \<noteq> zero_time then keepUndatable rs ms
      else if m_BackupID m \<notin> keys rs then keepUndatable (addReason rs (m_BackupID m) ''undatable'') ms
      else keepUndatable rs ms)"

text \<open>The worklist loop: the list argument is the part of \<^verbatim>\<open>work\<close> from index \<^verbatim>\<open>i\<close> on.\<close>

lemma keys_addReason [simp]: "keys (addReason rs i l) = insert i (keys rs)"
  by (simp add: addReason_def)

lemma byID_Some_in: "byID ms i = Some m \<Longrightarrow> m \<in> set ms \<and> m_BackupID m = i"
  unfolding byID_def by (drule map_of_SomeD) auto

function (sequential) promote :: "Manifest list \<Rightarrow> reasons \<Rightarrow> string list \<Rightarrow> reasons" where
  "promote ms rs [] = rs"
| "promote ms rs (i # work) =
     (case byID ms i of
        None \<Rightarrow> promote ms rs work
      | Some m \<Rightarrow>
          if m_ParentBackupID m = [] then promote ms rs work
          else if m_ParentBackupID m \<in> keys rs then promote ms rs work
          else if byID ms (m_ParentBackupID m) = None then promote ms rs work
          else promote ms (addReason rs (m_ParentBackupID m) ''chain-anchor'')
                 (work @ [m_ParentBackupID m]))"
  by pat_completeness auto

termination
proof (relation "measures [\<lambda>(ms, rs, work). length (filter (\<lambda>m. m_BackupID m \<notin> keys rs) ms),
    \<lambda>(ms, rs, work). length work]", goal_cases)
  case (6 ms rs i work m)
  from 6(4) obtain p where "byID ms (m_ParentBackupID m) = Some p" by auto
  then have "p \<in> set ms" "m_BackupID p = m_ParentBackupID m" by (auto dest: byID_Some_in)
  with 6(3) show ?case by (auto intro!: length_filter_strict)
qed simp_all

definition promoteChainParents :: "reasons \<Rightarrow> Manifest list \<Rightarrow> reasons" where
  "promoteChainParents rs ms = promote ms rs (map fst rs)"

definition finalize :: "Decision \<Rightarrow> Manifest list \<Rightarrow> Decision" where
  "finalize d ms =
     (case ms of
        [] \<Rightarrow> d
      | newest # _ \<Rightarrow>
          (let rs0 = d_Reasons d;
               rs1 = (if m_BackupID newest \<notin> keys rs0
                      then addReason rs0 (m_BackupID newest) ''newest'' else rs0);
               rs2 = keepUndatable rs1 ms;
               rs3 = promoteChainParents rs2 ms
           in d\<lparr>d_Reasons := rs3,
                d_Keep := d_Keep d @ filter (\<lambda>m. m_BackupID m \<in> keys rs3) ms,
                d_Delete := d_Delete d @ filter (\<lambda>m. m_BackupID m \<notin> keys rs3) ms\<rparr>))"

subsection \<open>simple.go\<close>

record SimplePolicy =
  sp_KeepFor :: duration

fun simple_loop :: "SimplePolicy \<Rightarrow> instant \<Rightarrow> reasons \<Rightarrow> Manifest list \<Rightarrow> reasons" where
  "simple_loop p cutoff rs [] = rs"
| "simple_loop p cutoff rs (m # ms) =
     (if \<not> m_StoppedAt m < cutoff
      then simple_loop p cutoff
             (addReason rs (m_BackupID m) (''within-'' @ Duration_String (sp_KeepFor p))) ms
      else simple_loop p cutoff rs ms)"

definition no_decision :: "string \<Rightarrow> Decision" where
  "no_decision name = \<lparr>d_PolicyName = name, d_Keep = [], d_Delete = [], d_Reasons = []\<rparr>"

definition SimplePolicy_Apply :: "SimplePolicy \<Rightarrow> instant \<Rightarrow> Manifest list \<Rightarrow> Decision" where
  "SimplePolicy_Apply p now ms =
     (let sorted = sortByStoppedAtDesc ms; cutoff = now - sp_KeepFor p
      in finalize ((no_decision ''simple'')\<lparr>d_Reasons := simple_loop p cutoff [] sorted\<rparr>) sorted)"

subsection \<open>count.go\<close>

record CountPolicy =
  cp_KeepFulls :: int

fun count_loop :: "int \<Rightarrow> int \<Rightarrow> reasons \<Rightarrow> Manifest list \<Rightarrow> reasons" where
  "count_loop keep picked rs [] = rs"
| "count_loop keep picked rs (m # ms) =
     (if m_Type m \<noteq> BackupTypeFull \<and> m_Type m \<noteq> BackupTypeUnset then count_loop keep picked rs ms
      else if picked \<ge> keep then rs
      else count_loop keep (picked + 1)
             (addReason rs (m_BackupID m) (''full-'' @ fmt_d 1 (picked + 1))) ms)"

definition CountPolicy_Apply :: "CountPolicy \<Rightarrow> instant \<Rightarrow> Manifest list \<Rightarrow> Decision" where
  "CountPolicy_Apply p now ms =
     (let sorted = sortByStoppedAtDesc ms;
          keep = (if cp_KeepFulls p < 0 then 0 else cp_KeepFulls p)
      in finalize ((no_decision ''count'')\<lparr>d_Reasons := count_loop keep 0 [] sorted\<rparr>) sorted)"

subsection \<open>gfs.go\<close>

record GFSPolicy =
  gp_KeepDaily :: int
  gp_KeepWeekly :: int
  gp_KeepMonthly :: int
  gp_KeepYearly :: int

definition dailyKey :: "instant \<Rightarrow> string" where
  "dailyKey t = fmt_d 4 (Year t) @ ''-'' @ fmt_d 2 (Month t) @ ''-'' @ fmt_d 2 (Day t)"

definition isoWeekKey :: "instant \<Rightarrow> string" where
  "isoWeekKey t = (case ISOWeek t of (y, w) \<Rightarrow> fmt_d 4 y @ ''-W'' @ fmt_d 2 w)"

definition monthlyKey :: "instant \<Rightarrow> string" where
  "monthlyKey t = fmt_d 4 (Year t) @ ''-'' @ fmt_d 2 (Month t)"

definition yearlyKey :: "instant \<Rightarrow> string" where
  "yearlyKey t = fmt_d 4 (Year t)"

fun bucket_loop :: "(instant \<Rightarrow> string) \<Rightarrow> string \<Rightarrow> int \<Rightarrow> string list \<Rightarrow> int \<Rightarrow> reasons \<Rightarrow>
    Manifest list \<Rightarrow> reasons" where
  "bucket_loop key label keep seen picked rs [] = rs"
| "bucket_loop key label keep seen picked rs (m # ms) =
     (let k = key (m_StoppedAt m) in
      if k \<in> set seen then bucket_loop key label keep seen picked rs ms
      else let picked' = picked + 1;
               rs' = addReason rs (m_BackupID m) (label @ ''-'' @ fmt_d 1 picked')
           in if picked' \<ge> keep then rs'
              else bucket_loop key label keep (k # seen) picked' rs' ms)"

definition pickPerBucket :: "reasons \<Rightarrow> Manifest list \<Rightarrow> int \<Rightarrow> string \<Rightarrow>
    (instant \<Rightarrow> string) \<Rightarrow> reasons" where
  "pickPerBucket rs ms keep label key =
     (if keep \<le> 0 then rs else bucket_loop key label keep [] 0 rs ms)"

definition GFSPolicy_Apply :: "GFSPolicy \<Rightarrow> instant \<Rightarrow> Manifest list \<Rightarrow> Decision" where
  "GFSPolicy_Apply p now ms =
     (let sorted = sortByStoppedAtDesc ms;
          rs1 = pickPerBucket [] sorted (gp_KeepDaily p) ''daily'' dailyKey;
          rs2 = pickPerBucket rs1 sorted (gp_KeepWeekly p) ''weekly'' isoWeekKey;
          rs3 = pickPerBucket rs2 sorted (gp_KeepMonthly p) ''monthly'' monthlyKey;
          rs4 = pickPerBucket rs3 sorted (gp_KeepYearly p) ''yearly'' yearlyKey
      in finalize ((no_decision ''gfs'')\<lparr>d_Reasons := rs4\<rparr>) sorted)"

subsection \<open>The Policy interface\<close>

datatype Policy = Simple SimplePolicy | Count CountPolicy | GFS GFSPolicy

fun Policy_Apply :: "Policy \<Rightarrow> instant \<Rightarrow> Manifest list \<Rightarrow> Decision" where
  "Policy_Apply (Simple p) = SimplePolicy_Apply p"
| "Policy_Apply (Count p) = CountPolicy_Apply p"
| "Policy_Apply (GFS p) = GFSPolicy_Apply p"

text \<open>
  Specification of what a policy selects before the safety rules apply: every backup inside the
  window; the newest fulls; for each calendar unit the newest backup of each of the newest
  buckets. \<open>firsts key seen xs\<close> is the first element of each key class not in \<open>seen\<close>.
\<close>

fun firsts :: "('a \<Rightarrow> 'k) \<Rightarrow> 'k list \<Rightarrow> 'a list \<Rightarrow> 'a list" where
  "firsts key seen [] = []"
| "firsts key seen (x # xs) =
     (if key x \<in> set seen then firsts key seen xs else x # firsts key (key x # seen) xs)"

definition newest_buckets :: "(instant \<Rightarrow> string) \<Rightarrow> int \<Rightarrow> Manifest list \<Rightarrow> Manifest list" where
  "newest_buckets key keep ms = take (nat keep) (firsts (\<lambda>m. key (m_StoppedAt m)) [] ms)"

definition is_full :: "Manifest \<Rightarrow> bool" where
  "is_full m \<longleftrightarrow> m_Type m = BackupTypeFull \<or> m_Type m = BackupTypeUnset"

fun selected :: "Policy \<Rightarrow> instant \<Rightarrow> Manifest list \<Rightarrow> Manifest set" where
  "selected (Simple p) now ms = {m \<in> set ms. now - sp_KeepFor p \<le> m_StoppedAt m}"
| "selected (Count p) now ms = set (take (nat (cp_KeepFulls p)) (filter is_full (sortByStoppedAtDesc ms)))"
| "selected (GFS p) now ms =
     (let s = sortByStoppedAtDesc ms in
      set (newest_buckets dailyKey (gp_KeepDaily p) s) \<union>
      set (newest_buckets isoWeekKey (gp_KeepWeekly p) s) \<union>
      set (newest_buckets monthlyKey (gp_KeepMonthly p) s) \<union>
      set (newest_buckets yearlyKey (gp_KeepYearly p) s))"

subsection \<open>The worklist computes the ancestors of what is kept\<close>

text \<open>
  \<open>parent_link ms i p\<close>: the manifest stored under \<open>i\<close> names \<open>p\<close> as its parent and \<open>p\<close> is in the
  input. The chain of a backup is the reflexive transitive closure.
\<close>

definition parent_link :: "Manifest list \<Rightarrow> string \<Rightarrow> string \<Rightarrow> bool" where
  "parent_link ms i p \<longleftrightarrow>
     (case byID ms i of None \<Rightarrow> False
      | Some m \<Rightarrow> m_ParentBackupID m = p \<and> p \<noteq> [] \<and> byID ms p \<noteq> None)"

lemma parent_linkI:
  "byID ms i = Some m \<Longrightarrow> m_ParentBackupID m = p \<Longrightarrow> p \<noteq> [] \<Longrightarrow> byID ms p \<noteq> None \<Longrightarrow> parent_link ms i p"
  by (simp add: parent_link_def)

lemma keys_promote_mono: "keys rs \<subseteq> keys (promote ms rs work)"
  by (induction ms rs work rule: promote.induct) (auto split: option.splits)

text \<open>The loop body in terms of links: only a fresh parent is promoted and queued.\<close>

definition fresh_parent :: "Manifest list \<Rightarrow> reasons \<Rightarrow> string \<Rightarrow> string option" where
  "fresh_parent ms rs i =
     (case byID ms i of None \<Rightarrow> None
      | Some m \<Rightarrow> if parent_link ms i (m_ParentBackupID m) \<and> m_ParentBackupID m \<notin> keys rs
                  then Some (m_ParentBackupID m) else None)"

lemma promote_Cons:
  "promote ms rs (i # work) =
     (case fresh_parent ms rs i of None \<Rightarrow> promote ms rs work
      | Some p \<Rightarrow> promote ms (addReason rs p ''chain-anchor'') (work @ [p]))"
  by (auto simp: fresh_parent_def parent_link_def split: option.splits)

lemma fresh_parent_None: "fresh_parent ms rs i = None \<Longrightarrow> parent_link ms i p \<Longrightarrow> p \<in> keys rs"
  by (auto simp: fresh_parent_def parent_link_def split: option.splits if_splits)

lemma fresh_parent_Some:
  "fresh_parent ms rs i = Some p \<Longrightarrow> parent_link ms i q \<longleftrightarrow> q = p"
  "fresh_parent ms rs i = Some p \<Longrightarrow> p \<notin> keys rs"
  by (auto simp: fresh_parent_def parent_link_def split: option.splits if_splits)

lemma promote_induct [case_names Nil Skip Promote]:
  assumes nil: "\<And>ms rs. P ms rs []"
    and skip: "\<And>ms rs i work. fresh_parent ms rs i = None \<Longrightarrow> P ms rs work \<Longrightarrow> P ms rs (i # work)"
    and push: "\<And>ms rs i work p. fresh_parent ms rs i = Some p \<Longrightarrow>
      P ms (addReason rs p ''chain-anchor'') (work @ [p]) \<Longrightarrow> P ms rs (i # work)"
  shows "P ms rs work"
proof (induction ms rs work rule: promote.induct)
  case (2 ms rs i work)
  show ?case
  proof (cases "byID ms i")
    case None
    then have "fresh_parent ms rs i = None" by (simp add: fresh_parent_def)
    then show ?thesis using 2(1) [OF None] by (rule skip)
  next
    case (Some m)
    show ?thesis
    proof (cases "parent_link ms i (m_ParentBackupID m) \<and> m_ParentBackupID m \<notin> keys rs")
      case True
      then have f: "fresh_parent ms rs i = Some (m_ParentBackupID m)"
        using Some by (simp add: fresh_parent_def)
      show ?thesis by (rule push [OF f]) (use True Some 2(5) in \<open>auto simp: parent_link_def\<close>)
    next
      case False
      then have f: "fresh_parent ms rs i = None"
        using Some by (auto simp: fresh_parent_def)
      show ?thesis by (rule skip [OF f]) (use False Some 2(2-4) in \<open>auto simp: parent_link_def\<close>)
    qed
  qed
qed (rule nil)

lemma promote_closed:
  assumes "\<forall>i\<in>keys rs - set work. \<forall>p. parent_link ms i p \<longrightarrow> p \<in> keys rs"
  shows "\<forall>i\<in>keys (promote ms rs work). \<forall>p. parent_link ms i p \<longrightarrow> p \<in> keys (promote ms rs work)"
  using assms
proof (induction ms rs work rule: promote_induct)
  case (Skip ms rs i work)
  have "\<forall>j\<in>keys rs - set work. \<forall>p. parent_link ms j p \<longrightarrow> p \<in> keys rs"
    using Skip(3) fresh_parent_None [OF Skip(1)] by (metis DiffD1 DiffD2 DiffI set_ConsD)
  from Skip(2) [OF this] show ?case using Skip(1) by (simp only: promote_Cons option.case)
next
  case (Promote ms rs i work p)
  let ?rs = "addReason rs p ''chain-anchor''"
  have "\<forall>j\<in>keys ?rs - set (work @ [p]). \<forall>q. parent_link ms j q \<longrightarrow> q \<in> keys ?rs"
  proof (intro ballI allI impI)
    fix j q assume j: "j \<in> keys ?rs - set (work @ [p])" and l: "parent_link ms j q"
    show "q \<in> keys ?rs"
    proof (cases "j = i")
      case True
      with l have "q = p" by (simp add: fresh_parent_Some(1) [OF Promote(1)])
      then show ?thesis by simp
    next
      case False
      with j have "j \<in> keys rs - set (i # work)" by simp
      with Promote(3) l have "q \<in> keys rs" by blast
      then show ?thesis by simp
    qed
  qed
  from Promote(2) [OF this] show ?case using Promote(1) by (simp only: promote_Cons option.case)
qed simp

lemma promote_sound:
  assumes "set work \<subseteq> keys rs" "keys rs \<subseteq> {x. \<exists>i\<in>S. (parent_link ms)\<^sup>*\<^sup>* i x}"
  shows "keys (promote ms rs work) \<subseteq> {x. \<exists>i\<in>S. (parent_link ms)\<^sup>*\<^sup>* i x}"
  using assms
proof (induction ms rs work rule: promote_induct)
  case (Promote ms rs i work p)
  then have "\<exists>s\<in>S. (parent_link ms)\<^sup>*\<^sup>* s i" by auto
  moreover have "parent_link ms i p" using Promote(1) by (simp add: fresh_parent_Some)
  ultimately have "\<exists>s\<in>S. (parent_link ms)\<^sup>*\<^sup>* s p" by (meson rtranclp.rtrancl_into_rtrancl)
  with Promote show ?case by (auto simp: promote_Cons simp del: promote.simps)
qed (auto simp: promote_Cons simp del: promote.simps(2))

theorem promoteChainParents_keys:
  "keys (promoteChainParents rs ms) = {x. \<exists>i\<in>keys rs. (parent_link ms)\<^sup>*\<^sup>* i x}"
proof
  have "set (map fst rs) = keys rs" by (auto simp: keys_def)
  then show "keys (promoteChainParents rs ms) \<subseteq> {x. \<exists>i\<in>keys rs. (parent_link ms)\<^sup>*\<^sup>* i x}"
    unfolding promoteChainParents_def by (intro promote_sound) auto
next
  have closed: "p \<in> keys (promoteChainParents rs ms)"
    if "i \<in> keys (promoteChainParents rs ms)" "parent_link ms i p" for i p
    using promote_closed [of rs "map fst rs" ms] that
    unfolding promoteChainParents_def keys_def by force
  show "{x. \<exists>i\<in>keys rs. (parent_link ms)\<^sup>*\<^sup>* i x} \<subseteq> keys (promoteChainParents rs ms)"
  proof clarsimp
    fix i x assume "i \<in> keys rs" "(parent_link ms)\<^sup>*\<^sup>* i x"
    from this(2,1) show "x \<in> keys (promoteChainParents rs ms)"
    proof (induction rule: rtranclp_induct)
      case base
      then show ?case using keys_promote_mono unfolding promoteChainParents_def by blast
    qed (use closed in blast)
  qed
qed

subsection \<open>What each loop selects\<close>

lemma keys_simple_loop:
  "keys (simple_loop p cutoff rs ms) = keys rs \<union> m_BackupID ` {m \<in> set ms. cutoff \<le> m_StoppedAt m}"
  by (induction ms arbitrary: rs) auto

lemma keys_count_loop:
  "0 \<le> picked \<Longrightarrow> keys (count_loop keep picked rs ms) =
     keys rs \<union> m_BackupID ` set (take (nat (keep - picked)) (filter is_full ms))"
proof (induction ms arbitrary: rs picked)
  case (Cons m ms)
  have "nat (keep - picked) = Suc (nat (keep - (picked + 1)))" if "picked < keep"
    using that by arith
  then show ?case using Cons by (auto simp: is_full_def)
qed simp

lemma keys_bucket_loop:
  "picked < keep \<Longrightarrow> keys (bucket_loop key label keep seen picked rs ms) =
     keys rs \<union> m_BackupID ` set (take (nat (keep - picked)) (firsts (\<lambda>m. key (m_StoppedAt m)) seen ms))"
proof (induction ms arbitrary: rs picked seen)
  case (Cons m ms)
  have n: "nat (keep - picked) = Suc (nat (keep - (picked + 1)))"
    using Cons.prems by arith
  show ?case
  proof (cases "picked + 1 < keep")
    case True
    then show ?thesis using Cons n by (auto simp: Let_def)
  next
    case False
    then have "nat (keep - (picked + 1)) = 0" by simp
    then show ?thesis using Cons n False by (auto simp: Let_def)
  qed
qed simp

lemma keys_pickPerBucket:
  "keys (pickPerBucket rs ms keep label key) =
     keys rs \<union> m_BackupID ` set (newest_buckets key keep ms)"
  by (auto simp: pickPerBucket_def keys_bucket_loop newest_buckets_def)

lemma keys_keepUndatable:
  "keys (keepUndatable rs ms) = keys rs \<union> m_BackupID ` {m \<in> set ms. m_StoppedAt m = zero_time}"
  by (induction ms arbitrary: rs) auto

lemma set_sortByStoppedAtDesc [simp]: "set (sortByStoppedAtDesc ms) = set ms"
  by (simp add: sortByStoppedAtDesc_def)

lemma mset_sortByStoppedAtDesc [simp]: "mset (sortByStoppedAtDesc ms) = mset ms"
  by (simp add: sortByStoppedAtDesc_def)

lemma newest_is_hd: "m \<in> set ms \<Longrightarrow> m_StoppedAt m \<le> m_StoppedAt (hd (sortByStoppedAtDesc ms))"
proof -
  assume m: "m \<in> set ms"
  have "sorted_wrt (\<lambda>a b. \<not> newer_first b a) (sortByStoppedAtDesc ms)"
    unfolding sortByStoppedAtDesc_def
    by (rule sorted_SliceStable) (auto simp: newer_first_def split: if_splits)
  moreover from m have "m \<in> set (sortByStoppedAtDesc ms)" by simp
  ultimately show ?thesis
    by (cases "sortByStoppedAtDesc ms") (auto simp: newer_first_def split: if_splits)
qed

subsection \<open>finalize\<close>

definition kept_ids :: "reasons \<Rightarrow> Manifest list \<Rightarrow> string set" where
  "kept_ids rs ms =
     {x. \<exists>i. i \<in> keys rs \<union> {m_BackupID (hd ms)} \<union> m_BackupID ` {m \<in> set ms. m_StoppedAt m = zero_time}
          \<and> (parent_link ms)\<^sup>*\<^sup>* i x}"

lemma finalize_keep:
  "ms \<noteq> [] \<Longrightarrow> d_Keep (finalize d ms) =
     d_Keep d @ filter (\<lambda>m. m_BackupID m \<in> kept_ids (d_Reasons d) ms) ms"
  "ms \<noteq> [] \<Longrightarrow> d_Delete (finalize d ms) =
     d_Delete d @ filter (\<lambda>m. m_BackupID m \<notin> kept_ids (d_Reasons d) ms) ms"
  by (auto simp: finalize_def kept_ids_def promoteChainParents_keys keys_keepUndatable Let_def
      insert_absorb split: list.splits intro!: filter_cong)

lemma finalize_Nil [simp]: "finalize d [] = d"
  by (simp add: finalize_def)

text \<open>The reasons a policy has recorded when it calls \<open>finalize\<close>.\<close>

fun policy_reasons :: "Policy \<Rightarrow> instant \<Rightarrow> Manifest list \<Rightarrow> reasons" where
  "policy_reasons (Simple p) now s = simple_loop p (now - sp_KeepFor p) [] s"
| "policy_reasons (Count p) now s =
     count_loop (if cp_KeepFulls p < 0 then 0 else cp_KeepFulls p) 0 [] s"
| "policy_reasons (GFS p) now s =
     pickPerBucket (pickPerBucket (pickPerBucket (pickPerBucket []
       s (gp_KeepDaily p) ''daily'' dailyKey) s (gp_KeepWeekly p) ''weekly'' isoWeekKey)
       s (gp_KeepMonthly p) ''monthly'' monthlyKey) s (gp_KeepYearly p) ''yearly'' yearlyKey"

lemma Policy_Apply_finalize:
  "\<exists>name. Policy_Apply p now ms =
     finalize ((no_decision name)\<lparr>d_Reasons := policy_reasons p now (sortByStoppedAtDesc ms)\<rparr>)
       (sortByStoppedAtDesc ms)"
  by (cases p) (auto simp: SimplePolicy_Apply_def CountPolicy_Apply_def GFSPolicy_Apply_def Let_def)

lemma keys_policy_reasons:
  "keys (policy_reasons p now (sortByStoppedAtDesc ms)) = m_BackupID ` selected p now ms"
  by (cases p) (auto simp: keys_simple_loop keys_count_loop keys_pickPerBucket Let_def)

definition policy_kept_ids :: "Policy \<Rightarrow> instant \<Rightarrow> Manifest list \<Rightarrow> string set" where
  "policy_kept_ids p now ms =
     kept_ids (policy_reasons p now (sortByStoppedAtDesc ms)) (sortByStoppedAtDesc ms)"

lemma sort_eq_Nil [simp]: "sortByStoppedAtDesc ms = [] \<longleftrightarrow> ms = []"
  by (simp add: sortByStoppedAtDesc_def)

lemma Policy_Apply_keep:
  "d_Keep (Policy_Apply p now ms) =
     filter (\<lambda>m. m_BackupID m \<in> policy_kept_ids p now ms) (sortByStoppedAtDesc ms)"
  "d_Delete (Policy_Apply p now ms) =
     filter (\<lambda>m. m_BackupID m \<notin> policy_kept_ids p now ms) (sortByStoppedAtDesc ms)"
proof -
  obtain name where eq: "Policy_Apply p now ms =
     finalize ((no_decision name)\<lparr>d_Reasons := policy_reasons p now (sortByStoppedAtDesc ms)\<rparr>)
       (sortByStoppedAtDesc ms)"
    using Policy_Apply_finalize by blast
  show "d_Keep (Policy_Apply p now ms) =
     filter (\<lambda>m. m_BackupID m \<in> policy_kept_ids p now ms) (sortByStoppedAtDesc ms)"
    unfolding eq by (cases "ms = []")
      (simp_all add: finalize_keep policy_kept_ids_def no_decision_def sortByStoppedAtDesc_def)
  show "d_Delete (Policy_Apply p now ms) =
     filter (\<lambda>m. m_BackupID m \<notin> policy_kept_ids p now ms) (sortByStoppedAtDesc ms)"
    unfolding eq by (cases "ms = []")
      (simp_all add: finalize_keep policy_kept_ids_def no_decision_def sortByStoppedAtDesc_def)
qed

lemma kept_ids_self: "i \<in> keys rs \<Longrightarrow> i \<in> kept_ids rs ms"
  "m_BackupID (hd ms) \<in> kept_ids rs ms"
  "m \<in> set ms \<Longrightarrow> m_StoppedAt m = zero_time \<Longrightarrow> m_BackupID m \<in> kept_ids rs ms"
  by (auto simp: kept_ids_def)

lemma kept_ids_parent: "i \<in> kept_ids rs ms \<Longrightarrow> parent_link ms i p \<Longrightarrow> p \<in> kept_ids rs ms"
  unfolding kept_ids_def by (blast intro: rtranclp.rtrancl_into_rtrancl)

lemma byID_distinct: "distinct (map m_BackupID ms) \<Longrightarrow> m \<in> set ms \<Longrightarrow> byID ms (m_BackupID m) = Some m"
  unfolding byID_def by (intro map_of_is_SomeI) (auto simp: rev_map [symmetric] o_def)

text \<open>\<open>parent_in ms m p\<close>: \<open>p\<close> is the manifest of the input that \<open>m\<close> names as its parent.\<close>

definition parent_in :: "Manifest list \<Rightarrow> Manifest \<Rightarrow> Manifest \<Rightarrow> bool" where
  "parent_in ms m p \<longleftrightarrow> p \<in> set ms \<and> m_BackupID p \<noteq> [] \<and> m_ParentBackupID m = m_BackupID p"

lemma parent_in_link:
  "distinct (map m_BackupID ms) \<Longrightarrow> m \<in> set ms \<Longrightarrow> parent_in ms m p \<Longrightarrow>
     parent_link ms (m_BackupID m) (m_BackupID p)"
  by (auto simp: parent_in_def byID_distinct intro!: parent_linkI)

subsection \<open>The contract of a retention policy\<close>

text \<open>
  What \<^verbatim>\<open>rotate\<close> relies on: a decision splits its input, keeps the newest backup and every
  backup without a stop time, and never keeps a backup while deleting its parent.
\<close>

locale retention_policy =
  fixes Apply :: "instant \<Rightarrow> Manifest list \<Rightarrow> Decision"
  assumes split: "mset (d_Keep (Apply now ms)) + mset (d_Delete (Apply now ms)) = mset ms"
    and newest: "ms \<noteq> [] \<Longrightarrow> hd (sortByStoppedAtDesc ms) \<in> set (d_Keep (Apply now ms))"
    and undatable: "m \<in> set ms \<Longrightarrow> m_StoppedAt m = zero_time \<Longrightarrow> m \<in> set (d_Keep (Apply now ms))"
    and parent: "distinct (map m_BackupID ms) \<Longrightarrow> m \<in> set (d_Keep (Apply now ms)) \<Longrightarrow>
      parent_in ms m p \<Longrightarrow> p \<in> set (d_Keep (Apply now ms))"
begin

lemma never_empty: "ms \<noteq> [] \<Longrightarrow> 1 \<le> KeptCount (Apply now ms)"
  using newest [of ms now] by (cases "d_Keep (Apply now ms)") (auto simp: KeptCount_def)

lemma keep_subset: "m \<in> set (d_Keep (Apply now ms)) \<Longrightarrow> m \<in> set ms"
  using split [of now ms] by (metis set_mset_mset set_mset_union UnI1)

lemma ancestors_kept:
  assumes "distinct (map m_BackupID ms)" "(parent_in ms)\<^sup>*\<^sup>* m a" "m \<in> set (d_Keep (Apply now ms))"
  shows "a \<in> set (d_Keep (Apply now ms))"
  using assms(2,3) by (induction rule: rtranclp_induct) (auto intro: parent [OF assms(1)])

lemma distinct_parts:
  assumes "distinct ms"
  shows "set (d_Keep (Apply now ms)) \<inter> set (d_Delete (Apply now ms)) = {}"
proof -
  have "distinct (d_Keep (Apply now ms) @ d_Delete (Apply now ms))"
    using assms split [of now ms] by (metis mset_append mset_eq_imp_distinct_iff)
  then show ?thesis by simp
qed

lemma deleted_not_an_ancestor:
  assumes "distinct (map m_BackupID ms)" "m \<in> set (d_Keep (Apply now ms))"
    "x \<in> set (d_Delete (Apply now ms))"
  shows "\<not> (parent_in ms)\<^sup>*\<^sup>* m x"
proof
  assume "(parent_in ms)\<^sup>*\<^sup>* m x"
  then have "x \<in> set (d_Keep (Apply now ms))" using assms(1,2) by (blast intro: ancestors_kept)
  with distinct_parts [of ms now] assms(1,3) show False by (auto simp: distinct_map)
qed

end

interpretation pol: retention_policy "Policy_Apply p" for p
proof unfold_locales
  fix now ms
  show "mset (d_Keep (Policy_Apply p now ms)) + mset (d_Delete (Policy_Apply p now ms)) = mset ms"
    by (simp only: Policy_Apply_keep mset_filter_split mset_sortByStoppedAtDesc)
next
  fix now :: instant and ms :: "Manifest list"
  assume "ms \<noteq> []"
  then show "hd (sortByStoppedAtDesc ms) \<in> set (d_Keep (Policy_Apply p now ms))"
    using hd_in_set [of "sortByStoppedAtDesc ms"]
    by (simp add: Policy_Apply_keep policy_kept_ids_def kept_ids_self(2))
next
  fix m :: Manifest and now ms
  assume "m \<in> set ms" "m_StoppedAt m = zero_time"
  then show "m \<in> set (d_Keep (Policy_Apply p now ms))"
    by (simp add: Policy_Apply_keep policy_kept_ids_def kept_ids_self)
next
  fix ms :: "Manifest list" and m q now
  assume d: "distinct (map m_BackupID ms)" and m: "m \<in> set (d_Keep (Policy_Apply p now ms))"
    and q: "parent_in ms m q"
  let ?s = "sortByStoppedAtDesc ms"
  have "distinct (map m_BackupID ?s)" using d by (simp add: sortByStoppedAtDesc_def)
  moreover have "parent_in ?s m q" using q by (simp add: parent_in_def)
  ultimately have "parent_link ?s (m_BackupID m) (m_BackupID q)"
    using m by (intro parent_in_link) (auto simp: Policy_Apply_keep)
  then have "m_BackupID q \<in> policy_kept_ids p now ms"
    using m by (auto simp: Policy_Apply_keep policy_kept_ids_def intro: kept_ids_parent)
  then show "q \<in> set (d_Keep (Policy_Apply p now ms))"
    using q by (simp add: Policy_Apply_keep parent_in_def)
qed

text \<open>A full from long ago, an incremental on top of it, and an unrelated old full.\<close>

definition ex_manifest :: "string \<Rightarrow> string \<Rightarrow> instant \<Rightarrow> Manifest" where
  "ex_manifest i parent t = Manifest_zero\<lparr>m_BackupID := i, m_ParentBackupID := parent,
     m_Type := (if parent = [] then BackupTypeFull else BackupTypeIncremental), m_StoppedAt := t\<rparr>"

definition ex_chain :: "Manifest list" where
  "ex_chain = [ex_manifest ''a'' [] 1, ex_manifest ''b'' ''a'' 90, ex_manifest ''c'' [] 2]"

lemma ex_chain_decision:
  "map m_BackupID (d_Keep (Policy_Apply (Simple \<lparr>sp_KeepFor = 20\<rparr>) 100 ex_chain)) = [''b'', ''a'']"
  "d_Delete (Policy_Apply (Simple \<lparr>sp_KeepFor = 20\<rparr>) 100 ex_chain) = [ex_manifest ''c'' [] 2]"
  "ex_manifest ''b'' ''a'' 90 \<in> set (d_Keep (Policy_Apply (Simple \<lparr>sp_KeepFor = 20\<rparr>) 100 ex_chain))"
  by code_simp+

subsection \<open>Properties\<close>

text \<open>
  C1. A retention policy decides exactly as specified. Whatever the policy (simple window, newest
  fulls, or grandfather-father-son buckets), the kept manifests are those of the input that are
  selected by the policy, or are the newest, or have no stop time, together with all their
  ancestors along \<^verbatim>\<open>parent_backup_id\<close>; everything else is deleted.
\<close>

theorem policy_decides_exactly:
  assumes "ms \<noteq> []"
  shows "set (d_Keep (Policy_Apply p now ms)) =
    {m \<in> set ms. \<exists>s \<in> selected p now ms \<union> {hd (sortByStoppedAtDesc ms)} \<union>
        {s \<in> set ms. m_StoppedAt s = zero_time}.
      (parent_link (sortByStoppedAtDesc ms))\<^sup>*\<^sup>* (m_BackupID s) (m_BackupID m)}
    \<and> mset (d_Keep (Policy_Apply p now ms)) + mset (d_Delete (Policy_Apply p now ms)) = mset ms"
  using pol.split [where p = p]
  by (auto simp: Policy_Apply_keep policy_kept_ids_def kept_ids_def keys_policy_reasons)

theorem policy_decides_exactly_witness:
  "ex_manifest ''a'' [] 1 \<in> set (d_Keep (Policy_Apply (Simple \<lparr>sp_KeepFor = 20\<rparr>) 100 ex_chain)) \<and>
   (\<exists>s \<in> selected (Simple \<lparr>sp_KeepFor = 20\<rparr>) 100 ex_chain \<union> {hd (sortByStoppedAtDesc ex_chain)} \<union>
        {s \<in> set ex_chain. m_StoppedAt s = zero_time}.
      (parent_link (sortByStoppedAtDesc ex_chain))\<^sup>*\<^sup>* (m_BackupID s) ''a'')"
proof -
  have ne: "ex_chain \<noteq> []" by (simp add: ex_chain_def)
  have a: "ex_manifest ''a'' [] 1 \<in> set (d_Keep (Policy_Apply (Simple \<lparr>sp_KeepFor = 20\<rparr>) 100 ex_chain))"
    by code_simp
  with policy_decides_exactly [OF ne, of "Simple \<lparr>sp_KeepFor = 20\<rparr>" 100] show ?thesis
    by (simp add: ex_manifest_def)
qed

text \<open>
  C2. Deleting what a policy rejects never breaks a backup that stays: with distinct backup
  identifiers, no manifest marked for deletion is an ancestor (at any depth) of a kept one.
\<close>

theorem policy_never_breaks_a_chain:
  assumes "distinct (map m_BackupID ms)" "m \<in> set (d_Keep (Policy_Apply p now ms))"
    "x \<in> set (d_Delete (Policy_Apply p now ms))"
  shows "\<not> (parent_in ms)\<^sup>*\<^sup>* m x"
  using assms by (rule pol.deleted_not_an_ancestor)

theorem policy_never_breaks_a_chain_witness:
  "\<not> (parent_in ex_chain)\<^sup>*\<^sup>* (ex_manifest ''b'' ''a'' 90) (ex_manifest ''c'' [] 2)"
proof (rule policy_never_breaks_a_chain [OF _ ex_chain_decision(3)])
  show "distinct (map m_BackupID ex_chain)" by code_simp
  show "ex_manifest ''c'' [] 2 \<in>
      set (d_Delete (Policy_Apply (Simple \<lparr>sp_KeepFor = 20\<rparr>) 100 ex_chain))"
    by (simp add: ex_chain_decision(2) del: Policy_Apply.simps)
qed

text \<open>
  C3. No policy, however aggressive, empties a deployment: the backup with the latest stop time is
  kept.
\<close>

theorem policy_keeps_newest:
  assumes "ms \<noteq> []"
  shows "\<exists>n \<in> set (d_Keep (Policy_Apply p now ms)). \<forall>m \<in> set ms. m_StoppedAt m \<le> m_StoppedAt n"
  using pol.newest [OF assms] newest_is_hd by blast

theorem policy_keeps_newest_witness:
  "\<exists>n \<in> set (d_Keep (Policy_Apply (Count \<lparr>cp_KeepFulls = 0\<rparr>) 100 ex_chain)).
     \<forall>m \<in> set ex_chain. m_StoppedAt m \<le> m_StoppedAt n"
  by (rule policy_keeps_newest) (simp add: ex_chain_def)

end
