(* ===== verification/Storage.thy ===== *)
theory Storage
  imports ChunkKey
begin

text \<open>
  \<^verbatim>\<open>internal/plugin/storage\<close>: the contract every backend implements (\<^verbatim>\<open>storage.go\<close>), the exclusive
  commit built on it (\<^verbatim>\<open>commit.go\<close>), bounded reads (\<^verbatim>\<open>readlimit.go\<close>) and staging reaping
  (\<^verbatim>\<open>staging.go\<close>). The interface \<^verbatim>\<open>StoragePlugin\<close> is a record of functions over a world \<open>'w\<close>; each
  returns its result and the new world, so an error and the state it leaves behind are both visible.
  The optional interfaces a backend may implement are \<open>option\<close> fields. A listing is the sequence the
  iterator yields and the error it ends with. What the clock, the context and the random source
  return is read from the world through a \<open>runtime\<close>; \<open>rt_Sleep\<close> is a \<^verbatim>\<open>select\<close> between the context's end and a timer.

  The locale \<open>object_store\<close> states the documented contract on an abstract state: a map from keys to
  objects and the queue of deferred writes. Its lemmas are what the clients rely on.
\<close>

subsection \<open>Types\<close>

datatype ctx = CallerCtx | CleanupCtx

record 'w runtime =
  rt_Now :: "'w \<Rightarrow> instant \<times> 'w"
  rt_CtxErr :: "ctx \<Rightarrow> 'w \<Rightarrow> error option \<times> 'w"
  rt_Rand :: "nat \<Rightarrow> 'w \<Rightarrow> bytes \<times> 'w"
  rt_Sleep :: "ctx \<Rightarrow> duration \<Rightarrow> 'w \<Rightarrow> error option \<times> 'w"

record Capabilities =
  cap_WORM :: bool
  cap_ConditionalPut :: bool
  cap_Multipart :: bool
  cap_ServerSideEncryption :: bool
  cap_CrossRegionReplicate :: bool
  cap_StorageClassSelectable :: bool
  cap_VerifiesContentSHA256 :: bool
  cap_InlineDurable :: bool
  cap_DurabilityBarrier :: bool

definition zero_Capabilities :: Capabilities where
  "zero_Capabilities =
     \<lparr>cap_WORM = False, cap_ConditionalPut = False, cap_Multipart = False,
      cap_ServerSideEncryption = False, cap_CrossRegionReplicate = False,
      cap_StorageClassSelectable = False, cap_VerifiesContentSHA256 = False,
      cap_InlineDurable = False, cap_DurabilityBarrier = False\<rparr>"

datatype Durability = DurabilityInline | DurabilityDeferred
datatype WORMMode = WORMNone | WORMGovernance | WORMCompliance

record PutOptions =
  po_IfNotExists :: bool
  po_ContentLength :: int
  po_ContentSHA256 :: Hash
  po_StorageClass :: string
  po_RetainUntil :: instant
  po_RetentionMode :: WORMMode
  po_Metadata :: "(string \<times> string) list"
  po_Durability :: Durability

definition zero_PutOptions :: PutOptions where
  "zero_PutOptions =
     \<lparr>po_IfNotExists = False, po_ContentLength = 0, po_ContentSHA256 = zero_hash, po_StorageClass = [],
      po_RetainUntil = zero_time, po_RetentionMode = WORMNone, po_Metadata = [],
      po_Durability = DurabilityInline\<rparr>"

record PutResult =
  pr_Key :: string
  pr_Size :: nat
  pr_ContentSHA256 :: Hash

definition zero_PutResult :: PutResult where
  "zero_PutResult = \<lparr>pr_Key = [], pr_Size = 0, pr_ContentSHA256 = zero_hash\<rparr>"

record ObjectInfo =
  oi_Key :: string
  oi_Size :: nat
  oi_ModTime :: instant

record ReapStats =
  rs_Removed :: nat
  rs_Bytes :: nat
  rs_Unsupported :: bool

record FreeSpaceInfo =
  fs_TotalBytes :: int
  fs_AvailableBytes :: int
  fs_Unsupported :: bool

type_synonym 'w unit_op = "'w \<Rightarrow> error option \<times> 'w"

record 'w StoragePlugin =
  sp_Name :: string
  sp_Put :: "ctx \<Rightarrow> string \<Rightarrow> error reader \<Rightarrow> PutOptions \<Rightarrow> 'w \<Rightarrow> (error + PutResult) \<times> 'w"
  sp_Get :: "ctx \<Rightarrow> string \<Rightarrow> 'w \<Rightarrow> (error + error reader) \<times> 'w"
  sp_Stat :: "ctx \<Rightarrow> string \<Rightarrow> 'w \<Rightarrow> (error + ObjectInfo) \<times> 'w"
  sp_List :: "ctx \<Rightarrow> string \<Rightarrow> 'w \<Rightarrow> (ObjectInfo list \<times> error option) \<times> 'w"
  sp_Delete :: "ctx \<Rightarrow> string \<Rightarrow> 'w unit_op"
  sp_RenameIfNotExists :: "ctx \<Rightarrow> string \<Rightarrow> string \<Rightarrow> 'w unit_op"
  sp_SetRetention :: "ctx \<Rightarrow> string \<Rightarrow> instant \<Rightarrow> WORMMode \<Rightarrow> 'w unit_op"
  sp_Barrier :: "ctx \<Rightarrow> 'w unit_op"
  sp_Capabilities :: Capabilities
  sp_Region :: "string option"
  sp_FreeSpace :: "(ctx \<Rightarrow> 'w \<Rightarrow> (error + FreeSpaceInfo) \<times> 'w) option"
  sp_DeleteLazy :: "(ctx \<Rightarrow> string \<Rightarrow> 'w unit_op) option"
  sp_PruneEmptyDirs :: "(ctx \<Rightarrow> string \<Rightarrow> bool \<Rightarrow> 'w \<Rightarrow> (nat \<times> error option) \<times> 'w) option"
  sp_ReapStaging :: "(ctx \<Rightarrow> duration \<Rightarrow> 'w \<Rightarrow> (ReapStats \<times> error option) \<times> 'w) option"

subsection \<open>Helpers over the optional interfaces\<close>

definition NopBarrier :: "ctx \<Rightarrow> 'w unit_op" where
  "NopBarrier ctx w = (None, w)"

definition FreeSpaceOf :: "'w StoragePlugin \<Rightarrow> ctx \<Rightarrow> 'w \<Rightarrow> (error + FreeSpaceInfo) \<times> 'w" where
  "FreeSpaceOf sp ctx w =
     (case sp_FreeSpace sp of
        Some f \<Rightarrow> f ctx w
      | None \<Rightarrow> (Inr \<lparr>fs_TotalBytes = 0, fs_AvailableBytes = 0, fs_Unsupported = True\<rparr>, w))"

definition RegionOf :: "'w StoragePlugin \<Rightarrow> string" where
  "RegionOf sp = (case sp_Region sp of Some r \<Rightarrow> r | None \<Rightarrow> [])"

definition DeleteLazy :: "'w StoragePlugin \<Rightarrow> ctx \<Rightarrow> string \<Rightarrow> 'w unit_op" where
  "DeleteLazy sp ctx key w =
     (case sp_DeleteLazy sp of Some f \<Rightarrow> f ctx key w | None \<Rightarrow> sp_Delete sp ctx key w)"

definition PruneEmptyDirsOf ::
  "'w StoragePlugin \<Rightarrow> ctx \<Rightarrow> string \<Rightarrow> bool \<Rightarrow> 'w \<Rightarrow> (nat \<times> error option) \<times> 'w" where
  "PruneEmptyDirsOf sp ctx dir includeSelf w =
     (case sp_PruneEmptyDirs sp of Some f \<Rightarrow> f ctx dir includeSelf w | None \<Rightarrow> ((0, None), w))"

definition DefaultStagingReapAge :: duration where "DefaultStagingReapAge = 24 * hour"
definition MinStagingReapAge :: duration where "MinStagingReapAge = hour"

definition ReapStagingOf :: "'w StoragePlugin \<Rightarrow> ctx \<Rightarrow> duration \<Rightarrow> 'w \<Rightarrow> (ReapStats \<times> error option) \<times> 'w" where
  "ReapStagingOf sp ctx olderThan w =
     (let z = \<lparr>rs_Removed = 0, rs_Bytes = 0, rs_Unsupported = False\<rparr> in
      if olderThan < MinStagingReapAge
      then ((z, Some (Errorf ''storage: staging reap age below the safety floor'' [])), w)
      else case sp_ReapStaging sp of
        Some f \<Rightarrow> f ctx olderThan w
      | None \<Rightarrow> ((z\<lparr>rs_Unsupported := True\<rparr>, None), w))"

definition MaxMetadataBytes :: int where "MaxMetadataBytes = 1073741824"

definition ReadAllLimited :: "error reader \<Rightarrow> int \<Rightarrow> error + bytes" where
  "ReadAllLimited r mx =
     (case ReadAll (LimitReader r (nat (mx + 1))) of
        Inl err \<Rightarrow> Inl err
      | Inr body \<Rightarrow>
          if int (length body) > mx then Inl (Errorf ''storage: object exceeds the read limit'' [])
          else Inr body)"

lemma ReadAllLimited_iff:
  "ReadAllLimited r mx = Inr b \<longleftrightarrow> rd_err r = None \<and> rd_data r = b \<and> int (length b) \<le> mx"
  by (auto simp: ReadAllLimited_def ReadAll_def LimitReader_def split: option.splits)

text \<open>An equation that evaluates without counting up to the limit.\<close>

lemma ReadAllLimited_code [code]:
  "ReadAllLimited r mx = (if int (length (rd_data r)) \<le> mx then ReadAll r
     else Inl (Errorf ''storage: object exceeds the read limit'' []))"
  by (auto simp: ReadAllLimited_def ReadAll_def LimitReader_def min_def split: option.splits)

subsection \<open>Exclusive commit\<close>

definition commitSuffix :: "'w runtime \<Rightarrow> 'w \<Rightarrow> string \<times> 'w" where
  "commitSuffix rt w = (case rt_Rand rt 8 w of (b, w') \<Rightarrow> (EncodeToString b, w'))"

definition lock_after_commit ::
  "'w StoragePlugin \<Rightarrow> ctx \<Rightarrow> string \<Rightarrow> PutOptions \<Rightarrow> 'w unit_op" where
  "lock_after_commit sp ctx key opts w =
     (if po_RetainUntil opts \<noteq> zero_time \<and> cap_WORM (sp_Capabilities sp) then
        (let mode = (if po_RetentionMode opts = WORMNone then WORMCompliance else po_RetentionMode opts) in
         case sp_SetRetention sp ctx key (po_RetainUntil opts) mode w of
           (None, w1) \<Rightarrow> (None, w1)
         | (Some err, w1) \<Rightarrow>
             (case sp_Delete sp CleanupCtx key w1 of
                (Some derr, w2) \<Rightarrow>
                  (Some (Errorf ''storage: lock after commit; rollback failed'' [err, derr]), w2)
              | (None, w2) \<Rightarrow> (Some (Errorf ''storage: lock after commit'' [err]), w2)))
      else (None, w))"

definition CommitExclusiveReader ::
  "'w runtime \<Rightarrow> 'w StoragePlugin \<Rightarrow> ctx \<Rightarrow> string \<Rightarrow> error reader \<Rightarrow> nat \<Rightarrow> PutOptions \<Rightarrow> 'w unit_op" where
  "CommitExclusiveReader rt sp ctx key body sz opts0 w =
     (let opts = opts0\<lparr>po_ContentLength := int sz\<rparr> in
      if cap_ConditionalPut (sp_Capabilities sp) then
        (case sp_Put sp ctx key body (opts\<lparr>po_IfNotExists := True\<rparr>) w of
           (Inl err, w1) \<Rightarrow> (Some err, w1)
         | (Inr _, w1) \<Rightarrow> (None, w1))
      else
        (case commitSuffix rt w of (suf, w0) \<Rightarrow>
         (let tmp = key @ ''.tmp.'' @ suf;
             staged = opts\<lparr>po_IfNotExists := False, po_RetainUntil := zero_time,
                            po_RetentionMode := WORMNone\<rparr>
         in case sp_Put sp ctx tmp body staged w0 of
              (Inl err, w1) \<Rightarrow> (Some (Errorf ''storage: stage'' [err]), w1)
            | (Inr _, w1) \<Rightarrow>
                (case sp_RenameIfNotExists sp ctx tmp key w1 of
                   (Some err, w2) \<Rightarrow>
                     (case sp_Delete sp CleanupCtx tmp w2 of (_, w3) \<Rightarrow> (Some err, w3))
                 | (None, w2) \<Rightarrow> lock_after_commit sp ctx key opts w2))))"

definition CommitExclusive ::
  "'w runtime \<Rightarrow> 'w StoragePlugin \<Rightarrow> ctx \<Rightarrow> string \<Rightarrow> bytes \<Rightarrow> PutOptions \<Rightarrow> 'w unit_op" where
  "CommitExclusive rt sp ctx key body opts w =
     CommitExclusiveReader rt sp ctx key (bytes_NewReader body) (length body) opts w"

subsection \<open>The contract\<close>

text \<open>
  An object is its bytes and its modification time. A deferred write is published by a barrier
  unless its key is taken by then; writes to one key are published in order, the first wins.
\<close>

type_synonym obj = "bytes \<times> instant"
type_synonym store = "string \<rightharpoonup> obj"

fun publish :: "(string \<times> obj) list \<Rightarrow> store \<Rightarrow> store" where
  "publish [] m = m"
| "publish ((k, b) # q) m = publish q (if m k = None then m(k \<mapsto> b) else m)"

lemma publish_mono: "m k = Some b \<Longrightarrow> publish q m k = Some b"
proof (induction q m rule: publish.induct)
  case (2 k' b' q m)
  then show ?case by (cases "k = k'") auto
qed simp

lemma publish_None: "publish q m k = None \<longleftrightarrow> m k = None \<and> k \<notin> fst ` set q"
  by (induction q m rule: publish.induct) (auto split: if_splits)

lemma publish_Some: "publish q m k = Some b \<Longrightarrow> m k = Some b \<or> (k, b) \<in> set q"
  by (induction q m rule: publish.induct) (auto split: if_splits)

lemma publish_map_of: "publish q m j = (case m j of Some v \<Rightarrow> Some v | None \<Rightarrow> map_of q j)"
  by (induction q m rule: publish.induct) (auto split: option.splits)

lemma publish_append: "publish (p @ q) m = publish q (publish p m)"
  by (induction p m rule: publish.induct) auto

locale object_store =
  fixes sp :: "'w StoragePlugin"
    and good :: "'w \<Rightarrow> bool"
    and okkey :: "string \<Rightarrow> bool"
    and objs :: "'w \<Rightarrow> store"
    and pend :: "'w \<Rightarrow> (string \<times> obj) list"
  assumes put_good: "good w \<Longrightarrow> okkey k \<Longrightarrow> sp_Put sp ctx k (bytes_NewReader b) o' w = (res, w') \<Longrightarrow> good w'"
    and put_inline: "good w \<Longrightarrow> okkey k \<Longrightarrow> po_Durability o' = DurabilityInline \<Longrightarrow>
      sp_Put sp ctx k (bytes_NewReader b) o' w = (Inr x, w') \<Longrightarrow>
      (po_IfNotExists o' \<longrightarrow> objs w k = None) \<and> (\<exists>t. objs w' = (objs w)(k \<mapsto> (b, t))) \<and> pend w' = pend w"
    and put_deferred: "good w \<Longrightarrow> okkey k \<Longrightarrow> po_IfNotExists o' \<Longrightarrow> po_Durability o' = DurabilityDeferred \<Longrightarrow>
      sp_Put sp ctx k (bytes_NewReader b) o' w = (Inr x, w') \<Longrightarrow>
      objs w k = None \<and> (\<exists>t. (objs w' = objs w \<and> pend w' = pend w @ [(k, b, t)]) \<or>
        (objs w' = (objs w)(k \<mapsto> (b, t)) \<and> pend w' = pend w))"
    and put_error: "good w \<Longrightarrow> okkey k \<Longrightarrow> sp_Put sp ctx k (bytes_NewReader b) o' w = (Inl e, w') \<Longrightarrow>
      (objs w' = objs w \<or> (\<exists>t. objs w' = (objs w)(k \<mapsto> (b, t)) \<and> (po_IfNotExists o' \<longrightarrow> objs w k = None))) \<and>
      pend w' = pend w"
    and put_exists: "good w \<Longrightarrow> okkey k \<Longrightarrow> po_IfNotExists o' \<Longrightarrow>
      sp_Put sp ctx k (bytes_NewReader b) o' w = (Inl e, w') \<Longrightarrow> is_err e ErrAlreadyExists \<Longrightarrow>
      objs w k \<noteq> None \<and> objs w' = objs w"
    and get_state: "good w \<Longrightarrow> okkey k \<Longrightarrow> sp_Get sp ctx k w = (gres, w') \<Longrightarrow>
      good w' \<and> objs w' = objs w \<and> pend w' = pend w"
    and get_ok: "good w \<Longrightarrow> okkey k \<Longrightarrow> sp_Get sp ctx k w = (Inr r, w') \<Longrightarrow> rd_err r = None \<Longrightarrow>
      \<exists>t. objs w k = Some (rd_data r, t)"
    and get_missing: "good w \<Longrightarrow> okkey k \<Longrightarrow> sp_Get sp ctx k w = (Inl e, w') \<Longrightarrow> is_err e ErrNotFound \<Longrightarrow>
      objs w k = None"
    and stat_state: "good w \<Longrightarrow> okkey k \<Longrightarrow> sp_Stat sp ctx k w = (res', w') \<Longrightarrow>
      good w' \<and> objs w' = objs w \<and> pend w' = pend w"
    and stat_ok: "good w \<Longrightarrow> okkey k \<Longrightarrow> sp_Stat sp ctx k w = (Inr i, w') \<Longrightarrow> \<exists>b.
      objs w k = Some (b, oi_ModTime i) \<and> oi_Key i = k \<and> oi_Size i = length b"
    and stat_missing: "good w \<Longrightarrow> okkey k \<Longrightarrow> sp_Stat sp ctx k w = (Inl e, w') \<Longrightarrow> is_err e ErrNotFound \<Longrightarrow>
      objs w k = None"
    and list_state: "good w \<Longrightarrow> sp_List sp ctx p w = (lres, w') \<Longrightarrow>
      good w' \<and> objs w' = objs w \<and> pend w' = pend w"
    and list_sound: "good w \<Longrightarrow> sp_List sp ctx p w = ((is, e'), w') \<Longrightarrow> i \<in> set is \<Longrightarrow> okkey (oi_Key i) \<Longrightarrow>
      \<exists>b. objs w (oi_Key i) = Some (b, oi_ModTime i) \<and> oi_Size i = length b"
    and list_complete: "good w \<Longrightarrow> sp_List sp ctx (d @ ''/'') w = ((is, None), w') \<Longrightarrow> okkey k \<Longrightarrow>
      HasPrefix k (d @ ''/'') \<Longrightarrow> objs w k \<noteq> None \<Longrightarrow> \<exists>i \<in> set is. oi_Key i = k"
    and delete_good: "good w \<Longrightarrow> okkey k \<Longrightarrow> sp_Delete sp ctx k w = (e', w') \<Longrightarrow> good w' \<and> pend w' = pend w"
    and delete_ok: "good w \<Longrightarrow> okkey k \<Longrightarrow> sp_Delete sp ctx k w = (None, w') \<Longrightarrow> objs w' = (objs w)(k := None)"
    and delete_error: "good w \<Longrightarrow> okkey k \<Longrightarrow> sp_Delete sp ctx k w = (Some e, w') \<Longrightarrow>
      objs w' = objs w \<or> objs w' = (objs w)(k := None)"
    and lazy_good: "good w \<Longrightarrow> okkey k \<Longrightarrow> DeleteLazy sp ctx k w = (e', w') \<Longrightarrow> good w' \<and> pend w' = pend w"
    and lazy_ok: "good w \<Longrightarrow> okkey k \<Longrightarrow> DeleteLazy sp ctx k w = (None, w') \<Longrightarrow> objs w' = (objs w)(k := None)"
    and lazy_error: "good w \<Longrightarrow> okkey k \<Longrightarrow> DeleteLazy sp ctx k w = (Some e, w') \<Longrightarrow>
      objs w' = objs w \<or> objs w' = (objs w)(k := None)"
    and rename_good: "good w \<Longrightarrow> okkey src \<Longrightarrow> okkey dst \<Longrightarrow> sp_RenameIfNotExists sp ctx src dst w = (e', w') \<Longrightarrow>
      good w' \<and> pend w' = pend w"
    and rename_ok: "good w \<Longrightarrow> okkey src \<Longrightarrow> okkey dst \<Longrightarrow> sp_RenameIfNotExists sp ctx src dst w = (None, w') \<Longrightarrow>
      objs w src \<noteq> None \<and> objs w dst = None \<and> objs w' = (objs w)(src := None, dst := objs w src)"
    and rename_error: "good w \<Longrightarrow> okkey src \<Longrightarrow> okkey dst \<Longrightarrow> sp_RenameIfNotExists sp ctx src dst w = (Some e, w') \<Longrightarrow>
      objs w' = objs w \<or> (objs w dst = None \<and> objs w src \<noteq> None \<and>
        (objs w' = (objs w)(dst := objs w src) \<or> objs w' = (objs w)(src := None, dst := objs w src)))"
    and rename_exists: "good w \<Longrightarrow> okkey src \<Longrightarrow> okkey dst \<Longrightarrow> sp_RenameIfNotExists sp ctx src dst w = (Some e, w') \<Longrightarrow>
      is_err e ErrAlreadyExists \<Longrightarrow> objs w dst \<noteq> None \<and> objs w' = objs w"
    and retain_state: "good w \<Longrightarrow> okkey k \<Longrightarrow> sp_SetRetention sp ctx k u m w = (e', w') \<Longrightarrow>
      good w' \<and> objs w' = objs w \<and> pend w' = pend w"
    and barrier_good: "good w \<Longrightarrow> sp_Barrier sp ctx w = (e', w') \<Longrightarrow> good w'"
    and barrier_ok: "good w \<Longrightarrow> sp_Barrier sp ctx w = (None, w') \<Longrightarrow>
      objs w' = publish (pend w) (objs w) \<and> pend w' = []"
    and barrier_error: "good w \<Longrightarrow> sp_Barrier sp ctx w = (Some e, w') \<Longrightarrow>
      (\<exists>n. objs w' = publish (take n (pend w)) (objs w)) \<and>
      publish (pend w') (objs w') = publish (pend w) (objs w)"
    and okkey_tmp: "okkey k \<Longrightarrow> okkey (k @ ''.tmp.'' @ EncodeToString rnd)"

subsection \<open>What the clients use\<close>

locale runtime_store = object_store sp good okkey objs pend
  for sp :: "'w StoragePlugin" and good okkey objs pend +
  fixes rt :: "'w runtime"
  assumes now_state: "good w \<Longrightarrow> rt_Now rt w = (t, w') \<Longrightarrow> good w' \<and> objs w' = objs w \<and> pend w' = pend w"
    and ctx_state: "good w \<Longrightarrow> rt_CtxErr rt ctx w = (ce, w') \<Longrightarrow> good w' \<and> objs w' = objs w \<and> pend w' = pend w"
    and rand_state: "good w \<Longrightarrow> rt_Rand rt n w = (b, w') \<Longrightarrow> good w' \<and> objs w' = objs w \<and> pend w' = pend w"
    and sleep_state: "good w \<Longrightarrow> rt_Sleep rt ctx d w = (se, w') \<Longrightarrow> good w' \<and> objs w' = objs w \<and> pend w' = pend w"
begin

lemmas reads_keep_state = get_state stat_state list_state now_state ctx_state rand_state sleep_state retain_state

lemma commitSuffix_state:
  assumes "good w" "commitSuffix rt w = (suf, w')"
  shows "good w' \<and> objs w' = objs w \<and> pend w' = pend w \<and> (\<exists>rnd. suf = EncodeToString rnd)"
  using assms rand_state by (auto simp: commitSuffix_def split: prod.splits)

lemma lock_after_commit_effect:
  assumes g: "good w" and k: "okkey key" and l: "lock_after_commit sp ctx key opts w = (r, w')"
  shows "good w' \<and> pend w' = pend w \<and> (objs w' = objs w \<or> (r \<noteq> None \<and> objs w' = (objs w)(key := None)))"
proof (cases "po_RetainUntil opts \<noteq> zero_time \<and> cap_WORM (sp_Capabilities sp)")
  case True
  define mode where "mode = (if po_RetentionMode opts = WORMNone then WORMCompliance else po_RetentionMode opts)"
  obtain e1 w1 where s: "sp_SetRetention sp ctx key (po_RetainUntil opts) mode w = (e1, w1)" by fastforce
  note st = retain_state [OF g k s]
  obtain e2 w2 where d: "sp_Delete sp CleanupCtx key w1 = (e2, w2)" by fastforce
  have dg: "good w2" "pend w2 = pend w" using delete_good [OF _ k d] st by auto
  have "objs w2 = objs w \<or> objs w2 = (objs w)(key := None)"
    using delete_ok [OF _ k, of w1 CleanupCtx w2] delete_error [OF _ k, of w1 CleanupCtx _ w2] st d by (cases e2) auto
  then show ?thesis
    using l True s d st dg by (auto simp: lock_after_commit_def Let_def simp flip: mode_def split: option.splits)
qed (use assms in \<open>auto simp: lock_after_commit_def\<close>)

text \<open>The branch of a backend without conditional put: stage, rename, roll back.\<close>

lemma commit_staged:
  assumes g: "good w" and k: "okkey key" and inl: "po_Durability opts = DurabilityInline"
    and nc: "\<not> cap_ConditionalPut (sp_Capabilities sp)"
    and c: "CommitExclusive rt sp ctx key body opts w = (r, w')"
  shows "good w' \<and> pend w' = pend w \<and>
    (\<forall>k'. k' \<noteq> key \<and> \<not> HasPrefix k' (key @ ''.tmp.'') \<longrightarrow> objs w' k' = objs w k') \<and>
    (objs w' key = objs w key \<or> (objs w key = None \<and> (\<exists>t. objs w' key = Some (body, t)))) \<and>
    (r = None \<longrightarrow> objs w key = None \<and> (\<exists>t. objs w' key = Some (body, t)))"
proof -
  obtain suf w0 where sf: "commitSuffix rt w = (suf, w0)" by fastforce
  note s0 = commitSuffix_state [OF g sf]
  define tmp where "tmp = key @ ''.tmp.'' @ suf"
  have tk: "okkey tmp" "tmp \<noteq> key" "HasPrefix tmp (key @ ''.tmp.'')"
    using s0 okkey_tmp [OF k] HasPrefix_append [of "key @ ''.tmp.''" suf] by (auto simp: tmp_def)
  define staged where "staged = opts\<lparr>po_ContentLength := int (length body), po_IfNotExists := False,
    po_RetainUntil := zero_time, po_RetentionMode := WORMNone\<rparr>"
  have dur: "po_Durability staged = DurabilityInline" "\<not> po_IfNotExists staged" by (simp_all add: staged_def inl)
  obtain r1 w1 where p: "sp_Put sp ctx tmp (bytes_NewReader body) staged w0 = (r1, w1)" by fastforce
  note p1 = put_good [OF _ tk(1) p]
  have c': "(case r1 of Inl err \<Rightarrow> (Some (Errorf ''storage: stage'' [err]), w1)
      | Inr _ \<Rightarrow> (case sp_RenameIfNotExists sp ctx tmp key w1 of
          (Some err, w2) \<Rightarrow> (case sp_Delete sp CleanupCtx tmp w2 of (_, w3) \<Rightarrow> (Some err, w3))
        | (None, w2) \<Rightarrow> lock_after_commit sp ctx key (opts\<lparr>po_ContentLength := int (length body)\<rparr>) w2)) = (r, w')"
    using c nc sf p unfolding tmp_def staged_def CommitExclusive_def CommitExclusiveReader_def
    by (cases r1) (simp_all add: Let_def del: append.simps)
  show ?thesis
  proof (cases r1)
    case (Inl e)
    then have "objs w' = objs w \<or> (\<exists>t. objs w' = (objs w)(tmp \<mapsto> (body, t)))" "good w'" "pend w' = pend w" "r \<noteq> None"
      using c' put_error [OF _ tk(1) p [unfolded Inl]] s0 p1 by auto
    then show ?thesis using tk by auto
  next
    case (Inr x)
    obtain t where s1: "good w1" "objs w1 = (objs w)(tmp \<mapsto> (body, t))" "pend w1 = pend w"
      using put_inline [OF _ tk(1) dur(1) p [unfolded Inr]] s0 p1 by auto
    obtain r2 w2 where rn: "sp_RenameIfNotExists sp ctx tmp key w1 = (r2, w2)" by fastforce
    note s2 = rename_good [OF s1(1) tk(1) k rn]
    show ?thesis
    proof (cases r2)
      case None
      have s2': "objs w key = None" "objs w2 = (objs w)(tmp := None, key \<mapsto> (body, t))"
        using rename_ok [OF s1(1) tk(1) k rn [unfolded None]] s1(2) tk(2) by auto
      have "lock_after_commit sp ctx key (opts\<lparr>po_ContentLength := int (length body)\<rparr>) w2 = (r, w')"
        using c' Inr rn None by simp
      from lock_after_commit_effect [OF conjunct1 [OF s2] k this] s2 s1(3) s2' tk(2,3)
      show ?thesis by auto
    next
      case (Some e)
      obtain r3 w3 where d: "sp_Delete sp CleanupCtx tmp w2 = (r3, w3)" by fastforce
      have w': "w' = w3" "r = Some e" using c' Inr rn Some d by auto
      have s3: "objs w3 = objs w2 \<or> objs w3 = (objs w2)(tmp := None)" "good w3" "pend w3 = pend w"
        using delete_ok [OF _ tk(1), of w2 CleanupCtx w3] delete_error [OF _ tk(1), of w2 CleanupCtx _ w3]
          delete_good [OF _ tk(1) d] s2 s1(3) d by (cases r3; auto)+
      from rename_error [OF s1(1) tk(1) k rn [unfolded Some]] s1(2) tk(2)
      have "objs w2 = (objs w)(tmp \<mapsto> (body, t)) \<or> (objs w key = None \<and>
          (objs w2 = (objs w)(tmp \<mapsto> (body, t), key \<mapsto> (body, t)) \<or> objs w2 = (objs w)(tmp := None, key \<mapsto> (body, t))))"
        by auto
      then show ?thesis using s3 w' tk(2,3) by auto
    qed
  qed
qed

lemma commit_effect:
  assumes g: "good w" and k: "okkey key" and inl: "po_Durability opts = DurabilityInline"
    and c: "CommitExclusive rt sp ctx key body opts w = (r, w')"
  shows "good w' \<and> pend w' = pend w \<and>
    (\<forall>k'. k' \<noteq> key \<and> \<not> HasPrefix k' (key @ ''.tmp.'') \<longrightarrow> objs w' k' = objs w k') \<and>
    (objs w' key = objs w key \<or> (objs w key = None \<and> (\<exists>t. objs w' key = Some (body, t)))) \<and>
    (r = None \<longrightarrow> objs w key = None \<and> (\<exists>t. objs w' key = Some (body, t)))"
proof (cases "cap_ConditionalPut (sp_Capabilities sp)")
  case True
  define o' where "o' = opts\<lparr>po_ContentLength := int (length body), po_IfNotExists := True\<rparr>"
  have o': "po_Durability o' = DurabilityInline" "po_IfNotExists o'" by (simp_all add: o'_def inl)
  obtain r1 w1 where p: "sp_Put sp ctx key (bytes_NewReader body) o' w = (r1, w1)" by fastforce
  have "w' = w1" "r = None \<longleftrightarrow> \<not> isl r1"
    using c True p by (auto simp: CommitExclusive_def CommitExclusiveReader_def Let_def o'_def split: sum.splits)
  then show ?thesis
    using put_good [OF g k p] put_inline [OF g k o'(1), of ctx body _ w1] put_error [OF g k, of ctx body o' _ w1] p o'(2)
    by (cases r1) auto
qed (rule commit_staged [OF g k inl _ c])

end

end
