(* ===== verification/Envelope.thy ===== *)
theory Envelope
  imports Prelude
begin

text \<open>
  The at-rest chunk envelope (\<^verbatim>\<open>internal/plugin/compression/compression.go\<close>), the two codec
  registries (there and in \<^verbatim>\<open>internal/plugin/encryption/encryption.go\<close>), the identity compressor
  (\<^verbatim>\<open>compression/none\<close>) and the AES-GCM encryptor (\<^verbatim>\<open>encryption/aesgcm\<close>) over Go's \<^verbatim>\<open>cipher.AEAD\<close>,
  which is a parameter. A codec is the record of its methods. \<^verbatim>\<open>Encrypt\<close> draws a random nonce: what
  \<^verbatim>\<open>rand.Read\<close> returned for it is an argument.
\<close>

subsection \<open>The envelope\<close>

type_synonym AlgorithmID = "8 word"

definition EnvelopeVersionV1 :: "8 word" where "EnvelopeVersionV1 = 1"
definition EnvelopeVersion :: "8 word" where "EnvelopeVersion = 2"
definition AlgoNone :: AlgorithmID where "AlgoNone = 0"
definition AlgoZstd :: AlgorithmID where "AlgoZstd = 1"
definition AlgoAESGCM :: AlgorithmID where "AlgoAESGCM = 1"

definition nonceLen :: nat where "nonceLen = 12"
definition v1HeaderLen :: nat where "v1HeaderLen = 2"
definition v2HeaderLen :: nat where "v2HeaderLen = 1 + 1 + 1 + nonceLen"

lemmas envelope_consts = EnvelopeVersionV1_def EnvelopeVersion_def nonceLen_def v1HeaderLen_def
  v2HeaderLen_def

text \<open>The nonce is a \<^verbatim>\<open>[12]byte\<close> array: \<open>wf_fields\<close> is its type.\<close>

record EncryptionFields =
  ef_EncryptionAlgo :: "8 word"
  ef_Nonce :: bytes

definition wf_fields :: "EncryptionFields \<Rightarrow> bool" where
  "wf_fields f \<longleftrightarrow> length (ef_Nonce f) = nonceLen"

definition zero_fields :: EncryptionFields where
  "zero_fields = \<lparr>ef_EncryptionAlgo = 0, ef_Nonce = replicate nonceLen 0\<rparr>"

definition IsEncrypted :: "EncryptionFields \<Rightarrow> bool" where
  "IsEncrypted e \<longleftrightarrow> ef_EncryptionAlgo e \<noteq> 0"

text \<open>\<^verbatim>\<open>copy(dst[off:], src)\<close>: as many bytes as fit.\<close>

definition copy_at :: "bytes \<Rightarrow> nat \<Rightarrow> bytes \<Rightarrow> bytes" where
  "copy_at dst off src =
     take off dst @ take (length dst - off) src @ drop (off + length (take (length dst - off) src)) dst"

definition WriteEnvelope :: "AlgorithmID \<Rightarrow> EncryptionFields \<Rightarrow> bytes \<Rightarrow> bytes" where
  "WriteEnvelope compressionAlgo enc payload =
     (let out = replicate (v2HeaderLen + length payload) 0;
          out = out[0 := EnvelopeVersion];
          out = out[1 := compressionAlgo];
          out = out[2 := ef_EncryptionAlgo enc];
          out = copy_at (take (3 + nonceLen) out) 3 (ef_Nonce enc) @ drop (3 + nonceLen) out
      in copy_at out v2HeaderLen payload)"

definition WriteEnvelopeV1 :: "AlgorithmID \<Rightarrow> bytes \<Rightarrow> bytes" where
  "WriteEnvelopeV1 compressionAlgo payload =
     (let out = replicate (v1HeaderLen + length payload) 0;
          out = out[0 := EnvelopeVersionV1];
          out = out[1 := compressionAlgo]
      in copy_at out v1HeaderLen payload)"

definition ReadEnvelope :: "bytes \<Rightarrow> error + AlgorithmID \<times> EncryptionFields \<times> bytes" where
  "ReadEnvelope b =
     (if length b < 1 then Inl (Errorf ''empty body'' [Sentinel ErrCorruptEnvelope])
      else if b ! 0 = EnvelopeVersionV1 then
        (if length b < v1HeaderLen then Inl (Errorf ''v1 short body'' [Sentinel ErrCorruptEnvelope])
         else Inr (b ! 1, zero_fields, drop v1HeaderLen b))
      else if b ! 0 = EnvelopeVersion then
        (if length b < v2HeaderLen then Inl (Errorf ''v2 short body'' [Sentinel ErrCorruptEnvelope])
         else Inr (b ! 1,
                \<lparr>ef_EncryptionAlgo = b ! 2, ef_Nonce = take nonceLen (drop 3 b)\<rparr>, drop v2HeaderLen b))
      else Inl (Errorf ''version byte'' [Sentinel ErrCorruptEnvelope]))"

lemma replicate_numeral: "replicate (numeral m) y = y # replicate (pred_numeral m) y"
  unfolding numeral_eq_Suc by (rule replicate_Suc)

lemma WriteEnvelope_eq:
  "wf_fields f \<Longrightarrow>
     WriteEnvelope a f p = [EnvelopeVersion, a, ef_EncryptionAlgo f] @ ef_Nonce f @ p"
  by (simp add: WriteEnvelope_def Let_def wf_fields_def copy_at_def envelope_consts
      replicate_add replicate_numeral numeral_3_eq_3 [symmetric])

lemma WriteEnvelopeV1_eq: "WriteEnvelopeV1 a p = [EnvelopeVersionV1, a] @ p"
  by (simp add: WriteEnvelopeV1_def Let_def copy_at_def envelope_consts replicate_add
      replicate_numeral)

lemma ReadEnvelope_fields: "ReadEnvelope b = Inr (a, f, p) \<Longrightarrow> wf_fields f"
  by (auto simp: ReadEnvelope_def wf_fields_def zero_fields_def envelope_consts split: if_splits)

lemma ReadEnvelope_Write [simp]: "wf_fields f \<Longrightarrow> ReadEnvelope (WriteEnvelope a f p) = Inr (a, f, p)"
  by (simp add: WriteEnvelope_eq) (simp add: ReadEnvelope_def wf_fields_def envelope_consts numeral_2_eq_2 numeral_3_eq_3)

lemma ReadEnvelope_WriteV1 [simp]: "ReadEnvelope (WriteEnvelopeV1 a p) = Inr (a, zero_fields, p)"
  by (simp add: WriteEnvelopeV1_eq) (simp add: ReadEnvelope_def envelope_consts numeral_2_eq_2)

lemma take3_nonce: "15 \<le> length b \<Longrightarrow> b = [b ! 0, b ! 1, b ! 2] @ take 12 (drop 3 b) @ drop 15 b"
proof -
  assume l: "15 \<le> length b"
  have "[b ! 0, b ! 1, b ! 2] = take 3 b" using l by (intro nth_equalityI) (auto simp: less_Suc_eq numeral_eq_Suc)
  moreover have "drop 15 b = drop 12 (drop 3 b)" by simp
  ultimately show ?thesis by (metis append_take_drop_id)
qed

lemma ReadEnvelope_cases:
  assumes "ReadEnvelope b = Inr (a, f, p)"
  shows "b = WriteEnvelope a f p \<or> (b = WriteEnvelopeV1 a p \<and> f = zero_fields)"
proof (cases "b ! 0 = EnvelopeVersionV1")
  case True
  then have "2 \<le> length b" "a = b ! 1" "f = zero_fields" "p = drop 2 b" "b ! 0 = EnvelopeVersionV1"
    using assms by (auto simp: ReadEnvelope_def envelope_consts split: if_splits)
  then show ?thesis
    by (cases b; cases "tl b") (auto simp: WriteEnvelopeV1_eq)
next
  case False
  then have "15 \<le> length b" "a = b ! 1" "b ! 0 = EnvelopeVersion" "p = drop 15 b"
    "f = \<lparr>ef_EncryptionAlgo = b ! 2, ef_Nonce = take 12 (drop 3 b)\<rparr>"
    using assms by (auto simp: ReadEnvelope_def envelope_consts split: if_splits)
  then show ?thesis using take3_nonce [of b] ReadEnvelope_fields [OF assms] by (simp add: WriteEnvelope_eq)
qed

subsection \<open>Codecs and their registries\<close>

record Compressor =
  cp_Algorithm :: AlgorithmID
  cp_Compress :: "bytes \<Rightarrow> error + bytes \<times> AlgorithmID"
  cp_Decompress :: "bytes \<Rightarrow> error + bytes"

record Encryptor =
  ec_Algorithm :: AlgorithmID
  ec_Encrypt :: "error + bytes \<Rightarrow> bytes \<Rightarrow> error + bytes \<times> bytes"
  ec_Decrypt :: "bytes \<Rightarrow> bytes \<Rightarrow> error + bytes"

text \<open>Both \<^verbatim>\<open>CodecRegistry\<close> types are a map from algorithm to codec; \<open>None\<close> is the panic.\<close>

type_synonym 'c CodecRegistry = "(AlgorithmID \<times> 'c) list"

definition NewRegistry :: "'c CodecRegistry" where
  "NewRegistry = []"

definition Has :: "'c CodecRegistry \<Rightarrow> AlgorithmID \<Rightarrow> bool" where
  "Has r algo \<longleftrightarrow> map_of r algo \<noteq> None"

definition Register :: "'c CodecRegistry \<Rightarrow> AlgorithmID \<Rightarrow> 'c \<Rightarrow> 'c CodecRegistry option" where
  "Register r algo c = (if Has r algo then None else Some ((algo, c) # r))"

definition Lookup :: "'c CodecRegistry \<Rightarrow> AlgorithmID \<Rightarrow> error + 'c" where
  "Lookup r algo =
     (case map_of r algo of
        None \<Rightarrow> Inl (Errorf ''compression: unknown algorithm'' [Sentinel ErrUnknownAlgorithm])
      | Some c \<Rightarrow> Inr c)"

definition EncLookup :: "'c CodecRegistry \<Rightarrow> AlgorithmID \<Rightarrow> error + 'c" where
  "EncLookup r algo =
     (case map_of r algo of
        None \<Rightarrow> Inl (Errorf ''encryption: unknown algorithm'' [Sentinel ErrUnknownEncryptionAlgorithm])
      | Some c \<Rightarrow> Inr c)"

definition none_Compressor :: Compressor where
  "none_Compressor = \<lparr>cp_Algorithm = AlgoNone, cp_Compress = (\<lambda>p. Inr (p, AlgoNone)), cp_Decompress = Inr\<rparr>"

text \<open>\<^verbatim>\<open>cipher.AEAD\<close> with a fixed key and no additional data: nonce and text in, text out.\<close>

record AEAD =
  Seal :: "bytes \<Rightarrow> bytes \<Rightarrow> bytes"
  Open :: "bytes \<Rightarrow> bytes \<Rightarrow> bytes option"

definition aesgcm_New :: "(bytes \<Rightarrow> AEAD) \<Rightarrow> bytes \<Rightarrow> error + AEAD" where
  "aesgcm_New newGCM key =
     (if length key \<noteq> 32 then Inl (Errorf ''aes-256-gcm wants 32-byte key'' [Sentinel ErrInvalidKey])
      else Inr (newGCM key))"

definition aesgcm_Encrypt :: "AEAD \<Rightarrow> error + bytes \<Rightarrow> bytes \<Rightarrow> error + bytes \<times> bytes" where
  "aesgcm_Encrypt aead rnd plaintext =
     (case rnd of
        Inl err \<Rightarrow> Inl (Errorf ''aesgcm: random nonce'' [err])
      | Inr nonce \<Rightarrow> Inr (Seal aead nonce plaintext, nonce))"

definition aesgcm_Decrypt :: "AEAD \<Rightarrow> bytes \<Rightarrow> bytes \<Rightarrow> error + bytes" where
  "aesgcm_Decrypt aead ciphertext nonce =
     (case Open aead nonce ciphertext of
        None \<Rightarrow> Inl (Errorf ''aesgcm'' [Sentinel ErrAuthenticationFailed])
      | Some pt \<Rightarrow> Inr pt)"

definition aesgcm_Encryptor :: "AEAD \<Rightarrow> Encryptor" where
  "aesgcm_Encryptor aead =
     \<lparr>ec_Algorithm = AlgoAESGCM, ec_Encrypt = aesgcm_Encrypt aead, ec_Decrypt = aesgcm_Decrypt aead\<rparr>"

subsection \<open>Codec laws\<close>

text \<open>What the store relies on: the named algorithm decodes what the codec encoded.\<close>

locale codec =
  fixes enc :: "'k \<Rightarrow> 'a \<Rightarrow> error + 'b \<times> 'm" and dec :: "'b \<Rightarrow> 'm \<Rightarrow> error + 'a"
  assumes round_trip: "enc k x = Inr (y, m) \<Longrightarrow> dec y m = Inr x"
begin

lemma enc_inject: "enc k x = Inr (y, m) \<Longrightarrow> enc k' x' = Inr (y, m) \<Longrightarrow> x = x'"
  by (metis round_trip sum.inject(2))

end

interpretation none_codec: codec "\<lambda>_ :: unit. cp_Compress none_Compressor" "\<lambda>y _. cp_Decompress none_Compressor y"
  by unfold_locales (simp add: none_Compressor_def)

subsection \<open>Properties\<close>

text \<open>
  C9. The envelope round-trips and is unambiguous: reading back a written envelope of either version
  gives its parts, and whatever \<^verbatim>\<open>ReadEnvelope\<close> accepts is byte for byte what one of the two writers
  produces from the parts it returns; everything else is \<^verbatim>\<open>ErrCorruptEnvelope\<close>.
\<close>

theorem envelope_round_trip:
  assumes "wf_fields f"
  shows "ReadEnvelope (WriteEnvelope a f p) = Inr (a, f, p) \<and>
    ReadEnvelope (WriteEnvelopeV1 a p) = Inr (a, zero_fields, p) \<and>
    (\<forall>a' f' p'. ReadEnvelope b = Inr (a', f', p') \<longrightarrow>
       b = WriteEnvelope a' f' p' \<or> (b = WriteEnvelopeV1 a' p' \<and> f' = zero_fields)) \<and>
    (\<forall>e. ReadEnvelope b = Inl e \<longrightarrow> is_err e ErrCorruptEnvelope)"
proof -
  have "\<forall>e. ReadEnvelope b = Inl e \<longrightarrow> is_err e ErrCorruptEnvelope"
    by (auto simp: ReadEnvelope_def split: if_splits)
  then show ?thesis using assms ReadEnvelope_cases by simp
qed

theorem envelope_round_trip_witness:
  "ReadEnvelope (WriteEnvelope AlgoZstd \<lparr>ef_EncryptionAlgo = 1, ef_Nonce = replicate 12 7\<rparr> [1, 2, 3]) =
     Inr (AlgoZstd, \<lparr>ef_EncryptionAlgo = 1, ef_Nonce = replicate 12 7\<rparr>, [1, 2, 3])"
  using envelope_round_trip [of "\<lparr>ef_EncryptionAlgo = 1, ef_Nonce = replicate 12 7\<rparr>" AlgoZstd "[1, 2, 3]"]
  by (simp add: wf_fields_def nonceLen_def)

end
