(* ===== verification/Spill.thy ===== *)
theory Spill
  imports ChunkKey
begin

text \<open>
  The disk-backed hash set of \<^verbatim>\<open>internal/spill\<close>: its Bloom filter (\<^verbatim>\<open>bloom.go\<close>) and \<^verbatim>\<open>hashset.go\<close>, a memory
  table that is flushed to sorted runs, which are merged like a binary counter. A run file is the list of its keys;
  every file operation first consults the set's script of faults, and the free space of the spill
  directory is a script of probes. The k-way merge keeps its sources in a list and takes the least
  one, which is what \<^verbatim>\<open>container/heap\<close> keeps at index 0; sources with equal keys deliver the same key,
  so their order does not show.
\<close>

unbundle bit_operations_syntax

subsection \<open>The Bloom filter\<close>

record bloom =
  bl_bits :: "64 word list"
  bl_m :: "64 word"

definition bloomBitsPerKey :: "64 word" where "bloomBitsPerKey = 10"
definition bloomProbes :: nat where "bloomProbes = 7"

definition newBloom :: "int \<Rightarrow> int \<Rightarrow> bloom" where
  "newBloom n maxBytes =
     (let n = (if n < 1 then 1 else n);
          m = word_of_int n * bloomBitsPerKey;
          m = (if maxBytes > 0 \<and> m > word_of_int maxBytes * 8 then word_of_int maxBytes * 8 else m);
          m = (m + 63) AND NOT 63
      in \<lparr>bl_bits = replicate (unat (m div 64)) 0, bl_m = m\<rparr>)"

text \<open>\<^verbatim>\<open>binary.LittleEndian.Uint64\<close>.\<close>

fun LittleEndian_Uint64 :: "bytes \<Rightarrow> 64 word" where
  "LittleEndian_Uint64 [] = 0"
| "LittleEndian_Uint64 (b # bs) = ucast b OR push_bit 8 (LittleEndian_Uint64 bs)"

text \<open>The bit positions probed for a key.\<close>

definition probe :: "bloom \<Rightarrow> Hash \<Rightarrow> nat \<Rightarrow> 64 word" where
  "probe b k i =
     (let h1 = LittleEndian_Uint64 (take 8 (hash_bytes k));
          h2 = LittleEndian_Uint64 (take 8 (drop 8 (hash_bytes k))) OR 1
      in (h1 + of_nat i * h2) mod bl_m b)"

definition bl_set :: "bloom \<Rightarrow> 64 word \<Rightarrow> bloom" where
  "bl_set b p =
     (let i = unat (drop_bit 6 p)
      in b\<lparr>bl_bits := (bl_bits b)[i := bl_bits b ! i OR push_bit (unat (p AND 63)) 1]\<rparr>)"

definition bl_get :: "bloom \<Rightarrow> 64 word \<Rightarrow> bool" where
  "bl_get b p \<longleftrightarrow> bl_bits b ! unat (drop_bit 6 p) AND push_bit (unat (p AND 63)) 1 \<noteq> 0"

definition bloom_add :: "Hash \<Rightarrow> bloom \<Rightarrow> bloom" where
  "bloom_add k b = fold (\<lambda>i b'. bl_set b' (probe b' k i)) [0..<bloomProbes] b"

fun test_probes :: "bloom \<Rightarrow> Hash \<Rightarrow> nat list \<Rightarrow> bool" where
  "test_probes b k [] = True"
| "test_probes b k (i # is) = (if \<not> bl_get b (probe b k i) then False else test_probes b k is)"

definition bloom_test :: "bloom \<Rightarrow> Hash \<Rightarrow> bool" where
  "bloom_test b k = test_probes b k [0..<bloomProbes]"

definition bloom_wf :: "bloom \<Rightarrow> bool" where
  "bloom_wf b \<longleftrightarrow> bl_m b \<noteq> 0 \<and> unat (bl_m b) \<le> 64 * length (bl_bits b)"

lemma bl_set_m [simp]: "bl_m (bl_set b p) = bl_m b" "length (bl_bits (bl_set b p)) = length (bl_bits b)"
  by (simp_all add: bl_set_def Let_def)

lemma probe_set [simp]: "probe (bl_set b p) k i = probe b k i"
  by (simp add: probe_def)

lemma bit_of_mask: "(w AND push_bit n 1 \<noteq> 0) = bit (w :: 64 word) n"
  by (rule bit_iff_and_push_bit_not_eq_0 [symmetric])

lemma mod64_less: "unat (p AND 63 :: 64 word) < 64"
proof -
  have "p AND 63 = take_bit 6 p" using take_bit_eq_mask [of 6 p] by (simp add: mask_eq_exp_minus_1)
  then have "unat (p AND 63) = take_bit 6 (unat p)" by (metis unsigned_take_bit_eq)
  then show ?thesis using take_bit_nat_less_exp [of 6 "unat p"] by simp
qed

lemma bl_get_set:
  assumes "unat (drop_bit 6 p) < length (bl_bits b)"
  shows "bl_get (bl_set b p) q \<longleftrightarrow> bl_get b q \<or> (drop_bit 6 q = drop_bit 6 p \<and> p AND 63 = q AND 63)"
proof -
  have bits: "bl_bits (bl_set b p) = (bl_bits b)[unat (drop_bit 6 p) := bl_bits b ! unat (drop_bit 6 p) OR push_bit (unat (p AND 63)) 1]"
    by (simp add: bl_set_def Let_def)
  show ?thesis
  proof (cases "drop_bit 6 q = drop_bit 6 p")
    case True
    have "bit (push_bit (unat (p AND 63)) 1 :: 64 word) (unat (q AND 63)) \<longleftrightarrow> p AND 63 = q AND 63"
      using mod64_less [of q] by (auto simp: bit_exp_iff word_unat_eq_iff)
    then show ?thesis using True assms
      by (simp add: bl_get_def bits bit_of_mask bit_or_iff del: push_bit_of_1)
  next
    case False
    then have "unat (drop_bit 6 p) \<noteq> unat (drop_bit 6 q)" by (simp add: word_unat_eq_iff)
    then show ?thesis using False by (simp add: bl_get_def bits)
  qed
qed

lemma probe_in_range:
  assumes "bloom_wf b"
  shows "unat (drop_bit 6 (probe b k i)) < length (bl_bits b)"
proof -
  have "probe b k i < bl_m b" using assms word_mod_less_divisor [of "bl_m b"] by (simp add: probe_def bloom_wf_def Let_def word_gt_0)
  then have "unat (probe b k i) < 64 * length (bl_bits b)" using assms by (simp add: bloom_wf_def word_less_nat_alt)
  then show ?thesis by (simp add: drop_bit_eq_div unat_div_distrib less_mult_imp_div_less mult.commute)
qed

lemma bl_set_wf: "bloom_wf b \<Longrightarrow> bloom_wf (bl_set b p)"
  by (simp add: bloom_wf_def)

lemma bloom_fold:
  assumes "bloom_wf b"
  shows "bloom_wf (fold (\<lambda>i b'. bl_set b' (probe b' k i)) is b) \<and>
    (\<forall>k' i. probe (fold (\<lambda>i b'. bl_set b' (probe b' k i)) is b) k' i = probe b k' i) \<and>
    (\<forall>q. bl_get b q \<longrightarrow> bl_get (fold (\<lambda>i b'. bl_set b' (probe b' k i)) is b) q) \<and>
    (\<forall>i \<in> set is. bl_get (fold (\<lambda>i b'. bl_set b' (probe b' k i)) is b) (probe b k i))"
  using assms
proof (induction "is" arbitrary: b)
  case (Cons i "is")
  note s = bl_get_set [OF probe_in_range [OF Cons(2), of k i]]
  show ?case using Cons(1) [OF bl_set_wf [OF Cons(2), of "probe b k i"]] s by auto
qed simp

lemma bloom_add_wf: "bloom_wf b \<Longrightarrow> bloom_wf (bloom_add k b)"
  unfolding bloom_add_def using bloom_fold by blast

lemma test_probes_iff: "test_probes b k is \<longleftrightarrow> (\<forall>i \<in> set is. bl_get b (probe b k i))"
  by (induction "is") auto

text \<open>The filter has no false negatives.\<close>

lemma bloom_test_add: "bloom_wf b \<Longrightarrow> k' = k \<or> bloom_test b k' \<Longrightarrow> bloom_test (bloom_add k b) k'"
  using bloom_fold [of b k "[0..<bloomProbes]"] unfolding bloom_test_def bloom_add_def test_probes_iff by auto

subsection \<open>sort.Search\<close>

text \<open>The least index in \<open>i..<j\<close> at which a predicate holds, by bisection.\<close>

function search :: "(nat \<Rightarrow> bool) \<Rightarrow> nat \<Rightarrow> nat \<Rightarrow> nat" where
  "search f i j =
     (if i < j then let h = (i + j) div 2 in if \<not> f h then search f (h + 1) j else search f i h else i)"
  by pat_completeness auto
termination
  by (relation "measure (\<lambda>(f, i, j). j - i)") auto

declare search.simps [simp del]

definition sort_Search :: "nat \<Rightarrow> (nat \<Rightarrow> bool) \<Rightarrow> nat" where
  "sort_Search n f = search f 0 n"

lemma search_bounds: "i \<le> j \<Longrightarrow> i \<le> search f i j \<and> search f i j \<le> j"
proof (induction f i j rule: search.induct)
  case (1 f i j)
  show ?case
  proof (cases "i < j")
    case True
    then show ?thesis
      using 1(1) [OF True refl] 1(2) [OF True refl] by (subst (1 2) search.simps) (fastforce simp: Let_def)
  qed (use 1(3) in \<open>simp add: search.simps\<close>)
qed

lemma search_least:
  assumes "\<And>a b. a \<le> b \<Longrightarrow> b < n \<Longrightarrow> f a \<Longrightarrow> f b"
  shows "j \<le> n \<Longrightarrow> (\<forall>x. i \<le> x \<and> x < j \<longrightarrow> (f x \<longleftrightarrow> search f i j \<le> x))"
  using assms
proof (induction f i j rule: search.induct)
  case (1 f i j)
  show ?case
  proof (cases "i < j")
    case True
    let ?h = "(i + j) div 2"
    have h: "i \<le> ?h" "?h < j" "j \<le> n" using True 1(3) by auto
    show ?thesis
    proof (cases "f ?h")
      case False
      have e: "search f i j = search f (?h + 1) j" using True False by (subst search.simps) (simp add: Let_def)
      have b: "?h + 1 \<le> search f (?h + 1) j" using search_bounds [of "?h + 1" j f] h by simp
      have ih: "\<forall>x. ?h + 1 \<le> x \<and> x < j \<longrightarrow> (f x \<longleftrightarrow> search f (?h + 1) j \<le> x)"
        using 1(1) [OF True refl False _ 1(4)] h by simp
      show ?thesis
      proof (intro allI impI)
        fix x assume x: "i \<le> x \<and> x < j"
        show "f x \<longleftrightarrow> search f i j \<le> x"
        proof (cases "x \<le> ?h")
          case le: True
          then have "\<not> f x" using 1(4) [of x ?h] False h by auto
          then show ?thesis using le b e by simp
        qed (use ih x e in auto)
      qed
    next
      case fh: True
      have e: "search f i j = search f i ?h" using True fh by (subst search.simps) (simp add: Let_def)
      have b: "search f i ?h \<le> ?h" using search_bounds [of i ?h f] h by simp
      have ih: "\<forall>x. i \<le> x \<and> x < ?h \<longrightarrow> (f x \<longleftrightarrow> search f i ?h \<le> x)"
        using 1(2) [OF True refl _ _ 1(4)] fh h by simp
      show ?thesis
      proof (intro allI impI)
        fix x assume x: "i \<le> x \<and> x < j"
        show "f x \<longleftrightarrow> search f i j \<le> x"
        proof (cases "?h \<le> x")
          case le: True
          then have "f x" using 1(4) [of ?h x] fh h x by auto
          then show ?thesis using le b e by simp
        qed (use ih x e in auto)
      qed
    qed
  qed auto
qed

lemma sort_Search_bound: "sort_Search n f \<le> n"
  using search_bounds [of 0 n f] by (simp add: sort_Search_def)

lemma sort_Search_iff:
  "(\<And>a b. a \<le> b \<Longrightarrow> b < n \<Longrightarrow> f a \<Longrightarrow> f b) \<Longrightarrow> x < n \<Longrightarrow> f x \<longleftrightarrow> sort_Search n f \<le> x"
  using search_least [of n f n 0] by (auto simp: sort_Search_def)

subsection \<open>The set\<close>

record run =
  rn_level :: nat
  rn_keys :: "Hash list"
  rn_n :: nat
  rn_bloom :: bloom
  rn_fence :: "Hash list"

record HashSet =
  hs_MemEntries :: int
  hs_MaxBloomBytes :: int
  hs_mem :: "Hash list"
  hs_runs :: "run list"
  hs_dir :: bool
  hs_seq :: nat
  hs_closed :: bool
  hs_retryAt :: nat
  hs_hot :: "(nat \<Rightarrow> Hash) option"
  hs_err :: "error option"
  hs_faults :: "errno option list"
  hs_free :: "nat option list"

definition fenceEvery :: nat where "fenceEvery = 1024"
definition keyLen :: nat where "keyLen = 32"
definition DefaultMemEntries :: int where "DefaultMemEntries = 1048576"
definition DefaultMaxBloomBytes :: int where "DefaultMaxBloomBytes = 134217728"

definition maxBloomBytes :: "HashSet \<Rightarrow> int" where
  "maxBloomBytes s = (if hs_MaxBloomBytes s > 0 then hs_MaxBloomBytes s else DefaultMaxBloomBytes)"

definition NewHashSet :: "int \<Rightarrow> int \<Rightarrow> errno option list \<Rightarrow> nat option list \<Rightarrow> HashSet" where
  "NewHashSet memEntries maxBloom faults free =
     \<lparr>hs_MemEntries = (if memEntries \<le> 0 then DefaultMemEntries else memEntries), hs_MaxBloomBytes = maxBloom,
      hs_mem = [], hs_runs = [], hs_dir = False, hs_seq = 0, hs_closed = False, hs_retryAt = 0, hs_hot = None,
      hs_err = None, hs_faults = faults, hs_free = free\<rparr>"

definition setErr :: "error \<Rightarrow> HashSet \<Rightarrow> HashSet" where
  "setErr e s = (if hs_err s = None then s\<lparr>hs_err := Some e\<rparr> else s)"

definition io_fault :: "HashSet \<Rightarrow> error option \<times> HashSet" where
  "io_fault s = (case hs_faults s of [] \<Rightarrow> (None, s) | f # fs \<Rightarrow> (map_option SysErr f, s\<lparr>hs_faults := fs\<rparr>))"

definition freeBytes :: "HashSet \<Rightarrow> nat option \<times> HashSet" where
  "freeBytes s = (case hs_free s of [] \<Rightarrow> (None, s) | f # fs \<Rightarrow> (f, s\<lparr>hs_free := fs\<rparr>))"

definition ensureDirLocked :: "HashSet \<Rightarrow> error option \<times> HashSet" where
  "ensureDirLocked s =
     (if hs_dir s then (None, s)
      else case io_fault s of
        (Some err, s1) \<Rightarrow> (Some (Errorf ''spill: create temp dir'' [err]), s1)
      | (None, s1) \<Rightarrow> (None, s1\<lparr>hs_dir := True\<rparr>))"

definition preflightLocked :: "nat \<Rightarrow> HashSet \<Rightarrow> error option \<times> HashSet" where
  "preflightLocked ks s =
     (case freeBytes s of
        (None, s1) \<Rightarrow> (None, s1)
      | (Some free, s1) \<Rightarrow>
          (if free < ks * keyLen then Some (Errorf ''spill: not enough free space'' []) else None, s1))"

text \<open>The source of the keys of a new run: the sorted memory table, or a merge of older runs.\<close>

datatype gen = FromMem "Hash list" | FromRuns "error option" "Hash list list"

fun pick :: "Hash list list \<Rightarrow> (Hash list \<times> Hash list list) option" where
  "pick [] = None"
| "pick (s # ss) =
     (case pick ss of
        None \<Rightarrow> Some (s, ss)
      | Some (t, ts) \<Rightarrow> if hd t < hd s then Some (t, s # ts) else Some (s, ss))"

fun gen_next :: "gen \<Rightarrow> HashSet \<Rightarrow> (error + Hash option) \<times> gen \<times> HashSet" where
  "gen_next (FromMem []) s = (Inr None, FromMem [], s)"
| "gen_next (FromMem (k # ks)) s = (Inr (Some k), FromMem ks, s)"
| "gen_next (FromRuns (Some e) h) s = (Inl (Errorf ''spill: merge'' [e]), FromRuns (Some e) h, s)"
| "gen_next (FromRuns None h) s =
     (case pick h of
        None \<Rightarrow> (Inr None, FromRuns None h, s)
      | Some (src, rest) \<Rightarrow>
          (case io_fault s of
             (Some err, s1) \<Rightarrow> (Inl (Errorf ''spill: merge read'' [err]), FromRuns None h, s1)
           | (None, s1) \<Rightarrow>
               (Inr (Some (hd src)), FromRuns None (if tl src = [] then rest else tl src # rest), s1)))"

fun newMergeIter :: "run list \<Rightarrow> HashSet \<Rightarrow> gen \<times> HashSet" where
  "newMergeIter [] s = (FromRuns None [], s)"
| "newMergeIter (r # rs) s =
     (if rn_n r = 0 then newMergeIter rs s
      else case io_fault s of
        (Some err, s1) \<Rightarrow> (FromRuns (Some err) [], s1)
      | (None, s1) \<Rightarrow>
          (case newMergeIter rs s1 of
             (FromRuns e h, s2) \<Rightarrow> (FromRuns e (rn_keys r # h), s2)
           | (g, s2) \<Rightarrow> (g, s2)))"

fun gen_size :: "gen \<Rightarrow> nat" where
  "gen_size (FromMem ks) = length ks"
| "gen_size (FromRuns e h) = sum_list (map (Suc \<circ> length) h)"

lemma pick_mset: "pick h = Some (t, ts) \<Longrightarrow> mset h = add_mset t (mset ts)"
  by (induction h arbitrary: t ts) (auto split: option.splits if_splits)

lemma sum_mset_list: "sum_list (map f xs) = sum_mset (image_mset f (mset xs))" for f :: "_ \<Rightarrow> nat"
  by (induction xs) auto

lemma gen_next_smaller: "gen_next g s = (Inr (Some k), g', s') \<Longrightarrow> gen_size g' < gen_size g"
proof (induction g s rule: gen_next.induct)
  case (4 h s)
  then obtain t ts where p: "pick h = Some (t, ts)" by (auto split: option.splits)
  have "sum_list (map (Suc \<circ> length) h) = Suc (length t) + sum_list (map (Suc \<circ> length) ts)"
    using pick_mset [OF p] by (simp only: sum_mset_list) simp
  moreover have "tl t \<noteq> [] \<Longrightarrow> length (tl t) < length t" by (cases t) auto
  ultimately show ?case using 4 p by (auto split: prod.splits option.splits if_splits)
qed auto

function write_loop :: "gen \<Rightarrow> run \<Rightarrow> Hash \<Rightarrow> HashSet \<Rightarrow> (error + run) \<times> HashSet" where
  "write_loop g r prev s =
     (case gen_next g s of
        (Inl err, g', s1) \<Rightarrow> (Inl err, s1)
      | (Inr None, g', s1) \<Rightarrow>
          (case io_fault s1 of
             (Some err, s2) \<Rightarrow> (Inl (Errorf ''spill: flush run'' [err]), s2)
           | (None, s2) \<Rightarrow> (Inr r, s2))
      | (Inr (Some k), g', s1) \<Rightarrow>
          if rn_n r > 0 \<and> k = prev then write_loop g' r prev s1
          else
            (let r1 = r\<lparr>rn_fence := (if rn_n r mod fenceEvery = 0 then rn_fence r @ [k] else rn_fence r),
                        rn_bloom := bloom_add k (rn_bloom r)\<rparr>
             in case io_fault s1 of
                  (Some err, s2) \<Rightarrow> (Inl (Errorf ''spill: write run'' [err]), s2)
                | (None, s2) \<Rightarrow>
                    write_loop g' (r1\<lparr>rn_keys := rn_keys r @ [k], rn_n := Suc (rn_n r)\<rparr>) k s2))"
  by pat_completeness auto
termination
  by (relation "measure (\<lambda>(g, r, p, s). gen_size g)") (auto dest: gen_next_smaller [OF sym])

declare write_loop.simps [simp del]

definition writeRunLocked :: "nat \<Rightarrow> nat \<Rightarrow> gen \<Rightarrow> HashSet \<Rightarrow> (error + run) \<times> HashSet" where
  "writeRunLocked level upper g s0 =
     (let s = s0\<lparr>hs_seq := Suc (hs_seq s0)\<rparr> in
      case io_fault s of
        (Some err, s1) \<Rightarrow> (Inl (Errorf ''spill: create run'' [err]), s1)
      | (None, s1) \<Rightarrow>
          write_loop g \<lparr>rn_level = level, rn_keys = [], rn_n = 0,
                        rn_bloom = newBloom (int upper) (maxBloomBytes s1), rn_fence = []\<rparr> zero_hash s1)"

definition mergeTailLocked :: "nat \<Rightarrow> HashSet \<Rightarrow> error option \<times> HashSet" where
  "mergeTailLocked n s =
     (let ins = drop (length (hs_runs s) - n) (hs_runs s);
          level = fold (\<lambda>r l. if rn_level r \<ge> l then rn_level r + 1 else l) ins 0;
          upper = sum_list (map rn_n ins)
      in case preflightLocked upper s of
           (Some err, s1) \<Rightarrow> (Some err, s1)
         | (None, s1) \<Rightarrow>
             (case newMergeIter ins s1 of (g, s2) \<Rightarrow>
              (case writeRunLocked level upper g s2 of
                 (Inl err, s3) \<Rightarrow> (Some err, s3)
               | (Inr merged, s3) \<Rightarrow>
                   (None, s3\<lparr>hs_runs := take (length (hs_runs s) - n) (hs_runs s) @ [merged]\<rparr>))))"

text \<open>The operations on the way change only the scripts, the sequence number and the directory flag.\<close>

definition same_keys :: "HashSet \<Rightarrow> HashSet \<Rightarrow> bool" where
  "same_keys s s' \<longleftrightarrow> hs_mem s' = hs_mem s \<and> hs_runs s' = hs_runs s \<and> hs_hot s' = hs_hot s \<and> hs_err s' = hs_err s \<and>
     hs_MemEntries s' = hs_MemEntries s \<and> hs_MaxBloomBytes s' = hs_MaxBloomBytes s \<and> hs_closed s' = hs_closed s \<and>
     hs_retryAt s' = hs_retryAt s"

lemma same_keys_refl [simp]: "same_keys s s"
  by (simp add: same_keys_def)

lemma same_keys_trans [trans]: "same_keys a b \<Longrightarrow> same_keys b c \<Longrightarrow> same_keys a c"
  by (simp add: same_keys_def)

lemma same_keys_upd [simp]: "same_keys s (s'\<lparr>hs_seq := n\<rparr>) = same_keys s s'" "same_keys s (s'\<lparr>hs_dir := b\<rparr>) = same_keys s s'"
  by (simp_all add: same_keys_def)

lemma io_fault_same: "io_fault s = (e, s') \<Longrightarrow> same_keys s s'"
  by (auto simp: io_fault_def same_keys_def split: list.splits)

lemma ensureDir_same: "ensureDirLocked s = (e, s') \<Longrightarrow> same_keys s s'"
  by (auto simp: ensureDirLocked_def dest: io_fault_same split: if_splits prod.splits option.splits)

lemma preflight_same: "preflightLocked n s = (e, s') \<Longrightarrow> same_keys s s'"
  by (auto simp: preflightLocked_def freeBytes_def same_keys_def split: list.splits prod.splits option.splits)

lemma gen_next_same: "gen_next g s = (r, g', s') \<Longrightarrow> same_keys s s'"
  by (induction g s rule: gen_next.induct) (auto dest: io_fault_same split: prod.splits option.splits)

lemma newMergeIter_same: "newMergeIter rs s = (g, s') \<Longrightarrow> same_keys s s'"
proof (induction rs s arbitrary: g s' rule: newMergeIter.induct)
  case (2 r rs s)
  then show ?case by (auto dest!: io_fault_same intro: same_keys_trans split: if_splits prod.splits option.splits gen.splits)
qed simp

lemma write_loop_same: "write_loop g r prev s = (res, s') \<Longrightarrow> same_keys s s'"
proof (induction g r prev s arbitrary: res s' rule: write_loop.induct)
  case (1 g r prev s)
  obtain x g' s1 where n: "gen_next g s = (x, g', s1)" by (metis prod.exhaust)
  obtain e s2 where f: "io_fault s1 = (e, s2)" by fastforce
  have s1: "same_keys s s1" "same_keys s s2"
    using gen_next_same [OF n] io_fault_same [OF f] same_keys_trans by blast+
  show ?case
  proof (cases "\<exists>k. x = Inr (Some k)")
    case False
    then show ?thesis using 1(3) s1 by (subst (asm) write_loop.simps) (auto simp: n f split: sum.splits option.splits)
  next
    case True
    then obtain k where x: "x = Inr (Some k)" by blast
    show ?thesis
    proof (cases "rn_n r > 0 \<and> k = prev")
      case True
      have "write_loop g' r prev s1 = (res, s')" using 1(3) True by (subst (asm) write_loop.simps) (simp add: n x)
      from same_keys_trans [OF s1(1) 1(1) [OF n [symmetric] x refl refl True this]] show ?thesis .
    next
      case False
      show ?thesis
      proof (cases e)
        case (Some y)
        then show ?thesis using 1(3) False s1 by (subst (asm) write_loop.simps) (auto simp: n x f Let_def)
      next
        case None
        note ih = 1(2) [OF n [symmetric] x refl refl False refl f [symmetric] None]
        have "same_keys s2 s'" by (rule ih) (use 1(3) False None in \<open>subst (asm) write_loop.simps, simp add: n x f Let_def\<close>)
        then show ?thesis using same_keys_trans [OF s1(2)] by blast
      qed
    qed
  qed
qed

lemma writeRun_same: "writeRunLocked l u g s = (r, s') \<Longrightarrow> same_keys s s'"
  unfolding writeRunLocked_def Let_def
  by (auto dest!: io_fault_same write_loop_same intro: same_keys_trans split: prod.splits option.splits)
    (metis same_keys_trans same_keys_upd(1) same_keys_refl)+

lemma mergeTail_shrinks:
  assumes "mergeTailLocked n s = (None, s')" "n \<le> length (hs_runs s)"
  shows "length (hs_runs s') = length (hs_runs s) - n + 1"
proof -
  obtain g s2 where g: "newMergeIter (drop (length (hs_runs s) - n) (hs_runs s)) (snd (preflightLocked (sum_list (map rn_n
      (drop (length (hs_runs s) - n) (hs_runs s)))) s)) = (g, s2)" by fastforce
  show ?thesis using assms g by (auto simp: mergeTailLocked_def Let_def split: prod.splits option.splits sum.splits)
qed

text \<open>Merging the two youngest runs while they have the same level.\<close>

function merge_equal :: "HashSet \<Rightarrow> error option \<times> HashSet" where
  "merge_equal s =
     (let n = length (hs_runs s) in
      if n \<ge> 2 \<and> rn_level (hs_runs s ! (n - 1)) = rn_level (hs_runs s ! (n - 2)) then
        (case mergeTailLocked 2 s of
           (Some err, s1) \<Rightarrow> (Some err, s1)
         | (None, s1) \<Rightarrow> merge_equal s1)
      else (None, s))"
  by pat_completeness auto
termination
  by (relation "measure (length \<circ> hs_runs)") (auto dest!: mergeTail_shrinks [OF sym])

declare merge_equal.simps [simp del]

definition flushLocked :: "HashSet \<Rightarrow> error option \<times> HashSet" where
  "flushLocked s =
     (if hs_mem s = [] then (None, s)
      else case ensureDirLocked s of
        (Some err, s1) \<Rightarrow> (Some err, s1)
      | (None, s1) \<Rightarrow>
          (case preflightLocked (length (hs_mem s1)) s1 of
             (Some err, s2) \<Rightarrow> (Some err, s2)
           | (None, s2) \<Rightarrow>
               (case writeRunLocked 0 (length (hs_mem s2)) (FromMem (sort (hs_mem s2))) s2 of
                  (Inl err, s3) \<Rightarrow> (Some err, s3)
                | (Inr r, s3) \<Rightarrow>
                    merge_equal (s3\<lparr>hs_runs := hs_runs s3 @ [r],
                                    hs_hot := (case hs_hot s3 of None \<Rightarrow> Some (\<lambda>_. zero_hash) | Some h \<Rightarrow> Some h),
                                    hs_mem := []\<rparr>))))"

definition compactAllLocked :: "HashSet \<Rightarrow> error option \<times> HashSet" where
  "compactAllLocked s =
     (if length (hs_runs s) < 2 then (None, s) else mergeTailLocked (length (hs_runs s)) s)"

definition hotSlot :: "Hash \<Rightarrow> nat" where
  "hotSlot k = unat (hash_bytes k ! 0) * 256 + unat (hash_bytes k ! 1)"

text \<open>\<^verbatim>\<open>run.has\<close>: filter, bisect the fence, read one block, bisect the block.\<close>

definition run_has :: "Hash \<Rightarrow> run \<Rightarrow> HashSet \<Rightarrow> (error + bool) \<times> HashSet" where
  "run_has k r s =
     (if rn_n r = 0 \<or> \<not> bloom_test (rn_bloom r) k then (Inr False, s)
      else
        (let b = sort_Search (length (rn_fence r)) (\<lambda>i. rn_fence r ! i > k) in
         if b = 0 then (Inr False, s)
         else
           (let first = (b - 1) * fenceEvery;
                cnt = (if rn_n r - first > fenceEvery then fenceEvery else rn_n r - first);
                buf = take cnt (drop first (rn_keys r))
            in case io_fault s of
                 (Some err, s1) \<Rightarrow> (Inl (Errorf ''spill: read run'' [err]), s1)
               | (None, s1) \<Rightarrow>
                   (let i = sort_Search cnt (\<lambda>i. buf ! i \<ge> k)
                    in (Inr (i < cnt \<and> buf ! i = k), s1)))))"

fun lookup_runs :: "Hash \<Rightarrow> run list \<Rightarrow> HashSet \<Rightarrow> (bool \<times> bool) \<times> HashSet" where
  "lookup_runs k [] s = ((False, True), s)"
| "lookup_runs k (r # rs) s =
     (case run_has k r s of
        (Inl err, s1) \<Rightarrow> ((True, False), setErr err s1)
      | (Inr found, s1) \<Rightarrow> if found then ((True, True), s1) else lookup_runs k rs s1)"

definition lookupRunsLocked :: "Hash \<Rightarrow> HashSet \<Rightarrow> (bool \<times> bool) \<times> HashSet" where
  "lookupRunsLocked k s = lookup_runs k (rev (hs_runs s)) s"

definition Add :: "Hash \<Rightarrow> HashSet \<Rightarrow> bool \<times> HashSet" where
  "Add k s =
     (if k \<in> set (hs_mem s) then (False, s)
      else if (case hs_hot s of Some hot \<Rightarrow> hot (hotSlot k) = k | None \<Rightarrow> False) then (False, s)
      else case lookupRunsLocked k s of
        ((True, clean), s1) \<Rightarrow>
          (False,
           (case hs_hot s1 of
              Some hot \<Rightarrow> if clean \<and> k \<noteq> zero_hash then s1\<lparr>hs_hot := Some (hot(hotSlot k := k))\<rparr> else s1
            | None \<Rightarrow> s1))
      | ((False, _), s1) \<Rightarrow>
          (let s2 = s1\<lparr>hs_mem := k # hs_mem s1\<rparr>; n = length (hs_mem s2) in
           (True,
            if int n \<ge> hs_MemEntries s2 \<and> n \<ge> hs_retryAt s2 then
              (case flushLocked s2 of
                 (Some err, s3) \<Rightarrow> (setErr err s3)\<lparr>hs_retryAt := 2 * length (hs_mem s3)\<rparr>
               | (None, s3) \<Rightarrow> s3\<lparr>hs_retryAt := 0\<rparr>)
            else s2)))"

definition hs_Has :: "Hash \<Rightarrow> HashSet \<Rightarrow> bool \<times> HashSet" where
  "hs_Has k s =
     (if k \<in> set (hs_mem s) then (True, s)
      else if (case hs_hot s of Some hot \<Rightarrow> k \<noteq> zero_hash \<and> hot (hotSlot k) = k | None \<Rightarrow> False) then (True, s)
      else case lookupRunsLocked k s of ((found, _), s1) \<Rightarrow> (found, s1))"

definition hs_Len :: "HashSet \<Rightarrow> nat \<times> HashSet" where
  "hs_Len s =
     (if hs_runs s = [] then (length (hs_mem s), s)
      else case flushLocked s of
        (Some err, s1) \<Rightarrow> (length (hs_mem s1), setErr err s1)
      | (None, s1) \<Rightarrow>
          (case compactAllLocked s1 of (err, s2) \<Rightarrow>
             (let s3 = (case err of Some e \<Rightarrow> setErr e s2 | None \<Rightarrow> s2)
              in (sum_list (map rn_n (hs_runs s3)), s3))))"

text \<open>The keys \<^verbatim>\<open>mergeRuns\<close> hands to its callback, and the error that ended it.\<close>

function merge_keys :: "gen \<Rightarrow> Hash option \<Rightarrow> HashSet \<Rightarrow> (Hash list \<times> error option) \<times> HashSet" where
  "merge_keys g prev s =
     (case gen_next g s of
        (Inl err, g', s1) \<Rightarrow> (([], Some err), s1)
      | (Inr None, g', s1) \<Rightarrow> (([], None), s1)
      | (Inr (Some k), g', s1) \<Rightarrow>
          if prev = Some k then merge_keys g' prev s1
          else case merge_keys g' (Some k) s1 of ((ks, e), s2) \<Rightarrow> ((k # ks, e), s2))"
  by pat_completeness auto
termination
  by (relation "measure (\<lambda>(g, p, s). gen_size g)") (auto dest: gen_next_smaller [OF sym])

declare merge_keys.simps [simp del]

definition hs_ForEach :: "HashSet \<Rightarrow> (Hash list \<times> error option) \<times> HashSet" where
  "hs_ForEach s =
     (case (if hs_runs s \<noteq> [] then flushLocked s else (None, s)) of
        (Some err, s1) \<Rightarrow> (([], Some err), s1)
      | (None, s1) \<Rightarrow>
          if hs_runs s1 = [] then ((sort (hs_mem s1), None), s1)
          else case newMergeIter (hs_runs s1) s1 of (g, s2) \<Rightarrow> merge_keys g None s2)"

definition hs_Close :: "HashSet \<Rightarrow> error option \<times> HashSet" where
  "hs_Close s =
     (if hs_closed s then (hs_err s, s)
      else (hs_err s, s\<lparr>hs_closed := True, hs_runs := [], hs_mem := [], hs_hot := None\<rparr>))"

end
