(* ===== verification/Cas.thy ===== *)
theory Cas
  imports Storage Envelope Spill
begin

text \<open>
  The content-addressed chunk store of \<^verbatim>\<open>internal/repo/cas.go\<close> and \<^verbatim>\<open>adopted_mark.go\<close>: one \<^verbatim>\<open>CAS\<close> value as
  a record, its methods as functions of that record and of the world behind its storage plugin. SHA-256 is the
  parameter \<open>sha\<close>; the clock and the random source come from a \<open>runtime\<close>. A \<^verbatim>\<open>sync.Map\<close> is an association list,
  a set is a list without repetition. Methods run one at a time: the goroutines of \<^verbatim>\<open>VerifyAdopted\<close>, which
  only stat and collect, run in the order they are started.
\<close>

subsection \<open>Retention\<close>

record 'w CASRetention =
  ret_RetainUntil :: instant
  ret_RetainUntilFunc :: "('w \<Rightarrow> instant \<times> 'w) option"
  ret_Mode :: WORMMode

definition ret_IsZero :: "'w CASRetention \<Rightarrow> bool" where
  "ret_IsZero r =
     (if ret_Mode r = WORMNone then True else ret_RetainUntil r = zero_time \<and> ret_RetainUntilFunc r = None)"

definition retainUntil :: "'w CASRetention \<Rightarrow> 'w \<Rightarrow> instant \<times> 'w" where
  "retainUntil r w = (case ret_RetainUntilFunc r of Some f \<Rightarrow> f w | None \<Rightarrow> (ret_RetainUntil r, w))"

subsection \<open>State\<close>

record seenEntry =
  se_writtenAt :: instant
  se_retainedUntil :: instant

record adoptGuard =
  ag_resolved :: bool
  ag_err :: "error option"
  ag_multiKEK :: bool
  ag_multiKEKKnown :: bool

record 'w CAS =
  c_sp :: "'w StoragePlugin"
  c_seen :: "(Hash \<times> seenEntry) list"
  c_writer :: Compressor
  c_registry :: "Compressor CodecRegistry"
  c_encWriter :: "Encryptor option"
  c_encRegistry :: "Encryptor CodecRegistry"
  c_retention :: "'w CASRetention"
  c_retentionUnenforceable :: bool
  c_retentionAllowUnenforced :: bool
  c_chunkDurability :: Durability
  c_hints :: "Hash list option"
  c_hintFilter :: "bloom option"
  c_dedupMiss :: nat
  c_dedupInMem :: nat
  c_dedupStorage :: nat
  c_seenCap :: int
  c_seenCount :: int
  c_adopted :: "Hash list"
  c_adoptedSpill :: "HashSet option"
  c_adoptedGone :: "Hash list"
  c_adopt :: adoptGuard

record ChunkInfo =
  ci_Hash :: Hash
  ci_Size :: nat
  ci_Deduped :: bool

record DedupStats =
  ds_Misses :: nat
  ds_HitsInMemory :: nat
  ds_HitsStorage :: nat

definition seenWriteTrust :: duration where "seenWriteTrust = 5 * minute"
definition defaultSeenCacheLimit :: int where "defaultSeenCacheLimit = 1048576"
definition retentionExtendHeadroom :: duration where "retentionExtendHeadroom = hour"
definition MaxChunkEnvelopeBytes :: int where "MaxChunkEnvelopeBytes = 268435456"
definition sharedDEKPrefix :: string where "sharedDEKPrefix = ''keys/shared-dek/''"

definition DedupStats_Total :: "DedupStats \<Rightarrow> nat" where
  "DedupStats_Total d = ds_Misses d + ds_HitsInMemory d + ds_HitsStorage d"

definition CAS_DedupStats :: "'w CAS \<Rightarrow> DedupStats" where
  "CAS_DedupStats c = \<lparr>ds_Misses = c_dedupMiss c, ds_HitsInMemory = c_dedupInMem c, ds_HitsStorage = c_dedupStorage c\<rparr>"

subsection \<open>The seen cache\<close>

definition evictSeen :: "'w CAS \<Rightarrow> 'w CAS" where
  "evictSeen c = (if c_seenCount c \<le> c_seenCap c then c else c\<lparr>c_seen := [], c_seenCount := 0\<rparr>)"

definition markSeen :: "Hash \<Rightarrow> seenEntry \<Rightarrow> 'w CAS \<Rightarrow> 'w CAS" where
  "markSeen hash e c =
     (let c1 = c\<lparr>c_seen := AList.update hash e (c_seen c)\<rparr> in
      if map_of (c_seen c) hash \<noteq> None then c1
      else if c_seenCap c \<le> 0 then c1
      else (let c2 = c1\<lparr>c_seenCount := c_seenCount c1 + 1\<rparr> in
            if c_seenCount c2 > c_seenCap c2 then evictSeen c2 else c2))"

definition unmarkSeen :: "Hash \<Rightarrow> 'w CAS \<Rightarrow> 'w CAS" where
  "unmarkSeen hash c =
     (if map_of (c_seen c) hash \<noteq> None then
        (let c1 = c\<lparr>c_seen := AList.delete hash (c_seen c)\<rparr> in
         if c_seenCap c > 0 then c1\<lparr>c_seenCount := c_seenCount c1 - 1\<rparr> else c1)
      else c)"

subsection \<open>Adoption\<close>

definition markAdopted :: "Hash \<Rightarrow> 'w CAS \<Rightarrow> error option \<times> 'w CAS" where
  "markAdopted h c =
     (case c_adoptedSpill c of
        Some sp \<Rightarrow>
          (let sp' = snd (Add h sp); c' = c\<lparr>c_adoptedGone := removeAll h (c_adoptedGone c), c_adoptedSpill := Some sp'\<rparr> in
           case hs_err sp' of
             Some err \<Rightarrow> (Some (Errorf ''cas: adoption set'' [err]), c')
           | None \<Rightarrow> (None, c'))
      | None \<Rightarrow> (None, c\<lparr>c_adopted := List.insert h (c_adopted c)\<rparr>))"

definition WasAdopted :: "Hash \<Rightarrow> 'w CAS \<Rightarrow> bool \<times> 'w CAS" where
  "WasAdopted h c =
     (case c_adoptedSpill c of
        Some sp \<Rightarrow>
          if h \<in> set (c_adoptedGone c) then (False, c)
          else (case hs_Has h sp of (b, sp') \<Rightarrow> (b, c\<lparr>c_adoptedSpill := Some sp'\<rparr>))
      | None \<Rightarrow> (h \<in> set (c_adopted c), c))"

text \<open>The hashes handed to the callback of \<^verbatim>\<open>ForEachAdopted\<close>, and the error that ended the walk.\<close>

definition ForEachAdopted :: "'w CAS \<Rightarrow> (Hash list \<times> error option) \<times> 'w CAS" where
  "ForEachAdopted c =
     (case c_adoptedSpill c of
        None \<Rightarrow> ((c_adopted c, None), c)
      | Some sp \<Rightarrow>
          (case hs_ForEach sp of ((ks, err), sp') \<Rightarrow>
             ((filter (\<lambda>h. h \<notin> set (c_adoptedGone c)) ks, err), c\<lparr>c_adoptedSpill := Some sp'\<rparr>)))"

definition AdoptedHashes :: "'w CAS \<Rightarrow> Hash list \<times> 'w CAS" where
  "AdoptedHashes c = (case ForEachAdopted c of ((hs, _), c') \<Rightarrow> (hs, c'))"

definition AdoptedLen :: "'w CAS \<Rightarrow> int \<times> 'w CAS" where
  "AdoptedLen c =
     (case c_adoptedSpill c of
        None \<Rightarrow> (int (length (c_adopted c)), c)
      | Some sp \<Rightarrow>
          (case hs_Len sp of (n, sp') \<Rightarrow> (int n - int (length (c_adoptedGone c)), c\<lparr>c_adoptedSpill := Some sp'\<rparr>)))"

definition AdoptedErr :: "'w CAS \<Rightarrow> error option" where
  "AdoptedErr c = (case c_adoptedSpill c of None \<Rightarrow> None | Some sp \<Rightarrow> hs_err sp)"

definition CloseAdopted :: "'w CAS \<Rightarrow> error option \<times> 'w CAS" where
  "CloseAdopted c =
     (case c_adoptedSpill c of
        None \<Rightarrow> (None, c)
      | Some sp \<Rightarrow> (case hs_Close sp of (err, sp') \<Rightarrow> (err, c\<lparr>c_adoptedSpill := Some sp'\<rparr>)))"

definition forgetAdoption :: "Hash \<Rightarrow> 'w CAS \<Rightarrow> 'w CAS" where
  "forgetAdoption h c =
     (if c_adoptedSpill c \<noteq> None then c\<lparr>c_adoptedGone := List.insert h (c_adoptedGone c)\<rparr>
      else c\<lparr>c_adopted := removeAll h (c_adopted c)\<rparr>)"

definition ForgetAdopted :: "Hash list \<Rightarrow> 'w CAS \<Rightarrow> 'w CAS" where
  "ForgetAdopted hashes c = fold forgetAdoption hashes c"

definition ForgetChunk :: "Hash list \<Rightarrow> 'w CAS \<Rightarrow> 'w CAS" where
  "ForgetChunk hashes c = fold (\<lambda>h c. forgetAdoption h (unmarkSeen h c)) hashes c"

fun verify_loop :: "'w runtime \<Rightarrow> 'w StoragePlugin \<Rightarrow> ctx \<Rightarrow> Hash list \<Rightarrow> Hash list \<Rightarrow> nat \<Rightarrow> 'w \<Rightarrow>
    (Hash list \<times> nat \<times> error option) \<times> 'w" where
  "verify_loop rt sp ctx [] missing unchecked w =
     (case rt_CtxErr rt ctx w of (err, w1) \<Rightarrow> ((missing, unchecked, err), w1))"
| "verify_loop rt sp ctx (h # hs) missing unchecked w =
     (case rt_CtxErr rt ctx w of
        (Some err, w1) \<Rightarrow> ((missing, unchecked, Some err), w1)
      | (None, w1) \<Rightarrow>
          (case sp_Stat sp ctx (ChunkKey h) w1 of
             (Inr _, w2) \<Rightarrow> verify_loop rt sp ctx hs missing unchecked w2
           | (Inl serr, w2) \<Rightarrow>
               if is_err serr ErrNotFound then verify_loop rt sp ctx hs (missing @ [h]) unchecked w2
               else verify_loop rt sp ctx hs missing (Suc unchecked) w2))"

definition VerifyAdopted :: "'w runtime \<Rightarrow> ctx \<Rightarrow> Hash list \<Rightarrow> 'w CAS \<Rightarrow> 'w \<Rightarrow>
    (Hash list \<times> nat \<times> error option) \<times> 'w CAS \<times> 'w" where
  "VerifyAdopted rt ctx hashes c w =
     (if hashes = [] then (([], 0, None), c, w)
      else case verify_loop rt (c_sp c) ctx hashes [] 0 w of
        ((missing, unchecked, Some err), w1) \<Rightarrow> ((missing, unchecked, Some err), c, w1)
      | ((missing, unchecked, None), w1) \<Rightarrow>
          ((sortHashes missing, unchecked, None), ForgetChunk missing c, w1))"

subsection \<open>Construction\<close>

text \<open>
  An option changes the \<^verbatim>\<open>CAS\<close> or panics (\<open>None\<close>). The writer and the encryption registry start with the values
  that \<^verbatim>\<open>NewCAS\<close> gives them in the end when no option set them.
\<close>

type_synonym 'w CASOption = "'w CAS \<Rightarrow> 'w CAS option"

definition WithSpilledAdoption :: "HashSet \<Rightarrow> 'w CASOption" where
  "WithSpilledAdoption s c = Some (c\<lparr>c_adoptedSpill := Some s\<rparr>)"

definition WithCompressor :: "Compressor \<Rightarrow> 'w CASOption" where
  "WithCompressor w c = Some (c\<lparr>c_writer := w\<rparr>)"

definition WithRegistry :: "Compressor CodecRegistry \<Rightarrow> 'w CASOption" where
  "WithRegistry r c = Some (c\<lparr>c_registry := r\<rparr>)"

definition WithEncryptor :: "Encryptor \<Rightarrow> 'w CASOption" where
  "WithEncryptor e c =
     (case Register (c_encRegistry c) (ec_Algorithm e) e of
        None \<Rightarrow> None
      | Some r \<Rightarrow> Some (c\<lparr>c_encWriter := Some e, c_encRegistry := r\<rparr>))"

definition WithEncryptionRegistry :: "Encryptor CodecRegistry \<Rightarrow> 'w CASOption" where
  "WithEncryptionRegistry r c = Some (c\<lparr>c_encRegistry := r\<rparr>)"

definition WithRetention :: "'w CASRetention \<Rightarrow> 'w CASOption" where
  "WithRetention r c = Some (c\<lparr>c_retention := r\<rparr>)"

definition WithRetentionAllowUnenforced :: "'w CASOption" where
  "WithRetentionAllowUnenforced c = Some (c\<lparr>c_retentionAllowUnenforced := True\<rparr>)"

definition WithChunkDurability :: "Durability \<Rightarrow> 'w CASOption" where
  "WithChunkDurability d c = Some (c\<lparr>c_chunkDurability := d\<rparr>)"

definition WithSeenCacheLimit :: "int \<Rightarrow> 'w CASOption" where
  "WithSeenCacheLimit n c = Some (c\<lparr>c_seenCap := (if n < 0 then 0 else n)\<rparr>)"

definition WithDedupHintFilter :: "bloom \<Rightarrow> 'w CASOption" where
  "WithDedupHintFilter f c = Some (c\<lparr>c_hintFilter := Some f\<rparr>)"

definition WithDedupHints :: "Hash list \<Rightarrow> 'w CASOption" where
  "WithDedupHints h c = Some (if h = [] then c else c\<lparr>c_hints := Some h\<rparr>)"

definition defaultRegistry :: "Compressor CodecRegistry" where
  "defaultRegistry = [(AlgoNone, none_Compressor)]"

fun apply_options :: "'w CASOption list \<Rightarrow> 'w CASOption" where
  "apply_options [] c = Some c"
| "apply_options (opt # opts) c = (case opt c of None \<Rightarrow> None | Some c' \<Rightarrow> apply_options opts c')"

definition empty_CAS :: "'w StoragePlugin \<Rightarrow> 'w CAS" where
  "empty_CAS sp =
     \<lparr>c_sp = sp, c_seen = [], c_writer = none_Compressor, c_registry = defaultRegistry, c_encWriter = None,
      c_encRegistry = NewRegistry,
      c_retention = \<lparr>ret_RetainUntil = zero_time, ret_RetainUntilFunc = None, ret_Mode = WORMNone\<rparr>,
      c_retentionUnenforceable = False, c_retentionAllowUnenforced = False, c_chunkDurability = DurabilityInline,
      c_hints = None, c_hintFilter = None, c_dedupMiss = 0, c_dedupInMem = 0, c_dedupStorage = 0,
      c_seenCap = defaultSeenCacheLimit, c_seenCount = 0, c_adopted = [], c_adoptedSpill = None, c_adoptedGone = [],
      c_adopt = \<lparr>ag_resolved = False, ag_err = None, ag_multiKEK = False, ag_multiKEKKnown = False\<rparr>\<rparr>"

definition NewCAS :: "'w StoragePlugin \<Rightarrow> 'w CASOption list \<Rightarrow> 'w CAS option" where
  "NewCAS sp opts =
     (case apply_options opts (empty_CAS sp) of
        None \<Rightarrow> None
      | Some c \<Rightarrow>
          (case (if Has (c_registry c) (cp_Algorithm (c_writer c)) then Some (c_registry c)
                 else Register (c_registry c) (cp_Algorithm (c_writer c)) (c_writer c)) of
             None \<Rightarrow> None
           | Some r \<Rightarrow>
               (let c1 = c\<lparr>c_registry := r\<rparr> in
                Some (if \<not> ret_IsZero (c_retention c1) \<and> \<not> c_retentionAllowUnenforced c1 \<and> \<not> cap_WORM (sp_Capabilities sp)
                      then c1\<lparr>c_retentionUnenforceable := True\<rparr> else c1))))"

subsection \<open>Reading a chunk\<close>

definition GetChunk :: "ctx \<Rightarrow> Hash \<Rightarrow> 'w CAS \<Rightarrow> 'w \<Rightarrow> (error + error reader) \<times> 'w" where
  "GetChunk ctx hash c w =
     (case sp_Get (c_sp c) ctx (ChunkKey hash) w of
        (Inl err, w1) \<Rightarrow> (Inl (Errorf ''cas: get chunk'' [err]), w1)
      | (Inr rc, w1) \<Rightarrow> (Inr rc, w1))"

definition readEnvelopeLimited :: "error reader \<Rightarrow> int \<Rightarrow> error + bytes" where
  "readEnvelopeLimited rc mx =
     (case ReadAll (LimitReader rc (nat (mx + 1))) of
        Inl err \<Rightarrow> Inl err
      | Inr body \<Rightarrow>
          if int (length body) > mx then Inl (Errorf ''cas: chunk envelope exceeds the limit'' []) else Inr body)"

lemma readEnvelopeLimited_code [code]:
  "readEnvelopeLimited rc mx =
     (if int (length (rd_data rc)) > mx then Inl (Errorf ''cas: chunk envelope exceeds the limit'' [])
      else case rd_err rc of Some err \<Rightarrow> Inl err | None \<Rightarrow> Inr (rd_data rc))"
  by (auto simp: readEnvelopeLimited_def ReadAll_def LimitReader_def min_def split: option.splits)

text \<open>The part of \<^verbatim>\<open>GetChunkBytes\<close> after the read: envelope, decryption, decompression, hash.\<close>

definition decode_chunk :: "(bytes \<Rightarrow> Hash) \<Rightarrow> 'w CAS \<Rightarrow> Hash \<Rightarrow> bytes \<Rightarrow> error + bytes" where
  "decode_chunk sha c hash envelope =
     (case ReadEnvelope envelope of
        Inl err \<Rightarrow> Inl (Errorf ''cas: decode envelope'' [err])
      | Inr (algo, encFields, payload0) \<Rightarrow>
          (case (if IsEncrypted encFields then
                   (case EncLookup (c_encRegistry c) (ef_EncryptionAlgo encFields) of
                      Inl lookupErr \<Rightarrow> Inl (Errorf ''cas: chunk'' [lookupErr])
                    | Inr decryptor \<Rightarrow>
                        (case ec_Decrypt decryptor payload0 (ef_Nonce encFields) of
                           Inl decErr \<Rightarrow> Inl (Errorf ''cas: decrypt chunk'' [decErr])
                         | Inr pt \<Rightarrow> Inr pt))
                 else Inr payload0) of
             Inl err \<Rightarrow> Inl err
           | Inr payload \<Rightarrow>
               (case Lookup (c_registry c) algo of
                  Inl err \<Rightarrow> Inl (Errorf ''cas: chunk'' [err])
                | Inr cd \<Rightarrow>
                    (case cp_Decompress cd payload of
                       Inl err \<Rightarrow> Inl (Errorf ''cas: decompress chunk'' [err])
                     | Inr body \<Rightarrow>
                         if sha body \<noteq> hash
                         then Inl (Errorf ''cas: stored bytes hash to another value'' [Sentinel ErrChecksumMismatch])
                         else Inr body))))"

definition GetChunkBytes :: "(bytes \<Rightarrow> Hash) \<Rightarrow> ctx \<Rightarrow> Hash \<Rightarrow> 'w CAS \<Rightarrow> 'w \<Rightarrow> (error + bytes) \<times> 'w CAS \<times> 'w" where
  "GetChunkBytes sha ctx hash c w =
     (case GetChunk ctx hash c w of
        (Inl err, w1) \<Rightarrow> (Inl err, c, w1)
      | (Inr rc, w1) \<Rightarrow>
          (case readEnvelopeLimited rc MaxChunkEnvelopeBytes of
             Inl err \<Rightarrow> (Inl (Errorf ''cas: read chunk'' [err]), c, w1)
           | Inr envelope \<Rightarrow>
               (case decode_chunk sha c hash envelope of
                  Inl err \<Rightarrow> (Inl err, c, w1)
                | Inr body \<Rightarrow> (Inr body, markSeen hash \<lparr>se_writtenAt = zero_time, se_retainedUntil = zero_time\<rparr> c, w1))))"

definition HasChunk :: "ctx \<Rightarrow> Hash \<Rightarrow> 'w CAS \<Rightarrow> 'w \<Rightarrow> (error + bool) \<times> 'w" where
  "HasChunk ctx hash c w =
     (if map_of (c_seen c) hash \<noteq> None then (Inr True, w)
      else case sp_Stat (c_sp c) ctx (ChunkKey hash) w of
        (Inr _, w1) \<Rightarrow> (Inr True, w1)
      | (Inl err, w1) \<Rightarrow>
          if is_err err ErrNotFound then (Inr False, w1) else (Inl (Errorf ''cas: stat chunk'' [err]), w1))"

definition DeleteChunk :: "ctx \<Rightarrow> Hash \<Rightarrow> 'w CAS \<Rightarrow> 'w \<Rightarrow> error option \<times> 'w CAS \<times> 'w" where
  "DeleteChunk ctx hash c w =
     (case sp_Delete (c_sp c) ctx (ChunkKey hash) w of
        (Some err, w1) \<Rightarrow> (Some (Errorf ''cas: delete chunk'' [err]), c, w1)
      | (None, w1) \<Rightarrow> (None, unmarkSeen hash c, w1))"

definition CAS_Barrier :: "ctx \<Rightarrow> 'w CAS \<Rightarrow> 'w \<Rightarrow> error option \<times> 'w" where
  "CAS_Barrier ctx c w =
     (case sp_Barrier (c_sp c) ctx w of
        (Some err, w1) \<Rightarrow> (Some (Errorf ''cas: barrier'' [err]), w1)
      | (None, w1) \<Rightarrow> (None, w1))"

subsection \<open>Guards of deduplication\<close>

definition repoIsMultiKEK :: "ctx \<Rightarrow> 'w CAS \<Rightarrow> 'w \<Rightarrow> bool \<times> 'w" where
  "repoIsMultiKEK ctx c w =
     (case sp_List (c_sp c) ctx sharedDEKPrefix w of ((items, _), w1) \<Rightarrow> (length items > 1, w1))"

definition ensureRetention :: "ctx \<Rightarrow> Hash \<Rightarrow> instant \<Rightarrow> 'w CAS \<Rightarrow> 'w \<Rightarrow> (error + instant) \<times> 'w" where
  "ensureRetention ctx hash have' c w =
     (if ret_IsZero (c_retention c) then (Inr zero_time, w)
      else case retainUntil (c_retention c) w of (need, w1) \<Rightarrow>
        if have' \<noteq> zero_time \<and> \<not> have' < need then (Inr have', w1)
        else
          (let until = (if ret_RetainUntilFunc (c_retention c) \<noteq> None then need + retentionExtendHeadroom else need) in
           case sp_SetRetention (c_sp c) ctx (ChunkKey hash) until (ret_Mode (c_retention c)) w1 of
             (Some err, w2) \<Rightarrow>
               if is_err err ErrUnsupported then (Inr have', w2)
               else (Inl (Errorf ''cas: retention could not be extended'' [err]), w2)
           | (None, w2) \<Rightarrow> (Inr until, w2)))"

definition ensureAdoptable :: "(bytes \<Rightarrow> Hash) \<Rightarrow> ctx \<Rightarrow> Hash \<Rightarrow> 'w CAS \<Rightarrow> 'w \<Rightarrow> error option \<times> 'w CAS \<times> 'w" where
  "ensureAdoptable sha ctx hash c w =
     (if c_encWriter c = None then (None, c, w)
      else if ag_resolved (c_adopt c) \<and> ag_err (c_adopt c) \<noteq> None then (ag_err (c_adopt c), c, w)
      else
        (case (if ag_multiKEKKnown (c_adopt c) then (c, w)
               else (case repoIsMultiKEK ctx c w of (b, w1) \<Rightarrow>
                       (c\<lparr>c_adopt := (c_adopt c)\<lparr>ag_multiKEK := b, ag_multiKEKKnown := True\<rparr>\<rparr>, w1))) of
           (c1, w1) \<Rightarrow>
             if ag_resolved (c_adopt c1) \<and> \<not> ag_multiKEK (c_adopt c1) then (None, c1, w1)
             else
               (case GetChunkBytes sha ctx hash c1 w1 of
                  (Inr _, c2, w2) \<Rightarrow> (None, c2\<lparr>c_adopt := (c_adopt c2)\<lparr>ag_resolved := True\<rparr>\<rparr>, w2)
                | (Inl err, c2, w2) \<Rightarrow>
                    if \<not> is_err err ErrAuthenticationFailed \<and> \<not> is_err err ErrChecksumMismatch then (None, c2, w2)
                    else
                      (let aerr = Errorf ''cas: chunk does not decrypt with this backup's data key'' [err] in
                       (Some aerr, c2\<lparr>c_adopt := (c_adopt c2)\<lparr>ag_resolved := True, ag_err := Some aerr\<rparr>\<rparr>, w2)))))"

subsection \<open>Writing a chunk\<close>

type_synonym 'w put_result = "(error + ChunkInfo) \<times> 'w CAS \<times> 'w"

text \<open>Deduplication against a chunk this session has seen.\<close>

definition put_seen :: "'w runtime \<Rightarrow> ctx \<Rightarrow> ChunkInfo \<Rightarrow> seenEntry \<Rightarrow> 'w CAS \<Rightarrow> 'w \<Rightarrow> 'w put_result" where
  "put_seen rt ctx info e c w =
     (let hash = ci_Hash info in
      case (if se_writtenAt e = zero_time then (True, w)
            else (case rt_Now rt w of (t, w1) \<Rightarrow> (t - se_writtenAt e \<ge> seenWriteTrust, w1))) of
        (adopt, w1) \<Rightarrow>
          (case (if adopt then markAdopted hash c else (None, c)) of
             (Some err, c1) \<Rightarrow> (Inl err, c1, w1)
           | (None, c1) \<Rightarrow>
               (case ensureRetention ctx hash (se_retainedUntil e) c1 w1 of
                  (Inl err, w2) \<Rightarrow> (Inl err, c1, w2)
                | (Inr until, w2) \<Rightarrow>
                    (let c2 = (if until \<noteq> se_retainedUntil e then markSeen hash (e\<lparr>se_retainedUntil := until\<rparr>) c1 else c1)
                     in (Inr (info\<lparr>ci_Deduped := True\<rparr>), c2\<lparr>c_dedupInMem := Suc (c_dedupInMem c2)\<rparr>, w2)))))"

text \<open>Deduplication against a chunk the repository holds: the same steps on both paths that find one.\<close>

definition adopt_existing :: "(bytes \<Rightarrow> Hash) \<Rightarrow> ctx \<Rightarrow> ChunkInfo \<Rightarrow> 'w CAS \<Rightarrow> 'w \<Rightarrow> 'w put_result" where
  "adopt_existing sha ctx info c w =
     (let hash = ci_Hash info in
      case ensureAdoptable sha ctx hash c w of
        (Some err, c1, w1) \<Rightarrow> (Inl err, c1, w1)
      | (None, c1, w1) \<Rightarrow>
          (case ensureRetention ctx hash zero_time c1 w1 of
             (Inl err, w2) \<Rightarrow> (Inl err, c1, w2)
           | (Inr until, w2) \<Rightarrow>
               (case markAdopted hash (markSeen hash \<lparr>se_writtenAt = zero_time, se_retainedUntil = until\<rparr> c1) of
                  (Some err, c2) \<Rightarrow> (Inl err, c2, w2)
                | (None, c2) \<Rightarrow>
                    (Inr (info\<lparr>ci_Deduped := True\<rparr>), c2\<lparr>c_dedupStorage := Suc (c_dedupStorage c2)\<rparr>, w2))))"

definition hinted :: "Hash \<Rightarrow> 'w CAS \<Rightarrow> bool" where
  "hinted hash c \<longleftrightarrow> (case c_hints c of Some hs \<Rightarrow> hash \<in> set hs | None \<Rightarrow> False) \<or>
     (case c_hintFilter c of Some f \<Rightarrow> bloom_test f hash | None \<Rightarrow> False)"

text \<open>The \<^verbatim>\<open>[12]byte\<close> nonce filled from the random source.\<close>

definition fill_nonce :: "bytes \<Rightarrow> bytes" where
  "fill_nonce rnd = take nonceLen (rnd @ replicate nonceLen 0)"

definition encode_chunk :: "'w runtime \<Rightarrow> bytes \<Rightarrow> 'w CAS \<Rightarrow> 'w \<Rightarrow> (error + bytes) \<times> 'w" where
  "encode_chunk rt body c w =
     (case cp_Compress (c_writer c) body of
        Inl err \<Rightarrow> (Inl (Errorf ''cas: compress chunk'' [err]), w)
      | Inr (payload, algo) \<Rightarrow>
          (case c_encWriter c of
             None \<Rightarrow> (Inr (WriteEnvelope algo zero_fields payload), w)
           | Some e \<Rightarrow>
               (case rt_Rand rt nonceLen w of (rnd, w1) \<Rightarrow>
                  (case ec_Encrypt e (Inr (fill_nonce rnd)) payload of
                     Inl err \<Rightarrow> (Inl (Errorf ''cas: encrypt chunk'' [err]), w1)
                   | Inr (ct, nonce) \<Rightarrow>
                       (Inr (WriteEnvelope algo \<lparr>ef_EncryptionAlgo = ec_Algorithm e, ef_Nonce = nonce\<rparr> ct), w1)))))"

definition put_options :: "(bytes \<Rightarrow> Hash) \<Rightarrow> bytes \<Rightarrow> 'w CAS \<Rightarrow> 'w \<Rightarrow> PutOptions \<times> 'w" where
  "put_options sha envelope c w =
     (let o0 = zero_PutOptions\<lparr>po_IfNotExists := True, po_ContentLength := int (length envelope),
                 po_Durability := c_chunkDurability c\<rparr>;
          o1 = (if cap_VerifiesContentSHA256 (sp_Capabilities (c_sp c)) then o0\<lparr>po_ContentSHA256 := sha envelope\<rparr> else o0)
      in if \<not> ret_IsZero (c_retention c) then
           (case retainUntil (c_retention c) w of (t, w1) \<Rightarrow>
              (o1\<lparr>po_RetainUntil := t, po_RetentionMode := ret_Mode (c_retention c)\<rparr>, w1))
         else (o1, w))"

definition put_new :: "(bytes \<Rightarrow> Hash) \<Rightarrow> 'w runtime \<Rightarrow> ctx \<Rightarrow> bytes \<Rightarrow> ChunkInfo \<Rightarrow> 'w CAS \<Rightarrow> 'w \<Rightarrow> 'w put_result" where
  "put_new sha rt ctx body info c w =
     (let hash = ci_Hash info in
      case encode_chunk rt body c w of
        (Inl err, w1) \<Rightarrow> (Inl err, c, w1)
      | (Inr envelope, w1) \<Rightarrow>
          (case put_options sha envelope c w1 of (putOpts, w2) \<Rightarrow>
             (case sp_Put (c_sp c) ctx (ChunkKey hash) (bytes_NewReader envelope) putOpts w2 of
                (Inr _, w3) \<Rightarrow>
                  (case rt_Now rt w3 of (t, w4) \<Rightarrow>
                     (let c1 = markSeen hash \<lparr>se_writtenAt = t, se_retainedUntil = po_RetainUntil putOpts\<rparr> c
                      in (Inr info, c1\<lparr>c_dedupMiss := Suc (c_dedupMiss c1)\<rparr>, w4)))
              | (Inl err, w3) \<Rightarrow>
                  if is_err err ErrAlreadyExists then adopt_existing sha ctx info c w3
                  else (Inl (Errorf ''cas: put chunk'' [err]), c, w3))))"

definition PutChunk :: "(bytes \<Rightarrow> Hash) \<Rightarrow> 'w runtime \<Rightarrow> ctx \<Rightarrow> bytes \<Rightarrow> 'w CAS \<Rightarrow> 'w \<Rightarrow> 'w put_result" where
  "PutChunk sha rt ctx body c w =
     (if c_retentionUnenforceable c
      then (Inl (Errorf ''backend does not advertise WORM'' [Sentinel ErrRetentionUnenforceable]), c, w)
      else
        (let hash = sha body; info = \<lparr>ci_Hash = hash, ci_Size = length body, ci_Deduped = False\<rparr> in
         case map_of (c_seen c) hash of
           Some e \<Rightarrow> put_seen rt ctx info e c w
         | None \<Rightarrow>
             if hinted hash c then
               (case sp_Stat (c_sp c) ctx (ChunkKey hash) w of
                  (Inr _, w1) \<Rightarrow> adopt_existing sha ctx info c w1
                | (Inl _, w1) \<Rightarrow> put_new sha rt ctx body info c w1)
             else put_new sha rt ctx body info c w))"

end
