(* ===== verification/CasStore.thy ===== *)
theory CasStore
  imports Cas
begin

text \<open>
  The chunk store over any backend. \<open>cas_invariant\<close> collects the predicates on a \<^verbatim>\<open>CAS\<close> value that every method
  keeps because each elementary update does; the bound of the seen cache and the fixed configuration are
  instances. \<open>cas_store\<close> runs the store on any backend that meets the storage contract: what it stores decodes,
  what it says it has is there.
\<close>

subsection \<open>Predicates every method keeps\<close>

text \<open>\<open>E h e\<close>: the entry \<open>e\<close> may stand in the seen cache for \<open>h\<close>.\<close>

locale cas_invariant =
  fixes P :: "'w CAS \<Rightarrow> bool" and E :: "Hash \<Rightarrow> seenEntry \<Rightarrow> bool"
  assumes P_markSeen: "P c \<Longrightarrow> E h e \<Longrightarrow> P (markSeen h e c)"
    and E_unstamped: "se_writtenAt e = zero_time \<Longrightarrow> E h e"
    and E_seen: "P c \<Longrightarrow> map_of (c_seen c) h = Some e \<Longrightarrow> E h (e\<lparr>se_retainedUntil := u\<rparr>)"
    and P_unmarkSeen: "P c \<Longrightarrow> P (unmarkSeen h c)"
    and P_counters: "P c \<Longrightarrow> P (c\<lparr>c_dedupMiss := n\<rparr>)" "P c \<Longrightarrow> P (c\<lparr>c_dedupInMem := n\<rparr>)" "P c \<Longrightarrow> P (c\<lparr>c_dedupStorage := n\<rparr>)"
    and P_guard: "P c \<Longrightarrow> P (c\<lparr>c_adopt := a\<rparr>)"
    and P_adopted: "P c \<Longrightarrow> P (c\<lparr>c_adopted := hs\<rparr>)" "P c \<Longrightarrow> P (c\<lparr>c_adoptedGone := hs\<rparr>)"
    and P_spill: "P c \<Longrightarrow> c_adoptedSpill c \<noteq> None \<Longrightarrow> P (c\<lparr>c_adoptedSpill := Some s\<rparr>)"
begin

lemma markAdopted_inv: "P c \<Longrightarrow> markAdopted h c = (e, c') \<Longrightarrow> P c'"
proof (cases "c_adoptedSpill c")
  case (Some s)
  assume "P c" "markAdopted h c = (e, c')"
  moreover from \<open>P c\<close> have "P (c\<lparr>c_adoptedGone := removeAll h (c_adoptedGone c), c_adoptedSpill := Some (snd (Add h s))\<rparr>)"
    using P_spill [OF P_adopted(2), of c "removeAll h (c_adoptedGone c)"] Some by simp
  ultimately show ?thesis using Some by (auto simp: markAdopted_def Let_def split: option.splits)
qed (auto simp: markAdopted_def P_adopted)

lemma forgetAdoption_inv: "P c \<Longrightarrow> P (forgetAdoption h c)"
  by (simp add: forgetAdoption_def P_adopted)

lemma ForgetChunk_inv: "P c \<Longrightarrow> P (ForgetChunk hs c)"
  unfolding ForgetChunk_def by (induction hs arbitrary: c) (simp_all add: forgetAdoption_inv P_unmarkSeen)

lemma VerifyAdopted_inv: "P c \<Longrightarrow> VerifyAdopted rt ctx hs c w = (r, c', w') \<Longrightarrow> P c'"
  by (auto simp: VerifyAdopted_def ForgetChunk_inv split: if_splits prod.splits option.splits)

lemma GetChunkBytes_inv: "P c \<Longrightarrow> GetChunkBytes sha ctx h c w = (r, c', w') \<Longrightarrow> P c'"
  by (auto simp: GetChunkBytes_def P_markSeen E_unstamped split: prod.splits sum.splits)

lemma DeleteChunk_inv: "P c \<Longrightarrow> DeleteChunk ctx h c w = (r, c', w') \<Longrightarrow> P c'"
  by (auto simp: DeleteChunk_def P_unmarkSeen split: prod.splits option.splits)

lemma ensureAdoptable_inv:
  assumes "P c" "ensureAdoptable sha ctx h c w = (r, c', w')"
  shows "P c'"
proof -
  obtain c1 w1 where k: "(if ag_multiKEKKnown (c_adopt c) then (c, w)
      else (case repoIsMultiKEK ctx c w of (b, w1) \<Rightarrow> (c\<lparr>c_adopt := (c_adopt c)\<lparr>ag_multiKEK := b, ag_multiKEKKnown := True\<rparr>\<rparr>, w1))) = (c1, w1)"
    by fastforce
  have 1: "P c1" using k assms(1) by (auto simp: P_guard split: if_splits prod.splits)
  obtain g c2 w2 where g: "GetChunkBytes sha ctx h c1 w1 = (g, c2, w2)" by (metis prod.exhaust)
  have 2: "P c2" by (rule GetChunkBytes_inv [OF 1 g])
  show ?thesis using assms(2) unfolding ensureAdoptable_def k prod.case g
    by (cases g) (use assms(1) 1 2 in \<open>auto simp: Let_def P_guard split: if_splits\<close>)
qed

lemma put_seen_inv:
  assumes "P c" "put_seen rt ctx info e c w = (r, c', w')" "\<And>u. E (ci_Hash info) (e\<lparr>se_retainedUntil := u\<rparr>)"
  shows "P c'"
proof -
  obtain a w1 where a: "(if se_writtenAt e = zero_time then (True, w)
      else (case rt_Now rt w of (t, w1) \<Rightarrow> (t - se_writtenAt e \<ge> seenWriteTrust, w1))) = (a, w1)" by fastforce
  obtain er c1 where m: "(if a then markAdopted (ci_Hash info) c else (None, c)) = (er, c1)" by fastforce
  have 1: "P c1" using m assms(1) markAdopted_inv by (auto split: if_splits)
  then show ?thesis using assms(2) unfolding put_seen_def Let_def a prod.case m
    by (auto simp: P_counters P_markSeen assms(3) split: if_splits option.splits prod.splits sum.splits)
qed

lemma adopt_existing_inv:
  assumes "P c" "adopt_existing sha ctx info c w = (r, c', w')"
  shows "P c'"
proof -
  obtain er c1 w1 where a: "ensureAdoptable sha ctx (ci_Hash info) c w = (er, c1, w1)" by (metis prod.exhaust)
  have 1: "P c1" by (rule ensureAdoptable_inv [OF assms(1) a])
  have 2: "P c2" if "markAdopted h (markSeen h \<lparr>se_writtenAt = zero_time, se_retainedUntil = u\<rparr> c1) = (x, c2)" for h u x c2
    by (rule markAdopted_inv [OF P_markSeen [OF 1] that]) (simp add: E_unstamped)
  show ?thesis using assms(2) 1 unfolding adopt_existing_def Let_def a prod.case
    by (auto simp: P_counters dest: 2 split: option.splits prod.splits sum.splits)
qed

text \<open>The entry of a fresh write has the clock reading of the world the call returns.\<close>

lemma put_new_inv:
  assumes "P c" "put_new sha rt ctx body info c w = (r, c', w')"
    "\<And>v t u. r = Inr info \<Longrightarrow> rt_Now rt v = (t, w') \<Longrightarrow> E (ci_Hash info) \<lparr>se_writtenAt = t, se_retainedUntil = u\<rparr>"
  shows "P c'"
  using assms(2) adopt_existing_inv [OF assms(1)] assms(1,3) unfolding put_new_def Let_def
  by (auto simp: P_counters P_markSeen split: if_splits prod.splits sum.splits)

lemma PutChunk_inv:
  assumes "P c" "PutChunk sha rt ctx body c w = (r, c', w')"
    "\<And>i v t u. r = Inr i \<Longrightarrow> \<not> ci_Deduped i \<Longrightarrow> rt_Now rt v = (t, w') \<Longrightarrow> E (sha body) \<lparr>se_writtenAt = t, se_retainedUntil = u\<rparr>"
  shows "P c'"
proof -
  let ?i = "\<lparr>ci_Hash = sha body, ci_Size = length body, ci_Deduped = False\<rparr>"
  have new: "P c'" if "put_new sha rt ctx body ?i c v = (r, c', w')" for v
    by (rule put_new_inv [OF assms(1) that]) (use assms(3) in auto)
  have seen: "P c'" if "map_of (c_seen c) (sha body) = Some e" "put_seen rt ctx ?i e c w = (r, c', w')" for e
    by (rule put_seen_inv [OF assms(1) that(2)]) (use E_seen [OF assms(1) that(1)] in simp)
  show ?thesis using assms(1,2) new seen unfolding PutChunk_def Let_def
    by (auto dest: adopt_existing_inv split: if_splits option.splits prod.splits sum.splits)
qed

end

subsection \<open>The seen cache, one call at a time\<close>

definition seen_bounded :: "'w CAS \<Rightarrow> bool" where
  "seen_bounded c \<longleftrightarrow> distinct (map fst (c_seen c)) \<and>
     (c_seenCap c > 0 \<longrightarrow> c_seenCount c = int (length (c_seen c)) \<and> int (length (c_seen c)) \<le> c_seenCap c)"

lemma length_update_old: "map_of al k \<noteq> None \<Longrightarrow> length (AList.update k v al) = length al"
  by (induction al) auto

lemma length_update_new: "map_of al k = None \<Longrightarrow> length (AList.update k v al) = Suc (length al)"
  by (induction al) auto

lemma length_delete: "distinct (map fst al) \<Longrightarrow> map_of al k \<noteq> None \<Longrightarrow> Suc (length (AList.delete k al)) = length al"
proof (induction al)
  case (Cons x al)
  show ?case
  proof (cases "fst x = k")
    case True
    then have "AList.delete k al = al" using Cons(2) by (simp add: AList.delete_id)
    then show ?thesis using True by (cases x) simp
  next
    case False
    then show ?thesis using Cons by (cases x) auto
  qed
qed simp

lemma seen_bounded_markSeen:
  assumes "seen_bounded c"
  shows "seen_bounded (markSeen h e c)"
proof (cases "map_of (c_seen c) h = None")
  case True
  then show ?thesis using assms length_update_new [OF True, of e]
    by (auto simp: seen_bounded_def markSeen_def evictSeen_def Let_def distinct_update)
next
  case False
  then show ?thesis using assms length_update_old [OF False, of e]
    by (auto simp: seen_bounded_def markSeen_def Let_def distinct_update)
qed

lemma seen_bounded_unmarkSeen:
  assumes "seen_bounded c"
  shows "seen_bounded (unmarkSeen h c)"
proof (cases "map_of (c_seen c) h = None")
  case False
  then have "Suc (length (AList.delete h (c_seen c))) = length (c_seen c)"
    using length_delete [OF conjunct1 [OF assms [unfolded seen_bounded_def]] False] by simp
  then show ?thesis using assms by (auto simp: seen_bounded_def unmarkSeen_def Let_def distinct_delete)
qed (use assms in \<open>simp add: unmarkSeen_def\<close>)

interpretation seen_cache: cas_invariant seen_bounded "\<lambda>_ _. True"
  by unfold_locales (rule seen_bounded_markSeen seen_bounded_unmarkSeen | simp add: seen_bounded_def)+

text \<open>What no method changes.\<close>

definition config_eq :: "'w CAS \<Rightarrow> 'w CAS \<Rightarrow> bool" where
  "config_eq c0 c \<longleftrightarrow> c_sp c = c_sp c0 \<and> c_writer c = c_writer c0 \<and> c_registry c = c_registry c0 \<and>
     c_encWriter c = c_encWriter c0 \<and> c_encRegistry c = c_encRegistry c0 \<and> c_retention c = c_retention c0 \<and>
     c_retentionUnenforceable c = c_retentionUnenforceable c0 \<and> c_chunkDurability c = c_chunkDurability c0 \<and>
     c_seenCap c = c_seenCap c0 \<and> (c_adoptedSpill c = None \<longleftrightarrow> c_adoptedSpill c0 = None)"

lemma config_eq_refl [simp]: "config_eq c c"
  by (simp add: config_eq_def)

interpretation config: cas_invariant "config_eq c0" "\<lambda>_ _. True" for c0 :: "'w CAS"
  by unfold_locales (simp_all add: config_eq_def markSeen_def unmarkSeen_def evictSeen_def Let_def)

subsection \<open>The store behind it\<close>

text \<open>
  \<open>eff\<close> is the store once the deferred writes are published. A store is sound for a \<^verbatim>\<open>CAS\<close> when each chunk in it
  decodes with the registries of that \<^verbatim>\<open>CAS\<close> to bytes of the hash it is stored under.
\<close>

definition sound_store :: "(bytes \<Rightarrow> Hash) \<Rightarrow> 'w CAS \<Rightarrow> store \<Rightarrow> bool" where
  "sound_store sha c m \<longleftrightarrow> (\<forall>h b t. m (ChunkKey h) = Some (b, t) \<longrightarrow> (\<exists>body. decode_chunk sha c h b = Inr body))"

definition seen_held :: "'w CAS \<Rightarrow> store \<Rightarrow> bool" where
  "seen_held c m \<longleftrightarrow> (\<forall>h. map_of (c_seen c) h \<noteq> None \<longrightarrow> m (ChunkKey h) \<noteq> None)"

text \<open>What the code relies on from its codecs: the registered decoders invert the writers.\<close>

definition codec_ok :: "'w CAS \<Rightarrow> bool" where
  "codec_ok c \<longleftrightarrow>
     (\<forall>p pl a. cp_Compress (c_writer c) p = Inr (pl, a) \<longrightarrow>
        (\<exists>cd. Lookup (c_registry c) a = Inr cd \<and> cp_Decompress cd pl = Inr p)) \<and>
     (\<forall>e. c_encWriter c = Some e \<longrightarrow> ec_Algorithm e \<noteq> 0 \<and>
        (\<exists>d. EncLookup (c_encRegistry c) (ec_Algorithm e) = Inr d \<and>
           (\<forall>rnd p ct n. length rnd = nonceLen \<longrightarrow> ec_Encrypt e (Inr rnd) p = Inr (ct, n) \<longrightarrow>
              length n = nonceLen \<and> ec_Decrypt d ct n = Inr p)))"

lemma decode_chunk_hash: "decode_chunk sha c h b = Inr body \<Longrightarrow> sha body = h"
  by (auto simp: decode_chunk_def split: sum.splits prod.splits if_splits)

lemma decode_chunk_config: "config_eq c c' \<Longrightarrow> decode_chunk sha c' h b = decode_chunk sha c h b"
proof -
  assume "config_eq c c'"
  then have e: "c_registry c' = c_registry c" "c_encRegistry c' = c_encRegistry c" by (simp_all add: config_eq_def)
  show ?thesis unfolding decode_chunk_def e ..
qed

lemma sound_store_config: "config_eq c c' \<Longrightarrow> sound_store sha c' m = sound_store sha c m"
  by (simp add: sound_store_def decode_chunk_config)

lemma length_fill_nonce [simp]: "length (fill_nonce rnd) = nonceLen"
  by (simp add: fill_nonce_def)

lemma decode_encode:
  assumes "codec_ok c" "encode_chunk rt body c w = (Inr env, w')"
  shows "decode_chunk sha c (sha body) env = Inr body"
proof -
  obtain pl a where p: "cp_Compress (c_writer c) body = Inr (pl, a)"
    using assms(2) by (auto simp: encode_chunk_def split: sum.splits)
  obtain cd where cd: "Lookup (c_registry c) a = Inr cd" "cp_Decompress cd pl = Inr body"
    using assms(1) p unfolding codec_ok_def by blast
  show ?thesis
  proof (cases "c_encWriter c")
    case None
    then have "env = WriteEnvelope a zero_fields pl" using assms(2) p by (simp add: encode_chunk_def)
    then show ?thesis using cd by (simp add: decode_chunk_def wf_fields_def zero_fields_def IsEncrypted_def)
  next
    case (Some e)
    obtain rnd w1 where r: "rt_Rand rt nonceLen w = (rnd, w1)" by fastforce
    obtain ct n where n: "ec_Encrypt e (Inr (fill_nonce rnd)) pl = Inr (ct, n)"
      "env = WriteEnvelope a \<lparr>ef_EncryptionAlgo = ec_Algorithm e, ef_Nonce = n\<rparr> ct"
      using assms(2) p Some r by (auto simp: encode_chunk_def split: sum.splits)
    obtain d where d: "ec_Algorithm e \<noteq> 0" "EncLookup (c_encRegistry c) (ec_Algorithm e) = Inr d"
      "length n = nonceLen" "ec_Decrypt d ct n = Inr pl"
      using assms(1) Some n(1) length_fill_nonce [of rnd] unfolding codec_ok_def by blast
    show ?thesis unfolding n(2) using d cd by (simp add: decode_chunk_def wf_fields_def IsEncrypted_def)
  qed
qed

lemma seen_held_markSeen: "seen_held c m \<Longrightarrow> m (ChunkKey h) \<noteq> None \<Longrightarrow> seen_held (markSeen h e c) m"
  by (auto simp: seen_held_def markSeen_def evictSeen_def Let_def update_conv')

lemma seen_held_unmarkSeen: "seen_held c m \<Longrightarrow> seen_held (unmarkSeen h c) m"
  by (auto simp: seen_held_def unmarkSeen_def Let_def delete_conv' split: if_splits)

lemma seen_held_eq: "c_seen c' = c_seen c \<Longrightarrow> seen_held c' m = seen_held c m"
  by (simp add: seen_held_def)

lemma markAdopted_seen: "markAdopted h c = (e, c') \<Longrightarrow> c_seen c' = c_seen c"
  by (auto simp: markAdopted_def Let_def split: option.splits)

text \<open>The world moved, the store did not.\<close>

definition keeps_store :: "('w \<Rightarrow> bool) \<Rightarrow> ('w \<Rightarrow> store) \<Rightarrow> ('w \<Rightarrow> (string \<times> obj) list) \<Rightarrow> 'w \<Rightarrow> 'w \<Rightarrow> bool" where
  "keeps_store good objs pend w w' \<longleftrightarrow> (good w \<longrightarrow> good w' \<and> objs w' = objs w \<and> pend w' = pend w)"

lemma keeps_store_refl [simp]: "keeps_store g ob pe w w"
  by (simp add: keeps_store_def)

lemma keeps_store_trans: "keeps_store g ob pe a b \<Longrightarrow> keeps_store g ob pe b c \<Longrightarrow> keeps_store g ob pe a c"
  by (auto simp: keeps_store_def)

text \<open>A session: a sequence of calls, and the hashes its puts acknowledged.\<close>

datatype cas_op = OpPut bytes | OpGet Hash | OpHas Hash | OpBarrier

fun cas_step :: "(bytes \<Rightarrow> Hash) \<Rightarrow> 'w runtime \<Rightarrow> ctx \<Rightarrow> cas_op \<Rightarrow> 'w CAS \<times> 'w \<Rightarrow> Hash list \<times> 'w CAS \<times> 'w" where
  "cas_step sha rt ctx (OpPut body) (c, w) =
     (case PutChunk sha rt ctx body c w of (r, c', w') \<Rightarrow> (case r of Inr i \<Rightarrow> [ci_Hash i] | Inl _ \<Rightarrow> [], c', w'))"
| "cas_step sha rt ctx (OpGet h) (c, w) = (case GetChunkBytes sha ctx h c w of (_, c', w') \<Rightarrow> ([], c', w'))"
| "cas_step sha rt ctx (OpHas h) (c, w) = (case HasChunk ctx h c w of (_, w') \<Rightarrow> ([], c, w'))"
| "cas_step sha rt ctx OpBarrier (c, w) = (case CAS_Barrier ctx c w of (_, w') \<Rightarrow> ([], c, w'))"

fun cas_run :: "(bytes \<Rightarrow> Hash) \<Rightarrow> 'w runtime \<Rightarrow> ctx \<Rightarrow> cas_op list \<Rightarrow> 'w CAS \<times> 'w \<Rightarrow> Hash list \<times> 'w CAS \<times> 'w" where
  "cas_run sha rt ctx [] s = ([], s)"
| "cas_run sha rt ctx (op # ops) s =
     (case cas_step sha rt ctx op s of (a1, s1) \<Rightarrow> (case cas_run sha rt ctx ops s1 of (a2, s2) \<Rightarrow> (a1 @ a2, s2)))"

lemma cas_run_config: "cas_run sha rt ctx ops (c, w) = (acks, c', w') \<Longrightarrow> config_eq c c'"
proof -
  have step: "config_eq c0 c'" if "config_eq c0 c" "cas_step sha rt ctx op (c, w) = (acks, c', w')" for c0 c w op acks c' w'
    using that by (cases op) (auto split: prod.splits dest: config.PutChunk_inv config.GetChunkBytes_inv)
  have "config_eq c0 c'" if "config_eq c0 c" "cas_run sha rt ctx ops (c, w) = (acks, c', w')" for c0 acks
    using that
  proof (induction ops arbitrary: c w acks)
    case (Cons op ops)
    then show ?case using step [OF Cons(2)] by (fastforce split: prod.splits)
  qed auto
  then show "cas_run sha rt ctx ops (c, w) = (acks, c', w') \<Longrightarrow> config_eq c c'" using config_eq_refl by blast
qed

locale cas_store = runtime_store sp good okkey objs pend rt
  for sp :: "'w StoragePlugin" and good okkey objs pend rt +
  fixes sha :: "bytes \<Rightarrow> Hash"
  assumes chunk_okkey: "okkey (ChunkKey h)"
begin

abbreviation kept :: "'w \<Rightarrow> 'w \<Rightarrow> bool" where
  "kept \<equiv> keeps_store good objs pend"

abbreviation eff :: "'w \<Rightarrow> store" where
  "eff w \<equiv> publish (pend w) (objs w)"

abbreviation has :: "Hash \<Rightarrow> 'w \<Rightarrow> bool" where
  "has h w \<equiv> eff w (ChunkKey h) \<noteq> None"

text \<open>A \<^verbatim>\<open>CAS\<close> over this backend, whose deadline function only reads the clock.\<close>

definition cas_ok :: "'w CAS \<Rightarrow> bool" where
  "cas_ok c \<longleftrightarrow> c_sp c = sp \<and> codec_ok c \<and>
     (\<forall>f w t w'. ret_RetainUntilFunc (c_retention c) = Some f \<longrightarrow> f w = (t, w') \<longrightarrow> kept w w')"

definition cas_inv :: "'w CAS \<Rightarrow> 'w \<Rightarrow> bool" where
  "cas_inv c w \<longleftrightarrow> good w \<and> cas_ok c \<and> sound_store sha c (eff w) \<and> seen_held c (eff w)"

lemma cas_ok_config: "config_eq c c' \<Longrightarrow> cas_ok c' = cas_ok c"
  by (simp add: cas_ok_def codec_ok_def config_eq_def)

lemma kept_eff: "kept w w' \<Longrightarrow> good w \<Longrightarrow> eff w' = eff w"
  by (simp add: keeps_store_def)

lemma kept_ops:
  "sp_Stat sp ctx (ChunkKey h) w = (r1, w') \<Longrightarrow> kept w w'"
  "sp_Get sp ctx (ChunkKey h) w = (r2, w') \<Longrightarrow> kept w w'"
  "sp_List sp ctx p w = (r3, w') \<Longrightarrow> kept w w'"
  "sp_SetRetention sp ctx (ChunkKey h) t m w = (r4, w') \<Longrightarrow> kept w w'"
  "rt_Now rt w = (r5, w') \<Longrightarrow> kept w w'" "rt_Rand rt n w = (r6, w') \<Longrightarrow> kept w w'"
  "rt_CtxErr rt ctx w = (r7, w') \<Longrightarrow> kept w w'"
  by (auto simp: keeps_store_def dest: reads_keep_state(3-6) get_state [OF _ chunk_okkey] stat_state [OF _ chunk_okkey]
      retain_state [OF _ chunk_okkey])

lemma retainUntil_kept: "cas_ok c \<Longrightarrow> retainUntil (c_retention c) w = (t, w') \<Longrightarrow> kept w w'"
  by (auto simp: retainUntil_def cas_ok_def split: option.splits)

lemma ensureRetention_kept:
  assumes "cas_ok c" "ensureRetention ctx h t c w = (r, w')"
  shows "kept w w'"
proof -
  obtain need w1 where n: "retainUntil (c_retention c) w = (need, w1)" by fastforce
  have sp: "c_sp c = sp" using assms(1) by (simp add: cas_ok_def)
  have k: "kept w w1" by (rule retainUntil_kept [OF assms(1) n])
  have "kept w w2" if "sp_SetRetention sp ctx (ChunkKey h) u m w1 = (e, w2)" for u m e w2
    by (rule keeps_store_trans [OF k kept_ops(4) [OF that]])
  then show ?thesis using assms(2) [unfolded ensureRetention_def n Let_def sp prod.case] k
    by (auto split: if_splits prod.splits option.splits)
qed

lemma repoIsMultiKEK_kept: "c_sp c = sp \<Longrightarrow> repoIsMultiKEK ctx c w = (b, w') \<Longrightarrow> kept w w'"
  unfolding repoIsMultiKEK_def using kept_ops(3) [of ctx sharedDEKPrefix w] by (auto split: prod.splits)

lemma readEnvelopeLimited_Inr: "readEnvelopeLimited rc n = Inr b \<Longrightarrow> rd_err rc = None \<and> rd_data rc = b"
  by (auto simp: readEnvelopeLimited_code split: option.splits if_splits)

lemma GetChunkBytes_spec:
  assumes "cas_ok c" "good w" "GetChunkBytes sha ctx h c w = (r, c', w')"
  shows "kept w w' \<and> config_eq c c' \<and>
    (case r of Inl _ \<Rightarrow> c' = c
     | Inr body \<Rightarrow> sha body = h \<and> c' = markSeen h \<lparr>se_writtenAt = zero_time, se_retainedUntil = zero_time\<rparr> c \<and>
         (\<exists>b t. objs w (ChunkKey h) = Some (b, t) \<and> decode_chunk sha c h b = Inr body))"
proof -
  have sp: "c_sp c = sp" using assms(1) by (simp add: cas_ok_def)
  obtain q w1 where g: "sp_Get sp ctx (ChunkKey h) w = (q, w1)" by fastforce
  have k: "kept w w1" by (rule kept_ops(2) [OF g])
  have cf: "config_eq c c'" by (rule config.GetChunkBytes_inv [OF config_eq_refl assms(3)])
  note gc = assms(3) [unfolded GetChunkBytes_def GetChunk_def sp g prod.case]
  show ?thesis
  proof (cases q)
    case (Inl e)
    then show ?thesis using gc k cf by auto
  next
    case (Inr rc)
    note gc = gc [unfolded Inr sum.case prod.case]
    show ?thesis
    proof (cases "readEnvelopeLimited rc MaxChunkEnvelopeBytes")
      case (Inl e)
      then show ?thesis using gc k cf by auto
    next
      case r: (Inr env)
      have o: "\<exists>t. objs w (ChunkKey h) = Some (env, t)"
        using get_ok [OF assms(2) chunk_okkey g [unfolded Inr]] readEnvelopeLimited_Inr [OF r] by auto
      obtain d where d: "decode_chunk sha c h env = d" by simp
      note gc = gc [unfolded r sum.case d]
      show ?thesis
      proof (cases d)
        case (Inl e)
        then have "r = Inl e" "c' = c" "w' = w1" using gc by auto
        then show ?thesis using k by simp
      next
        case b: (Inr body)
        note de = d [unfolded b]
        have "r = Inr body" "c' = markSeen h \<lparr>se_writtenAt = zero_time, se_retainedUntil = zero_time\<rparr> c" "w' = w1"
          using gc b by auto
        then show ?thesis using k cf o de decode_chunk_hash [OF de] by auto
      qed
    qed
  qed
qed

text \<open>A step of the store: the store is kept, the configuration stays, the cache stays honest.\<close>

definition quiet_step :: "Hash \<Rightarrow> 'w CAS \<Rightarrow> 'w \<Rightarrow> 'w CAS \<Rightarrow> 'w \<Rightarrow> bool" where
  "quiet_step h c w c' w' \<longleftrightarrow> kept w w' \<and> config_eq c c' \<and>
     (objs w (ChunkKey h) \<noteq> None \<longrightarrow> seen_held c (eff w) \<longrightarrow> seen_held c' (eff w))"

lemma config_eq_trans: "config_eq a b \<Longrightarrow> config_eq b c \<Longrightarrow> config_eq a c"
  by (simp add: config_eq_def)

lemma quiet_step_refl [simp]: "quiet_step h c w c w"
  by (simp add: quiet_step_def)

lemma quiet_step_trans:
  assumes "good w" "quiet_step h c w c1 w1" "quiet_step h c1 w1 c2 w2"
  shows "quiet_step h c w c2 w2"
  using assms unfolding quiet_step_def by (auto simp: keeps_store_def dest: config_eq_trans)

lemma quiet_step_inv:
  assumes "cas_inv c w" "quiet_step h c w c' w'" "objs w (ChunkKey h) \<noteq> None"
  shows "cas_inv c' w'"
proof -
  have "good w'" "eff w' = eff w" using assms(1,2) by (auto simp: cas_inv_def quiet_step_def keeps_store_def)
  moreover have "config_eq c c'" "seen_held c' (eff w)" using assms by (auto simp: quiet_step_def cas_inv_def)
  ultimately show ?thesis using assms(1) unfolding cas_inv_def by (simp add: cas_ok_config sound_store_config)
qed

lemma objs_has: "objs w (ChunkKey h) \<noteq> None \<Longrightarrow> has h w"
  by (auto simp: publish_map_of)

lemma GetChunkBytes_step:
  assumes "cas_ok c" "good w" "GetChunkBytes sha ctx h c w = (r, c', w')"
  shows "quiet_step h c w c' w'"
  using GetChunkBytes_spec [OF assms] seen_held_markSeen [of c "eff w" h, OF _ objs_has]
  by (cases r) (auto simp: quiet_step_def)

lemma ensureAdoptable_step:
  assumes ok: "cas_ok c" "good w" and a: "ensureAdoptable sha ctx h c w = (r, c', w')"
  shows "quiet_step h c w c' w'"
proof -
  obtain c1 w1 where k: "(if ag_multiKEKKnown (c_adopt c) then (c, w)
      else (case repoIsMultiKEK ctx c w of (b, w1) \<Rightarrow> (c\<lparr>c_adopt := (c_adopt c)\<lparr>ag_multiKEK := b, ag_multiKEKKnown := True\<rparr>\<rparr>, w1))) = (c1, w1)"
    by fastforce
  have sp: "c_sp c = sp" using ok(1) by (simp add: cas_ok_def)
  have 1: "quiet_step h c w c1 w1"
    using k repoIsMultiKEK_kept [OF sp, of ctx w] seen_held_eq
    by (auto simp: quiet_step_def config_eq_def seen_held_def split: if_splits prod.splits)
  obtain g c2 w2 where g: "GetChunkBytes sha ctx h c1 w1 = (g, c2, w2)" by (metis prod.exhaust)
  have ok1: "cas_ok c1" "good w1" using 1 ok cas_ok_config [of c c1] by (auto simp: quiet_step_def keeps_store_def)
  have 2: "quiet_step h c w c2 w2" by (rule quiet_step_trans [OF ok(2) 1 GetChunkBytes_step [OF ok1 g]])
  then have 3: "quiet_step h c w (c2\<lparr>c_adopt := x\<rparr>) w2" for x
    by (simp add: quiet_step_def config_eq_def seen_held_def)
  show ?thesis using a unfolding ensureAdoptable_def k prod.case g
    by (cases g) (use 1 2 3 in \<open>auto simp: Let_def split: if_splits\<close>)
qed

lemma adopt_existing_step:
  assumes ok: "cas_ok c" "good w" and o: "objs w (ChunkKey (ci_Hash info)) \<noteq> None"
    and a: "adopt_existing sha ctx info c w = (r, c', w')"
  shows "quiet_step (ci_Hash info) c w c' w'" "\<And>i. r = Inr i \<Longrightarrow> i = info\<lparr>ci_Deduped := True\<rparr>"
proof -
  let ?h = "ci_Hash info"
  obtain e c1 w1 where e: "ensureAdoptable sha ctx ?h c w = (e, c1, w1)" by (metis prod.exhaust)
  have 1: "quiet_step ?h c w c1 w1" by (rule ensureAdoptable_step [OF ok e])
  have ok1: "cas_ok c1" using 1 ok cas_ok_config [of c c1] by (auto simp: quiet_step_def)
  obtain u w2 where u: "ensureRetention ctx ?h zero_time c1 w1 = (u, w2)" by fastforce
  have k: "kept w w2" using 1 ensureRetention_kept [OF ok1 u] by (auto simp: quiet_step_def intro: keeps_store_trans)
  have 2: "quiet_step ?h c w c1 w2" using 1 k by (simp add: quiet_step_def)
  note ae = a [unfolded adopt_existing_def Let_def e prod.case u]
  have "quiet_step ?h c w c' w' \<and> (\<forall>i. r = Inr i \<longrightarrow> i = info\<lparr>ci_Deduped := True\<rparr>)"
  proof (cases e)
    case (Some er)
    then show ?thesis using ae 1 by auto
  next
    case None
    note ae = ae [unfolded None option.case]
    show ?thesis
    proof (cases u)
      case (Inl er)
      then show ?thesis using ae 2 by auto
    next
      case (Inr until)
      let ?c = "markSeen ?h \<lparr>se_writtenAt = zero_time, se_retainedUntil = until\<rparr> c1"
      obtain y c2 where m: "markAdopted ?h ?c = (y, c2)" by fastforce
      note ae = ae [unfolded Inr sum.case m prod.case]
      have "config_eq c c1" using 1 by (simp add: quiet_step_def)
      then have cf: "config_eq c c2" using config.markAdopted_inv [OF config.P_markSeen m] by blast
      have "seen_held c (eff w) \<longrightarrow> seen_held c2 (eff w)"
        using 1 o seen_held_markSeen [of c1 "eff w" ?h] objs_has [OF o] seen_held_eq [OF markAdopted_seen [OF m]]
        by (simp add: quiet_step_def)
      then have 3: "quiet_step ?h c w c2 w2" using k cf by (simp add: quiet_step_def)
      then have "quiet_step ?h c w (c2\<lparr>c_dedupStorage := n\<rparr>) w2" for n
        by (simp add: quiet_step_def config_eq_def seen_held_def)
      then show ?thesis using ae 3 by (cases y) auto
    qed
  qed
  then show "quiet_step ?h c w c' w'" "\<And>i. r = Inr i \<Longrightarrow> i = info\<lparr>ci_Deduped := True\<rparr>" by auto
qed

lemma put_eff:
  assumes g: "good w" "po_IfNotExists o'" and p: "sp_Put sp ctx (ChunkKey h) (bytes_NewReader b) o' w = (r, w')"
  shows "good w'" "\<exists>t. eff w' = eff w \<or> eff w' = (eff w)(ChunkKey h \<mapsto> (b, t))" "\<not> isl r \<Longrightarrow> has h w'"
proof -
  show "good w'" by (rule put_good [OF g(1) chunk_okkey p])
  have ext: "publish (pend w @ [(k, x)]) m = publish (pend w) m \<or> publish (pend w @ [(k, x)]) m = (publish (pend w) m)(k \<mapsto> x)"
    "publish q (m(k \<mapsto> x)) = (publish q m)(k \<mapsto> x)" "publish (pend w @ [(k, x)]) m k \<noteq> None" for k x m q
    by (auto simp: publish_map_of fun_eq_iff map_add_def split: option.splits)
  have "(\<exists>t. eff w' = eff w \<or> eff w' = (eff w)(ChunkKey h \<mapsto> (b, t))) \<and> (\<not> isl r \<longrightarrow> has h w')"
  proof (cases r)
    case (Inl e)
    then show ?thesis using put_error [OF g(1) chunk_okkey p [unfolded Inl]] by (auto simp: ext)
  next
    case (Inr x)
    show ?thesis
    proof (cases "po_Durability o'")
      case DurabilityInline
      then show ?thesis using put_inline [OF g(1) chunk_okkey DurabilityInline p [unfolded Inr]] by (auto simp: ext)
    next
      case DurabilityDeferred
      then show ?thesis using put_deferred [OF g(1) chunk_okkey g(2) DurabilityDeferred p [unfolded Inr]] ext
        by (elim conjE exE disjE) (metis, metis ext(2) fun_upd_same option.distinct(1))
    qed
  qed
  then show "\<exists>t. eff w' = eff w \<or> eff w' = (eff w)(ChunkKey h \<mapsto> (b, t))" "\<not> isl r \<Longrightarrow> has h w'" by auto
qed

lemma kept_inv: "cas_inv c w \<Longrightarrow> kept w w' \<Longrightarrow> cas_inv c w' \<and> eff w' = eff w"
  by (auto simp: cas_inv_def keeps_store_def)

lemma cas_inv_upd:
  assumes "cas_inv c w" "config_eq c c'" "kept w w'" "seen_held c' (eff w)"
  shows "cas_inv c' w'"
  using kept_inv [OF assms(1,3)] assms(4) cas_ok_config [OF assms(2)] sound_store_config [OF assms(2), of sha]
  unfolding cas_inv_def by metis

lemma put_seen_spec:
  assumes inv: "cas_inv c w" and e: "map_of (c_seen c) (ci_Hash info) = Some e"
    and p: "put_seen rt ctx info e c w = (r, c', w')"
  shows "cas_inv c' w'" "eff w' = eff w" "\<And>i. r = Inr i \<Longrightarrow> i = info\<lparr>ci_Deduped := True\<rparr>"
proof -
  let ?h = "ci_Hash info"
  have ok: "cas_ok c" "seen_held c (eff w)" using inv by (auto simp: cas_inv_def)
  obtain a w1 where a: "(if se_writtenAt e = zero_time then (True, w)
      else (case rt_Now rt w of (t, w1) \<Rightarrow> (t - se_writtenAt e \<ge> seenWriteTrust, w1))) = (a, w1)" by fastforce
  have k1: "kept w w1" using a kept_ops(5) by (auto split: if_splits prod.splits)
  obtain er c1 where m: "(if a then markAdopted ?h c else (None, c)) = (er, c1)" by fastforce
  have c1: "config_eq c c1" "c_seen c1 = c_seen c"
    using m config.markAdopted_inv [OF config_eq_refl] markAdopted_seen by (auto split: if_splits)
  then have ok1: "cas_ok c1" "seen_held c1 (eff w)" using ok cas_ok_config seen_held_eq by blast+
  obtain u w2 where u: "ensureRetention ctx ?h (se_retainedUntil e) c1 w1 = (u, w2)" by fastforce
  have k2: "kept w w2" using k1 ensureRetention_kept [OF ok1(1) u] by (rule keeps_store_trans)
  have held: "eff w (ChunkKey ?h) \<noteq> None" using ok(2) e by (simp add: seen_held_def)
  have c2: "config_eq c (markSeen ?h x c1)" "seen_held (markSeen ?h x c1) (eff w)" for x
    using config.P_markSeen [OF c1(1)] seen_held_markSeen [OF ok1(2) held] by blast+
  have n: "config_eq c (c2\<lparr>c_dedupInMem := j\<rparr>)" "seen_held (c2\<lparr>c_dedupInMem := j\<rparr>) (eff w)"
    if "config_eq c c2" "seen_held c2 (eff w)" for c2 j using that by (simp_all add: config_eq_def seen_held_def)
  note ps = p [unfolded put_seen_def Let_def a prod.case m u]
  have "config_eq c c' \<and> seen_held c' (eff w) \<and> kept w w' \<and> (\<forall>i. r = Inr i \<longrightarrow> i = info\<lparr>ci_Deduped := True\<rparr>)"
  proof (cases er)
    case (Some x)
    then show ?thesis using ps c1 ok1 k1 by auto
  next
    case None
    then show ?thesis using ps c1 ok1 k2 c2 n by (cases u; cases "projr u = se_retainedUntil e") auto
  qed
  then show "cas_inv c' w'" "eff w' = eff w" "\<And>i. r = Inr i \<Longrightarrow> i = info\<lparr>ci_Deduped := True\<rparr>"
    using cas_inv_upd [OF inv] kept_inv [OF inv] by blast+
qed

lemma put_options_spec:
  assumes "cas_ok c" "put_options sha env c w = (opts, w')"
  shows "kept w w'" "po_IfNotExists opts"
  using assms retainUntil_kept [OF assms(1)]
  by (auto simp: put_options_def Let_def zero_PutOptions_def split: if_splits prod.splits)

lemma encode_chunk_kept: "encode_chunk rt body c w = (r, w') \<Longrightarrow> kept w w'"
  using kept_ops(6) by (auto simp: encode_chunk_def split: sum.splits option.splits prod.splits)

text \<open>The outcome of a put: the invariant, the other keys, and the chunk.\<close>

definition put_outcome :: "Hash \<Rightarrow> nat \<Rightarrow> 'w \<Rightarrow> error + ChunkInfo \<Rightarrow> 'w CAS \<Rightarrow> 'w \<Rightarrow> bool" where
  "put_outcome h n w r c' w' \<longleftrightarrow> cas_inv c' w' \<and> (\<forall>k. k \<noteq> ChunkKey h \<longrightarrow> eff w' k = eff w k) \<and> (has h w \<longrightarrow> has h w') \<and>
     (\<forall>i. r = Inr i \<longrightarrow> ci_Hash i = h \<and> ci_Size i = n \<and> has h w')"

lemma seen_held_mono:
  assumes "seen_held c m" "\<And>k. m k \<noteq> None \<Longrightarrow> m' k \<noteq> None"
  shows "seen_held c m'"
  using assms by (auto simp: seen_held_def)

lemma adopt_existing_outcome:
  assumes inv: "cas_inv c w" and o: "objs w (ChunkKey (ci_Hash info)) \<noteq> None"
    and a: "adopt_existing sha ctx info c w = (r, c', w')"
  shows "put_outcome (ci_Hash info) (ci_Size info) w r c' w'"
proof -
  have ok: "cas_ok c" "good w" using inv by (auto simp: cas_inv_def)
  note st = adopt_existing_step [OF ok o a]
  have k: "kept w w'" using st(1) by (simp add: quiet_step_def)
  note e = conjunct2 [OF kept_inv [OF inv k]]
  have "ci_Hash i = ci_Hash info \<and> ci_Size i = ci_Size info" if "r = Inr i" for i unfolding st(2) [OF that] by simp
  then show ?thesis using objs_has [OF o] unfolding put_outcome_def e
    by (intro conjI allI impI quiet_step_inv [OF inv st(1) o] refl) blast+
qed

lemma put_new_outcome:
  assumes inv: "cas_inv c w" and i: "ci_Hash info = sha body" and p: "put_new sha rt ctx body info c w = (r, c', w')"
  shows "put_outcome (ci_Hash info) (ci_Size info) w r c' w'"
proof -
  let ?h = "ci_Hash info"
  obtain q w1 where e: "encode_chunk rt body c w = (q, w1)" by fastforce
  note i1 = kept_inv [OF inv encode_chunk_kept [OF e]]
  note pn = p [unfolded put_new_def Let_def e prod.case]
  show ?thesis
  proof (cases q)
    case (Inl x)
    then show ?thesis using pn i1 by (auto simp: put_outcome_def)
  next
    case (Inr env)
    have ok: "cas_ok c" "codec_ok c" using inv by (auto simp: cas_inv_def cas_ok_def)
    have sp: "c_sp c = sp" using ok(1) by (simp add: cas_ok_def)
    obtain opts w2 where o: "put_options sha env c w1 = (opts, w2)" by fastforce
    note os = put_options_spec [OF ok(1) o]
    have i2: "cas_inv c w2 \<and> eff w2 = eff w" using kept_inv [OF conjunct1 [OF i1] os(1)] i1 by auto
    then have g2: "good w2" by (simp add: cas_inv_def)
    obtain x w3 where pt: "sp_Put sp ctx (ChunkKey ?h) (bytes_NewReader env) opts w2 = (x, w3)" by fastforce
    note pe = put_eff [OF g2 os(2) pt]
    obtain t where t: "eff w3 = eff w2 \<or> eff w3 = (eff w2)(ChunkKey ?h \<mapsto> (env, t))" using pe(2) by blast
    have de: "decode_chunk sha c ?h env = Inr body" unfolding i by (rule decode_encode [OF ok(2) e [unfolded Inr]])
    have mono: "eff w2 k \<noteq> None \<Longrightarrow> eff w3 k \<noteq> None" "k \<noteq> ChunkKey ?h \<Longrightarrow> eff w3 k = eff w2 k" for k using t by auto
    have "sound_store sha c (eff w3)" using t i2 de by (auto simp: sound_store_def cas_inv_def split: if_splits)
    moreover have "seen_held c (eff w3)" using i2 seen_held_mono mono(1) unfolding cas_inv_def by blast
    ultimately have i3: "cas_inv c w3" using pe(1) ok(1) by (simp add: cas_inv_def)
    have fr: "put_outcome ?h n w r c' w'" if "put_outcome ?h n w3 r c' w'" for n
      using that mono unfolding put_outcome_def conjunct2 [OF i2] by metis
    note pn = pn [unfolded Inr sum.case o prod.case sp pt]
    show ?thesis
    proof (cases x)
      case (Inl er)
      show ?thesis
      proof (cases "is_err er ErrAlreadyExists")
        case True
        then have "objs w3 (ChunkKey ?h) \<noteq> None"
          using put_exists [OF g2 chunk_okkey os(2) pt [unfolded Inl] True] by simp
        then show ?thesis using fr adopt_existing_outcome [OF i3] pn True Inl by simp
      next
        case False
        then have "r = Inl (Errorf ''cas: put chunk'' [er])" "c' = c" "w' = w3" using pn Inl by auto
        then show ?thesis using i3 by (intro fr) (simp add: put_outcome_def)
      qed
    next
      case x: (Inr y)
      obtain now w4 where tn: "rt_Now rt w3 = (now, w4)" by fastforce
      let ?c = "markSeen ?h \<lparr>se_writtenAt = now, se_retainedUntil = po_RetainUntil opts\<rparr> c"
      have r: "r = Inr info" "c' = ?c\<lparr>c_dedupMiss := Suc (c_dedupMiss ?c)\<rparr>" "w' = w4" using pn x tn by (auto simp: Let_def)
      have has: "has ?h w3" using pe(3) x by simp
      have k4: "kept w3 w4" by (rule kept_ops(5) [OF tn])
      have "seen_held ?c (eff w3)" using i3 has by (intro seen_held_markSeen) (auto simp: cas_inv_def)
      then have "seen_held c' (eff w3)" using seen_held_eq [of c' ?c] r(2) by simp
      moreover have "config_eq c c'" unfolding r(2) by (intro config.P_counters config.P_markSeen config_eq_refl TrueI)
      ultimately have "cas_inv c' w4" using k4 by (intro cas_inv_upd [OF i3])
      then show ?thesis using has kept_inv [OF i3 k4] r by (intro fr) (simp add: put_outcome_def)
    qed
  qed
qed

lemma PutChunk_outcome:
  assumes inv: "cas_inv c w" and p: "PutChunk sha rt ctx body c w = (r, c', w')"
  shows "put_outcome (sha body) (length body) w r c' w'"
proof -
  let ?i = "\<lparr>ci_Hash = sha body, ci_Size = length body, ci_Deduped = False\<rparr>"
  have sp: "c_sp c = sp" using inv by (simp add: cas_inv_def cas_ok_def)
  show ?thesis
  proof (cases "c_retentionUnenforceable c")
    case True
    then show ?thesis using p inv by (auto simp: PutChunk_def put_outcome_def)
  next
    case False
    note pc = p [unfolded PutChunk_def if_not_P [OF False] Let_def sp]
    show ?thesis
    proof (cases "map_of (c_seen c) (sha body)")
      case (Some e)
      then have ps: "put_seen rt ctx ?i e c w = (r, c', w')" using pc by simp
      have "map_of (c_seen c) (ci_Hash ?i) = Some e" using Some by simp
      note s = put_seen_spec [OF inv this ps]
      have "has (sha body) w" using inv Some by (simp add: cas_inv_def seen_held_def)
      moreover have "ci_Hash i = sha body \<and> ci_Size i = length body" if "r = Inr i" for i
        unfolding s(3) [OF that] by simp
      ultimately show ?thesis unfolding put_outcome_def s(2) by (intro conjI allI impI s(1) refl) blast+
    next
      case None
      note pc = pc [unfolded None option.case]
      obtain x w1 where st: "sp_Stat sp ctx (ChunkKey (sha body)) w = (x, w1)" by fastforce
      note i1 = kept_inv [OF inv kept_ops(1) [OF st]]
      have fr: "put_outcome h n w r c' w'" if "put_outcome h n w1 r c' w'" for h n
        using that unfolding put_outcome_def conjunct2 [OF i1] .
      have g: "good w" using inv by (simp add: cas_inv_def)
      show ?thesis
      proof (cases "hinted (sha body) c \<and> \<not> isl x")
        case True
        then obtain y where y: "x = Inr y" by (cases x) auto
        have "objs w (ChunkKey (sha body)) \<noteq> None" using stat_ok [OF g chunk_okkey st [unfolded y]] by auto
        then have o: "objs w1 (ChunkKey (ci_Hash ?i)) \<noteq> None" using kept_ops(1) [OF st] g by (simp add: keeps_store_def)
        have "adopt_existing sha ctx ?i c w1 = (r, c', w')" using pc True st y by simp
        from fr adopt_existing_outcome [OF conjunct1 [OF i1] o this] show ?thesis by simp
      next
        case no: False
        show ?thesis
        proof (cases "hinted (sha body) c")
          case True
          then obtain er where "x = Inl er" using no by (cases x) auto
          then have "put_new sha rt ctx body ?i c w1 = (r, c', w')" using pc True st by simp
          from fr put_new_outcome [OF conjunct1 [OF i1] _ this] show ?thesis by simp
        next
          case False
          then have "put_new sha rt ctx body ?i c w = (r, c', w')" using pc by simp
          from put_new_outcome [OF inv _ this] show ?thesis by simp
        qed
      qed
    qed
  qed
qed

lemma CAS_Barrier_inv:
  assumes inv: "cas_inv c w" and b: "CAS_Barrier ctx c w = (r, w')"
  shows "cas_inv c w'" "eff w' = eff w" "r = None \<Longrightarrow> objs w' = eff w \<and> pend w' = []"
proof -
  have sp: "c_sp c = sp" and g: "good w" using inv by (auto simp: cas_inv_def cas_ok_def)
  obtain e w1 where s: "sp_Barrier sp ctx w = (e, w1)" by fastforce
  have w1: "w1 = w'" "r = None \<longleftrightarrow> e = None" using b s unfolding CAS_Barrier_def sp by (cases e; auto)+
  have g': "good w'" using barrier_good [OF g s] w1 by simp
  have e: "eff w' = eff w"
    using barrier_ok [OF g, of ctx w1] barrier_error [OF g, of ctx _ w1] s w1(1) by (cases e) auto
  show "cas_inv c w'" "eff w' = eff w" using inv g' e by (simp_all add: cas_inv_def)
  show "objs w' = eff w \<and> pend w' = []" if "r = None" using barrier_ok [OF g, of ctx w1] s w1 that by simp
qed

lemma HasChunk_kept: "cas_ok c \<Longrightarrow> HasChunk ctx h c w = (r, w') \<Longrightarrow> kept w w'"
proof -
  assume "cas_ok c" and h: "HasChunk ctx h c w = (r, w')"
  then have sp: "c_sp c = sp" by (simp add: cas_ok_def)
  show ?thesis using h kept_ops(1) [of ctx h w] unfolding HasChunk_def sp by (auto split: if_splits prod.splits sum.splits)
qed

text \<open>Every method but deletion, in any order.\<close>

lemma cas_step_outcome:
  assumes inv: "cas_inv c w" and s: "cas_step sha rt ctx op (c, w) = (acks, c', w')"
  shows "cas_inv c' w'" "\<And>h. has h w \<Longrightarrow> has h w'" "\<And>h. h \<in> set acks \<Longrightarrow> has h w'"
proof -
  have ok: "cas_ok c" "good w" using inv by (auto simp: cas_inv_def)
  have mono: "cas_inv c' w' \<and> (\<forall>h. has h w \<longrightarrow> has h w') \<and> (\<forall>h \<in> set acks. has h w')"
  proof (cases op)
    case (OpPut body)
    obtain r c1 w1 where p: "PutChunk sha rt ctx body c w = (r, c1, w1)" by (metis prod.exhaust)
    note o = PutChunk_outcome [OF inv p, unfolded put_outcome_def]
    have e: "c' = c1" "w' = w1" "acks = (case r of Inr i \<Rightarrow> [ci_Hash i] | Inl _ \<Rightarrow> [])" using s p OpPut by auto
    have "has h w1" if "has h w" for h using o that by (cases "h = sha body") auto
    then show ?thesis using o e by (cases r) auto
  next
    case (OpGet h)
    obtain r c1 w1 where g: "GetChunkBytes sha ctx h c w = (r, c1, w1)" by (metis prod.exhaust)
    note sp = GetChunkBytes_spec [OF ok g] and st = GetChunkBytes_step [OF ok g]
    have e: "c' = c1" "w' = w1" "acks = []" using s g OpGet by auto
    have k: "kept w w1" using sp by simp
    have "cas_inv c1 w1"
    proof (cases r)
      case (Inl x)
      then show ?thesis using sp kept_inv [OF inv k] by simp
    next
      case (Inr b)
      then show ?thesis using quiet_step_inv [OF inv st] sp by auto
    qed
    then show ?thesis using e conjunct2 [OF kept_inv [OF inv k]] by simp
  next
    case (OpHas h)
    obtain r w1 where g: "HasChunk ctx h c w = (r, w1)" by fastforce
    have "c' = c" "w' = w1" "acks = []" using s g OpHas by auto
    then show ?thesis using kept_inv [OF inv HasChunk_kept [OF ok(1) g]] by simp
  next
    case OpBarrier
    obtain r w1 where g: "CAS_Barrier ctx c w = (r, w1)" by fastforce
    have "c' = c" "w' = w1" "acks = []" using s g OpBarrier by auto
    then show ?thesis using CAS_Barrier_inv(1,2) [OF inv g] by simp
  qed
  then show "cas_inv c' w'" "\<And>h. has h w \<Longrightarrow> has h w'" "\<And>h. h \<in> set acks \<Longrightarrow> has h w'" by blast+
qed

lemma cas_run_outcome:
  assumes "cas_inv c w" "cas_run sha rt ctx ops (c, w) = (acks, c', w')"
  shows "cas_inv c' w'" "\<And>h. has h w \<Longrightarrow> has h w'" "\<And>h. h \<in> set acks \<Longrightarrow> has h w'"
proof -
  have "cas_inv c' w' \<and> (\<forall>h. has h w \<longrightarrow> has h w') \<and> (\<forall>h \<in> set acks. has h w')"
    using assms
  proof (induction ops arbitrary: c w acks)
    case (Cons op ops)
    obtain a1 c1 w1 where s: "cas_step sha rt ctx op (c, w) = (a1, c1, w1)" by (metis prod.exhaust)
    obtain a2 c2 w2 where r: "cas_run sha rt ctx ops (c1, w1) = (a2, c2, w2)" by (metis prod.exhaust)
    have e: "acks = a1 @ a2" "c' = c2" "w' = w2" using Cons(3) s r by auto
    note o = cas_step_outcome [OF Cons(2) s]
    show ?case using Cons(1) [OF o(1) r [folded e(2,3)]] o e(1) by auto
  qed auto
  then show "cas_inv c' w'" "\<And>h. has h w \<Longrightarrow> has h w'" "\<And>h. h \<in> set acks \<Longrightarrow> has h w'" by blast+
qed

lemma verify_loop_spec:
  assumes "verify_loop rt sp ctx hs missing n w = ((missing', n', e), w')" "good w"
  shows "kept w w'" "\<exists>ms. missing' = missing @ ms \<and> set ms \<subseteq> set hs \<and> (\<forall>h \<in> set ms. objs w (ChunkKey h) = None) \<and>
    n \<le> n' \<and> (e = None \<longrightarrow> n' = n \<longrightarrow> (\<forall>h \<in> set hs. h \<notin> set ms \<longrightarrow> objs w (ChunkKey h) \<noteq> None))"
  using assms
proof (induction hs arbitrary: missing n w)
  case Nil
  {
    case 1
    then show ?case using kept_ops(7) by (auto split: prod.splits)
  next
    case 2
    then show ?case by (auto split: prod.splits)
  }
next
  case (Cons h hs)
  {
    case c: 1
    obtain er w1 where x: "rt_CtxErr rt ctx w = (er, w1)" by fastforce
    have k1: "kept w w1" by (rule kept_ops(7) [OF x])
    then have g1: "good w1" using c(2) by (simp add: keeps_store_def)
    obtain q w2 where s: "sp_Stat sp ctx (ChunkKey h) w1 = (q, w2)" by fastforce
    have k2: "kept w1 w2" by (rule kept_ops(1) [OF s])
    then have g2: "good w2" using g1 by (simp add: keeps_store_def)
    have "kept w2 w' \<or> w' = w1"
      using c(1) Cons(1) [OF _ g2] unfolding verify_loop.simps x prod.case s
      by (cases er; cases q) (auto split: if_splits)
    then show ?case using k1 keeps_store_trans [OF k1 keeps_store_trans [OF k2]] by auto
  next
    case c: 2
    obtain er w1 where x: "rt_CtxErr rt ctx w = (er, w1)" by fastforce
    have k1: "kept w w1" by (rule kept_ops(7) [OF x])
    then have g1: "good w1" using c(2) by (simp add: keeps_store_def)
    obtain q w2 where s: "sp_Stat sp ctx (ChunkKey h) w1 = (q, w2)" by fastforce
    have k2: "kept w1 w2" by (rule kept_ops(1) [OF s])
    then have g2: "good w2" and o2: "objs w1 = objs w" "objs w2 = objs w" using g1 k1 c(2) by (simp_all add: keeps_store_def)
    note v = c(1) [unfolded verify_loop.simps x prod.case s]
    show ?case
    proof (cases er)
      case (Some y)
      then show ?thesis using v by auto
    next
      case None
      note v = v [unfolded None option.case]
      show ?thesis
      proof (cases q)
        case (Inr i)
        have "objs w (ChunkKey h) \<noteq> None" using stat_ok [OF g1 chunk_okkey s [unfolded Inr]] o2 by auto
        then show ?thesis using Cons(2) [OF v [unfolded Inr sum.case] g2] o2 by auto
      next
        case (Inl y)
        note v = v [unfolded Inl sum.case]
        show ?thesis
        proof (cases "is_err y ErrNotFound")
          case True
          have "objs w (ChunkKey h) = None" using stat_missing [OF g1 chunk_okkey s [unfolded Inl] True] o2 by simp
          then show ?thesis using Cons(2) [OF v [unfolded if_P [OF True]] g2] o2 by (auto simp: append_assoc)
        next
          case False
          show ?thesis using Cons(2) [OF v [unfolded if_not_P [OF False]] g2] o2
            by (elim exE conjE) (intro exI conjI, assumption, auto)
        qed
      qed
    qed
  }
qed

end

end
