(* ===== verification/SeenCache.thy ===== *)
theory SeenCache
  imports Cas
begin

text \<open>
  The cache of seen hashes under concurrent use (\<^verbatim>\<open>markSeen\<close> and \<^verbatim>\<open>evictSeen\<close> of \<^verbatim>\<open>internal/repo/cas.go\<close>). The workers of a
  backup share one \<^verbatim>\<open>CAS\<close>; the cache is a \<^verbatim>\<open>sync.Map\<close> and its counter an atomic, so a call is a sequence of atomic steps and
  the steps of different calls interleave: the insertion, the increment of the counter, the lock, the second look at the
  counter, the deletions of \<^verbatim>\<open>Range\<close> and the reset. \<open>seen_step\<close> is that step relation for any number of threads; the
  values of the entries play no part in it. The documentation calls the limit a soft ceiling whose counter may drift by the
  number of concurrent insertions; the theory says by how much. The sequential \<open>markSeen\<close> of \<open>Cas\<close> is the run of one call
  with no other step in between.
\<close>

subsection \<open>Threads and steps\<close>

text \<open>
  Where a thread is in its call: outside, between the insertion of its key and the increment, waiting for the lock, holding
  it, past the second look, or in \<^verbatim>\<open>Range\<close> with the keys it still has to delete.
\<close>

datatype seen_pc = SIdle | SAdd Hash | SWait Hash | SLocked | SChecked | SRange "Hash set"

record seen_state =
  ss_seen :: "Hash set"
  ss_count :: int
  ss_pcs :: "seen_pc list"

fun holds_lock :: "seen_pc \<Rightarrow> bool" where
  "holds_lock SLocked = True"
| "holds_lock SChecked = True"
| "holds_lock (SRange K) = True"
| "holds_lock _ = False"

text \<open>\<open>move i A n p\<close>: thread \<open>i\<close> leaves the cache as \<open>A\<close> and the counter as \<open>n\<close> and goes to \<open>p\<close>.\<close>

definition move :: "nat \<Rightarrow> Hash set \<Rightarrow> int \<Rightarrow> seen_pc \<Rightarrow> seen_state \<Rightarrow> seen_state" where
  "move i A n p s = \<lparr>ss_seen = A, ss_count = n, ss_pcs = (ss_pcs s)[i := p]\<rparr>"

text \<open>
  \<^verbatim>\<open>Range\<close> visits at least the keys that were there when it began and may also visit keys stored since; each visit deletes
  the key.
\<close>

inductive seen_step :: "int \<Rightarrow> seen_state \<Rightarrow> seen_state \<Rightarrow> bool" for cap where
  loaded: "i < length (ss_pcs s) \<Longrightarrow> ss_pcs s ! i = SIdle \<Longrightarrow> h \<in> ss_seen s \<Longrightarrow> seen_step cap s s"
| swap: "i < length (ss_pcs s) \<Longrightarrow> ss_pcs s ! i = SIdle \<Longrightarrow> h \<notin> ss_seen s \<Longrightarrow>
    seen_step cap s (move i (insert h (ss_seen s)) (ss_count s) (if cap \<le> 0 then SIdle else SAdd h) s)"
| add: "i < length (ss_pcs s) \<Longrightarrow> ss_pcs s ! i = SAdd h \<Longrightarrow>
    seen_step cap s (move i (ss_seen s) (ss_count s + 1) (if ss_count s + 1 > cap then SWait h else SIdle) s)"
| lock: "i < length (ss_pcs s) \<Longrightarrow> ss_pcs s ! i = SWait h \<Longrightarrow> \<not> list_ex holds_lock (ss_pcs s) \<Longrightarrow>
    seen_step cap s (move i (ss_seen s) (ss_count s) SLocked s)"
| recheck: "i < length (ss_pcs s) \<Longrightarrow> ss_pcs s ! i = SLocked \<Longrightarrow>
    seen_step cap s (move i (ss_seen s) (ss_count s) (if ss_count s \<le> cap then SIdle else SChecked) s)"
| range: "i < length (ss_pcs s) \<Longrightarrow> ss_pcs s ! i = SChecked \<Longrightarrow>
    seen_step cap s (move i (ss_seen s) (ss_count s) (SRange (ss_seen s)) s)"
| visit: "i < length (ss_pcs s) \<Longrightarrow> ss_pcs s ! i = SRange K \<Longrightarrow> k \<in> K \<union> ss_seen s \<Longrightarrow>
    seen_step cap s (move i (ss_seen s - {k}) (ss_count s) (SRange (K - {k})) s)"
| store: "i < length (ss_pcs s) \<Longrightarrow> ss_pcs s ! i = SRange {} \<Longrightarrow>
    seen_step cap s (move i (ss_seen s) 0 SIdle s)"

inductive seen_run :: "int \<Rightarrow> nat \<Rightarrow> seen_state \<Rightarrow> bool" for cap n where
  start: "seen_run cap n \<lparr>ss_seen = {}, ss_count = 0, ss_pcs = replicate n SIdle\<rparr>"
| step: "seen_run cap n s \<Longrightarrow> seen_step cap s s' \<Longrightarrow> seen_run cap n s'"

subsection \<open>Counting threads\<close>

fun adding :: "seen_pc \<Rightarrow> bool" where
  "adding (SAdd h) = True"
| "adding _ = False"

fun waiting :: "seen_pc \<Rightarrow> bool" where
  "waiting (SWait h) = True"
| "waiting _ = False"

abbreviation over :: "seen_pc \<Rightarrow> bool" where
  "over p \<equiv> waiting p \<or> holds_lock p"

definition threads :: "(seen_pc \<Rightarrow> bool) \<Rightarrow> seen_state \<Rightarrow> nat" where
  "threads P s = length (filter P (ss_pcs s))"

text \<open>The keys whose insertion is not known to be followed by a reset.\<close>

fun own_key :: "seen_pc \<Rightarrow> Hash list" where
  "own_key (SAdd h) = [h]"
| "own_key (SWait h) = [h]"
| "own_key _ = []"

definition own_keys :: "seen_state \<Rightarrow> Hash set" where
  "own_keys s = set (concat (map own_key (ss_pcs s)))"

lemma filter_update: "i < length xs \<Longrightarrow>
    length (filter P (xs[i := y])) + (if P (xs ! i) then 1 else 0) = length (filter P xs) + (if P y then 1 else 0)"
  by (subst (2) id_take_nth_drop [of i xs]) (simp_all add: upd_conv_take_nth_drop)

lemma threads_move:
  assumes "i < length (ss_pcs s)"
  shows "int (threads P (move i A n y s)) = int (threads P s) + of_bool (P y) - of_bool (P (ss_pcs s ! i))"
  using filter_update [OF assms, of P y] by (simp add: threads_def move_def split: if_splits)

lemma move_simps [simp]: "ss_seen (move i A n y s) = A" "ss_count (move i A n y s) = n"
    "length (ss_pcs (move i A n y s)) = length (ss_pcs s)"
    "j < length (ss_pcs s) \<Longrightarrow> ss_pcs (move i A n y s) ! j = (if j = i then y else ss_pcs s ! j)"
  by (cases "i < length (ss_pcs s)", simp_all add: move_def nth_list_update)

lemma filter_le_except:
  assumes "i < length xs" "\<not> P (xs ! i)"
  shows "length (filter P xs) < length xs"
  using length_filter_less [of "xs ! i" xs P] assms by simp

lemma threads_disjoint: "(\<And>p. \<not> (P p \<and> Q p)) \<Longrightarrow> threads P s + threads Q s \<le> length (ss_pcs s)"
proof -
  assume d: "\<And>p. \<not> (P p \<and> Q p)"
  have "length (filter P xs) + length (filter Q xs) \<le> length xs" for xs
    using d by (induction xs) (auto simp: le_SucI)
  then show ?thesis by (simp add: threads_def)
qed

text \<open>The keys of the threads outside the lock are at most as many as those threads.\<close>

lemma card_own_keys: "card (own_keys s) \<le> threads adding s + threads waiting s"
proof -
  have "length (concat (map own_key xs)) =
      length (filter adding xs) + length (filter waiting xs)" for xs
  proof (induction xs)
    case (Cons p xs)
    then show ?case by (cases p) auto
  qed simp
  then show ?thesis unfolding own_keys_def threads_def using card_length [of "concat (map own_key (ss_pcs s))"] by simp
qed

lemma own_keys_nth: "own_keys s = (\<Union>j \<in> {..<length (ss_pcs s)}. set (own_key (ss_pcs s ! j)))"
  unfolding own_keys_def set_concat set_map by (auto simp: set_conv_nth)

lemma own_keys_move:
  assumes "i < length (ss_pcs s)" "set (own_key (ss_pcs s ! i)) \<subseteq> set (own_key y)"
  shows "own_keys (move i A n y s) = own_keys s \<union> set (own_key y)"
proof -
  have "{..<length (ss_pcs s)} = insert i {j. j < length (ss_pcs s) \<and> j \<noteq> i}" using assms(1) by auto
  then show ?thesis using assms unfolding own_keys_nth by (auto split: if_splits)
qed

subsection \<open>The invariant\<close>

text \<open>
  One thread holds the lock; past the second look the counter is above the limit, and it stays there until the reset, so
  every thread that inserts a key meanwhile ends up waiting: during \<^verbatim>\<open>Range\<close> the cache has no keys but those still to be
  visited and those of the waiting threads. The counter exceeds the limit by at most the threads that saw it do so, and the
  cache exceeds the counter by at most the other threads and the pending increments.
\<close>

definition holder_ok :: "int \<Rightarrow> seen_state \<Rightarrow> seen_pc \<Rightarrow> bool" where
  "holder_ok cap s p \<longleftrightarrow> (case p of SChecked \<Rightarrow> ss_count s > cap
     | SRange K \<Rightarrow> ss_count s > cap \<and> ss_seen s \<subseteq> K \<union> own_keys s | _ \<Rightarrow> True)"

definition seen_inv :: "int \<Rightarrow> seen_state \<Rightarrow> bool" where
  "seen_inv cap s \<longleftrightarrow> finite (ss_seen s) \<and>
     (\<forall>i < length (ss_pcs s). \<forall>j < length (ss_pcs s). holds_lock (ss_pcs s ! i) \<longrightarrow> holds_lock (ss_pcs s ! j) \<longrightarrow> i = j) \<and>
     (\<forall>i < length (ss_pcs s). holder_ok cap s (ss_pcs s ! i)) \<and>
     0 \<le> ss_count s \<and> ss_count s \<le> cap + int (threads over s) \<and>
     int (card (ss_seen s)) < int (length (ss_pcs s)) + ss_count s + int (threads adding s)"

lemma not_holder_ok: "\<not> holds_lock p \<Longrightarrow> holder_ok cap s p"
  by (cases p) (simp_all add: holder_ok_def)

lemma seen_invI:
  assumes "finite (ss_seen s)"
    "\<And>i j. i < length (ss_pcs s) \<Longrightarrow> j < length (ss_pcs s) \<Longrightarrow> holds_lock (ss_pcs s ! i) \<Longrightarrow> holds_lock (ss_pcs s ! j) \<Longrightarrow> i = j"
    "\<And>i. i < length (ss_pcs s) \<Longrightarrow> holder_ok cap s (ss_pcs s ! i)"
    "0 \<le> ss_count s" "ss_count s \<le> cap + int (threads over s)"
    "int (card (ss_seen s)) < int (length (ss_pcs s)) + ss_count s + int (threads adding s)"
  shows "seen_inv cap s"
  using assms unfolding seen_inv_def by blast

lemma seen_invD:
  assumes "seen_inv cap s"
  shows "finite (ss_seen s)"
    "i < length (ss_pcs s) \<Longrightarrow> j < length (ss_pcs s) \<Longrightarrow> holds_lock (ss_pcs s ! i) \<Longrightarrow> holds_lock (ss_pcs s ! j) \<Longrightarrow> i = j"
    "i < length (ss_pcs s) \<Longrightarrow> holder_ok cap s (ss_pcs s ! i)"
    "0 \<le> ss_count s" "ss_count s \<le> cap + int (threads over s)"
    "int (card (ss_seen s)) < int (length (ss_pcs s)) + ss_count s + int (threads adding s)"
  using assms unfolding seen_inv_def by blast+

lemma seen_inv_move:
  assumes "seen_inv cap s" "i < length (ss_pcs s)" "finite A" "holder_ok cap (move i A n y s) y"
    "holds_lock y \<Longrightarrow> holds_lock (ss_pcs s ! i) \<or> \<not> list_ex holds_lock (ss_pcs s)"
    "\<And>j. j < length (ss_pcs s) \<Longrightarrow> j \<noteq> i \<Longrightarrow> holder_ok cap s (ss_pcs s ! j) \<Longrightarrow> holder_ok cap (move i A n y s) (ss_pcs s ! j)"
    "0 \<le> n" "n \<le> cap + int (threads over (move i A n y s))"
    "int (card A) < int (length (ss_pcs s)) + n + int (threads adding (move i A n y s))"
  shows "seen_inv cap (move i A n y s)"
proof (rule seen_invI)
  fix j l assume l: "j < length (ss_pcs (move i A n y s))" "l < length (ss_pcs (move i A n y s))"
    "holds_lock (ss_pcs (move i A n y s) ! j)" "holds_lock (ss_pcs (move i A n y s) ! l)"
  have one: "\<not> holds_lock (ss_pcs s ! m)" if "holds_lock y" "m < length (ss_pcs s)" "m \<noteq> i" for m
    using seen_invD(2) [OF assms(1), of m i] assms(2,5) that unfolding list_ex_length by blast
  show "j = l" using l one [of j] one [of l] seen_invD(2) [OF assms(1), of j l] by (auto split: if_splits)
qed (use assms seen_invD(3) [OF assms(1)] in auto)

lemma seen_step_inv:
  assumes "seen_step cap s s'" "seen_inv cap s" "0 < cap"
  shows "seen_inv cap s'"
  using assms(1)
proof cases
  note d = seen_invD [OF assms(2)]
  note inv = seen_inv_move [OF assms(2)]
  {
    case (swap i h)
    have "own_keys (move i (insert h (ss_seen s)) (ss_count s) (SAdd h) s) = insert h (own_keys s)"
      using own_keys_move [OF swap(2)] swap(3) by simp
    then have "seen_inv cap (move i (insert h (ss_seen s)) (ss_count s) (SAdd h) s)"
      by (intro inv [OF swap(2)])
        (use d(1,4,5,6) swap threads_move [OF swap(2)] in \<open>auto simp: holder_ok_def split: seen_pc.splits\<close>)
    then show ?thesis using swap(1) assms(3) by simp
  next
    case (add i h)
    have k: "ss_count s + 1 > cap \<Longrightarrow> own_keys (move i (ss_seen s) (ss_count s + 1) (SWait h) s) = insert h (own_keys s)"
      using own_keys_move [OF add(2)] add(3) by simp
    have "\<not> holds_lock (if ss_count s + 1 > cap then SWait h else SIdle)" by simp
    then show ?thesis unfolding add(1)
      by (intro inv [OF add(2)])
        (use d(1,4,5,6) k add threads_move [OF add(2)] in \<open>auto simp: holder_ok_def split: seen_pc.splits\<close>)
  next
    case (lock i h)
    have "holder_ok cap m (ss_pcs s ! j)" if "j < length (ss_pcs s)" for m j
      using lock(4) that not_holder_ok by (simp add: list_ex_length)
    then show ?thesis unfolding lock(1)
      by (intro inv [OF lock(2)])
        (use d(1,4,5,6) lock threads_move [OF lock(2)] in \<open>auto simp: holder_ok_def [where p = SLocked] holder_ok_def [where p = SIdle] holder_ok_def [where p = SChecked] holder_ok_def [where p = "SRange K" for K]\<close>)
  next
    case (recheck i)
    have o: "holder_ok cap m (ss_pcs s ! j)" if "j < length (ss_pcs s)" "j \<noteq> i" for m j
      using d(2) [of i j] recheck(2,3) that not_holder_ok by auto
    have one: "1 \<le> int (threads over s)" using threads_move [OF recheck(2), of over "{}" 0 SIdle] recheck(3) by simp
    show ?thesis
    proof (cases "ss_count s \<le> cap")
      case True
      have "seen_inv cap (move i (ss_seen s) (ss_count s) SIdle s)"
        by (rule inv [OF recheck(2)])
          (use d(1,4,6) True o one recheck(3) threads_move [OF recheck(2)] in \<open>simp_all add: holder_ok_def [where p = SIdle]\<close>)
      then show ?thesis using recheck(1) True by simp
    next
      case False
      have "seen_inv cap (move i (ss_seen s) (ss_count s) SChecked s)"
        by (rule inv [OF recheck(2)])
          (use d(1,4,5,6) False o recheck(3) threads_move [OF recheck(2)] in \<open>simp_all add: holder_ok_def [where p = SChecked]\<close>)
      then show ?thesis using recheck(1) False by simp
    qed
  next
    case (range i)
    have o: "holder_ok cap m (ss_pcs s ! j)" if "j < length (ss_pcs s)" "j \<noteq> i" for m j
      using d(2) [of i j] range(2,3) that not_holder_ok by auto
    have c: "cap < ss_count s" using d(3) [OF range(2)] range(3) by (simp add: holder_ok_def)
    show ?thesis unfolding range(1)
      by (rule inv [OF range(2)])
        (use d(1,4,5,6) c o range(3) threads_move [OF range(2)] in \<open>simp_all add: holder_ok_def [where p = "SRange K" for K]\<close>)
  next
    case (visit i K k)
    have o: "holder_ok cap m (ss_pcs s ! j)" if "j < length (ss_pcs s)" "j \<noteq> i" for m j
      using d(2) [of i j] visit(2,3) that not_holder_ok by auto
    have k: "own_keys (move i (ss_seen s - {k}) (ss_count s) (SRange (K - {k})) s) = own_keys s"
      using own_keys_move [OF visit(2)] visit(3) by simp
    have c: "cap < ss_count s" "ss_seen s - {k} \<subseteq> (K - {k}) \<union> own_keys s"
      using d(3) [OF visit(2)] visit(3) by (auto simp: holder_ok_def)
    have "card (ss_seen s - {k}) \<le> card (ss_seen s)" using d(1) by (intro card_mono) auto
    then have "int (card (ss_seen s - {k})) < int (length (ss_pcs s)) + ss_count s + int (threads adding s)" using d(6) by linarith
    then show ?thesis unfolding visit(1)
      by (intro inv [OF visit(2)])
        (use d(1,4,5) c o k visit(3) threads_move [OF visit(2)] in \<open>simp_all add: holder_ok_def [where p = "SRange K" for K]\<close>)
  next
    case (store i)
    have o: "holder_ok cap m (ss_pcs s ! j)" if "j < length (ss_pcs s)" "j \<noteq> i" for m j
      using d(2) [of i j] store(2,3) that not_holder_ok by auto
    have "ss_seen s \<subseteq> own_keys s" using d(3) [OF store(2)] store(3) by (simp add: holder_ok_def)
    then have "card (ss_seen s) \<le> threads adding s + threads waiting s"
      using card_own_keys [of s] card_mono [of "own_keys s" "ss_seen s"] by (simp add: own_keys_def)
    moreover have "threads waiting s < length (ss_pcs s)"
      unfolding threads_def by (rule filter_le_except [OF store(2)]) (simp add: store(3))
    ultimately have "int (card (ss_seen s)) < int (length (ss_pcs s)) + int (threads adding s)" by linarith
    then show ?thesis unfolding store(1)
      by (intro inv [OF store(2)])
        (use d(1) o store(3) assms(3) threads_move [OF store(2)] in \<open>simp_all add: holder_ok_def [where p = SIdle]\<close>)
  }
qed (use assms(2) in simp)

lemma seen_run_inv: "seen_run cap n s \<Longrightarrow> 0 < cap \<Longrightarrow> 0 < n \<Longrightarrow> seen_inv cap s \<and> length (ss_pcs s) = n"
proof (induction rule: seen_run.induct)
  case start
  then show ?case by (auto simp: seen_inv_def holder_ok_def threads_def)
next
  case (step s s')
  moreover have "length (ss_pcs s') = length (ss_pcs s)" using step(2) by cases simp_all
  ultimately show ?case using seen_step_inv by auto
qed

subsection \<open>The sequential calls\<close>

text \<open>\<open>markSeen\<close> and \<open>evictSeen\<close> of the sequential model are a call none of whose steps is interrupted.\<close>

definition view :: "nat \<Rightarrow> 'w CAS \<Rightarrow> seen_state" where
  "view n c = \<lparr>ss_seen = dom (map_of (c_seen c)), ss_count = c_seenCount c, ss_pcs = replicate n SIdle\<rparr>"

lemma visit_all:
  assumes "finite K" "i < length (ss_pcs s)" "ss_pcs s ! i = SRange K" "ss_seen s = K"
  shows "(seen_step cap)\<^sup>*\<^sup>* s (move i {} (ss_count s) (SRange {}) s)"
  using assms
proof (induction K arbitrary: s rule: finite_induct)
  case empty
  have "move i {} (ss_count s) (SRange {}) s = s"
    using empty list_update_id [of "ss_pcs s" i] by (cases s) (simp add: move_def)
  then show ?case by simp
next
  case (insert k K)
  let ?t = "move i (ss_seen s - {k}) (ss_count s) (SRange (insert k K - {k})) s"
  have "seen_step cap s ?t" by (rule seen_step.visit) (use insert in auto)
  moreover have "(seen_step cap)\<^sup>*\<^sup>* ?t (move i {} (ss_count ?t) (SRange {}) ?t)"
    by (rule insert(3)) (use insert in auto)
  moreover have "move i {} (ss_count ?t) (SRange {}) ?t = move i {} (ss_count s) (SRange {}) s" by (simp add: move_def)
  ultimately show ?case by (metis converse_rtranclp_into_rtranclp)
qed

lemma markSeen_is_a_run:
  assumes "i < n"
  shows "(seen_step (c_seenCap c))\<^sup>*\<^sup>* (view n c) (view n (markSeen h e c))"
proof (cases "map_of (c_seen c) h = None \<and> 0 < c_seenCap c")
  case False
  let ?s = "view n c"
  have "seen_step (c_seenCap c) ?s (view n (markSeen h e c))"
  proof (cases "map_of (c_seen c) h = None")
    case True
    with False have cap: "c_seenCap c \<le> 0" by auto
    have "seen_step (c_seenCap c) ?s (move i (insert h (ss_seen ?s)) (ss_count ?s) (if c_seenCap c \<le> 0 then SIdle else SAdd h) ?s)"
      by (rule seen_step.swap) (use assms True in \<open>simp_all add: view_def domIff\<close>)
    moreover have "move i (insert h (ss_seen ?s)) (ss_count ?s) SIdle ?s = view n (markSeen h e c)"
      using cap True assms by (simp add: move_def view_def markSeen_def Let_def update_conv' list_update_same_conv)
    ultimately show ?thesis using cap by simp
  next
    case False
    then have "view n (markSeen h e c) = ?s" by (auto simp: view_def markSeen_def Let_def update_conv' insert_absorb domIff)
    then show ?thesis using seen_step.loaded [of i ?s h] assms False by (simp add: view_def domIff)
  qed
  then show ?thesis by blast
next
  case True
  let ?s = "view n c" and ?A = "insert h (dom (map_of (c_seen c)))" and ?n = "c_seenCount c"
  let ?s1 = "move i ?A ?n (SAdd h) ?s"
  let ?s2 = "move i ?A (?n + 1) (if ?n + 1 > c_seenCap c then SWait h else SIdle) ?s1"
  have st1: "seen_step (c_seenCap c) ?s ?s1"
    using seen_step.swap [of i ?s h "c_seenCap c"] assms True by (simp add: view_def domIff)
  have st2: "seen_step (c_seenCap c) ?s1 ?s2"
    using seen_step.add [of i ?s1 h "c_seenCap c"] assms by (simp add: view_def)
  have again: "move i B m SIdle (move i A k y t) = move i B m SIdle t" for A B m k y t by (simp add: move_def)
  have idle: "move i B m SIdle ?s = \<lparr>ss_seen = B, ss_count = m, ss_pcs = replicate n SIdle\<rparr>" for B m
    using list_update_id [of "replicate n SIdle" i] assms by (simp add: move_def view_def)
  show ?thesis
  proof (cases "?n + 1 > c_seenCap c")
    case False
    have "view n (markSeen h e c) = ?s2"
      using False True by (simp add: again idle) (simp add: view_def markSeen_def Let_def update_conv')
    then show ?thesis using st1 st2 by (metis converse_rtranclp_into_rtranclp rtranclp.rtrancl_refl)
  next
    case over: True
    let ?m = "\<lambda>y. move i ?A (?n + 1) y ?s"
    have twice: "move i B m y (move i A k x t) = move i B m y t" for A B m k x y t by (simp add: move_def)
    have s2: "?s2 = ?m (SWait h)" using over by (simp add: twice)
    have nl: "\<not> list_ex holds_lock (ss_pcs (?m (SWait h)))"
      using assms by (auto simp: list_ex_length) (simp add: view_def)
    have fin: "finite ?A" by (simp add: finite_dom_map_of)
    have lr: "i < length (ss_pcs (?m y))" "ss_pcs (?m y) ! i = y" for y using assms by (simp_all add: view_def)
    have a: "seen_step (c_seenCap c) (?m (SWait h)) (?m SLocked)"
      using seen_step.lock [OF lr nl, of "c_seenCap c"] by (simp add: twice)
    have b: "seen_step (c_seenCap c) (?m SLocked) (?m SChecked)"
      using seen_step.recheck [OF lr, of "c_seenCap c"] over by (simp add: twice)
    have c: "seen_step (c_seenCap c) (?m SChecked) (?m (SRange ?A))"
      using seen_step.range [OF lr, of "c_seenCap c"] by (simp add: twice)
    have d: "(seen_step (c_seenCap c))\<^sup>*\<^sup>* (?m (SRange ?A)) (move i {} (?n + 1) (SRange {}) ?s)"
      using visit_all [OF fin lr, of "c_seenCap c"] by (simp add: twice)
    have f: "seen_step (c_seenCap c) (move i {} (?n + 1) (SRange {}) ?s) (move i {} 0 SIdle ?s)"
      using seen_step.store [of i "move i {} (?n + 1) (SRange {}) ?s" "c_seenCap c"] assms by (simp add: twice view_def)
    have g: "move i {} 0 SIdle ?s = view n (markSeen h e c)"
      using over True by (simp add: idle) (simp add: view_def markSeen_def evictSeen_def Let_def)
    have "(seen_step (c_seenCap c))\<^sup>*\<^sup>* ?s (?m (SRange ?A))"
      by (rule rtranclp.rtrancl_into_rtrancl [OF rtranclp.rtrancl_into_rtrancl [OF rtranclp.rtrancl_into_rtrancl
            [OF rtranclp.rtrancl_into_rtrancl [OF r_into_rtranclp [of "seen_step (c_seenCap c)", OF st1] st2 [unfolded s2]] a] b] c])
    from rtranclp_trans [OF this rtranclp.rtrancl_into_rtrancl [OF d f]] show ?thesis unfolding g .
  qed
qed

subsection \<open>The soft ceiling\<close>

text \<open>
  C19. The seen cache under concurrent use. Let \<open>n\<close> threads mark hashes as seen in one \<^verbatim>\<open>CAS\<close> with a positive limit, their
  atomic steps interleaved in any order, and nothing be deleted meanwhile. At every moment the cache holds at most the limit
  plus \<open>2 n - 1\<close> entries and the counter is at most the limit plus \<open>n\<close>; when no call is under way the counter is within the
  limit and the cache holds at most the limit plus \<open>n - 1\<close> entries. With one thread the limit is exact.
\<close>

theorem seen_cache_soft_ceiling:
  assumes "seen_run cap n s" "0 < cap" "0 < n"
  shows "int (card (ss_seen s)) \<le> cap + 2 * int n - 1 \<and> 0 \<le> ss_count s \<and> ss_count s \<le> cap + int n \<and>
    (list_all (\<lambda>p. p = SIdle) (ss_pcs s) \<longrightarrow> ss_count s \<le> cap \<and> int (card (ss_seen s)) \<le> cap + int n - 1)"
proof -
  have inv: "seen_inv cap s" "length (ss_pcs s) = n" using seen_run_inv [OF assms] by auto
  note d = seen_invD [OF inv(1)]
  have "threads adding s + threads over s \<le> length (ss_pcs s)"
    by (rule threads_disjoint) (auto elim: adding.elims)
  moreover have "threads over s = 0" "threads adding s = 0" if "list_all (\<lambda>p. p = SIdle) (ss_pcs s)"
    using that by (auto simp: threads_def filter_empty_conv list_all_iff)
  ultimately show ?thesis using d(4,5,6) inv(2) by auto
qed

text \<open>
  Two threads and a limit of one reach the quiet bound: the second inserts while the first clears, its increment is lost with
  the reset, and the cache holds two entries with the counter at one.
\<close>

lemma ex_keys: "distinct (map (\<lambda>b. hash_of_bytes [b]) [1, 2, 3, 4])"
  by code_simp

theorem seen_cache_soft_ceiling_witness:
  "\<exists>s. seen_run 1 2 s \<and> list_all (\<lambda>p. p = SIdle) (ss_pcs s) \<and> ss_count s = 1 \<and> card (ss_seen s) = 2 \<and>
     int (card (ss_seen s)) \<le> 1 + int 2 - 1"
proof -
  let ?a = "hash_of_bytes [1]" and ?b = "hash_of_bytes [2]" and ?c = "hash_of_bytes [3]" and ?d = "hash_of_bytes [4]"
  let ?S = "\<lambda>A n p q. \<lparr>ss_seen = A, ss_count = n, ss_pcs = [p, q]\<rparr>"
  have ne: "?a \<noteq> ?b" "?a \<noteq> ?c" "?b \<noteq> ?c" "?c \<noteq> ?d" using ex_keys by auto
  have r0: "seen_run 1 2 (?S {} 0 SIdle SIdle)" using seen_run.start [of 1 2] by (simp add: numeral_2_eq_2)
  have r1: "seen_run 1 2 (?S {?a} 0 (SAdd ?a) SIdle)"
    using seen_run.step [OF r0 seen_step.swap [of 0 "?S {} 0 SIdle SIdle" ?a]] ne by (auto simp: move_def insert_Diff_if)
  have r2: "seen_run 1 2 (?S {?a} 1 SIdle SIdle)"
    using seen_run.step [OF r1 seen_step.add [of 0 "?S {?a} 0 (SAdd ?a) SIdle"]] ne by (auto simp: move_def insert_Diff_if)
  have r3: "seen_run 1 2 (?S {?b, ?a} 1 (SAdd ?b) SIdle)"
    using seen_run.step [OF r2 seen_step.swap [of 0 "?S {?a} 1 SIdle SIdle" ?b]] ne by (auto simp: move_def insert_Diff_if)
  have r4: "seen_run 1 2 (?S {?b, ?a} 2 (SWait ?b) SIdle)"
    using seen_run.step [OF r3 seen_step.add [of 0 "?S {?b, ?a} 1 (SAdd ?b) SIdle"]] ne by (auto simp: move_def insert_Diff_if)
  have r5: "seen_run 1 2 (?S {?b, ?a} 2 SLocked SIdle)"
    using seen_run.step [OF r4 seen_step.lock [of 0 "?S {?b, ?a} 2 (SWait ?b) SIdle"]] ne by (auto simp: move_def insert_Diff_if)
  have r6: "seen_run 1 2 (?S {?b, ?a} 2 SChecked SIdle)"
    using seen_run.step [OF r5 seen_step.recheck [of 0 "?S {?b, ?a} 2 SLocked SIdle"]] ne by (auto simp: move_def insert_Diff_if)
  have r7: "seen_run 1 2 (?S {?b, ?a} 2 (SRange {?b, ?a}) SIdle)"
    using seen_run.step [OF r6 seen_step.range [of 0 "?S {?b, ?a} 2 SChecked SIdle"]] ne by (auto simp: move_def insert_Diff_if)
  have r8: "seen_run 1 2 (?S {?c, ?b, ?a} 2 (SRange {?b, ?a}) (SAdd ?c))"
    using seen_run.step [OF r7 seen_step.swap [of 1 "?S {?b, ?a} 2 (SRange {?b, ?a}) SIdle" ?c]] ne by (auto simp: move_def insert_Diff_if)
  have r9: "seen_run 1 2 (?S {?c, ?b} 2 (SRange {?b}) (SAdd ?c))"
    using seen_run.step [OF r8 seen_step.visit [of 0 "?S {?c, ?b, ?a} 2 (SRange {?b, ?a}) (SAdd ?c)" _ ?a]] ne by (auto simp: move_def insert_Diff_if)
  have r10: "seen_run 1 2 (?S {?c} 2 (SRange {}) (SAdd ?c))"
    using seen_run.step [OF r9 seen_step.visit [of 0 "?S {?c, ?b} 2 (SRange {?b}) (SAdd ?c)" _ ?b]] ne by (auto simp: move_def insert_Diff_if)
  have r11: "seen_run 1 2 (?S {?c} 3 (SRange {}) (SWait ?c))"
    using seen_run.step [OF r10 seen_step.add [of 1 "?S {?c} 2 (SRange {}) (SAdd ?c)"]] ne by (auto simp: move_def insert_Diff_if)
  have r12: "seen_run 1 2 (?S {?c} 0 SIdle (SWait ?c))"
    using seen_run.step [OF r11 seen_step.store [of 0 "?S {?c} 3 (SRange {}) (SWait ?c)"]] ne by (auto simp: move_def insert_Diff_if)
  have r13: "seen_run 1 2 (?S {?c} 0 SIdle SLocked)"
    using seen_run.step [OF r12 seen_step.lock [of 1 "?S {?c} 0 SIdle (SWait ?c)"]] ne by (auto simp: move_def insert_Diff_if)
  have r14: "seen_run 1 2 (?S {?c} 0 SIdle SIdle)"
    using seen_run.step [OF r13 seen_step.recheck [of 1 "?S {?c} 0 SIdle SLocked"]] ne by (auto simp: move_def insert_Diff_if)
  have r15: "seen_run 1 2 (?S {?d, ?c} 0 (SAdd ?d) SIdle)"
    using seen_run.step [OF r14 seen_step.swap [of 0 "?S {?c} 0 SIdle SIdle" ?d]] ne by (auto simp: move_def insert_Diff_if)
  have r16: "seen_run 1 2 (?S {?d, ?c} 1 SIdle SIdle)"
    using seen_run.step [OF r15 seen_step.add [of 0 "?S {?d, ?c} 0 (SAdd ?d) SIdle"]] ne by (auto simp: move_def insert_Diff_if)
  have "int (card {?d, ?c}) \<le> 1 + int 2 - 1"
    using seen_cache_soft_ceiling [OF r16] by simp
  then show ?thesis using r16 ne(4) by (intro exI [of _ "?S {?d, ?c} 1 SIdle SIdle"]) auto
qed

end
