(* ===== verification/GoOS.thy ===== *)
theory GoOS
  imports Prelude
begin

text \<open>
  The part of Go's \<^verbatim>\<open>path/filepath\<close> and \<^verbatim>\<open>os\<close> packages that the filesystem backend calls, over a model
  of a POSIX file system with a page cache: directory entries map paths to directories or to inodes,
  an inode remembers whether its bytes were synced, and the entries that are on disk are kept apart
  from the journal of entry changes not yet synced. A crash keeps, for each path, the entry on disk
  or any unsynced change to it. Every system call first consults a script of faults: an injected
  error, with the number of bytes a write got through before it. The random source is a tape.
\<close>

subsection \<open>path/filepath\<close>

fun clean_comps :: "bool \<Rightarrow> string list \<Rightarrow> string list \<Rightarrow> string list" where
  "clean_comps rooted acc [] = rev acc"
| "clean_comps rooted acc (c # cs) =
     (if c = [] \<or> c = ''.'' then clean_comps rooted acc cs
      else if c = ''..'' then
        (case acc of
           [] \<Rightarrow> clean_comps rooted (if rooted then [] else [''..'']) cs
         | x # acc' \<Rightarrow> if x = ''..'' then clean_comps rooted (''..'' # acc) cs
                       else clean_comps rooted acc' cs)
      else clean_comps rooted (c # acc) cs)"

definition Clean :: "string \<Rightarrow> string" where
  "Clean s =
     (if s = [] then ''.''
      else let rooted = (hd s = CHR ''/''); cs = clean_comps rooted [] (Split CHR ''/'' s)
           in if rooted then CHR ''/'' # Join CHR ''/'' cs
              else if cs = [] then ''.'' else Join CHR ''/'' cs)"

definition IsAbs :: "string \<Rightarrow> bool" where
  "IsAbs p \<longleftrightarrow> HasPrefix p ''/''"

text \<open>\<^verbatim>\<open>filepath.Join\<close> of two elements; \<^verbatim>\<open>filepath.Dir\<close>: all but the last element.\<close>

definition path_Join :: "string \<Rightarrow> string \<Rightarrow> string" where
  "path_Join a b =
     (if a = [] \<and> b = [] then [] else if a = [] then Clean b else if b = [] then Clean a
      else Clean (a @ ''/'' @ b))"

definition Dir :: "string \<Rightarrow> string" where
  "Dir p = Clean (take (length p - length (Basename p)) p)"

definition plain :: "string \<Rightarrow> bool" where
  "plain c \<longleftrightarrow> c \<noteq> [] \<and> c \<noteq> ''.'' \<and> c \<noteq> ''..'' \<and> CHR ''/'' \<notin> set c"

definition abs_path :: "string list \<Rightarrow> string" where
  "abs_path cs = CHR ''/'' # Join CHR ''/'' cs"

lemma clean_comps_plain: "list_all plain cs \<Longrightarrow> clean_comps rooted acc cs = rev acc @ cs"
  by (induction cs arbitrary: acc) (auto simp: plain_def)

lemma Split_Join: "cs \<noteq> [] \<Longrightarrow> list_all (\<lambda>c. CHR ''/'' \<notin> set c) cs \<Longrightarrow> Split CHR ''/'' (Join CHR ''/'' cs) = cs"
  by (induction "CHR ''/''" cs rule: Join.induct) (auto simp: Split_no_sep Split_append_sep)

lemma plain_no_slash: "list_all plain cs \<Longrightarrow> list_all (\<lambda>c. CHR ''/'' \<notin> set c) cs"
  by (auto simp: list_all_iff plain_def)

lemma Join_ne: "cs \<noteq> [] \<Longrightarrow> list_all plain cs \<Longrightarrow> Join CHR ''/'' cs \<noteq> [] \<and> hd (Join CHR ''/'' cs) \<noteq> CHR ''/''"
  by (cases cs rule: remdups_adj.cases) (auto simp: plain_def hd_append, (metis hd_in_set)+)

lemma Clean_abs_path [simp]: "list_all plain cs \<Longrightarrow> Clean (abs_path cs) = abs_path cs"
proof -
  assume p: "list_all plain cs"
  have "clean_comps True [] (Split CHR ''/'' (abs_path cs)) = cs"
  proof (cases "cs = []")
    case False
    then show ?thesis
      using Split_Join [OF False plain_no_slash [OF p]] clean_comps_plain [OF p]
      by (simp add: abs_path_def)
  qed (simp add: abs_path_def)
  then show ?thesis by (simp add: Clean_def abs_path_def)
qed

lemma Clean_rel [simp]: "cs \<noteq> [] \<Longrightarrow> list_all plain cs \<Longrightarrow> Clean (Join CHR ''/'' cs) = Join CHR ''/'' cs"
  using Join_ne [of cs] Split_Join [OF _ plain_no_slash, of cs] clean_comps_plain [of cs False "[]"]
  by (auto simp: Clean_def Let_def)

lemma Join_append: "as \<noteq> [] \<Longrightarrow> bs \<noteq> [] \<Longrightarrow> Join c (as @ bs) = Join c as @ c # Join c bs"
proof (induction c as rule: Join.induct)
  case (2 c x)
  then show ?case by (cases bs) auto
qed auto

lemma abs_path_append: "as \<noteq> [] \<Longrightarrow> bs \<noteq> [] \<Longrightarrow> abs_path (as @ bs) = abs_path as @ CHR ''/'' # Join CHR ''/'' bs"
  by (simp add: abs_path_def Join_append)

lemma path_Join_plain:
  "as \<noteq> [] \<Longrightarrow> bs \<noteq> [] \<Longrightarrow> list_all plain as \<Longrightarrow> list_all plain bs \<Longrightarrow>
     path_Join (abs_path as) (Join CHR ''/'' bs) = abs_path as @ CHR ''/'' # Join CHR ''/'' bs"
  using Clean_abs_path [of "as @ bs"] Join_ne [of bs]
  by (auto simp: path_Join_def abs_path_append) (simp add: abs_path_def)

lemma abs_path_inject [simp]:
  "list_all plain as \<Longrightarrow> list_all plain bs \<Longrightarrow> abs_path as = abs_path bs \<longleftrightarrow> as = bs"
proof
  assume p: "list_all plain as" "list_all plain bs" and "abs_path as = abs_path bs"
  then have e: "Join CHR ''/'' as = Join CHR ''/'' bs" by (simp add: abs_path_def)
  have nil: "Join CHR ''/'' as = [] \<longleftrightarrow> as = []" "Join CHR ''/'' bs = [] \<longleftrightarrow> bs = []"
    using Join_ne [OF _ p(1)] Join_ne [OF _ p(2)] Join.simps(1) by metis+
  show "as = bs"
  proof (cases "as = []")
    case True
    then show ?thesis using nil e by metis
  next
    case False
    then have "bs \<noteq> []" using nil e by metis
    then show ?thesis
      using e Split_Join [OF False plain_no_slash [OF p(1)]] Split_Join [OF _ plain_no_slash [OF p(2)]] by metis
  qed
qed simp

lemma Basename_Join: "list_all plain (as @ [b]) \<Longrightarrow> Basename (abs_path (as @ [b])) = b"
proof (cases "as = []")
  case True
  assume "list_all plain (as @ [b])"
  then show ?thesis using True Basename_no_slash [of b "[]"] by (simp add: abs_path_def plain_def)
next
  case False
  assume "list_all plain (as @ [b])"
  then show ?thesis using False Basename_no_slash [of b "abs_path as"] by (simp add: abs_path_append plain_def)
qed

lemma Dir_abs_path [simp]: "list_all plain (as @ [b]) \<Longrightarrow> Dir (abs_path (as @ [b])) = abs_path as"
proof -
  assume p: "list_all plain (as @ [b])"
  show ?thesis
  proof (cases "as = []")
    case True
    then show ?thesis using Basename_Join [OF p] by (simp add: Dir_def) (simp add: abs_path_def Clean_def)
  next
    case False
    have "Clean (abs_path as @ ''/'') = abs_path as"
    proof -
      have "Split CHR ''/'' (Join CHR ''/'' as @ ''/'') = as @ [[]]"
        using Split_Join [of "as @ [[]]"] False p by (auto simp: Join_append list_all_iff plain_def)
      moreover have "clean_comps True acc (as @ [[]]) = rev acc @ as" for acc
        using p by (induction as arbitrary: acc) (auto simp: plain_def)
      ultimately show ?thesis by (simp add: Clean_def abs_path_def)
    qed
    then show ?thesis using False Basename_Join [OF p] by (simp add: Dir_def abs_path_append)
  qed
qed

subsection \<open>The file system\<close>

datatype node = NDir | NFile nat

record inode =
  in_data :: bytes
  in_mtime :: instant
  in_synced :: bool

record os =
  os_ents :: "(string \<times> node) list"
  os_inodes :: "inode list"
  os_disk :: "(string \<times> node) list"
  os_journal :: "(string \<times> node option) list"
  os_faults :: "(error \<times> nat) option list"
  os_rand :: "nat \<Rightarrow> bytes"
  os_drawn :: nat
  os_ctxerrs :: "error option list"
  os_now :: instant
  os_ticks :: "duration list"

definition lookup :: "'a os_scheme \<Rightarrow> string \<Rightarrow> node option" where
  "lookup w p = map_of (os_ents w) p"

definition set_ent :: "string \<Rightarrow> node \<Rightarrow> 'a os_scheme \<Rightarrow> 'a os_scheme" where
  "set_ent p n w = w\<lparr>os_ents := AList.update p n (os_ents w), os_journal := (p, Some n) # os_journal w\<rparr>"

definition del_ent :: "string \<Rightarrow> 'a os_scheme \<Rightarrow> 'a os_scheme" where
  "del_ent p w = w\<lparr>os_ents := AList.delete p (os_ents w), os_journal := (p, None) # os_journal w\<rparr>"

text \<open>The next fault of the script; an operation that fails has no other effect.\<close>

definition pop_fault :: "'a os_scheme \<Rightarrow> (error \<times> nat) option \<times> 'a os_scheme" where
  "pop_fault w = (case os_faults w of [] \<Rightarrow> (None, w) | f # fs \<Rightarrow> (f, w\<lparr>os_faults := fs\<rparr>))"

definition sys :: "('a os_scheme \<Rightarrow> (error + 'r) \<times> 'a os_scheme) \<Rightarrow> 'a os_scheme \<Rightarrow> (error + 'r) \<times> 'a os_scheme" where
  "sys f w = (case pop_fault w of (Some (e, _), w1) \<Rightarrow> (Inl e, w1) | (None, w1) \<Rightarrow> f w1)"

definition below_file :: "'a os_scheme \<Rightarrow> string \<Rightarrow> bool" where
  "below_file w p \<longleftrightarrow> list_ex (\<lambda>(q, n). n \<noteq> NDir \<and> HasPrefix p (q @ ''/'')) (os_ents w)"

definition missing_err :: "'a os_scheme \<Rightarrow> string \<Rightarrow> error" where
  "missing_err w p = SysErr (if below_file w p then ENOTDIR else ENOENT)"

definition os_Stat :: "string \<Rightarrow> 'a os_scheme \<Rightarrow> (error + node) \<times> 'a os_scheme" where
  "os_Stat p = sys (\<lambda>w. (case lookup w p of None \<Rightarrow> Inl (missing_err w p) | Some n \<Rightarrow> Inr n, w))"

text \<open>\<^verbatim>\<open>os.Open\<close> and reading it to the end: a directory opens, and fails to read.\<close>

definition os_Open :: "string \<Rightarrow> 'a os_scheme \<Rightarrow> (error + error reader) \<times> 'a os_scheme" where
  "os_Open p = sys (\<lambda>w.
     case lookup w p of
       None \<Rightarrow> (Inl (missing_err w p), w)
     | Some NDir \<Rightarrow> (Inr \<lparr>rd_data = [], rd_err = Some (SysErr EISDIR)\<rparr>, w)
     | Some (NFile i) \<Rightarrow>
         (case pop_fault w of
            (None, w1) \<Rightarrow> (Inr (bytes_NewReader (in_data (os_inodes w ! i))), w1)
          | (Some (e, n), w1) \<Rightarrow> (Inr \<lparr>rd_data = take n (in_data (os_inodes w ! i)), rd_err = Some e\<rparr>, w1)))"

text \<open>\<^verbatim>\<open>os.OpenFile\<close> with \<^verbatim>\<open>O_WRONLY|O_CREATE|O_EXCL\<close>: the inode number.\<close>

definition os_CreateExcl :: "string \<Rightarrow> 'a os_scheme \<Rightarrow> (error + nat) \<times> 'a os_scheme" where
  "os_CreateExcl p = sys (\<lambda>w.
     if lookup w p \<noteq> None then (Inl (SysErr EEXIST), w)
     else if lookup w (Dir p) \<noteq> Some NDir then (Inl (missing_err w p), w)
     else let i = length (os_inodes w) in
       (Inr i, set_ent p (NFile i)
          (w\<lparr>os_inodes := os_inodes w @ [\<lparr>in_data = [], in_mtime = os_now w, in_synced = False\<rparr>]\<rparr>)))"

definition set_data :: "nat \<Rightarrow> bytes \<Rightarrow> 'a os_scheme \<Rightarrow> 'a os_scheme" where
  "set_data i b w = w\<lparr>os_inodes := (os_inodes w)[i := (os_inodes w ! i)\<lparr>in_data := b, in_synced := False\<rparr>]\<rparr>"

text \<open>\<^verbatim>\<open>io.Copy\<close> of a reader into the new file: the number of bytes, or the first error.\<close>

definition file_Copy :: "nat \<Rightarrow> error reader \<Rightarrow> 'a os_scheme \<Rightarrow> (error + nat) \<times> 'a os_scheme" where
  "file_Copy i r w =
     (case pop_fault w of
        (Some (e, n), w1) \<Rightarrow> (Inl e, set_data i (take n (rd_data r)) w1)
      | (None, w1) \<Rightarrow>
          (case rd_err r of Some e \<Rightarrow> Inl e | None \<Rightarrow> Inr (length (rd_data r)), set_data i (rd_data r) w1))"

definition file_Sync :: "nat \<Rightarrow> 'a os_scheme \<Rightarrow> (error + unit) \<times> 'a os_scheme" where
  "file_Sync i = sys (\<lambda>w.
     (Inr (), w\<lparr>os_inodes := (os_inodes w)[i := (os_inodes w ! i)\<lparr>in_synced := True\<rparr>]\<rparr>))"

definition file_Close :: "nat \<Rightarrow> 'a os_scheme \<Rightarrow> (error + unit) \<times> 'a os_scheme" where
  "file_Close i = sys (\<lambda>w. (Inr (), w))"

definition os_Link :: "string \<Rightarrow> string \<Rightarrow> 'a os_scheme \<Rightarrow> (error + unit) \<times> 'a os_scheme" where
  "os_Link src dst = sys (\<lambda>w.
     case lookup w src of
       None \<Rightarrow> (Inl (missing_err w src), w)
     | Some NDir \<Rightarrow> (Inl (SysErr EACCES), w)
     | Some (NFile i) \<Rightarrow>
         if lookup w dst \<noteq> None then (Inl (SysErr EEXIST), w)
         else if lookup w (Dir dst) \<noteq> Some NDir then (Inl (missing_err w dst), w)
         else (Inr (), set_ent dst (NFile i) w))"

definition os_Rename :: "string \<Rightarrow> string \<Rightarrow> 'a os_scheme \<Rightarrow> (error + unit) \<times> 'a os_scheme" where
  "os_Rename src dst = sys (\<lambda>w.
     case lookup w src of
       None \<Rightarrow> (Inl (missing_err w src), w)
     | Some n \<Rightarrow>
         if lookup w (Dir dst) \<noteq> Some NDir then (Inl (missing_err w dst), w)
         else if lookup w dst = Some NDir then (Inl (SysErr EEXIST), w)
         else if lookup w dst = Some n then (Inr (), w)
         else (Inr (), set_ent dst n (del_ent src w)))"

definition has_children :: "'a os_scheme \<Rightarrow> string \<Rightarrow> bool" where
  "has_children w p \<longleftrightarrow> list_ex (\<lambda>(q, n). q \<noteq> p \<and> Dir q = p) (os_ents w)"

definition os_Remove :: "string \<Rightarrow> 'a os_scheme \<Rightarrow> (error + unit) \<times> 'a os_scheme" where
  "os_Remove p = sys (\<lambda>w.
     case lookup w p of
       None \<Rightarrow> (Inl (missing_err w p), w)
     | Some NDir \<Rightarrow> if has_children w p then (Inl (SysErr ENOTEMPTY), w) else (Inr (), del_ent p w)
     | Some (NFile i) \<Rightarrow> (Inr (), del_ent p w))"

text \<open>The chain \<open>d\<close>, \<^verbatim>\<open>Dir(d)\<close>, ... up to the root of an absolute clean path.\<close>

definition up_chain :: "string \<Rightarrow> string list" where
  "up_chain d =
     (let cs = filter (\<lambda>c. c \<noteq> []) (Split CHR ''/'' d)
      in map (\<lambda>n. abs_path (take n cs)) (rev [0..<Suc (length cs)]))"

definition os_MkdirAll :: "string \<Rightarrow> 'a os_scheme \<Rightarrow> (error + unit) \<times> 'a os_scheme" where
  "os_MkdirAll d = sys (\<lambda>w.
     if below_file w d \<or> (lookup w d \<noteq> None \<and> lookup w d \<noteq> Some NDir) then (Inl (SysErr ENOTDIR), w)
     else (Inr (), fold (\<lambda>p w. if lookup w p = None then set_ent p NDir w else w) (rev (up_chain d)) w))"

text \<open>\<^verbatim>\<open>fsync\<close> on a directory makes its entries durable; \<^verbatim>\<open>syncfs\<close> makes everything durable.\<close>

definition flush_entry :: "'a os_scheme \<Rightarrow> string \<Rightarrow> (string \<times> node) list \<Rightarrow> (string \<times> node) list" where
  "flush_entry w p disk = (case lookup w p of None \<Rightarrow> AList.delete p disk | Some n \<Rightarrow> AList.update p n disk)"

definition dir_Sync :: "string \<Rightarrow> 'a os_scheme \<Rightarrow> (error + unit) \<times> 'a os_scheme" where
  "dir_Sync d = sys (\<lambda>w.
     (Inr (), w\<lparr>os_disk := fold (flush_entry w) (filter (\<lambda>p. Dir p = d) (map fst (os_journal w))) (os_disk w),
                os_journal := filter (\<lambda>(p, n). Dir p \<noteq> d) (os_journal w)\<rparr>))"

definition sys_Syncfs :: "'a os_scheme \<Rightarrow> (error + unit) \<times> 'a os_scheme" where
  "sys_Syncfs = sys (\<lambda>w.
     (Inr (), w\<lparr>os_inodes := map (\<lambda>n. n\<lparr>in_synced := True\<rparr>) (os_inodes w),
                os_disk := os_ents w, os_journal := []\<rparr>))"

definition os_ReadDir :: "string \<Rightarrow> 'a os_scheme \<Rightarrow> (error + (string \<times> node) list) \<times> 'a os_scheme" where
  "os_ReadDir d = sys (\<lambda>w.
     (case lookup w d of
        None \<Rightarrow> Inl (missing_err w d)
      | Some (NFile i) \<Rightarrow> Inl (SysErr ENOTDIR)
      | Some NDir \<Rightarrow> Inr (filter (\<lambda>(q, n). q \<noteq> d \<and> Dir q = d) (os_ents w)), w))"

subsection \<open>Clock, context and randomness\<close>

definition time_Now :: "'a os_scheme \<Rightarrow> instant \<times> 'a os_scheme" where
  "time_Now w =
     (case os_ticks w of
        [] \<Rightarrow> (os_now w, w)
      | d # ds \<Rightarrow> (os_now w + d, w\<lparr>os_now := os_now w + d, os_ticks := ds\<rparr>))"

definition rand_Read :: "nat \<Rightarrow> 'a os_scheme \<Rightarrow> bytes \<times> 'a os_scheme" where
  "rand_Read n w = (os_rand w (os_drawn w), w\<lparr>os_drawn := Suc (os_drawn w)\<rparr>)"

subsection \<open>Crashes\<close>

text \<open>
  After a crash a path has the entry on disk or that of an unsynced change; a file is there when all
  directories above it are, and its bytes are intact when its inode was synced.
\<close>

definition crash_entries :: "'a os_scheme \<Rightarrow> string \<Rightarrow> node option set" where
  "crash_entries w p = set (map_of (os_disk w) p # map snd (filter (\<lambda>(q, n). q = p) (os_journal w)))"

end
