(* ===== verification/FsBackend.thy ===== *)
theory FsBackend
  imports Storage GoOS
begin

text \<open>
  \<^verbatim>\<open>internal/plugin/storage/fs\<close>: the local filesystem backend (\<^verbatim>\<open>fs.go\<close>, \<^verbatim>\<open>walk.go\<close>,
  \<^verbatim>\<open>barrier_linux.go\<close>) over the file-system model of \<open>GoOS\<close>. The world \<open>fs\<close> is the operating system
  and the plugin's own fields, its root and its queue of deferred writes. SHA-256 is the parameter
  \<open>sha\<close>. One process is modelled: the calls of a run are a sequence. The theory ends with the
  interpretation of \<open>runtime_store\<close> on the plugin.
\<close>

subsection \<open>The plugin\<close>

record fs = os +
  p_root :: string
  p_deferred :: "(string \<times> string) list"

definition ctx_Err :: "ctx \<Rightarrow> fs \<Rightarrow> error option \<times> fs" where
  "ctx_Err ctx w =
     (case ctx of
        CleanupCtx \<Rightarrow> (None, w)
      | CallerCtx \<Rightarrow> (case os_ctxerrs w of [] \<Rightarrow> (None, w) | e # es \<Rightarrow> (e, w\<lparr>os_ctxerrs := es\<rparr>)))"

definition pruneRaceRetries :: nat where "pruneRaceRetries = 100"

definition recordDeferred :: "string \<Rightarrow> string \<Rightarrow> fs \<Rightarrow> fs" where
  "recordDeferred staging final w = w\<lparr>p_deferred := p_deferred w @ [(staging, final)]\<rparr>"

definition requeue :: "(string \<times> string) list \<Rightarrow> fs \<Rightarrow> fs" where
  "requeue xs w = (if xs = [] then w else w\<lparr>p_deferred := xs @ p_deferred w\<rparr>)"

definition isFSStagingName :: "string \<Rightarrow> bool" where
  "isFSStagingName name \<longleftrightarrow> HasSuffix name ''.tmp'' \<or> Contains name ''.hstmp-'' \<or>
     Contains name ''.deferred-'' \<or> Contains name ''.excl-''"

definition isReapableStagingName :: "string \<Rightarrow> bool" where
  "isReapableStagingName name \<longleftrightarrow> Contains name ''.hstmp-'' \<or> Contains name ''.deferred-'' \<or>
     Contains name ''.excl-''"

definition randHex :: "fs \<Rightarrow> string \<times> fs" where
  "randHex w = (case rand_Read 8 w of (b, w') \<Rightarrow> (EncodeToString b, w'))"

definition fs_Capabilities :: Capabilities where
  "fs_Capabilities = zero_Capabilities\<lparr>cap_ConditionalPut := True, cap_VerifiesContentSHA256 := True,
     cap_DurabilityBarrier := True\<rparr>"

text \<open>\<^verbatim>\<open>Open\<close>: the URL is given by its host and path; \<open>abs\<close> is \<^verbatim>\<open>filepath.Abs\<close>.\<close>

definition fs_Open :: "(string \<Rightarrow> error + string) \<Rightarrow> (string \<times> string) option \<Rightarrow> fs \<Rightarrow> error option \<times> fs" where
  "fs_Open abs' url w =
     (case url of
        None \<Rightarrow> (Some (ErrorNew ''fs: nil URL''), w)
      | Some (host, root) \<Rightarrow>
          if host \<noteq> [] \<and> host \<noteq> ''localhost'' then (Some (Errorf ''fs: URL host not supported'' []), w)
          else if root = [] then (Some (ErrorNew ''fs: empty URL path''), w)
          else case abs' root of
            Inl err \<Rightarrow> (Some (Errorf ''fs: resolve'' [err]), w)
          | Inr a \<Rightarrow> (None, w\<lparr>p_root := a\<rparr>))"

definition fs_FreeSpace :: "(string \<Rightarrow> error + FreeSpaceInfo) \<Rightarrow> ctx \<Rightarrow> fs \<Rightarrow> (error + FreeSpaceInfo) \<times> fs" where
  "fs_FreeSpace statfs ctx w =
     (case ctx_Err ctx w of
        (Some err, w1) \<Rightarrow> (Inl err, w1)
      | (None, w1) \<Rightarrow>
          if p_root w1 = [] then (Inl (ErrorNew ''fs: FreeSpace called before Open''), w1)
          else (statfs (p_root w1), w1))"

definition resolve :: "fs \<Rightarrow> string \<Rightarrow> error + string" where
  "resolve w key =
     (if p_root w = [] then Inl (ErrorNew ''fs: plugin not opened'')
      else if key = [] \<or> key = ''.'' then Inl (Errorf ''fs: empty key'' [])
      else if IsAbs key then Inl (Errorf ''fs: key is absolute'' [])
      else let cleaned = Clean key in
        if list_ex (\<lambda>seg. seg = ''..'') (Split CHR ''/'' cleaned) then Inl (Errorf ''fs: key escapes root'' [])
        else Inr (path_Join (p_root w) cleaned))"

subsection \<open>Directories\<close>

definition syncDir :: "string \<Rightarrow> fs \<Rightarrow> error option \<times> fs" where
  "syncDir dir w =
     (case os_Open dir w of
        (Inl err, w1) \<Rightarrow>
          (if is_sys err ENOENT then None else Some (Errorf ''open dir for fsync'' [err]), w1)
      | (Inr _, w1) \<Rightarrow>
          (case dir_Sync dir w1 of
             (Inl err, w2) \<Rightarrow> (Some (Errorf ''fsync dir'' [err]), w2)
           | (Inr _, w2) \<Rightarrow> (None, w2)))"

text \<open>The first loop of \<open>mkdirAllDurable\<close>: the missing directories, deepest first.\<close>

fun missing_dirs :: "string list \<Rightarrow> fs \<Rightarrow> (error + string list) \<times> fs" where
  "missing_dirs [] w = (Inr [], w)"
| "missing_dirs (d # ds) w =
     (case os_Stat d w of
        (Inr _, w1) \<Rightarrow> (Inr [], w1)
      | (Inl err, w1) \<Rightarrow>
          if is_sys err ENOENT then
            (case missing_dirs ds w1 of
               (Inl e, w2) \<Rightarrow> (Inl e, w2)
             | (Inr ms, w2) \<Rightarrow> (Inr (d # ms), w2))
          else (Inl err, w1))"

fun sync_parents :: "string list \<Rightarrow> fs \<Rightarrow> error option \<times> fs" where
  "sync_parents [] w = (None, w)"
| "sync_parents (m # ms) w =
     (case syncDir (Dir m) w of
        (Some err, w1) \<Rightarrow> (Some (Errorf ''fsync parent of new directory'' [err]), w1)
      | (None, w1) \<Rightarrow> sync_parents ms w1)"

definition mkdirAllDurable :: "string \<Rightarrow> fs \<Rightarrow> error option \<times> fs" where
  "mkdirAllDurable dir w =
     (case os_Stat dir w of (st, w1) \<Rightarrow>
      (if st = Inr NDir then (None, w1)
       else case missing_dirs (up_chain dir) w1 of
          (Inl err, w2) \<Rightarrow> (Some err, w2)
        | (Inr missing, w2) \<Rightarrow>
            (case os_MkdirAll dir w2 of
               (Inl err, w3) \<Rightarrow> (Some err, w3)
             | (Inr _, w3) \<Rightarrow> sync_parents (rev missing) w3)))"

text \<open>\<open>mkdir_retry n err\<close> has \<open>n\<close> iterations left and \<open>err\<close> from the last one.\<close>

fun mkdir_retry :: "nat \<Rightarrow> error option \<Rightarrow> string \<Rightarrow> fs \<Rightarrow> error option \<times> fs" where
  "mkdir_retry 0 err dir w = (err, w)"
| "mkdir_retry (Suc n) _ dir w =
     (case mkdirAllDurable dir w of
        (None, w1) \<Rightarrow> (None, w1)
      | (Some err, w1) \<Rightarrow>
          if is_sys err EEXIST \<or> is_sys err ENOENT then mkdir_retry n (Some err) dir w1
          else (Some err, w1))"

definition mkdirAllRetry :: "string \<Rightarrow> fs \<Rightarrow> error option \<times> fs" where
  "mkdirAllRetry dir w = mkdir_retry pruneRaceRetries None dir w"

text \<open>\<open>create_retry n\<close> may still retry \<open>n\<close> times.\<close>

fun create_retry :: "nat \<Rightarrow> string \<Rightarrow> fs \<Rightarrow> (error + nat) \<times> fs" where
  "create_retry n path w =
     (case os_CreateExcl path w of
        (Inr i, w1) \<Rightarrow> (Inr i, w1)
      | (Inl err, w1) \<Rightarrow>
          (case n of
             0 \<Rightarrow> (Inl err, w1)
           | Suc m \<Rightarrow>
               if \<not> is_sys err ENOENT then (Inl err, w1)
               else case mkdirAllRetry (Dir path) w1 of
                 (Some merr, w2) \<Rightarrow> (Inl merr, w2)
               | (None, w2) \<Rightarrow> create_retry m path w2))"

declare create_retry.simps [simp del]

definition createStaging :: "string \<Rightarrow> fs \<Rightarrow> (error + nat) \<times> fs" where
  "createStaging path w = create_retry pruneRaceRetries path w"

subsection \<open>Put\<close>

definition writeAndVerify ::
  "(bytes \<Rightarrow> Hash) \<Rightarrow> nat \<Rightarrow> error reader \<Rightarrow> PutOptions \<Rightarrow> fs \<Rightarrow> (error + PutResult) \<times> fs" where
  "writeAndVerify sha i r opts w =
     (case file_Copy i r w of
        (Inl err, w1) \<Rightarrow> (Inl (Errorf ''fs: write body'' [err]), w1)
      | (Inr n, w1) \<Rightarrow>
          if po_ContentLength opts > 0 \<and> po_ContentLength opts \<noteq> int n
          then (Inl (Errorf ''fs: short write'' []), w1)
          else let sm = sha (rd_data r) in
            if po_ContentSHA256 opts \<noteq> zero_hash \<and> po_ContentSHA256 opts \<noteq> sm
            then (Inl (Sentinel ErrChecksumMismatch), w1)
            else (Inr \<lparr>pr_Key = [], pr_Size = n, pr_ContentSHA256 = sm\<rparr>, w1))"

text \<open>\<^verbatim>\<open>_ = os.Remove(p)\<close> and \<^verbatim>\<open>_ = f.Close()\<close>: the error is dropped.\<close>

definition drop_Remove :: "string \<Rightarrow> fs \<Rightarrow> fs" where
  "drop_Remove p w = snd (os_Remove p w)"

definition drop_Close :: "nat \<Rightarrow> fs \<Rightarrow> fs" where
  "drop_Close i w = snd (file_Close i w)"

definition putDeferred ::
  "(bytes \<Rightarrow> Hash) \<Rightarrow> string \<Rightarrow> string \<Rightarrow> error reader \<Rightarrow> PutOptions \<Rightarrow> fs \<Rightarrow> (error + PutResult) \<times> fs" where
  "putDeferred sha key full r opts w =
     (case os_Stat full w of
        (Inr _, w1) \<Rightarrow> (Inl (Sentinel ErrAlreadyExists), w1)
      | (Inl err, w1) \<Rightarrow>
          if \<not> is_sys err ENOENT then (Inl (Errorf ''fs: stat'' [err]), w1)
          else case randHex w1 of (hex, w2) \<Rightarrow>
            (let staging = full @ ''.deferred-'' @ hex in
             case createStaging staging w2 of
               (Inl err, w3) \<Rightarrow> (Inl (Errorf ''fs: open staging'' [err]), w3)
             | (Inr i, w3) \<Rightarrow>
                 (case writeAndVerify sha i r opts w3 of (werr, w4) \<Rightarrow>
                  (case file_Close i w4 of (cerr, w5) \<Rightarrow>
                   (case werr of
                      Inl e \<Rightarrow> (Inl e, drop_Remove staging w5)
                    | Inr res \<Rightarrow>
                        (case cerr of
                           Inl e \<Rightarrow> (Inl (Errorf ''fs: close staging'' [e]), drop_Remove staging w5)
                         | Inr _ \<Rightarrow> (Inr (res\<lparr>pr_Key := key\<rparr>), recordDeferred staging full w5)))))))"

definition putExclusive ::
  "(bytes \<Rightarrow> Hash) \<Rightarrow> string \<Rightarrow> string \<Rightarrow> error reader \<Rightarrow> PutOptions \<Rightarrow> fs \<Rightarrow> (error + PutResult) \<times> fs" where
  "putExclusive sha key full r opts w =
     (if po_Durability opts = DurabilityDeferred then putDeferred sha key full r opts w
      else case randHex w of (hex, w1) \<Rightarrow>
        (let staging = full @ ''.excl-'' @ hex in
         case createStaging staging w1 of
           (Inl err, w2) \<Rightarrow> (Inl (Errorf ''fs: open staging'' [err]), w2)
         | (Inr i, w2) \<Rightarrow>
             (case writeAndVerify sha i r opts w2 of
                (Inl werr, w3) \<Rightarrow> (Inl werr, drop_Remove staging (drop_Close i w3))
              | (Inr res, w3) \<Rightarrow>
                  (case file_Sync i w3 of
                     (Inl err, w4) \<Rightarrow>
                       (Inl (Errorf ''fs: fsync'' [err]), drop_Remove staging (drop_Close i w4))
                   | (Inr _, w4) \<Rightarrow>
                       (case file_Close i w4 of
                          (Inl err, w5) \<Rightarrow> (Inl (Errorf ''fs: close staging'' [err]), drop_Remove staging w5)
                        | (Inr _, w5) \<Rightarrow>
                            (case os_Link staging full w5 of
                               (Inl err, w6) \<Rightarrow>
                                 (if is_sys err EEXIST then Inl (Sentinel ErrAlreadyExists)
                                  else Inl (Errorf ''fs: link'' [err]), drop_Remove staging w6)
                             | (Inr _, w6) \<Rightarrow>
                                 (case syncDir (Dir full) (drop_Remove staging w6) of
                                    (Some err, w7) \<Rightarrow> (Inl (Errorf ''fs: fsync parent'' [err]), w7)
                                  | (None, w7) \<Rightarrow> (Inr (res\<lparr>pr_Key := key\<rparr>), w7))))))))"

definition putOverwrite ::
  "(bytes \<Rightarrow> Hash) \<Rightarrow> string \<Rightarrow> string \<Rightarrow> error reader \<Rightarrow> PutOptions \<Rightarrow> fs \<Rightarrow> (error + PutResult) \<times> fs" where
  "putOverwrite sha key full r opts w =
     (case randHex w of (hex, w1) \<Rightarrow>
      (let tmp = full @ ''.hstmp-'' @ hex in
       case createStaging tmp w1 of
         (Inl err, w2) \<Rightarrow> (Inl (Errorf ''fs: open tmp'' [err]), w2)
       | (Inr i, w2) \<Rightarrow>
           (case writeAndVerify sha i r opts w2 of
              (Inl err, w3) \<Rightarrow> (Inl err, drop_Remove tmp (drop_Close i w3))
            | (Inr res, w3) \<Rightarrow>
                (case file_Sync i w3 of
                   (Inl err, w4) \<Rightarrow> (Inl (Errorf ''fs: fsync'' [err]), drop_Remove tmp (drop_Close i w4))
                 | (Inr _, w4) \<Rightarrow>
                     (case file_Close i w4 of
                        (Inl err, w5) \<Rightarrow> (Inl (Errorf ''fs: close'' [err]), drop_Remove tmp w5)
                      | (Inr _, w5) \<Rightarrow>
                          (case os_Rename tmp full w5 of
                             (Inl err, w6) \<Rightarrow> (Inl (Errorf ''fs: rename'' [err]), drop_Remove tmp w6)
                           | (Inr _, w6) \<Rightarrow>
                               (case syncDir (Dir full) w6 of
                                  (Some err, w7) \<Rightarrow> (Inl (Errorf ''fs: fsync parent'' [err]), w7)
                                | (None, w7) \<Rightarrow> (Inr (res\<lparr>pr_Key := key\<rparr>), w7))))))))"

definition fs_Put ::
  "(bytes \<Rightarrow> Hash) \<Rightarrow> ctx \<Rightarrow> string \<Rightarrow> error reader \<Rightarrow> PutOptions \<Rightarrow> fs \<Rightarrow> (error + PutResult) \<times> fs" where
  "fs_Put sha ctx key r opts w =
     (case ctx_Err ctx w of
        (Some err, w1) \<Rightarrow> (Inl err, w1)
      | (None, w1) \<Rightarrow>
          (case resolve w1 key of
             Inl err \<Rightarrow> (Inl err, w1)
           | Inr full \<Rightarrow>
               (case mkdirAllRetry (Dir full) w1 of
                  (Some err, w2) \<Rightarrow> (Inl (Errorf ''fs: mkdir parent'' [err]), w2)
                | (None, w2) \<Rightarrow>
                    if po_IfNotExists opts then putExclusive sha key full r opts w2
                    else putOverwrite sha key full r opts w2)))"

subsection \<open>Get, Stat, Delete, Rename\<close>

definition fs_Get :: "ctx \<Rightarrow> string \<Rightarrow> fs \<Rightarrow> (error + error reader) \<times> fs" where
  "fs_Get ctx key w =
     (case ctx_Err ctx w of
        (Some err, w1) \<Rightarrow> (Inl err, w1)
      | (None, w1) \<Rightarrow>
          (case resolve w1 key of
             Inl err \<Rightarrow> (Inl err, w1)
           | Inr full \<Rightarrow>
               (case os_Open full w1 of
                  (Inl err, w2) \<Rightarrow>
                    (if is_sys err ENOENT then Inl (Sentinel ErrNotFound) else Inl (Errorf ''fs: open'' [err]), w2)
                | (Inr f, w2) \<Rightarrow> (Inr f, w2))))"

text \<open>The size and modification time of a directory entry; a directory reports none here.\<close>

definition file_info :: "fs \<Rightarrow> string \<Rightarrow> node \<Rightarrow> ObjectInfo" where
  "file_info w key n =
     (case n of
        NDir \<Rightarrow> \<lparr>oi_Key = key, oi_Size = 0, oi_ModTime = zero_time\<rparr>
      | NFile i \<Rightarrow> \<lparr>oi_Key = key, oi_Size = length (in_data (os_inodes w ! i)),
                    oi_ModTime = in_mtime (os_inodes w ! i)\<rparr>)"

definition fs_Stat :: "ctx \<Rightarrow> string \<Rightarrow> fs \<Rightarrow> (error + ObjectInfo) \<times> fs" where
  "fs_Stat ctx key w =
     (case ctx_Err ctx w of
        (Some err, w1) \<Rightarrow> (Inl err, w1)
      | (None, w1) \<Rightarrow>
          (case resolve w1 key of
             Inl err \<Rightarrow> (Inl err, w1)
           | Inr full \<Rightarrow>
               (case os_Stat full w1 of
                  (Inl err, w2) \<Rightarrow>
                    (if is_sys err ENOENT then Inl (Sentinel ErrNotFound) else Inl (Errorf ''fs: stat'' [err]), w2)
                | (Inr n, w2) \<Rightarrow> (Inr (file_info w2 key n), w2))))"

definition fs_Delete :: "ctx \<Rightarrow> string \<Rightarrow> fs \<Rightarrow> error option \<times> fs" where
  "fs_Delete ctx key w =
     (case ctx_Err ctx w of
        (Some err, w1) \<Rightarrow> (Some err, w1)
      | (None, w1) \<Rightarrow>
          (case resolve w1 key of
             Inl err \<Rightarrow> (Some err, w1)
           | Inr full \<Rightarrow>
               (case os_Remove full w1 of
                  (Inl err, w2) \<Rightarrow>
                    (if is_sys err ENOENT then None else Some (Errorf ''fs: delete'' [err]), w2)
                | (Inr _, w2) \<Rightarrow>
                    (case syncDir (Dir full) w2 of
                       (Some err, w3) \<Rightarrow> (Some (Errorf ''fs: fsync parent'' [err]), w3)
                     | (None, w3) \<Rightarrow> (None, w3)))))"

definition fs_DeleteLazy :: "ctx \<Rightarrow> string \<Rightarrow> fs \<Rightarrow> error option \<times> fs" where
  "fs_DeleteLazy ctx key w =
     (case ctx_Err ctx w of
        (Some err, w1) \<Rightarrow> (Some err, w1)
      | (None, w1) \<Rightarrow>
          (case resolve w1 key of
             Inl err \<Rightarrow> (Some err, w1)
           | Inr full \<Rightarrow>
               (case os_Remove full w1 of
                  (Inl err, w2) \<Rightarrow>
                    (if is_sys err ENOENT then None else Some (Errorf ''fs: delete'' [err]), w2)
                | (Inr _, w2) \<Rightarrow> (None, w2))))"

text \<open>The retries of \<open>RenameIfNotExists\<close> when the destination's directory was pruned under it.\<close>

fun link_retry :: "nat \<Rightarrow> error \<Rightarrow> string \<Rightarrow> string \<Rightarrow> fs \<Rightarrow> error option \<times> fs" where
  "link_retry 0 err src dst w = (Some err, w)"
| "link_retry (Suc n) err src dst w =
     (if is_sys err ENOENT then
        (case mkdirAllRetry (Dir dst) w of
           (Some _, w1) \<Rightarrow> (Some err, w1)
         | (None, w1) \<Rightarrow>
             (case os_Link src dst w1 of
                (Inr _, w2) \<Rightarrow> (None, w2)
              | (Inl err', w2) \<Rightarrow> link_retry n err' src dst w2))
      else (Some err, w))"

definition link_with_retry :: "string \<Rightarrow> string \<Rightarrow> fs \<Rightarrow> error option \<times> fs" where
  "link_with_retry src dst w =
     (case os_Link src dst w of
        (Inr _, w1) \<Rightarrow> (None, w1)
      | (Inl err, w1) \<Rightarrow> link_retry pruneRaceRetries err src dst w1)"

definition fs_RenameIfNotExists :: "ctx \<Rightarrow> string \<Rightarrow> string \<Rightarrow> fs \<Rightarrow> error option \<times> fs" where
  "fs_RenameIfNotExists ctx src dst w =
     (case ctx_Err ctx w of
        (Some err, w1) \<Rightarrow> (Some err, w1)
      | (None, w1) \<Rightarrow>
          (case (resolve w1 src, resolve w1 dst) of
             (Inl err, _) \<Rightarrow> (Some err, w1)
           | (Inr _, Inl err) \<Rightarrow> (Some err, w1)
           | (Inr srcFull, Inr dstFull) \<Rightarrow>
               (case mkdirAllRetry (Dir dstFull) w1 of
                  (Some err, w2) \<Rightarrow> (Some (Errorf ''fs: mkdir parent'' [err]), w2)
                | (None, w2) \<Rightarrow>
                    (case link_with_retry srcFull dstFull w2 of
                       (Some err, w3) \<Rightarrow>
                         (if is_sys err EEXIST then Some (Sentinel ErrAlreadyExists)
                          else Some (Errorf ''fs: link'' [err]), w3)
                     | (None, w3) \<Rightarrow>
                         (case syncDir (Dir dstFull) w3 of
                            (Some err, w4) \<Rightarrow> (Some (Errorf ''fs: fsync parent'' [err]), w4)
                          | (None, w4) \<Rightarrow>
                              (case os_Remove srcFull w4 of
                                 (Inl err, w5) \<Rightarrow> (Some (Errorf ''fs: unlink old after link'' [err]), w5)
                               | (Inr _, w5) \<Rightarrow>
                                   (case syncDir (Dir srcFull) w5 of
                                      (Some err, w6) \<Rightarrow> (Some (Errorf ''fs: fsync parent'' [err]), w6)
                                    | (None, w6) \<Rightarrow> (None, w6))))))))"

definition fs_SetRetention :: "ctx \<Rightarrow> string \<Rightarrow> instant \<Rightarrow> WORMMode \<Rightarrow> fs \<Rightarrow> error option \<times> fs" where
  "fs_SetRetention ctx key t m w = (Some (Sentinel ErrUnsupported), w)"

subsection \<open>The durability barrier\<close>

fun publishDeferred :: "ctx \<Rightarrow> (string \<times> string) list \<Rightarrow> fs \<Rightarrow> ((string \<times> string) list \<times> error option) \<times> fs" where
  "publishDeferred ctx [] w = (([], None), w)"
| "publishDeferred ctx ((staging, final) # q) w =
     (case ctx_Err ctx w of
        (Some err, w1) \<Rightarrow> (((staging, final) # q, Some err), w1)
      | (None, w1) \<Rightarrow>
          (case os_Link staging final w1 of
             (Inr _, w2) \<Rightarrow> publishDeferred ctx q (drop_Remove staging w2)
           | (Inl err, w2) \<Rightarrow>
               if is_sys err EEXIST then publishDeferred ctx q (drop_Remove staging w2)
               else if is_sys err ENOENT then
                 (case os_Stat final w2 of
                    (Inr _, w3) \<Rightarrow> publishDeferred ctx q w3
                  | (Inl _, w3) \<Rightarrow>
                      (((staging, final) # q, Some (Errorf ''fs: publish chunk: staging temp vanished'' [err])), w3))
               else (((staging, final) # q, Some (Errorf ''fs: publish chunk'' [err])), w2)))"

definition syncfsRoot :: "fs \<Rightarrow> error option \<times> fs" where
  "syncfsRoot w =
     (case os_Open (p_root w) w of
        (Inl err, w1) \<Rightarrow>
          (if is_sys err ENOENT then None else Some (Errorf ''fs: barrier open'' [err]), w1)
      | (Inr _, w1) \<Rightarrow>
          (case sys_Syncfs w1 of
             (Inl err, w2) \<Rightarrow> (Some (Errorf ''fs: barrier syncfs'' [err]), w2)
           | (Inr _, w2) \<Rightarrow> (None, w2)))"

definition fs_Barrier :: "ctx \<Rightarrow> fs \<Rightarrow> error option \<times> fs" where
  "fs_Barrier ctx w =
     (case ctx_Err ctx w of
        (Some err, w1) \<Rightarrow> (Some err, w1)
      | (None, w1) \<Rightarrow>
          if p_root w1 = [] then (Some (ErrorNew ''fs: Barrier called before Open''), w1)
          else
            (let q = p_deferred w1; w2 = w1\<lparr>p_deferred := []\<rparr> in
             if q = [] then (None, w2)
             else case syncfsRoot w2 of
               (Some err, w3) \<Rightarrow> (Some err, requeue q w3)
             | (None, w3) \<Rightarrow>
                 (case publishDeferred ctx q w3 of
                    ((rest, Some err), w4) \<Rightarrow> (Some err, requeue rest w4)
                  | ((rest, None), w4) \<Rightarrow>
                      (case syncfsRoot w4 of
                         (Some err, w5) \<Rightarrow> (Some err, requeue q w5)
                       | (None, w5) \<Rightarrow> (None, w5)))))"

subsection \<open>Walking the tree\<close>

text \<open>
  \<^verbatim>\<open>walkDirBounded\<close> as the sequence of its callbacks: the entries in the order they are visited, and
  the errors it reports. Directories are read in batches, each sorted by name. The recursion is
  bounded by \<open>depth\<close>; every level makes the path longer, so one more than the longest path suffices.
\<close>

datatype visit = Visit string node | VisitErr string error

definition walkDirBatch :: nat where "walkDirBatch = 4096"

function batches :: "nat \<Rightarrow> 'a list \<Rightarrow> 'a list list" where
  "batches n xs = (if xs = [] \<or> n = 0 then [] else take n xs # batches n (drop n xs))"
  by pat_completeness auto
termination
  by (relation "measure (\<lambda>(n, xs). length xs)") auto

declare batches.simps [simp del]

lemma batches_concat: "n \<noteq> 0 \<Longrightarrow> concat (batches n xs) = xs"
  by (induction n xs rule: batches.induct) (subst batches.simps, auto)

definition batched_sort :: "(string \<times> node) list \<Rightarrow> (string \<times> node) list" where
  "batched_sort es =
     concat (map (SliceStable (\<lambda>a b. Basename (fst a) < Basename (fst b))) (batches walkDirBatch es))"

fun walk :: "nat \<Rightarrow> string \<Rightarrow> node \<Rightarrow> fs \<Rightarrow> visit list \<times> fs"
  and walk_list :: "nat \<Rightarrow> (string \<times> node) list \<Rightarrow> fs \<Rightarrow> visit list \<times> fs" where
  "walk depth path (NFile i) w = ([Visit path (NFile i)], w)"
| "walk 0 path NDir w = ([Visit path NDir], w)"
| "walk (Suc depth) path NDir w =
     (case os_ReadDir path w of
        (Inl e, w1) \<Rightarrow> ([Visit path NDir, VisitErr path e], w1)
      | (Inr es, w1) \<Rightarrow>
          (case walk_list depth (batched_sort es) w1 of (vs, w2) \<Rightarrow> (Visit path NDir # vs, w2)))"
| "walk_list depth [] w = ([], w)"
| "walk_list depth ((p, n) # es) w =
     (case walk depth p n w of (v1, w1) \<Rightarrow>
      (case walk_list depth es w1 of (v2, w2) \<Rightarrow> (v1 @ v2, w2)))"

definition max_depth :: "fs \<Rightarrow> nat" where
  "max_depth w = Suc (foldr max (map (\<lambda>(p, n). length p) (os_ents w)) 0)"

definition walkDirBounded :: "string \<Rightarrow> fs \<Rightarrow> visit list \<times> fs" where
  "walkDirBounded root w =
     (case os_Stat root w of
        (Inl err, w1) \<Rightarrow> ([VisitErr root err], w1)
      | (Inr n, w1) \<Rightarrow> walk (max_depth w1) root n w1)"

text \<open>\<^verbatim>\<open>filepath.Rel\<close> for a path below the root.\<close>

definition rel_path :: "fs \<Rightarrow> string \<Rightarrow> string" where
  "rel_path w p = TrimPrefix p (p_root w @ ''/'')"

fun list_loop :: "ctx \<Rightarrow> visit list \<Rightarrow> fs \<Rightarrow> (ObjectInfo list \<times> error option) \<times> fs" where
  "list_loop ctx [] w = (([], None), w)"
| "list_loop ctx (v # vs) w =
     (case ctx_Err ctx w of
        (Some cerr, w1) \<Rightarrow> (([], Some cerr), w1)
      | (None, w1) \<Rightarrow>
          (case v of
             VisitErr p err \<Rightarrow>
               if is_sys err ENOENT then list_loop ctx vs w1 else (([], Some err), w1)
           | Visit p NDir \<Rightarrow> list_loop ctx vs w1
           | Visit p (NFile i) \<Rightarrow>
               if isFSStagingName (Basename p) then list_loop ctx vs w1
               else case os_Stat p w1 of
                 (Inl err, w2) \<Rightarrow>
                   if is_sys err ENOENT then list_loop ctx vs w2 else (([], Some err), w2)
               | (Inr n, w2) \<Rightarrow>
                   (case list_loop ctx vs w2 of
                      ((is, e), w3) \<Rightarrow> ((file_info w2 (rel_path w2 p) n # is, e), w3))))"

definition fs_List :: "ctx \<Rightarrow> string \<Rightarrow> fs \<Rightarrow> (ObjectInfo list \<times> error option) \<times> fs" where
  "fs_List ctx prefix w =
     (if p_root w = [] then (([], Some (ErrorNew ''fs: plugin not opened'')), w)
      else case ctx_Err ctx w of
        (Some err, w1) \<Rightarrow> (([], Some err), w1)
      | (None, w1) \<Rightarrow>
          (let base = (if prefix \<noteq> [] then path_Join (p_root w1) (Clean (''/'' @ prefix)) else p_root w1) in
           case walkDirBounded base w1 of (vs, w2) \<Rightarrow> list_loop ctx vs w2))"

subsection \<open>Reaping and pruning\<close>

text \<open>The callback of \<open>ReapStaging\<close>, with the statistics and the directories touched so far.\<close>

fun reap_loop ::
  "ctx \<Rightarrow> string list \<Rightarrow> instant \<Rightarrow> visit list \<Rightarrow> ReapStats \<Rightarrow> string list \<Rightarrow> fs \<Rightarrow>
     (ReapStats \<times> string list \<times> error option) \<times> fs" where
  "reap_loop ctx pending cutoff [] st dirs w = ((st, dirs, None), w)"
| "reap_loop ctx pending cutoff (v # vs) st dirs w =
     (case ctx_Err ctx w of
        (Some cerr, w1) \<Rightarrow> ((st, dirs, Some cerr), w1)
      | (None, w1) \<Rightarrow>
          (case v of
             VisitErr p err \<Rightarrow>
               if is_sys err ENOENT then reap_loop ctx pending cutoff vs st dirs w1
               else ((st, dirs, Some err), w1)
           | Visit p NDir \<Rightarrow> reap_loop ctx pending cutoff vs st dirs w1
           | Visit p (NFile i) \<Rightarrow>
               if \<not> isReapableStagingName (Basename p) \<or> p \<in> set pending
               then reap_loop ctx pending cutoff vs st dirs w1
               else case os_Stat p w1 of
                 (Inl err, w2) \<Rightarrow>
                   if is_sys err ENOENT then reap_loop ctx pending cutoff vs st dirs w2
                   else ((st, dirs, Some err), w2)
               | (Inr n, w2) \<Rightarrow>
                   (let info = file_info w2 p n in
                    if \<not> oi_ModTime info < cutoff then reap_loop ctx pending cutoff vs st dirs w2
                    else case os_Remove p w2 of
                      (Inl err, w3) \<Rightarrow>
                        if is_sys err ENOENT then reap_loop ctx pending cutoff vs st dirs w3
                        else ((st, dirs, Some (Errorf ''fs: reap staging'' [err])), w3)
                    | (Inr _, w3) \<Rightarrow>
                        reap_loop ctx pending cutoff vs
                          (st\<lparr>rs_Removed := Suc (rs_Removed st), rs_Bytes := rs_Bytes st + oi_Size info\<rparr>)
                          (List.insert (Dir p) dirs) w3)))"

fun sync_dirs :: "string list \<Rightarrow> error option \<Rightarrow> fs \<Rightarrow> error option \<times> fs" where
  "sync_dirs [] err w = (err, w)"
| "sync_dirs (d # ds) err w =
     (case syncDir d w of (serr, w1) \<Rightarrow>
        sync_dirs ds (if serr \<noteq> None \<and> err = None then serr else err) w1)"

definition fs_ReapStaging :: "ctx \<Rightarrow> duration \<Rightarrow> fs \<Rightarrow> (ReapStats \<times> error option) \<times> fs" where
  "fs_ReapStaging ctx olderThan w =
     (let st = \<lparr>rs_Removed = 0, rs_Bytes = 0, rs_Unsupported = False\<rparr> in
      if p_root w = [] then ((st, Some (ErrorNew ''fs: plugin not opened'')), w)
      else case time_Now w of (now, w1) \<Rightarrow>
        (case walkDirBounded (p_root w1) w1 of (vs, w2) \<Rightarrow>
         (case reap_loop ctx (map fst (p_deferred w)) (now - olderThan) vs st [] w2 of
            ((st', dirs, err), w3) \<Rightarrow>
              (case sync_dirs dirs err w3 of (err', w4) \<Rightarrow> ((st', err'), w4)))))"

text \<open>
  The recursive closure of \<open>PruneEmptyDirs\<close>: whether the directory is gone, and the number of
  directories removed so far, which is kept when an error ends the walk.
\<close>

fun prune :: "nat \<Rightarrow> ctx \<Rightarrow> string \<Rightarrow> bool \<Rightarrow> nat \<Rightarrow> fs \<Rightarrow> ((error + bool) \<times> nat) \<times> fs"
  and prune_list :: "nat \<Rightarrow> ctx \<Rightarrow> (string \<times> node) list \<Rightarrow> bool \<Rightarrow> nat \<Rightarrow> fs \<Rightarrow> ((error + bool) \<times> nat) \<times> fs" where
  "prune 0 ctx path self n w = ((Inr False, n), w)"
| "prune (Suc depth) ctx path self n w =
     (case ctx_Err ctx w of
        (Some err, w1) \<Rightarrow> ((Inl err, n), w1)
      | (None, w1) \<Rightarrow>
          (case os_ReadDir path w1 of
             (Inl err, w2) \<Rightarrow> ((if is_sys err ENOENT then Inr True else Inl err, n), w2)
           | (Inr ents, w2) \<Rightarrow>
               (case prune_list depth ctx ents True n w2 of
                  ((Inl err, n1), w3) \<Rightarrow> ((Inl err, n1), w3)
                | ((Inr emp, n1), w3) \<Rightarrow>
                    if \<not> emp \<or> \<not> self \<or> path = p_root w3 then ((Inr False, n1), w3)
                    else case os_Remove path w3 of
                      (Inl err, w4) \<Rightarrow> ((Inr (is_sys err ENOENT), n1), w4)
                    | (Inr _, w4) \<Rightarrow> ((Inr True, Suc n1), w4))))"
| "prune_list depth ctx [] emp n w = ((Inr emp, n), w)"
| "prune_list depth ctx ((p, NFile i) # es) emp n w = prune_list depth ctx es False n w"
| "prune_list depth ctx ((p, NDir) # es) emp n w =
     (case prune depth ctx p True n w of
        ((Inl err, n1), w1) \<Rightarrow> ((Inl err, n1), w1)
      | ((Inr gone, n1), w1) \<Rightarrow> prune_list depth ctx es (emp \<and> gone) n1 w1)"

definition Trim_slash :: "string \<Rightarrow> string" where
  "Trim_slash s = rev (dropWhile (\<lambda>c. c = CHR ''/'') (rev (dropWhile (\<lambda>c. c = CHR ''/'') s)))"

definition fs_PruneEmptyDirs :: "ctx \<Rightarrow> string \<Rightarrow> bool \<Rightarrow> fs \<Rightarrow> (nat \<times> error option) \<times> fs" where
  "fs_PruneEmptyDirs ctx dir includeSelf w =
     (if p_root w = [] then ((0, Some (ErrorNew ''fs: plugin not opened'')), w)
      else case (if Trim_slash dir \<noteq> [] then resolve w (Trim_slash dir) else Inr (p_root w)) of
        Inl err \<Rightarrow> ((0, Some err), w)
      | Inr full \<Rightarrow>
          (case prune (max_depth w) ctx full includeSelf 0 w of
             ((Inl err, n), w1) \<Rightarrow> ((n, Some err), w1)
           | ((Inr _, n), w1) \<Rightarrow>
               if n > 0 then
                 (case syncDir full w1 of (_, w2) \<Rightarrow>
                  if includeSelf then (case syncDir (Dir full) w2 of (_, w3) \<Rightarrow> ((n, None), w3))
                  else ((n, None), w2))
               else ((n, None), w1)))"

subsection \<open>The plugin as a value of the interface\<close>

definition fs_plugin :: "(bytes \<Rightarrow> Hash) \<Rightarrow> (string \<Rightarrow> error + FreeSpaceInfo) \<Rightarrow> fs StoragePlugin" where
  "fs_plugin sha statfs =
     \<lparr>sp_Name = ''fs'', sp_Put = fs_Put sha, sp_Get = fs_Get, sp_Stat = fs_Stat, sp_List = fs_List,
      sp_Delete = fs_Delete, sp_RenameIfNotExists = fs_RenameIfNotExists,
      sp_SetRetention = fs_SetRetention, sp_Barrier = fs_Barrier, sp_Capabilities = fs_Capabilities,
      sp_Region = None, sp_FreeSpace = Some (fs_FreeSpace statfs),
      sp_DeleteLazy = Some fs_DeleteLazy, sp_PruneEmptyDirs = Some fs_PruneEmptyDirs,
      sp_ReapStaging = Some fs_ReapStaging\<rparr>"

text \<open>\<^verbatim>\<open>select\<close> between \<^verbatim>\<open>ctx.Done()\<close> and \<^verbatim>\<open>time.After(d)\<close>.\<close>

definition time_After :: "ctx \<Rightarrow> duration \<Rightarrow> fs \<Rightarrow> error option \<times> fs" where
  "time_After ctx d w =
     (case ctx_Err ctx w of
        (Some err, w1) \<Rightarrow> (Some err, w1)
      | (None, w1) \<Rightarrow> (None, w1\<lparr>os_now := os_now w1 + max d 0\<rparr>))"

definition fs_runtime :: "fs runtime" where
  "fs_runtime = \<lparr>rt_Now = time_Now, rt_CtxErr = ctx_Err, rt_Rand = rand_Read, rt_Sleep = time_After\<rparr>"

end
