(* ===== verification/FsFrame.thy ===== *)
theory FsFrame
  imports FsBackend
begin

text \<open>
  What each system call and each helper of the filesystem backend changes. The state is read through
  \<open>fv\<close>, the file a path leads to; \<open>upd w w' S\<close> says that only the files of the paths in \<open>S\<close> changed, and
  that the well-formedness of the tree is kept.
\<close>

subsection \<open>Views and well-formedness\<close>

definition fv :: "fs \<Rightarrow> string \<Rightarrow> (bytes \<times> instant) option" where
  "fv w p =
     (case lookup w p of
        Some (NFile i) \<Rightarrow> Some (in_data (os_inodes w ! i), in_mtime (os_inodes w ! i))
      | _ \<Rightarrow> None)"

definition canon :: "string \<Rightarrow> bool" where
  "canon p \<longleftrightarrow> (\<exists>cs. list_all plain cs \<and> p = abs_path cs)"

definition ok_fault :: "error \<Rightarrow> bool" where
  "ok_fault e \<longleftrightarrow> e \<in> {SysErr EIO, SysErr ENOSPC, SysErr EACCES}"

definition ok_ctxerr :: "error \<Rightarrow> bool" where
  "ok_ctxerr e \<longleftrightarrow> e \<in> {Sentinel ContextCanceled, Sentinel DeadlineExceeded}"

definition fail_ok :: "error \<Rightarrow> bool" where
  "fail_ok e \<longleftrightarrow> \<not> is_err e ErrAlreadyExists \<and> \<not> is_err e ErrNotFound"

lemma fail_ok_simps [simp]:
  "ok_fault e \<Longrightarrow> fail_ok (Errorf m [e])" "fail_ok (Errorf m [])" "fail_ok (Sentinel ErrChecksumMismatch)"
  "ok_fault e \<Longrightarrow> fail_ok e" "ok_ctxerr e \<Longrightarrow> fail_ok e" "fail_ok (ErrorNew m)" "fail_ok (SysErr n)"
  "fail_ok (Errorf m [e]) = fail_ok e"
  by (auto simp: fail_ok_def ok_fault_def ok_ctxerr_def)

definition script_ok :: "fs \<Rightarrow> bool" where
  "script_ok w \<longleftrightarrow> (\<forall>e n. Some (e, n) \<in> set (os_faults w) \<longrightarrow> ok_fault e) \<and>
     (\<forall>e. Some e \<in> set (os_ctxerrs w) \<longrightarrow> ok_ctxerr e) \<and> inj (os_rand w)"

definition tree_ok :: "fs \<Rightarrow> bool" where
  "tree_ok w \<longleftrightarrow> distinct (map fst (os_ents w)) \<and>
     (\<forall>p n. lookup w p = Some n \<longrightarrow> canon p) \<and>
     (\<forall>p i. lookup w p = Some (NFile i) \<longrightarrow> i < length (os_inodes w)) \<and>
     (\<forall>as b n. list_all plain (as @ [b]) \<longrightarrow> lookup w (abs_path (as @ [b])) = Some n \<longrightarrow>
        lookup w (abs_path as) = Some NDir) \<and> (\<forall>i. lookup w ''/'' \<noteq> Some (NFile i))"

text \<open>
  Object names carry an extension, directories of the store do not: no object key is the directory
  of another. \<open>okdir\<close> says that of one directory, \<open>dirs_ok\<close> of all directories that exist.
\<close>

definition okname :: "string \<Rightarrow> bool" where
  "okname b \<longleftrightarrow> Contains b ''.chk'' \<or> Contains b ''.json''"

definition okdir :: "string \<Rightarrow> string \<Rightarrow> bool" where
  "okdir root d \<longleftrightarrow> canon d \<and> (\<forall>rs cs. root = abs_path rs \<longrightarrow> d = abs_path (rs @ cs) \<longrightarrow>
     list_all plain (rs @ cs) \<longrightarrow> list_all (\<lambda>c. \<not> okname c) cs)"

definition dirs_ok :: "fs \<Rightarrow> bool" where
  "dirs_ok w \<longleftrightarrow> (\<forall>d. lookup w d = Some NDir \<longrightarrow> okdir (p_root w) d)"

definition fs_wf :: "fs \<Rightarrow> bool" where
  "fs_wf w \<longleftrightarrow> script_ok w \<and> tree_ok w \<and> dirs_ok w"

definition upd :: "fs \<Rightarrow> fs \<Rightarrow> string set \<Rightarrow> bool" where
  "upd w w' S \<longleftrightarrow> fs_wf w' \<and> p_root w' = p_root w \<and> p_deferred w' = p_deferred w \<and>
     os_rand w' = os_rand w \<and> os_drawn w \<le> os_drawn w' \<and> (\<forall>p. p \<notin> S \<longrightarrow> fv w' p = fv w p)"

lemma upd_refl [simp]: "fs_wf w \<Longrightarrow> upd w w S"
  by (simp add: upd_def)

lemma upd_trans: "upd w w1 S \<Longrightarrow> upd w1 w2 T \<Longrightarrow> S \<subseteq> U \<Longrightarrow> T \<subseteq> U \<Longrightarrow> upd w w2 U"
  unfolding upd_def by (metis le_trans subsetD)

lemma upd_wf: "upd w w' S \<Longrightarrow> fs_wf w'"
  by (simp add: upd_def)

lemma upd_mono: "upd w w' S \<Longrightarrow> S \<subseteq> T \<Longrightarrow> upd w w' T"
  by (auto simp: upd_def)

lemma upd_empty: "upd w w' {} \<Longrightarrow> fv w' = fv w"
  by (auto simp: upd_def)

lemma fv_cong: "os_ents w' = os_ents w \<Longrightarrow> os_inodes w' = os_inodes w \<Longrightarrow> fv w' = fv w"
  by (rule ext) (auto simp: fv_def lookup_def split: option.splits node.splits)

lemma lookup_cong: "os_ents w' = os_ents w \<Longrightarrow> lookup w' = lookup w"
  by (simp add: lookup_def fun_eq_iff)

lemma lookup_simps [simp]:
  "lookup (w\<lparr>os_inodes := a\<rparr>) = lookup w" "lookup (w\<lparr>os_disk := b\<rparr>) = lookup w"
  "lookup (w\<lparr>os_journal := c\<rparr>) = lookup w" "lookup (w\<lparr>os_faults := d\<rparr>) = lookup w"
  "lookup (w\<lparr>os_drawn := e\<rparr>) = lookup w" "lookup (w\<lparr>os_ctxerrs := f\<rparr>) = lookup w"
  "lookup (w\<lparr>os_now := g\<rparr>) = lookup w" "lookup (w\<lparr>os_ticks := h\<rparr>) = lookup w"
  "lookup ((v :: fs)\<lparr>p_deferred := i\<rparr>) = lookup v"
  by (simp_all add: lookup_def fun_eq_iff)

lemma tree_ok_cong: "os_ents w' = os_ents w \<Longrightarrow> length (os_inodes w') = length (os_inodes w) \<Longrightarrow>
    tree_ok w' = tree_ok w"
  by (simp add: tree_ok_def lookup_def)

lemma tree_okD:
  assumes "tree_ok w"
  shows "distinct (map fst (os_ents w))" "lookup w p = Some n \<Longrightarrow> canon p"
    "lookup w p = Some (NFile i) \<Longrightarrow> i < length (os_inodes w)"
    "list_all plain (as @ [b]) \<Longrightarrow> lookup w (abs_path (as @ [b])) = Some n \<Longrightarrow> lookup w (abs_path as) = Some NDir"
    "lookup w ''/'' \<noteq> Some (NFile i)"
  using assms unfolding tree_ok_def by blast+

lemma dirs_ok_sub: "dirs_ok w \<Longrightarrow> p_root w' = p_root w \<Longrightarrow>
    (\<And>d. lookup w' d = Some NDir \<Longrightarrow> lookup w d = Some NDir) \<Longrightarrow> dirs_ok w'"
  by (auto simp: dirs_ok_def)

lemma script_ok_sub: "script_ok w \<Longrightarrow> set (os_faults w') \<subseteq> set (os_faults w) \<Longrightarrow>
    set (os_ctxerrs w') \<subseteq> set (os_ctxerrs w) \<Longrightarrow> os_rand w' = os_rand w \<Longrightarrow> script_ok w'"
  by (auto simp: script_ok_def)

lemma pop_fault_upd:
  assumes "fs_wf w" "pop_fault w = (f, w')"
  shows "upd w w' {} \<and> os_ents w' = os_ents w \<and> os_inodes w' = os_inodes w \<and> os_now w' = os_now w \<and>
    (\<forall>e n. f = Some (e, n) \<longrightarrow> ok_fault e)"
proof -
  consider "f = None" "w' = w" | fs where "os_faults w = f # fs" "w' = w\<lparr>os_faults := fs\<rparr>"
    using assms(2) by (auto simp: pop_fault_def split: list.splits)
  then show ?thesis
  proof cases
    case 2
    then have "script_ok w'" "tree_ok w'" "dirs_ok w'" "fv w' = fv w"
      using assms(1) script_ok_sub [of w w'] tree_ok_cong [of w' w] fv_cong [of w' w] dirs_ok_sub [of w w']
      by (auto simp: fs_wf_def lookup_def)
    then show ?thesis using 2 assms(1) by (auto simp: upd_def fs_wf_def script_ok_def)
  qed (use assms in auto)
qed

lemma ctx_Err_upd:
  assumes "fs_wf w" "ctx_Err ctx w = (e, w')"
  shows "upd w w' {} \<and> os_ents w' = os_ents w \<and> (\<forall>x. e = Some x \<longrightarrow> ok_ctxerr x)"
proof -
  consider "e = None" "w' = w" | es where "os_ctxerrs w = e # es" "w' = w\<lparr>os_ctxerrs := es\<rparr>"
    using assms(2) by (auto simp: ctx_Err_def split: list.splits ctx.splits)
  then show ?thesis
  proof cases
    case 2
    then have "script_ok w'" "tree_ok w'" "dirs_ok w'" "fv w' = fv w"
      using assms(1) script_ok_sub [of w w'] tree_ok_cong [of w' w] fv_cong [of w' w] dirs_ok_sub [of w w']
      by (auto simp: fs_wf_def lookup_def)
    then show ?thesis using 2 assms(1) by (auto simp: upd_def fs_wf_def script_ok_def)
  qed (use assms in auto)
qed

text \<open>A system call fails with an injected fault and no effect, or runs on a state with the same tree.\<close>

lemma sys_cases [consumes 2]:
  assumes "fs_wf w" "sys f w = (r, w')"
  obtains (fault) e where "r = Inl e" "ok_fault e" "upd w w' {}" "os_ents w' = os_ents w" "os_inodes w' = os_inodes w"
  | (run) w1 where "upd w w1 {}" "os_ents w1 = os_ents w" "os_inodes w1 = os_inodes w" "os_now w1 = os_now w" "f w1 = (r, w')"
proof -
  obtain ft w1 where p: "pop_fault w = (ft, w1)" by fastforce
  note u = pop_fault_upd [OF assms(1) p]
  show thesis
  proof (cases ft)
    case None
    then show thesis using run [of w1] u assms(2) p by (simp add: sys_def)
  next
    case (Some a)
    then show thesis using fault [of "fst a"] u assms(2) p by (cases a) (simp add: sys_def)
  qed
qed

subsection \<open>Entries\<close>

lemma fv_None: "lookup w p = None \<Longrightarrow> fv w p = None"
  by (simp add: fv_def)

lemma fs_wfD:
  "fs_wf w \<Longrightarrow> tree_ok w" "fs_wf w \<Longrightarrow> script_ok w" "fs_wf w \<Longrightarrow> dirs_ok w"
  by (simp_all add: fs_wf_def)

lemma script_ok_ents [simp]:
  "script_ok (w\<lparr>os_ents := a\<rparr>) = script_ok w" "script_ok (w\<lparr>os_inodes := b\<rparr>) = script_ok w"
  "script_ok (w\<lparr>os_journal := c\<rparr>) = script_ok w" "script_ok (w\<lparr>os_disk := d\<rparr>) = script_ok w"
  by (simp_all add: script_ok_def)

lemma lookup_set_ent [simp]: "lookup (set_ent p n w) q = (if q = p then Some n else lookup w q)"
  by (simp add: set_ent_def lookup_def update_conv')

lemma lookup_del_ent [simp]: "lookup (del_ent p w) q = (if q = p then None else lookup w q)"
  by (simp add: del_ent_def lookup_def delete_conv')

lemma set_ent_simps [simp]:
  "os_inodes (set_ent p n w) = os_inodes w" "p_root (set_ent p n w) = p_root w"
  "p_deferred (set_ent p n w) = p_deferred w" "os_rand (set_ent p n w) = os_rand w"
  "os_drawn (set_ent p n w) = os_drawn w" "script_ok (set_ent p n w) = script_ok w"
  by (simp_all add: set_ent_def script_ok_def)

lemma del_ent_simps [simp]:
  "os_inodes (del_ent p w) = os_inodes w" "p_root (del_ent p w) = p_root w"
  "p_deferred (del_ent p w) = p_deferred w" "os_rand (del_ent p w) = os_rand w"
  "os_drawn (del_ent p w) = os_drawn w" "script_ok (del_ent p w) = script_ok w"
  by (simp_all add: del_ent_def script_ok_def)

lemma distinct_set_ent: "distinct (map fst (os_ents w)) \<Longrightarrow> distinct (map fst (os_ents (set_ent p n w)))"
  by (simp add: set_ent_def distinct_update)

lemma distinct_del_ent: "distinct (map fst (os_ents w)) \<Longrightarrow> distinct (map fst (os_ents (del_ent p w)))"
  by (simp add: del_ent_def distinct_delete)

lemma fv_set_ent: "fv (set_ent p n w) q = (if q = p then (case n of NDir \<Rightarrow> None
    | NFile i \<Rightarrow> Some (in_data (os_inodes w ! i), in_mtime (os_inodes w ! i))) else fv w q)"
  by (auto simp: fv_def split: node.splits option.splits)

lemma fv_del_ent: "fv (del_ent p w) q = (if q = p then None else fv w q)"
  by (auto simp: fv_def split: node.splits option.splits)

lemma canon_Dir:
  assumes "canon p" "p \<noteq> ''/''"
  obtains as b where "list_all plain (as @ [b])" "p = abs_path (as @ [b])" "Dir p = abs_path as"
proof -
  obtain cs where cs: "list_all plain cs" "p = abs_path cs" using assms(1) by (auto simp: canon_def)
  then have "cs \<noteq> []" using assms(2) by (auto simp: abs_path_def)
  then have "cs = butlast cs @ [last cs]" by simp
  then show thesis using that [of "butlast cs" "last cs"] cs Dir_abs_path [of "butlast cs" "last cs"] by simp
qed

lemma tree_ok_set_ent:
  assumes t: "tree_ok w" and c: "canon p" "p \<noteq> ''/''" and d: "lookup w (Dir p) = Some NDir"
    and n: "\<And>i. n = NFile i \<Longrightarrow> i < length (os_inodes w)"
    and old: "lookup w p = Some NDir \<Longrightarrow> n = NDir"
  shows "tree_ok (set_ent p n w)"
proof -
  obtain as b where p: "list_all plain (as @ [b])" "p = abs_path (as @ [b])" "Dir p = abs_path as"
    using canon_Dir [OF c] .
  have parent: "lookup (set_ent p n w) (abs_path as') = Some NDir"
    if "list_all plain (as' @ [b'])" "lookup (set_ent p n w) (abs_path (as' @ [b'])) = Some n'" for as' b' n'
  proof -
    have "lookup w (abs_path as') = Some NDir"
    proof (cases "abs_path (as' @ [b']) = p")
      case True
      then have "as' = as" using p that(1) abs_path_inject [of "as' @ [b']" "as @ [b]"] by simp
      then show ?thesis using d p(3) by simp
    next
      case False
      then have "lookup w (abs_path (as' @ [b'])) = Some n'" using that(2) by simp
      then show ?thesis using tree_okD(4) [OF t that(1)] by blast
    qed
    then show ?thesis using old by auto
  qed
  show ?thesis
    unfolding tree_ok_def
  proof (intro conjI allI impI)
    show "distinct (map fst (os_ents (set_ent p n w)))" by (rule distinct_set_ent [OF tree_okD(1) [OF t]])
    show "canon q" if "lookup (set_ent p n w) q = Some m" for q m
      using that c(1) tree_okD(2) [OF t] by (auto split: if_splits)
    show "i < length (os_inodes (set_ent p n w))" if "lookup (set_ent p n w) q = Some (NFile i)" for q i
      using that n tree_okD(3) [OF t] by (auto split: if_splits)
    show "lookup (set_ent p n w) (abs_path as) = Some NDir"
      if "list_all plain (as @ [b])" "lookup (set_ent p n w) (abs_path (as @ [b])) = Some m" for as b m
      by (rule parent [OF that])
    show "lookup (set_ent p n w) ''/'' \<noteq> Some (NFile i)" for i
      using c(2) tree_okD(5) [OF t] by auto
  qed
qed

lemma tree_ok_del_ent:
  assumes t: "tree_ok w" and leaf: "\<And>as b. list_all plain (as @ [b]) \<Longrightarrow> p = abs_path as \<Longrightarrow> lookup w (abs_path (as @ [b])) = None"
  shows "tree_ok (del_ent p w)"
proof -
  have "lookup (del_ent p w) (abs_path as) = Some NDir"
    if "list_all plain (as @ [b])" "lookup (del_ent p w) (abs_path (as @ [b])) = Some n" for as b n
  proof -
    have "lookup w (abs_path (as @ [b])) = Some n" using that(2) by (simp split: if_splits)
    then have "lookup w (abs_path as) = Some NDir" "abs_path as \<noteq> p"
      using tree_okD(4) [OF t that(1)] leaf [OF that(1)] by auto
    then show ?thesis by simp
  qed
  note parent = this
  have sub: "lookup (del_ent p w) q = Some m \<Longrightarrow> lookup w q = Some m" for q m by (simp split: if_splits)
  show ?thesis
    unfolding tree_ok_def
  proof (intro conjI allI impI)
    show "distinct (map fst (os_ents (del_ent p w)))" by (rule distinct_del_ent [OF tree_okD(1) [OF t]])
    show "canon q" if "lookup (del_ent p w) q = Some m" for q m
      by (rule tree_okD(2) [OF t sub [OF that]])
    show "i < length (os_inodes (del_ent p w))" if "lookup (del_ent p w) q = Some (NFile i)" for q i
      using tree_okD(3) [OF t sub [OF that]] by simp
    show "lookup (del_ent p w) (abs_path as) = Some NDir"
      if "list_all plain (as @ [b])" "lookup (del_ent p w) (abs_path (as @ [b])) = Some m" for as b m
      by (rule parent [OF that])
    show "lookup (del_ent p w) ''/'' \<noteq> Some (NFile i)" for i
      using tree_okD(5) [OF t] by auto
  qed
qed

lemma leaf_file:
  assumes "tree_ok w" "lookup w p = Some (NFile i)" "list_all plain (as @ [b])" "p = abs_path as"
  shows "lookup w (abs_path (as @ [b])) = None"
  using assms tree_okD(4) [OF assms(1,3)] by (cases "lookup w (abs_path (as @ [b]))") auto

lemma leaf_dir:
  assumes "\<not> has_children w p" "list_all plain (as @ [b])" "p = abs_path as"
  shows "lookup w (abs_path (as @ [b])) = None"
proof (rule ccontr)
  assume "\<not> ?thesis"
  then obtain n where "(abs_path (as @ [b]), n) \<in> set (os_ents w)"
    by (auto simp: lookup_def dest: map_of_SomeD)
  moreover have "abs_path (as @ [b]) \<noteq> p" "Dir (abs_path (as @ [b])) = p"
    using assms(2,3) abs_path_inject [of "as @ [b]" as] by auto
  ultimately show False using assms(1) by (force simp: has_children_def list_ex_iff)
qed

subsection \<open>System calls\<close>

lemmas sys_defs = os_Stat_def os_Open_def os_CreateExcl_def os_Link_def os_Rename_def os_Remove_def
  os_MkdirAll_def dir_Sync_def sys_Syncfs_def os_ReadDir_def file_Sync_def file_Close_def

lemma os_Stat_upd:
  assumes "fs_wf w" "os_Stat p w = (r, w')"
  shows "upd w w' {} \<and> os_ents w' = os_ents w \<and> os_inodes w' = os_inodes w \<and>
    (case r of Inr n \<Rightarrow> lookup w p = Some n | Inl e \<Rightarrow> ok_fault e \<or> (lookup w p = None \<and> e = missing_err w p))"
  using assms(2) unfolding os_Stat_def
  by (rule sys_cases [OF assms(1)])
    (auto simp: lookup_def missing_err_def below_file_def split: option.splits)

lemma os_Open_upd:
  assumes "fs_wf w" "os_Open p w = (r, w')"
  shows "upd w w' {} \<and> os_ents w' = os_ents w \<and> os_inodes w' = os_inodes w \<and>
    (case r of
       Inr rd \<Rightarrow> lookup w p \<noteq> None \<and> (rd_err rd = None \<longrightarrow> (\<exists>t. fv w p = Some (rd_data rd, t)))
     | Inl e \<Rightarrow> ok_fault e \<or> (lookup w p = None \<and> e = missing_err w p))"
  using assms(1) assms(2) [unfolded os_Open_def]
proof (cases rule: sys_cases)
  case (run w1)
  then have lk: "lookup w1 = lookup w" by (intro lookup_cong)
  show ?thesis
  proof (cases "lookup w p")
    case None
    then show ?thesis using run lk by (auto simp: missing_err_def below_file_def)
  next
    case (Some n)
    show ?thesis
    proof (cases n)
      case NDir
      then show ?thesis using run lk Some by auto
    next
      case (NFile i)
      obtain f w2 where f: "pop_fault w1 = (f, w2)" by fastforce
      note u = pop_fault_upd [OF upd_wf [OF run(1)] f]
      have "upd w w2 {}" using upd_trans [OF run(1), of w2 "{}"] u by simp
      then show ?thesis using run lk Some NFile f u by (auto simp: fv_def split: option.splits)
    qed
  qed
qed auto

lemma wf_set_ent:
  assumes w: "fs_wf w" and c: "canon p" "p \<noteq> ''/''" and d: "lookup w (Dir p) = Some NDir"
    and n: "\<And>i. n = NFile i \<Longrightarrow> i < length (os_inodes w)"
    and old: "lookup w p = Some NDir \<Longrightarrow> n = NDir" and dn: "n = NDir \<Longrightarrow> okdir (p_root w) p"
  shows "fs_wf (set_ent p n w)"
  using tree_ok_set_ent [OF fs_wfD(1) [OF w] c d n old] fs_wfD(2,3) [OF w] dn
  by (auto simp: fs_wf_def dirs_ok_def)

lemma wf_del_ent:
  assumes w: "fs_wf w" and leaf: "\<And>as b. list_all plain (as @ [b]) \<Longrightarrow> p = abs_path as \<Longrightarrow> lookup w (abs_path (as @ [b])) = None"
  shows "fs_wf (del_ent p w)"
  using tree_ok_del_ent [OF fs_wfD(1) [OF w] leaf] fs_wfD(2,3) [OF w]
  by (auto simp: fs_wf_def dirs_ok_def)

definition owns :: "fs \<Rightarrow> string \<Rightarrow> nat \<Rightarrow> bool" where
  "owns w p i \<longleftrightarrow> lookup w p = Some (NFile i) \<and> (\<forall>q. q \<noteq> p \<longrightarrow> lookup w q \<noteq> Some (NFile i))"

lemma wf_inodes: "fs_wf w \<Longrightarrow> length (os_inodes w) \<le> length ns \<Longrightarrow> fs_wf (w\<lparr>os_inodes := ns\<rparr>)"
proof -
  assume w: "fs_wf w" and l: "length (os_inodes w) \<le> length ns"
  note t = tree_okD [OF fs_wfD(1) [OF w]]
  have "tree_ok (w\<lparr>os_inodes := ns\<rparr>)"
    unfolding tree_ok_def
  proof (intro conjI allI impI)
    show "i < length (os_inodes (w\<lparr>os_inodes := ns\<rparr>))" if "lookup (w\<lparr>os_inodes := ns\<rparr>) p = Some (NFile i)" for p i
      using t(3) [of p i] that l by simp
  qed (use t in simp_all)
  then show ?thesis using w unfolding fs_wf_def dirs_ok_def by simp
qed

lemma os_CreateExcl_upd:
  assumes w: "fs_wf w" and c: "canon p" "p \<noteq> ''/''" and r: "os_CreateExcl p w = (r, w')"
  shows "case r of
      Inr i \<Rightarrow> upd w w' {p} \<and> lookup w p = None \<and> owns w' p i \<and> fv w' p = Some ([], os_now w)
    | Inl e \<Rightarrow> upd w w' {} \<and> fail_ok e"
  using w r [unfolded os_CreateExcl_def]
proof (cases rule: sys_cases)
  case (run w1)
  have lk: "lookup w1 = lookup w" and w1: "fs_wf w1" using lookup_cong [OF run(2)] upd_wf [OF run(1)] by auto
  show ?thesis
  proof (cases "lookup w p \<noteq> None \<or> lookup w (Dir p) \<noteq> Some NDir")
    case True
    then show ?thesis using run lk by (auto simp: Let_def missing_err_def split: if_splits)
  next
    case False
    define i where "i = length (os_inodes w1)"
    define w2 where "w2 = w1\<lparr>os_inodes := os_inodes w1 @ [\<lparr>in_data = [], in_mtime = os_now w1, in_synced = False\<rparr>]\<rparr>"
    have w': "r = Inr i" "w' = set_ent p (NFile i) w2"
      using run(5) False lk by (auto simp: Let_def i_def w2_def)
    have l2: "lookup w2 = lookup w" "length (os_inodes w2) = Suc i" "fs_wf w2"
      using wf_inodes [OF w1] lk by (simp_all add: w2_def run i_def)
    have old: "lookup w q \<noteq> Some (NFile i)" for q
      using tree_okD(3) [OF fs_wfD(1) [OF w1], of q i] lk by (auto simp: i_def)
    have fvq: "q \<noteq> p \<Longrightarrow> fv w' q = fv w q" for q
      using tree_okD(3) [OF fs_wfD(1) [OF w1], of q] lk run(3) unfolding w' fv_set_ent
      by (auto simp: fv_def w2_def nth_append split: option.splits node.splits)
    have "fs_wf w'" unfolding w' by (rule wf_set_ent [OF l2(3) c]) (use False l2 in auto)
    then have "upd w w' {p}" using fvq run(1) by (auto simp: upd_def w' w2_def)
    moreover have "owns w' p i" using old by (simp add: owns_def w' l2)
    moreover have "fv w' p = Some ([], os_now w)" by (simp add: w' fv_set_ent w2_def i_def run(4))
    ultimately show ?thesis using False w'(1) by simp
  qed
qed auto

lemma set_data_upd:
  assumes w: "fs_wf w" and o: "owns w p i"
  shows "upd w (set_data i b w) {p} \<and> owns (set_data i b w) p i \<and> os_ents (set_data i b w) = os_ents w \<and>
    (\<forall>t x. fv w p = Some (x, t) \<longrightarrow> fv (set_data i b w) p = Some (b, t))"
proof -
  have i: "i < length (os_inodes w)" using o tree_okD(3) [OF fs_wfD(1) [OF w]] by (auto simp: owns_def)
  have lk: "lookup (set_data i b w) = lookup w" by (rule lookup_cong) (simp add: set_data_def)
  have "fs_wf (set_data i b w)" unfolding set_data_def by (rule wf_inodes [OF w]) simp
  moreover have "q \<noteq> p \<Longrightarrow> fv (set_data i b w) q = fv w q" for q
    using o unfolding fv_def lk by (auto simp: owns_def set_data_def nth_list_update split: option.splits node.splits)
  moreover have "fv w p = Some (x, t) \<Longrightarrow> fv (set_data i b w) p = Some (b, t)" for x t
    using o i unfolding fv_def lk by (auto simp: owns_def set_data_def)
  ultimately show ?thesis using o unfolding upd_def owns_def lk by (simp add: set_data_def)
qed

lemma upd_owns_fv:
  assumes "upd w w' S" "os_ents w' = os_ents w" "owns w p i"
  shows "owns w' p i"
  using assms lookup_cong [OF assms(2)] by (simp add: owns_def)

lemma file_Copy_upd:
  assumes w: "fs_wf w" and o: "owns w p i" and fv: "fv w p = Some (x, t)" and r: "file_Copy i rd w = (r, w')"
  shows "upd w w' {p} \<and> owns w' p i \<and>
    (case r of Inr n \<Rightarrow> rd_err rd = None \<and> n = length (rd_data rd) \<and> fv w' p = Some (rd_data rd, t)
     | Inl e \<Rightarrow> ok_fault e \<or> rd_err rd = Some e)"
proof -
  obtain f w1 where f: "pop_fault w = (f, w1)" by fastforce
  note u = pop_fault_upd [OF w f]
  have o1: "owns w1 p i" and fv1: "fv w1 p = Some (x, t)" and w1: "fs_wf w1"
    using u o fv upd_empty [of w w1] lookup_cong [of w1 w] upd_wf [of w w1 "{}"] by (auto simp: owns_def)
  note sd = set_data_upd [OF w1 o1]
  have t: "upd w (set_data i b w1) {p}" for b using upd_trans [of w w1 "{}" _ "{p}" "{p}"] u sd by auto
  show ?thesis
  proof (cases f)
    case None
    then show ?thesis using r f t sd fv1 by (auto simp: file_Copy_def split: option.splits)
  next
    case (Some a)
    then show ?thesis using r f t sd fv1 u by (cases a) (auto simp: file_Copy_def)
  qed
qed

lemma file_Close_upd:
  assumes "fs_wf w" "file_Close i w = (r, w')"
  shows "upd w w' {} \<and> os_ents w' = os_ents w \<and> (\<forall>e. r = Inl e \<longrightarrow> ok_fault e)"
  using assms(1) assms(2) [unfolded file_Close_def] by (cases rule: sys_cases) auto

lemma file_Sync_upd:
  assumes "fs_wf w" "file_Sync i w = (r, w')"
  shows "upd w w' {} \<and> os_ents w' = os_ents w \<and> (\<forall>e. r = Inl e \<longrightarrow> ok_fault e)"
  using assms(1) assms(2) [unfolded file_Sync_def]
proof (cases rule: sys_cases)
  case (run w1)
  define w2 where "w2 = w1\<lparr>os_inodes := (os_inodes w1)[i := (os_inodes w1 ! i)\<lparr>in_synced := True\<rparr>]\<rparr>"
  have "fs_wf w2" using wf_inodes [OF upd_wf [OF run(1)]] by (simp add: w2_def)
  moreover have "fv w2 = fv w1"
  proof (rule ext)
    fix p
    show "fv w2 p = fv w1 p"
      by (cases "i < length (os_inodes w1)")
        (auto simp: fv_def lookup_def w2_def nth_list_update list_update_beyond split: option.splits node.splits)
  qed
  ultimately have "upd w w2 {}" using run(1) by (simp add: upd_def w2_def)
  then show ?thesis using run by (auto simp: w2_def)
qed auto

lemma os_Link_upd:
  assumes w: "fs_wf w" and c: "canon dst" "dst \<noteq> ''/''" and r: "os_Link src dst w = (r, w')"
  shows "case r of
      Inr _ \<Rightarrow> fv w src \<noteq> None \<and> lookup w dst = None \<and> upd w w' {dst} \<and> fv w' dst = fv w src
    | Inl e \<Rightarrow> upd w w' {} \<and> os_ents w' = os_ents w \<and>
        (ok_fault e \<or> (e = SysErr EEXIST \<and> lookup w dst \<noteq> None) \<or>
         (e = missing_err w src \<and> lookup w src = None) \<or> (e = missing_err w dst \<and> lookup w dst = None) \<or>
         (e = SysErr EACCES \<and> lookup w src = Some NDir))"
  using w r [unfolded os_Link_def]
proof (cases rule: sys_cases)
  case (run w1)
  have lk: "lookup w1 = lookup w" and w1: "fs_wf w1" using lookup_cong [OF run(2)] upd_wf [OF run(1)] by auto
  have me: "missing_err w1 = missing_err w" by (rule ext) (simp add: missing_err_def below_file_def run)
  show ?thesis
  proof (cases "\<exists>i. lookup w src = Some (NFile i) \<and> lookup w dst = None \<and> lookup w (Dir dst) = Some NDir")
    case True
    then obtain i where i: "lookup w src = Some (NFile i)" "lookup w dst = None" "lookup w (Dir dst) = Some NDir" by blast
    have w': "w' = set_ent dst (NFile i) w1" "\<exists>u. r = Inr u" using run(5) i lk by auto
    have "fs_wf w'" unfolding w' by (rule wf_set_ent [OF w1 c])
      (use i lk tree_okD(3) [OF fs_wfD(1) [OF w1], of src i] in auto)
    moreover have "fv w1 = fv w" by (rule upd_empty [OF run(1)])
    moreover have "fv w' dst = fv w src" by (simp add: w' fv_set_ent) (simp add: fv_def i run(3))
    moreover have "fv w src \<noteq> None" by (simp add: fv_def i)
    ultimately show ?thesis using w'(2) i run(1) by (auto simp: upd_def w' fv_set_ent)
  next
    case False
    then show ?thesis using run lk me by (auto split: option.splits node.splits if_splits)
  qed
qed auto

lemma os_Rename_upd:
  assumes w: "fs_wf w" and c: "canon dst" "dst \<noteq> ''/''" and o: "owns w src i" and ne: "src \<noteq> dst"
    and r: "os_Rename src dst w = (r, w')"
  shows "case r of Inr _ \<Rightarrow> upd w w' {src, dst} \<and> fv w' dst = fv w src | Inl e \<Rightarrow> upd w w' {} \<and> fail_ok e"
  using w r [unfolded os_Rename_def]
proof (cases rule: sys_cases)
  case (run w1)
  have lk: "lookup w1 = lookup w" and w1: "fs_wf w1" using lookup_cong [OF run(2)] upd_wf [OF run(1)] by auto
  have src: "lookup w src = Some (NFile i)" "lookup w dst \<noteq> Some (NFile i)" using o ne by (auto simp: owns_def)
  show ?thesis
  proof (cases "lookup w (Dir dst) = Some NDir \<and> lookup w dst \<noteq> Some NDir")
    case True
    have w': "w' = set_ent dst (NFile i) (del_ent src w1)" "\<exists>u. r = Inr u" using run(5) True src lk by auto
    have d1: "fs_wf (del_ent src w1)"
      by (rule wf_del_ent [OF w1]) (rule leaf_file [OF fs_wfD(1) [OF w1]], use src lk in auto)
    have "Dir dst \<noteq> src" using True src by auto
    then have "fs_wf w'" unfolding w' by (intro wf_set_ent [OF d1 c])
      (use True src lk tree_okD(3) [OF fs_wfD(1) [OF w1], of src i] in \<open>auto split: if_splits\<close>)
    moreover have "fv w1 = fv w" by (rule upd_empty [OF run(1)])
    moreover have "fv w' dst = fv w src" by (simp add: w' fv_set_ent) (simp add: fv_def src run(3))
    ultimately show ?thesis using w'(2) run(1) by (auto simp: upd_def w' fv_set_ent fv_del_ent)
  next
    case False
    then show ?thesis using run lk src by (auto simp: missing_err_def split: option.splits if_splits)
  qed
qed auto

lemma os_Remove_upd:
  assumes w: "fs_wf w" and r: "os_Remove p w = (r, w')"
  shows "case r of
      Inr _ \<Rightarrow> upd w w' {p} \<and> fv w' p = None \<and> lookup w p \<noteq> None
    | Inl e \<Rightarrow> upd w w' {} \<and> (ok_fault e \<or> e = SysErr ENOTEMPTY \<or> (lookup w p = None \<and> e = missing_err w p))"
  using w r [unfolded os_Remove_def]
proof (cases rule: sys_cases)
  case (run w1)
  have lk: "lookup w1 = lookup w" and w1: "fs_wf w1" using lookup_cong [OF run(2)] upd_wf [OF run(1)] by auto
  have me: "missing_err w1 = missing_err w" by (rule ext) (simp add: missing_err_def below_file_def run)
  have del: "upd w (del_ent p w1) {p} \<and> fv (del_ent p w1) p = None"
    if "\<And>as b. list_all plain (as @ [b]) \<Longrightarrow> p = abs_path as \<Longrightarrow> lookup w1 (abs_path (as @ [b])) = None"
  proof -
    have "fs_wf (del_ent p w1)" by (rule wf_del_ent [OF w1 that])
    then show ?thesis using run(1) by (auto simp: upd_def fv_del_ent)
  qed
  show ?thesis
  proof (cases "lookup w p")
    case None
    then show ?thesis using run lk me by auto
  next
    case (Some n)
    show ?thesis
    proof (cases n)
      case NDir
      have "\<not> has_children w1 p \<Longrightarrow> upd w (del_ent p w1) {p} \<and> fv (del_ent p w1) p = None"
        by (rule del) (rule leaf_dir, assumption+)
      then show ?thesis using run lk Some NDir by (auto split: if_splits)
    next
      case (NFile i)
      then have "lookup w1 p = Some (NFile i)" using lk Some by simp
      then have "upd w (del_ent p w1) {p} \<and> fv (del_ent p w1) p = None"
        by (intro del) (rule leaf_file [OF fs_wfD(1) [OF w1]])
      then show ?thesis using run lk Some NFile by auto
    qed
  qed
qed auto

lemma drop_Remove_upd: "fs_wf w \<Longrightarrow> upd w (drop_Remove p w) {p}"
  using os_Remove_upd [of w p "fst (os_Remove p w)" "snd (os_Remove p w)"] upd_mono
  by (auto simp: drop_Remove_def split: sum.splits)

lemma drop_Close_upd: "fs_wf w \<Longrightarrow> upd w (drop_Close i w) {}"
  using file_Close_upd [of w i "fst (file_Close i w)"] by (simp add: drop_Close_def)

lemma dir_Sync_upd:
  assumes "fs_wf w" "dir_Sync d w = (r, w')"
  shows "upd w w' {} \<and> os_ents w' = os_ents w \<and> (\<forall>e. r = Inl e \<longrightarrow> ok_fault e)"
  using assms(1) assms(2) [unfolded dir_Sync_def]
proof (cases rule: sys_cases)
  case (run w1)
  define w2 where "w2 = w1\<lparr>os_disk := fold (flush_entry w1) (filter (\<lambda>p. Dir p = d) (map fst (os_journal w1))) (os_disk w1),
                os_journal := filter (\<lambda>(p, n). Dir p \<noteq> d) (os_journal w1)\<rparr>"
  have "fs_wf w2 \<and> fv w2 = fv w1"
    using upd_wf [OF run(1)] tree_ok_cong [of w2 w1] fv_cong [of w2 w1] by (auto simp: w2_def fs_wf_def dirs_ok_def)
  then have "upd w w2 {}" using run(1) by (simp add: upd_def w2_def)
  then show ?thesis using run by (auto simp: w2_def)
qed auto

lemma sys_Syncfs_upd:
  assumes "fs_wf w" "sys_Syncfs w = (r, w')"
  shows "upd w w' {} \<and> (\<forall>e. r = Inl e \<longrightarrow> ok_fault e)"
  using assms(1) assms(2) [unfolded sys_Syncfs_def]
proof (cases rule: sys_cases)
  case (run w1)
  define w2 where "w2 = w1\<lparr>os_inodes := map (\<lambda>n. n\<lparr>in_synced := True\<rparr>) (os_inodes w1),
                os_disk := os_ents w1, os_journal := []\<rparr>"
  note w1 = upd_wf [OF run(1)]
  have "fs_wf w2"
    using w1 tree_ok_cong [of w2 w1] by (auto simp: w2_def fs_wf_def dirs_ok_def)
  moreover have "fv w2 p = fv w1 p" for p
    using tree_okD(3) [OF fs_wfD(1) [OF w1], of p] by (auto simp: fv_def w2_def split: option.splits node.splits)
  ultimately have "upd w w2 {}" using run(1) by (auto simp: upd_def w2_def)
  then show ?thesis using run by (auto simp: w2_def)
qed auto

subsection \<open>Directories\<close>

lemma up_chain_abs: "list_all plain cs \<Longrightarrow> rev (up_chain (abs_path cs)) = map (\<lambda>n. abs_path (take n cs)) [0..<Suc (length cs)]"
proof -
  assume p: "list_all plain cs"
  have "filter (\<lambda>c. c \<noteq> []) (Split CHR ''/'' (abs_path cs)) = cs"
  proof (cases "cs = []")
    case False
    moreover have "filter (\<lambda>c. c \<noteq> []) cs = cs" using p by (auto simp: list_all_iff plain_def filter_id_conv)
    ultimately show ?thesis using Split_Join [OF False plain_no_slash [OF p]] by (simp add: abs_path_def)
  qed (simp add: abs_path_def)
  then show ?thesis by (simp add: up_chain_def rev_map del: upt_Suc)
qed

lemma wf_set_dir:
  assumes w: "fs_wf w" and cs: "list_all plain cs" "cs \<noteq> [] \<Longrightarrow> lookup w (abs_path (butlast cs)) = Some NDir"
    and n: "lookup w (abs_path cs) = None" and ok: "okdir (p_root w) (abs_path cs)"
  shows "fs_wf (set_ent (abs_path cs) NDir w)"
proof (cases "cs = []")
  case True
  have t: "tree_ok w" by (rule fs_wfD [OF w])
  have ne: "list_all plain (as @ [b]) \<Longrightarrow> abs_path (as @ [b]) \<noteq> abs_path cs" for as b
    using True cs(1) abs_path_inject [of "as @ [b]" cs] by auto
  have "tree_ok (set_ent (abs_path cs) NDir w)"
    unfolding tree_ok_def
  proof (intro conjI allI impI)
    show "distinct (map fst (os_ents (set_ent (abs_path cs) NDir w)))" by (rule distinct_set_ent [OF tree_okD(1) [OF t]])
    show "canon q" if "lookup (set_ent (abs_path cs) NDir w) q = Some m" for q m
      using that cs(1) tree_okD(2) [OF t] by (auto simp: canon_def split: if_splits)
    show "i < length (os_inodes (set_ent (abs_path cs) NDir w))" if "lookup (set_ent (abs_path cs) NDir w) q = Some (NFile i)" for q i
      using that tree_okD(3) [OF t] by (auto split: if_splits)
    show "lookup (set_ent (abs_path cs) NDir w) (abs_path as) = Some NDir"
      if "list_all plain (as @ [b])" "lookup (set_ent (abs_path cs) NDir w) (abs_path (as @ [b])) = Some m" for as b m
      using that(2) ne [OF that(1)] tree_okD(4) [OF t that(1)] by auto
    show "lookup (set_ent (abs_path cs) NDir w) ''/'' \<noteq> Some (NFile i)" for i
      using tree_okD(5) [OF t] by auto
  qed
  then show ?thesis using fs_wfD(2,3) [OF w] ok by (auto simp: fs_wf_def dirs_ok_def)
next
  case False
  then have cs': "cs = butlast cs @ [last cs]" by simp
  have "Dir (abs_path cs) = abs_path (butlast cs)" using Dir_abs_path [of "butlast cs" "last cs"] cs(1) cs' by simp
  moreover have "abs_path cs \<noteq> ''/''" using Join_ne [OF False cs(1)] by (simp add: abs_path_def)
  ultimately show ?thesis using w cs n ok False by (intro wf_set_ent) (auto simp: canon_def)
qed

lemma okdir_take:
  assumes "okdir root (abs_path cs)" "list_all plain cs"
  shows "okdir root (abs_path (take n cs))"
  unfolding okdir_def
proof (intro conjI allI impI)
  show "canon (abs_path (take n cs))" using assms(2) by (auto simp: canon_def list_all_iff dest: in_set_takeD)
  fix rs ds assume r: "root = abs_path rs" "abs_path (take n cs) = abs_path (rs @ ds)" "list_all plain (rs @ ds)"
  have pt: "list_all plain (take n cs)" using assms(2) by (auto simp: list_all_iff dest: in_set_takeD)
  then have "take n cs = rs @ ds" using r(2,3) abs_path_inject by blast
  then have "cs = rs @ ds @ drop n cs" by (metis append_take_drop_id append.assoc)
  then have "list_all (\<lambda>c. \<not> okname c) (ds @ drop n cs)"
    using assms r(1) unfolding okdir_def by metis
  then show "list_all (\<lambda>c. \<not> okname c) ds" by simp
qed

lemma mkdir_fold:
  assumes w: "fs_wf w" and cs: "list_all plain cs" and ok: "okdir (p_root w) (abs_path cs)"
    and nf: "\<And>m i. m \<le> length cs \<Longrightarrow> lookup w (abs_path (take m cs)) \<noteq> Some (NFile i)"
  shows "n \<le> Suc (length cs) \<Longrightarrow>
    (let w' = fold (\<lambda>p w. if lookup w p = None then set_ent p NDir w else w) (map (\<lambda>n. abs_path (take n cs)) [0..<n]) w
     in upd w w' {} \<and> (\<forall>m < n. lookup w' (abs_path (take m cs)) = Some NDir) \<and>
        (\<forall>q i. lookup w' q = Some (NFile i) \<longleftrightarrow> lookup w q = Some (NFile i)))"
proof (induction n)
  case 0
  then show ?case using w by simp
next
  case (Suc n)
  define w1 where "w1 = fold (\<lambda>p w. if lookup w p = None then set_ent p NDir w else w) (map (\<lambda>n. abs_path (take n cs)) [0..<n]) w"
  have IH: "upd w w1 {}" "\<And>m. m < n \<Longrightarrow> lookup w1 (abs_path (take m cs)) = Some NDir"
    "\<And>q i. lookup w1 q = Some (NFile i) \<longleftrightarrow> lookup w q = Some (NFile i)"
    using Suc by (auto simp: w1_def Let_def)
  let ?p = "abs_path (take n cs)"
  have pt: "list_all plain (take n cs)" using cs by (auto simp: list_all_iff dest: in_set_takeD)
  have step: "fold (\<lambda>p w. if lookup w p = None then set_ent p NDir w else w) (map (\<lambda>n. abs_path (take n cs)) [0..<Suc n]) w =
      (if lookup w1 ?p = None then set_ent ?p NDir w1 else w1)"
    by (simp add: w1_def)
  show ?case
  proof (cases "lookup w1 ?p = None")
    case True
    have "fs_wf (set_ent ?p NDir w1)"
    proof (rule wf_set_dir [OF upd_wf [OF IH(1)] pt _ True])
      assume "take n cs \<noteq> []"
      then have "n \<noteq> 0" by auto
      then have "butlast (take n cs) = take (n - 1) cs" "n - 1 < n" using Suc(2) by (auto simp: butlast_take)
      then show "lookup w1 (abs_path (butlast (take n cs))) = Some NDir" using IH(2) by simp
    qed (use okdir_take [OF ok cs] IH(1) in \<open>simp add: upd_def\<close>)
    moreover have "fv w1 ?p = None" using True by (simp add: fv_def)
    ultimately have "upd w (set_ent ?p NDir w1) {}" using IH(1) by (auto simp: upd_def fv_set_ent)
    then show ?thesis unfolding step Let_def using True IH(2,3) nf [of n] Suc(2) by (auto simp: less_Suc_eq)
  next
    case False
    then have "lookup w1 ?p = Some NDir" using nf [of n] IH(3) Suc(2) by (cases "the (lookup w1 ?p)") auto
    then show ?thesis unfolding step Let_def using False IH by (auto simp: less_Suc_eq)
  qed
qed

lemma os_MkdirAll_upd:
  assumes w: "fs_wf w" and ok: "okdir (p_root w) d" and r: "os_MkdirAll d w = (r, w')"
  shows "upd w w' {} \<and> (case r of Inr _ \<Rightarrow> lookup w' d = Some NDir | Inl e \<Rightarrow> fail_ok e)"
  using w r [unfolded os_MkdirAll_def]
proof (cases rule: sys_cases)
  case (run w1)
  have lk: "lookup w1 = lookup w" and w1: "fs_wf w1" using lookup_cong [OF run(2)] upd_wf [OF run(1)] by auto
  obtain cs where cs: "list_all plain cs" "d = abs_path cs" using ok by (auto simp: okdir_def canon_def)
  have root: "p_root w1 = p_root w" using run(1) by (simp add: upd_def)
  show ?thesis
  proof (cases "below_file w1 d \<or> (lookup w1 d \<noteq> None \<and> lookup w1 d \<noteq> Some NDir)")
    case False
    have nf: "lookup w1 (abs_path (take m cs)) \<noteq> Some (NFile i)" if m: "m \<le> length cs" for m i
    proof
      assume f: "lookup w1 (abs_path (take m cs)) = Some (NFile i)"
      then have "m \<noteq> 0" using tree_okD(5) [OF fs_wfD(1) [OF w1]] by (cases m) (auto simp: abs_path_def)
      moreover have "m \<noteq> length cs" using f False cs(2) by auto
      ultimately have "take m cs \<noteq> []" "drop m cs \<noteq> []" using m by auto
      then have "d = abs_path (take m cs) @ ''/'' @ Join CHR ''/'' (drop m cs)"
        using abs_path_append [of "take m cs" "drop m cs"] cs(2) by simp
      then have "HasPrefix d (abs_path (take m cs) @ ''/'')" by (metis HasPrefix_append append.assoc)
      moreover have "(abs_path (take m cs), NFile i) \<in> set (os_ents w1)" using f by (auto simp: lookup_def dest: map_of_SomeD)
      ultimately show False using False by (force simp: below_file_def list_ex_iff)
    qed
    have w': "w' = fold (\<lambda>p w. if lookup w p = None then set_ent p NDir w else w)
        (map (\<lambda>n. abs_path (take n cs)) [0..<Suc (length cs)]) w1"
      using run(5) False by (auto simp: cs(2) up_chain_abs [OF cs(1)] simp del: upt_Suc)
    have "upd w1 w' {} \<and> lookup w' (abs_path (take (length cs) cs)) = Some NDir"
    proof -
      have ok': "okdir (p_root w1) (abs_path cs)" using ok root cs(2) by simp
      have "\<And>m i. m \<le> length cs \<Longrightarrow> lookup w1 (abs_path (take m cs)) \<noteq> Some (NFile i)" by (rule nf)
      from mkdir_fold [OF w1 cs(1) ok' this le_refl] show ?thesis unfolding w' Let_def by blast
    qed
    moreover have "\<not> isl r" using run(5) False by auto
    ultimately show ?thesis using upd_trans [OF run(1), of w' "{}" "{}"] cs(2) by (cases r) auto
  qed (use run in auto)
qed auto

lemma syncDir_upd:
  assumes w: "fs_wf w" and r: "syncDir d w = (r, w')"
  shows "upd w w' {} \<and> os_ents w' = os_ents w \<and>
    (\<forall>e. r = Some e \<longrightarrow> \<not> is_sys e EEXIST \<and> \<not> is_sys e ENOENT \<and> fail_ok e)"
proof -
  obtain r1 w1 where o: "os_Open d w = (r1, w1)" by fastforce
  note u1 = os_Open_upd [OF w o]
  show ?thesis
  proof (cases r1)
    case (Inl e)
    then show ?thesis using r o u1
      by (auto simp: syncDir_def ok_fault_def missing_err_def split: if_splits)
  next
    case (Inr f)
    obtain r2 w2 where d: "dir_Sync d w1 = (r2, w2)" by fastforce
    note u2 = dir_Sync_upd [OF upd_wf [of w w1 "{}"] d]
    have "upd w w2 {}" using upd_trans [of w w1 "{}" w2 "{}" "{}"] u1 u2 by simp
    then show ?thesis using r o Inr d u1 u2 by (cases r2) (auto simp: syncDir_def ok_fault_def)
  qed
qed

lemma missing_dirs_upd:
  assumes "fs_wf w" "missing_dirs ds w = (r, w')"
  shows "upd w w' {} \<and> (\<forall>e. r = Inl e \<longrightarrow> fail_ok e)"
  using assms
proof (induction ds arbitrary: w r w')
  case (Cons d ds)
  obtain r1 w1 where st: "os_Stat d w = (r1, w1)" by fastforce
  note u1 = os_Stat_upd [OF Cons(2) st]
  obtain r2 w2 where md: "missing_dirs ds w1 = (r2, w2)" by fastforce
  have "upd w w2 {} \<and> (\<forall>e. r2 = Inl e \<longrightarrow> fail_ok e)"
    using Cons(1) [OF upd_wf [of w w1 "{}"] md] u1 upd_trans [of w w1 "{}" w2 "{}" "{}"] by simp
  then show ?case using Cons(3) st md u1 by (auto simp: missing_err_def split: sum.splits if_splits)
qed auto

lemma sync_parents_upd:
  assumes "fs_wf w" "sync_parents ms w = (r, w')"
  shows "upd w w' {} \<and> os_ents w' = os_ents w \<and>
    (\<forall>e. r = Some e \<longrightarrow> \<not> is_sys e EEXIST \<and> \<not> is_sys e ENOENT \<and> fail_ok e)"
  using assms
proof (induction ms arbitrary: w r w')
  case (Cons m ms)
  obtain r1 w1 where st: "syncDir (Dir m) w = (r1, w1)" by fastforce
  note u1 = syncDir_upd [OF Cons(2) st]
  show ?case
  proof (cases r1)
    case None
    then have sp: "sync_parents ms w1 = (r, w')" using Cons(3) st by simp
    from Cons(1) [OF upd_wf [of w w1 "{}"] sp] u1 upd_trans [of w w1 "{}" w' "{}" "{}"] show ?thesis by simp
  qed (use Cons(3) st u1 in auto)
qed simp

lemma mkdirAllDurable_upd:
  assumes w: "fs_wf w" and ok: "okdir (p_root w) d" and r: "mkdirAllDurable d w = (r, w')"
  shows "upd w w' {} \<and> (case r of None \<Rightarrow> lookup w' d = Some NDir | Some e \<Rightarrow> fail_ok e)"
proof -
  obtain r1 w1 where st: "os_Stat d w = (r1, w1)" by fastforce
  note u1 = os_Stat_upd [OF w st]
  have w1: "upd w w1 {}" "fs_wf w1" using u1 by (auto simp: upd_def)
  obtain r2 w2 where md: "missing_dirs (up_chain d) w1 = (r2, w2)" by fastforce
  note u2 = missing_dirs_upd [OF w1(2) md]
  have w2: "upd w w2 {}" "fs_wf w2" using upd_trans [OF w1(1), of w2 "{}" "{}"] u2 by (auto simp: upd_def)
  obtain r3 w3 where mk: "os_MkdirAll d w2 = (r3, w3)" by fastforce
  have "okdir (p_root w2) d" using ok w2 by (simp add: upd_def)
  note u3 = os_MkdirAll_upd [OF w2(2) this mk]
  have w3: "upd w w3 {}" "fs_wf w3" using upd_trans [OF w2(1), of w3 "{}"] u3 by (auto simp: upd_def)
  obtain r4 w4 where sp: "sync_parents (rev (projr r2)) w3 = (r4, w4)" by fastforce
  note u4 = sync_parents_upd [OF w3(2) sp]
  have w4: "upd w w4 {}" using upd_trans [OF w3(1), of w4 "{}"] u4 by auto
  have lk: "lookup w1 = lookup w" "lookup w4 = lookup w3" using u1 u4 lookup_cong [of w1 w] lookup_cong [of w4 w3] by auto
  show ?thesis
    using r st md mk sp w1 w2 w3 w4 u1 u2 u3 u4 lk
    by (auto simp: mkdirAllDurable_def split: sum.splits if_splits option.splits)
qed

lemma mkdirAllRetry_upd:
  assumes w: "fs_wf w" and ok: "okdir (p_root w) d" and r: "mkdirAllRetry d w = (r, w')"
  shows "upd w w' {} \<and> (case r of None \<Rightarrow> lookup w' d = Some NDir | Some e \<Rightarrow> fail_ok e)"
proof -
  have "fs_wf w \<Longrightarrow> okdir (p_root w) d \<Longrightarrow> mkdir_retry n e d w = (r, w') \<Longrightarrow>
      (case e of None \<Rightarrow> 0 < n | Some x \<Rightarrow> fail_ok x) \<Longrightarrow>
      upd w w' {} \<and> (case r of None \<Rightarrow> lookup w' d = Some NDir | Some e \<Rightarrow> fail_ok e)" for n e w
  proof (induction n arbitrary: e w)
    case (Suc n)
    obtain r1 w1 where m: "mkdirAllDurable d w = (r1, w1)" by fastforce
    note u1 = mkdirAllDurable_upd [OF Suc(2,3) m]
    show ?case
    proof (cases "\<exists>e. r1 = Some e \<and> (is_sys e EEXIST \<or> is_sys e ENOENT)")
      case True
      then obtain e1 where e1: "r1 = Some e1" "mkdir_retry n (Some e1) d w1 = (r, w')" using Suc(4) m by auto
      have "upd w1 w' {} \<and> (case r of None \<Rightarrow> lookup w' d = Some NDir | Some e \<Rightarrow> fail_ok e)"
        using Suc(1) [OF _ _ e1(2)] u1 Suc(3) e1(1) by (simp add: upd_def)
      then show ?thesis using u1 upd_trans [of w w1 "{}" w' "{}" "{}"] by simp
    next
      case False
      then show ?thesis using Suc(4) m u1 by (auto split: option.splits)
    qed
  qed (auto split: option.splits)
  from this [OF w ok r [unfolded mkdirAllRetry_def]] show ?thesis by (simp add: pruneRaceRetries_def)
qed

definition created :: "fs \<Rightarrow> fs \<Rightarrow> string \<Rightarrow> error + nat \<Rightarrow> bool" where
  "created w w' p r \<longleftrightarrow>
     (case r of
        Inr i \<Rightarrow> upd w w' {p} \<and> fv w p = None \<and> owns w' p i \<and> (\<exists>t. fv w' p = Some ([], t))
      | Inl e \<Rightarrow> upd w w' {} \<and> fail_ok e)"

lemma created_trans:
  assumes "upd w w1 {}" "created w1 w' p r"
  shows "created w w' p r"
proof -
  have "upd w1 w' S \<Longrightarrow> upd w w' S" for S using upd_trans [OF assms(1), of w' S S] by simp
  then show ?thesis using assms(2) upd_empty [OF assms(1)] by (cases r) (auto simp: created_def)
qed

lemma create_once:
  assumes "fs_wf w" "canon p" "p \<noteq> ''/''" "os_CreateExcl p w = (r, w')"
  shows "created w w' p r"
  using os_CreateExcl_upd [OF assms] fv_None [of w p] by (cases r) (auto simp: created_def)

lemma create_retry_upd:
  assumes "fs_wf w" "canon p" "p \<noteq> ''/''" "okdir (p_root w) (Dir p)" "create_retry n p w = (r, w')"
  shows "created w w' p r"
  using assms
proof (induction n p w arbitrary: r w' rule: create_retry.induct)
  case (1 n p w)
  obtain r1 w1 where o: "os_CreateExcl p w = (r1, w1)" by fastforce
  note u1 = create_once [OF 1(2-4) o]
  note r = 1(6) [unfolded create_retry.simps [of n p w] o]
  show ?case
  proof (cases "\<exists>e m. r1 = Inl e \<and> is_sys e ENOENT \<and> n = Suc m")
    case True
    then obtain e m where e: "r1 = Inl e" "is_sys e ENOENT" "n = Suc m" by blast
    obtain r2 w2 where mk: "mkdirAllRetry (Dir p) w1 = (r2, w2)" by fastforce
    have w1: "upd w w1 {}" "fs_wf w1" "okdir (p_root w1) (Dir p)" using u1 e(1) 1(5) by (auto simp: upd_def created_def)
    have u2: "upd w1 w2 {}" "\<forall>x. r2 = Some x \<longrightarrow> fail_ok x" using mkdirAllRetry_upd [OF w1(2,3) mk] by auto
    have w2: "upd w w2 {}" "fs_wf w2" "okdir (p_root w2) (Dir p)"
      using upd_trans [OF w1(1) u2(1), of "{}"] 1(5) by (auto simp: upd_def)
    show ?thesis
    proof (cases r2)
      case None
      have "create_retry m p w2 = (r, w')" using r e mk None by simp
      from 1(1) [OF o [symmetric] e(1) e(3) _ mk [symmetric] None w2(2) 1(3,4) w2(3) this] e(2)
      show ?thesis using created_trans [OF w2(1)] by simp
    next
      case (Some x)
      then show ?thesis using r e mk w2(1) u2(2) by (auto simp: created_def)
    qed
  next
    case False
    then have "r = r1 \<and> w' = w1" using r by (cases r1; cases n) auto
    then show ?thesis using u1 by simp
  qed
qed

lemma createStaging_upd:
  assumes "fs_wf w" "canon p" "p \<noteq> ''/''" "okdir (p_root w) (Dir p)" "createStaging p w = (r, w')"
  shows "created w w' p r"
  using create_retry_upd assms unfolding createStaging_def by blast

end
