(* ===== verification/FsStore.thy ===== *)
theory FsStore
  imports FsFrame
begin

text \<open>
  The operations of the filesystem backend on the object store: keys and paths, the effect of each
  operation on the files of the store, and the interpretation of \<open>runtime_store\<close> on the plugin.
\<close>

subsection \<open>Keys and paths\<close>

definition root_ok :: "fs \<Rightarrow> bool" where
  "root_ok w \<longleftrightarrow> (\<exists>rs. rs \<noteq> [] \<and> list_all plain rs \<and> p_root w = abs_path rs)"

definition path :: "fs \<Rightarrow> string \<Rightarrow> string" where
  "path w k = p_root w @ ''/'' @ k"

definition okkey :: "string \<Rightarrow> bool" where
  "okkey k \<longleftrightarrow> list_all plain (Split CHR ''/'' k) \<and> okname (Basename k) \<and>
     \<not> isFSStagingName (Basename k) \<and> list_all (\<lambda>c. \<not> okname c) (butlast (Split CHR ''/'' k))"

lemma takeWhile_no: "c \<notin> set xs \<Longrightarrow> takeWhile (\<lambda>x. x \<noteq> c) (xs @ ys) = xs @ takeWhile (\<lambda>x. x \<noteq> c) ys"
  by (induction xs) auto

lemma Basename_suffix: "CHR ''/'' \<notin> set s \<Longrightarrow> Basename (k @ s) = Basename k @ s"
  using takeWhile_no [of "CHR ''/''" "rev s"] by (simp add: Basename_def)

lemma Basename_plain: "cs \<noteq> [] \<Longrightarrow> list_all plain cs \<Longrightarrow> Basename (Join CHR ''/'' cs) = last cs"
proof -
  assume cs: "cs \<noteq> []" "list_all plain cs"
  then have "cs = butlast cs @ [last cs]" by simp
  then have e: "Basename (abs_path cs) = last cs" using Basename_Join [of "butlast cs" "last cs"] cs(2) by metis
  have "CHR ''/'' \<notin> set (last cs)" using cs by (auto simp: list_all_iff plain_def)
  show ?thesis
  proof (cases "butlast cs = []")
    case True
    then have "cs = [last cs]" using cs(1) by (metis append_Nil append_butlast_last_id)
    then have "Join CHR ''/'' cs = last cs" by (metis Join.simps(2))
    then show ?thesis using Basename_suffix [OF \<open>CHR ''/'' \<notin> set (last cs)\<close>, of "[]"] by (simp add: Basename_def)
  next
    case False
    have "Join CHR ''/'' cs = Join CHR ''/'' (butlast cs) @ CHR ''/'' # last cs"
      using Join_append [OF False, of "[last cs]"] cs(1) by simp
    then show ?thesis using Basename_no_slash [OF \<open>CHR ''/'' \<notin> set (last cs)\<close>] by simp
  qed
qed

lemma okkey_comps:
  assumes "okkey k"
  obtains ks where "ks \<noteq> []" "list_all plain ks" "k = Join CHR ''/'' ks" "okname (last ks)" "\<not> isFSStagingName (last ks)"
    "list_all (\<lambda>c. \<not> okname c) (butlast ks)"
  using that [of "Split CHR ''/'' k"] assms Basename_plain [of "Split CHR ''/'' k"] Join_Split [of "CHR ''/''" k]
  by (auto simp: okkey_def)

lemma okkeyI:
  assumes "ks \<noteq> []" "list_all plain ks" "okname (last ks)" "\<not> isFSStagingName (last ks)"
    "list_all (\<lambda>c. \<not> okname c) (butlast ks)"
  shows "okkey (Join CHR ''/'' ks)"
  using assms Split_Join [OF assms(1) plain_no_slash [OF assms(2)]] Basename_plain [OF assms(1,2)]
  by (simp add: okkey_def)

lemma plain_suffix: "plain c \<Longrightarrow> CHR ''/'' \<notin> set s \<Longrightarrow> 3 \<le> length s \<Longrightarrow> plain (c @ s)"
  by (auto simp: plain_def dest!: arg_cong [where f = length])

lemma Join_suffix: "ks \<noteq> [] \<Longrightarrow> Join c ks @ s = Join c (butlast ks @ [last ks @ s])"
  by (induction c ks rule: Join.induct) (auto simp: Join_append neq_Nil_conv)

lemma path_staging:
  assumes r: "root_ok w" and k: "okkey k" and s: "CHR ''/'' \<notin> set s" "s = [] \<or> 3 \<le> length s"
  shows "canon (path w k @ s)" "path w k @ s \<noteq> ''/''" "okdir (p_root w) (Dir (path w k @ s))"
proof -
  obtain rs where rs: "rs \<noteq> []" "list_all plain rs" "p_root w = abs_path rs" using r by (auto simp: root_ok_def)
  obtain ks where ks: "ks \<noteq> []" "list_all plain ks" "k = Join CHR ''/'' ks" "list_all (\<lambda>c. \<not> okname c) (butlast ks)"
    using okkey_comps [OF k] by metis
  have pl: "plain (last ks @ s)" using ks(1,2) s plain_suffix [of "last ks" s] by (auto simp: list_all_iff)
  have bl: "list_all plain (butlast ks)" using ks(2) by (auto simp: list_all_iff dest: in_set_butlastD)
  have p: "path w k @ s = abs_path ((rs @ butlast ks) @ [last ks @ s])"
    using abs_path_append [OF rs(1), of "butlast ks @ [last ks @ s]"] Join_suffix [OF ks(1)] ks(3) rs(3)
    by (simp add: path_def)
  have all: "list_all plain ((rs @ butlast ks) @ [last ks @ s])" using rs(2) bl pl by simp
  show "canon (path w k @ s)" unfolding p canon_def using all by blast
  show "path w k @ s \<noteq> ''/''" unfolding p using Join_ne [OF _ all] by (simp add: abs_path_def)
  have d: "Dir (path w k @ s) = abs_path (rs @ butlast ks)" unfolding p by (rule Dir_abs_path [OF all])
  show "okdir (p_root w) (Dir (path w k @ s))"
    unfolding okdir_def d
  proof (intro conjI allI impI)
    show "canon (abs_path (rs @ butlast ks))" unfolding canon_def using rs(2) bl by (intro exI [of _ "rs @ butlast ks"]) simp
    fix rs' cs assume e: "p_root w = abs_path rs'" "abs_path (rs @ butlast ks) = abs_path (rs' @ cs)" "list_all plain (rs' @ cs)"
    then have "rs' = rs" using rs(2,3) abs_path_inject [of rs' rs] by simp
    then have "cs = butlast ks" using e(2,3) rs(2) bl abs_path_inject [of "rs @ butlast ks" "rs @ cs"] by simp
    then show "list_all (\<lambda>c. \<not> okname c) cs" using ks(4) by simp
  qed
qed

lemmas path_ok = path_staging [where s = "[]", simplified]

lemma resolve_okkey:
  assumes r: "root_ok w" and k: "okkey k"
  shows "resolve w k = Inr (path w k)"
proof -
  obtain rs where rs: "rs \<noteq> []" "list_all plain rs" "p_root w = abs_path rs" using r by (auto simp: root_ok_def)
  obtain ks where ks: "ks \<noteq> []" "list_all plain ks" "k = Join CHR ''/'' ks" using okkey_comps [OF k] by metis
  have j: "k \<noteq> []" "hd k \<noteq> CHR ''/''" using Join_ne [OF ks(1,2)] ks(3) by auto
  have "Clean k = k" using ks by simp
  moreover have "k \<noteq> ''.''"
  proof
    assume "k = ''.''"
    then have "Split CHR ''/'' k = [''.'']" by simp
    then show False using Split_Join [OF ks(1) plain_no_slash [OF ks(2)]] ks by (simp add: plain_def)
  qed
  moreover have "\<not> list_ex (\<lambda>seg. seg = ''..'') (Split CHR ''/'' k)"
    using Split_Join [OF ks(1) plain_no_slash [OF ks(2)]] ks(2,3) by (auto simp: list_ex_iff list_all_iff plain_def)
  moreover have "path_Join (p_root w) k = path w k"
    using path_Join_plain [OF rs(1) ks(1) rs(2) ks(2)] rs(3) ks(3) by (simp add: path_def)
  ultimately show ?thesis
    using j rs(3) by (cases k) (auto simp: resolve_def IsAbs_def HasPrefix_def abs_path_def Let_def)
qed

lemma path_inject [simp]: "path w k = path w k' \<longleftrightarrow> k = k'"
  by (simp add: path_def)

subsection \<open>Staging names\<close>

lemma last_dash_inject:
  assumes "a @ ''-'' @ h = b @ ''-'' @ h'" "CHR ''-'' \<notin> set h" "CHR ''-'' \<notin> set h'"
  shows "a = b \<and> h = h'"
proof -
  have tw: "takeWhile (\<lambda>c. c \<noteq> CHR ''-'') (rev (x @ ''-'' @ y)) = rev y" if "CHR ''-'' \<notin> set y" for x y
    using that takeWhile_no [of "CHR ''-''" "rev y" "CHR ''-'' # rev x"] by simp
  have "rev h = rev h'" using tw [OF assms(2), of a] tw [OF assms(3), of b] unfolding assms(1) by simp
  then show ?thesis using assms(1) by simp
qed

lemma staging_inject:
  "a @ ''.deferred-'' @ EncodeToString h = b @ ''.deferred-'' @ EncodeToString h' \<Longrightarrow> a = b \<and> h = h'"
  using last_dash_inject [of "a @ ''.deferred''" "EncodeToString h" "b @ ''.deferred''" "EncodeToString h'"] hex_no by simp

lemma staging_kinds:
  "a @ ''.deferred-'' @ EncodeToString h \<noteq> b @ ''.excl-'' @ EncodeToString h'"
  "a @ ''.deferred-'' @ EncodeToString h \<noteq> b @ ''.hstmp-'' @ EncodeToString h'"
proof -
  have ne: "a @ ''.deferred'' \<noteq> b @ ''.excl''" "a @ ''.deferred'' \<noteq> b @ ''.hstmp''"
    by (auto dest!: arg_cong [where f = rev])
  show "a @ ''.deferred-'' @ EncodeToString h \<noteq> b @ ''.excl-'' @ EncodeToString h'"
    using last_dash_inject [of "a @ ''.deferred''" "EncodeToString h" "b @ ''.excl''" "EncodeToString h'"] hex_no ne(1) by auto
  show "a @ ''.deferred-'' @ EncodeToString h \<noteq> b @ ''.hstmp-'' @ EncodeToString h'"
    using last_dash_inject [of "a @ ''.deferred''" "EncodeToString h" "b @ ''.hstmp''" "EncodeToString h'"] hex_no ne(2) by auto
qed

lemma Contains_iff: "Contains s p \<longleftrightarrow> (\<exists>a b. s = a @ p @ b)"
proof (induction s)
  case (Cons c s)
  show ?case
  proof
    assume "Contains (c # s) p"
    then consider r where "c # s = p @ r" | a b where "s = a @ p @ b" using Cons by (auto simp: HasPrefix_iff)
    then show "\<exists>a b. c # s = a @ p @ b"
    proof cases
      case 1
      then show ?thesis by (intro exI [of _ "[]"] exI [of _ r]) simp
    next
      case (2 a b)
      then show ?thesis by (intro exI [of _ "c # a"] exI [of _ b]) simp
    qed
  next
    assume "\<exists>a b. c # s = a @ p @ b"
    then obtain a b where e: "c # s = a @ p @ b" by blast
    show "Contains (c # s) p"
    proof (cases a)
      case Nil
      then have "HasPrefix (c # s) p" using e by (simp add: HasPrefix_iff)
      then show ?thesis by simp
    next
      case (Cons x xs)
      then show ?thesis using e Cons.IH by auto
    qed
  qed
qed simp

lemma okkey_not_staging:
  assumes "okkey k" "m \<in> {''.excl-'', ''.hstmp-'', ''.deferred-''}"
  shows "path w k \<noteq> path w k' @ m @ EncodeToString h"
proof
  assume "path w k = path w k' @ m @ EncodeToString h"
  then have e: "k = k' @ m @ EncodeToString h" by (simp add: path_def)
  have ns: "CHR ''/'' \<notin> set (m @ EncodeToString h)" using assms(2) hex_no by auto
  have "Basename k = Basename k' @ m @ EncodeToString h"
    unfolding e by (rule Basename_suffix [OF ns])
  then have "Contains (Basename k) m" by (auto simp: Contains_iff)
  then show False using assms by (auto simp: okkey_def isFSStagingName_def)
qed

subsection \<open>Put\<close>

lemma randHex_upd:
  assumes "fs_wf w" "randHex w = (hex, w')"
  shows "upd w w' {} \<and> os_ents w' = os_ents w \<and> hex = EncodeToString (os_rand w (os_drawn w)) \<and>
    os_drawn w' = Suc (os_drawn w)"
proof -
  have w': "w' = w\<lparr>os_drawn := Suc (os_drawn w)\<rparr>" "hex = EncodeToString (os_rand w (os_drawn w))"
    using assms(2) by (auto simp: randHex_def rand_Read_def)
  have "fs_wf w'" "fv w' = fv w"
    using assms(1) tree_ok_cong [of w' w] fv_cong [of w' w] by (auto simp: w' fs_wf_def script_ok_def dirs_ok_def)
  then show ?thesis using w' by (simp add: upd_def)
qed

lemma writeAndVerify_upd:
  assumes w: "fs_wf w" and o: "owns w p i" and fv: "fv w p = Some (x, t)"
    and r: "writeAndVerify sha i (bytes_NewReader b) opts w = (r, w')"
  shows "upd w w' {p} \<and> owns w' p i \<and> (case r of Inr _ \<Rightarrow> fv w' p = Some (b, t) | Inl e \<Rightarrow> fail_ok e)"
proof -
  obtain r1 w1 where c: "file_Copy i (bytes_NewReader b) w = (r1, w1)" by fastforce
  note u = file_Copy_upd [OF w o fv c]
  show ?thesis
  proof (cases r1)
    case (Inl e)
    then show ?thesis using r c u by (auto simp: writeAndVerify_def)
  next
    case (Inr n)
    then have "w' = w1" "\<forall>e. r = Inl e \<longrightarrow> fail_ok e"
      using r c by (auto simp: writeAndVerify_def Let_def split: if_splits)
    then show ?thesis using u Inr by (cases r) auto
  qed
qed

text \<open>The common front of all three kinds of put: create the staging file and write it.\<close>

definition staged :: "fs \<Rightarrow> fs \<Rightarrow> string \<Rightarrow> nat \<Rightarrow> bytes \<Rightarrow> bool" where
  "staged w w' st i b \<longleftrightarrow> upd w w' {st} \<and> fv w st = None \<and> owns w' st i \<and> (\<exists>t. fv w' st = Some (b, t))"

lemma staged_keep: "staged w w1 st i b \<Longrightarrow> upd w1 w' {} \<Longrightarrow> os_ents w' = os_ents w1 \<Longrightarrow> staged w w' st i b"
  using upd_trans [of w w1 "{st}" w' "{}" "{st}"] upd_empty [of w1 w'] lookup_cong [of w' w1]
  by (auto simp: staged_def owns_def)

lemma staged_write:
  assumes w: "fs_wf w" and c: "created w w1 st (Inr i)"
    and r: "writeAndVerify sha i (bytes_NewReader b) opts w1 = (r, w2)"
  shows "case r of Inr _ \<Rightarrow> staged w w2 st i b | Inl e \<Rightarrow> upd w w2 {st} \<and> fail_ok e"
proof -
  obtain t where u1: "upd w w1 {st}" "fv w st = None" "owns w1 st i" "fv w1 st = Some ([], t)"
    using c by (auto simp: created_def)
  note u2 = writeAndVerify_upd [OF upd_wf [OF u1(1)] u1(3,4) r]
  have "upd w w2 {st}" using upd_trans [OF u1(1), of w2 "{st}"] u2 by auto
  then show ?thesis using u1 u2 by (cases r) (auto simp: staged_def)
qed

lemma staged_remove: "staged w w1 st i b \<Longrightarrow> upd w (drop_Remove st w1) {st}"
  using upd_trans [of w w1 "{st}" "drop_Remove st w1" "{st}" "{st}"] drop_Remove_upd [of w1 st] upd_wf [of w w1 "{st}"]
  by (auto simp: staged_def)

lemma upd_remove: "upd w w1 {st} \<Longrightarrow> upd w (drop_Remove st w1) {st}"
  using upd_trans [of w w1 "{st}" "drop_Remove st w1" "{st}" "{st}"] drop_Remove_upd [of w1 st] upd_wf [of w w1 "{st}"]
  by auto

lemma upd_close: "upd w w1 S \<Longrightarrow> upd w (drop_Close i w1) S"
  using upd_trans [of w w1 S "drop_Close i w1" "{}" S] drop_Close_upd [of w1 i] upd_wf [of w w1 S] by auto

text \<open>The effect of a put on the file at \<open>full\<close>: nothing, or the whole body.\<close>

definition put_effect :: "fs \<Rightarrow> fs \<Rightarrow> string \<Rightarrow> string \<Rightarrow> bytes \<Rightarrow> error + PutResult \<Rightarrow> bool \<Rightarrow> bool" where
  "put_effect w w' full st b r excl \<longleftrightarrow> upd w w' {full, st} \<and>
     (case r of
        Inr _ \<Rightarrow> (\<exists>t. fv w' full = Some (b, t)) \<and> (excl \<longrightarrow> fv w full = None)
      | Inl e \<Rightarrow> (fv w' full = fv w full \<or> ((\<exists>t. fv w' full = Some (b, t)) \<and> (excl \<longrightarrow> fv w full = None))) \<and>
          (excl \<longrightarrow> is_err e ErrAlreadyExists \<longrightarrow> fv w full \<noteq> None \<and> fv w' full = fv w full))"

lemma put_effect_fail: "full \<noteq> st \<Longrightarrow> upd w w' {st} \<Longrightarrow> fail_ok e \<Longrightarrow> put_effect w w' full st b (Inl e) excl"
  by (auto simp: put_effect_def fail_ok_def upd_def)

text \<open>An object path is never a directory.\<close>

lemma okkey_not_dir:
  assumes w: "fs_wf w" "root_ok w" and k: "okkey k"
  shows "lookup w (path w k) \<noteq> Some NDir"
proof
  assume d: "lookup w (path w k) = Some NDir"
  obtain rs where rs: "rs \<noteq> []" "list_all plain rs" "p_root w = abs_path rs" using w by (auto simp: root_ok_def)
  obtain ks where ks: "ks \<noteq> []" "list_all plain ks" "k = Join CHR ''/'' ks" "okname (last ks)"
    using okkey_comps [OF k] by metis
  have "path w k = abs_path (rs @ ks)" using abs_path_append [OF rs(1) ks(1)] rs(3) ks(3) by (simp add: path_def)
  moreover have "okdir (p_root w) (path w k)" using d fs_wfD(3) [OF w(1)] by (auto simp: dirs_ok_def)
  ultimately have "list_all (\<lambda>c. \<not> okname c) ks" using rs ks(2) by (auto simp: okdir_def)
  then show False using ks(1,4) by (auto simp: list_all_iff)
qed

text \<open>The path and the staging file of a put that draws the next random name.\<close>

definition put_site :: "fs \<Rightarrow> string \<Rightarrow> string \<Rightarrow> bool" where
  "put_site w k m \<longleftrightarrow> fs_wf w \<and> root_ok w \<and> okkey k \<and> m \<in> {''.excl-'', ''.hstmp-'', ''.deferred-''}"

definition stg :: "fs \<Rightarrow> string \<Rightarrow> string \<Rightarrow> string" where
  "stg w k m = path w k @ m @ EncodeToString (os_rand w (os_drawn w))"

lemma stg_ok:
  assumes "put_site w k m"
  shows "canon (stg w k m)" "stg w k m \<noteq> ''/''" "okdir (p_root w) (Dir (stg w k m))" "path w k \<noteq> stg w k m"
proof -
  have s: "CHR ''/'' \<notin> set (m @ EncodeToString (os_rand w (os_drawn w)))"
    "m @ EncodeToString (os_rand w (os_drawn w)) = [] \<or> 3 \<le> length (m @ EncodeToString (os_rand w (os_drawn w)))"
    using assms hex_no by (auto simp: put_site_def)
  show "canon (stg w k m)" "stg w k m \<noteq> ''/''" "okdir (p_root w) (Dir (stg w k m))"
    using path_staging [OF _ _ s, of w k] assms by (auto simp: put_site_def stg_def)
  show "path w k \<noteq> stg w k m" using assms by (auto simp: put_site_def stg_def)
qed

lemma full_not_dir: "root_ok w \<Longrightarrow> okkey k \<Longrightarrow> upd w w' S \<Longrightarrow> lookup w' (path w k) \<noteq> Some NDir"
  using okkey_not_dir [of w' k] by (auto simp: upd_def root_ok_def path_def)

lemma full_lookup:
  assumes "root_ok w" "okkey k" "upd w w' S" "path w k \<notin> S"
  shows "lookup w' (path w k) = None \<longleftrightarrow> fv w (path w k) = None"
proof -
  have "fv w' (path w k) = fv w (path w k)" using assms(3,4) by (simp add: upd_def)
  then show ?thesis
    using full_not_dir [OF assms(1-3)] by (auto simp: fv_def split: option.splits node.splits)
qed

lemma create_staged:
  assumes ps: "put_site w k m" and r: "randHex w = (hex, w1)" and c: "createStaging (path w k @ m @ hex) w1 = (r, w2)"
  shows "path w k @ m @ hex = stg w k m" "created w w2 (stg w k m) r" "os_drawn w < os_drawn w2"
proof -
  note u = randHex_upd [OF _ r]
  have u1: "upd w w1 {}" "path w k @ m @ hex = stg w k m" using u ps by (auto simp: put_site_def stg_def)
  have c: "created w1 w2 (stg w k m) r"
    using createStaging_upd [of w1 "stg w k m" r w2] u1 stg_ok [OF ps] c by (simp add: upd_def)
  show "path w k @ m @ hex = stg w k m" "created w w2 (stg w k m) r" using created_trans [OF u1(1) c] u1(2) by auto
  show "os_drawn w < os_drawn w2" using u c ps by (auto simp: put_site_def created_def upd_def split: sum.splits)
qed

lemma publish_staged:
  assumes ps: "put_site w k m" and s: "staged w w5 (stg w k m) i b" and l: "os_Link (stg w k m) (path w k) w5 = (r, w6)"
  shows "case r of
      Inr _ \<Rightarrow> fv w (path w k) = None \<and> upd w w6 {path w k, stg w k m} \<and> (\<exists>t. fv w6 (path w k) = Some (b, t))
    | Inl e \<Rightarrow> upd w w6 {stg w k m} \<and> (is_sys e EEXIST \<longrightarrow> fv w (path w k) \<noteq> None) \<and> fail_ok e"
proof -
  have u5: "upd w w5 {stg w k m}" using s by (simp add: staged_def)
  have c: "canon (path w k)" "path w k \<noteq> ''/''" using path_ok ps by (auto simp: put_site_def)
  note u6 = os_Link_upd [OF upd_wf [OF u5] c l]
  have f5: "lookup w5 (path w k) = None \<longleftrightarrow> fv w (path w k) = None"
    using full_lookup [OF _ _ u5, of k] ps stg_ok(4) [OF ps] by (simp add: put_site_def)
  show ?thesis
  proof (cases r)
    case (Inr x)
    then have "upd w w6 {path w k, stg w k m}" using upd_trans [OF u5, of w6 "{path w k}" "{path w k, stg w k m}"] u6 by auto
    then show ?thesis using u6 Inr s f5 by (auto simp: staged_def)
  next
    case (Inl e)
    then have "upd w w6 {stg w k m}" using upd_trans [OF u5, of w6 "{}" "{stg w k m}"] u6 by auto
    moreover have "is_sys e EEXIST \<longrightarrow> fv w (path w k) \<noteq> None"
      using u6 Inl f5 by (auto simp: ok_fault_def missing_err_def split: if_splits)
    moreover have "fail_ok e" using u6 Inl by (auto simp: missing_err_def)
    ultimately show ?thesis using Inl by simp
  qed
qed

lemma upd_sync:
  assumes "upd w w1 S" "syncDir d w1 = (r, w2)"
  shows "upd w w2 S \<and> fv w2 = fv w1"
  using upd_trans [OF assms(1), of w2 "{}" S] syncDir_upd [OF upd_wf [OF assms(1)] assms(2)] upd_empty [of w1 w2] by auto

text \<open>The part of a staged put after the body was written: sync and close the staging file.\<close>

lemma sync_staged:
  assumes s: "staged w w1 st i b" and r: "file_Sync i w1 = (r, w2)"
  shows "staged w w2 st i b \<and> (\<forall>e. r = Inl e \<longrightarrow> fail_ok e)"
  using staged_keep [OF s] file_Sync_upd [OF _ r] upd_wf [of w w1 "{st}"] s by (auto simp: staged_def)

lemma close_staged:
  assumes s: "staged w w1 st i b" and r: "file_Close i w1 = (r, w2)"
  shows "staged w w2 st i b \<and> (\<forall>e. r = Inl e \<longrightarrow> fail_ok e)"
  using staged_keep [OF s] file_Close_upd [OF _ r] upd_wf [of w w1 "{st}"] s by (auto simp: staged_def)

lemma staged_upd: "staged w w1 st i b \<Longrightarrow> upd w w1 {st}"
  by (simp add: staged_def)

lemma putExclusive_effect:
  assumes ps: "put_site w k ''.excl-''" and inl: "po_Durability opts = DurabilityInline"
    and p: "putExclusive sha k (path w k) (bytes_NewReader b) opts w = (r, w')"
  shows "put_effect w w' (path w k) (stg w k ''.excl-'') b r True"
proof -
  let ?st = "stg w k ''.excl-''" and ?full = "path w k"
  note fail = put_effect_fail [OF stg_ok(4) [OF ps]]
  obtain hex w1 where rh: "randHex w = (hex, w1)" by fastforce
  obtain r2 w2 where cr: "createStaging (?full @ ''.excl-'' @ hex) w1 = (r2, w2)" by fastforce
  note c = create_staged [OF ps rh cr]
  note p = p [unfolded putExclusive_def, simplified inl rh prod.case Let_def c(1) cr [unfolded c(1)]]
  show ?thesis
  proof (cases r2)
    case (Inl e)
    then have "upd w w2 {stg w k ''.excl-''}" "fail_ok e" using c(2) upd_mono [of w w2 "{}"] by (auto simp: created_def)
    then show ?thesis using p Inl fail by auto
  next
    case (Inr i)
    obtain r3 w3 where wv: "writeAndVerify sha i (bytes_NewReader b) opts w2 = (r3, w3)" by fastforce
    have wf: "fs_wf w" using ps by (simp add: put_site_def)
    note s3 = staged_write [OF wf c(2) [unfolded Inr] wv]
    note p = p [unfolded Inr, simplified wv prod.case sum.case]
    show ?thesis
    proof (cases r3)
      case (Inl e)
      then show ?thesis using p s3 fail [OF upd_remove [OF upd_close]] by auto
    next
      case (Inr res)
      then have s3: "staged w w3 ?st i b" using s3 by simp
      obtain r4 w4 where sy: "file_Sync i w3 = (r4, w4)" by fastforce
      note s4 = sync_staged [OF s3 sy]
      note p = p [unfolded Inr, simplified sy prod.case sum.case]
      show ?thesis
      proof (cases r4)
        case (Inl e)
        then show ?thesis using p s4 fail [OF upd_remove [OF upd_close [OF staged_upd]]] by auto
      next
        case (Inr x)
        obtain r5 w5 where cl: "file_Close i w4 = (r5, w5)" by fastforce
        note s5 = close_staged [OF conjunct1 [OF s4] cl]
        note p = p [unfolded Inr, simplified cl prod.case sum.case]
        show ?thesis
        proof (cases r5)
          case (Inl e)
          then show ?thesis using p s5 fail [OF staged_remove] by auto
        next
          case (Inr y)
          obtain r6 w6 where ln: "os_Link ?st ?full w5 = (r6, w6)" by fastforce
          note s6 = publish_staged [OF ps conjunct1 [OF s5] ln]
          note p = p [unfolded Inr, simplified ln prod.case sum.case]
          show ?thesis
          proof (cases r6)
            case (Inl e)
            have u: "upd w (drop_Remove ?st w6) {?st}" using s6 Inl by (auto intro: upd_remove)
            show ?thesis
            proof (cases "is_sys e EEXIST")
              case True
              then have "r = Inl (Sentinel ErrAlreadyExists)" "w' = drop_Remove ?st w6" using p Inl by auto
              then show ?thesis using u s6 Inl True stg_ok(4) [OF ps] upd_mono [OF u, of "{?full, ?st}"]
                by (auto simp: put_effect_def upd_def)
            next
              case False
              then show ?thesis using p Inl u s6 fail by auto
            qed
          next
            case (Inr z)
            obtain r7 w7 where sd: "syncDir (Dir ?full) (drop_Remove ?st w6) = (r7, w7)" by fastforce
            note p = p [unfolded Inr, simplified sd prod.case sum.case]
            have u6: "upd w w6 {?full, ?st}" using s6 Inr by auto
            have ur: "upd w6 (drop_Remove ?st w6) {?st}" by (rule drop_Remove_upd [OF upd_wf [OF u6]])
            have u: "upd w (drop_Remove ?st w6) {?full, ?st}" by (rule upd_trans [OF u6 ur]) auto
            have "fv (drop_Remove ?st w6) ?full = fv w6 ?full" using ur stg_ok(4) [OF ps] by (simp add: upd_def)
            then have "upd w w7 {?full, ?st} \<and> fv w7 ?full = fv w6 ?full" using upd_sync [OF u sd] by simp
            moreover have "\<forall>e. r7 = Some e \<longrightarrow> fail_ok e" using syncDir_upd [OF upd_wf [OF u] sd] by simp
            ultimately show ?thesis using p s6 Inr by (cases r7) (auto simp: put_effect_def fail_ok_def)
          qed
        qed
      qed
    qed
  qed
qed

lemma putOverwrite_effect:
  assumes ps: "put_site w k ''.hstmp-''"
    and p: "putOverwrite sha k (path w k) (bytes_NewReader b) opts w = (r, w')"
  shows "put_effect w w' (path w k) (stg w k ''.hstmp-'') b r False"
proof -
  let ?st = "stg w k ''.hstmp-''" and ?full = "path w k"
  note fail = put_effect_fail [OF stg_ok(4) [OF ps]]
  obtain hex w1 where rh: "randHex w = (hex, w1)" by fastforce
  obtain r2 w2 where cr: "createStaging (?full @ ''.hstmp-'' @ hex) w1 = (r2, w2)" by fastforce
  note c = create_staged [OF ps rh cr]
  note p = p [unfolded putOverwrite_def, simplified rh prod.case Let_def c(1) cr [unfolded c(1)]]
  show ?thesis
  proof (cases r2)
    case (Inl e)
    then have "upd w w2 {?st}" "fail_ok e" using c(2) upd_mono [of w w2 "{}"] by (auto simp: created_def)
    then show ?thesis using p Inl fail by auto
  next
    case (Inr i)
    obtain r3 w3 where wv: "writeAndVerify sha i (bytes_NewReader b) opts w2 = (r3, w3)" by fastforce
    have wf: "fs_wf w" using ps by (simp add: put_site_def)
    note s3 = staged_write [OF wf c(2) [unfolded Inr] wv]
    note p = p [unfolded Inr, simplified wv prod.case sum.case]
    show ?thesis
    proof (cases r3)
      case (Inl e)
      then show ?thesis using p s3 fail [OF upd_remove [OF upd_close]] by auto
    next
      case (Inr res)
      then have s3: "staged w w3 ?st i b" using s3 by simp
      obtain r4 w4 where sy: "file_Sync i w3 = (r4, w4)" by fastforce
      note s4 = sync_staged [OF s3 sy]
      note p = p [unfolded Inr, simplified sy prod.case sum.case]
      show ?thesis
      proof (cases r4)
        case (Inl e)
        then show ?thesis using p s4 fail [OF upd_remove [OF upd_close [OF staged_upd]]] by auto
      next
        case (Inr x)
        obtain r5 w5 where cl: "file_Close i w4 = (r5, w5)" by fastforce
        note s5 = close_staged [OF conjunct1 [OF s4] cl]
        note p = p [unfolded Inr, simplified cl prod.case sum.case]
        show ?thesis
        proof (cases r5)
          case (Inl e)
          then show ?thesis using p s5 fail [OF staged_remove] by auto
        next
          case (Inr y)
          obtain r6 w6 where rn: "os_Rename ?st ?full w5 = (r6, w6)" by fastforce
          have u5: "upd w w5 {?st}" "owns w5 ?st i" "\<exists>t. fv w5 ?st = Some (b, t)" using s5 by (auto simp: staged_def)
          have cf: "canon ?full" "?full \<noteq> ''/''" using path_ok ps by (auto simp: put_site_def)
          note s6 = os_Rename_upd [OF upd_wf [OF u5(1)] cf u5(2) stg_ok(4) [OF ps, symmetric] rn]
          note p = p [unfolded Inr, simplified rn prod.case sum.case]
          show ?thesis
          proof (cases r6)
            case (Inl e)
            have "upd w w6 {?st}" using upd_trans [OF u5(1), of w6 "{}" "{?st}"] s6 Inl by auto
            then show ?thesis using p s6 Inl fail [OF upd_remove] by auto
          next
            case (Inr z)
            obtain r7 w7 where sd: "syncDir (Dir ?full) w6 = (r7, w7)" by fastforce
            note p = p [unfolded Inr, simplified sd prod.case sum.case]
            have u: "upd w w6 {?full, ?st}" using upd_trans [OF u5(1), of w6 "{?st, ?full}" "{?full, ?st}"] s6 Inr by auto
            then have "upd w w7 {?full, ?st} \<and> (\<exists>t. fv w7 ?full = Some (b, t))" using upd_sync [OF u sd] s6 Inr u5(3) by auto
            moreover have "\<forall>e. r7 = Some e \<longrightarrow> fail_ok e" using syncDir_upd [OF upd_wf [OF u] sd] by simp
            ultimately show ?thesis using p by (cases r7) (auto simp: put_effect_def fail_ok_def)
          qed
        qed
      qed
    qed
  qed
qed

text \<open>A deferred put stages the body under a fresh name and queues it.\<close>

definition dfr :: "fs \<Rightarrow> string \<Rightarrow> nat \<Rightarrow> string" where
  "dfr w full i = full @ ''.deferred-'' @ EncodeToString (os_rand w i)"

definition deferred_effect :: "fs \<Rightarrow> fs \<Rightarrow> string \<Rightarrow> bytes \<Rightarrow> error + PutResult \<Rightarrow> bool" where
  "deferred_effect w w' full b r \<longleftrightarrow>
     (\<exists>i st. os_drawn w \<le> i \<and> st = dfr w full i \<and>
        (case r of
           Inr _ \<Rightarrow> fv w full = None \<and>
             (\<exists>w1 t. upd w w1 {st} \<and> i < os_drawn w1 \<and> fv w1 st = Some (b, t) \<and> w' = recordDeferred st full w1)
         | Inl e \<Rightarrow> upd w w' {st} \<and> (is_err e ErrAlreadyExists \<longrightarrow> fv w full \<noteq> None)))"

lemma deferred_fail:
  "upd w w' {dfr w full i} \<Longrightarrow> os_drawn w \<le> i \<Longrightarrow>
     fail_ok e \<or> fv w full \<noteq> None \<Longrightarrow> deferred_effect w w' full b (Inl e)"
  by (auto simp: deferred_effect_def fail_ok_def)

lemma putDeferred_effect:
  assumes ps: "put_site w k ''.deferred-''"
    and p: "putDeferred sha k (path w k) (bytes_NewReader b) opts w = (r, w')"
  shows "deferred_effect w w' (path w k) b r"
proof -
  let ?full = "path w k"
  have wf: "fs_wf w" "root_ok w" "okkey k" using ps by (auto simp: put_site_def)
  obtain r1 w1 where sta: "os_Stat ?full w = (r1, w1)" by fastforce
  note u1 = os_Stat_upd [OF wf(1) sta]
  have w1: "upd w w1 {}" using u1 by simp
  note p = p [unfolded putDeferred_def, simplified sta prod.case]
  show ?thesis
  proof (cases "\<exists>e. r1 = Inl e \<and> is_sys e ENOENT")
    case False
    have "fv w ?full \<noteq> None" if "r1 = Inr n" for n
      using u1 that full_not_dir [OF wf(2,3), of w "{}"] wf(1) by (auto simp: fv_def split: option.splits node.splits)
    then have "w' = w1 \<and> (\<exists>e. r = Inl e \<and> (fail_ok e \<or> fv w ?full \<noteq> None))"
      using p False u1 by (cases r1) (auto simp: missing_err_def)
    then show ?thesis
      using deferred_fail [of w w1 ?full "os_drawn w"] upd_mono [OF w1] by auto
  next
    case True
    then obtain e where e: "r1 = Inl e" "is_sys e ENOENT" by blast
    have free: "fv w ?full = None" using u1 e by (auto simp: ok_fault_def fv_None)
    have same: "p_root w1 = p_root w" "os_rand w1 = os_rand w" "os_drawn w \<le> os_drawn w1" "fs_wf w1"
      using w1 by (auto simp: upd_def)
    have pth: "path w1 k = ?full" using same by (simp add: path_def)
    have ps1: "put_site w1 k ''.deferred-''" using ps same by (auto simp: put_site_def root_ok_def)
    let ?st = "stg w1 k ''.deferred-''"
    have st: "?st = dfr w ?full (os_drawn w1)"
      using pth same by (simp add: stg_def dfr_def)
    obtain hex w2 where rh: "randHex w1 = (hex, w2)" by fastforce
    obtain r3 w3 where cr: "createStaging (path w1 k @ ''.deferred-'' @ hex) w2 = (r3, w3)" by fastforce
    note c = create_staged [OF ps1 rh cr]
    have cw: "created w w3 ?st r3" by (rule created_trans [OF w1 c(2)])
    note p = p [unfolded e(1), simplified sum.case e(2) rh prod.case Let_def if_False not_True_eq_False
        c(1) [unfolded pth] cr [unfolded c(1)]]
    note fail = deferred_fail [OF _ same(3), folded st]
    show ?thesis
    proof (cases r3)
      case (Inl e')
      then have "upd w w3 {?st}" "fail_ok e'" using cw upd_mono [of w w3 "{}"] by (auto simp: created_def)
      then show ?thesis using p Inl fail [of w3] by (auto simp: st)
    next
      case (Inr i)
      obtain r4 w4 where wv: "writeAndVerify sha i (bytes_NewReader b) opts w3 = (r4, w4)" by fastforce
      note s4 = staged_write [OF wf(1) cw [unfolded Inr] wv]
      obtain r5 w5 where cl: "file_Close i w4 = (r5, w5)" by fastforce
      note p = p [unfolded Inr, simplified wv cl prod.case sum.case]
      show ?thesis
      proof (cases r4)
        case (Inl e')
        have "upd w w5 {?st}" using s4 Inl file_Close_upd [OF upd_wf cl] upd_trans [of w w4 "{?st}" w5 "{}" "{?st}"] by auto
        then show ?thesis using p Inl s4 fail [OF upd_remove [unfolded st], folded st] by (auto simp: st)
      next
        case (Inr res)
        then have s4: "staged w w4 ?st i b" using s4 by simp
        note s5 = close_staged [OF s4 cl]
        note p = p [unfolded Inr, simplified sum.case]
        show ?thesis
        proof (cases r5)
          case (Inl e')
          then show ?thesis using p s5 fail [OF staged_remove [unfolded st], folded st] by (auto simp: st)
        next
          case (Inr y)
          have "os_drawn w1 < os_drawn w5"
          proof -
            have "upd w3 w4 {?st}"
              using writeAndVerify_upd [OF _ _ _ wv, of ?st "[]"] cw \<open>r3 = Inr i\<close> by (auto simp: created_def upd_def)
            moreover have "upd w4 w5 {}" using file_Close_upd [OF upd_wf [OF staged_upd [OF s4]] cl] by simp
            ultimately show ?thesis using c(3) by (auto simp: upd_def)
          qed
          then have "upd w w5 {?st} \<and> os_drawn w1 < os_drawn w5 \<and> (\<exists>t. fv w5 ?st = Some (b, t)) \<and> w' = recordDeferred ?st ?full w5"
            "\<not> isl r" using p Inr s5 by (auto simp: staged_def)
          then show ?thesis
            using free same(3) st unfolding deferred_effect_def
            by (intro exI [of _ "os_drawn w1"] exI [of _ ?st]) (auto split: sum.splits)
        qed
      qed
    qed
  qed
qed

subsection \<open>The abstract store\<close>

definition fs_objs :: "fs \<Rightarrow> store" where
  "fs_objs w k = (if okkey k then fv w (path w k) else None)"

fun pend_list :: "(string \<Rightarrow> obj option) \<Rightarrow> nat \<Rightarrow> (string \<times> string) list \<Rightarrow> (string \<times> obj) list" where
  "pend_list f n [] = []"
| "pend_list f n ((st, fin) # q) =
     (case f st of None \<Rightarrow> pend_list f n q | Some ob \<Rightarrow> (drop n fin, ob) # pend_list f n q)"

text \<open>The queued writes whose staging file is still there, by key.\<close>

definition fs_pend :: "fs \<Rightarrow> (string \<times> obj) list" where
  "fs_pend w = pend_list (fv w) (Suc (length (p_root w))) (p_deferred w)"

lemma pend_list_cong: "(\<And>st fin. (st, fin) \<in> set q \<Longrightarrow> f st = g st) \<Longrightarrow> pend_list f n q = pend_list g n q"
proof (induction q)
  case (Cons x q)
  have "f (fst x) = g (fst x)" using Cons(2) [of "fst x" "snd x"] by simp
  moreover have "pend_list f n q = pend_list g n q" using Cons(2) by (intro Cons(1)) auto
  ultimately show ?case by (cases x) (simp split: option.splits)
qed simp

lemma pend_list_append: "pend_list f n (p @ q) = pend_list f n p @ pend_list f n q"
  by (induction p) (auto split: option.splits)

definition def_ok :: "fs \<Rightarrow> bool" where
  "def_ok w \<longleftrightarrow> distinct (map fst (p_deferred w)) \<and>
     (\<forall>(st, fin) \<in> set (p_deferred w). \<exists>k i. okkey k \<and> fin = path w k \<and> i < os_drawn w \<and> st = dfr w fin i)"

definition fs_good :: "fs \<Rightarrow> bool" where
  "fs_good w \<longleftrightarrow> fs_wf w \<and> root_ok w \<and> def_ok w"

lemma upd_path: "upd w w' S \<Longrightarrow> path w' = path w"
  by (auto simp: upd_def path_def)

lemma upd_dfr: "upd w w' S \<Longrightarrow> dfr w' = dfr w"
  by (auto simp: upd_def dfr_def fun_eq_iff)

lemma upd_good:
  assumes g: "fs_good w" and u: "upd w w' S"
  shows "fs_good w'"
proof -
  have e: "p_deferred w' = p_deferred w" "p_root w' = p_root w" "os_drawn w \<le> os_drawn w'" "fs_wf w'"
    using u by (auto simp: upd_def)
  have "def_ok w'"
    using g e(3) unfolding fs_good_def def_ok_def e(1) upd_path [OF u] upd_dfr [OF u] by (fastforce dest: less_le_trans)
  then show ?thesis using g e by (simp add: fs_good_def root_ok_def)
qed

lemma upd_pend:
  assumes "upd w w' S" "\<And>st fin. (st, fin) \<in> set (p_deferred w) \<Longrightarrow> st \<notin> S"
  shows "fs_pend w' = fs_pend w"
proof -
  have "p_deferred w' = p_deferred w" "p_root w' = p_root w" using assms(1) by (auto simp: upd_def)
  moreover have "(st, fin) \<in> set (p_deferred w) \<Longrightarrow> fv w' st = fv w st" for st fin
    using assms by (simp add: upd_def)
  ultimately show ?thesis unfolding fs_pend_def by (metis pend_list_cong)
qed

lemma upd_objs: "upd w w' S \<Longrightarrow> (\<And>k. okkey k \<Longrightarrow> path w k \<notin> S) \<Longrightarrow> fs_objs w' = fs_objs w"
  using upd_path [of w w' S] by (auto simp: fs_objs_def upd_def fun_eq_iff)

lemma upd_objs_at:
  assumes "upd w w' S" "okkey k" "\<And>k'. okkey k' \<Longrightarrow> k' \<noteq> k \<Longrightarrow> path w k' \<notin> S"
  shows "fs_objs w' = (fs_objs w)(k := fv w' (path w k))"
  using assms upd_path [of w w' S] by (auto simp: fs_objs_def upd_def fun_eq_iff)

lemma deferred_name:
  assumes "fs_good w" "(st, fin) \<in> set (p_deferred w)"
  obtains k i where "okkey k" "fin = path w k" "i < os_drawn w" "st = dfr w fin i"
proof -
  have "\<forall>(st, fin) \<in> set (p_deferred w). \<exists>k i. okkey k \<and> fin = path w k \<and> i < os_drawn w \<and> st = dfr w fin i"
    using assms(1) by (simp add: fs_good_def def_ok_def)
  from bspec [OF this assms(2)] that show thesis by auto
qed

lemma deferred_not_key:
  assumes "fs_good w" "(st, fin) \<in> set (p_deferred w)" "okkey k"
  shows "st \<noteq> path w k"
proof -
  obtain k' i where "fin = path w k'" "st = dfr w fin i" using deferred_name [OF assms(1,2)] by metis
  then show ?thesis using okkey_not_staging [OF assms(3), of "''.deferred-''" w k' "os_rand w i"] unfolding dfr_def by force
qed

lemma deferred_fresh:
  assumes g: "fs_good w" and d: "(st, fin) \<in> set (p_deferred w)" and i: "os_drawn w \<le> i"
  shows "st \<noteq> dfr w full i"
proof
  assume e: "st = dfr w full i"
  obtain j where j: "j < os_drawn w" "st = dfr w fin j" using deferred_name [OF g d] by metis
  then have "os_rand w j = os_rand w i" using e staging_inject [of fin "os_rand w j" full "os_rand w i"] by (simp add: dfr_def)
  moreover have "inj (os_rand w)" using g by (simp add: fs_good_def fs_wf_def script_ok_def)
  ultimately show False using j(1) i by (auto dest: injD)
qed

lemma deferred_not_stg:
  assumes "fs_good w" "(st, fin) \<in> set (p_deferred w)" "m \<in> {''.excl-'', ''.hstmp-''}"
  shows "st \<noteq> x @ m @ EncodeToString h"
proof -
  obtain i where "st = dfr w fin i" using deferred_name [OF assms(1,2)] by metis
  then have d: "st = fin @ ''.deferred-'' @ EncodeToString (os_rand w i)" unfolding dfr_def .
  consider "m = ''.excl-''" | "m = ''.hstmp-''" using assms(3) by blast
  then show ?thesis unfolding d by cases (simp_all only: staging_kinds not_False_eq_True)
qed

subsection \<open>Put against the contract\<close>

lemma put_effect_trans:
  assumes "upd w w1 {}" "put_effect w1 w' full st b r x"
  shows "put_effect w w' full st b r x"
proof -
  have "upd w w' {full, st}" using upd_trans [OF assms(1), of w' "{full, st}" "{full, st}"] assms(2) by (simp add: put_effect_def)
  then show ?thesis using assms(2) upd_empty [OF assms(1)] unfolding put_effect_def by (cases r) simp_all
qed

lemma deferred_effect_trans:
  assumes "upd w w1 {}" "deferred_effect w1 w' full b r"
  shows "deferred_effect w w' full b r"
proof -
  obtain i st where i: "os_drawn w1 \<le> i" "st = dfr w1 full i" and
    c: "case r of
       Inr _ \<Rightarrow> fv w1 full = None \<and>
         (\<exists>w2 t. upd w1 w2 {st} \<and> i < os_drawn w2 \<and> fv w2 st = Some (b, t) \<and> w' = recordDeferred st full w2)
     | Inl e \<Rightarrow> upd w1 w' {st} \<and> (is_err e ErrAlreadyExists \<longrightarrow> fv w1 full \<noteq> None)"
    using assms(2) unfolding deferred_effect_def by blast
  have tr: "upd w1 v {st} \<Longrightarrow> upd w v {st}" for v using upd_trans [OF assms(1), of v "{st}" "{st}"] by simp
  have "os_drawn w \<le> i" "st = dfr w full i" "fv w1 = fv w"
    using i assms(1) upd_dfr [OF assms(1)] upd_empty [OF assms(1)] by (auto simp: upd_def)
  then show ?thesis unfolding deferred_effect_def
    using c tr by (intro exI [of _ i] exI [of _ st]) (auto split: sum.splits)
qed

definition stgname :: "fs \<Rightarrow> string \<Rightarrow> string \<Rightarrow> bool" where
  "stgname w full st \<longleftrightarrow> (\<exists>m h. m \<in> {''.excl-'', ''.hstmp-''} \<and> st = full @ m @ EncodeToString h)"

lemma stgname_stg: "m \<in> {''.excl-'', ''.hstmp-''} \<Longrightarrow> stgname w (path w' k) (stg w' k m)"
  by (auto simp: stgname_def stg_def)

lemma fs_Put_effect:
  assumes g: "fs_good w" and k: "okkey k" and p: "fs_Put sha ctx k (bytes_NewReader b) opts w = (r, w')"
  shows "if po_IfNotExists opts \<and> po_Durability opts = DurabilityDeferred then deferred_effect w w' (path w k) b r
    else \<exists>st. stgname w (path w k) st \<and> put_effect w w' (path w k) st b r (po_IfNotExists opts)"
proof -
  let ?full = "path w k"
  let ?goal = "\<lambda>w w' r. if po_IfNotExists opts \<and> po_Durability opts = DurabilityDeferred then deferred_effect w w' ?full b r
    else \<exists>st. stgname w ?full st \<and> put_effect w w' ?full st b r (po_IfNotExists opts)"
  have wf: "fs_wf w" "root_ok w" using g by (auto simp: fs_good_def)
  have fail: "?goal w v (Inl e)" if "upd w v {}" "fail_ok e" for v e
  proof -
    have "stgname w ?full (?full @ ''.excl-'' @ EncodeToString [])" unfolding stgname_def by blast
    moreover have "upd w v {?full @ ''.excl-'' @ EncodeToString []}" "upd w v {dfr w ?full (os_drawn w)}"
      using upd_mono [OF that(1)] by auto
    ultimately show ?thesis
      using put_effect_fail [of ?full "?full @ ''.excl-'' @ EncodeToString []" w v e b "po_IfNotExists opts"]
        deferred_fail [of w v ?full "os_drawn w" e b] that(2) by auto
  qed
  obtain e1 w1 where ce: "ctx_Err ctx w = (e1, w1)" by fastforce
  note u1 = ctx_Err_upd [OF wf(1) ce]
  show ?thesis
  proof (cases e1)
    case (Some e)
    then show ?thesis using p ce u1 fail [of w1 e] by (auto simp: fs_Put_def)
  next
    case None
    have w1: "upd w w1 {}" using u1 by simp
    have r1: "root_ok w1" "path w1 k = ?full" using w1 wf(2) by (auto simp: upd_def root_ok_def path_def)
    have rs: "resolve w1 k = Inr ?full" using resolve_okkey [OF r1(1) k] r1(2) by simp
    obtain e2 w2 where mk: "mkdirAllRetry (Dir ?full) w1 = (e2, w2)" by fastforce
    have "okdir (p_root w1) (Dir ?full)" using path_ok(3) [OF r1(1) k] r1(2) by simp
    note u2 = mkdirAllRetry_upd [OF upd_wf [OF w1] this mk]
    have w2: "upd w w2 {}" using upd_trans [OF w1, of w2 "{}" "{}"] u2 by simp
    note p = p [unfolded fs_Put_def, simplified ce None prod.case option.case rs sum.case mk]
    show ?thesis
    proof (cases e2)
      case (Some e)
      then show ?thesis using p u2 fail [OF w2] by auto
    next
      case None
      note p = p [simplified None option.case]
      have r2: "fs_wf w2" "root_ok w2" "path w2 k = ?full" using w2 wf(2) by (auto simp: upd_def root_ok_def path_def)
      have ps: "put_site w2 k m" if "m \<in> {''.excl-'', ''.hstmp-'', ''.deferred-''}" for m
        using r2 k that by (simp add: put_site_def)
      show ?thesis
      proof (cases "po_IfNotExists opts")
        case True
        show ?thesis
        proof (cases "po_Durability opts")
          case DurabilityInline
          have "put_effect w2 w' ?full (stg w2 k ''.excl-'') b r True"
            using putExclusive_effect [OF ps DurabilityInline, of sha b r w'] p True r2(3) by simp
          then show ?thesis using put_effect_trans [OF w2] True DurabilityInline stgname_stg [of "''.excl-''" w w2 k] r2(3) by auto
        next
          case DurabilityDeferred
          then have "deferred_effect w2 w' ?full b r"
            using putDeferred_effect [OF ps, of sha b opts r w'] p True r2(3) by (simp add: putExclusive_def)
          then show ?thesis using deferred_effect_trans [OF w2] True DurabilityDeferred by auto
        qed
      next
        case False
        have "put_effect w2 w' ?full (stg w2 k ''.hstmp-'') b r False"
          using putOverwrite_effect [OF ps, of sha b opts r w'] p False r2(3) by simp
        then show ?thesis using put_effect_trans [OF w2] False stgname_stg [of "''.hstmp-''" w w2 k] r2(3) by auto
      qed
    qed
  qed
qed

subsection \<open>Reads, deletes and renames\<close>

text \<open>All operations but put begin alike: the context, then the path of the key.\<close>

lemma op_start:
  assumes g: "fs_good w" and k: "okkey k" and c: "ctx_Err ctx w = (e, w1)"
  shows "upd w w1 {}" "resolve w1 k = Inr (path w k)" "\<And>x. e = Some x \<Longrightarrow> fail_ok x" "fs_good w1"
    "canon (path w k)" "path w k \<noteq> ''/''" "okdir (p_root w1) (Dir (path w k))" "lookup w1 (path w k) \<noteq> Some NDir"
proof -
  have wf: "fs_wf w" "root_ok w" using g by (auto simp: fs_good_def)
  note u = ctx_Err_upd [OF wf(1) c]
  show u1: "upd w w1 {}" using u by simp
  show "\<And>x. e = Some x \<Longrightarrow> fail_ok x" using u by simp
  have r1: "root_ok w1" "path w1 k = path w k" using u1 wf(2) by (auto simp: upd_def root_ok_def path_def)
  show "resolve w1 k = Inr (path w k)" using resolve_okkey [OF r1(1) k] r1(2) by simp
  show "fs_good w1" by (rule upd_good [OF g u1])
  show "canon (path w k)" "path w k \<noteq> ''/''" "okdir (p_root w1) (Dir (path w k))" using path_ok [OF r1(1) k] r1(2) by auto
  show "lookup w1 (path w k) \<noteq> Some NDir" by (rule full_not_dir [OF wf(2) k u1])
qed

lemma fv_file: "lookup w p \<noteq> Some NDir \<Longrightarrow> fv w p = None \<longleftrightarrow> lookup w p = None"
  by (auto simp: fv_def split: option.splits node.splits)

lemma fs_Get_effect:
  assumes g: "fs_good w" and k: "okkey k" and r: "fs_Get ctx k w = (r, w')"
  shows "upd w w' {} \<and> (case r of
      Inr rd \<Rightarrow> rd_err rd = None \<longrightarrow> (\<exists>t. fv w (path w k) = Some (rd_data rd, t))
    | Inl e \<Rightarrow> is_err e ErrNotFound \<longrightarrow> fv w (path w k) = None)"
proof -
  obtain e w1 where c: "ctx_Err ctx w = (e, w1)" by fastforce
  note s = op_start [OF g k c]
  obtain r2 w2 where op: "os_Open (path w k) w1 = (r2, w2)" by fastforce
  note u2 = os_Open_upd [OF upd_wf [OF s(1)] op]
  have w2: "upd w w2 {}" using upd_trans [OF s(1), of w2 "{}" "{}"] u2 by simp
  show ?thesis
  proof (cases e)
    case None
    show ?thesis
    proof (cases r2)
      case (Inr rd)
      then show ?thesis using r c None s op w2 u2 upd_empty [OF s(1)] by (auto simp: fs_Get_def)
    next
      case (Inl e')
      have "is_sys e' ENOENT \<longrightarrow> fv w (path w k) = None" "fail_ok e'"
        using u2 Inl upd_empty [OF s(1)] fv_None [of w1 "path w k"] by (auto simp: ok_fault_def missing_err_def split: if_splits)
      then show ?thesis using r c None s(2) op w2 Inl by (auto simp: fs_Get_def fail_ok_def split: if_splits)
    qed
  qed (use r c s in \<open>auto simp: fs_Get_def fail_ok_def\<close>)
qed

lemma fs_Stat_effect:
  assumes g: "fs_good w" and k: "okkey k" and r: "fs_Stat ctx k w = (r, w')"
  shows "upd w w' {} \<and> (case r of
      Inr i \<Rightarrow> \<exists>b. fv w (path w k) = Some (b, oi_ModTime i) \<and> oi_Key i = k \<and> oi_Size i = length b
    | Inl e \<Rightarrow> is_err e ErrNotFound \<longrightarrow> fv w (path w k) = None)"
proof -
  obtain e w1 where c: "ctx_Err ctx w = (e, w1)" by fastforce
  note s = op_start [OF g k c]
  obtain r2 w2 where op: "os_Stat (path w k) w1 = (r2, w2)" by fastforce
  note u2 = os_Stat_upd [OF upd_wf [OF s(1)] op]
  have w2: "upd w w2 {}" using upd_trans [OF s(1), of w2 "{}" "{}"] u2 by simp
  show ?thesis
  proof (cases e)
    case None
    show ?thesis
    proof (cases r2)
      case (Inr n)
      then obtain i where n: "n = NFile i" "lookup w1 (path w k) = Some (NFile i)" using u2 s(8) by (cases n) auto
      have "fv w (path w k) = Some (in_data (os_inodes w2 ! i), in_mtime (os_inodes w2 ! i))"
        using n u2 unfolding upd_empty [OF s(1), symmetric] by (simp add: fv_def)
      then show ?thesis using r c None s op w2 Inr n(1) by (auto simp: fs_Stat_def file_info_def)
    next
      case (Inl e')
      have "is_sys e' ENOENT \<longrightarrow> fv w (path w k) = None" "fail_ok e'"
        using u2 Inl upd_empty [OF s(1)] fv_None [of w1 "path w k"] by (auto simp: ok_fault_def missing_err_def split: if_splits)
      then show ?thesis using r c None s(2) op w2 Inl by (auto simp: fs_Stat_def fail_ok_def split: if_splits)
    qed
  qed (use r c s in \<open>auto simp: fs_Stat_def fail_ok_def\<close>)
qed

definition del_effect :: "fs \<Rightarrow> fs \<Rightarrow> string \<Rightarrow> error option \<Rightarrow> bool" where
  "del_effect w w' p r \<longleftrightarrow> upd w w' {p} \<and>
     (case r of None \<Rightarrow> fv w' p = None | Some e \<Rightarrow> fv w' p = None \<or> fv w' p = fv w p)"

lemma remove_effect:
  assumes u: "upd w w1 {}" and r: "os_Remove p w1 = (r, w2)"
  shows "upd w w2 {p} \<and> (case r of Inr _ \<Rightarrow> fv w2 p = None | Inl e \<Rightarrow> fv w2 p = fv w p \<and> (is_sys e ENOENT \<longrightarrow> fv w p = None))"
proof -
  note u2 = os_Remove_upd [OF upd_wf [OF u] r]
  have "upd w1 w2 {p}" using u2 upd_mono [of w1 w2 "{}"] by (cases r) auto
  then have "upd w w2 {p}" using upd_trans [OF u, of w2 "{p}" "{p}"] by simp
  moreover have "fv w1 = fv w" by (rule upd_empty [OF u])
  moreover have "r = Inl e \<Longrightarrow> fv w2 = fv w1" for e using u2 upd_empty [of w1 w2] by auto
  moreover have "r = Inl e \<Longrightarrow> is_sys e ENOENT \<Longrightarrow> fv w1 p = None" for e
    using u2 fv_None [of w1 p] by (auto simp: ok_fault_def missing_err_def split: if_splits)
  ultimately show ?thesis using u2 by (cases r) auto
qed

lemma fs_Delete_effect:
  assumes g: "fs_good w" and k: "okkey k" and r: "fs_Delete ctx k w = (r, w')"
  shows "del_effect w w' (path w k) r"
proof -
  obtain e w1 where c: "ctx_Err ctx w = (e, w1)" by fastforce
  note s = op_start [OF g k c]
  obtain r2 w2 where op: "os_Remove (path w k) w1 = (r2, w2)" by fastforce
  note u2 = remove_effect [OF s(1) op]
  obtain r3 w3 where sd: "syncDir (Dir (path w k)) w2 = (r3, w3)" by fastforce
  note u3 = upd_sync [OF conjunct1 [OF u2] sd]
  show ?thesis
  proof (cases e)
    case None
    then show ?thesis using r c s(2) op sd u2 u3
      by (cases r2; cases r3) (auto simp: fs_Delete_def del_effect_def split: if_splits)
  next
    case (Some x)
    then show ?thesis using r c s(1) upd_mono [OF s(1)] upd_empty [OF s(1)] by (auto simp: fs_Delete_def del_effect_def)
  qed
qed

lemma fs_DeleteLazy_effect:
  assumes g: "fs_good w" and k: "okkey k" and r: "fs_DeleteLazy ctx k w = (r, w')"
  shows "del_effect w w' (path w k) r"
proof -
  obtain e w1 where c: "ctx_Err ctx w = (e, w1)" by fastforce
  note s = op_start [OF g k c]
  obtain r2 w2 where op: "os_Remove (path w k) w1 = (r2, w2)" by fastforce
  note u2 = remove_effect [OF s(1) op]
  show ?thesis
  proof (cases e)
    case None
    then show ?thesis using r c s(2) op u2
      by (cases r2) (auto simp: fs_DeleteLazy_def del_effect_def split: if_splits)
  next
    case (Some x)
    then show ?thesis using r c s(1) upd_mono [OF s(1)] upd_empty [OF s(1)] by (auto simp: fs_DeleteLazy_def del_effect_def)
  qed
qed

definition link_effect :: "fs \<Rightarrow> fs \<Rightarrow> string \<Rightarrow> string \<Rightarrow> error option \<Rightarrow> bool" where
  "link_effect w w' src dst r \<longleftrightarrow>
     (case r of
        None \<Rightarrow> fv w src \<noteq> None \<and> fv w dst = None \<and> upd w w' {dst} \<and> fv w' dst = fv w src
      | Some e \<Rightarrow> upd w w' {} \<and> fail_ok e \<and> (is_sys e EEXIST \<longrightarrow> fv w dst \<noteq> None))"

lemma link_effect_trans:
  assumes u: "upd w w1 {}" and l: "link_effect w1 w' src dst r"
  shows "link_effect w w' src dst r"
proof -
  have "upd w1 w' S \<Longrightarrow> upd w w' S" for S using upd_trans [OF u, of w' S S] by simp
  then show ?thesis using l upd_empty [OF u] by (cases r) (auto simp: link_effect_def)
qed

lemma os_Link_effect:
  assumes w: "fs_wf w" and d: "canon dst" "dst \<noteq> ''/''" "lookup w dst \<noteq> Some NDir" and r: "os_Link src dst w = (r, w')"
  shows "link_effect w w' src dst (case r of Inr _ \<Rightarrow> None | Inl e \<Rightarrow> Some e)"
  using os_Link_upd [OF w d(1,2) r] fv_file [OF d(3)]
  by (cases r) (auto simp: link_effect_def ok_fault_def missing_err_def split: if_splits)

lemma link_retry_effect:
  assumes "fs_wf w" "root_ok w" "okkey k" "fail_ok e" "is_sys e EEXIST \<longrightarrow> fv w (path w k) \<noteq> None"
    "link_retry n e src (path w k) w = (r, w')"
  shows "link_effect w w' src (path w k) r"
  using assms
proof (induction n arbitrary: e w)
  case 0
  then show ?case by (auto simp: link_effect_def)
next
  case (Suc n)
  let ?dst = "path w k"
  show ?case
  proof (cases "is_sys e ENOENT")
    case False
    then show ?thesis using Suc(2-7) by (auto simp: link_effect_def)
  next
    case True
    obtain e1 w1 where mk: "mkdirAllRetry (Dir ?dst) w = (e1, w1)" by fastforce
    have po: "canon ?dst" "?dst \<noteq> ''/''" "okdir (p_root w) (Dir ?dst)" using path_ok [OF Suc(3,4)] by auto
    note u1 = mkdirAllRetry_upd [OF Suc(2) po(3) mk]
    have w1: "upd w w1 {}" using u1 by simp
    show ?thesis
    proof (cases e1)
      case (Some x)
      then show ?thesis using Suc(5-7) True mk w1 by (auto simp: link_effect_def)
    next
      case None
      obtain r2 w2 where ln: "os_Link src ?dst w1 = (r2, w2)" by fastforce
      have l2: "link_effect w1 w2 src ?dst (case r2 of Inr _ \<Rightarrow> None | Inl e \<Rightarrow> Some e)"
        by (rule os_Link_effect [OF upd_wf [OF w1] po(1,2) full_not_dir [OF Suc(3,4) w1] ln])
      note l2' = link_effect_trans [OF w1 l2]
      show ?thesis
      proof (cases r2)
        case (Inr y)
        then show ?thesis using Suc(7) True mk None ln l2' by auto
      next
        case (Inl e2)
        have rt: "link_retry n e2 src ?dst w2 = (r, w')" using Suc(7) True mk None ln Inl by simp
        have u2: "upd w w2 {}" "fail_ok e2" "is_sys e2 EEXIST \<longrightarrow> fv w ?dst \<noteq> None" using l2' Inl by (auto simp: link_effect_def)
        have p2: "path w2 k = ?dst" using upd_path [OF u2(1)] by simp
        have "link_effect w2 w' src ?dst r"
          using Suc(1) [of w2 e2] Suc(3,4) u2 rt p2 upd_empty [OF u2(1)] by (simp add: upd_def root_ok_def)
        then show ?thesis by (rule link_effect_trans [OF u2(1)])
      qed
    qed
  qed
qed

lemma link_with_retry_effect:
  assumes w: "fs_wf w" "root_ok w" "okkey k" and r: "link_with_retry src (path w k) w = (r, w')"
  shows "link_effect w w' src (path w k) r"
proof -
  obtain r1 w1 where ln: "os_Link src (path w k) w = (r1, w1)" by fastforce
  have po: "canon (path w k)" "path w k \<noteq> ''/''" using path_ok [OF w(2,3)] by auto
  have l1: "link_effect w w1 src (path w k) (case r1 of Inr _ \<Rightarrow> None | Inl e \<Rightarrow> Some e)"
    by (rule os_Link_effect [OF w(1) po okkey_not_dir [OF w] ln])
  show ?thesis
  proof (cases r1)
    case (Inr y)
    then show ?thesis using r ln l1 by (simp add: link_with_retry_def)
  next
    case (Inl e)
    have u1: "upd w w1 {}" "fail_ok e" "is_sys e EEXIST \<longrightarrow> fv w (path w k) \<noteq> None" using l1 Inl by (auto simp: link_effect_def)
    have p1: "path w1 k = path w k" "root_ok w1" using upd_path [OF u1(1)] u1(1) w(2) by (auto simp: upd_def root_ok_def)
    have "link_effect w1 w' src (path w k) r"
      using link_retry_effect [OF upd_wf [OF u1(1)] p1(2) w(3) u1(2), of pruneRaceRetries src r w'] r ln Inl u1(3) p1(1)
        upd_empty [OF u1(1)] by (simp add: link_with_retry_def)
    then show ?thesis by (rule link_effect_trans [OF u1(1)])
  qed
qed

definition rename_effect :: "fs \<Rightarrow> fs \<Rightarrow> string \<Rightarrow> string \<Rightarrow> error option \<Rightarrow> bool" where
  "rename_effect w w' src dst r \<longleftrightarrow> upd w w' {src, dst} \<and>
     (case r of
        None \<Rightarrow> fv w src \<noteq> None \<and> fv w dst = None \<and> fv w' dst = fv w src \<and> fv w' src = None
      | Some e \<Rightarrow> (upd w w' {} \<and> (is_err e ErrAlreadyExists \<longrightarrow> fv w dst \<noteq> None)) \<or>
          (\<not> is_err e ErrAlreadyExists \<and> fv w src \<noteq> None \<and> fv w dst = None \<and> fv w' dst = fv w src \<and>
             (fv w' src = fv w src \<or> fv w' src = None)))"

lemma rename_fail: "upd w w' {} \<Longrightarrow> (is_err e ErrAlreadyExists \<Longrightarrow> fv w dst \<noteq> None) \<Longrightarrow> rename_effect w w' src dst (Some e)"
  using upd_mono [of w w' "{}"] by (auto simp: rename_effect_def)

lemma fs_Rename_effect:
  assumes g: "fs_good w" and k: "okkey s" "okkey d" and r: "fs_RenameIfNotExists ctx s d w = (r, w')"
  shows "rename_effect w w' (path w s) (path w d) r"
proof -
  let ?src = "path w s" and ?dst = "path w d"
  obtain e w1 where c: "ctx_Err ctx w = (e, w1)" by fastforce
  note s1 = op_start [OF g k(1) c] and d1 = op_start [OF g k(2) c]
  note fail = rename_fail [where src = ?src and dst = ?dst]
  show ?thesis
  proof (cases e)
    case (Some x)
    then show ?thesis using r c s1(1,3) fail by (auto simp: fs_RenameIfNotExists_def fail_ok_def)
  next
    case None
    obtain e2 w2 where mk: "mkdirAllRetry (Dir ?dst) w1 = (e2, w2)" by fastforce
    note u2 = mkdirAllRetry_upd [OF upd_wf [OF s1(1)] d1(7) mk]
    have w2: "upd w w2 {}" using upd_trans [OF s1(1), of w2 "{}" "{}"] u2 by simp
    note r = r [unfolded fs_RenameIfNotExists_def, simplified c None prod.case option.case s1(2) d1(2) sum.case mk]
    show ?thesis
    proof (cases e2)
      case (Some x)
      then show ?thesis using r u2 fail [OF w2, of "Errorf ''fs: mkdir parent'' [x]"] by (auto simp: fail_ok_def)
    next
      case None
      have g2: "fs_good w2" by (rule upd_good [OF g w2])
      then have w2': "fs_wf w2" "root_ok w2" "path w2 d = ?dst" using upd_path [OF w2] by (auto simp: fs_good_def)
      obtain e3 w3 where ln: "link_with_retry ?src ?dst w2 = (e3, w3)" by fastforce
      have l3: "link_effect w w3 ?src ?dst e3"
        using link_effect_trans [OF w2] link_with_retry_effect [OF w2'(1,2) k(2), of ?src e3 w3] ln w2'(3) by simp
      note r = r [simplified None option.case ln prod.case]
      show ?thesis
      proof (cases e3)
        case (Some x)
        then show ?thesis using r l3 fail [of w w3 "Errorf ''fs: link'' [x]"] fail [of w w3 "Sentinel ErrAlreadyExists"]
          by (auto simp: link_effect_def fail_ok_def split: if_splits)
      next
        case None
        have l: "fv w ?src \<noteq> None" "fv w ?dst = None" "upd w w3 {?dst}" "fv w3 ?dst = fv w ?src" "?src \<noteq> ?dst"
          using l3 None by (auto simp: link_effect_def)
        obtain e4 w4 where sd: "syncDir (Dir ?dst) w3 = (e4, w4)" by fastforce
        note u4 = upd_sync [OF l(3) sd]
        have f4: "fail_ok x" if "e4 = Some x" for x using syncDir_upd [OF upd_wf [OF l(3)] sd] that by simp
        note r = r [simplified None option.case sd prod.case]
        have keep: "upd w v {?dst} \<Longrightarrow> fv v ?src = fv w ?src" for v using l(5) by (simp add: upd_def)
        show ?thesis
        proof (cases e4)
          case (Some x)
          then show ?thesis using r u4 l f4 keep [of w4] upd_mono [of w w4 "{?dst}" "{?src, ?dst}"]
            by (auto simp: rename_effect_def fail_ok_def)
        next
          case None
          obtain r5 w5 where rm: "os_Remove ?src w4 = (r5, w5)" by fastforce
          have w4: "fs_wf w4" using u4 upd_wf by blast
          note u5 = remove_effect [OF upd_refl [OF w4] rm]
          have w5: "upd w w5 {?src, ?dst}" using upd_trans [OF conjunct1 [OF u4] conjunct1 [OF u5]] by auto
          have f5: "fv w5 ?dst = fv w ?src" using u5 u4 l(4,5) by (simp add: upd_def)
          have e5: "fail_ok x" if "r5 = Inl x" for x using os_Remove_upd [OF w4 rm] that by (auto simp: missing_err_def)
          note r = r [simplified None option.case rm prod.case]
          show ?thesis
          proof (cases r5)
            case (Inl x)
            then show ?thesis using r w5 f5 l u5 u4 keep [of w4] e5 by (auto simp: rename_effect_def fail_ok_def)
          next
            case (Inr y)
            obtain e6 w6 where sd6: "syncDir (Dir ?src) w5 = (e6, w6)" by fastforce
            note u6 = upd_sync [OF w5 sd6]
            have "fail_ok x" if "e6 = Some x" for x using syncDir_upd [OF upd_wf [OF w5] sd6] that by simp
            then show ?thesis using r Inr sd6 u6 u5 f5 l by (cases e6) (auto simp: rename_effect_def fail_ok_def)
          qed
        qed
      qed
    qed
  qed
qed

subsection \<open>The barrier\<close>

lemma pend_list_take: "\<exists>m. pend_list f n (take j q) = take m (pend_list f n q)"
proof -
  have "pend_list f n q = pend_list f n (take j q) @ pend_list f n (drop j q)"
    by (metis append_take_drop_id pend_list_append)
  then show ?thesis by (metis append_eq_conv_conj)
qed

lemma publish_id: "(\<And>k b. (k, b) \<in> set q \<Longrightarrow> m k \<noteq> None) \<Longrightarrow> publish q m = m"
proof (induction q)
  case (Cons x q)
  have "m (fst x) \<noteq> None" using Cons(2) [of "fst x" "snd x"] by simp
  moreover have "publish q m = m" by (rule Cons(1)) (metis Cons(2) list.set_intros(2))
  ultimately show ?case by (cases x) auto
qed simp

lemma pend_list_mem: "(k, ob) \<in> set (pend_list f n q) \<Longrightarrow> \<exists>st fin. (st, fin) \<in> set q \<and> k = drop n fin"
proof (induction q)
  case (Cons x q)
  obtain st fin where x: "x = (st, fin)" by (cases x)
  have "k = drop n fin \<or> (k, ob) \<in> set (pend_list f n q)" using Cons(2) by (cases "f st") (auto simp: x)
  then show ?case using Cons(1) by (auto simp: x)
qed simp

definition queue_ok :: "fs \<Rightarrow> (string \<times> string) list \<Rightarrow> bool" where
  "queue_ok w q \<longleftrightarrow> distinct (map fst q) \<and>
     (\<forall>(st, fin) \<in> set q. \<exists>k i. okkey k \<and> fin = path w k \<and> i < os_drawn w \<and> st = dfr w fin i)"

lemma queue_ok_upd:
  assumes q: "queue_ok w q" and u: "upd w w' S"
  shows "queue_ok w' q"
proof -
  have "os_drawn w \<le> os_drawn w'" using u by (simp add: upd_def)
  then show ?thesis
    using q unfolding queue_ok_def upd_path [OF u] upd_dfr [OF u] by (fastforce dest: less_le_trans)
qed

lemma queue_ok_Cons:
  assumes "queue_ok w ((st, fin) # q)"
  obtains k i where "okkey k" "fin = path w k" "st = dfr w fin i" "queue_ok w q" "st \<notin> fst ` set q"
  using assms unfolding queue_ok_def by auto

lemma drop_path: "drop (Suc (length (p_root w))) (path w k) = k"
  by (simp add: path_def)

lemma dfr_not_key: "okkey k \<Longrightarrow> path w k \<noteq> dfr w (path w k') i"
  using okkey_not_staging [of k "''.deferred-''" w k' "os_rand w i"] unfolding dfr_def by blast

text \<open>One queued write: it is published, found in place, or refused with nothing changed.\<close>

definition step_effect :: "fs \<Rightarrow> fs \<Rightarrow> string \<Rightarrow> string \<Rightarrow> string \<Rightarrow> bool" where
  "step_effect w w' st fin k \<longleftrightarrow> upd w w' {st, fin} \<and> fs_objs w' k \<noteq> None \<and>
     fs_objs w' = publish (pend_list (fv w) (Suc (length (p_root w))) [(st, fin)]) (fs_objs w)"

lemma step_effect_publish:
  assumes w: "fs_wf w" "root_ok w" and k: "okkey k" "fin = path w k" "st = dfr w fin i"
    and l: "fv w st = Some ob" "fv w1 fin = Some ob'" "upd w w1 {fin}" "fv w fin = None \<and> ob' = ob \<or> fv w fin = Some ob'"
  shows "step_effect w (drop_Remove st w1) st fin k"
proof -
  let ?w2 = "drop_Remove st w1"
  have r: "upd w1 ?w2 {st}" by (rule drop_Remove_upd [OF upd_wf [OF l(3)]])
  have u: "upd w ?w2 {st, fin}" by (rule upd_trans [OF l(3) r]) auto
  have ne: "fin \<noteq> st" using dfr_not_key [OF k(1)] k by simp
  have fvf: "fv ?w2 fin = Some ob'" using r ne l(2) by (simp add: upd_def)
  have ns: "okkey k' \<Longrightarrow> k' \<noteq> k \<Longrightarrow> path w k' \<notin> {st, fin}" for k' using dfr_not_key [of k' w k i] k by auto
  have "fs_objs ?w2 = (fs_objs w)(k \<mapsto> ob')" using upd_objs_at [OF u k(1) ns] fvf k(2) by simp
  moreover have "publish (pend_list (fv w) (Suc (length (p_root w))) [(st, fin)]) (fs_objs w) = (fs_objs w)(k \<mapsto> ob')"
    using l(1,4) k(1,2) by (auto simp: drop_path fs_objs_def fun_eq_iff)
  ultimately show ?thesis using u by (simp add: step_effect_def)
qed

lemma step_effect_skip:
  assumes "upd w w1 {}" "fs_objs w k \<noteq> None" "fin = path w k"
  shows "step_effect w w1 st fin k"
  using assms upd_objs [OF assms(1)] upd_mono [OF assms(1)]
  by (auto simp: step_effect_def drop_path split: option.splits)

lemma publish_keeps: "m k \<noteq> None \<Longrightarrow> publish q m k \<noteq> None"
  by (induction q m rule: publish.induct) auto

lemma publishDeferred_effect:
  assumes "fs_wf w" "root_ok w" "queue_ok w q" "publishDeferred ctx q w = ((rest, e), w')"
  shows "\<exists>n. rest = drop n q \<and> (e = None \<longrightarrow> n = length q) \<and> upd w w' (fst ` set (take n q) \<union> snd ` set (take n q)) \<and>
    fs_objs w' = publish (pend_list (fv w) (Suc (length (p_root w))) (take n q)) (fs_objs w) \<and>
    (\<forall>(st, fin) \<in> set (take n q). fs_objs w' (drop (Suc (length (p_root w))) fin) \<noteq> None)"
  using assms
proof (induction q arbitrary: w rest)
  case Nil
  then show ?case by auto
next
  case (Cons x q)
  obtain st fin where x: "x = (st, fin)" by (cases x)
  obtain k i where k: "okkey k" "fin = path w k" "st = dfr w fin i" "queue_ok w q" "st \<notin> fst ` set q"
    using queue_ok_Cons [of w st fin q] Cons(4) x by blast
  let ?N = "Suc (length (p_root w))"
  obtain e1 w1 where c: "ctx_Err ctx w = (e1, w1)" by fastforce
  have u1: "upd w w1 {}" using ctx_Err_upd [OF Cons(2) c] by simp
  have stop: ?case if "rest = x # q" "e \<noteq> None" "upd w w' {}"
    using that upd_objs [OF that(3)] by (intro exI [of _ 0]) auto
  have cont: ?case if st1: "step_effect w w2 st fin k" and pd: "publishDeferred ctx q w2 = ((rest, e), w')" for w2
  proof -
    have u: "upd w w2 {st, fin}" using st1 by (simp add: step_effect_def)
    have w2: "fs_wf w2" "root_ok w2" "queue_ok w2 q" "p_root w2 = p_root w"
      using upd_wf [OF u] Cons(3) u queue_ok_upd [OF k(4) u] by (auto simp: upd_def root_ok_def)
    obtain n where n: "rest = drop n q" "e = None \<longrightarrow> n = length q" "upd w2 w' (fst ` set (take n q) \<union> snd ` set (take n q))"
      "fs_objs w' = publish (pend_list (fv w2) ?N (take n q)) (fs_objs w2)"
      "\<forall>(st, fin) \<in> set (take n q). fs_objs w' (drop ?N fin) \<noteq> None"
      using Cons(1) [OF w2(1-3) pd] unfolding w2(4) by blast
    have same: "pend_list (fv w2) ?N (take n q) = pend_list (fv w) ?N (take n q)"
    proof (rule pend_list_cong)
      fix st' fin' assume "(st', fin') \<in> set (take n q)"
      then have m: "(st', fin') \<in> set q" by (meson in_set_takeD)
      then obtain k' i' where "fin' = path w k'" "st' = dfr w fin' i'" using k(4) unfolding queue_ok_def by fast
      moreover have "st' \<noteq> st" using m k(5) by force
      ultimately have "st' \<notin> {st, fin}" using dfr_not_key [OF k(1), of w k' i'] k(2) by auto
      then show "fv w2 st' = fv w st'" using u by (simp add: upd_def)
    qed
    have "upd w w' (fst ` set (take (Suc n) (x # q)) \<union> snd ` set (take (Suc n) (x # q)))"
      by (rule upd_trans [OF u n(3)]) (auto simp: x)
    moreover have "fs_objs w' = publish (pend_list (fv w) ?N (take (Suc n) (x # q))) (fs_objs w)"
      using n(4) same st1 pend_list_append [of "fv w" ?N "[x]" "take n q"]
      by (simp add: step_effect_def x publish_append del: pend_list.simps)
    moreover have "fs_objs w' (drop ?N fin) \<noteq> None"
      unfolding n(4) k(2) drop_path by (rule publish_keeps) (use st1 in \<open>unfold step_effect_def, blast\<close>)
    ultimately show ?thesis using n(1,2,5) by (intro exI [of _ "Suc n"]) (simp add: x)
  qed
  show ?case
  proof (cases e1)
    case (Some y)
    then show ?thesis using Cons(5) c x stop u1 by auto
  next
    case None
    obtain r2 w2 where ln: "os_Link st fin w1 = (r2, w2)" by fastforce
    have po: "canon fin" "fin \<noteq> ''/''" using path_ok [OF Cons(3) k(1)] k(2) by auto
    have nd: "lookup w1 fin \<noteq> Some NDir" using full_not_dir [OF Cons(3) k(1) u1] k(2) by simp
    note l2 = os_Link_upd [OF upd_wf [OF u1] po ln]
    have fv1: "fv w1 = fv w" by (rule upd_empty [OF u1])
    note pd = Cons(5) [unfolded x publishDeferred.simps c prod.case None option.case ln]
    show ?thesis
    proof (cases r2)
      case (Inr y)
      have u: "upd w w2 {fin}" using upd_trans [OF u1, of w2 "{fin}" "{fin}"] l2 Inr by auto
      obtain ob where "fv w st = Some ob" "fv w fin = None" "fv w2 fin = Some ob"
        using l2 Inr fv1 fv_None [of w1 fin] by auto
      then show ?thesis
        using cont [OF step_effect_publish [OF Cons(2,3) k(1-3) _ _ u]] pd Inr by auto
    next
      case (Inl e2)
      have u: "upd w w2 {}" using upd_trans [OF u1, of w2 "{}" "{}"] l2 Inl by auto
      obtain r3 w3 where sf: "os_Stat fin w2 = (r3, w3)" by fastforce
      note s3 = os_Stat_upd [OF upd_wf [OF u] sf]
      have u3: "upd w w3 {}" using upd_trans [OF u, of w3 "{}" "{}"] s3 by simp
      have lk: "lookup w2 = lookup w1" using l2 Inl by (auto intro: lookup_cong)
      show ?thesis
      proof (cases "is_sys e2 EEXIST")
        case True
        then have ex: "fv w fin \<noteq> None"
          using l2 Inl nd fv_file [OF nd] fv1 by (auto simp: ok_fault_def missing_err_def split: if_splits)
        show ?thesis
        proof (cases "fv w st")
          case (Some ob)
          have "fv w2 fin = fv w fin" using u by (simp add: upd_def)
          then show ?thesis
            using cont [OF step_effect_publish [OF Cons(2,3) k(1-3) Some _ upd_mono [OF u]]] pd Inl True ex by auto
        next
          case None
          have r: "upd w2 (drop_Remove st w2) {st}" by (rule drop_Remove_upd [OF upd_wf [OF u]])
          have ur: "upd w (drop_Remove st w2) {st, fin}" by (rule upd_trans [OF u r]) auto
          have "fs_objs (drop_Remove st w2) = fs_objs w"
            using upd_objs [OF upd_trans [OF u r, of "{st}"]] dfr_not_key [of _ w k i] k by auto
          then have "step_effect w (drop_Remove st w2) st fin k"
            using ur None ex k(1,2) by (simp add: step_effect_def fs_objs_def)
          then show ?thesis using cont pd Inl True by auto
        qed
      next
        case nex: False
        show ?thesis
        proof (cases "is_sys e2 ENOENT \<and> \<not> isl r3")
          case True
          then have "lookup w1 fin \<noteq> None" using s3 lk by (cases r3) auto
          then have "fs_objs w k \<noteq> None" using fv_file [OF nd] fv1 k(1,2) by (simp add: fs_objs_def)
          then have "step_effect w w3 st fin k" by (rule step_effect_skip [OF u3 _ k(2)])
          then show ?thesis using cont pd Inl nex True sf by (cases r3) auto
        next
          case False
          then show ?thesis using pd Inl nex sf stop u u3 x by (cases r3) (auto split: if_splits)
        qed
      qed
    qed
  qed
qed

end
