(* ===== verification/FsLaws.thy ===== *)
theory FsLaws
  imports FsStore
begin

text \<open>
  The filesystem plugin meets the contract of the object store: the barrier and the listing, and the
  interpretation of \<open>runtime_store\<close>.
\<close>

subsection \<open>The barrier\<close>

lemma syncfsRoot_upd:
  assumes "fs_wf w" "syncfsRoot w = (r, w')"
  shows "upd w w' {}"
proof -
  obtain r1 w1 where o: "os_Open (p_root w) w = (r1, w1)" by fastforce
  have u1: "upd w w1 {}" using os_Open_upd [OF assms(1) o] by auto
  obtain r2 w2 where y: "sys_Syncfs w1 = (r2, w2)" by fastforce
  have "upd w w2 {}" using upd_trans [OF u1, of w2 "{}" "{}"] sys_Syncfs_upd [OF upd_wf [OF u1] y] by auto
  then show ?thesis using assms(2) o y u1 by (auto simp: syncfsRoot_def split: sum.splits if_splits)
qed

lemma pend_rest:
  assumes q: "queue_ok w q" and u: "upd w w' (fst ` set (take n q) \<union> snd ` set (take n q))"
  shows "pend_list (fv w') N (drop n q) = pend_list (fv w) N (drop n q)"
proof (rule pend_list_cong)
  fix st fin assume m: "(st, fin) \<in> set (drop n q)"
  then have mq: "(st, fin) \<in> set q" by (meson in_set_dropD)
  have "distinct (map fst (take n q @ drop n q))" using q by (simp add: queue_ok_def)
  then have "st \<notin> fst ` set (take n q)" using m by (auto simp del: append_take_drop_id simp: image_iff) (metis fst_conv image_eqI disjoint_iff)
  moreover have "st \<noteq> fin'" if "(st', fin') \<in> set (take n q)" for st' fin'
  proof -
    have "(st', fin') \<in> set q" using that by (meson in_set_takeD)
    then obtain k' where "okkey k'" "fin' = path w k'" using q unfolding queue_ok_def by fast
    moreover obtain k i where "fin = path w k" "st = dfr w fin i" using q mq unfolding queue_ok_def by fast
    ultimately show ?thesis using dfr_not_key [of k' w k i] by auto
  qed
  ultimately have "st \<notin> fst ` set (take n q) \<union> snd ` set (take n q)" by (metis UnE imageE prod.collapse)
  then show "fv w' st = fv w st" using u by (simp add: upd_def)
qed

lemma good_queue: "fs_good w \<longleftrightarrow> fs_wf w \<and> root_ok w \<and> queue_ok w (p_deferred w)"
  by (simp add: fs_good_def def_ok_def queue_ok_def)

lemma queue_ok_drop: "queue_ok w q \<Longrightarrow> queue_ok w (drop n q)"
  unfolding queue_ok_def by (auto simp: drop_map [symmetric] dest!: in_set_dropD)

text \<open>The state with its queue replaced.\<close>

lemma set_queue [simp]:
  "fs_wf (w\<lparr>p_deferred := q\<rparr>) = fs_wf w" "root_ok (w\<lparr>p_deferred := q\<rparr>) = root_ok w"
  "path (w\<lparr>p_deferred := q\<rparr>) = path w" "dfr (w\<lparr>p_deferred := q\<rparr>) = dfr w" "fv (w\<lparr>p_deferred := q\<rparr>) = fv w"
  "fs_objs (w\<lparr>p_deferred := q\<rparr>) = fs_objs w" "queue_ok (w\<lparr>p_deferred := q\<rparr>) = queue_ok w"
proof -
  let ?w = "w\<lparr>p_deferred := q\<rparr>"
  have lk: "lookup ?w = lookup w" by (rule lookup_cong) simp_all
  show fv: "fv ?w = fv w" by (simp add: fun_eq_iff fv_def lk split: option.splits node.splits)
  show pth: "path ?w = path w" by (simp add: fun_eq_iff path_def)
  show dfr: "dfr ?w = dfr w" by (simp add: fun_eq_iff dfr_def)
  show "fs_objs ?w = fs_objs w" by (simp add: fun_eq_iff fs_objs_def fv pth)
  show "queue_ok ?w = queue_ok w" by (simp add: fun_eq_iff queue_ok_def pth dfr)
  show "root_ok ?w = root_ok w" by (simp add: root_ok_def)
  show "fs_wf ?w = fs_wf w" by (simp add: fs_wf_def script_ok_def tree_ok_def dirs_ok_def lk)
qed

lemma requeue_simps:
  assumes "p_deferred w = []"
  shows "fs_pend (requeue q w) = pend_list (fv w) (Suc (length (p_root w))) q" "fs_objs (requeue q w) = fs_objs w"
    "fs_wf w \<Longrightarrow> root_ok w \<Longrightarrow> queue_ok w q \<Longrightarrow> fs_good (requeue q w)"
  using assms by (auto simp: requeue_def fs_pend_def good_queue)

lemma fs_Barrier_laws:
  assumes g: "fs_good w" and b: "fs_Barrier ctx w = (r, w')"
  shows "fs_good w' \<and> (\<exists>n. fs_objs w' = publish (take n (fs_pend w)) (fs_objs w)) \<and>
    publish (fs_pend w') (fs_objs w') = publish (fs_pend w) (fs_objs w) \<and> (r = None \<longrightarrow> fs_pend w' = [])"
    (is "?laws w'")
proof -
  have wf: "fs_wf w" "root_ok w" using g by (auto simp: fs_good_def)
  obtain e w1 where c: "ctx_Err ctx w = (e, w1)" by fastforce
  have u1: "upd w w1 {}" using ctx_Err_upd [OF wf(1) c] by simp
  let ?q = "p_deferred w" and ?N = "Suc (length (p_root w))"
  have qs: "p_deferred w1 = ?q" "p_root w1 = p_root w" "p_root w \<noteq> []" "queue_ok w ?q"
    using u1 wf(2) g by (auto simp: upd_def root_ok_def abs_path_def good_queue)
  have p: "fs_pend w = pend_list (fv w) ?N ?q" by (simp add: fs_pend_def)
  have same: "fs_good v \<and> fs_objs v = fs_objs w \<and> fs_pend v = fs_pend w \<Longrightarrow> r \<noteq> None \<or> fs_pend w = [] \<Longrightarrow> ?laws v" for v
    by (auto intro: exI [of _ 0])
  note b = b [unfolded fs_Barrier_def, simplified c prod.case]
  show ?thesis
  proof (cases "e \<noteq> None \<or> ?q = []")
    case True
    have "fs_good w1 \<and> fs_objs w1 = fs_objs w \<and> fs_pend w1 = fs_pend w"
      using upd_good [OF g u1] upd_objs [OF u1] upd_pend [OF u1] by simp
    moreover have "w1\<lparr>p_deferred := []\<rparr> = w1" if "?q = []" using qs(1) that by (cases w1) simp
    moreover have "w' = w1 \<and> r \<noteq> None \<or> w' = w1\<lparr>p_deferred := []\<rparr> \<and> ?q = [] \<and> fs_pend w = []"
      using b True qs p by (cases e) (auto split: if_splits)
    ultimately show ?thesis using same [of w'] by metis
  next
    case False
    let ?w2 = "w1\<lparr>p_deferred := []\<rparr>"
    have g2: "fs_wf ?w2" "root_ok ?w2" "queue_ok ?w2 ?q" "fv ?w2 = fv w" "p_root ?w2 = p_root w" "fs_objs ?w2 = fs_objs w"
      using upd_wf [OF u1] wf(2) queue_ok_upd [OF qs(4) u1] upd_empty [OF u1] qs(2) upd_objs [OF u1] by (auto simp: root_ok_def)
    have rq: "fs_good (requeue (drop n ?q) v) \<and> fs_objs (requeue (drop n ?q) v) = fs_objs v \<and>
        fs_pend (requeue (drop n ?q) v) = pend_list (fv v) ?N (drop n ?q)" if "upd ?w2 v S" for v S n
    proof -
      have "p_deferred v = []" "fs_wf v" "root_ok v" "p_root v = p_root w"
        using that g2(2,5) by (auto simp: upd_def root_ok_def)
      then show ?thesis using requeue_simps [of v] queue_ok_drop [OF queue_ok_upd [OF g2(3) that]] by simp
    qed
    obtain e3 w3 where y3: "syncfsRoot ?w2 = (e3, w3)" by fastforce
    have u3: "upd ?w2 w3 {}" by (rule syncfsRoot_upd [OF g2(1) y3])
    obtain rest e4 w4 where pd: "publishDeferred ctx ?q w3 = ((rest, e4), w4)" by (metis prod.exhaust)
    have g3: "fs_wf w3" "root_ok w3" "queue_ok w3 ?q" "fv w3 = fv w" "p_root w3 = p_root w" "fs_objs w3 = fs_objs w"
      using upd_wf [OF u3] g2(2,4-6) u3 queue_ok_upd [OF g2(3) u3] upd_empty [OF u3] upd_objs [OF u3]
      by (auto simp: upd_def root_ok_def)
    obtain n where n: "rest = drop n ?q" "e4 = None \<longrightarrow> n = length ?q"
      "upd w3 w4 (fst ` set (take n ?q) \<union> snd ` set (take n ?q))"
      "fs_objs w4 = publish (pend_list (fv w) ?N (take n ?q)) (fs_objs w)"
      "\<forall>(st, fin) \<in> set (take n ?q). fs_objs w4 (drop ?N fin) \<noteq> None"
      using publishDeferred_effect [OF g3(1-3) pd] unfolding g3(4-6) by blast
    have u4: "upd ?w2 w4 (fst ` set (take n ?q) \<union> snd ` set (take n ?q))" by (rule upd_trans [OF u3 n(3)]) auto
    have split: "fs_pend w = pend_list (fv w) ?N (take n ?q) @ pend_list (fv w) ?N (drop n ?q)"
      unfolding p by (metis append_take_drop_id pend_list_append)
    then have pre: "fs_objs w4 = publish (take (length (pend_list (fv w) ?N (take n ?q))) (fs_pend w)) (fs_objs w)"
      using n(4) by simp
    have rst: "pend_list (fv w4) ?N (drop n ?q) = pend_list (fv w) ?N (drop n ?q)"
      using pend_rest [OF g3(3) n(3)] g3(4) by simp
    obtain e5 w5 where y5: "syncfsRoot w4 = (e5, w5)" by fastforce
    have u5: "upd w4 w5 {}" by (rule syncfsRoot_upd [OF upd_wf [OF n(3)] y5])
    have o5: "fs_objs w5 = fs_objs w4" "fv w5 = fv w4" using upd_objs [OF u5] upd_empty [OF u5] by auto
    have u5': "upd ?w2 w5 (fst ` set (take n ?q) \<union> snd ` set (take n ?q))" by (rule upd_trans [OF u4 u5]) auto
    have e: "e = None" "?q \<noteq> []" using False by auto
    note b = b [unfolded e(1) qs(1,2) prod.case option.case Let_def y3 pd if_not_P [OF qs(3)] if_not_P [OF e(2)]]
    show ?thesis
    proof (cases e3)
      case (Some y)
      then show ?thesis using b y3 rq [OF u3, of 0] g3(4,6) p by (auto intro: exI [of _ 0])
    next
      case None
      note b = b [unfolded None option.case]
      show ?thesis
      proof (cases e4)
        case (Some y)
        then have "r = Some y" "w' = requeue (drop n ?q) w4" using b n(1) by auto
        moreover have "publish (fs_pend w') (fs_objs w') = publish (fs_pend w) (fs_objs w)"
          using \<open>w' = _\<close> rq [OF u4, of n] rst split n(4) by (simp add: publish_append)
        ultimately show ?thesis using rq [OF u4, of n] pre by (intro conjI exI) simp_all
      next
        case None
        then have n': "n = length ?q" using n(2) by simp
        then have pub: "fs_objs w5 = publish (fs_pend w) (fs_objs w)" using n(4) o5 p by simp
        note b = b [unfolded None option.case y5 prod.case]
        show ?thesis
        proof (cases e5)
          case (Some y)
          then have w': "r = Some y" "w' = requeue (drop 0 ?q) w5" using b by auto
          have "fs_objs w5 k \<noteq> None" if "(k, ob) \<in> set (pend_list (fv w5) ?N ?q)" for k ob
            using pend_list_mem [OF that] n(5) n' o5(1) by auto
          then have "publish (pend_list (fv w5) ?N ?q) (fs_objs w5) = fs_objs w5" by (rule publish_id)
          then show ?thesis using w' rq [OF u5', of 0] pub by (auto intro: exI [of _ "length (fs_pend w)"])
        next
          case None
          then have w': "r = None" "w' = w5" using b by auto
          have "fs_pend w5 = []" "fs_good w5"
            using u5' g2(2) upd_wf [OF u5'] by (auto simp: upd_def fs_pend_def good_queue queue_ok_def root_ok_def)
          then show ?thesis using w' pub by (auto intro: exI [of _ "length (fs_pend w)"])
        qed
      qed
    qed
  qed
qed

subsection \<open>The listing\<close>

text \<open>A state that differs only in the scripts consumed.\<close>

definition obs :: "fs \<Rightarrow> fs \<Rightarrow> bool" where
  "obs w w' \<longleftrightarrow> upd w w' {} \<and> os_ents w' = os_ents w"

lemma obs_refl [simp]: "fs_wf w \<Longrightarrow> obs w w"
  by (simp add: obs_def)

lemma obs_trans: "obs w w1 \<Longrightarrow> obs w1 w2 \<Longrightarrow> obs w w2"
  unfolding obs_def using upd_trans [of w w1 "{}" w2 "{}" "{}"] by simp

lemma obsD:
  assumes "obs w w'"
  shows "fs_wf w' \<and> lookup w' = lookup w \<and> fv w' = fv w \<and> p_root w' = p_root w \<and> path w' = path w \<and>
    max_depth w' = max_depth w"
proof -
  have u: "upd w w' {}" and e: "os_ents w' = os_ents w" using assms by (auto simp: obs_def)
  have "p_root w' = p_root w" using u by (simp add: upd_def)
  moreover have "max_depth w' = max_depth w" by (simp add: max_depth_def e)
  ultimately show ?thesis using upd_wf [OF u] lookup_cong [OF e] upd_empty [OF u] upd_path [OF u] by blast
qed

lemma ctx_Err_obs: "fs_wf w \<Longrightarrow> ctx_Err ctx w = (e, w') \<Longrightarrow> obs w w'"
  using ctx_Err_upd by (auto simp: obs_def)

lemma os_Stat_obs:
  assumes "fs_wf w" "os_Stat p w = (r, w')"
  shows "obs w w' \<and> (case r of Inr n \<Rightarrow> lookup w p = Some n | Inl e \<Rightarrow> ok_fault e \<or> lookup w p = None)"
proof -
  note u = os_Stat_upd [OF assms]
  then show ?thesis unfolding obs_def by (auto split: sum.splits)
qed

lemma os_ReadDir_obs:
  assumes "fs_wf w" "os_ReadDir d w = (r, w')"
  shows "obs w w' \<and> (case r of
      Inr es \<Rightarrow> es = filter (\<lambda>(q, n). q \<noteq> d \<and> Dir q = d) (os_ents w)
    | Inl e \<Rightarrow> ok_fault e \<or> lookup w d \<noteq> Some NDir)"
  using assms(2) unfolding os_ReadDir_def
  by (rule sys_cases [OF assms(1)])
    (auto simp: obs_def lookup_def split: option.splits node.splits)

lemma set_batched_sort [simp]: "set (batched_sort es) = set es"
proof -
  have "set (batched_sort es) = set (concat (batches walkDirBatch es))" by (simp add: batched_sort_def)
  then show ?thesis by (simp add: batches_concat walkDirBatch_def)
qed

lemma walk_obs:
  "fs_wf w \<Longrightarrow> walk depth p n w = (vs, w') \<Longrightarrow> obs w w'"
  "fs_wf w \<Longrightarrow> walk_list depth es w = (vs, w') \<Longrightarrow> obs w w'"
proof (induction depth p n w and depth es w arbitrary: vs w' and vs w' rule: walk_walk_list.induct)
  case (3 depth path w)
  obtain r w1 where rd: "os_ReadDir path w = (r, w1)" by fastforce
  have o: "obs w w1" using os_ReadDir_obs [OF 3(2) rd] by simp
  show ?case
  proof (cases r)
    case (Inr es)
    obtain v w2 where wl: "walk_list depth (batched_sort es) w1 = (v, w2)" by fastforce
    have "obs w1 w2" using 3(1) [OF rd [symmetric] Inr _ wl] obsD [OF o] by simp
    then show ?thesis using 3(3) rd Inr wl obs_trans [OF o] by auto
  qed (use 3(3) rd o in auto)
next
  case (5 depth p n es w)
  obtain v1 w1 where w1: "walk depth p n w = (v1, w1)" by fastforce
  obtain v2 w2 where w2: "walk_list depth es w1 = (v2, w2)" by fastforce
  have o: "obs w w1" by (rule 5(1) [OF 5(3) w1])
  have "obs w1 w2" using 5(2) [OF w1 [symmetric] _ w2] obsD [OF o] by simp
  then show ?case using 5(4) w1 w2 obs_trans [OF o] by auto
qed auto

lemma walk_list_member:
  "fs_wf w \<Longrightarrow> walk_list depth es w = (vs, w') \<Longrightarrow> (p, n) \<in> set es \<Longrightarrow>
     \<exists>w1 v w2. obs w w1 \<and> walk depth p n w1 = (v, w2) \<and> set v \<subseteq> set vs"
proof (induction es arbitrary: w vs)
  case (Cons e es)
  obtain q m where e: "e = (q, m)" by (cases e)
  obtain v1 w1 where w1: "walk depth q m w = (v1, w1)" by fastforce
  obtain v2 w2 where w2: "walk_list depth es w1 = (v2, w2)" by fastforce
  have o: "obs w w1" by (rule walk_obs(1) [OF Cons(2) w1])
  have vs: "vs = v1 @ v2" using Cons(3) e w1 w2 by simp
  show ?case
  proof (cases "(p, n) = (q, m)")
    case True
    then show ?thesis using w1 vs Cons(2) by (intro exI [of _ w] exI [of _ v1] exI [of _ w1]) auto
  next
    case False
    then have "(p, n) \<in> set es" using Cons(4) e by auto
    moreover have "walk_list depth es w1 = (v2, w')" using Cons(3) e w1 w2 by simp
    ultimately obtain w3 v w4 where "obs w1 w3" "walk depth p n w3 = (v, w4)" "set v \<subseteq> set v2"
      using Cons(1) [of w1 v2] obsD [OF o] by blast
    then show ?thesis using vs obs_trans [OF o] by fastforce
  qed
qed simp

lemma tree_parents:
  assumes "tree_ok w" "list_all plain (as @ bs)" "lookup w (abs_path (as @ bs)) = Some n" "bs \<noteq> []"
  shows "lookup w (abs_path as) = Some NDir"
  using assms(2-4)
proof (induction bs arbitrary: n rule: rev_induct)
  case (snoc b bs)
  have "lookup w (abs_path (as @ bs)) = Some NDir"
    using tree_okD(4) [OF assms(1), of "as @ bs" b n] snoc(2,3) by simp
  then show ?case using snoc(1,2) by (cases "bs = []") auto
qed simp

text \<open>A walk that reports no error but a missing entry visits every file below its root.\<close>

lemma walk_complete:
  assumes "fs_wf w" "lookup w (abs_path bs) = Some n" "lookup w (abs_path (bs @ cs)) = Some (NFile i)"
    "list_all plain (bs @ cs)" "length cs \<le> depth" "walk depth (abs_path bs) n w = (vs, w')"
    "\<forall>p e. VisitErr p e \<in> set vs \<longrightarrow> is_sys e ENOENT"
  shows "Visit (abs_path (bs @ cs)) (NFile i) \<in> set vs"
  using assms
proof (induction depth arbitrary: bs cs n w vs w')
  case 0
  then show ?case by auto
next
  case (Suc depth)
  have t: "tree_ok w" using Suc(2) by (simp add: fs_wf_def)
  show ?case
  proof (cases cs)
    case Nil
    then show ?thesis using Suc(3,4,7) by auto
  next
    case (Cons c ds)
    have nd: "n = NDir" using tree_parents [OF t Suc(5,4)] Suc(3) Cons by simp
    obtain r w1 where rd: "os_ReadDir (abs_path bs) w = (r, w1)" by fastforce
    note o = os_ReadDir_obs [OF Suc(2) rd]
    have "VisitErr (abs_path bs) e \<in> set vs" if "r = Inl e" for e using Suc(7) nd rd that by auto
    then have "is_sys e ENOENT" if "r = Inl e" for e using Suc(8) that by blast
    moreover have "\<not> is_sys e ENOENT" if "r = Inl e" for e using o that Suc(3) nd by (auto simp: ok_fault_def)
    ultimately obtain es where r: "r = Inr es" by (cases r) auto
    have es: "es = filter (\<lambda>(q, n). q \<noteq> abs_path bs \<and> Dir q = abs_path bs) (os_ents w)" and o1: "obs w w1"
      using o r by auto
    obtain v w2 where wl: "walk_list depth (batched_sort es) w1 = (v, w2)" by fastforce
    have vs: "vs = Visit (abs_path bs) NDir # v" using Suc(7) nd rd r wl by simp
    have pl: "list_all plain (bs @ [c])" "list_all plain (bs @ [c] @ ds)" using Suc(5) Cons by auto
    obtain m where m: "lookup w (abs_path (bs @ [c])) = Some m"
      using tree_parents [OF t, of "bs @ [c]" ds] Suc(4) pl Cons by (cases "ds = []") auto
    then have "(abs_path (bs @ [c]), m) \<in> set (os_ents w)" by (simp add: lookup_def map_of_SomeD)
    moreover have "abs_path (bs @ [c]) \<noteq> abs_path bs" using pl(1) by simp
    ultimately have "(abs_path (bs @ [c]), m) \<in> set (batched_sort es)" using es Dir_abs_path [OF pl(1)] by simp
    then obtain w3 u w4 where u: "obs w1 w3" "walk depth (abs_path (bs @ [c])) m w3 = (u, w4)" "set u \<subseteq> set v"
      using walk_list_member [OF _ wl] obsD [OF o1] by blast
    have o3: "fs_wf w3 \<and> lookup w3 = lookup w" using obsD [OF obs_trans [OF o1 u(1)]] by simp
    have "Visit (abs_path ((bs @ [c]) @ ds)) (NFile i) \<in> set u"
      using Suc(1) [of w3 "bs @ [c]" m ds u w4] o3 m Suc(4,6,8) Cons pl u vs by auto
    then show ?thesis using vs u(3) Cons by auto
  qed
qed

lemma list_loop_obs:
  "fs_wf w \<Longrightarrow> list_loop ctx vs w = ((is, e), w') \<Longrightarrow> obs w w' \<and>
     (\<forall>i \<in> set is. \<exists>p n v. obs w v \<and> lookup w p = Some n \<and> i = file_info v (rel_path w p) n) \<and>
     (e = None \<longrightarrow> (\<forall>p x. VisitErr p x \<in> set vs \<longrightarrow> is_sys x ENOENT) \<and>
       (\<forall>p i. Visit p (NFile i) \<in> set vs \<longrightarrow> \<not> isFSStagingName (Basename p) \<longrightarrow> lookup w p \<noteq> None \<longrightarrow>
         rel_path w p \<in> oi_Key ` set is))"
proof (induction vs arbitrary: w "is")
  case (Cons v vs)
  obtain ce w1 where c: "ctx_Err ctx w = (ce, w1)" by fastforce
  have o1: "obs w w1" by (rule ctx_Err_obs [OF Cons(2) c])
  note d1 = obsD [OF o1]
  have IH: ?case if o: "obs w u" and l: "list_loop ctx vs u = ((js, e), w')" and js: "set js \<subseteq> set is"
      "\<forall>i \<in> set is. i \<in> set js \<or> (\<exists>p n. lookup w p = Some n \<and> i = file_info u (rel_path w p) n)"
    and v: "e = None \<Longrightarrow> (case v of VisitErr p x \<Rightarrow> is_sys x ENOENT | Visit p (NFile i) \<Rightarrow>
         isFSStagingName (Basename p) \<or> lookup w p = None \<or> rel_path w p \<in> oi_Key ` set is | _ \<Rightarrow> True)" for u js
  proof -
    have rel: "rel_path u = rel_path w" "lookup u = lookup w" using obsD [OF o] by (auto simp: rel_path_def fun_eq_iff)
    note ih = Cons(1) [OF _ l, unfolded rel]
    show ?thesis
    proof (intro conjI)
      show "obs w w'" using ih obsD [OF o] obs_trans [OF o] by blast
      show "\<forall>i \<in> set is. \<exists>p n v. obs w v \<and> lookup w p = Some n \<and> i = file_info v (rel_path w p) n"
        using ih obsD [OF o] obs_trans [OF o] js(2) o by meson
      show "e = None \<longrightarrow> (\<forall>p x. VisitErr p x \<in> set (v # vs) \<longrightarrow> is_sys x ENOENT) \<and>
       (\<forall>p i. Visit p (NFile i) \<in> set (v # vs) \<longrightarrow> \<not> isFSStagingName (Basename p) \<longrightarrow> lookup w p \<noteq> None \<longrightarrow>
         rel_path w p \<in> oi_Key ` set is)"
      proof (intro impI conjI allI)
        assume e: "e = None"
        then have i: "VisitErr p x \<in> set vs \<Longrightarrow> is_sys x ENOENT" "Visit p (NFile i) \<in> set vs \<Longrightarrow>
            \<not> isFSStagingName (Basename p) \<Longrightarrow> lookup w p \<noteq> None \<Longrightarrow> rel_path w p \<in> oi_Key ` set is" for p x i
          using ih obsD [OF o] image_mono [OF js(1), of oi_Key] by blast+
        show "is_sys x ENOENT" if "VisitErr p x \<in> set (v # vs)" for p x using that i(1) v [OF e] by auto
        show "rel_path w p \<in> oi_Key ` set is"
          if "Visit p (NFile i) \<in> set (v # vs)" "\<not> isFSStagingName (Basename p)" "lookup w p \<noteq> None" for p i
          using that i(2) v [OF e] by (cases "v = Visit p (NFile i)") auto
      qed
    qed
  qed
  note l = Cons(3) [unfolded list_loop.simps c prod.case]
  show ?case
  proof (cases ce)
    case (Some x)
    then show ?thesis using l o1 by auto
  next
    case None
    note l = l [unfolded None option.case]
    show ?thesis
    proof (cases v)
      case (VisitErr p x)
      then show ?thesis using l o1 IH [OF o1, of "is"] by (auto split: if_splits)
    next
      case (Visit p n)
      show ?thesis
      proof (cases n)
        case NDir
        then show ?thesis using l Visit IH [OF o1, of "is"] by simp
      next
        case (NFile i)
        obtain r w2 where s: "os_Stat p w1 = (r, w2)" by fastforce
        have o2: "obs w w2" and r2: "(case r of Inr n \<Rightarrow> lookup w p = Some n | Inl e \<Rightarrow> ok_fault e \<or> lookup w p = None)"
          using os_Stat_obs [of w1 p r w2, unfolded conjunct1 [OF conjunct2 [OF d1]]] d1 s obs_trans [OF o1] by blast+
        note l = l [unfolded Visit NFile visit.case node.case s prod.case]
        show ?thesis
        proof (cases "isFSStagingName (Basename p)")
          case True
          then show ?thesis using l Visit NFile IH [OF o1, of "is"] by simp
        next
          case False
          note l = l [unfolded if_not_P [OF False]]
          show ?thesis
          proof (cases r)
            case (Inl x)
            show ?thesis
            proof (cases "is_sys x ENOENT")
              case True
              then have "lookup w p = None" using r2 Inl by (auto simp: ok_fault_def)
              then show ?thesis using l True Inl Visit NFile IH [OF o2, of "is"] by simp
            next
              case False
              then show ?thesis using l Inl o2 by auto
            qed
          next
            case (Inr m)
            obtain js e' w3 where ll: "list_loop ctx vs w2 = ((js, e'), w3)" by (metis prod.exhaust)
            have rel: "rel_path w2 p = rel_path w p" using obsD [OF o2] by (simp add: rel_path_def)
            have j: "is = file_info w2 (rel_path w p) m # js" "e' = e" "w3 = w'" using l Inr ll rel by auto
            have "oi_Key (file_info w2 (rel_path w p) m) = rel_path w p" by (cases m) (auto simp: file_info_def)
            then have key: "rel_path w p \<in> oi_Key ` set is" using j(1) by simp
            have "\<forall>i \<in> set is. i \<in> set js \<or> (\<exists>p n. lookup w p = Some n \<and> i = file_info w2 (rel_path w p) n)"
              using j(1) r2 Inr by auto
            moreover have "set js \<subseteq> set is" using j(1) by auto
            ultimately show ?thesis using IH [OF o2 ll [unfolded j(2,3)]] key Visit NFile by simp
          qed
        qed
      qed
    qed
  qed
qed simp

lemma walkDirBounded_obs:
  assumes w: "fs_wf w" and d: "walkDirBounded d w = (vs, w')"
  shows "obs w w'"
proof -
  obtain r w1 where st: "os_Stat d w = (r, w1)" by fastforce
  have o: "obs w w1" using os_Stat_obs [OF w st] by simp
  show ?thesis
  proof (cases r)
    case (Inr n)
    then show ?thesis
      using d st walk_obs(1) [of w1 "max_depth w1" d n vs w'] obsD [OF o] obs_trans [OF o] by (simp add: walkDirBounded_def)
  qed (use d st o in \<open>simp add: walkDirBounded_def\<close>)
qed

lemma fs_List_obs:
  assumes w: "fs_wf w" and l: "fs_List ctx p w = ((is, e), w')"
  shows "obs w w' \<and> (\<forall>i \<in> set is. \<exists>p n v. obs w v \<and> lookup w p = Some n \<and> i = file_info v (rel_path w p) n)"
proof -
  obtain ce w1 where c: "ctx_Err ctx w = (ce, w1)" by fastforce
  have o1: "obs w w1" by (rule ctx_Err_obs [OF w c])
  let ?base = "if p \<noteq> [] then path_Join (p_root w1) (Clean (''/'' @ p)) else p_root w1"
  obtain vs w2 where wd: "walkDirBounded ?base w1 = (vs, w2)" by fastforce
  have o2: "obs w w2" using walkDirBounded_obs [OF _ wd] obsD [OF o1] obs_trans [OF o1] by blast
  note l = l [unfolded fs_List_def c prod.case Let_def wd]
  show ?thesis
  proof (cases "p_root w = [] \<or> ce \<noteq> None")
    case True
    then show ?thesis using l w o1 by (cases ce) (auto split: if_splits)
  next
    case False
    then have "list_loop ctx vs w2 = ((is, e), w')" using l by auto
    note ll = list_loop_obs [OF _ this]
    have "lookup w2 = lookup w" "rel_path w2 = rel_path w" "fs_wf w2"
      using obsD [OF o2] by (auto simp: fun_eq_iff rel_path_def)
    then show ?thesis using ll obs_trans [OF o2] by metis
  qed
qed

lemma Split_append: "Split c (a @ c # b) = Split c a @ Split c b"
proof (induction a)
  case (Cons x a)
  then show ?case by (cases "Split c a") auto
qed simp

lemma Clean_trail:
  assumes "ds \<noteq> []" "list_all plain ds"
  shows "Clean (''/'' @ Join CHR ''/'' ds @ ''/'') = abs_path ds"
proof -
  have "Split CHR ''/'' (Join CHR ''/'' ds @ ''/'') = ds @ [[]]"
    using Split_Join [of "ds @ [[]]"] assms by (auto simp: Join_append list_all_iff plain_def)
  moreover have "clean_comps True acc (ds @ [[]]) = rev acc @ ds" for acc
    using assms(2) by (induction ds arbitrary: acc) (auto simp: plain_def)
  ultimately show ?thesis by (simp add: Clean_def abs_path_def)
qed

lemma path_Join_abs:
  assumes "rs \<noteq> []" "list_all plain rs" "list_all plain ds"
  shows "path_Join (abs_path rs) (abs_path ds) = abs_path (rs @ ds)"
proof -
  have s: "Split CHR ''/'' (Join CHR ''/'' rs @ CHR ''/'' # abs_path ds) = rs @ Split CHR ''/'' (abs_path ds)"
    using Split_Join [OF assms(1) plain_no_slash [OF assms(2)]] by (simp add: Split_append)
  have "clean_comps True acc (rs @ cs) = clean_comps True (rev rs @ acc) cs" for acc cs
    using assms(2) by (induction rs arbitrary: acc) (auto simp: plain_def)
  moreover have "clean_comps True acc (Split CHR ''/'' (abs_path ds)) = rev acc @ ds" for acc
  proof (cases "ds = []")
    case False
    then show ?thesis
      using Split_Join [OF False plain_no_slash [OF assms(3)]] clean_comps_plain [OF assms(3)] by (simp add: abs_path_def)
  qed (simp add: abs_path_def)
  ultimately have "clean_comps True [] (Split CHR ''/'' (Join CHR ''/'' rs @ CHR ''/'' # abs_path ds)) = rs @ ds"
    by (simp add: s)
  then show ?thesis by (simp add: path_Join_def Clean_def abs_path_def [of rs] abs_path_def [of "rs @ ds"])
    (simp add: abs_path_def)
qed

lemma list_base:
  assumes r: "p_root w = abs_path rs" "rs \<noteq> []" "list_all plain rs" and k: "okkey k" "HasPrefix k (d @ ''/'')"
  obtains ds cs where "path_Join (p_root w) (Clean (''/'' @ d @ ''/'')) = abs_path (rs @ ds)"
    "path w k = abs_path ((rs @ ds) @ cs)" "list_all plain ((rs @ ds) @ cs)" "cs \<noteq> []"
proof -
  obtain t where t: "k = d @ CHR ''/'' # t" using k(2) using HasPrefix_iff [of k "d @ ''/''"] by auto
  let ?ds = "Split CHR ''/'' d" and ?cs = "Split CHR ''/'' t"
  have pl: "list_all plain ?ds" "list_all plain ?cs" using k(1) by (auto simp: okkey_def t Split_append)
  have "path w k = abs_path rs @ CHR ''/'' # Join CHR ''/'' (?ds @ ?cs)"
    using Join_Split [of "CHR ''/''" k] r(1) by (simp add: path_def t Split_append)
  also have "\<dots> = abs_path ((rs @ ?ds) @ ?cs)" using abs_path_append [OF r(2), of "?ds @ ?cs"] by simp
  finally have p: "path w k = abs_path ((rs @ ?ds) @ ?cs)" .
  have "path_Join (p_root w) (Clean (''/'' @ d @ ''/'')) = abs_path (rs @ ?ds)"
    using Clean_trail [OF Split_ne pl(1)] path_Join_abs [OF r(2,3) pl(1)] by (simp add: Join_Split r(1))
  then show thesis using that [of ?ds ?cs] p r(3) pl by simp
qed

lemma fs_List_sound:
  assumes g: "fs_good w" and l: "fs_List ctx p w = ((is, e), w')" and i: "i \<in> set is" "okkey (oi_Key i)"
  shows "\<exists>b. fs_objs w (oi_Key i) = Some (b, oi_ModTime i) \<and> oi_Size i = length b"
proof -
  have wf: "fs_wf w" "root_ok w" using g by (auto simp: fs_good_def)
  obtain q n v where q: "obs w v" "lookup w q = Some n" "i = file_info v (rel_path w q) n"
    using fs_List_obs [OF wf(1) l] i(1) by blast
  have k: "oi_Key i = rel_path w q" using q(3) by (cases n) (auto simp: file_info_def)
  have "canon q" using tree_okD(2) q(2) wf(1) by (auto simp: fs_wf_def)
  have "q = path w (oi_Key i)"
  proof (cases "HasPrefix q (p_root w @ ''/'')")
    case True
    then show ?thesis using k HasPrefix_iff [of q "p_root w @ ''/''"] by (auto simp: rel_path_def path_def TrimPrefix_def)
  next
    case False
    then have "oi_Key i = q" using k by (simp add: rel_path_def TrimPrefix_def)
    then have "[] \<in> set (Split CHR ''/'' (oi_Key i))" using \<open>canon q\<close> by (auto simp: canon_def abs_path_def)
    then show ?thesis using i(2) by (auto simp: okkey_def list_all_iff plain_def)
  qed
  moreover have "lookup w (path w (oi_Key i)) \<noteq> Some NDir" by (rule okkey_not_dir [OF wf i(2)])
  ultimately obtain j where n: "n = NFile j" using q(2) by (cases n) auto
  have "lookup v q = Some (NFile j)" using q(2) n obsD [OF q(1)] by simp
  then have "fv v q = Some (in_data (os_inodes v ! j), in_mtime (os_inodes v ! j))" by (simp add: fv_def)
  then have "fv w q = Some (in_data (os_inodes v ! j), in_mtime (os_inodes v ! j))" using obsD [OF q(1)] by simp
  moreover have "oi_ModTime i = in_mtime (os_inodes v ! j)" "oi_Size i = length (in_data (os_inodes v ! j))"
    unfolding q(3) n by (simp_all add: file_info_def)
  moreover have "fs_objs w (oi_Key i) = fv w q" unfolding fs_objs_def if_P [OF i(2)] \<open>q = path w (oi_Key i)\<close> [symmetric] ..
  ultimately show ?thesis by simp
qed

lemma Basename_below: "Basename (a @ CHR ''/'' # k) = Basename k"
  by (simp add: Basename_def takeWhile_tail)

lemma le_max_depth: "lookup w p = Some n \<Longrightarrow> length p < max_depth w"
proof -
  assume "lookup w p = Some n"
  then have "(p, n) \<in> set (os_ents w)" by (simp add: lookup_def map_of_SomeD)
  moreover have "(p, n) \<in> set es \<Longrightarrow> length p \<le> foldr max (map (\<lambda>(p, n). length p) es) 0" for es
    by (induction es) (auto simp: le_max_iff_disj)
  ultimately have "length p \<le> foldr max (map (\<lambda>(p, n). length p) (os_ents w)) 0" by blast
  then show ?thesis by (simp add: max_depth_def)
qed

lemma length_abs_path: "list_all plain cs \<Longrightarrow> length cs \<le> length (abs_path cs)"
  by (induction "CHR ''/''" cs rule: Join.induct) (auto simp: abs_path_def plain_def)

lemma fs_List_complete:
  assumes g: "fs_good w" and l: "fs_List ctx (d @ ''/'') w = ((is, None), w')"
    and k: "okkey k" "HasPrefix k (d @ ''/'')" "fs_objs w k \<noteq> None"
  shows "\<exists>i \<in> set is. oi_Key i = k"
proof -
  have wf: "fs_wf w" "root_ok w" using g by (auto simp: fs_good_def)
  obtain rs where rs: "rs \<noteq> []" "list_all plain rs" "p_root w = abs_path rs" using wf(2) by (auto simp: root_ok_def)
  obtain ds cs where b: "path_Join (p_root w) (Clean (''/'' @ d @ ''/'')) = abs_path (rs @ ds)"
    "path w k = abs_path ((rs @ ds) @ cs)" "list_all plain ((rs @ ds) @ cs)" "cs \<noteq> []"
    using list_base [OF rs(3,1,2) k(1,2)] by metis
  obtain j where j: "lookup w (path w k) = Some (NFile j)"
    using k(1,3) by (auto simp: fs_objs_def fv_def split: option.splits node.splits)
  have dir: "lookup w (abs_path (rs @ ds)) = Some NDir"
    using tree_parents [OF _ b(3) _ b(4)] j b(2) wf(1) by (auto simp: fs_wf_def)
  obtain ce w1 where c: "ctx_Err ctx w = (ce, w1)" by fastforce
  have o1: "obs w w1" by (rule ctx_Err_obs [OF wf(1) c])
  obtain vs w2 where wd: "walkDirBounded (abs_path (rs @ ds)) w1 = (vs, w2)" by fastforce
  have o2: "obs w w2" using walkDirBounded_obs [OF _ wd] obsD [OF o1] obs_trans [OF o1] by blast
  have "ce = None" using l c by (cases ce) (auto simp: fs_List_def split: if_splits)
  moreover have "p_root w1 = p_root w" "p_root w \<noteq> []" using obsD [OF o1] rs(3) by (auto simp: abs_path_def)
  ultimately have "list_loop ctx vs w2 = ((is, None), w')"
    using l wd b(1) unfolding fs_List_def c prod.case Let_def by simp
  note ll = list_loop_obs [OF _ this]
  have d2: "fs_wf w2" "lookup w2 = lookup w" "rel_path w2 = rel_path w"
    using obsD [OF o2] by (auto simp: fun_eq_iff rel_path_def)
  obtain r w1' where st: "os_Stat (abs_path (rs @ ds)) w1 = (r, w1')" by fastforce
  have d1: "fs_wf w1" "lookup w1 = lookup w" using obsD [OF o1] by auto
  have o1': "obs w1 w1'" using os_Stat_obs [OF d1(1) st] by simp
  have "r = Inr NDir"
  proof (cases r)
    case (Inl x)
    then have "VisitErr (abs_path (rs @ ds)) x \<in> set vs" using wd st by (auto simp: walkDirBounded_def)
    then have "is_sys x ENOENT" using ll d2(1) by blast
    then show ?thesis using os_Stat_obs [OF d1(1) st] Inl dir d1(2) by (auto simp: ok_fault_def)
  qed (use os_Stat_obs [OF d1(1) st] dir d1(2) in auto)
  then have wk: "walk (max_depth w1') (abs_path (rs @ ds)) NDir w1' = (vs, w2)" using wd st by (simp add: walkDirBounded_def)
  have d1': "fs_wf w1'" "lookup w1' = lookup w" using obsD [OF o1'] d1 by auto
  have "length cs \<le> max_depth w1'"
    using le_max_depth [of w1' "path w k"] j d1'(2) length_abs_path [OF b(3)] b(2) by simp
  then have "Visit (path w k) (NFile j) \<in> set vs"
    using walk_complete [OF d1'(1) _ _ b(3) _ wk] dir j d1'(2) b(2) ll d2(1) by simp
  moreover have "\<not> isFSStagingName (Basename (path w k))"
    using k(1) Basename_below [of "p_root w" k] by (simp add: okkey_def path_def)
  ultimately have "rel_path w (path w k) \<in> oi_Key ` set is" using ll d2 j by fastforce
  moreover have "rel_path w (path w k) = k"
    using HasPrefix_iff [of "path w k" "p_root w @ ''/''"] by (simp add: rel_path_def path_def TrimPrefix_def)
  ultimately show ?thesis by auto
qed

subsection \<open>The interpretation\<close>

lemma no_new_marker:
  assumes "Contains (b @ s) (m @ ''-'')" "CHR ''-'' \<notin> set s"
  shows "Contains b (m @ ''-'')"
proof -
  obtain x y where e: "(x @ m @ ''-'') @ y = b @ s" using assms(1) by (auto simp: Contains_iff)
  then obtain u where "x @ m @ ''-'' = b @ u \<and> u @ y = s \<or> (x @ m @ ''-'') @ u = b \<and> y = u @ s"
    unfolding append_eq_append_conv2 [of "x @ m @ ''-''"] by blast
  then consider "x @ m @ ''-'' = b @ u" "u @ y = s" | "(x @ m @ ''-'') @ u = b" by blast
  then show ?thesis
  proof cases
    case 1
    have "u = []"
    proof (rule ccontr)
      assume "u \<noteq> []"
      then have "last u = CHR ''-''" using arg_cong [OF 1(1), of last] by simp
      then show False using \<open>u \<noteq> []\<close> 1(2) assms(2) by (metis Un_iff last_in_set set_append)
    qed
    then have "b = x @ (m @ ''-'') @ []" using 1(1) by simp
    then show ?thesis unfolding Contains_iff by blast
  next
    case 2
    then show ?thesis unfolding Contains_iff by (metis append_assoc)
  qed
qed

definition tmp_suffix :: "bytes \<Rightarrow> string" where
  "tmp_suffix rnd = ''.tmp.'' @ EncodeToString rnd"

lemma tmp_not_staging:
  assumes "\<not> isFSStagingName b"
  shows "\<not> isFSStagingName (b @ tmp_suffix rnd)"
proof -
  have nd: "CHR ''-'' \<notin> set (tmp_suffix rnd)" using hex_no(2) by (simp add: tmp_suffix_def)
  have "last (tmp_suffix rnd) \<noteq> CHR ''p''" "tmp_suffix rnd \<noteq> []"
    using hex_no(3) [of rnd] by (auto simp: tmp_suffix_def) (metis last_in_set)
  then have "\<not> HasSuffix (b @ tmp_suffix rnd) ''.tmp''"
    using HasSuffix_iff [of "b @ tmp_suffix rnd" "''.tmp''"] by (auto dest!: arg_cong [where f = last])
  moreover have "\<not> Contains (b @ tmp_suffix rnd) (m @ ''-'')" if "\<not> Contains b (m @ ''-'')" for m
    using no_new_marker [OF _ nd] that by blast
  from this [of "''.hstmp''"] this [of "''.deferred''"] this [of "''.excl''"]
  have "\<not> Contains (b @ tmp_suffix rnd) ''.hstmp-'' \<and> \<not> Contains (b @ tmp_suffix rnd) ''.deferred-'' \<and>
      \<not> Contains (b @ tmp_suffix rnd) ''.excl-''"
    using assms by (simp add: isFSStagingName_def)
  ultimately show ?thesis by (simp add: isFSStagingName_def)
qed

lemma okkey_tmp: "okkey k \<Longrightarrow> okkey (k @ ''.tmp.'' @ EncodeToString rnd)"
proof -
  assume "okkey k"
  then obtain ks where ks: "ks \<noteq> []" "list_all plain ks" "k = Join CHR ''/'' ks" "okname (last ks)"
    "\<not> isFSStagingName (last ks)" "list_all (\<lambda>c. \<not> okname c) (butlast ks)" by (metis okkey_comps)
  let ?s = "tmp_suffix rnd" and ?ls = "butlast ks @ [last ks @ tmp_suffix rnd]"
  have "plain (last ks @ ?s)"
    using ks(1,2) hex_no(1) [of rnd] by (intro plain_suffix) (auto simp: list_all_iff tmp_suffix_def)
  then have "list_all plain ?ls" using ks(2) by (auto simp: list_all_iff dest: in_set_butlastD)
  moreover have "okname (last ks @ ?s)" using ks(4) unfolding okname_def Contains_iff by (metis append_assoc)
  ultimately have "okkey (Join CHR ''/'' ?ls)" using ks(5,6) tmp_not_staging by (intro okkeyI) auto
  then show ?thesis using Join_suffix [OF ks(1), of "CHR ''/''" ?s] ks(3) by (simp add: tmp_suffix_def)
qed

lemma put_inline_laws:
  assumes g: "fs_good w" and k: "okkey k" and st: "stgname w (path w k) st" and e: "put_effect w w' (path w k) st b r excl"
  shows "fs_good w' \<and> fs_pend w' = fs_pend w \<and> fs_objs w' = (fs_objs w)(k := fv w' (path w k)) \<and>
    fs_objs w k = fv w (path w k)"
proof -
  have u: "upd w w' {path w k, st}" using e by (simp add: put_effect_def)
  obtain m h where m: "m \<in> {''.excl-'', ''.hstmp-''}" "st = path w k @ m @ EncodeToString h"
    using st by (auto simp: stgname_def)
  have "path w k' \<noteq> st" if "okkey k'" for k' using okkey_not_staging [OF that, of m w k h] m by blast
  then have "fs_objs w' = (fs_objs w)(k := fv w' (path w k))" using upd_objs_at [OF u k] by auto
  moreover have "fs_pend w' = fs_pend w"
    by (rule upd_pend [OF u]) (use deferred_not_key [OF g _ k] deferred_not_stg [OF g _ m(1)] m(2) in blast)
  ultimately show ?thesis using upd_good [OF g u] k by (simp add: fs_objs_def)
qed

lemma put_deferred_laws:
  assumes g: "fs_good w" and k: "okkey k" and e: "deferred_effect w w' (path w k) b r"
  shows "fs_good w' \<and> fs_objs w' = fs_objs w \<and>
    (case r of Inr _ \<Rightarrow> fs_objs w k = None \<and> (\<exists>t. fs_pend w' = fs_pend w @ [(k, b, t)])
     | Inl e \<Rightarrow> fs_pend w' = fs_pend w \<and> (is_err e ErrAlreadyExists \<longrightarrow> fs_objs w k \<noteq> None))"
proof -
  obtain i st where i: "os_drawn w \<le> i" "st = dfr w (path w k) i" and
    c: "case r of
       Inr _ \<Rightarrow> fv w (path w k) = None \<and>
         (\<exists>w1 t. upd w w1 {st} \<and> i < os_drawn w1 \<and> fv w1 st = Some (b, t) \<and> w' = recordDeferred st (path w k) w1)
     | Inl e \<Rightarrow> upd w w' {st} \<and> (is_err e ErrAlreadyExists \<longrightarrow> fv w (path w k) \<noteq> None)"
    using e unfolding deferred_effect_def by blast
  have ns: "okkey k' \<Longrightarrow> path w k' \<notin> {st}" for k' using dfr_not_key [of k' w k i] i(2) by simp
  have keep: "fs_good v" "fs_objs v = fs_objs w" "fs_pend v = fs_pend w" if "upd w v {st}" for v
    using upd_good [OF g that] upd_objs [OF that ns] upd_pend [OF that] deferred_fresh [OF g _ i(1)] i(2) by blast+
  show ?thesis
  proof (cases r)
    case (Inl x)
    then show ?thesis using c keep [of w'] k by (auto simp: fs_objs_def)
  next
    case (Inr x)
    then obtain w1 t where w1: "upd w w1 {st}" "i < os_drawn w1" "fv w1 st = Some (b, t)"
      "w' = recordDeferred st (path w k) w1" and free: "fv w (path w k) = None" using c by auto
    have w': "w' = w1\<lparr>p_deferred := p_deferred w @ [(st, path w k)]\<rparr>"
      using w1(1,4) by (simp add: recordDeferred_def upd_def)
    have p: "path w1 = path w" "dfr w1 = dfr w" "p_root w1 = p_root w" "p_deferred w1 = p_deferred w"
      using upd_path [OF w1(1)] upd_dfr [OF w1(1)] w1(1) by (auto simp: upd_def)
    have q: "queue_ok w1 (p_deferred w)" using keep(1) [OF w1(1)] p(4) by (simp add: good_queue)
    have "st \<notin> fst ` set (p_deferred w)" using deferred_fresh [OF g _ i(1)] i(2) by fastforce
    then have "queue_ok w1 (p_deferred w @ [(st, path w k)])"
      using q w1(2) k i(2) p(1,2) unfolding queue_ok_def by auto
    then have "fs_good w'" using keep(1) [OF w1(1)] by (simp add: good_queue w')
    moreover have "fs_pend w' = fs_pend w @ [(k, b, t)]"
      using keep(3) [OF w1(1)] w1(3) p drop_path [of w k] by (simp add: fs_pend_def w' pend_list_append)
    ultimately show ?thesis using Inr keep(2) [OF w1(1)] free k by (simp add: w' fs_objs_def)
  qed
qed

lemma del_laws:
  assumes g: "fs_good w" and k: "okkey k" and e: "del_effect w w' (path w k) r"
  shows "fs_good w' \<and> fs_pend w' = fs_pend w \<and> (r = None \<longrightarrow> fs_objs w' = (fs_objs w)(k := None)) \<and>
    (fs_objs w' = fs_objs w \<or> fs_objs w' = (fs_objs w)(k := None))"
proof -
  have u: "upd w w' {path w k}" using e by (simp add: del_effect_def)
  have o: "fs_objs w' = (fs_objs w)(k := fv w' (path w k))" by (rule upd_objs_at [OF u k]) simp
  have "fs_pend w' = fs_pend w" by (rule upd_pend [OF u]) (use deferred_not_key [OF g _ k] in blast)
  moreover have "fv w' (path w k) = None \<or> fv w' (path w k) = fs_objs w k \<and> r \<noteq> None"
    using e k by (auto simp: del_effect_def fs_objs_def split: option.splits)
  ultimately show ?thesis using o upd_good [OF g u] by (auto simp: fun_upd_idem)
qed

lemma rename_laws:
  assumes g: "fs_good w" and k: "okkey s" "okkey d" and e: "rename_effect w w' (path w s) (path w d) r"
  shows "fs_good w' \<and> fs_pend w' = fs_pend w \<and>
    fs_objs w' = (fs_objs w)(s := fv w' (path w s), d := fv w' (path w d)) \<and>
    fs_objs w s = fv w (path w s) \<and> fs_objs w d = fv w (path w d) \<and> (upd w w' {} \<longrightarrow> fs_objs w' = fs_objs w)"
proof -
  have u: "upd w w' {path w s, path w d}" using e by (simp add: rename_effect_def)
  have p: "path w' = path w" by (rule upd_path [OF u])
  have "fs_objs w' = (fs_objs w)(s := fv w' (path w s), d := fv w' (path w d))"
    using u k p by (auto simp: fs_objs_def fun_eq_iff upd_def)
  moreover have "fs_pend w' = fs_pend w"
    by (rule upd_pend [OF u]) (use deferred_not_key [OF g _ k(1)] deferred_not_key [OF g _ k(2)] in blast)
  moreover have "fs_objs w' = fs_objs w" if "upd w w' {}" using upd_objs [OF that] by simp
  ultimately show ?thesis using upd_good [OF g u] k by (simp add: fs_objs_def)
qed

lemma read_laws: "fs_good w \<Longrightarrow> upd w w' {} \<Longrightarrow> fs_good w' \<and> fs_objs w' = fs_objs w \<and> fs_pend w' = fs_pend w"
  using upd_good [of w w' "{}"] upd_objs [of w w' "{}"] upd_pend [of w w' "{}"] by auto

lemma time_Now_upd: "fs_wf w \<Longrightarrow> time_Now w = (t, w') \<Longrightarrow> upd w w' {}"
proof -
  assume w: "fs_wf w" and t: "time_Now w = (t, w')"
  have e: "os_ents w' = os_ents w" "os_inodes w' = os_inodes w" "os_faults w' = os_faults w" "os_ctxerrs w' = os_ctxerrs w"
    "os_rand w' = os_rand w" "os_drawn w' = os_drawn w" "p_root w' = p_root w" "p_deferred w' = p_deferred w"
    using t by (auto simp: time_Now_def split: list.splits)
  have "fs_wf w'" using w tree_ok_cong [of w' w] lookup_cong [OF e(1)] e by (simp add: fs_wf_def script_ok_def dirs_ok_def)
  then show ?thesis using e fv_cong [of w' w] by (simp add: upd_def)
qed

lemma set_now_upd: "fs_wf w \<Longrightarrow> upd w (w\<lparr>os_now := t\<rparr>) {}"
  using tree_ok_cong [of "w\<lparr>os_now := t\<rparr>" w] fv_cong [of "w\<lparr>os_now := t\<rparr>" w]
  by (simp add: upd_def fs_wf_def script_ok_def dirs_ok_def)

lemma time_After_upd: "fs_wf w \<Longrightarrow> time_After ctx d w = (e, w') \<Longrightarrow> upd w w' {}"
proof -
  assume w: "fs_wf w" and s: "time_After ctx d w = (e, w')"
  obtain e1 w1 where c: "ctx_Err ctx w = (e1, w1)" by fastforce
  have u: "upd w w1 {}" using ctx_Err_upd [OF w c] by blast
  from s c consider "w' = w1" | "w' = w1\<lparr>os_now := os_now w1 + max d 0\<rparr>" by (cases e1) (auto simp: time_After_def)
  then show ?thesis
    using u upd_trans [OF u set_now_upd [OF upd_wf [OF u]], of "{}" "os_now w1 + max d 0"] by cases simp_all
qed

lemma rand_Read_upd: "fs_wf w \<Longrightarrow> rand_Read n w = (b, w') \<Longrightarrow> upd w w' {}"
proof -
  assume w: "fs_wf w" and r: "rand_Read n w = (b, w')"
  have "randHex w = (EncodeToString (os_rand w (os_drawn w)), w\<lparr>os_drawn := Suc (os_drawn w)\<rparr>)"
    by (simp add: randHex_def rand_Read_def)
  from randHex_upd [OF w this] have "upd w (w\<lparr>os_drawn := Suc (os_drawn w)\<rparr>) {}" by blast
  then show ?thesis using r by (simp add: rand_Read_def)
qed

lemma fs_plugin_simps [simp]:
  "sp_Put (fs_plugin sha statfs) = fs_Put sha" "sp_Get (fs_plugin sha statfs) = fs_Get"
  "sp_Stat (fs_plugin sha statfs) = fs_Stat" "sp_List (fs_plugin sha statfs) = fs_List"
  "sp_Delete (fs_plugin sha statfs) = fs_Delete" "DeleteLazy (fs_plugin sha statfs) = fs_DeleteLazy"
  "sp_RenameIfNotExists (fs_plugin sha statfs) = fs_RenameIfNotExists"
  "sp_SetRetention (fs_plugin sha statfs) = fs_SetRetention" "sp_Barrier (fs_plugin sha statfs) = fs_Barrier"
  by (auto simp: fs_plugin_def DeleteLazy_def fun_eq_iff)

lemma fs_Put_laws:
  assumes g: "fs_good w" and k: "okkey k" and p: "fs_Put sha ctx k (bytes_NewReader b) opts w = (r, w')"
  shows "fs_good w'"
    and "\<not> (po_IfNotExists opts \<and> po_Durability opts = DurabilityDeferred) \<Longrightarrow> fs_pend w' = fs_pend w \<and>
      (case r of
         Inr _ \<Rightarrow> (\<exists>t. fs_objs w' = (fs_objs w)(k \<mapsto> (b, t))) \<and> (po_IfNotExists opts \<longrightarrow> fs_objs w k = None)
       | Inl e \<Rightarrow> (fs_objs w' = fs_objs w \<or>
           (\<exists>t. fs_objs w' = (fs_objs w)(k \<mapsto> (b, t)) \<and> (po_IfNotExists opts \<longrightarrow> fs_objs w k = None))) \<and>
           (po_IfNotExists opts \<longrightarrow> is_err e ErrAlreadyExists \<longrightarrow> fs_objs w k \<noteq> None \<and> fs_objs w' = fs_objs w))"
    and "po_IfNotExists opts \<Longrightarrow> po_Durability opts = DurabilityDeferred \<Longrightarrow> fs_objs w' = fs_objs w \<and>
      (case r of Inr _ \<Rightarrow> fs_objs w k = None \<and> (\<exists>t. fs_pend w' = fs_pend w @ [(k, b, t)])
       | Inl e \<Rightarrow> fs_pend w' = fs_pend w \<and> (is_err e ErrAlreadyExists \<longrightarrow> fs_objs w k \<noteq> None))"
proof -
  note e = fs_Put_effect [OF g k p]
  show "fs_good w'"
  proof (cases "po_IfNotExists opts \<and> po_Durability opts = DurabilityDeferred")
    case True
    then show ?thesis using e put_deferred_laws [OF g k, of w' b r] by simp
  next
    case False
    then obtain st where "stgname w (path w k) st" "put_effect w w' (path w k) st b r (po_IfNotExists opts)" using e by auto
    from put_inline_laws [OF g k this] show ?thesis by blast
  qed
  show "po_IfNotExists opts \<Longrightarrow> po_Durability opts = DurabilityDeferred \<Longrightarrow> fs_objs w' = fs_objs w \<and>
      (case r of Inr _ \<Rightarrow> fs_objs w k = None \<and> (\<exists>t. fs_pend w' = fs_pend w @ [(k, b, t)])
       | Inl e \<Rightarrow> fs_pend w' = fs_pend w \<and> (is_err e ErrAlreadyExists \<longrightarrow> fs_objs w k \<noteq> None))"
    using e put_deferred_laws [OF g k, of w' b r] by simp
  assume "\<not> (po_IfNotExists opts \<and> po_Durability opts = DurabilityDeferred)"
  then obtain st where st: "stgname w (path w k) st" "put_effect w w' (path w k) st b r (po_IfNotExists opts)"
    using e by auto
  note l = put_inline_laws [OF g k st]
  have same: "fs_objs w' = fs_objs w" if "fv w' (path w k) = fv w (path w k)"
  proof -
    have "fs_objs w' = (fs_objs w)(k := fs_objs w k)" using l that by simp
    then show ?thesis by simp
  qed
  show "fs_pend w' = fs_pend w \<and>
      (case r of
         Inr _ \<Rightarrow> (\<exists>t. fs_objs w' = (fs_objs w)(k \<mapsto> (b, t))) \<and> (po_IfNotExists opts \<longrightarrow> fs_objs w k = None)
       | Inl e \<Rightarrow> (fs_objs w' = fs_objs w \<or>
           (\<exists>t. fs_objs w' = (fs_objs w)(k \<mapsto> (b, t)) \<and> (po_IfNotExists opts \<longrightarrow> fs_objs w k = None))) \<and>
           (po_IfNotExists opts \<longrightarrow> is_err e ErrAlreadyExists \<longrightarrow> fs_objs w k \<noteq> None \<and> fs_objs w' = fs_objs w))"
  proof (cases r)
    case (Inl x)
    have pe: "fv w' (path w k) = fv w (path w k) \<or>
        ((\<exists>t. fv w' (path w k) = Some (b, t)) \<and> (po_IfNotExists opts \<longrightarrow> fv w (path w k) = None))"
      "po_IfNotExists opts \<longrightarrow> is_err x ErrAlreadyExists \<longrightarrow> fv w (path w k) \<noteq> None \<and> fv w' (path w k) = fv w (path w k)"
      using st(2) Inl by (auto simp: put_effect_def)
    have l': "fs_objs w' = (fs_objs w)(k := fv w' (path w k))" "fs_objs w k = fv w (path w k)" "fs_pend w' = fs_pend w"
      using l by blast+
    have "fs_objs w' = fs_objs w \<or> (\<exists>t. fs_objs w' = (fs_objs w)(k \<mapsto> (b, t)) \<and> (po_IfNotExists opts \<longrightarrow> fs_objs w k = None))"
      using pe(1)
    proof (elim disjE conjE exE)
      fix t assume "fv w' (path w k) = Some (b, t)" "po_IfNotExists opts \<longrightarrow> fv w (path w k) = None"
      then show ?thesis using l'(1,2) by auto
    qed (use same in blast)
    moreover have "po_IfNotExists opts \<longrightarrow> is_err x ErrAlreadyExists \<longrightarrow> fs_objs w k \<noteq> None \<and> fs_objs w' = fs_objs w"
      unfolding l'(2) using pe(2) same by blast
    ultimately show ?thesis unfolding Inl sum.case using l'(3) by blast
  next
    case (Inr x)
    then have "\<exists>t. fv w' (path w k) = Some (b, t)" "po_IfNotExists opts \<longrightarrow> fv w (path w k) = None"
      using st(2) by (auto simp: put_effect_def)
    then show ?thesis unfolding Inr sum.case using l by auto
  qed
qed

lemmas fs_reads = read_laws [OF _ conjunct1 [OF fs_Get_effect]] read_laws [OF _ conjunct1 [OF fs_Stat_effect]]

lemma fs_List_state: "fs_good w \<Longrightarrow> fs_List ctx p w = (r, w') \<Longrightarrow> fs_good w' \<and> fs_objs w' = fs_objs w \<and> fs_pend w' = fs_pend w"
  using fs_List_obs [of w ctx p "fst r" "snd r" w'] read_laws [of w w'] by (auto simp: obs_def fs_good_def)

lemma fs_Rename_laws:
  assumes g: "fs_good w" and k: "okkey s" "okkey d" and r: "fs_RenameIfNotExists ctx s d w = (r, w')"
  shows "fs_good w' \<and> fs_pend w' = fs_pend w \<and>
    (case r of
       None \<Rightarrow> fs_objs w s \<noteq> None \<and> fs_objs w d = None \<and> fs_objs w' = (fs_objs w)(s := None, d := fs_objs w s)
     | Some e \<Rightarrow> (fs_objs w' = fs_objs w \<or> (fs_objs w d = None \<and> fs_objs w s \<noteq> None \<and>
           (fs_objs w' = (fs_objs w)(d := fs_objs w s) \<or> fs_objs w' = (fs_objs w)(s := None, d := fs_objs w s)))) \<and>
         (is_err e ErrAlreadyExists \<longrightarrow> fs_objs w d \<noteq> None \<and> fs_objs w' = fs_objs w))"
proof -
  note e = fs_Rename_effect [OF g k r]
  note l = rename_laws [OF g k e]
  have same: "fs_objs w' = (fs_objs w)(d := fs_objs w s)"
    if "fv w' (path w d) = fv w (path w s)" "fv w' (path w s) = fv w (path w s)"
    using l that by (metis fun_upd_triv)
  show ?thesis
  proof (cases r)
    case None
    then show ?thesis using e l by (simp add: rename_effect_def)
  next
    case (Some x)
    show ?thesis
    proof (cases "upd w w' {}")
      case True
      have "is_err x ErrAlreadyExists \<longrightarrow> fs_objs w d \<noteq> None" using e l Some by (auto simp: rename_effect_def)
      moreover have "fs_objs w' = fs_objs w" using l True by blast
      ultimately show ?thesis using l unfolding Some option.case by blast
    next
      case False
      then have c: "\<not> is_err x ErrAlreadyExists" "fs_objs w s \<noteq> None" "fs_objs w d = None" "fv w' (path w d) = fv w (path w s)"
        "fv w' (path w s) = fv w (path w s) \<or> fv w' (path w s) = None"
        using e l Some by (auto simp: rename_effect_def)
      then have "fs_objs w' = (fs_objs w)(d := fs_objs w s) \<or> fs_objs w' = (fs_objs w)(s := None, d := fs_objs w s)"
        using same l by metis
      then show ?thesis using c l Some by simp
    qed
  qed
qed

interpretation fs_store: runtime_store "fs_plugin sha statfs" fs_good okkey fs_objs fs_pend fs_runtime
  apply (unfold_locales, unfold fs_plugin_simps)
  subgoal by (rule fs_Put_laws(1))
  subgoal for w k o' ctx b using fs_Put_laws(2) [of w k sha ctx b o'] by simp
  subgoal for w k o' ctx b x w' using fs_Put_laws(3) [of w k sha ctx b o'] by auto
  subgoal for w k ctx b o' e w' using fs_Put_laws(2,3) [of w k sha ctx b o' "Inl e" w'] by (simp, metis)
  subgoal for w k o' ctx b e w' using fs_Put_laws(2,3) [of w k sha ctx b o' "Inl e" w'] by (simp, metis)
  subgoal by (rule fs_reads(1))
  subgoal for w k ctx r w' using fs_Get_effect [of w k ctx "Inr r" w'] by (simp add: fs_objs_def)
  subgoal for w k ctx e w' using fs_Get_effect [of w k ctx "Inl e" w'] by (simp add: fs_objs_def)
  subgoal by (rule fs_reads(2))
  subgoal for w k ctx i w' using fs_Stat_effect [of w k ctx "Inr i" w'] by (simp add: fs_objs_def)
  subgoal for w k ctx e w' using fs_Stat_effect [of w k ctx "Inl e" w'] by (simp add: fs_objs_def)
  subgoal by (rule fs_List_state)
  subgoal by (rule fs_List_sound)
  subgoal by (rule fs_List_complete)
  subgoal using del_laws [OF _ _ fs_Delete_effect] by blast
  subgoal using del_laws [OF _ _ fs_Delete_effect] by blast
  subgoal using del_laws [OF _ _ fs_Delete_effect] by blast
  subgoal using del_laws [OF _ _ fs_DeleteLazy_effect] by blast
  subgoal using del_laws [OF _ _ fs_DeleteLazy_effect] by blast
  subgoal using del_laws [OF _ _ fs_DeleteLazy_effect] by blast
  subgoal using fs_Rename_laws by blast
  subgoal for w s d ctx w' using fs_Rename_laws [of w s d ctx None w'] by simp
  subgoal for w s d ctx e w' using fs_Rename_laws [of w s d ctx "Some e" w'] by simp
  subgoal for w s d ctx e w' using fs_Rename_laws [of w s d ctx "Some e" w'] by simp
  subgoal by (simp add: fs_SetRetention_def)
  subgoal using fs_Barrier_laws by blast
  subgoal for w ctx w' using fs_Barrier_laws [of w ctx None w'] by auto
  subgoal for w ctx e w' using fs_Barrier_laws [of w ctx "Some e" w'] by auto
  subgoal by (rule okkey_tmp)
  subgoal for w t w' using time_Now_upd [of w t w'] read_laws [of w w'] by (simp add: fs_runtime_def fs_good_def)
  subgoal for w ctx e w' using ctx_Err_upd [of w ctx e w'] read_laws [of w w'] by (simp add: fs_runtime_def fs_good_def)
  subgoal for w n b w' using rand_Read_upd [of w n b w'] read_laws [of w w'] by (simp add: fs_runtime_def fs_good_def)
  subgoal for w ctx d e w' using time_After_upd [of w ctx d e w'] read_laws [of w w'] by (simp add: fs_runtime_def fs_good_def)
  done

end
