(* ===== verification/FsProps.thy ===== *)
theory FsProps
  imports FsLaws
begin

text \<open>
  What the filesystem backend promises its callers: exclusive commits are atomic under every script
  of faults, the barrier publishes the deferred writes in order or keeps them, a listing is exact.
  One directory entry can be lost by a crash although the write below it was acknowledged.
\<close>

subsection \<open>An empty repository\<close>

definition ex_fs :: "(error \<times> nat) option list \<Rightarrow> fs" where
  "ex_fs faults =
     \<lparr>os_ents = [(''/'', NDir), (''/r'', NDir)], os_inodes = [], os_disk = [(''/'', NDir), (''/r'', NDir)],
      os_journal = [], os_faults = faults, os_rand = (\<lambda>i. replicate (Suc i) 0), os_drawn = 0, os_ctxerrs = [],
      os_now = 0, os_ticks = [], p_root = ''/r'', p_deferred = []\<rparr>"

lemma abs_path_r: "''/r'' = abs_path [''r'']" "''/'' = abs_path []"
  by (simp_all add: abs_path_def)

lemma ex_fs_lookup: "lookup (ex_fs fs) p = Some n \<longleftrightarrow> n = NDir \<and> (p = abs_path [] \<or> p = abs_path [''r''])"
  by (auto simp: lookup_def ex_fs_def abs_path_def)

lemma ex_fs_good:
  assumes "\<And>e n. Some (e, n) \<in> set faults \<Longrightarrow> ok_fault e"
  shows "fs_good (ex_fs faults)"
proof -
  have pl: "list_all plain [''r'']" by (simp add: plain_def)
  have "tree_ok (ex_fs faults)"
    unfolding tree_ok_def ex_fs_lookup
  proof (intro conjI allI impI)
    show "distinct (map fst (os_ents (ex_fs faults)))" by (simp add: ex_fs_def)
    show "canon p" if "n = NDir \<and> (p = abs_path [] \<or> p = abs_path [''r''])" for p n
      using that pl unfolding canon_def by (metis list.pred_inject(1))
    fix as b n assume p: "list_all plain (as @ [b])" "n = NDir \<and> (abs_path (as @ [b]) = abs_path [] \<or> abs_path (as @ [b]) = abs_path [''r''])"
    then have "as @ [b] = [''r'']" using pl abs_path_inject [OF p(1), of "[]"] abs_path_inject [OF p(1) pl] by auto
    then show "abs_path as = abs_path [] \<or> abs_path as = abs_path [''r'']" by simp
  qed (auto simp: ex_fs_lookup)
  moreover have "dirs_ok (ex_fs faults)"
    unfolding dirs_ok_def ex_fs_lookup okdir_def
  proof (intro allI impI conjI)
    fix d assume d: "NDir = NDir \<and> (d = abs_path [] \<or> d = abs_path [''r''])"
    then show "canon d" using pl unfolding canon_def by (metis list.pred_inject(1))
    fix rs cs assume e: "p_root (ex_fs faults) = abs_path rs" "d = abs_path (rs @ cs)" "list_all plain (rs @ cs)"
    then have "rs = [''r'']" using abs_path_inject [OF pl, of rs] by (simp add: ex_fs_def abs_path_r)
    moreover have "rs @ cs = [] \<or> rs @ cs = [''r'']"
      using d e(2) abs_path_inject [OF e(3), of "[]"] abs_path_inject [OF e(3) pl] by auto
    ultimately show "list_all (\<lambda>c. \<not> okname c) cs" by simp
  qed
  moreover have "script_ok (ex_fs faults)"
    using assms by (auto simp: script_ok_def ex_fs_def inj_def dest!: arg_cong [where f = length])
  moreover have "root_ok (ex_fs faults)"
    unfolding root_ok_def using pl by (intro exI [of _ "[''r'']"]) (simp add: ex_fs_def abs_path_r)
  ultimately show ?thesis by (simp add: fs_good_def fs_wf_def def_ok_def) (simp add: ex_fs_def)
qed

lemma okkey_ex: "okkey ''d/a.json''"
  by code_simp

lemma ex_inline: "po_Durability zero_PutOptions = DurabilityInline"
  by (simp add: zero_PutOptions_def)

subsection \<open>Atomic exclusive commits\<close>

text \<open>
  C10. An exclusive commit to the filesystem backend is atomic. Whatever faults the system calls
  meet, in a well-formed repository \<^verbatim>\<open>CommitExclusive\<close> with inline durability leaves the key as it was or
  creates it with exactly the given bytes; it never replaces an object, touches no other key but its
  own temporaries, leaves the queue of deferred writes alone and keeps the repository well-formed;
  when it reports success the key was free and now holds the bytes.
\<close>

theorem fs_commit_atomic:
  assumes "fs_good w" "okkey key" "po_Durability opts = DurabilityInline"
    "CommitExclusive fs_runtime (fs_plugin sha statfs) ctx key body opts w = (r, w')"
  shows "fs_good w' \<and> fs_pend w' = fs_pend w \<and>
    (\<forall>k'. k' \<noteq> key \<and> \<not> HasPrefix k' (key @ ''.tmp.'') \<longrightarrow> fs_objs w' k' = fs_objs w k') \<and>
    (fs_objs w' key = fs_objs w key \<or> (fs_objs w key = None \<and> (\<exists>t. fs_objs w' key = Some (body, t)))) \<and>
    (r = None \<longrightarrow> fs_objs w key = None \<and> (\<exists>t. fs_objs w' key = Some (body, t)))"
  by (rule fs_store.commit_effect [OF assms])

definition ex_commit :: "(error \<times> nat) option list \<Rightarrow> error option \<times> fs" where
  "ex_commit fs = CommitExclusive fs_runtime (fs_plugin (\<lambda>_. zero_hash) (\<lambda>_. Inl (SysErr EIO))) CallerCtx ''d/a.json'' [1, 2]
     zero_PutOptions (ex_fs fs)"

theorem fs_commit_atomic_witness:
  "fst (ex_commit []) = None \<and> fs_good (snd (ex_commit [])) \<and> (\<exists>t. fs_objs (snd (ex_commit [])) ''d/a.json'' = Some ([1, 2], t))"
proof -
  have ok: "fst (ex_commit []) = None" by code_simp
  have g: "fs_good (ex_fs [])" by (rule ex_fs_good) simp
  show ?thesis
    using fs_commit_atomic [OF g okkey_ex ex_inline prod.collapse [symmetric],
        of "\<lambda>_. zero_hash" "\<lambda>_. Inl (SysErr EIO)" CallerCtx "[1, 2]", folded ex_commit_def] ok by blast
qed

subsection \<open>The barrier\<close>

text \<open>
  C11. \<^verbatim>\<open>Barrier\<close> makes the deferred writes visible, in order, and loses none. Whatever faults it meets,
  the objects afterwards are those before with a prefix of the queued writes published, each to its
  key unless the key was taken; the writes still queued complete the publication, so a later barrier
  finishes the work; success leaves the queue empty.
\<close>

theorem fs_barrier_publishes:
  assumes "fs_good w" "fs_Barrier ctx w = (r, w')"
  shows "fs_good w' \<and> (\<exists>n. fs_objs w' = publish (take n (fs_pend w)) (fs_objs w)) \<and>
    publish (fs_pend w') (fs_objs w') = publish (fs_pend w) (fs_objs w) \<and> (r = None \<longrightarrow> fs_pend w' = [])"
  by (rule fs_Barrier_laws [OF assms])

definition ex_deferred :: fs where
  "ex_deferred = snd (fs_Put (\<lambda>_. zero_hash) CallerCtx ''d/a.json'' (bytes_NewReader [7])
     (zero_PutOptions\<lparr>po_IfNotExists := True, po_Durability := DurabilityDeferred\<rparr>) (ex_fs []))"

theorem fs_barrier_publishes_witness:
  "fs_objs ex_deferred ''d/a.json'' = None \<and> fs_pend ex_deferred = [(''d/a.json'', [7], 0)] \<and>
   fs_objs (snd (fs_Barrier CallerCtx ex_deferred)) ''d/a.json'' = Some ([7], 0)"
proof -
  have p: "fs_objs ex_deferred ''d/a.json'' = None" "fs_pend ex_deferred = [(''d/a.json'', [7], 0)]" by code_simp+
  have ok: "fst (fs_Barrier CallerCtx ex_deferred) = None" by code_simp
  have g: "fs_good ex_deferred"
    unfolding ex_deferred_def by (rule fs_Put_laws(1) [OF ex_fs_good okkey_ex prod.collapse [symmetric]]) simp
  have "publish (fs_pend (snd (fs_Barrier CallerCtx ex_deferred))) (fs_objs (snd (fs_Barrier CallerCtx ex_deferred))) =
      publish (fs_pend ex_deferred) (fs_objs ex_deferred)" "fs_pend (snd (fs_Barrier CallerCtx ex_deferred)) = []"
    using fs_barrier_publishes [OF g prod.collapse [symmetric]] ok by blast+
  then have "fs_objs (snd (fs_Barrier CallerCtx ex_deferred)) = publish [(''d/a.json'', [7], 0)] (fs_objs ex_deferred)"
    by (simp only: p(2) publish.simps)
  then show ?thesis using p by simp
qed

subsection \<open>Listing\<close>

text \<open>
  C12. A listing of a directory that ends without error is exact: among the keys of objects below the
  prefix it yields each stored one and no other, with its size and modification time, and it changes
  nothing.
\<close>

theorem fs_list_exact:
  assumes "fs_good w" "fs_List ctx (d @ ''/'') w = ((is, None), w')" "okkey k" "HasPrefix k (d @ ''/'')"
  shows "(fs_objs w k \<noteq> None \<longleftrightarrow> (\<exists>i \<in> set is. oi_Key i = k)) \<and>
    (\<forall>i \<in> set is. oi_Key i = k \<longrightarrow> (\<exists>b. fs_objs w k = Some (b, oi_ModTime i) \<and> oi_Size i = length b)) \<and>
    fs_objs w' = fs_objs w"
  using fs_List_complete [OF assms(1-4)] fs_List_sound [OF assms(1,2)] fs_List_state [OF assms(1,2)] assms(3)
  by auto metis

theorem fs_list_exact_witness:
  "\<exists>i \<in> set (fst (fst (fs_List CallerCtx ''d/'' (snd (ex_commit []))))). oi_Key i = ''d/a.json''"
proof -
  have e: "snd (fst (fs_List CallerCtx ''d/'' (snd (ex_commit [])))) = None" by code_simp
  have o: "fs_objs (snd (ex_commit [])) ''d/a.json'' \<noteq> None" "HasPrefix ''d/a.json'' (''d'' @ ''/'')" by code_simp+
  have "fs_good (snd (ex_commit []))"
    unfolding ex_commit_def
    by (rule conjunct1 [OF fs_store.commit_effect [OF ex_fs_good okkey_ex ex_inline prod.collapse [symmetric]]]) simp
  moreover have "fs_List CallerCtx (''d'' @ ''/'') (snd (ex_commit [])) =
      ((fst (fst (fs_List CallerCtx ''d/'' (snd (ex_commit [])))), None), snd (fs_List CallerCtx ''d/'' (snd (ex_commit []))))"
    using e by (simp add: prod_eq_iff)
  ultimately show ?thesis using fs_list_exact [OF _ _ okkey_ex o(2)] o(1) by blast
qed

subsection \<open>A directory that a crash may lose\<close>

text \<open>
  \<open>at_risk d\<close>: the directory \<open>d\<close> exists, a crash may leave it out, and no system call will be made to report it
  missing. Nothing but an fsync of its parent changes that.
\<close>

definition at_risk :: "string \<Rightarrow> fs \<Rightarrow> bool" where
  "at_risk d w \<longleftrightarrow> None \<in> crash_entries w d \<and> lookup w d = Some NDir \<and>
     list_all (\<lambda>f. case f of None \<Rightarrow> True | Some (e, _) \<Rightarrow> ok_fault e) (os_faults w)"

lemma at_risk_simps [simp]:
  "at_risk d (w\<lparr>os_inodes := a\<rparr>) = at_risk d w" "at_risk d (w\<lparr>os_drawn := b\<rparr>) = at_risk d w"
  "at_risk d (w\<lparr>os_ctxerrs := c\<rparr>) = at_risk d w" "at_risk d (set_data i x w) = at_risk d w"
  by (simp_all add: at_risk_def crash_entries_def lookup_def set_data_def)

lemma at_risk_ents:
  "at_risk d w \<Longrightarrow> p \<noteq> d \<Longrightarrow> at_risk d (set_ent p n w)" "at_risk d w \<Longrightarrow> p \<noteq> d \<Longrightarrow> at_risk d (del_ent p w)"
  by (auto simp: at_risk_def crash_entries_def lookup_def set_ent_def del_ent_def update_conv' delete_conv')

lemma at_risk_pop: "at_risk d w \<Longrightarrow> pop_fault w = (f, w') \<Longrightarrow> at_risk d w' \<and> (\<forall>e n. f = Some (e, n) \<longrightarrow> ok_fault e)"
  by (auto simp: pop_fault_def at_risk_def crash_entries_def lookup_def split: list.splits)

lemma at_risk_sys:
  assumes "at_risk d w" "sys f w = (r, w')" "\<And>v r v'. at_risk d v \<Longrightarrow> f v = (r, v') \<Longrightarrow> at_risk d v' \<and> P r"
    "\<And>e. ok_fault e \<Longrightarrow> P (Inl e)"
  shows "at_risk d w' \<and> P r"
  using assms(2) at_risk_pop [OF assms(1), of "fst (pop_fault w)" "snd (pop_fault w)"] assms(3,4)
  by (cases "pop_fault w") (auto simp: sys_def split: option.splits prod.splits)

lemma flush_other: "d \<notin> set ps \<Longrightarrow> map_of (fold (flush_entry w) ps disk) d = map_of disk d"
  by (induction ps arbitrary: disk) (auto simp: flush_entry_def update_conv' delete_conv' split: option.splits)

lemma at_risk_sys_keep:
  "at_risk d w \<Longrightarrow> sys f w = (r, w') \<Longrightarrow> (\<And>v r v'. at_risk d v \<Longrightarrow> f v = (r, v') \<Longrightarrow> at_risk d v') \<Longrightarrow> at_risk d w'"
  using at_risk_sys [where P = "\<lambda>_. True"] by blast

lemma at_risk_file_calls:
  assumes "at_risk d w"
  shows "os_Open p w = (r1, w1) \<Longrightarrow> at_risk d w1" "file_Sync i w = (r2, w2) \<Longrightarrow> at_risk d w2"
    "file_Close i w = (r3, w3) \<Longrightarrow> at_risk d w3" "file_Copy i rd w = (r4, w4) \<Longrightarrow> at_risk d w4"
    "p \<noteq> d \<Longrightarrow> os_Remove p w = (r5, w5) \<Longrightarrow> at_risk d w5"
  subgoal unfolding os_Open_def
    by (erule at_risk_sys_keep [OF assms]) (auto dest: at_risk_pop split: option.splits node.splits prod.splits)
  subgoal unfolding file_Sync_def by (erule at_risk_sys_keep [OF assms]) auto
  subgoal unfolding file_Close_def by (erule at_risk_sys_keep [OF assms]) auto
  subgoal unfolding file_Copy_def by (auto dest: at_risk_pop [OF assms] split: option.splits prod.splits)
  subgoal unfolding os_Remove_def
    by (erule at_risk_sys_keep [OF assms]) (auto intro: at_risk_ents split: option.splits node.splits if_splits)
  done

lemma at_risk_publish:
  assumes "at_risk d w" "dst \<noteq> d"
  shows "os_Link src dst w = (r1, w1) \<Longrightarrow> at_risk d w1"
    "src \<noteq> d \<Longrightarrow> os_Rename src dst w = (r2, w2) \<Longrightarrow> at_risk d w2"
  subgoal unfolding os_Link_def
    by (erule at_risk_sys_keep [OF assms(1)]) (use assms(2) in \<open>auto intro!: at_risk_ents split: option.splits node.splits if_splits\<close>)
  subgoal unfolding os_Rename_def
    by (erule at_risk_sys_keep [OF assms(1)]) (use assms(2) in \<open>auto intro!: at_risk_ents split: option.splits node.splits if_splits\<close>)
  done

lemma at_risk_Stat: "at_risk d w \<Longrightarrow> os_Stat d w = (r, w') \<Longrightarrow> at_risk d w' \<and> (\<forall>e. r = Inl e \<longrightarrow> ok_fault e)"
  unfolding os_Stat_def by (erule at_risk_sys) (auto simp: at_risk_def)

lemma at_risk_syncDir:
  assumes "at_risk d w" "Dir d \<noteq> d" "syncDir d w = (r, w')"
  shows "at_risk d w'"
proof -
  have s: "at_risk d v" if "at_risk d u" "dir_Sync d u = (q, v)" for u q v
    using that(2) unfolding dir_Sync_def
  proof (rule at_risk_sys [where P = "\<lambda>_. True", THEN conjunct1, OF that(1)])
    fix w :: fs and r v'
    assume "at_risk d w" and "(Inr (), w\<lparr>os_disk := fold (flush_entry w) (filter (\<lambda>p. Dir p = d) (map fst (os_journal w))) (os_disk w),
        os_journal := filter (\<lambda>(p, n). Dir p \<noteq> d) (os_journal w)\<rparr>) = (r :: error + unit, v')"
    then show "at_risk d v' \<and> True"
      using flush_other [of d "filter (\<lambda>p. Dir p = d) (map fst (os_journal w))" w "os_disk w"] assms(2)
      by (auto simp: at_risk_def crash_entries_def lookup_def)
  qed simp
  obtain q w1 where o: "os_Open d w = (q, w1)" by fastforce
  have "at_risk d w1" using at_risk_file_calls(1) [OF assms(1) o] .
  then show ?thesis using assms(3) s by (auto simp: syncDir_def o split: sum.splits prod.splits)
qed

lemma at_risk_MkdirAll: "at_risk d w \<Longrightarrow> os_MkdirAll p w = (r, w') \<Longrightarrow> at_risk d w' \<and> (\<forall>e. r = Inl e \<longrightarrow> ok_fault e \<or> e = SysErr ENOTDIR)"
proof -
  assume a: "at_risk d w" "os_MkdirAll p w = (r, w')"
  have f: "at_risk d v \<Longrightarrow> at_risk d (fold (\<lambda>p w. if lookup w p = None then set_ent p NDir w else w) ps v)" for ps v
  proof (induction ps arbitrary: v)
    case (Cons p ps)
    have "lookup v p = None \<Longrightarrow> p \<noteq> d" using Cons(2) by (auto simp: at_risk_def)
    then show ?case using Cons at_risk_ents(1) by auto
  qed simp
  show ?thesis using a(2) unfolding os_MkdirAll_def by (rule at_risk_sys [OF a(1)]) (auto intro: f split: if_splits)
qed

lemma up_chain_hd: "canon d \<Longrightarrow> \<exists>ds. up_chain d = d # ds"
proof -
  assume "canon d"
  then obtain cs where cs: "list_all plain cs" "d = abs_path cs" by (auto simp: canon_def)
  show ?thesis using arg_cong [OF up_chain_abs [OF cs(1)], of rev] cs(2) by simp
qed

lemma ok_fault_sys: "ok_fault e \<Longrightarrow> \<not> is_sys e ENOENT \<and> \<not> is_sys e EEXIST"
  by (auto simp: ok_fault_def)

lemma at_risk_mkdir:
  assumes "at_risk d w" "canon d" "mkdirAllRetry d w = (r, w')"
  shows "at_risk d w'"
proof -
  obtain st w1 where s: "os_Stat d w = (st, w1)" by fastforce
  obtain st2 w2 where s2: "os_Stat d w1 = (st2, w2)" by fastforce
  obtain mk w3 where m: "os_MkdirAll d w2 = (mk, w3)" by fastforce
  obtain ds where ds: "up_chain d = d # ds" using up_chain_hd [OF assms(2)] by blast
  have w1: "at_risk d w1" "\<And>e. st = Inl e \<Longrightarrow> ok_fault e" using at_risk_Stat [OF assms(1) s] by auto
  have w2: "at_risk d w2" "\<And>e. st2 = Inl e \<Longrightarrow> ok_fault e" using at_risk_Stat [OF w1(1) s2] by auto
  have w3: "at_risk d w3" "\<And>e. mk = Inl e \<Longrightarrow> ok_fault e \<or> e = SysErr ENOTDIR" using at_risk_MkdirAll [OF w2(1) m] by auto
  have md: "missing_dirs (up_chain d) w1 = (case st2 of Inr _ \<Rightarrow> Inr [] | Inl e \<Rightarrow> Inl e, w2)"
    using w2(2) ok_fault_sys by (auto simp: ds s2 split: sum.splits)
  have e: "\<exists>r v. mkdirAllDurable d w = (r, v) \<and> at_risk d v \<and> (\<forall>e. r = Some e \<longrightarrow> \<not> is_sys e ENOENT \<and> \<not> is_sys e EEXIST)"
    using w1 w2 w3 ok_fault_sys by (auto simp: mkdirAllDurable_def s md m split: sum.splits)
  have "mkdir_retry (Suc n) None d w = mkdirAllDurable d w" for n
    using e by (auto split: option.splits)
  then have "mkdirAllRetry d w = mkdirAllDurable d w"
    unfolding mkdirAllRetry_def pruneRaceRetries_def by (metis (no_types) numeral_eq_Suc)
  then show ?thesis using e assms(3) by auto
qed

lemma at_risk_create:
  assumes "at_risk d w" "Dir p = d" "p \<noteq> d" "createStaging p w = (r, w')"
  shows "at_risk d w'"
proof -
  obtain q w1 where c: "os_CreateExcl p w = (q, w1)" by fastforce
  have w1: "at_risk d w1 \<and> (\<forall>e. q = Inl e \<longrightarrow> ok_fault e \<or> e = SysErr EEXIST)"
    using c unfolding os_CreateExcl_def
    by (rule at_risk_sys [OF assms(1)]) (auto simp: Let_def assms(2,3) at_risk_ents split: if_splits, auto simp: at_risk_def)
  then have "createStaging p w = (q, w1)"
    unfolding createStaging_def using ok_fault_sys
    by (subst create_retry.simps) (auto simp: c split: sum.splits nat.splits)
  then show ?thesis using w1 assms(4) by simp
qed

lemma at_risk_write: "at_risk d w \<Longrightarrow> writeAndVerify sha i rd opts w = (r, w') \<Longrightarrow> at_risk d w'"
  using at_risk_file_calls(4) [of d w i rd "fst (file_Copy i rd w)" "snd (file_Copy i rd w)"]
  by (cases "file_Copy i rd w") (auto simp: writeAndVerify_def Let_def split: sum.splits if_splits)

lemma at_risk_drop: "at_risk d w \<Longrightarrow> p \<noteq> d \<Longrightarrow> at_risk d (drop_Remove p w)" "at_risk d w \<Longrightarrow> at_risk d (drop_Close i w)"
  unfolding drop_Remove_def drop_Close_def
  using at_risk_file_calls(3,5) prod.collapse by metis+

lemma at_risk_randHex: "at_risk d w \<Longrightarrow> randHex w = (h, w') \<Longrightarrow> at_risk d w'"
  by (auto simp: randHex_def rand_Read_def)

lemma Dir_staging:
  assumes r: "root_ok w" and k: "okkey k" and s: "CHR ''/'' \<notin> set s" "3 \<le> length s"
  shows "Dir (path w k @ s) = Dir (path w k)" "path w k @ s \<noteq> Dir (path w k)" "path w k \<noteq> Dir (path w k)"
    "Dir (Dir (path w k)) \<noteq> Dir (path w k)"
proof -
  obtain rs where rs: "rs \<noteq> []" "list_all plain rs" "p_root w = abs_path rs" using r by (auto simp: root_ok_def)
  obtain ks where ks: "ks \<noteq> []" "list_all plain ks" "k = Join CHR ''/'' ks" using okkey_comps [OF k] by metis
  define ds where "ds = rs @ butlast ks"
  have pl: "list_all plain (ds @ [last ks @ s])" "list_all plain (ds @ [last ks])" "list_all plain ds"
    using ks rs s plain_suffix [of "last ks" s] by (auto simp: ds_def list_all_iff dest: in_set_butlastD)
  have p: "path w k @ t = abs_path (ds @ [last ks @ t])" for t
    using abs_path_append [OF rs(1), of "butlast ks @ [last ks @ t]"] Join_suffix [OF ks(1)] ks(3) rs(3)
    by (simp add: path_def ds_def)
  note d = Dir_abs_path [OF pl(1), folded p] Dir_abs_path [OF pl(2)]
  have d2: "Dir (path w k) = abs_path ds" using d(2) p [of "[]"] by simp
  show "Dir (path w k @ s) = Dir (path w k)" using d(1) d2 by simp
  show "path w k @ s \<noteq> Dir (path w k)" using abs_path_inject [OF pl(1,3)] p [of s] d2 by simp
  show "path w k \<noteq> Dir (path w k)" using abs_path_inject [OF pl(2,3)] p [of "[]"] d2 by simp
  have "ds = butlast ds @ [last ds]" using rs(1) by (simp add: ds_def)
  moreover from this have "Dir (abs_path ds) = abs_path (butlast ds)" using Dir_abs_path [of "butlast ds" "last ds"] pl(3) by metis
  moreover have "list_all plain (butlast ds)" using pl(3) by (auto simp: list_all_iff dest: in_set_butlastD)
  ultimately show "Dir (Dir (path w k)) \<noteq> Dir (path w k)"
    unfolding d2 using abs_path_inject [of "butlast ds" ds] pl(3) by (metis append_self_conv not_Cons_self2)
qed

lemma at_risk_put:
  assumes "root_ok w" "okkey k" "at_risk (Dir (path w k)) v" "po_Durability opts \<noteq> DurabilityDeferred"
  shows "putExclusive sha k (path w k) rd opts v = (r, w1) \<Longrightarrow> at_risk (Dir (path w k)) w1"
    "putOverwrite sha k (path w k) rd opts v = (r', w2) \<Longrightarrow> at_risk (Dir (path w k)) w2"
proof -
  let ?d = "Dir (path w k)"
  obtain h v1 where h: "randHex v = (h, v1)" by fastforce
  have sl: "CHR ''/'' \<notin> set h" using h hex_no by (auto simp: randHex_def rand_Read_def)
  have v1: "at_risk ?d v1" by (rule at_risk_randHex [OF assms(3) h])
  have st: "Dir (path w k @ m @ h) = ?d" "path w k @ m @ h \<noteq> ?d" if "m \<in> {''.excl-'', ''.hstmp-''}" for m
    using Dir_staging [OF assms(1,2), of "m @ h"] sl that by auto
  note d = Dir_staging [OF assms(1,2), of "''.excl-''", simplified]
  show "at_risk ?d w1" if "putExclusive sha k (path w k) rd opts v = (r, w1)"
  proof -
    define sg where "sg = path w k @ ''.excl-'' @ h"
    have sg: "Dir sg = ?d" "sg \<noteq> ?d" using st [of "''.excl-''"] by (simp_all add: sg_def)
    obtain i v2 where c: "createStaging sg v1 = (i, v2)" by fastforce
    have v2: "at_risk ?d v2" by (rule at_risk_create [OF v1 sg c])
    obtain a v3 where wv: "writeAndVerify sha (projr i) rd opts v2 = (a, v3)" by fastforce
    have v3: "at_risk ?d v3" by (rule at_risk_write [OF v2 wv])
    obtain b v4 where sy: "file_Sync (projr i) v3 = (b, v4)" by fastforce
    have v4: "at_risk ?d v4" by (rule at_risk_file_calls(2) [OF v3 sy])
    obtain e v5 where cl: "file_Close (projr i) v4 = (e, v5)" by fastforce
    have v5: "at_risk ?d v5" by (rule at_risk_file_calls(3) [OF v4 cl])
    obtain f v6 where li: "os_Link sg (path w k) v5 = (f, v6)" by fastforce
    have v6: "at_risk ?d v6" by (rule at_risk_publish(1) [OF v5 d(3) li])
    note drp = at_risk_drop(1) [OF _ sg(2)] at_risk_drop(2)
    show ?thesis
      using that [unfolded putExclusive_def h Let_def prod.case, folded sg_def] assms(4) v2 drp(1) [OF v6] drp(1) [OF v5] drp(1) [OF drp(2) [OF v3]] drp(1) [OF drp(2) [OF v4]]
        at_risk_syncDir [OF drp(1) [OF v6] d(4)]
      by (cases i) (use wv sy cl in \<open>auto simp: c li split: prod.splits sum.splits option.splits if_splits\<close>)
  qed
  show "at_risk ?d w2" if "putOverwrite sha k (path w k) rd opts v = (r', w2)"
  proof -
    define sg where "sg = path w k @ ''.hstmp-'' @ h"
    have sg: "Dir sg = ?d" "sg \<noteq> ?d" using st [of "''.hstmp-''"] by (simp_all add: sg_def)
    obtain i v2 where c: "createStaging sg v1 = (i, v2)" by fastforce
    have v2: "at_risk ?d v2" by (rule at_risk_create [OF v1 sg c])
    obtain a v3 where wv: "writeAndVerify sha (projr i) rd opts v2 = (a, v3)" by fastforce
    have v3: "at_risk ?d v3" by (rule at_risk_write [OF v2 wv])
    obtain b v4 where sy: "file_Sync (projr i) v3 = (b, v4)" by fastforce
    have v4: "at_risk ?d v4" by (rule at_risk_file_calls(2) [OF v3 sy])
    obtain e v5 where cl: "file_Close (projr i) v4 = (e, v5)" by fastforce
    have v5: "at_risk ?d v5" by (rule at_risk_file_calls(3) [OF v4 cl])
    obtain f v6 where li: "os_Rename sg (path w k) v5 = (f, v6)" by fastforce
    have v6: "at_risk ?d v6" by (rule at_risk_publish(2) [OF v5 d(3) sg(2) li])
    note drp = at_risk_drop(1) [OF _ sg(2)] at_risk_drop(2)
    show ?thesis
      using that [unfolded putOverwrite_def h Let_def prod.case, folded sg_def] v2 drp(1) [OF v6] drp(1) [OF v5] drp(1) [OF drp(2) [OF v3]] drp(1) [OF drp(2) [OF v4]]
        at_risk_syncDir [OF v6 d(4)]
      by (cases i) (use wv sy cl in \<open>auto simp: c li split: prod.splits sum.splits option.splits if_splits\<close>)
  qed
qed

text \<open>
  C13. An acknowledged write can be lost. Take a repository in which the directory of a key exists but a crash may
  still drop it, because the fsync of its parent failed after \<^verbatim>\<open>mkdirAllDurable\<close> had created it. Every inline \<^verbatim>\<open>Put\<close> to
  a key in it that reports success, whatever faults it met, has made the object visible and has left the directory
  as it was: \<^verbatim>\<open>mkdirAllDurable\<close> takes its shortcut, only the directory itself is synced, and a crash may still drop
  the directory's own entry and the object with it.
\<close>

theorem fs_retried_put_not_durable:
  assumes "fs_good w" "okkey k" "po_Durability opts = DurabilityInline"
    "lookup w (Dir (path w k)) = Some NDir" "None \<in> crash_entries w (Dir (path w k))"
    "fs_Put sha ctx k (bytes_NewReader b) opts w = (Inr pr, w')"
  shows "(\<exists>t. fs_objs w' k = Some (b, t)) \<and> None \<in> crash_entries w' (Dir (path w k))"
  proof -
  let ?d = "Dir (path w k)"
  have g: "fs_wf w" "root_ok w" using assms(1) by (simp_all add: fs_good_def)
  have "list_all (\<lambda>f. case f of None \<Rightarrow> True | Some (e, _) \<Rightarrow> ok_fault e) (os_faults w)"
  proof (unfold list_all_iff, rule ballI)
    fix f assume "f \<in> set (os_faults w)"
    then show "case f of None \<Rightarrow> True | Some (e, _) \<Rightarrow> ok_fault e"
      using fs_wfD(2) [OF g(1)] unfolding script_ok_def by (simp split: option.split prod.split) blast
  qed
  then have "at_risk ?d w" using assms(4,5) by (simp add: at_risk_def)
  moreover obtain x v where c: "ctx_Err ctx w = (x, v)" by fastforce
  moreover have cv: "v = w \<or> (\<exists>es. v = w\<lparr>os_ctxerrs := es\<rparr>)" "x = None"
    using c assms(6) by (auto simp: ctx_Err_def fs_Put_def split: ctx.splits list.splits option.splits)
  moreover have "resolve (w\<lparr>os_ctxerrs := es\<rparr>) k = resolve w k" for es by (simp add: resolve_def Let_def)
  ultimately have v: "at_risk ?d v" "resolve v k = Inr (path w k)"
    using resolve_okkey [OF g(2) assms(2)] by auto
  obtain m u where m: "mkdirAllRetry ?d v = (m, u)" by fastforce
  have u: "at_risk ?d u"
    by (rule at_risk_mkdir [OF v(1) _ m]) (use path_ok(3) [OF g(2) assms(2)] in \<open>simp add: okdir_def\<close>)
  have "at_risk ?d w'"
    using assms(6) at_risk_put [OF g(2) assms(2) u, of opts] assms(3)
    by (auto simp: fs_Put_def c cv v(2) m split: option.splits if_splits)
  then show ?thesis using fs_Put_laws(2) [OF assms(1,2,6)] assms(3) by (auto simp: at_risk_def)
qed

definition ex_put :: "fs \<Rightarrow> (error + PutResult) \<times> fs" where
  "ex_put w = fs_Put (\<lambda>_. zero_hash) CallerCtx ''d/a.json'' (bytes_NewReader [7]) (zero_PutOptions\<lparr>po_IfNotExists := True\<rparr>) w"

definition ex_unsynced :: fs where
  "ex_unsynced = snd (ex_put (ex_fs [None, None, None, None, None, Some (SysErr EIO, 0)]))"

text \<open>The first \<^verbatim>\<open>Put\<close> fails with its fsync of the root; the retry succeeds; without the fault the directory is safe.\<close>

theorem fs_retried_put_not_durable_witness:
  "isl (fst (ex_put (ex_fs [None, None, None, None, None, Some (SysErr EIO, 0)]))) \<and>
   \<not> isl (fst (ex_put ex_unsynced)) \<and> None \<in> crash_entries (snd (ex_put ex_unsynced)) ''/r/d'' \<and>
   None \<notin> crash_entries (snd (ex_put (ex_fs []))) ''/r/d''"
proof -
  have ev: "isl (fst (ex_put (ex_fs [None, None, None, None, None, Some (SysErr EIO, 0)])))"
    "None \<notin> crash_entries (snd (ex_put (ex_fs []))) ''/r/d''"
    by code_simp+
  have st: "lookup ex_unsynced (Dir (path ex_unsynced ''d/a.json'')) = Some NDir" "Dir (path ex_unsynced ''d/a.json'') = ''/r/d''"
    "None \<in> crash_entries ex_unsynced (Dir (path ex_unsynced ''d/a.json''))" "\<not> isl (fst (ex_put ex_unsynced))"
    by code_simp+
  have "fs_good ex_unsynced"
    unfolding ex_unsynced_def ex_put_def
    by (rule fs_Put_laws(1) [OF ex_fs_good okkey_ex prod.collapse [symmetric]]) (auto simp: ok_fault_def)
  moreover obtain pr where "ex_put ex_unsynced = (Inr pr, snd (ex_put ex_unsynced))"
    using st(4) by (cases "ex_put ex_unsynced", cases "fst (ex_put ex_unsynced)") auto
  ultimately have "None \<in> crash_entries (snd (ex_put ex_unsynced)) (Dir (path ex_unsynced ''d/a.json''))"
    using fs_retried_put_not_durable [OF _ okkey_ex _ st(1,3), of "zero_PutOptions\<lparr>po_IfNotExists := True\<rparr>" "\<lambda>_. zero_hash" CallerCtx "[7]" pr]
    by (simp add: ex_put_def ex_inline)
  then show ?thesis using ev st(2,4) by simp
qed

end
