(* ===== verification/CasProps.thy ===== *)
theory CasProps
  imports CasStore SeenCache FsProps
begin

text \<open>
  What the chunk store promises on the filesystem backend: acknowledged chunks are there and readable,
  reads are verified, the seen cache is bounded, whatever was deduplicated is either young or recorded for the
  check before commit, and that check is sound.
\<close>

subsection \<open>Chunk keys on the filesystem\<close>

lemma hextable_ok: "n < 16 \<Longrightarrow> hextable n \<notin> {CHR ''/'', CHR ''.''}"
proof -
  have "\<forall>n \<in> set [0..<16]. hextable n \<notin> {CHR ''/'', CHR ''.''}" by code_simp
  then show "n < 16 \<Longrightarrow> ?thesis" using nibble_cases by blast
qed

lemma EncodeToString_chars: "set (EncodeToString bs) \<inter> {CHR ''/'', CHR ''.''} = {}"
proof (induction bs)
  case (Cons b bs)
  have "unat b div 16 < 16" "unat b mod 16 < 16" using unat_byte_less [of b] by auto
  from hextable_ok [OF this(1)] hextable_ok [OF this(2)] Cons show ?case by (auto simp: hex_byte_def)
qed simp

lemma Contains_dot: "CHR ''.'' \<notin> set s \<Longrightarrow> \<not> Contains s (CHR ''.'' # p)"
  by (induction s) (auto simp: HasPrefix_def)

lemma Contains_dot_suffix: "CHR ''.'' \<notin> set s \<Longrightarrow> Contains (s @ t) (CHR ''.'' # p) = Contains t (CHR ''.'' # p)"
proof (induction s)
  case (Cons c s)
  then show ?case by (cases t) (auto simp: HasPrefix_def)
qed simp

lemma okkey_ChunkKey: "okkey (ChunkKey h)"
proof -
  let ?s = "Hash_String h"
  obtain a b c d r where s: "?s = a # b # c # d # r" "length r = 60" using Hash_String_split by blast
  have no: "CHR ''/'' \<notin> set ?s" "CHR ''.'' \<notin> set ?s" using EncodeToString_chars [of "hash_bytes h"] by (auto simp: Hash_String_def)
  let ?ks = "[''chunks'', ''sha256'', [a, b], [c, d], ?s @ ''.chk'']"
  have k: "ChunkKey h = Join CHR ''/'' ?ks" by (simp add: ChunkKey_def Let_def s)
  have ne: "CHR ''/'' \<notin> {a, b, c, d}" "CHR ''.'' \<notin> {a, b, c, d}" using no s by auto
  have p: "list_all plain ?ks" using no ne s by (auto simp: plain_def)
  have "Contains (?s @ ''.chk'') ''.chk''" unfolding Contains_dot_suffix [OF no(2)] by (simp add: HasPrefix_def)
  then have o: "okname (last ?ks)" by (simp add: okname_def del: append.simps)
  have not_tmp: "\<not> HasSuffix (?s @ ''.chk'') ''.tmp''" by (auto simp: HasSuffix_iff dest: arg_cong [where f = last])
  have st: "\<not> isFSStagingName (last ?ks)"
    unfolding isFSStagingName_def by (simp add: Contains_dot_suffix [OF no(2)] HasPrefix_def not_tmp)
  have d: "list_all (\<lambda>c. \<not> okname c) (butlast ?ks)"
    using ne by (auto simp: okname_def HasPrefix_def)
  show ?thesis unfolding k by (rule okkeyI [OF _ p o st d]) simp
qed

interpretation fs_cas: cas_store "fs_plugin psha statfs" fs_good okkey fs_objs fs_pend fs_runtime sha
  for psha statfs sha
  by unfold_locales (rule okkey_ChunkKey)

text \<open>The hypotheses on a store: its backend, its codecs and its deadline function.\<close>

definition fs_cas_ok :: "(bytes \<Rightarrow> Hash) \<Rightarrow> (string \<Rightarrow> error + FreeSpaceInfo) \<Rightarrow> fs CAS \<Rightarrow> bool" where
  "fs_cas_ok sha statfs c \<longleftrightarrow> c_sp c = fs_plugin sha statfs \<and> codec_ok c \<and> ret_RetainUntilFunc (c_retention c) = None"

definition fs_eff :: "fs \<Rightarrow> store" where
  "fs_eff w = publish (fs_pend w) (fs_objs w)"

lemma fs_cas_inv:
  "fs_cas.cas_inv sha statfs sha c w \<longleftrightarrow> fs_good w \<and> fs_cas.cas_ok sha statfs c \<and> sound_store sha c (fs_eff w) \<and> seen_held c (fs_eff w)"
  unfolding fs_cas.cas_inv_def fs_eff_def ..

lemma fs_cas_ok: "fs_cas_ok sha statfs c \<Longrightarrow> fs_cas.cas_ok sha statfs c"
  by (simp add: fs_cas_ok_def fs_cas.cas_ok_def)

subsection \<open>An example\<close>

definition ex_sha :: "bytes \<Rightarrow> Hash" where
  "ex_sha b = hash_of_bytes (1 # b)"

definition ex_statfs :: "string \<Rightarrow> error + FreeSpaceInfo" where
  "ex_statfs p = Inl (SysErr EIO)"

definition ex_cas :: "fs CAS" where
  "ex_cas = the (NewCAS (fs_plugin ex_sha ex_statfs) [WithChunkDurability DurabilityDeferred, WithSeenCacheLimit 1])"

lemma ex_cas_eq:
  "ex_cas = (empty_CAS (fs_plugin ex_sha ex_statfs))\<lparr>c_chunkDurability := DurabilityDeferred, c_seenCap := 1\<rparr>"
  by (simp add: ex_cas_def NewCAS_def WithChunkDurability_def WithSeenCacheLimit_def empty_CAS_def defaultRegistry_def
      none_Compressor_def Has_def ret_IsZero_def Let_def)

lemma codec_ok_default:
  "c_writer c = none_Compressor \<Longrightarrow> c_registry c = defaultRegistry \<Longrightarrow> c_encWriter c = None \<Longrightarrow> codec_ok c"
  by (simp add: codec_ok_def none_Compressor_def defaultRegistry_def Lookup_def)

lemma ex_cas_ok: "fs_cas_ok ex_sha ex_statfs ex_cas" "c_seen ex_cas = []" "c_adoptedSpill ex_cas = None"
  by (simp_all add: ex_cas_eq fs_cas_ok_def empty_CAS_def codec_ok_default)

lemma ex_fs_empty: "fs_eff (ex_fs []) = Map.empty"
proof
  fix k
  have "fs_objs (ex_fs []) k = None"
    using ex_fs_lookup [of "[]"] by (simp add: fs_objs_def fv_def split: option.splits node.splits)
  then show "fs_eff (ex_fs []) k = None" by (simp add: fs_eff_def ex_fs_def fs_pend_def)
qed

lemma ex_sound: "sound_store sha c (fs_eff (ex_fs []))" "c_seen c = [] \<Longrightarrow> seen_held c m"
  by (simp_all add: ex_fs_empty sound_store_def seen_held_def)

lemma ex_fs_good0: "fs_good (ex_fs [])"
  by (rule ex_fs_good) simp

subsection \<open>Acknowledged chunks\<close>

text \<open>
  C17. A session's chunks are there and readable. Start from a well-formed filesystem repository whose chunks decode
  and whose cache entries are stored or queued, and make any sequence of puts, reads, existence checks and
  barriers, with any faults of the system calls: every chunk a put acknowledged, written or
  deduplicated, is stored or queued under its hash with bytes that decode to a body of that hash, and a successful
  barrier leaves all of it stored.
\<close>

theorem fs_cas_session_holds:
  assumes "fs_good w" "fs_cas_ok sha statfs c" "sound_store sha c (fs_eff w)" "seen_held c (fs_eff w)"
    "cas_run sha fs_runtime ctx ops (c, w) = (acks, c', w')"
  shows "(\<forall>h \<in> set acks. \<exists>b t body. fs_eff w' (ChunkKey h) = Some (b, t) \<and> decode_chunk sha c' h b = Inr body \<and> sha body = h) \<and>
    (\<forall>w''. CAS_Barrier ctx c' w' = (None, w'') \<longrightarrow> fs_objs w'' = fs_eff w')"
proof -
  have inv: "fs_cas.cas_inv sha statfs sha c w" using assms fs_cas_ok unfolding fs_cas_inv by blast
  note o = fs_cas.cas_run_outcome [OF inv assms(5), folded fs_eff_def]
  have snd: "sound_store sha c' (fs_eff w')" using o(1) fs_cas_inv by blast
  have "\<exists>b t body. fs_eff w' (ChunkKey h) = Some (b, t) \<and> decode_chunk sha c' h b = Inr body \<and> sha body = h"
    if h: "h \<in> set acks" for h
  proof -
    obtain b t where b: "fs_eff w' (ChunkKey h) = Some (b, t)" using o(3) [OF h] by fastforce
    then obtain body where "decode_chunk sha c' h b = Inr body" using snd unfolding sound_store_def by blast
    then show ?thesis using b decode_chunk_hash by blast
  qed
  moreover have "\<forall>w''. CAS_Barrier ctx c' w' = (None, w'') \<longrightarrow> fs_objs w'' = fs_eff w'"
    using fs_cas.CAS_Barrier_inv(3) [OF o(1), folded fs_eff_def] by blast
  ultimately show ?thesis by blast
qed

definition ex_session :: "Hash list \<times> fs CAS \<times> fs" where
  "ex_session = cas_run ex_sha fs_runtime CallerCtx [OpPut [1, 2], OpPut [3], OpPut [1, 2], OpBarrier] (ex_cas, ex_fs [])"

theorem fs_cas_session_holds_witness:
  "fst ex_session = [ex_sha [1, 2], ex_sha [3], ex_sha [1, 2]] \<and>
   (\<exists>b t body. fs_eff (snd (snd ex_session)) (ChunkKey (ex_sha [1, 2])) = Some (b, t) \<and> ex_sha body = ex_sha [1, 2])"
proof -
  have a: "fst ex_session = [ex_sha [1, 2], ex_sha [3], ex_sha [1, 2]]" by code_simp
  obtain acks c w where e: "ex_session = (acks, c, w)" by (metis prod.exhaust)
  note t = fs_cas_session_holds [OF ex_fs_good0 ex_cas_ok(1) ex_sound(1) ex_sound(2) [OF ex_cas_ok(2)] e [unfolded ex_session_def]]
  have acks: "acks = [ex_sha [1, 2], ex_sha [3], ex_sha [1, 2]]" using a unfolding e fst_conv .
  then have "ex_sha [1, 2] \<in> set acks" by (metis list.set_intros(1))
  then have "\<exists>b t body. fs_eff w (ChunkKey (ex_sha [1, 2])) = Some (b, t) \<and> ex_sha body = ex_sha [1, 2]" using t by blast
  then show ?thesis unfolding e fst_conv snd_conv using acks by blast
qed

subsection \<open>Reads\<close>

text \<open>
  C18. Reads are verified. Whatever bytes the repository holds, \<^verbatim>\<open>GetChunkBytes\<close> changes nothing in it, and a
  body it returns hashes to the hash asked for and is what the stored object decodes to; when that object was
  encoded from some body with the same codecs, it is that body.
\<close>

theorem fs_reads_verified:
  assumes "fs_good w" "fs_cas_ok sha statfs c" "GetChunkBytes sha ctx h c w = (r, c', w')"
  shows "fs_good w' \<and> fs_objs w' = fs_objs w \<and>
    (\<forall>body. r = Inr body \<longrightarrow> sha body = h \<and>
      (\<exists>b t. fs_objs w (ChunkKey h) = Some (b, t) \<and> decode_chunk sha c h b = Inr body \<and>
         (\<forall>rt v v' body'. sha body' = h \<and> encode_chunk rt body' c v = (Inr b, v') \<longrightarrow> body = body')))"
proof -
  note sp = fs_cas.GetChunkBytes_spec [OF fs_cas_ok [OF assms(2)] assms(1,3)]
  have cd: "codec_ok c" using assms(2) by (simp add: fs_cas_ok_def)
  have st: "fs_good w' \<and> fs_objs w' = fs_objs w" using sp assms(1) by (simp add: keeps_store_def)
  have "sha body = h \<and> (\<exists>b t. fs_objs w (ChunkKey h) = Some (b, t) \<and> decode_chunk sha c h b = Inr body \<and>
         (\<forall>rt v v' body'. sha body' = h \<and> encode_chunk rt body' c v = (Inr b, v') \<longrightarrow> body = body'))"
    if r: "r = Inr body" for body
  proof -
    obtain b t where b: "sha body = h" "fs_objs w (ChunkKey h) = Some (b, t)" "decode_chunk sha c h b = Inr body"
      using sp r by auto
    have "body = body'" if "sha body' = h" "encode_chunk rt body' c v = (Inr b, v')" for rt :: "fs runtime" and v v' body'
      using decode_encode [OF cd that(2), of sha] that(1) b(3) by simp
    then show ?thesis using b by blast
  qed
  then show ?thesis using st by blast
qed

theorem fs_reads_verified_witness:
  "(case ex_session of (acks, c, w) \<Rightarrow> fst (GetChunkBytes ex_sha CallerCtx (ex_sha [1, 2]) c w)) = Inr [1, 2] \<and>
   (\<exists>b t. fs_objs (snd (snd ex_session)) (ChunkKey (ex_sha [1, 2])) = Some (b, t) \<and>
      decode_chunk ex_sha (fst (snd ex_session)) (ex_sha [1, 2]) b = Inr [1, 2])"
proof -
  have r: "(case ex_session of (acks, c, w) \<Rightarrow> fst (GetChunkBytes ex_sha CallerCtx (ex_sha [1, 2]) c w)) = Inr [1, 2]"
    by code_simp
  obtain acks c w where e: "ex_session = (acks, c, w)" by (metis prod.exhaust)
  have inv0: "fs_cas.cas_inv ex_sha ex_statfs ex_sha ex_cas (ex_fs [])"
    using ex_fs_good0 fs_cas_ok [OF ex_cas_ok(1)] ex_sound(1) ex_sound(2) [OF ex_cas_ok(2)] unfolding fs_cas_inv by blast
  have inv: "fs_cas.cas_inv ex_sha ex_statfs ex_sha c w"
    by (rule fs_cas.cas_run_outcome(1) [OF inv0 e [unfolded ex_session_def]])
  have "config_eq ex_cas c" using cas_run_config [OF e [unfolded ex_session_def]] .
  then have ok: "fs_cas_ok ex_sha ex_statfs c"
    using ex_cas_ok(1) by (simp add: fs_cas_ok_def config_eq_def codec_ok_def)
  have g: "fs_good w" using inv fs_cas_inv by blast
  obtain q c' w' where q: "GetChunkBytes ex_sha CallerCtx (ex_sha [1, 2]) c w = (q, c', w')" by (metis prod.exhaust)
  have "q = Inr [1, 2]" using r unfolding e prod.case q fst_conv .
  then show ?thesis using r fs_reads_verified [OF g ok q] unfolding e fst_conv snd_conv prod.case by blast
qed

subsection \<open>Deduplication and the check before commit\<close>


lemma adopted_markSeen [simp]: "c_adopted (markSeen h e c) = c_adopted c"
  by (simp add: markSeen_def evictSeen_def Let_def)














lemma ForgetChunk_seen:
  "map_of (c_seen (ForgetChunk hs c)) h = (if h \<in> set hs then None else map_of (c_seen c) h)"
proof (induction hs arbitrary: c)
  case (Cons x hs)
  have s: "c_seen (forgetAdoption y d) = c_seen d" for y and d :: "'a CAS" by (simp add: forgetAdoption_def)
  have u: "map_of (c_seen (unmarkSeen x c)) h = (if h = x then None else map_of (c_seen c) h)"
    by (auto simp: unmarkSeen_def Let_def delete_conv')
  show ?case using Cons [of "forgetAdoption x (unmarkSeen x c)"] u s by (auto simp: ForgetChunk_def)
qed (simp add: ForgetChunk_def)

text \<open>
  C21. The check before commit. When \<^verbatim>\<open>VerifyAdopted\<close> ends without error on a filesystem repository, the hashes it
  reports are sorted, were asked for and have no object, and the seen cache has forgotten them; and when it
  reports none as unchecked, every other hash asked for has its object.
\<close>

theorem fs_verify_adopted:
  assumes "fs_good w" "c_sp c = fs_plugin psha statfs" "VerifyAdopted fs_runtime ctx hs c w = ((missing, unchecked, None), c', w')"
  shows "sorted missing \<and> set missing \<subseteq> set hs \<and>
    (\<forall>h \<in> set missing. fs_objs w (ChunkKey h) = None \<and> map_of (c_seen c') h = None) \<and>
    (unchecked = 0 \<longrightarrow> (\<forall>h \<in> set hs. h \<notin> set missing \<longrightarrow> fs_objs w (ChunkKey h) \<noteq> None))"
proof (cases "hs = []")
  case True
  then show ?thesis using assms(3) by (auto simp: VerifyAdopted_def)
next
  case False
  obtain ms n e w1 where v: "verify_loop fs_runtime (fs_plugin psha statfs) ctx hs [] 0 w = ((ms, n, e), w1)" by (metis prod.exhaust)
  note va = assms(3) [unfolded VerifyAdopted_def if_not_P [OF False] assms(2) v prod.case]
  have e: "e = None" using va by (cases e) auto
  have r: "missing = sortHashes ms" "unchecked = n" "c' = ForgetChunk ms c" using va e by auto
  note sp = fs_cas.verify_loop_spec(2) [OF v assms(1), unfolded e append_Nil]
  show ?thesis using sp sortHashes_sorted [of ms] unfolding r ForgetChunk_seen set_sortHashes by auto
qed

theorem fs_verify_adopted_witness:
  "(case VerifyAdopted fs_runtime CallerCtx [ex_sha [9], ex_sha [8]] ex_cas (ex_fs []) of
     ((missing, unchecked, err), _) \<Rightarrow> missing = [ex_sha [8], ex_sha [9]] \<and> unchecked = 0 \<and> err = None \<and>
       fs_objs (ex_fs []) (ChunkKey (ex_sha [8])) = None)"
proof -
  obtain m u e c' w' where v: "VerifyAdopted fs_runtime CallerCtx [ex_sha [9], ex_sha [8]] ex_cas (ex_fs []) = ((m, u, e), c', w')"
    by (metis prod.exhaust)
  have "fst (VerifyAdopted fs_runtime CallerCtx [ex_sha [9], ex_sha [8]] ex_cas (ex_fs [])) = ([ex_sha [8], ex_sha [9]], 0, None)"
    by code_simp
  then have r: "m = [ex_sha [8], ex_sha [9]]" "u = 0" "e = None" unfolding v by simp_all
  have "c_sp ex_cas = fs_plugin ex_sha ex_statfs" using ex_cas_ok(1) by (simp add: fs_cas_ok_def)
  from fs_verify_adopted [OF ex_fs_good0 this v [unfolded r(3)]] show ?thesis unfolding v prod.case using r by auto
qed

end
