(* ===== verification/SpillProps.thy ===== *)
theory SpillProps
  imports Spill
begin

text \<open>
  The spilled set is a set: what its operations do to the set of keys it holds, under every script of
  I/O faults.
\<close>

subsection \<open>Filters of the size the set allocates\<close>

lemma and_not_mask: "x AND NOT (mask n) = push_bit n (drop_bit n (x :: 64 word))"
  by (rule bit_word_eqI) (auto simp: bit_simps)

lemma uint_small: "0 \<le> x \<Longrightarrow> x < 2 ^ 64 \<Longrightarrow> uint (word_of_int x :: 64 word) = x"
  by (simp add: unsigned_of_int take_bit_int_eq_self_iff)

lemma round_up_64: "m < 2 ^ 63 \<Longrightarrow> unat ((m + 63) AND NOT 63 :: 64 word) = 64 * ((unat m + 63) div 64)"
proof -
  assume m: "m < 2 ^ 63"
  let ?x = "m + 63"
  have s: "unat ?x = unat m + 63"
    using m by (subst unat_plus_simple [THEN iffD1]) (auto simp: word_le_nat_alt word_less_nat_alt unat_plus_if_size word_size)
  have "?x AND NOT 63 = push_bit 6 (drop_bit 6 ?x)"
    using and_not_mask [of ?x 6] by (simp add: mask_eq_exp_minus_1)
  moreover have "unat (?x div 64 * 64) = unat ?x div 64 * 64"
  proof -
    have "unat (?x div 64) * unat (64 :: 64 word) < 2 ^ LENGTH(64)"
      using unsigned_less [of ?x, where 'a = nat] by (simp add: unat_div_distrib order.strict_trans1)
    then have "unat (?x div 64 * 64) = unat (?x div 64) * unat (64 :: 64 word)" by (simp only: unat_mult_lem)
    then show ?thesis by (simp add: unat_div_distrib)
  qed
  ultimately show ?thesis using s by (simp add: push_bit_eq_mult drop_bit_eq_div)
qed

lemma newBloom_wf:
  assumes "n < 2 ^ 59" "mx < 2 ^ 58"
  shows "bloom_wf (newBloom n mx)"
proof -
  define n' where "n' = (if n < 1 then 1 else n)"
  define m where "m = (word_of_int n' * bloomBitsPerKey :: 64 word)"
  define m' where "m' = (if mx > 0 \<and> m > word_of_int mx * 8 then word_of_int mx * 8 else m)"
  have n': "1 \<le> n'" "n' < 2 ^ 59" using assms(1) by (auto simp: n'_def)
  have "m = word_of_int (n' * 10)" by (simp add: m_def bloomBitsPerKey_def)
  then have "uint m = n' * 10" using n' uint_small [of "n' * 10"] by simp
  then have m: "unat m = nat (n' * 10)" by (simp add: unat_eq_nat_uint)
  have mx: "unat (word_of_int mx * 8 :: 64 word) = nat (mx * 8)" if "mx > 0"
  proof -
    have "uint (word_of_int (mx * 8) :: 64 word) = mx * 8" using that assms(2) by (intro uint_small) auto
    then show ?thesis by (simp add: unat_eq_nat_uint)
  qed
  have "0 < unat m' \<and> unat m' < 2 ^ 63"
  proof (cases "mx > 0 \<and> m > word_of_int mx * 8")
    case True
    then have "unat m' = nat (mx * 8)" using mx by (simp add: m'_def)
    then show ?thesis using True assms(2) by (simp add: nat_less_iff)
  next
    case False
    then have "unat m' = nat (n' * 10)" using m by (auto simp: m'_def)
    then show ?thesis using n' by (simp add: nat_less_iff)
  qed
  then have "0 < unat m'" "unat m' < 2 ^ 63" by blast+
  moreover have "m' < 2 ^ 63" using calculation by (simp add: word_less_nat_alt)
  ultimately have r: "unat ((m' + 63) AND NOT 63) = 64 * ((unat m' + 63) div 64)" "0 < (unat m' + 63) div 64"
    using round_up_64 [of m'] by auto
  have "newBloom n mx = \<lparr>bl_bits = replicate (unat (((m' + 63) AND NOT 63) div 64)) 0, bl_m = (m' + 63) AND NOT 63\<rparr>"
    by (simp add: newBloom_def Let_def m'_def m_def n'_def)
  then show ?thesis using r unfolding bloom_wf_def by (auto simp: unat_div_distrib)
qed

subsection \<open>Runs\<close>

definition fence_of :: "Hash list \<Rightarrow> Hash list" where
  "fence_of ks = map (\<lambda>i. ks ! (i * fenceEvery)) [0..<(length ks + (fenceEvery - 1)) div fenceEvery]"

definition run_ok :: "run \<Rightarrow> bool" where
  "run_ok r \<longleftrightarrow> rn_n r = length (rn_keys r) \<and> sorted_wrt (<) (rn_keys r) \<and> rn_fence r = fence_of (rn_keys r) \<and>
     bloom_wf (rn_bloom r) \<and> (\<forall>k \<in> set (rn_keys r). bloom_test (rn_bloom r) k)"

lemma fence_of_snoc: "fence_of (ks @ [k]) = (if length ks mod fenceEvery = 0 then fence_of ks @ [k] else fence_of ks)"
proof -
  let ?n = "length ks"
  have lt: "i * 1024 < ?n" if "i < (?n + 1023) div 1024" for i using that by linarith
  have same: "map (\<lambda>i. (ks @ [k]) ! (i * 1024)) [0..<(?n + 1023) div 1024] = map (\<lambda>i. ks ! (i * 1024)) [0..<(?n + 1023) div 1024]"
    using lt by (auto simp: nth_append)
  show ?thesis
  proof (cases "?n mod 1024 = 0")
    case True
    then have "(Suc ?n + 1023) div 1024 = Suc ((?n + 1023) div 1024)" "(?n + 1023) div 1024 * 1024 = ?n"
      by (auto simp: mod_eq_0_iff_dvd elim!: dvdE)
    then show ?thesis using True same by (simp add: fence_of_def fenceEvery_def)
  next
    case False
    then obtain q t where n: "?n = 1024 * q + Suc t" "Suc t < 1024"
      by (metis mod_less_divisor mult_div_mod_eq not0_implies_Suc zero_less_numeral)
    have "(1024 * Suc q + u) div 1024 = Suc q" if "u < 1024" for u :: nat using that by (intro div_nat_eqI) auto
    from this [of t] this [of "Suc t"] have "(1024 * Suc q + Suc t) div 1024 = (1024 * Suc q + t) div 1024" using n(2) by simp
    then have "(Suc ?n + 1023) div 1024 = (?n + 1023) div 1024" using n(1) by simp
    then show ?thesis using False same by (simp add: fence_of_def fenceEvery_def)
  qed
qed

lemma run_ok_snoc:
  assumes "run_ok r" "\<forall>x \<in> set (rn_keys r). x < k"
  shows "run_ok (r\<lparr>rn_fence := (if rn_n r mod fenceEvery = 0 then rn_fence r @ [k] else rn_fence r),
      rn_bloom := bloom_add k (rn_bloom r), rn_keys := rn_keys r @ [k], rn_n := Suc (rn_n r)\<rparr>)"
  using assms bloom_add_wf [of "rn_bloom r" k] bloom_test_add [of "rn_bloom r" _ k]
  by (auto simp: run_ok_def fence_of_snoc sorted_wrt_append)

lemma run_has_correct:
  assumes r: "run_ok r" and h: "run_has k r s = (Inr b, s')"
  shows "b \<longleftrightarrow> k \<in> set (rn_keys r)"
proof -
  let ?ks = "rn_keys r" and ?F = "rn_fence r"
  have n: "rn_n r = length ?ks" and so: "sorted_wrt (<) ?ks" and F: "?F = fence_of ?ks"
    and bl: "\<forall>k \<in> set ?ks. bloom_test (rn_bloom r) k" using r by (auto simp: run_ok_def)
  have mono: "?ks ! i \<le> ?ks ! j" if "i \<le> j" "j < length ?ks" for i j
    using so that sorted_wrt_nth_less [of "(<)" ?ks i j] by (cases "i = j") auto
  have lenF: "length ?F = (length ?ks + 1023) div 1024" by (simp add: F fence_of_def fenceEvery_def)
  have Fi: "?F ! i = ?ks ! (i * 1024)" "i * 1024 < length ?ks" if "i < length ?F" for i
    using that lenF by (auto simp: F fence_of_def fenceEvery_def)
  have Fm: "?F ! a \<le> ?F ! b" if "a \<le> b" "b < length ?F" for a b
    using Fi(1) [of a] Fi [of b] mono [of "a * 1024" "b * 1024"] that by simp
  show ?thesis
  proof (cases "rn_n r = 0 \<or> \<not> bloom_test (rn_bloom r) k")
    case True
    then show ?thesis using h n bl by (auto simp: run_has_def)
  next
    case False
    define f where "f = sort_Search (length ?F) (\<lambda>i. ?F ! i > k)"
    have fi: "?F ! i > k \<longleftrightarrow> f \<le> i" if "i < length ?F" for i
      unfolding f_def by (rule sort_Search_iff [OF _ that]) (use Fm less_le_trans in blast)
    have fb: "f \<le> length ?F" unfolding f_def by (rule sort_Search_bound)
    have F0: "0 < length ?F" using False n lenF by (cases ?ks) auto
    have low: "j < f * 1024" if j: "j < length ?ks" "?ks ! j = k" for j
    proof (rule ccontr)
      assume a: "\<not> j < f * 1024"
      then have "f < length ?F" using j(1) lenF by linarith
      then show False using fi [of f] Fi [of f] mono [of "f * 1024" j] a j by auto
    qed
    show ?thesis
    proof (cases "f = 0")
      case True
      then show ?thesis using h False low by (auto simp: run_has_def f_def [symmetric] in_set_conv_nth)
    next
      case f0: False
      let ?first = "(f - 1) * fenceEvery"
      define cnt where "cnt = (if rn_n r - ?first > fenceEvery then fenceEvery else rn_n r - ?first)"
      define buf where "buf = take cnt (drop ?first ?ks)"
      have F1: "?F ! (f - 1) \<le> k" "?first < length ?ks"
      proof -
        have l: "f - 1 < length ?F" "\<not> f \<le> f - 1" using f0 fb by auto
        show "?F ! (f - 1) \<le> k" using fi [OF l(1)] l(2) by simp
        show "?first < length ?ks" using Fi(2) [OF l(1)] by (simp add: fenceEvery_def)
      qed
      have lb: "length buf = cnt" using n F1(2) by (auto simp: buf_def cnt_def)
      have bufi: "buf ! i = ?ks ! (?first + i)" "?first + i < length ?ks" if "i < cnt" for i
        using that n by (auto simp: buf_def cnt_def split: if_splits)
      have bufm: "buf ! x \<le> buf ! y" if "x \<le> y" "y < cnt" for x y
        using bufi(1) [of x] bufi [of y] mono [of "?first + x" "?first + y"] that by simp
      obtain e s1 where io: "io_fault s = (e, s1)" by fastforce
      define i where "i = sort_Search cnt (\<lambda>i. buf ! i \<ge> k)"
      have b: "b \<longleftrightarrow> i < cnt \<and> buf ! i = k"
        using h False f0 io unfolding run_has_def f_def [symmetric] Let_def
        by (cases e) (auto simp: cnt_def [symmetric] buf_def [symmetric] i_def [symmetric] simp del: One_nat_def)
      have ii: "buf ! x \<ge> k \<longleftrightarrow> i \<le> x" if "x < cnt" for x
        unfolding i_def by (rule sort_Search_iff [OF _ that]) (use bufm order_trans in blast)
      show ?thesis
      proof
        assume b
        then show "k \<in> set ?ks" using b bufi [of i] by (metis nth_mem)
      next
        assume "k \<in> set ?ks"
        then obtain j where j: "j < length ?ks" "?ks ! j = k" by (auto simp: in_set_conv_nth)
        have "?first \<le> j"
        proof (rule ccontr)
          assume "\<not> ?first \<le> j"
          then have "?ks ! j < ?ks ! ?first" using sorted_wrt_nth_less [OF so, of j ?first] F1(2) by simp
          then show False using F1(1) Fi [of "f - 1"] f0 fb j(2) by (simp add: fenceEvery_def)
        qed
        moreover have "j < ?first + fenceEvery" using low [OF j] f0 by (cases f) (auto simp: fenceEvery_def)
        ultimately have x1: "j - ?first < cnt" "?first + (j - ?first) = j" using j n by (auto simp: cnt_def)
        have x: "j - ?first < cnt" "buf ! (j - ?first) = k" using x1 bufi(1) [OF x1(1)] j(2) by simp_all
        then have ile: "i \<le> j - ?first" using ii [of "j - ?first"] by simp
        then have "buf ! i \<ge> k" using ii [of i] x(1) by simp
        moreover have "buf ! i \<le> buf ! (j - ?first)" by (rule bufm [OF ile x(1)])
        ultimately show b using b x ile by simp
      qed
    qed
  qed
qed

subsection \<open>Writing a run\<close>

fun gen_set :: "gen \<Rightarrow> Hash set" where
  "gen_set (FromMem ks) = set ks"
| "gen_set (FromRuns e h) = \<Union> (set ` set h)"

fun gen_ok :: "gen \<Rightarrow> bool" where
  "gen_ok (FromMem ks) \<longleftrightarrow> sorted ks"
| "gen_ok (FromRuns e h) \<longleftrightarrow> (\<forall>ks \<in> set h. ks \<noteq> [] \<and> sorted ks)"

lemma pick_None: "pick h = None \<longleftrightarrow> h = []"
  by (cases h) (auto split: option.splits)

lemma pick_least: "pick h = Some (t, ts) \<Longrightarrow> \<forall>u \<in> set h. hd t \<le> hd u"
proof (induction h arbitrary: t ts)
  case (Cons a h)
  show ?case
  proof (cases "pick h")
    case None
    then show ?thesis using Cons(2) by (simp add: pick_None)
  next
    case (Some p)
    obtain u us where p: "p = (u, us)" by (cases p)
    then have "\<forall>v \<in> set h. hd u \<le> hd v" using Cons(1) Some by simp
    then show ?thesis using Cons(2) Some p by (auto split: if_splits)
  qed
qed simp

lemma gen_next_ok:
  assumes "gen_ok g" "gen_next g s = (Inr (Some k), g', s')"
  shows "gen_ok g' \<and> gen_set g = insert k (gen_set g') \<and> (\<forall>x \<in> gen_set g. k \<le> x)"
  using assms
proof (induction g s rule: gen_next.induct)
  case (4 h s)
  then obtain t ts where p: "pick h = Some (t, ts)" by (auto split: option.splits)
  have h: "set h = insert t (set ts)" using arg_cong [OF pick_mset [OF p], of set_mset] by simp
  have ne: "\<forall>ks \<in> set h. ks \<noteq> [] \<and> sorted ks" using 4(1) by simp
  have k: "k = hd t" "g' = FromRuns None (if tl t = [] then ts else tl t # ts)"
    using 4(2) p by (auto split: prod.splits option.splits)
  have "t \<noteq> []" "sorted t" using ne h by auto
  then have t: "set t = insert (hd t) (set (tl t))" "sorted (tl t)" by (cases t; simp)+
  have "gen_set (FromRuns None h) = insert k (gen_set g')" using h t(1) k by auto
  moreover have "k \<le> x" if x: "x \<in> gen_set (FromRuns None h)" for x
  proof -
    obtain u where u: "u \<in> set h" "x \<in> set u" using x by auto
    then have "u \<noteq> []" "sorted u" using ne by auto
    then have "hd u \<le> x" using u(2) by (cases u) auto
    then show ?thesis using pick_least [OF p] u(1) k(1) by fastforce
  qed
  moreover have "gen_ok g'" using ne h t(2) k by auto
  ultimately show ?case by blast
qed auto

lemma gen_next_None: "gen_next g s = (Inr None, g', s') \<Longrightarrow> gen_set g = {}"
  by (induction g s rule: gen_next.induct) (auto simp: pick_None split: prod.splits option.splits)

lemma le_last:
  assumes "sorted_wrt (<) ks" "y \<in> set ks"
  shows "y \<le> (last ks :: Hash)"
proof -
  have "ks = butlast ks @ [last ks]" using assms(2) by (cases ks) auto
  then have "y \<in> set (butlast ks) \<or> y = last ks" "\<forall>x \<in> set (butlast ks). x < last ks"
    using assms sorted_wrt_append [of "(<)" "butlast ks" "[last ks]"] by (metis Un_iff empty_iff empty_set set_ConsD set_append,
      metis list.set_intros(1))
  then show ?thesis by auto
qed

lemma write_loop_ok:
  assumes "run_ok r" "gen_ok g" "\<forall>x \<in> set (rn_keys r). \<forall>y \<in> gen_set g. x \<le> y"
    "rn_keys r \<noteq> [] \<longrightarrow> prev = last (rn_keys r)" "write_loop g r prev s = (Inr r', s')"
  shows "run_ok r' \<and> set (rn_keys r') = set (rn_keys r) \<union> gen_set g \<and> rn_level r' = rn_level r"
  using assms
proof (induction g r prev s arbitrary: r' s' rule: write_loop.induct)
  case (1 g r prev s)
  obtain x g' s1 where n: "gen_next g s = (x, g', s1)" by (metis prod.exhaust)
  obtain e s2 where f: "io_fault s1 = (e, s2)" by fastforce
  show ?case
  proof (cases "\<exists>k. x = Inr (Some k)")
    case False
    then have "x = Inr None \<and> r' = r"
      using 1(7) by (subst (asm) write_loop.simps) (auto simp: n f split: sum.splits option.splits)
    then show ?thesis using gen_next_None [of g s g' s1] n 1(3) by simp
  next
    case True
    then obtain k where x: "x = Inr (Some k)" by blast
    note g' = gen_next_ok [OF 1(4) n [unfolded x]]
    show ?thesis
    proof (cases "rn_n r > 0 \<and> k = prev")
      case True
      have w: "write_loop g' r prev s1 = (Inr r', s')" using 1(7) True by (subst (asm) write_loop.simps) (simp add: n x)
      have "rn_keys r \<noteq> []" using True 1(3) by (auto simp: run_ok_def)
      then have "k \<in> set (rn_keys r)" using True 1(6) by auto
      then show ?thesis using 1(1) [OF n [symmetric] x refl refl True 1(3) _ _ 1(6) w] g' 1(5) by auto
    next
      case False
      let ?r1 = "r\<lparr>rn_fence := (if rn_n r mod fenceEvery = 0 then rn_fence r @ [k] else rn_fence r),
        rn_bloom := bloom_add k (rn_bloom r), rn_keys := rn_keys r @ [k], rn_n := Suc (rn_n r)\<rparr>"
      have so: "sorted_wrt (<) (rn_keys r)" "rn_n r = length (rn_keys r)" using 1(3) by (auto simp: run_ok_def)
      have lt: "\<forall>x \<in> set (rn_keys r). x < k"
      proof
        fix y assume y: "y \<in> set (rn_keys r)"
        then have ne: "rn_keys r \<noteq> []" by auto
        have "y \<le> last (rn_keys r)" by (rule le_last [OF so(1) y])
        moreover have "last (rn_keys r) \<noteq> k" using False ne 1(6) so(2) by auto
        moreover have "last (rn_keys r) \<le> k" using 1(5) ne g' by auto
        ultimately show "y < k" by auto
      qed
      have step: "write_loop g r prev s = (case e of Some err \<Rightarrow> (Inl (Errorf ''spill: write run'' [err]), s2)
          | None \<Rightarrow> write_loop g' ?r1 k s2)"
        unfolding write_loop.simps [of g r prev s] n x prod.case sum.case option.case if_not_P [OF False] Let_def f
        by (cases e) simp_all
      have e: "e = None" using 1(7) step by (cases e) auto
      have w: "write_loop g' ?r1 k s2 = (Inr r', s')" using 1(7) step e by simp
      note ih = 1(2) [OF n [symmetric] x refl refl False refl f [symmetric] e]
      have "run_ok r' \<and> set (rn_keys r') = set (rn_keys ?r1) \<union> gen_set g' \<and> rn_level r' = rn_level ?r1"
        using ih run_ok_snoc [OF 1(3) lt] g' 1(5) w by simp
      then show ?thesis using g' by auto
    qed
  qed
qed

subsection \<open>The invariant\<close>

definition hs_keys :: "HashSet \<Rightarrow> Hash list" where
  "hs_keys s = hs_mem s @ concat (map rn_keys (hs_runs s))"

definition hs_abs :: "HashSet \<Rightarrow> Hash set" where
  "hs_abs s = set (hs_keys s)"

definition hs_inv :: "HashSet \<Rightarrow> bool" where
  "hs_inv s \<longleftrightarrow> (\<forall>r \<in> set (hs_runs s). run_ok r) \<and> distinct (hs_keys s) \<and> length (hs_keys s) < 2 ^ 59 \<and>
     hs_MaxBloomBytes s < 2 ^ 58 \<and>
     (\<forall>hot i. hs_hot s = Some hot \<longrightarrow> hot i = zero_hash \<or> hot i \<in> set (concat (map rn_keys (hs_runs s))))"

text \<open>An operation that keeps the keys, possibly moving them between memory and runs.\<close>

definition hs_keeps :: "HashSet \<Rightarrow> HashSet \<Rightarrow> bool" where
  "hs_keeps s s' \<longleftrightarrow> hs_inv s' \<and> mset (hs_keys s') = mset (hs_keys s)"

lemma keeps_refl: "hs_inv s \<Longrightarrow> hs_keeps s s"
  by (simp add: hs_keeps_def)

lemma keeps_trans: "hs_keeps a b \<Longrightarrow> hs_keeps b c \<Longrightarrow> hs_keeps a c"
  by (simp add: hs_keeps_def)

lemma keeps_inv: "hs_keeps s s' \<Longrightarrow> hs_inv s'"
  by (simp add: hs_keeps_def)

lemma keeps_abs: "hs_keeps s s' \<Longrightarrow> hs_abs s' = hs_abs s"
  unfolding hs_keeps_def hs_abs_def by (metis set_mset_mset)

lemma same_keeps: "hs_inv s \<Longrightarrow> same_keys s s' \<Longrightarrow> hs_keeps s s'"
  by (simp add: hs_keeps_def hs_inv_def hs_keys_def same_keys_def)

lemma setErr_simps [simp]: "hs_keys (setErr e s) = hs_keys s" "hs_inv (setErr e s) = hs_inv s" "hs_err (setErr e s) \<noteq> None"
  "hs_mem (setErr e s) = hs_mem s" "hs_runs (setErr e s) = hs_runs s"
  by (auto simp: setErr_def hs_keys_def hs_inv_def)

lemma setErr_keeps [simp]: "hs_keeps s (setErr e s') = hs_keeps s s'"
  by (simp add: hs_keeps_def)

lemma keeps_upd [simp]: "hs_keeps s (s'\<lparr>hs_retryAt := n\<rparr>) = hs_keeps s s'"
  by (simp add: hs_keeps_def hs_inv_def hs_keys_def)

lemma run_ok_distinct: "run_ok r \<Longrightarrow> distinct (rn_keys r)"
  unfolding run_ok_def by (metis sorted_wrt_mono_rel strict_sorted_iff)

lemma newMergeIter_ok:
  assumes "newMergeIter rs s = (g, s')" "\<forall>r \<in> set rs. run_ok r"
  shows "gen_ok g \<and> (\<exists>e h. g = FromRuns e h \<and> (e = None \<longrightarrow> gen_set g = set (concat (map rn_keys rs))))"
  using assms
proof (induction rs s arbitrary: g s' rule: newMergeIter.induct)
  case (2 r rs s)
  have r: "run_ok r" "\<forall>r \<in> set rs. run_ok r" using 2(4) by auto
  then have so: "sorted (rn_keys r)" "rn_n r = length (rn_keys r)" by (auto simp: run_ok_def strict_sorted_imp_sorted)
  show ?case
  proof (cases "rn_n r = 0")
    case True
    then show ?thesis using 2(1) [OF True _ r(2)] 2(3) so by simp
  next
    case False
    obtain e s1 where io: "io_fault s = (e, s1)" by fastforce
    show ?thesis
    proof (cases e)
      case (Some x)
      then show ?thesis using 2(3) False io by auto
    next
      case None
      obtain g1 s2 where m: "newMergeIter rs s1 = (g1, s2)" by fastforce
      obtain e1 h where g1: "g1 = FromRuns e1 h" "gen_ok g1" "e1 = None \<longrightarrow> gen_set g1 = set (concat (map rn_keys rs))"
        using 2(2) [OF False io [symmetric] None m r(2)] by blast
      have "g = FromRuns e1 (rn_keys r # h)" using 2(3) False io None m g1(1) by simp
      then show ?thesis using g1 so False by auto
    qed
  qed
qed simp

text \<open>Writing a run of known keys.\<close>

lemma gen_None: "write_loop (FromRuns (Some e) h) r p s = (Inl (Errorf ''spill: merge'' [e]), s)"
  by (subst write_loop.simps) simp

lemma writeRun_ok:
  assumes w: "writeRunLocked l u g s = (Inr r, s')" and g: "gen_ok g" and u: "u < 2 ^ 59" and m: "hs_MaxBloomBytes s < 2 ^ 58"
  shows "run_ok r \<and> set (rn_keys r) = gen_set g \<and> (\<forall>e h. g = FromRuns e h \<longrightarrow> e = None)"
proof -
  obtain e s1 where io: "io_fault (s\<lparr>hs_seq := Suc (hs_seq s)\<rparr>) = (e, s1)" by fastforce
  let ?r0 = "\<lparr>rn_level = l, rn_keys = [], rn_n = 0, rn_bloom = newBloom (int u) (maxBloomBytes s1), rn_fence = []\<rparr>"
  have "hs_MaxBloomBytes s1 = hs_MaxBloomBytes s" using io_fault_same [OF io] by (simp add: same_keys_def)
  then have "maxBloomBytes s1 < 2 ^ 58" using m by (simp add: maxBloomBytes_def DefaultMaxBloomBytes_def)
  moreover have "int u < 2 ^ 59" using u by simp
  ultimately have r0: "run_ok ?r0" using newBloom_wf by (simp add: run_ok_def fence_of_def fenceEvery_def)
  have wl: "write_loop g ?r0 zero_hash s1 = (Inr r, s')"
    using w io by (cases e) (auto simp: writeRunLocked_def Let_def)
  have "\<forall>e h. g = FromRuns e h \<longrightarrow> e = None" using wl gen_None by (metis Inl_Inr_False fst_conv not_None_eq)
  then show ?thesis using write_loop_ok [OF r0 g _ _ wl] by simp
qed

lemma mset_runs: "distinct xs \<Longrightarrow> distinct ys \<Longrightarrow> set xs = set ys \<Longrightarrow> mset xs = mset ys"
  by (simp add: set_eq_iff_mset_eq_distinct)

lemma sum_runs: "\<forall>r \<in> set rs. run_ok r \<Longrightarrow> sum_list (map rn_n rs) = length (concat (map rn_keys rs))"
  by (induction rs) (auto simp: run_ok_def)

lemma mergeTail_keeps:
  assumes i: "hs_inv s" and n: "n \<le> length (hs_runs s)" and m: "mergeTailLocked n s = (e, s')"
  shows "hs_keeps s s' \<and> hs_err s' = hs_err s \<and> hs_mem s' = hs_mem s"
proof -
  let ?k = "length (hs_runs s) - n"
  let ?ins = "drop ?k (hs_runs s)" and ?old = "take ?k (hs_runs s)"
  let ?level = "fold (\<lambda>r l. if rn_level r \<ge> l then rn_level r + 1 else l) ?ins 0" and ?upper = "sum_list (map rn_n ?ins)"
  obtain e1 s1 where p: "preflightLocked ?upper s = (e1, s1)" by fastforce
  obtain g s2 where g: "newMergeIter ?ins s1 = (g, s2)" by fastforce
  obtain r3 s3 where w: "writeRunLocked ?level ?upper g s2 = (r3, s3)" by fastforce
  have same: "same_keys s s1" "same_keys s s2" "same_keys s s3"
    using preflight_same [OF p] newMergeIter_same [OF g] writeRun_same [OF w] same_keys_trans by blast+
  have K: "hs_keys s = hs_mem s @ concat (map rn_keys ?old) @ concat (map rn_keys ?ins)"
    unfolding hs_keys_def by (metis append_take_drop_id concat_append map_append)
  have ok: "\<forall>r \<in> set ?ins. run_ok r" "\<forall>r \<in> set ?old. run_ok r"
    using i by (auto simp: hs_inv_def dest: in_set_dropD in_set_takeD)
  have d: "distinct (hs_keys s)" "length (hs_keys s) < 2 ^ 59" "hs_MaxBloomBytes s < 2 ^ 58" using i by (auto simp: hs_inv_def)
  have dist: "distinct (concat (map rn_keys ?ins))" using d(1) unfolding K by simp
  have "?upper = length (concat (map rn_keys ?ins))" by (rule sum_runs [OF ok(1)])
  then have up: "?upper < 2 ^ 59" using d(2) unfolding K by simp
  note m = m [unfolded mergeTailLocked_def Let_def p prod.case]
  show ?thesis
  proof (cases e1)
    case (Some x)
    then have "s' = s1" using m by simp
    then show ?thesis using same_keeps [OF i same(1)] same(1) by (simp add: same_keys_def)
  next
    case None
    note m = m [unfolded None option.case g prod.case w]
    show ?thesis
    proof (cases r3)
      case (Inl x)
      then have "s' = s3" using m by simp
      then show ?thesis using same_keeps [OF i same(3)] same(3) by (simp add: same_keys_def)
    next
      case (Inr r)
      have s': "s' = s3\<lparr>hs_runs := ?old @ [r]\<rparr>" using m Inr by simp
      obtain e2 h where g': "gen_ok g" "g = FromRuns e2 h" "e2 = None \<longrightarrow> gen_set g = set (concat (map rn_keys ?ins))"
        using newMergeIter_ok [OF g ok(1)] by blast
      have "hs_MaxBloomBytes s2 < 2 ^ 58" using d(3) same(2) by (simp add: same_keys_def)
      from writeRun_ok [OF w [unfolded Inr] g'(1) up this] g'(2,3)
      have r: "run_ok r" "set (rn_keys r) = set (concat (map rn_keys ?ins))" by auto
      have ms: "mset (rn_keys r) = mset (concat (map rn_keys ?ins))" by (rule mset_runs [OF run_ok_distinct [OF r(1)] dist r(2)])
      have k': "hs_keys s' = hs_mem s @ concat (map rn_keys ?old) @ rn_keys r"
        using same(3) by (simp add: s' hs_keys_def same_keys_def)
      have ms': "mset (hs_keys s') = mset (hs_keys s)" unfolding k' K using ms by simp
      have "set (concat (map rn_keys (hs_runs s'))) = set (concat (map rn_keys (hs_runs s)))"
      proof -
        have "concat (map rn_keys (hs_runs s)) = concat (map rn_keys ?old) @ concat (map rn_keys ?ins)"
          by (metis append_take_drop_id concat_append map_append)
        then show ?thesis using r(2) by (simp add: s')
      qed
      then have "hs_inv s'"
        using i ms' ok(2) r(1) d same(3) mset_eq_imp_distinct_iff [OF ms'] mset_eq_length [OF ms']
        unfolding hs_inv_def by (simp add: s' same_keys_def)
      then show ?thesis using ms' same(3) by (simp add: hs_keeps_def s' same_keys_def)
    qed
  qed
qed

lemma merge_equal_keeps: "hs_inv s \<Longrightarrow> merge_equal s = (e, s') \<Longrightarrow> hs_keeps s s' \<and> hs_err s' = hs_err s \<and> hs_mem s' = hs_mem s"
proof (induction s arbitrary: e s' rule: merge_equal.induct)
  case (1 s)
  let ?n = "length (hs_runs s)"
  show ?case
  proof (cases "?n \<ge> 2 \<and> rn_level (hs_runs s ! (?n - 1)) = rn_level (hs_runs s ! (?n - 2))")
    case False
    then have "merge_equal s = (None, s)" by (subst merge_equal.simps) (auto simp: Let_def)
    then show ?thesis using 1(2,3) keeps_refl by simp
  next
    case True
    obtain e1 s1 where m: "mergeTailLocked 2 s = (e1, s1)" by fastforce
    have k: "hs_keeps s s1 \<and> hs_err s1 = hs_err s \<and> hs_mem s1 = hs_mem s"
      by (rule mergeTail_keeps [OF 1(2) _ m]) (use True in simp)
    show ?thesis
    proof (cases e1)
      case (Some x)
      then have "merge_equal s = (Some x, s1)" using True m by (subst merge_equal.simps) (simp add: Let_def)
      then show ?thesis using 1(3) k by simp
    next
      case None
      then have "merge_equal s = merge_equal s1" using True m by (subst merge_equal.simps) (simp add: Let_def)
      then show ?thesis
        using 1(1) [OF refl True m [symmetric] None keeps_inv] k 1(3) keeps_trans by metis
    qed
  qed
qed

lemma flush_keeps:
  assumes i: "hs_inv s" and f: "flushLocked s = (e, s')"
  shows "hs_keeps s s' \<and> hs_err s' = hs_err s \<and> (e = None \<longrightarrow> hs_mem s' = [])"
proof (cases "hs_mem s = []")
  case True
  then show ?thesis using f keeps_refl [OF i] by (simp add: flushLocked_def)
next
  case False
  obtain e1 s1 where d: "ensureDirLocked s = (e1, s1)" by fastforce
  obtain e2 s2 where p: "preflightLocked (length (hs_mem s1)) s1 = (e2, s2)" by fastforce
  obtain r3 s3 where w: "writeRunLocked 0 (length (hs_mem s2)) (FromMem (sort (hs_mem s2))) s2 = (r3, s3)" by fastforce
  have same: "same_keys s s1" "same_keys s s2" "same_keys s s3"
    using ensureDir_same [OF d] preflight_same [OF p] writeRun_same [OF w] same_keys_trans by blast+
  have keep: "hs_keeps s t \<and> hs_err t = hs_err s" if "same_keys s t" for t
    using same_keeps [OF i that] that by (simp add: same_keys_def)
  note f = f [unfolded flushLocked_def if_not_P [OF False] d prod.case]
  show ?thesis
  proof (cases e1)
    case (Some x)
    then show ?thesis using f keep [OF same(1)] by auto
  next
    case None
    note f = f [unfolded None option.case p prod.case]
    show ?thesis
    proof (cases e2)
      case (Some x)
      then show ?thesis using f keep [OF same(2)] by auto
    next
      case None
      note f = f [unfolded None option.case w prod.case]
      show ?thesis
      proof (cases r3)
        case (Inl x)
        then show ?thesis using f keep [OF same(3)] by auto
      next
        case (Inr r)
        let ?t = "s3\<lparr>hs_runs := hs_runs s3 @ [r],
          hs_hot := (case hs_hot s3 of None \<Rightarrow> Some (\<lambda>_. zero_hash) | Some h \<Rightarrow> Some h), hs_mem := []\<rparr>"
        have inv: "distinct (hs_keys s)" "length (hs_keys s) < 2 ^ 59" "hs_MaxBloomBytes s < 2 ^ 58" "\<forall>r \<in> set (hs_runs s). run_ok r"
          "\<forall>hot i. hs_hot s = Some hot \<longrightarrow> hot i = zero_hash \<or> hot i \<in> set (concat (map rn_keys (hs_runs s)))"
          using i by (auto simp: hs_inv_def)
        have e2: "hs_mem s2 = hs_mem s" "hs_MaxBloomBytes s2 < 2 ^ 58" "length (hs_mem s2) < 2 ^ 59"
          using same(2) inv(2,3) by (auto simp: same_keys_def hs_keys_def)
        from writeRun_ok [OF w [unfolded Inr] _ e2(3,2)] have r: "run_ok r" "set (rn_keys r) = set (hs_mem s)"
          using e2(1) by auto
        have ms: "mset (rn_keys r) = mset (hs_mem s)"
          by (rule mset_runs [OF run_ok_distinct [OF r(1)] _ r(2)]) (use inv(1) in \<open>simp add: hs_keys_def\<close>)
        have e3: "hs_runs s3 = hs_runs s" "hs_hot s3 = hs_hot s" "hs_err s3 = hs_err s" "hs_MaxBloomBytes s3 = hs_MaxBloomBytes s"
          using same(3) by (auto simp: same_keys_def)
        have ms': "mset (hs_keys ?t) = mset (hs_keys s)" using ms e3(1) by (simp add: hs_keys_def)
        have hot: "\<forall>hot i. hs_hot ?t = Some hot \<longrightarrow> hot i = zero_hash \<or> hot i \<in> set (concat (map rn_keys (hs_runs ?t)))"
          using inv(5) e3(1,2) by (auto split: option.splits)
        have "hs_inv ?t"
          unfolding hs_inv_def using inv r(1) e3 hot mset_eq_imp_distinct_iff [OF ms'] mset_eq_length [OF ms'] by simp
        moreover have "merge_equal ?t = (e, s')" using f Inr by simp
        ultimately have "hs_keeps ?t s' \<and> hs_err s' = hs_err ?t \<and> hs_mem s' = hs_mem ?t" by (rule merge_equal_keeps)
        then show ?thesis using ms' e3(3) by (simp add: hs_keeps_def)
      qed
    qed
  qed
qed

lemma run_has_same: "run_has k r s = (b, s') \<Longrightarrow> same_keys s s'"
  by (auto simp: run_has_def Let_def dest: io_fault_same split: if_splits prod.splits option.splits)

lemma lookup_runs_ok:
  "\<forall>r \<in> set rs. run_ok r \<Longrightarrow> lookup_runs k rs s = ((found, clean), s') \<Longrightarrow>
     (clean \<longrightarrow> same_keys s s' \<and> (found \<longleftrightarrow> k \<in> set (concat (map rn_keys rs)))) \<and>
     (\<not> clean \<longrightarrow> found \<and> (\<exists>e t. same_keys s t \<and> s' = setErr e t))"
proof (induction rs arbitrary: s)
  case (Cons r rs)
  obtain b s1 where h: "run_has k r s = (b, s1)" by fastforce
  note s1 = run_has_same [OF h]
  have r: "run_ok r" "\<forall>r \<in> set rs. run_ok r" using Cons(2) by auto
  show ?case
  proof (cases b)
    case (Inl e)
    then show ?thesis using Cons(3) h s1 by auto
  next
    case (Inr f)
    have f: "f \<longleftrightarrow> k \<in> set (rn_keys r)" by (rule run_has_correct [OF r(1) h [unfolded Inr]])
    show ?thesis
    proof (cases f)
      case True
      then show ?thesis using Cons(3) h Inr s1 f by auto
    next
      case False
      then have "lookup_runs k rs s1 = ((found, clean), s')" using Cons(3) h Inr by simp
      from Cons(1) [OF r(2) this] show ?thesis using False f same_keys_trans [OF s1] by auto
    qed
  qed
qed auto

lemma lookupRuns_ok:
  assumes i: "hs_inv s" and l: "lookupRunsLocked k s = ((found, clean), s')"
  shows "hs_keeps s s' \<and> hs_mem s' = hs_mem s \<and> hs_runs s' = hs_runs s \<and> hs_hot s' = hs_hot s \<and>
    (clean \<longrightarrow> hs_err s' = hs_err s \<and> (found \<longleftrightarrow> k \<in> set (concat (map rn_keys (hs_runs s))))) \<and>
    (\<not> clean \<longrightarrow> found \<and> hs_err s' \<noteq> None)"
proof -
  have "\<forall>r \<in> set (rev (hs_runs s)). run_ok r" using i by (simp add: hs_inv_def)
  note l = lookup_runs_ok [OF this l [unfolded lookupRunsLocked_def]]
  show ?thesis
  proof (cases clean)
    case True
    then show ?thesis using l same_keeps [OF i] by (auto simp: same_keys_def)
  next
    case False
    then obtain e t where t: "same_keys s t" "s' = setErr e t" "found" using l by blast
    then show ?thesis using False same_keeps [OF i t(1)] setErr_keeps [of s e t] setErr_simps(3) [of e t]
      by (simp add: same_keys_def) (simp add: setErr_def)
  qed
qed

lemma hot_abs:
  assumes "hs_inv s" "hs_hot s = Some hot" "hot i = k" "k \<noteq> zero_hash"
  shows "k \<in> hs_abs s"
proof -
  have "hot i = zero_hash \<or> hot i \<in> set (concat (map rn_keys (hs_runs s)))" using assms(1,2) unfolding hs_inv_def by blast
  then show ?thesis using assms(3,4) by (auto simp: hs_abs_def hs_keys_def)
qed

lemma inv_hot:
  assumes "hs_inv s" "hs_hot s = Some hot" "k \<in> set (concat (map rn_keys (hs_runs s)))"
  shows "hs_inv (s\<lparr>hs_hot := Some (hot(j := k))\<rparr>)"
proof -
  have "\<forall>i. hot i = zero_hash \<or> hot i \<in> set (concat (map rn_keys (hs_runs s)))" using assms(1,2) unfolding hs_inv_def by blast
  then show ?thesis using assms(1,3) by (simp add: hs_inv_def hs_keys_def)
qed

lemma retry_simps [simp]: "hs_inv (s\<lparr>hs_retryAt := n\<rparr>) = hs_inv s" "hs_abs (s\<lparr>hs_retryAt := n\<rparr>) = hs_abs s"
  by (simp_all add: hs_inv_def hs_abs_def hs_keys_def)

lemma Add_any:
  assumes i: "hs_inv s" and n: "Suc (length (hs_keys s)) < 2 ^ 59" and a: "Add k s = (b, s')"
  shows "hs_inv s' \<and> hs_abs s \<subseteq> hs_abs s' \<and> hs_abs s' \<subseteq> insert k (hs_abs s) \<and>
    (hs_err s' = None \<longrightarrow> hs_err s = None \<and> (k \<noteq> zero_hash \<longrightarrow> k \<in> hs_abs s' \<and> (b \<longleftrightarrow> k \<notin> hs_abs s)))"
proof -
  have abs: "hs_abs s = set (hs_mem s) \<union> set (concat (map rn_keys (hs_runs s)))" by (simp add: hs_abs_def hs_keys_def)
  let ?Q = "case hs_hot s of Some hot \<Rightarrow> hot (hotSlot k) = k | None \<Rightarrow> False"
  have hot: "k \<in> hs_abs s" if "?Q" "k \<noteq> zero_hash" using hot_abs [OF i _ _ that(2)] that(1) by (cases "hs_hot s") auto
  show ?thesis
  proof (cases "k \<in> set (hs_mem s) \<or> ?Q")
    case True
    then have "k \<noteq> zero_hash \<Longrightarrow> k \<in> hs_abs s" using hot abs by blast
    moreover have "Add k s = (False, s)" using True unfolding Add_def by (cases "k \<in> set (hs_mem s)") simp_all
    ultimately show ?thesis using i a by auto
  next
    case False
    obtain found clean s1 where l: "lookupRunsLocked k s = ((found, clean), s1)" by (metis prod.exhaust)
    note lo = lookupRuns_ok [OF i l]
    have nh: "\<not> ?Q" "k \<notin> set (hs_mem s)" using False by blast+
    note a = a [unfolded Add_def if_not_P [OF nh(2)] if_not_P [OF nh(1)] l prod.case]
    show ?thesis
    proof (cases found)
      case True
      let ?t = "case hs_hot s1 of Some hot \<Rightarrow> if clean \<and> k \<noteq> zero_hash then s1\<lparr>hs_hot := Some (hot(hotSlot k := k))\<rparr> else s1 | None \<Rightarrow> s1"
      have s': "s' = ?t" "b = False" using a True by simp_all
      have inv1: "hs_inv s1" "hs_abs s1 = hs_abs s" using lo keeps_inv keeps_abs by blast+
      have e: "hs_keys ?t = hs_keys s1" "hs_err ?t = hs_err s1" by (auto simp: hs_keys_def split: option.splits)
      have "hs_inv ?t"
      proof (cases "clean \<and> k \<noteq> zero_hash \<and> hs_hot s1 \<noteq> None")
        case True
        then have "k \<in> set (concat (map rn_keys (hs_runs s1)))" using lo \<open>found\<close> by auto
        then show ?thesis using inv_hot [OF inv1(1) _ \<open>k \<in> _\<close>] True by (cases "hs_hot s1") simp_all
      next
        case False
        then show ?thesis using inv1(1) by (auto split: option.splits)
      qed
      moreover have "k \<in> hs_abs s" if "hs_err s1 = None" using lo True that abs by (cases clean) auto
      moreover have "hs_abs ?t = hs_abs s" using e(1) inv1(2) by (simp add: hs_abs_def)
      moreover have "hs_err s1 = None \<longrightarrow> hs_err s = None" using lo by (cases clean) auto
      ultimately show ?thesis unfolding s' e(2) by auto
    next
      case nf: False
      let ?s2 = "s1\<lparr>hs_mem := k # hs_mem s1\<rparr>"
      have cl: "clean" "hs_err s1 = hs_err s" "k \<notin> hs_abs s" using lo nf nh(2) abs by auto
      have ks: "hs_keys ?s2 = k # hs_keys s1" "set (hs_keys s1) = hs_abs s" "mset (hs_keys s1) = mset (hs_keys s)"
        using lo keeps_abs [of s s1] by (auto simp: hs_keys_def hs_abs_def hs_keeps_def)
      have len: "length (hs_keys s1) = length (hs_keys s)" using mset_eq_length [OF ks(3)] .
      have inv2: "hs_inv ?s2"
        using lo keeps_inv [of s s1] n len ks(1,2) cl(3) unfolding hs_inv_def by (simp add: ks(1))
      have abs2: "hs_abs ?s2 = insert k (hs_abs s)" using ks by (simp add: hs_abs_def)
      have b: b using a nf by (simp add: Let_def)
      show ?thesis
      proof (cases "int (length (hs_mem ?s2)) \<ge> hs_MemEntries ?s2 \<and> length (hs_mem ?s2) \<ge> hs_retryAt ?s2")
        case False
        then have "s' = ?s2" using a nf by (simp add: Let_def split: if_splits)
        then show ?thesis using inv2 abs2 cl b by auto
      next
        case True
        obtain e s3 where fl: "flushLocked ?s2 = (e, s3)" by fastforce
        note f = flush_keeps [OF inv2 fl]
        have "s' = (case e of Some err \<Rightarrow> (setErr err s3)\<lparr>hs_retryAt := 2 * length (hs_mem s3)\<rparr> | None \<Rightarrow> s3\<lparr>hs_retryAt := 0\<rparr>)"
          using a nf True fl by (cases e) (auto simp: Let_def)
        moreover have "hs_inv s3" "hs_abs s3 = insert k (hs_abs s)" using f keeps_inv keeps_abs [of ?s2 s3] abs2 by auto
        moreover have "hs_abs (setErr x s3) = hs_abs s3" for x by (simp add: hs_abs_def)
        ultimately show ?thesis using f cl b by (cases e) (simp_all add: subset_insertI)
      qed
    qed
  qed
qed

lemma Add_ok:
  assumes "hs_inv s" "k \<noteq> zero_hash" "Suc (length (hs_keys s)) < 2 ^ 59" "Add k s = (b, s')"
  shows "hs_inv s' \<and> hs_abs s' \<subseteq> insert k (hs_abs s) \<and>
    (hs_err s' = None \<longrightarrow> hs_err s = None \<and> hs_abs s' = insert k (hs_abs s) \<and> (b \<longleftrightarrow> k \<notin> hs_abs s))"
  using Add_any [OF assms(1,3,4)] assms(2) by auto

lemma Has_ok:
  assumes i: "hs_inv s" and h: "hs_Has k s = (b, s')"
  shows "hs_keeps s s' \<and> (k \<in> hs_abs s \<longrightarrow> b) \<and> (hs_err s' = None \<longrightarrow> hs_err s = None \<and> (b \<longleftrightarrow> k \<in> hs_abs s))"
proof -
  have abs: "hs_abs s = set (hs_mem s) \<union> set (concat (map rn_keys (hs_runs s)))" by (simp add: hs_abs_def hs_keys_def)
  let ?Q = "case hs_hot s of Some hot \<Rightarrow> k \<noteq> zero_hash \<and> hot (hotSlot k) = k | None \<Rightarrow> False"
  have hot: "?Q \<Longrightarrow> k \<in> hs_abs s" using hot_abs [OF i] by (cases "hs_hot s") auto
  obtain found clean s1 where l: "lookupRunsLocked k s = ((found, clean), s1)" by (metis prod.exhaust)
  note lo = lookupRuns_ok [OF i l]
  show ?thesis
  proof (cases "k \<in> set (hs_mem s) \<or> ?Q")
    case True
    then have "k \<in> hs_abs s" using hot abs by blast
    moreover have "hs_Has k s = (True, s)" using True unfolding hs_Has_def by (cases "k \<in> set (hs_mem s)") simp_all
    ultimately show ?thesis using h keeps_refl [OF i] by simp
  next
    case False
    then have nh: "\<not> ?Q" "k \<notin> set (hs_mem s)" by blast+
    have "hs_Has k s = (found, s1)" unfolding hs_Has_def if_not_P [OF nh(2)] if_not_P [OF nh(1)] l by simp
    then have "b = found" "s' = s1" using h by auto
    then show ?thesis using lo abs nh(2) by (cases clean) auto
  qed
qed

lemma Len_ok:
  assumes i: "hs_inv s" and l: "hs_Len s = (n, s')"
  shows "hs_keeps s s' \<and> (hs_err s' = None \<longrightarrow> hs_err s = None \<and> n = card (hs_abs s))"
proof -
  have card: "card (hs_abs t) = length (hs_keys t)" if "hs_inv t" for t
    using that by (simp add: hs_abs_def hs_inv_def distinct_card)
  show ?thesis
  proof (cases "hs_runs s = []")
    case True
    then show ?thesis using l keeps_refl [OF i] card [OF i] by (auto simp: hs_Len_def hs_keys_def)
  next
    case False
    obtain e1 s1 where f: "flushLocked s = (e1, s1)" by fastforce
    note f1 = flush_keeps [OF i f]
    have i1: "hs_inv s1" using f1 keeps_inv by blast
    show ?thesis
    proof (cases e1)
      case (Some x)
      then show ?thesis using l False f f1 by (auto simp: hs_Len_def)
    next
      case None
      obtain e2 s2 where c: "compactAllLocked s1 = (e2, s2)" by fastforce
      have c2: "hs_keeps s1 s2 \<and> hs_err s2 = hs_err s1 \<and> hs_mem s2 = hs_mem s1"
        using c mergeTail_keeps [OF i1, of "length (hs_runs s1)" e2 s2] keeps_refl [OF i1] by (auto simp: compactAllLocked_def split: if_splits)
      have k2: "hs_keeps s s2" using f1 c2 keeps_trans by blast
      then have "sum_list (map rn_n (hs_runs s2)) = length (hs_keys s2)"
        using sum_runs [of "hs_runs s2"] f1 c2 None by (auto simp: hs_keeps_def hs_inv_def hs_keys_def)
      then have "sum_list (map rn_n (hs_runs s2)) = card (hs_abs s)" using card [OF keeps_inv [OF k2]] keeps_abs [OF k2] by simp
      then show ?thesis using l False f None c k2 f1 c2 by (cases e2) (auto simp: hs_Len_def Let_def)
    qed
  qed
qed

lemma merge_keys_ok:
  "gen_ok g \<Longrightarrow> (\<And>p. prev = Some p \<Longrightarrow> \<forall>x \<in> gen_set g. p \<le> x) \<Longrightarrow> merge_keys g prev s = ((ks, None), s') \<Longrightarrow>
     same_keys s s' \<and> sorted_wrt (<) ks \<and> set ks = gen_set g - set_option prev \<and> (\<forall>x \<in> set ks. \<forall>p. prev = Some p \<longrightarrow> p < x)"
proof (induction g prev s arbitrary: ks s' rule: merge_keys.induct)
  case (1 g prev s)
  obtain x g' s1 where n: "gen_next g s = (x, g', s1)" by (metis prod.exhaust)
  note s1 = gen_next_same [OF n]
  note m = 1(5) [unfolded merge_keys.simps [of g prev s] n prod.case]
  show ?case
  proof (cases "\<exists>k. x = Inr (Some k)")
    case False
    then have "x = Inr None" "ks = []" "s' = s1" using m by (auto split: sum.splits option.splits)
    then show ?thesis using gen_next_None [of g s g' s1] n s1 by simp
  next
    case True
    then obtain k where x: "x = Inr (Some k)" by blast
    note g' = gen_next_ok [OF 1(3) n [unfolded x]]
    note m = m [unfolded x sum.case option.case]
    show ?thesis
    proof (cases "prev = Some k")
      case True
      then have w: "merge_keys g' prev s1 = ((ks, None), s')" using m by simp
      have "\<forall>x \<in> gen_set g'. p \<le> x" if "prev = Some p" for p using 1(4) [OF that] g' by auto
      then show ?thesis
        using 1(1) [OF n [symmetric] x refl refl True _ _ w] g' True same_keys_trans [OF s1] by auto
    next
      case False
      obtain ks' e s2 where w: "merge_keys g' (Some k) s1 = ((ks', e), s2)" by (metis prod.exhaust)
      have r: "ks = k # ks'" "e = None" "s' = s2" using m False w by auto
      have "\<forall>x \<in> gen_set g'. p \<le> x" if "Some k = Some p" for p using that g' by auto
      then have ih: "same_keys s1 s2 \<and> sorted_wrt (<) ks' \<and> set ks' = gen_set g' - {k} \<and> (\<forall>x \<in> set ks'. k < x)"
        using 1(2) [OF n [symmetric] x refl refl False _ _ w [unfolded r(2)]] g' by auto
      have "p < k" if "prev = Some p" for p using 1(4) [OF that] g' False that by auto
      then have "\<forall>x \<in> set ks. \<forall>p. prev = Some p \<longrightarrow> p < x" using ih r(1) by auto (metis DiffI empty_iff insert_iff less_trans)
      moreover have "set ks = gen_set g" using ih r(1) g' by auto
      moreover have "set ks = gen_set g - set_option prev" using calculation by (cases prev) auto
      moreover have "same_keys s s'" "sorted_wrt (<) ks" using ih r same_keys_trans [OF s1] by auto
      ultimately show ?thesis by blast
    qed
  qed
qed

lemma merge_keys_same: "merge_keys g prev s = (r, s') \<Longrightarrow> same_keys s s'"
proof (induction g prev s arbitrary: r s' rule: merge_keys.induct)
  case (1 g prev s)
  obtain x g' s1 where n: "gen_next g s = (x, g', s1)" by (metis prod.exhaust)
  note s1 = gen_next_same [OF n]
  note m = 1(3) [unfolded merge_keys.simps [of g prev s] n prod.case]
  show ?case
  proof (cases "\<exists>k. x = Inr (Some k)")
    case False
    then show ?thesis using m s1 by (auto split: sum.splits option.splits)
  next
    case True
    then obtain k where x: "x = Inr (Some k)" by blast
    obtain q s2 where w: "merge_keys g' (Some k) s1 = (q, s2)" by fastforce
    show ?thesis
    proof (cases "prev = Some k")
      case True
      then show ?thesis using 1(1) [OF n [symmetric] x refl refl True] m x same_keys_trans [OF s1] by simp
    next
      case False
      then have "s' = s2" using m x w by (auto split: prod.splits)
      then show ?thesis using 1(2) [OF n [symmetric] x refl refl False w] same_keys_trans [OF s1] by simp
    qed
  qed
qed

lemma ForEach_ok:
  assumes i: "hs_inv s" and f: "hs_ForEach s = ((ks, e), s')"
  shows "hs_keeps s s' \<and> hs_err s' = hs_err s \<and> (e = None \<longrightarrow> sorted_wrt (<) ks \<and> set ks = hs_abs s)"
proof -
  obtain e1 s1 where f1: "(if hs_runs s \<noteq> [] then flushLocked s else (None, s)) = (e1, s1)" by fastforce
  have k1: "hs_keeps s s1 \<and> hs_err s1 = hs_err s \<and> (e1 = None \<longrightarrow> hs_mem s1 = [] \<or> hs_runs s1 = [])"
    using flush_keeps [OF i, of e1 s1] f1 keeps_refl [OF i] by (auto split: if_splits)
  have i1: "hs_inv s1" "hs_abs s1 = hs_abs s" using k1 keeps_inv keeps_abs by blast+
  note f = f [unfolded hs_ForEach_def f1 prod.case]
  show ?thesis
  proof (cases "e1 \<noteq> None \<or> hs_runs s1 = []")
    case True
    have "distinct (hs_mem s1)" using i1(1) by (simp add: hs_inv_def hs_keys_def)
    then have "sorted_wrt (<) (sort (hs_mem s1))" by (simp add: strict_sorted_iff)
    then show ?thesis using f True k1 i1(2) by (cases e1) (auto simp: hs_abs_def hs_keys_def)
  next
    case False
    obtain g s2 where g: "newMergeIter (hs_runs s1) s1 = (g, s2)" by fastforce
    have m: "merge_keys g None s2 = ((ks, e), s')" using f False g by auto
    have same: "same_keys s1 s'" using newMergeIter_same [OF g] merge_keys_same [OF m] same_keys_trans by blast
    have keep: "hs_keeps s s'" "hs_err s' = hs_err s"
      using k1 keeps_trans same_keeps [OF i1(1) same] same by (auto simp: same_keys_def)
    obtain e2 h where g': "gen_ok g" "g = FromRuns e2 h" "e2 = None \<longrightarrow> gen_set g = set (concat (map rn_keys (hs_runs s1)))"
      using newMergeIter_ok [OF g] i1(1) by (auto simp: hs_inv_def)
    have "sorted_wrt (<) ks \<and> set ks = hs_abs s" if e: "e = None"
    proof -
      have "e2 = None" using m [unfolded e g'(2)] by (cases e2) (subst (asm) merge_keys.simps, simp)+
      then have "gen_set g = hs_abs s" using g'(3) i1(2) k1 False by (auto simp: hs_abs_def hs_keys_def)
      then show ?thesis using merge_keys_ok [OF g'(1) _ m [unfolded e]] by simp
    qed
    then show ?thesis using keep by blast
  qed
qed

subsection \<open>Histories\<close>

text \<open>The states a set goes through, with the keys added so far.\<close>

inductive hs_history :: "HashSet \<Rightarrow> Hash set \<Rightarrow> bool" where
  new: "maxBloom < 2 ^ 58 \<Longrightarrow> hs_history (NewHashSet memEntries maxBloom faults free) {}"
| add: "hs_history s A \<Longrightarrow> k \<noteq> zero_hash \<Longrightarrow> Suc (card A) < 2 ^ 59 \<Longrightarrow> Add k s = (b, s') \<Longrightarrow> hs_history s' (insert k A)"
| has: "hs_history s A \<Longrightarrow> hs_Has k s = (b, s') \<Longrightarrow> hs_history s' A"
| len: "hs_history s A \<Longrightarrow> hs_Len s = (n, s') \<Longrightarrow> hs_history s' A"
| each: "hs_history s A \<Longrightarrow> hs_ForEach s = (r, s') \<Longrightarrow> hs_history s' A"

inductive_cases hs_historyE: "hs_history s A"

lemma NewHashSet_inv: "maxBloom < 2 ^ 58 \<Longrightarrow> hs_inv (NewHashSet m maxBloom fs free) \<and> hs_abs (NewHashSet m maxBloom fs free) = {}"
  by (simp add: NewHashSet_def hs_inv_def hs_abs_def hs_keys_def)

lemma card_keys: "hs_inv s \<Longrightarrow> card (hs_abs s) = length (hs_keys s)"
  by (simp add: hs_inv_def hs_abs_def distinct_card)

lemma history_inv:
  "hs_history s A \<Longrightarrow> hs_inv s \<and> hs_abs s \<subseteq> A \<and> finite A \<and> (hs_err s = None \<longrightarrow> hs_abs s = A)"
proof (induction rule: hs_history.induct)
  case (new maxBloom memEntries faults free)
  then show ?case using NewHashSet_inv by simp
next
  case (add s A k b s')
  then have i: "hs_inv s" "hs_abs s \<subseteq> A" "finite A" by auto
  have "length (hs_keys s) \<le> card A" using card_mono [OF i(3,2)] card_keys [OF i(1)] by simp
  then show ?case using Add_ok [OF i(1) add(2) _ add(4)] add(3,5) by auto
next
  case (has s A k b s')
  then show ?case using Has_ok [of s k b s'] keeps_inv keeps_abs by metis
next
  case (len s A n s')
  then show ?case using Len_ok [of s n s'] keeps_inv keeps_abs by metis
next
  case (each s A r s')
  then show ?case using ForEach_ok [of s "fst r" "snd r" s'] keeps_inv keeps_abs by (metis prod.collapse)
qed

text \<open>
  C14. The spilled hash set is a set. After any history of insertions and queries, under any script of
  I/O faults and with any memory bound, as long as no error is reported its answers are those of the set
  of inserted keys: \<^verbatim>\<open>Add\<close> reports whether the key was new, \<^verbatim>\<open>Has\<close> answers membership, \<^verbatim>\<open>Len\<close> is the
  number of keys and \<^verbatim>\<open>ForEach\<close> delivers them in increasing order; an answer given while a read fails
  errs only towards membership, and the error is reported by \<^verbatim>\<open>Err\<close> ever after. The all-zero key is
  excluded.
\<close>

theorem spilled_set_is_a_set:
  assumes "hs_history s A" "hs_err s = None" "k \<noteq> zero_hash" "Suc (card A) < 2 ^ 59"
  shows "(hs_err (snd (Add k s)) = None \<longrightarrow> (fst (Add k s) \<longleftrightarrow> k \<notin> A)) \<and> (k \<in> A \<longrightarrow> fst (hs_Has k s)) \<and>
    (hs_err (snd (hs_Has k s)) = None \<longrightarrow> (fst (hs_Has k s) \<longleftrightarrow> k \<in> A)) \<and>
    (hs_err (snd (hs_Len s)) = None \<longrightarrow> fst (hs_Len s) = card A) \<and>
    (snd (fst (hs_ForEach s)) = None \<longrightarrow> fst (fst (hs_ForEach s)) = sorted_list_of_set A)"
proof -
  have i: "hs_inv s" "hs_abs s = A" "finite A" using history_inv [OF assms(1)] assms(2) by auto
  have n: "Suc (length (hs_keys s)) < 2 ^ 59" using card_keys [OF i(1)] i(2) assms(4) by simp
  have "set ks = A \<Longrightarrow> sorted_wrt (<) ks \<Longrightarrow> ks = sorted_list_of_set A" for ks :: "Hash list"
    using sorted_list_of_set.idem_if_sorted_distinct [of ks] by (simp add: strict_sorted_iff)
  then show ?thesis
    using Add_ok [OF i(1) assms(3) n prod.collapse [symmetric]] Has_ok [OF i(1) prod.collapse [symmetric], of k]
      Len_ok [OF i(1) prod.collapse [symmetric]] ForEach_ok [OF i(1), of "fst (fst (hs_ForEach s))" "snd (fst (hs_ForEach s))" "snd (hs_ForEach s)"]
    by (auto simp: i(2))
qed

definition ex_key :: "8 word \<Rightarrow> Hash" where
  "ex_key b = hash_of_bytes [0, b]"

text \<open>A key at a memory bound of one: it is flushed to a run at once.\<close>

definition ex_set :: HashSet where
  "ex_set = snd (Add (ex_key 1) (NewHashSet 1 64 [] []))"

lemma ex_set_eval:
  "let s = ex_set; h = hs_Has (ex_key 3) s; z = hs_Has zero_hash s
   in hs_err s = None \<and> hs_err (snd h) = None \<and> length (hs_runs s) = 1 \<and> hs_mem s = [] \<and> hs_err (snd z) = None"
  by code_simp

theorem spilled_set_is_a_set_witness:
  "length (hs_runs ex_set) = 1 \<and> hs_mem ex_set = [] \<and> fst (hs_Has (ex_key 1) ex_set) \<and> \<not> fst (hs_Has (ex_key 3) ex_set)"
proof -
  have ne: "ex_key 1 \<noteq> zero_hash" "ex_key 3 \<noteq> zero_hash" "ex_key 3 \<noteq> ex_key 1" by code_simp+
  have h: "hs_history ex_set {ex_key 1}"
    unfolding ex_set_def by (rule hs_history.add [OF hs_history.new ne(1) _ prod.collapse [symmetric]]) simp_all
  have e: "hs_err ex_set = None" "hs_err (snd (hs_Has (ex_key 3) ex_set)) = None" "length (hs_runs ex_set) = 1" "hs_mem ex_set = []"
    using ex_set_eval by (simp_all add: Let_def)
  have "fst (hs_Has (ex_key 1) ex_set)" using spilled_set_is_a_set [OF h e(1) ne(1)] by simp
  moreover have "\<not> fst (hs_Has (ex_key 3) ex_set)" using spilled_set_is_a_set [OF h e(1) ne(2)] e(2) ne(3) by simp
  ultimately show ?thesis using e by blast
qed

subsection \<open>The table of recent keys\<close>

text \<open>Every key of the table is in its own slot, and a set with a run has a table.\<close>

definition slotted :: "HashSet \<Rightarrow> bool" where
  "slotted s \<longleftrightarrow> (\<forall>hot i. hs_hot s = Some hot \<longrightarrow> hot i = zero_hash \<or> hotSlot (hot i) = i) \<and>
     (hs_runs s \<noteq> [] \<longrightarrow> hs_hot s \<noteq> None)"

lemma slotted_same: "same_keys s s' \<Longrightarrow> slotted s' = slotted s"
  by (simp add: same_keys_def slotted_def)

lemma slotted_upd [simp]: "slotted (setErr e s) = slotted s" "slotted (s\<lparr>hs_retryAt := n\<rparr>) = slotted s"
    "slotted (s\<lparr>hs_mem := m\<rparr>) = slotted s"
  by (auto simp: slotted_def setErr_def)

lemma mergeTail_slotted:
  assumes "mergeTailLocked n s = (e, s')" "slotted s" "hs_runs s \<noteq> []"
  shows "slotted s'"
proof -
  obtain e1 s1 where p: "preflightLocked (sum_list (map rn_n (drop (length (hs_runs s) - n) (hs_runs s)))) s = (e1, s1)" by fastforce
  obtain g s2 where m: "newMergeIter (drop (length (hs_runs s) - n) (hs_runs s)) s1 = (g, s2)" by fastforce
  obtain r s3 where w: "writeRunLocked (fold (\<lambda>r l. if rn_level r \<ge> l then rn_level r + 1 else l)
      (drop (length (hs_runs s) - n) (hs_runs s)) 0) (sum_list (map rn_n (drop (length (hs_runs s) - n) (hs_runs s)))) g s2 = (r, s3)" by fastforce
  have sk: "same_keys s s1" "same_keys s s3"
    using preflight_same [OF p] newMergeIter_same [OF m] writeRun_same [OF w] same_keys_trans by blast+
  then have "hs_hot s3 = hs_hot s" by (simp add: same_keys_def)
  then have "slotted (s3\<lparr>hs_runs := rs\<rparr>)" for rs using assms(2,3) by (simp add: slotted_def)
  then show ?thesis using assms(1) slotted_same [OF sk(1)] slotted_same [OF sk(2)] assms(2)
    by (auto simp: mergeTailLocked_def Let_def p m w split: option.splits sum.splits)
qed

lemma merge_equal_slotted: "merge_equal s = (e, s') \<Longrightarrow> slotted s \<Longrightarrow> slotted s'"
proof (induction s arbitrary: e s' rule: merge_equal.induct)
  case (1 s)
  show ?case
  proof (cases "length (hs_runs s) \<ge> 2 \<and>
      rn_level (hs_runs s ! (length (hs_runs s) - 1)) = rn_level (hs_runs s ! (length (hs_runs s) - 2))")
    case True
    obtain e1 s1 where m: "mergeTailLocked 2 s = (e1, s1)" by fastforce
    have "hs_runs s \<noteq> []" using True by (cases "hs_runs s") auto
    then have sl: "slotted s1" by (rule mergeTail_slotted [OF m 1(3)])
    show ?thesis
    proof (cases e1)
      case None
      have "merge_equal s1 = (e, s')" using 1(2) True by (subst (asm) merge_equal.simps) (simp add: m None Let_def)
      from 1(1) [OF refl True m [symmetric] None this sl] show ?thesis .
    next
      case (Some a)
      then show ?thesis using 1(2) True sl by (subst (asm) merge_equal.simps) (simp add: m Let_def)
    qed
  next
    case False
    then have "merge_equal s = (None, s)" by (subst merge_equal.simps) (simp only: Let_def if_False)
    then show ?thesis using 1(2,3) by simp
  qed
qed

lemma flush_slotted:
  assumes "flushLocked s = (e, s')" "slotted s"
  shows "slotted s'"
proof (cases "hs_mem s = []")
  case False
  obtain e1 s1 where a: "ensureDirLocked s = (e1, s1)" by fastforce
  obtain e2 s2 where b: "preflightLocked (length (hs_mem s1)) s1 = (e2, s2)" by fastforce
  obtain r s3 where c: "writeRunLocked 0 (length (hs_mem s2)) (FromMem (sort (hs_mem s2))) s2 = (r, s3)" by fastforce
  have sk: "same_keys s s1" "same_keys s s2" "same_keys s s3"
    using ensureDir_same [OF a] preflight_same [OF b] writeRun_same [OF c] same_keys_trans by blast+
  have sl: "slotted s1" "slotted s2" "slotted s3" using sk assms(2) slotted_same by blast+
  have "slotted (s3\<lparr>hs_runs := rs, hs_hot := (case hs_hot s3 of None \<Rightarrow> Some (\<lambda>_. zero_hash) | Some h \<Rightarrow> Some h), hs_mem := []\<rparr>)" for rs
    using sl(3) by (auto simp: slotted_def split: option.splits)
  then show ?thesis using assms(1) False sl
    by (auto simp: flushLocked_def a b c split: option.splits sum.splits intro: merge_equal_slotted)
qed (use assms in \<open>simp add: flushLocked_def\<close>)

lemma lookup_slotted:
  assumes "hs_inv s" "lookupRunsLocked k s = (r, s')" "slotted s"
  shows "slotted s'"
  using lookupRuns_ok [OF assms(1), of k "fst r" "snd r" s'] assms(2,3) by (simp add: slotted_def)

lemma Add_slotted:
  assumes "hs_inv s" "Add k s = (b, s')" "slotted s"
  shows "slotted s'"
proof -
  obtain found clean s1 where l: "lookupRunsLocked k s = ((found, clean), s1)" by (metis prod.exhaust)
  have s1: "slotted s1" using lookup_slotted [OF assms(1) l assms(3)] .
  have hot: "slotted (s1\<lparr>hs_hot := Some (hot(hotSlot k := k))\<rparr>)" if "hs_hot s1 = Some hot" for hot
    using s1 that by (auto simp: slotted_def)
  have flush: "flushLocked (s1\<lparr>hs_mem := m\<rparr>) = (e, t) \<Longrightarrow> slotted t" for m e t using flush_slotted s1 by simp
  show ?thesis using assms(2,3) s1 hot
    by (auto simp: Add_def l Let_def dest!: flush split: if_splits option.splits bool.splits prod.splits)
qed

lemma history_slotted: "hs_history s A \<Longrightarrow> slotted s"
proof (induction rule: hs_history.induct)
  case (new maxBloom memEntries faults free)
  then show ?case by (simp add: NewHashSet_def slotted_def)
next
  case (add s A k b s')
  then show ?case using Add_slotted history_inv by blast
next
  case (has s A k b s')
  then show ?case using lookup_slotted [of s k] history_inv [OF has(1)]
    by (auto simp: hs_Has_def split: if_splits option.splits prod.splits)
next
  case (len s A n s')
  have c: "compactAllLocked s1 = (e, s2) \<Longrightarrow> slotted s1 \<Longrightarrow> slotted s2" for s1 e s2
    using mergeTail_slotted [of _ s1 e s2] by (cases "hs_runs s1") (auto simp: compactAllLocked_def split: if_splits)
  show ?case using len flush_slotted [of s]
    by (auto simp: hs_Len_def Let_def dest!: c split: if_splits option.splits prod.splits)
next
  case (each s A r s')
  have m: "newMergeIter rs s1 = (g, s2) \<Longrightarrow> merge_keys g p s2 = (r, s3) \<Longrightarrow> slotted s1 \<Longrightarrow> slotted s3" for rs s1 g s2 p r s3
    using slotted_same [OF newMergeIter_same, of rs s1 g s2] slotted_same [OF merge_keys_same, of g p s2 r s3] by blast
  show ?case using each flush_slotted [of s]
    by (auto simp: hs_ForEach_def split: if_splits option.splits prod.splits intro: m)
qed

text \<open>
  C15. The all-zero key is lost. Take any history of a set that has spilled to a run, none of whose keys
  begins with two zero bytes, with no error reported. \<^verbatim>\<open>Add\<close> of the all-zero key compares it with its slot
  in the zero-filled table of recent keys, without the test for the zero key that \<^verbatim>\<open>Has\<close> makes: it answers
  that the key was present and changes nothing, no error is reported, and the set does not have the key: neither
  \<^verbatim>\<open>Has\<close> nor \<^verbatim>\<open>ForEach\<close> ever shows it.
\<close>

theorem spilled_set_loses_zero_key:
  assumes "hs_history s A" "hs_runs s \<noteq> []" "hs_err s = None" "\<forall>k \<in> A. hotSlot k \<noteq> hotSlot zero_hash"
  shows "Add zero_hash s = (False, s) \<and> (hs_err (snd (hs_Has zero_hash s)) = None \<longrightarrow> \<not> fst (hs_Has zero_hash s)) \<and>
    (snd (fst (hs_ForEach s)) = None \<longrightarrow> zero_hash \<notin> set (fst (fst (hs_ForEach s))))"
proof -
  have i: "hs_inv s" "hs_abs s = A" using history_inv [OF assms(1)] assms(3) by auto
  have z: "zero_hash \<notin> A" using assms(4) by blast
  obtain hot where hot: "hs_hot s = Some hot" "\<forall>i. hot i = zero_hash \<or> hotSlot (hot i) = i"
    using history_slotted [OF assms(1)] assms(2) unfolding slotted_def by auto
  have "hot (hotSlot zero_hash) = zero_hash"
    using hot(2) hot_abs [OF i(1) hot(1) refl] assms(4) i(2) by blast
  then have "Add zero_hash s = (False, s)" by (simp add: Add_def hot(1))
  then show ?thesis
    using Has_ok [OF i(1) prod.collapse [symmetric], of zero_hash] z i(2)
      ForEach_ok [OF i(1), of "fst (fst (hs_ForEach s))" "snd (fst (hs_ForEach s))" "snd (hs_ForEach s)"]
    by auto
qed

theorem spilled_set_loses_zero_key_witness:
  "\<not> fst (Add zero_hash ex_set) \<and> \<not> fst (hs_Has zero_hash (snd (Add zero_hash ex_set))) \<and>
   hs_err (snd (Add zero_hash ex_set)) = None"
proof -
  have h: "hs_history ex_set {ex_key 1}"
    unfolding ex_set_def by (rule hs_history.add [OF hs_history.new _ _ prod.collapse [symmetric]]) (simp_all, code_simp)
  have "hotSlot (ex_key 1) \<noteq> hotSlot zero_hash" by code_simp
  moreover have "hs_err ex_set = None" "length (hs_runs ex_set) = 1" "hs_err (snd (hs_Has zero_hash ex_set)) = None"
    using ex_set_eval by (simp_all add: Let_def)
  moreover from this have "hs_runs ex_set \<noteq> []" by auto
  ultimately show ?thesis using spilled_set_loses_zero_key [OF h] by simp
qed

end
