(* ===== verification/Sorter.thy ===== *)
theory Sorter
  imports Prelude
begin

text \<open>
  The external merge sort of \<^verbatim>\<open>internal/spill/recsort.go\<close>: records of a key and a value are collected in
  an arena, spilled to sorted run files as length-prefixed records, compacted in groups of 64 and
  merged. A run file is the list of its bytes; every file operation first consults the sorter's script
  of faults. \<^verbatim>\<open>sort.Slice\<close> and \<^verbatim>\<open>container/heap\<close> promise no order among equal keys, and the theorems claim none.
\<close>

subsection \<open>Varints\<close>

text \<open>\<^verbatim>\<open>binary.PutUvarint\<close> and \<^verbatim>\<open>binary.ReadUvarint\<close>; the value is below \<open>2 ^ 64\<close>.\<close>

fun PutUvarint :: "nat \<Rightarrow> bytes" where
  "PutUvarint x = (if x \<ge> 128 then word_of_nat (x mod 128 + 128) # PutUvarint (x div 128) else [word_of_nat x])"

declare PutUvarint.simps [simp del]

fun uvarint_loop :: "nat \<Rightarrow> nat \<Rightarrow> bytes \<Rightarrow> (error + nat) \<times> bytes" where
  "uvarint_loop i x [] = (Inl (Sentinel (if i > 0 then IoErrUnexpectedEOF else IoEOF)), [])"
| "uvarint_loop i x (b # bs) =
     (if i \<ge> 10 then (Inl (ErrorNew ''binary: varint overflows a 64-bit integer''), b # bs)
      else if unat b < 128 then
        (if i = 9 \<and> unat b > 1 then (Inl (ErrorNew ''binary: varint overflows a 64-bit integer''), bs)
         else (Inr (x + unat b * 2 ^ (7 * i)), bs))
      else uvarint_loop (Suc i) (x + (unat b - 128) * 2 ^ (7 * i)) bs)"

definition ReadUvarint :: "bytes \<Rightarrow> (error + nat) \<times> bytes" where
  "ReadUvarint bs = uvarint_loop 0 0 bs"

lemma unat_small_byte: "n < 256 \<Longrightarrow> unat (word_of_nat n :: 8 word) = n"
  using of_nat_inverse [of n "word_of_nat n :: 8 word"] by simp

lemma uvarint_loop_Put:
  "x * 2 ^ (7 * i) < 2 ^ 63 \<Longrightarrow> i < 9 \<Longrightarrow>
     uvarint_loop i acc (PutUvarint x @ rest) = (Inr (acc + x * 2 ^ (7 * i)), rest)"
proof (induction x arbitrary: i acc rule: PutUvarint.induct)
  case (1 x)
  show ?case
  proof (cases "x \<ge> 128")
    case False
    then show ?thesis using 1(3) unat_small_byte [of x] by (subst PutUvarint.simps) simp
  next
    case True
    have u: "unat (word_of_nat (x mod 128 + 128) :: 8 word) = x mod 128 + 128"
      using mod_less_divisor [of 128 x] by (intro unat_small_byte) linarith
    have p: "(2 :: nat) ^ (7 * Suc i) = 128 * 2 ^ (7 * i)" "(128 :: nat) = 2 ^ 7" by (simp_all add: power_add)
    have e: "x * 2 ^ (7 * i) = (x div 128) * 2 ^ (7 * Suc i) + (x mod 128) * 2 ^ (7 * i)"
      unfolding p(1) by (metis add_mult_distrib div_mult_mod_eq mult.assoc)
    have "2 ^ (7 * Suc i) \<le> x * 2 ^ (7 * i)" unfolding p(1) using True by simp
    then have "(2 :: nat) ^ (7 * Suc i) < 2 ^ 63" using 1(2) by (rule le_less_trans)
    then have "7 * Suc i < 63" by (rule power_less_imp_less_exp [rotated]) simp
    then have i: "Suc i < 9" by simp
    have "x div 128 * 2 ^ (7 * Suc i) < 2 ^ 63" using e 1(2) by linarith
    from 1(1) [OF True this i, of "acc + x mod 128 * 2 ^ (7 * i)"]
    have "uvarint_loop (Suc i) (acc + x mod 128 * 2 ^ (7 * i)) (PutUvarint (x div 128) @ rest) =
        (Inr (acc + x * 2 ^ (7 * i)), rest)" using e by (simp only: add.assoc add.commute [of "x mod 128 * 2 ^ (7 * i)"])
    moreover have "PutUvarint x = word_of_nat (x mod 128 + 128) # PutUvarint (x div 128)" using True by (subst PutUvarint.simps) simp
    ultimately show ?thesis using i u by (simp del: of_nat_add)
  qed
qed

lemma ReadUvarint_Put: "x < 2 ^ 63 \<Longrightarrow> ReadUvarint (PutUvarint x @ rest) = (Inr x, rest)"
  unfolding ReadUvarint_def using uvarint_loop_Put [of x 0 0 rest] by simp

lemma uvarint_loop_consumes: "uvarint_loop i x bs = (Inr n, rest) \<Longrightarrow> length rest < length bs"
  by (induction i x bs rule: uvarint_loop.induct) (auto split: if_splits)

lemma PutUvarint_ne [simp]: "PutUvarint x \<noteq> []"
  by (subst PutUvarint.simps) simp

subsection \<open>The sorter\<close>

record recRef =
  rf_off :: nat
  rf_klen :: nat
  rf_vlen :: nat

record Sorter =
  so_memBytes :: nat
  so_ownDir :: bool
  so_arena :: bytes
  so_idx :: "recRef list"
  so_runs :: "bytes list"
  so_seq :: nat
  so_n :: nat
  so_err :: "error option"
  so_done :: bool
  so_faults :: "errno option list"

definition defaultSorterMem :: nat where "defaultSorterMem = 16777216"
definition sorterFanIn :: nat where "sorterFanIn = 64"
definition maxRecordBytes :: nat where "maxRecordBytes = 1073741824"

definition NewSorter :: "int \<Rightarrow> errno option list \<Rightarrow> Sorter" where
  "NewSorter memBytes faults =
     \<lparr>so_memBytes = (if memBytes \<le> 0 then defaultSorterMem else nat memBytes), so_ownDir = False, so_arena = [],
      so_idx = [], so_runs = [], so_seq = 0, so_n = 0, so_err = None, so_done = False, so_faults = faults\<rparr>"

definition so_fault :: "Sorter \<Rightarrow> error option \<times> Sorter" where
  "so_fault s = (case so_faults s of [] \<Rightarrow> (None, s) | f # fs \<Rightarrow> (map_option SysErr f, s\<lparr>so_faults := fs\<rparr>))"

definition rec_at :: "bytes \<Rightarrow> recRef \<Rightarrow> bytes \<times> bytes" where
  "rec_at a r = (take (rf_klen r) (drop (rf_off r) a), take (rf_vlen r) (drop (rf_off r + rf_klen r) a))"

text \<open>\<^verbatim>\<open>bytes.Compare(a, b) < 0\<close>.\<close>

definition bytes_less :: "bytes \<Rightarrow> bytes \<Rightarrow> bool" where
  "bytes_less a b \<longleftrightarrow> map unat a < map unat b"

definition sortBuf :: "Sorter \<Rightarrow> Sorter" where
  "sortBuf s =
     s\<lparr>so_idx := SliceStable (\<lambda>a b. bytes_less (fst (rec_at (so_arena s) a)) (fst (rec_at (so_arena s) b))) (so_idx s)\<rparr>"

definition enc_rec :: "bytes \<times> bytes \<Rightarrow> bytes" where
  "enc_rec kv = PutUvarint (length (fst kv)) @ PutUvarint (length (snd kv)) @ fst kv @ snd kv"

text \<open>\<^verbatim>\<open>writeRec\<close>: three writes to the buffered file.\<close>

definition writeRec :: "bytes \<times> bytes \<Rightarrow> bytes \<Rightarrow> Sorter \<Rightarrow> (error + bytes) \<times> Sorter" where
  "writeRec kv file s =
     (case so_fault s of
        (Some err, s1) \<Rightarrow> (Inl err, s1)
      | (None, s1) \<Rightarrow>
          (case so_fault s1 of
             (Some err, s2) \<Rightarrow> (Inl err, s2)
           | (None, s2) \<Rightarrow>
               (case so_fault s2 of
                  (Some err, s3) \<Rightarrow> (Inl err, s3)
                | (None, s3) \<Rightarrow> (Inr (file @ enc_rec kv), s3))))"

definition ensureDir :: "Sorter \<Rightarrow> error option \<times> Sorter" where
  "ensureDir s =
     (if so_ownDir s then (None, s)
      else case so_fault s of
        (Some err, s1) \<Rightarrow> (Some err, s1)
      | (None, s1) \<Rightarrow> (None, s1\<lparr>so_ownDir := True\<rparr>))"

definition newRunFile :: "Sorter \<Rightarrow> error option \<times> Sorter" where
  "newRunFile s =
     (case ensureDir s of
        (Some err, s1) \<Rightarrow> (Some err, s1)
      | (None, s1) \<Rightarrow> so_fault (s1\<lparr>so_seq := Suc (so_seq s1)\<rparr>))"

fun write_recs :: "(bytes \<times> bytes) list \<Rightarrow> bytes \<Rightarrow> Sorter \<Rightarrow> (error + bytes) \<times> Sorter" where
  "write_recs [] file s = (Inr file, s)"
| "write_recs (kv # kvs) file s =
     (case writeRec kv file s of
        (Inl err, s1) \<Rightarrow> (Inl err, s1)
      | (Inr file', s1) \<Rightarrow> write_recs kvs file' s1)"

text \<open>The end of a run: flush when all went well, close always, the first error wins.\<close>

definition finish_run :: "error + bytes \<Rightarrow> Sorter \<Rightarrow> (error + bytes) \<times> Sorter" where
  "finish_run r s =
     (let (r1, s1) = (case r of
              Inl err \<Rightarrow> (Inl err, s)
            | Inr file \<Rightarrow> (case so_fault s of (Some err, s1) \<Rightarrow> (Inl err, s1) | (None, s1) \<Rightarrow> (Inr file, s1)));
          (cerr, s2) = so_fault s1
      in (case r1 of
            Inl err \<Rightarrow> (Inl err, s2)
          | Inr file \<Rightarrow> (case cerr of Some err \<Rightarrow> (Inl err, s2) | None \<Rightarrow> (Inr file, s2))))"

definition so_flush :: "Sorter \<Rightarrow> error option \<times> Sorter" where
  "so_flush s0 =
     (if so_idx s0 = [] then (None, s0)
      else
        (let s = sortBuf s0 in
         case newRunFile s of
           (Some err, s1) \<Rightarrow> (Some err, s1)
         | (None, s1) \<Rightarrow>
             (case write_recs (map (rec_at (so_arena s1)) (so_idx s1)) [] s1 of (r, s2) \<Rightarrow>
              (case finish_run r s2 of
                 (Inl err, s3) \<Rightarrow> (Some err, s3)
               | (Inr file, s3) \<Rightarrow> (None, s3\<lparr>so_runs := so_runs s3 @ [file], so_arena := [], so_idx := []\<rparr>)))))"

definition so_Add :: "bytes \<Rightarrow> bytes \<Rightarrow> Sorter \<Rightarrow> error option \<times> Sorter" where
  "so_Add key val s =
     (if so_err s \<noteq> None then (so_err s, s)
      else if so_done s then (Some (ErrorNew ''spill: Sorter.Add after reading started''), s)
      else
        (let s1 = s\<lparr>so_idx := so_idx s @ [\<lparr>rf_off = length (so_arena s), rf_klen = length key, rf_vlen = length val\<rparr>],
                    so_arena := so_arena s @ key @ val, so_n := Suc (so_n s)\<rparr>
         in if length (so_arena s1) + length (so_idx s1) * 24 \<ge> so_memBytes s1 then
              (case so_flush s1 of
                 (Some err, s2) \<Rightarrow> (Some err, s2\<lparr>so_err := Some err\<rparr>)
               | (None, s2) \<Rightarrow> (None, s2))
            else (None, s1)))"

subsection \<open>Reading runs\<close>

record runReader =
  rr_rest :: bytes
  rr_key :: bytes
  rr_val :: bytes
  rr_live :: bool

definition openRun :: "bytes \<Rightarrow> Sorter \<Rightarrow> (error + runReader) \<times> Sorter" where
  "openRun file s =
     (case so_fault s of
        (Some err, s1) \<Rightarrow> (Inl err, s1)
      | (None, s1) \<Rightarrow> (Inr \<lparr>rr_rest = file, rr_key = [], rr_val = [], rr_live = False\<rparr>, s1))"

text \<open>One buffered read of a varint or of \<open>n\<close> bytes, which may meet a fault.\<close>

definition read_uvarint :: "bytes \<Rightarrow> Sorter \<Rightarrow> ((error + nat) \<times> bytes) \<times> Sorter" where
  "read_uvarint bs s =
     (case so_fault s of (Some err, s1) \<Rightarrow> ((Inl err, bs), s1) | (None, s1) \<Rightarrow> (ReadUvarint bs, s1))"

definition read_full :: "nat \<Rightarrow> bytes \<Rightarrow> Sorter \<Rightarrow> ((error + bytes) \<times> bytes) \<times> Sorter" where
  "read_full n bs s =
     (case so_fault s of
        (Some err, s1) \<Rightarrow> ((Inl err, bs), s1)
      | (None, s1) \<Rightarrow>
          if n \<le> length bs then ((Inr (take n bs), drop n bs), s1)
          else ((Inl (Sentinel (if bs = [] then IoEOF else IoErrUnexpectedEOF)), []), s1))"

definition advance :: "runReader \<Rightarrow> Sorter \<Rightarrow> (error option \<times> runReader) \<times> Sorter" where
  "advance rr s =
     (let bad = (\<lambda>err. Some (Errorf ''spill: truncated sorter run'' [err])) in
      case read_uvarint (rr_rest rr) s of
        ((Inl err, bs), s1) \<Rightarrow>
          ((if is_err err IoEOF then None else Some err, rr\<lparr>rr_live := False, rr_rest := bs\<rparr>), s1)
      | ((Inr kl, bs), s1) \<Rightarrow>
          (case read_uvarint bs s1 of
             ((Inl err, bs), s2) \<Rightarrow> ((bad err, rr\<lparr>rr_rest := bs\<rparr>), s2)
           | ((Inr vl, bs), s2) \<Rightarrow>
               if kl > maxRecordBytes \<or> vl > maxRecordBytes
               then ((Some (ErrorNew ''spill: corrupt sorter run (record length)''), rr\<lparr>rr_rest := bs\<rparr>), s2)
               else (case read_full kl bs s2 of
                       ((Inl err, bs), s3) \<Rightarrow> ((bad err, rr\<lparr>rr_rest := bs\<rparr>), s3)
                     | ((Inr k, bs), s3) \<Rightarrow>
                         (case read_full vl bs s3 of
                            ((Inl err, bs), s4) \<Rightarrow> ((bad err, rr\<lparr>rr_key := k, rr_rest := bs\<rparr>), s4)
                          | ((Inr v, bs), s4) \<Rightarrow>
                              ((None, rr\<lparr>rr_key := k, rr_val := v, rr_live := True, rr_rest := bs\<rparr>), s4)))))"

record recMerge =
  rm_h :: "runReader list"
  rm_cur :: "runReader option"

fun newRecMerge :: "bytes list \<Rightarrow> Sorter \<Rightarrow> (error + recMerge) \<times> Sorter" where
  "newRecMerge [] s = (Inr \<lparr>rm_h = [], rm_cur = None\<rparr>, s)"
| "newRecMerge (p # ps) s =
     (case openRun p s of
        (Inl err, s1) \<Rightarrow> (Inl err, s1)
      | (Inr rr, s1) \<Rightarrow>
          (case advance rr s1 of
             ((Some err, _), s2) \<Rightarrow> (Inl err, s2)
           | ((None, rr'), s2) \<Rightarrow>
               (case newRecMerge ps s2 of
                  (Inl err, s3) \<Rightarrow> (Inl err, s3)
                | (Inr m, s3) \<Rightarrow> (Inr (if rr_live rr' then m\<lparr>rm_h := rr' # rm_h m\<rparr> else m), s3))))"

text \<open>\<^verbatim>\<open>heap.Pop\<close>: a reader with a least key, and the others.\<close>

fun heap_pop :: "runReader list \<Rightarrow> (runReader \<times> runReader list) option" where
  "heap_pop [] = None"
| "heap_pop (r # rs) =
     (case heap_pop rs of
        None \<Rightarrow> Some (r, [])
      | Some (t, ts) \<Rightarrow> if bytes_less (rr_key t) (rr_key r) then Some (t, r # ts) else Some (r, rs))"

definition rm_pop :: "recMerge \<Rightarrow> (bytes \<times> bytes) option \<times> recMerge" where
  "rm_pop m =
     (case heap_pop (rm_h m) of
        None \<Rightarrow> (None, m\<lparr>rm_cur := None\<rparr>)
      | Some (r, h) \<Rightarrow> (Some (rr_key r, rr_val r), \<lparr>rm_h = h, rm_cur = Some r\<rparr>))"

definition rm_next :: "recMerge \<Rightarrow> Sorter \<Rightarrow> ((error + (bytes \<times> bytes) option) \<times> recMerge) \<times> Sorter" where
  "rm_next m s =
     (case rm_cur m of
        None \<Rightarrow> (case rm_pop m of (kv, m') \<Rightarrow> ((Inr kv, m'), s))
      | Some cur \<Rightarrow>
          (case advance cur s of
             ((Some err, cur'), s1) \<Rightarrow> ((Inl err, m\<lparr>rm_cur := Some cur'\<rparr>), s1)
           | ((None, cur'), s1) \<Rightarrow>
               (case rm_pop \<lparr>rm_h = (if rr_live cur' then cur' # rm_h m else rm_h m), rm_cur = None\<rparr> of
                  (kv, m') \<Rightarrow> ((Inr kv, m'), s1))))"

subsection \<open>Draining a merge\<close>

definition rm_size :: "recMerge \<Rightarrow> nat" where
  "rm_size m = sum_list (map (\<lambda>r. length (rr_rest r) + 2) (rm_h m)) +
     (case rm_cur m of None \<Rightarrow> 0 | Some r \<Rightarrow> length (rr_rest r) + 1)"

lemma heap_pop_None: "heap_pop h = None \<longleftrightarrow> h = []"
proof (cases h)
  case (Cons r rs)
  then show ?thesis by (cases "heap_pop rs") auto
qed simp

lemma heap_pop_mset: "heap_pop h = Some (t, ts) \<Longrightarrow> mset h = add_mset t (mset ts)"
  by (induction h arbitrary: t ts) (auto simp: heap_pop_None split: option.splits if_splits)

lemma sum_list_mset: "sum_list (map f xs) = sum_mset (image_mset f (mset xs))" for f :: "_ \<Rightarrow> nat"
  by (induction xs) auto

lemma rm_pop_size: "rm_pop m = (Some kv, m') \<Longrightarrow> rm_cur m = None \<Longrightarrow> rm_size m' < rm_size m"
proof -
  assume p: "rm_pop m = (Some kv, m')" "rm_cur m = None"
  then obtain r h where h: "heap_pop (rm_h m) = Some (r, h)" "m' = \<lparr>rm_h = h, rm_cur = Some r\<rparr>"
    by (auto simp: rm_pop_def split: option.splits)
  show ?thesis using heap_pop_mset [OF h(1)] p(2) by (simp add: rm_size_def h(2) sum_list_mset)
qed

lemma read_full_length: "read_full n bs s = ((Inr x, bs'), s') \<Longrightarrow> length bs' \<le> length bs"
  by (auto simp: read_full_def split: prod.splits option.splits if_splits)

lemma read_uvarint_length: "read_uvarint bs s = ((Inr n, bs'), s') \<Longrightarrow> length bs' < length bs"
  by (auto simp: read_uvarint_def ReadUvarint_def dest: uvarint_loop_consumes split: prod.splits option.splits)

lemma advance_shrinks:
  assumes "advance rr s = ((None, rr'), s')" "rr_live rr'"
  shows "length (rr_rest rr') < length (rr_rest rr)"
  using assms unfolding advance_def Let_def
  by (auto dest!: read_full_length read_uvarint_length split: prod.splits sum.splits if_splits)

lemma rm_next_size:
  assumes "rm_next m s = ((Inr (Some kv), m'), s')"
  shows "rm_size m' < rm_size m"
proof (cases "rm_cur m")
  case None
  then show ?thesis using assms rm_pop_size [of m kv m'] by (auto simp: rm_next_def split: prod.splits)
next
  case (Some cur)
  obtain e cur' s1 where a: "advance cur s = ((e, cur'), s1)" by (metis prod.exhaust)
  let ?m = "\<lparr>rm_h = (if rr_live cur' then cur' # rm_h m else rm_h m), rm_cur = None\<rparr>"
  have e: "e = None" using assms Some a by (cases e) (auto simp: rm_next_def)
  have "rm_pop ?m = (Some kv, m')" using assms Some a e by (auto simp: rm_next_def split: prod.splits)
  then have "rm_size m' < rm_size ?m" by (rule rm_pop_size) simp
  moreover have "rm_size ?m \<le> rm_size m"
    using advance_shrinks [OF a [unfolded e]] Some by (auto simp: rm_size_def)
  ultimately show ?thesis by simp
qed

text \<open>The loop of \<open>compact\<close>: each record the merge delivers is written to the new run.\<close>

function copy_merge :: "recMerge \<Rightarrow> bytes \<Rightarrow> Sorter \<Rightarrow> (error + bytes) \<times> Sorter" where
  "copy_merge m file s =
     (case rm_next m s of
        ((Inl err, _), s1) \<Rightarrow> (Inl err, s1)
      | ((Inr None, _), s1) \<Rightarrow> (Inr file, s1)
      | ((Inr (Some kv), m'), s1) \<Rightarrow>
          (case writeRec kv file s1 of
             (Inl err, s2) \<Rightarrow> (Inl err, s2)
           | (Inr file', s2) \<Rightarrow> copy_merge m' file' s2))"
  by pat_completeness auto
termination
  by (relation "measure (\<lambda>(m, f, s). rm_size m)") (auto dest: rm_next_size [OF sym])

declare copy_merge.simps [simp del]

definition merge_group :: "bytes list \<Rightarrow> Sorter \<Rightarrow> (error + bytes) \<times> Sorter" where
  "merge_group grp s =
     (case newRecMerge grp s of
        (Inl err, s1) \<Rightarrow> (Inl err, s1)
      | (Inr m, s1) \<Rightarrow>
          (case newRunFile s1 of
             (Some err, s2) \<Rightarrow> (Inl err, s2)
           | (None, s2) \<Rightarrow> (case copy_merge m [] s2 of (r, s3) \<Rightarrow> finish_run r s3)))"

function compact_pass :: "bytes list \<Rightarrow> Sorter \<Rightarrow> (error + bytes list) \<times> Sorter" where
  "compact_pass runs s =
     (if runs = [] then (Inr [], s)
      else
        (let grp = take sorterFanIn runs in
         case (if length grp = 1 then (Inr (hd grp), s) else merge_group grp s) of
           (Inl err, s1) \<Rightarrow> (Inl err, s1)
         | (Inr file, s1) \<Rightarrow>
             (case compact_pass (drop sorterFanIn runs) s1 of
                (Inl err, s2) \<Rightarrow> (Inl err, s2)
              | (Inr next, s2) \<Rightarrow> (Inr (file # next), s2))))"
  by pat_completeness auto
termination
  by (relation "measure (\<lambda>(runs, s). length runs)") (auto simp: sorterFanIn_def)

declare compact_pass.simps [simp del]

lemma compact_pass_length:
  "compact_pass runs s = (Inr next, s') \<Longrightarrow> length next \<le> length runs \<and> (2 \<le> length runs \<longrightarrow> length next < length runs)"
proof (induction runs s arbitrary: "next" s' rule: compact_pass.induct)
  case (1 runs s)
  show ?case
  proof (cases "runs = []")
    case True
    then show ?thesis using 1(2) by (subst (asm) compact_pass.simps) auto
  next
    case False
    let ?g = "take sorterFanIn runs"
    obtain r s1 where g: "(if length ?g = 1 then (Inr (hd ?g), s) else merge_group ?g s) = (r, s1)" by fastforce
    obtain q s2 where q: "compact_pass (drop sorterFanIn runs) s1 = (q, s2)" by fastforce
    note c = 1(2) [unfolded compact_pass.simps [of runs s] if_not_P [OF False] Let_def g prod.case]
    obtain f where r: "r = Inr f" using c by (cases r) auto
    note c = c [unfolded r sum.case q prod.case]
    obtain nx where n: "q = Inr nx" "next = f # nx" using c by (cases q) auto
    have "length nx \<le> length (drop sorterFanIn runs)"
      using 1(1) [OF False refl g [symmetric] r q [unfolded n(1)]] by blast
    moreover have "length (drop sorterFanIn runs) = length runs - 64" by (simp add: sorterFanIn_def)
    ultimately show ?thesis using n(2) False by (cases runs) auto
  qed
qed

function compact :: "bytes list \<Rightarrow> Sorter \<Rightarrow> (error + bytes list) \<times> Sorter" where
  "compact runs s =
     (if length runs > sorterFanIn then
        (case compact_pass runs s of
           (Inl err, s1) \<Rightarrow> (Inl err, s1)
         | (Inr next, s1) \<Rightarrow> compact next s1)
      else (Inr runs, s))"
  by pat_completeness auto
termination
  by (relation "measure (\<lambda>(runs, s). length runs)") (auto simp: sorterFanIn_def dest!: compact_pass_length [OF sym])

declare compact.simps [simp del]

text \<open>An iterator reads the sorted arena, or a merge of the runs.\<close>

datatype iter = MemIter nat | MergeIter recMerge

definition so_fail :: "error \<Rightarrow> Sorter \<Rightarrow> (error + iter) \<times> Sorter" where
  "so_fail err s = (Inl err, s\<lparr>so_err := Some err\<rparr>)"

definition so_Iter :: "Sorter \<Rightarrow> (error + iter) \<times> Sorter" where
  "so_Iter s0 =
     (case so_err s0 of
        Some err \<Rightarrow> (Inl err, s0)
      | None \<Rightarrow>
          (let s = s0\<lparr>so_done := True\<rparr> in
           if so_runs s = [] then (Inr (MemIter 0), sortBuf s)
           else case so_flush s of
             (Some err, s1) \<Rightarrow> so_fail err s1
           | (None, s1) \<Rightarrow>
               (case compact (so_runs s1) s1 of
                  (Inl err, s2) \<Rightarrow> so_fail err s2
                | (Inr runs, s2) \<Rightarrow>
                    (let s3 = s2\<lparr>so_runs := runs\<rparr> in
                     case newRecMerge (so_runs s3) s3 of
                       (Inl err, s4) \<Rightarrow> so_fail err s4
                     | (Inr m, s4) \<Rightarrow> (Inr (MergeIter m), s4)))))"

fun so_Next :: "iter \<Rightarrow> Sorter \<Rightarrow> ((error + (bytes \<times> bytes) option) \<times> iter) \<times> Sorter" where
  "so_Next (MemIter i) s =
     (if i \<ge> length (so_idx s) then ((Inr None, MemIter i), s)
      else ((Inr (Some (rec_at (so_arena s) (so_idx s ! i))), MemIter (Suc i)), s))"
| "so_Next (MergeIter m) s = (case rm_next m s of ((r, m'), s') \<Rightarrow> ((r, MergeIter m'), s'))"

definition iter_size :: "iter \<Rightarrow> Sorter \<Rightarrow> nat" where
  "iter_size it s = (case it of MemIter i \<Rightarrow> length (so_idx s) - i | MergeIter m \<Rightarrow> rm_size m)"

text \<open>All records of an iterator, up to its end or the first error.\<close>

function drain :: "iter \<Rightarrow> Sorter \<Rightarrow> ((bytes \<times> bytes) list \<times> error option) \<times> Sorter" where
  "drain it s =
     (case so_Next it s of
        ((Inl err, _), s1) \<Rightarrow> (([], Some err), s1)
      | ((Inr None, _), s1) \<Rightarrow> (([], None), s1)
      | ((Inr (Some kv), it'), s1) \<Rightarrow> (case drain it' s1 of ((kvs, e), s2) \<Rightarrow> ((kv # kvs, e), s2)))"
  by pat_completeness auto
termination
proof (relation "measure (\<lambda>(it, s). iter_size it s)")
  fix it s r s1 q it' v kv
  show "((it', s1), it, s) \<in> measure (\<lambda>(it, s). iter_size it s)"
    if "(r, s1) = so_Next it s" "(q, it') = r" "q = Inr v" "v = Some kv"
    using that by (cases it) (auto simp: iter_size_def dest: rm_next_size split: if_splits prod.splits)
qed simp

declare drain.simps [simp del]

definition so_Close :: "Sorter \<Rightarrow> error option \<times> Sorter" where
  "so_Close s =
     (let s1 = s\<lparr>so_arena := [], so_idx := []\<rparr> in
      if so_ownDir s1 then (case so_fault s1 of (err, s2) \<Rightarrow> (err, s2\<lparr>so_ownDir := False, so_runs := []\<rparr>))
      else (None, s1))"

end
