(* ===== verification/SorterProps.thy ===== *)
theory SorterProps
  imports Sorter
begin

text \<open>
  The sorter as a whole: every record that was added comes back exactly once and in key order, whatever
  run files the memory limit made it write and whatever faults those files met; without faults it
  delivers. The lemmas follow the layers of the code: records and their encoding, a run reader, the
  merge of readers, the compaction passes, the arena.
\<close>

subsection \<open>Faults and frames\<close>

definition quiet :: "Sorter \<Rightarrow> bool" where
  "quiet s \<longleftrightarrow> set (so_faults s) \<subseteq> {None}"

definition io_step :: "Sorter \<Rightarrow> Sorter \<Rightarrow> bool" where
  "io_step s s' \<longleftrightarrow> so_arena s' = so_arena s \<and> so_idx s' = so_idx s \<and> so_runs s' = so_runs s \<and>
     so_err s' = so_err s \<and> so_done s' = so_done s \<and> so_n s' = so_n s \<and> (quiet s \<longrightarrow> quiet s')"

lemma io_step_refl [simp]: "io_step s s"
  by (simp add: io_step_def)

lemma io_step_trans [trans]: "io_step a b \<Longrightarrow> io_step b c \<Longrightarrow> io_step a c"
  by (simp add: io_step_def)

lemma io_step_quiet: "io_step a b \<Longrightarrow> quiet a \<Longrightarrow> quiet b"
  by (simp add: io_step_def)

text \<open>An operation's outcome: only faults and bookkeeping move, success is certain when quiet, and a
  success satisfies \<open>P\<close>.\<close>

definition outcome :: "Sorter \<Rightarrow> (error + 'a) \<times> Sorter \<Rightarrow> ('a \<Rightarrow> bool) \<Rightarrow> bool" where
  "outcome s rs P \<longleftrightarrow> io_step s (snd rs) \<and> (quiet s \<longrightarrow> \<not> isl (fst rs)) \<and> (\<forall>x. fst rs = Inr x \<longrightarrow> P x)"

lemma outcome_Inr: "io_step s s' \<Longrightarrow> P x \<Longrightarrow> outcome s (Inr x, s') P"
  by (simp add: outcome_def)

lemma outcome_Inl: "io_step s s' \<Longrightarrow> \<not> quiet s \<Longrightarrow> outcome s (Inl e, s') P"
  by (simp add: outcome_def)

lemma outcome_bind:
  assumes "outcome s r P" "\<And>x s'. r = (Inr x, s') \<Longrightarrow> P x \<Longrightarrow> io_step s s' \<Longrightarrow> outcome s' (f x s') Q"
  shows "outcome s (case r of (Inl e, s') \<Rightarrow> (Inl e, s') | (Inr x, s') \<Rightarrow> f x s') Q"
proof (cases r)
  case (Pair a s')
  show ?thesis
  proof (cases a)
    case (Inl e)
    then show ?thesis using assms(1) Pair by (auto simp: outcome_def)
  next
    case (Inr x)
    then have "P x" "io_step s s'" using assms(1) Pair by (auto simp: outcome_def)
    from assms(2) [OF Pair [unfolded Inr] this] show ?thesis using \<open>io_step s s'\<close> Pair Inr
      by (auto simp: outcome_def intro: io_step_trans io_step_quiet)
  qed
qed

lemma so_fault_cases:
  obtains (ok) s' where "so_fault s = (None, s')" "io_step s s'"
  | (bad) e s' where "so_fault s = (Some (SysErr e), s')" "io_step s s'" "\<not> quiet s"
proof (cases "so_faults s")
  case Nil
  then show thesis using ok [of s] by (simp add: so_fault_def)
next
  case (Cons x fs)
  have io: "io_step s (s\<lparr>so_faults := fs\<rparr>)" using Cons by (auto simp: io_step_def quiet_def)
  show thesis
  proof (cases x)
    case None
    then show thesis using ok [OF _ io] Cons by (simp add: so_fault_def)
  next
    case (Some er)
    then show thesis using bad [OF _ io] Cons by (simp add: so_fault_def quiet_def)
  qed
qed

lemma outcome_later: "outcome s' r P \<Longrightarrow> io_step s s' \<Longrightarrow> outcome s r P"
  by (auto simp: outcome_def intro: io_step_trans io_step_quiet)

lemma outcome_fault:
  assumes "\<And>s'. io_step s s' \<Longrightarrow> outcome s' (f s') Q"
  shows "outcome s (case so_fault s of (Some e, s') \<Rightarrow> (Inl e, s') | (None, s') \<Rightarrow> f s') Q"
proof (rule so_fault_cases [of s])
  fix s' assume "so_fault s = (None, s')" "io_step s s'"
  then show ?thesis using outcome_later [OF assms] by simp
qed (simp add: outcome_Inl)

subsection \<open>Records and writers\<close>

definition enc_recs :: "(bytes \<times> bytes) list \<Rightarrow> bytes" where
  "enc_recs kvs = concat (map enc_rec kvs)"

lemma enc_recs_simps [simp]: "enc_recs [] = []" "enc_recs (kv # kvs) = enc_rec kv @ enc_recs kvs"
  "enc_recs (a @ b) = enc_recs a @ enc_recs b"
  by (simp_all add: enc_recs_def)

definition fits :: "bytes \<times> bytes \<Rightarrow> bool" where
  "fits kv \<longleftrightarrow> length (fst kv) \<le> maxRecordBytes \<and> length (snd kv) \<le> maxRecordBytes"

definition bkey :: "bytes \<times> bytes \<Rightarrow> nat list" where
  "bkey kv = map unat (fst kv)"

lemma bytes_less_bkey: "bytes_less (fst a) (fst b) \<longleftrightarrow> bkey a < bkey b"
  by (simp add: bytes_less_def bkey_def)

definition good_run :: "(bytes \<times> bytes) list \<Rightarrow> bool" where
  "good_run kvs \<longleftrightarrow> sorted (map bkey kvs) \<and> (\<forall>kv \<in> set kvs. fits kv)"

lemma good_run_Cons: "good_run (kv # kvs) \<longleftrightarrow> fits kv \<and> good_run kvs \<and> (\<forall>x \<in> set kvs. bkey kv \<le> bkey x)"
  by (auto simp: good_run_def)

lemma writeRec_outcome: "outcome s (writeRec kv f s) (\<lambda>x. x = f @ enc_rec kv)"
  unfolding writeRec_def by (intro outcome_fault outcome_Inr) auto

lemma write_recs_outcome: "outcome s (write_recs kvs f s) (\<lambda>x. x = f @ enc_recs kvs)"
proof (induction kvs arbitrary: f s)
  case Nil
  then show ?case by (simp add: outcome_Inr)
next
  case (Cons kv kvs)
  show ?case unfolding write_recs.simps
  proof (rule outcome_bind [OF writeRec_outcome])
    fix x s' assume "x = f @ enc_rec kv"
    then show "outcome s' (write_recs kvs x s') (\<lambda>x. x = f @ enc_recs (kv # kvs))" using Cons [of s' x] by simp
  qed
qed

lemma finish_run_outcome: "outcome s (r, s1) P \<Longrightarrow> outcome s (finish_run r s1) P"
proof (cases r)
  case (Inl e)
  assume "outcome s (r, s1) P"
  then show ?thesis unfolding finish_run_def Inl
    by (cases rule: so_fault_cases [of s1]) (auto simp: outcome_def intro: io_step_trans)
next
  case (Inr f)
  assume o: "outcome s (r, s1) P"
  show ?thesis
  proof (cases rule: so_fault_cases [of s1])
    case (ok s2)
    then show ?thesis using o unfolding finish_run_def Inr
      by (cases rule: so_fault_cases [of s2]) (auto simp: outcome_def intro: io_step_trans io_step_quiet)
  next
    case (bad e s2)
    then show ?thesis using o unfolding finish_run_def Inr
      by (cases rule: so_fault_cases [of s2]) (auto simp: outcome_def intro: io_step_trans io_step_quiet)
  qed
qed

lemma newRunFile_io:
  assumes "newRunFile s = (e, s')"
  shows "io_step s s'" "quiet s \<Longrightarrow> e = None"
proof -
  have io: "io_step s1 (s1\<lparr>so_ownDir := True\<rparr>)" "io_step s1 (s1\<lparr>so_seq := n\<rparr>)" for s1 n
    by (simp_all add: io_step_def quiet_def)
  obtain a s1 where d: "ensureDir s = (a, s1)" by fastforce
  have 1: "io_step s s1 \<and> (quiet s \<longrightarrow> a = None)"
    using d by (cases rule: so_fault_cases [of s]) (auto simp: ensureDir_def intro: io_step_trans io split: if_splits)
  have "io_step s s' \<and> (quiet s \<longrightarrow> e = None)"
  proof (cases a)
    case None
    let ?s = "s1\<lparr>so_seq := Suc (so_seq s1)\<rparr>"
    have "so_fault ?s = (e, s')" using assms d None by (simp add: newRunFile_def)
    then have "io_step ?s s' \<and> (quiet ?s \<longrightarrow> e = None)" by (cases rule: so_fault_cases [of ?s]) auto
    then show ?thesis using 1 io(2) [of s1 "Suc (so_seq s1)"] by (meson io_step_trans io_step_quiet)
  next
    case (Some x)
    then show ?thesis using assms d 1 by (simp add: newRunFile_def)
  qed
  then show "io_step s s'" "quiet s \<Longrightarrow> e = None" by auto
qed

subsection \<open>Reading one record\<close>

text \<open>A live reader stands on its first record with the rest still in the file.\<close>

definition rd_ok :: "runReader \<Rightarrow> (bytes \<times> bytes) list \<Rightarrow> bool" where
  "rd_ok rr kvs \<longleftrightarrow> (\<exists>rest. kvs = (rr_key rr, rr_val rr) # rest \<and> rr_rest rr = enc_recs rest) \<and> good_run kvs"

definition rd_next :: "(bytes \<times> bytes) list \<Rightarrow> runReader \<Rightarrow> bool" where
  "rd_next kvs rr \<longleftrightarrow> (if kvs = [] then \<not> rr_live rr else rr_live rr \<and> rd_ok rr kvs)"

lemma fits_varint: "fits kv \<Longrightarrow> length (fst kv) < 2 ^ 63 \<and> length (snd kv) < 2 ^ 63"
  by (simp add: fits_def maxRecordBytes_def)

lemma advance_end:
  assumes "rr_rest rr = []" "advance rr s = ((e, rr'), s')"
  shows "io_step s s'" "quiet s \<Longrightarrow> e = None" "e = None \<Longrightarrow> \<not> rr_live rr'"
  using assms
  by (cases rule: so_fault_cases [of s]; auto simp: advance_def Let_def read_uvarint_def ReadUvarint_def)+

lemma advance_rec:
  assumes r: "rr_rest rr = enc_rec kv @ rest" and f: "fits kv" and a: "advance rr s = ((e, rr'), s')"
  shows "io_step s s' \<and> (quiet s \<longrightarrow> e = None) \<and>
     (e = None \<longrightarrow> rr_live rr' \<and> rr_key rr' = fst kv \<and> rr_val rr' = snd kv \<and> rr_rest rr' = rest)"
proof (cases rule: so_fault_cases [of s])
  case (bad e' s1)
  then show ?thesis using a by (auto simp: advance_def Let_def read_uvarint_def)
next
  case (ok s1)
  let ?bs = "PutUvarint (length (snd kv)) @ fst kv @ snd kv @ rest"
  have 1: "read_uvarint (rr_rest rr) s = ((Inr (length (fst kv)), ?bs), s1)"
    using ok r fits_varint [OF f] by (simp add: read_uvarint_def enc_rec_def ReadUvarint_Put)
  note a1 = a [unfolded advance_def Let_def 1 prod.case sum.case]
  show ?thesis
  proof (cases rule: so_fault_cases [of s1])
    case (bad e' s2)
    then show ?thesis using a1 ok by (auto simp: read_uvarint_def intro: io_step_trans io_step_quiet)
  next
    case ok2: (ok s2)
    have 2: "read_uvarint ?bs s1 = ((Inr (length (snd kv)), fst kv @ snd kv @ rest), s2)"
      using ok2 fits_varint [OF f] by (simp add: read_uvarint_def ReadUvarint_Put)
    have l: "\<not> (length (fst kv) > maxRecordBytes \<or> length (snd kv) > maxRecordBytes)" using f by (simp add: fits_def)
    note a2 = a1 [unfolded 2 prod.case sum.case if_not_P [OF l]]
    show ?thesis
    proof (cases rule: so_fault_cases [of s2])
      case (bad e' s3)
      then show ?thesis using a2 ok ok2 by (auto simp: read_full_def intro: io_step_trans io_step_quiet)
    next
      case ok3: (ok s3)
      have 3: "read_full (length (fst kv)) (fst kv @ snd kv @ rest) s2 = ((Inr (fst kv), snd kv @ rest), s3)"
        using ok3 by (simp add: read_full_def)
      note a3 = a2 [unfolded 3 prod.case sum.case]
      have io: "io_step s s3" using ok ok2 ok3 by (meson io_step_trans)
      show ?thesis using a3 io
        by (cases rule: so_fault_cases [of s3]) (auto simp: read_full_def intro: io_step_trans io_step_quiet)
    qed
  qed
qed

lemma advance_spec:
  assumes r: "rr_rest rr = enc_recs kvs" "good_run kvs" and a: "advance rr s = ((e, rr'), s')"
  shows "io_step s s'" "quiet s \<Longrightarrow> e = None" "e = None \<Longrightarrow> rd_next kvs rr'"
proof -
  have "io_step s s' \<and> (quiet s \<longrightarrow> e = None) \<and> (e = None \<longrightarrow> rd_next kvs rr')"
  proof (cases kvs)
    case Nil
    then show ?thesis using advance_end [OF _ a] r by (auto simp: rd_next_def)
  next
    case (Cons kv rest)
    then have "rr_rest rr = enc_rec kv @ enc_recs rest" "fits kv" using r by (auto simp: good_run_Cons)
    from advance_rec [OF this a] show ?thesis using r(2) Cons by (auto simp: rd_next_def rd_ok_def)
  qed
  then show "io_step s s'" "quiet s \<Longrightarrow> e = None" "e = None \<Longrightarrow> rd_next kvs rr'" by auto
qed

subsection \<open>The merge\<close>

definition rm_ok :: "recMerge \<Rightarrow> (bytes \<times> bytes) multiset \<Rightarrow> bool" where
  "rm_ok m R \<longleftrightarrow> (\<exists>ls c. list_all2 rd_ok (rm_h m) ls \<and>
     (case rm_cur m of None \<Rightarrow> c = [] | Some r \<Rightarrow> rr_rest r = enc_recs c \<and> good_run c) \<and>
     R = mset (concat ls) + mset c)"

text \<open>What a delivered record is: one of those that remain, with the least key.\<close>

definition delivers :: "(bytes \<times> bytes) multiset \<Rightarrow> (bytes \<times> bytes) option \<Rightarrow> recMerge \<Rightarrow> bool" where
  "delivers R kv m' \<longleftrightarrow>
     (case kv of
        None \<Rightarrow> R = {#}
      | Some x \<Rightarrow> \<exists>R'. R = add_mset x R' \<and> rm_ok m' R' \<and> fits x \<and> (\<forall>y \<in># R'. bkey x \<le> bkey y))"

lemma rd_ok_least: "rd_ok r l \<Longrightarrow> x \<in> set l \<Longrightarrow> map unat (rr_key r) \<le> bkey x"
  by (auto simp: rd_ok_def good_run_Cons bkey_def)

lemma heap_pop_spec:
  "heap_pop h = Some (t, ts) \<Longrightarrow> list_all2 rd_ok h ls \<Longrightarrow>
     \<exists>l ls'. rd_ok t l \<and> list_all2 rd_ok ts ls' \<and> mset (concat ls) = mset l + mset (concat ls') \<and>
       (\<forall>x \<in> set (concat ls). map unat (rr_key t) \<le> bkey x)"
proof (induction h arbitrary: t ts ls)
  case (Cons r rs)
  obtain l0 ls0 where l: "ls = l0 # ls0" "rd_ok r l0" "list_all2 rd_ok rs ls0" using Cons(3) by (cases ls) auto
  show ?case
  proof (cases "heap_pop rs")
    case None
    then have "rs = []" "t = r" "ts = []" using Cons(2) by (auto simp: heap_pop_None)
    then show ?thesis using l rd_ok_least by (intro exI [of _ l0] exI [of _ "[]"]) auto
  next
    case (Some q)
    obtain u us where q: "q = (u, us)" by fastforce
    obtain l' ls' where i: "rd_ok u l'" "list_all2 rd_ok us ls'" "mset (concat ls0) = mset l' + mset (concat ls')"
      "\<forall>x \<in> set (concat ls0). map unat (rr_key u) \<le> bkey x" using Cons(1) [OF Some [unfolded q] l(3)] by blast
    show ?thesis
    proof (cases "bytes_less (rr_key u) (rr_key r)")
      case True
      then have t: "t = u" "ts = r # us" using Cons(2) Some q by auto
      have "map unat (rr_key u) \<le> bkey x" if "x \<in> set l0" for x
        using rd_ok_least [OF l(2) that] True unfolding bytes_less_def by simp
      then show ?thesis unfolding t using i l by (intro exI [of _ l'] exI [of _ "l0 # ls'"]) auto
    next
      case False
      then have t: "t = r" "ts = rs" using Cons(2) Some q by auto
      have "map unat (rr_key r) \<le> bkey x" if "x \<in> set (concat ls0)" for x
        using i(4) that False unfolding bytes_less_def by (meson not_le order_trans)
      then show ?thesis unfolding t using l rd_ok_least [OF l(2)] by (intro exI [of _ l0] exI [of _ ls0]) auto
    qed
  qed
qed simp

lemma rm_pop_spec:
  assumes "rm_ok m R" "rm_cur m = None" "rm_pop m = (kv, m')"
  shows "delivers R kv m'"
proof -
  obtain ls where ls: "list_all2 rd_ok (rm_h m) ls" "R = mset (concat ls)" using assms(1,2) by (auto simp: rm_ok_def)
  show ?thesis
  proof (cases "heap_pop (rm_h m)")
    case None
    then have "rm_h m = []" by (simp add: heap_pop_None)
    then show ?thesis using ls None assms(3) by (auto simp: rm_pop_def delivers_def)
  next
    case (Some q)
    obtain r h where q: "q = (r, h)" by fastforce
    obtain l ls' where i: "rd_ok r l" "list_all2 rd_ok h ls'" "mset (concat ls) = mset l + mset (concat ls')"
      "\<forall>x \<in> set (concat ls). map unat (rr_key r) \<le> bkey x" using heap_pop_spec [OF Some [unfolded q] ls(1)] by blast
    obtain rest where l: "l = (rr_key r, rr_val r) # rest" "rr_rest r = enc_recs rest" using i(1) by (auto simp: rd_ok_def)
    have g: "fits (rr_key r, rr_val r)" "good_run rest" using i(1) l(1) by (auto simp: rd_ok_def good_run_Cons)
    let ?R = "mset (concat ls') + mset rest"
    have R: "R = add_mset (rr_key r, rr_val r) ?R" using i(3) l(1) ls(2) by simp
    have m': "kv = Some (rr_key r, rr_val r)" "m' = \<lparr>rm_h = h, rm_cur = Some r\<rparr>"
      using assms(3) Some q by (auto simp: rm_pop_def)
    have "rm_ok m' ?R" using i(2) l(2) g(2) unfolding rm_ok_def m'(2) by auto
    moreover have "\<forall>y \<in># ?R. bkey (rr_key r, rr_val r) \<le> bkey y"
    proof
      fix y assume "y \<in># ?R"
      then have "y \<in># R" using R by simp
      then have "y \<in> set (concat ls)" unfolding ls(2) by (simp only: set_mset_mset)
      then show "bkey (rr_key r, rr_val r) \<le> bkey y" using i(4) by (auto simp: bkey_def)
    qed
    ultimately show ?thesis using R g(1) unfolding delivers_def m'(1) by auto
  qed
qed

lemma rm_next_spec:
  assumes ok: "rm_ok m R" and n: "rm_next m s = ((r, m'), s')"
  shows "io_step s s' \<and> (quiet s \<longrightarrow> \<not> isl r) \<and> (\<forall>kv. r = Inr kv \<longrightarrow> delivers R kv m')"
proof (cases "rm_cur m")
  case None
  obtain kv m1 where p: "rm_pop m = (kv, m1)" by fastforce
  then show ?thesis using n None rm_pop_spec [OF ok None p] by (auto simp: rm_next_def)
next
  case (Some cur)
  obtain ls c where l: "list_all2 rd_ok (rm_h m) ls" "rr_rest cur = enc_recs c" "good_run c" "R = mset (concat ls) + mset c"
    using ok Some by (auto simp: rm_ok_def)
  obtain e cur' s1 where a: "advance cur s = ((e, cur'), s1)" by (metis prod.exhaust)
  note sp = advance_spec [OF l(2,3) a]
  note n1 = n [unfolded rm_next_def Some option.case a prod.case]
  show ?thesis
  proof (cases e)
    case (Some x)
    then show ?thesis using n1 sp by auto
  next
    case e: None
    let ?m = "\<lparr>rm_h = (if rr_live cur' then cur' # rm_h m else rm_h m), rm_cur = None\<rparr>"
    obtain kv m1 where p: "rm_pop ?m = (kv, m1)" by fastforce
    have "rm_ok ?m R"
    proof (cases "c = []")
      case True
      then show ?thesis using sp(3) [OF e] l by (auto simp: rd_next_def rm_ok_def)
    next
      case False
      then have "rr_live cur'" "rd_ok cur' c" using sp(3) [OF e] by (auto simp: rd_next_def)
      then show ?thesis using l unfolding rm_ok_def by (intro exI [of _ "c # ls"] exI [of _ "[]"]) auto
    qed
    then show ?thesis using n1 [unfolded e option.case p prod.case] rm_pop_spec [OF _ _ p] sp(1) by auto
  qed
qed

lemma openRun_outcome:
  "outcome s (openRun f s) (\<lambda>rr. rr = \<lparr>rr_rest = f, rr_key = [], rr_val = [], rr_live = False\<rparr>)"
  unfolding openRun_def by (intro outcome_fault outcome_Inr) auto

lemma newRecMerge_outcome:
  "list_all2 (\<lambda>f l. f = enc_recs l \<and> good_run l) fs ls \<Longrightarrow>
     outcome s (newRecMerge fs s) (\<lambda>m. rm_cur m = None \<and> rm_ok m (mset (concat ls)))"
proof (induction fs arbitrary: s ls)
  case Nil
  then show ?case by (auto simp: rm_ok_def intro!: outcome_Inr)
next
  case (Cons f fs)
  obtain l ls0 where l: "ls = l # ls0" "f = enc_recs l" "good_run l"
    "list_all2 (\<lambda>f l. f = enc_recs l \<and> good_run l) fs ls0" using Cons(2) by (cases ls) auto
  show ?case unfolding newRecMerge.simps
  proof (rule outcome_bind [OF openRun_outcome])
    fix rr s1 assume rr: "rr = \<lparr>rr_rest = f, rr_key = [], rr_val = [], rr_live = False\<rparr>" and io: "io_step s s1"
    obtain e rr' s2 where a: "advance rr s1 = ((e, rr'), s2)" by (metis prod.exhaust)
    have "rr_rest rr = enc_recs l" using rr l(2) by simp
    note sp = advance_spec [OF this l(3) a]
    show "outcome s1 (case advance rr s1 of ((Some err, _), s2) \<Rightarrow> (Inl err, s2)
        | ((None, rr'), s2) \<Rightarrow> (case newRecMerge fs s2 of (Inl err, s3) \<Rightarrow> (Inl err, s3)
            | (Inr m, s3) \<Rightarrow> (Inr (if rr_live rr' then m\<lparr>rm_h := rr' # rm_h m\<rparr> else m), s3)))
        (\<lambda>m. rm_cur m = None \<and> rm_ok m (mset (concat ls)))"
    proof (cases e)
      case (Some x)
      then show ?thesis using sp a by (auto intro: outcome_Inl)
    next
      case None
      have "outcome s2 (case newRecMerge fs s2 of (Inl err, s3) \<Rightarrow> (Inl err, s3)
          | (Inr m, s3) \<Rightarrow> (Inr (if rr_live rr' then m\<lparr>rm_h := rr' # rm_h m\<rparr> else m), s3))
        (\<lambda>m. rm_cur m = None \<and> rm_ok m (mset (concat ls)))"
      proof (rule outcome_bind [OF Cons(1) [OF l(4)]], rule outcome_Inr, simp)
        fix m s3 assume m: "rm_cur m = None \<and> rm_ok m (mset (concat ls0))"
        then obtain ls1 where ls1: "list_all2 rd_ok (rm_h m) ls1" "mset (concat ls0) = mset (concat ls1)"
          by (auto simp: rm_ok_def)
        have nx: "rd_next l rr'" using sp(3) None by simp
        show "rm_cur (if rr_live rr' then m\<lparr>rm_h := rr' # rm_h m\<rparr> else m) = None \<and>
           rm_ok (if rr_live rr' then m\<lparr>rm_h := rr' # rm_h m\<rparr> else m) (mset (concat ls))"
        proof (cases "l = []")
          case True
          then show ?thesis using nx m l(1) by (auto simp: rd_next_def)
        next
          case False
          then have "rr_live rr'" "rd_ok rr' l" using nx by (auto simp: rd_next_def)
          then have "rm_ok (m\<lparr>rm_h := rr' # rm_h m\<rparr>) (mset (concat ls))" using conjunct1 [OF m] ls1 l(1)
            unfolding rm_ok_def by (intro exI [of _ "l # ls1"] exI [of _ "[]"]) simp
          then show ?thesis using m \<open>rr_live rr'\<close> by simp
        qed
      qed
      then show ?thesis using a None outcome_later [OF _ sp(1)] by simp
    qed
  qed
qed

lemma copy_merge_outcome:
  "rm_ok m R \<Longrightarrow>
     outcome s (copy_merge m f s) (\<lambda>x. \<exists>out. x = f @ enc_recs out \<and> mset out = R \<and> good_run out)"
proof (induction m f s arbitrary: R rule: copy_merge.induct)
  case (1 m f s)
  obtain r m' s1 where n: "rm_next m s = ((r, m'), s1)" by (metis prod.exhaust)
  note sp = rm_next_spec [OF 1(2) n]
  note e = copy_merge.simps [of m f s, unfolded n prod.case]
  show ?case
  proof (cases r)
    case (Inl x)
    then show ?thesis using sp by (auto simp: e intro: outcome_Inl)
  next
    case (Inr kv)
    have d: "delivers R kv m'" using sp Inr by blast
    show ?thesis
    proof (cases kv)
      case None
      then show ?thesis using Inr sp d by (auto simp: e delivers_def good_run_def intro!: outcome_Inr)
    next
      case (Some x)
      obtain R' where R: "R = add_mset x R'" "rm_ok m' R'" "fits x" "\<forall>y \<in># R'. bkey x \<le> bkey y"
        using d Some by (auto simp: delivers_def)
      have "outcome s1 (case writeRec x f s1 of (Inl err, s2) \<Rightarrow> (Inl err, s2) | (Inr f', s2) \<Rightarrow> copy_merge m' f' s2)
         (\<lambda>x. \<exists>out. x = f @ enc_recs out \<and> mset out = R \<and> good_run out)"
      proof (rule outcome_bind [OF writeRec_outcome])
        fix f' s2 assume w: "writeRec x f s1 = (Inr f', s2)" and f': "f' = f @ enc_rec x"
        have "outcome s2 (copy_merge m' f' s2) (\<lambda>x. \<exists>out. x = f' @ enc_recs out \<and> mset out = R' \<and> good_run out)"
          by (rule 1(1) [OF n [symmetric] refl Inr Some w [symmetric] refl R(2)])
        moreover have "\<exists>out. y = f @ enc_recs out \<and> mset out = R \<and> good_run out"
          if y: "\<exists>out. y = f' @ enc_recs out \<and> mset out = R' \<and> good_run out" for y
        proof -
          obtain out where o: "y = f' @ enc_recs out" "mset out = R'" "good_run out" using y by blast
          have "good_run (x # out)" using o R(3,4) by (auto simp: good_run_Cons)
          then show ?thesis using o f' R(1) by (intro exI [of _ "x # out"]) simp
        qed
        ultimately show "outcome s2 (copy_merge m' f' s2) (\<lambda>x. \<exists>out. x = f @ enc_recs out \<and> mset out = R \<and> good_run out)"
          by (auto simp: outcome_def)
      qed
      from outcome_later [OF this conjunct1 [OF sp]] show ?thesis by (simp add: e Inr Some)
    qed
  qed
qed

subsection \<open>Compaction\<close>

abbreviation runs_ok :: "bytes list \<Rightarrow> (bytes \<times> bytes) list list \<Rightarrow> bool" where
  "runs_ok \<equiv> list_all2 (\<lambda>f l. f = enc_recs l \<and> good_run l)"

definition holds_recs :: "(bytes \<times> bytes) multiset \<Rightarrow> bytes list \<Rightarrow> bool" where
  "holds_recs R runs \<longleftrightarrow> (\<exists>ls. runs_ok runs ls \<and> mset (concat ls) = R)"

lemma merge_group_outcome:
  assumes "holds_recs R grp"
  shows "outcome s (merge_group grp s) (\<lambda>f. holds_recs R [f])"
proof -
  obtain ls where ls: "runs_ok grp ls" "mset (concat ls) = R" using assms by (auto simp: holds_recs_def)
  show ?thesis unfolding merge_group_def
  proof (rule outcome_bind [OF newRecMerge_outcome [OF ls(1)]])
    fix m s1 assume m: "rm_cur m = None \<and> rm_ok m (mset (concat ls))"
    obtain e s2 where nf: "newRunFile s1 = (e, s2)" by fastforce
    show "outcome s1 (case newRunFile s1 of (Some err, s2) \<Rightarrow> (Inl err, s2)
       | (None, s2) \<Rightarrow> case copy_merge m [] s2 of (r, s3) \<Rightarrow> finish_run r s3) (\<lambda>f. holds_recs R [f])"
    proof (cases e)
      case (Some x)
      then show ?thesis using nf newRunFile_io [OF nf] by (auto intro: outcome_Inl)
    next
      case None
      obtain r s3 where c: "copy_merge m [] s2 = (r, s3)" by fastforce
      have "outcome s2 (r, s3) (\<lambda>f. holds_recs R [f])"
        using copy_merge_outcome [OF conjunct2 [OF m], of s2 "[]"] c ls(2)
        by (fastforce simp: outcome_def holds_recs_def list_all2_Cons1)
      then have "outcome s2 (finish_run r s3) (\<lambda>f. holds_recs R [f])" by (rule finish_run_outcome)
      then show ?thesis using nf None c outcome_later [OF _ newRunFile_io(1) [OF nf]] by simp
    qed
  qed
qed

lemma holds_recs_append: "holds_recs R a \<Longrightarrow> holds_recs S b \<Longrightarrow> holds_recs (R + S) (a @ b)"
proof -
  assume "holds_recs R a" "holds_recs S b"
  then obtain k l where "runs_ok a k" "mset (concat k) = R" "runs_ok b l" "mset (concat l) = S"
    by (auto simp: holds_recs_def)
  then show ?thesis unfolding holds_recs_def by (intro exI [of _ "k @ l"]) (simp add: list_all2_appendI)
qed

lemma holds_recs_split:
  assumes "holds_recs R runs"
  obtains A B where "R = A + B" "holds_recs A (take k runs)" "holds_recs B (drop k runs)"
proof -
  obtain ls where ls: "runs_ok runs ls" "mset (concat ls) = R" using assms by (auto simp: holds_recs_def)
  have "R = mset (concat (take k ls)) + mset (concat (drop k ls))"
    unfolding ls(2) [symmetric] by (metis append_take_drop_id concat_append mset_append)
  moreover have "runs_ok (take k runs) (take k ls)" "runs_ok (drop k runs) (drop k ls)"
    using ls(1) by (auto intro: list_all2_takeI list_all2_dropI)
  ultimately show thesis using that [of "mset (concat (take k ls))" "mset (concat (drop k ls))"]
    unfolding holds_recs_def by blast
qed

lemma compact_pass_outcome: "holds_recs R runs \<Longrightarrow> outcome s (compact_pass runs s) (holds_recs R)"
proof (induction runs s arbitrary: R rule: compact_pass.induct)
  case (1 runs s)
  show ?case
  proof (cases "runs = []")
    case True
    then show ?thesis using 1(2) by (subst compact_pass.simps) (auto intro: outcome_Inr)
  next
    case False
    let ?g = "take sorterFanIn runs"
    obtain A B where AB: "R = A + B" "holds_recs A ?g" "holds_recs B (drop sorterFanIn runs)"
      using holds_recs_split [OF 1(2)] by blast
    have g: "outcome s (if length ?g = 1 then (Inr (hd ?g), s) else merge_group ?g s) (\<lambda>f. holds_recs A [f])"
    proof (cases "length ?g = 1")
      case True
      then have "?g = [hd ?g]" by (metis length_0_conv length_Suc_conv list.sel(1) One_nat_def)
      then show ?thesis using AB(2) True by (auto intro!: outcome_Inr)
    qed (use merge_group_outcome [OF AB(2)] in auto)
    show ?thesis unfolding compact_pass.simps [of runs s] if_not_P [OF False] Let_def
    proof (rule outcome_bind [OF g])
      fix f s1 assume f: "(if length ?g = 1 then (Inr (hd ?g), s) else merge_group ?g s) = (Inr f, s1)" "holds_recs A [f]"
      show "outcome s1 (case compact_pass (drop sorterFanIn runs) s1 of (Inl err, s2) \<Rightarrow> (Inl err, s2)
          | (Inr next, s2) \<Rightarrow> (Inr (f # next), s2)) (holds_recs R)"
      proof (rule outcome_bind [OF 1(1) [OF False refl f(1) [symmetric] refl AB(3)]], rule outcome_Inr, simp)
        fix nx assume "holds_recs B nx"
        from holds_recs_append [OF f(2) this] show "holds_recs R (f # nx)" using AB(1) by simp
      qed
    qed
  qed
qed

lemma compact_outcome: "holds_recs R runs \<Longrightarrow> outcome s (compact runs s) (holds_recs R)"
proof (induction runs s rule: compact.induct)
  case (1 runs s)
  show ?case
  proof (cases "length runs > sorterFanIn")
    case True
    show ?thesis unfolding compact.simps [of runs s] if_P [OF True]
    proof (rule outcome_bind [OF compact_pass_outcome [OF 1(2)]])
      fix nx s1 assume "compact_pass runs s = (Inr nx, s1)" "holds_recs R nx"
      then show "outcome s1 (compact nx s1) (holds_recs R)" using 1(1) [OF True _ refl] by simp
    qed
  next
    case False
    then show ?thesis using 1(2) by (subst compact.simps) (auto intro: outcome_Inr)
  qed
qed

subsection \<open>The arena\<close>

definition buffered :: "Sorter \<Rightarrow> (bytes \<times> bytes) list" where
  "buffered s = map (rec_at (so_arena s)) (so_idx s)"

text \<open>The sorter holds the records \<open>R\<close>: in its run files and in its arena.\<close>

definition so_ok :: "(bytes \<times> bytes) multiset \<Rightarrow> Sorter \<Rightarrow> bool" where
  "so_ok R s \<longleftrightarrow> (\<exists>Q. holds_recs Q (so_runs s) \<and> R = Q + mset (buffered s)) \<and>
     (\<forall>kv \<in> set (buffered s). fits kv) \<and>
     (\<forall>r \<in> set (so_idx s). rf_off r + rf_klen r + rf_vlen r \<le> length (so_arena s)) \<and> so_err s = None"

lemma buffered_sortBuf: "mset (buffered (sortBuf s)) = mset (buffered s)" "set (buffered (sortBuf s)) = set (buffered s)"
  by (simp_all add: buffered_def sortBuf_def)

lemma sorted_sortBuf: "sorted (map bkey (buffered (sortBuf s)))"
proof -
  let ?lt = "\<lambda>a b. bytes_less (fst (rec_at (so_arena s) a)) (fst (rec_at (so_arena s) b))"
  have "sorted_wrt (\<lambda>a b. \<not> ?lt b a) (SliceStable ?lt (so_idx s))"
    by (rule sorted_SliceStable) (auto simp: bytes_less_def)
  then show ?thesis by (simp add: buffered_def sortBuf_def bytes_less_bkey sorted_wrt_map not_less)
qed

lemma so_ok_sortBuf: "so_ok R s \<Longrightarrow> so_ok R (sortBuf s)"
  using buffered_sortBuf [of s] unfolding so_ok_def by (simp add: sortBuf_def)

lemma io_step_buffered: "io_step s s' \<Longrightarrow> buffered s' = buffered s"
  by (simp add: io_step_def buffered_def)

lemma io_step_so_ok: "io_step s s' \<Longrightarrow> so_ok R s \<Longrightarrow> so_ok R s'"
  using io_step_buffered [of s s'] by (simp add: so_ok_def io_step_def)

definition flush_result :: "(bytes \<times> bytes) multiset \<Rightarrow> Sorter \<Rightarrow> error option \<times> Sorter \<Rightarrow> bool" where
  "flush_result R s es \<longleftrightarrow> (quiet s \<longrightarrow> fst es = None \<and> quiet (snd es)) \<and>
     (fst es = None \<longrightarrow> so_ok R (snd es) \<and> so_done (snd es) = so_done s \<and> so_idx (snd es) = [])"

lemma so_flush_spec:
  assumes ok: "so_ok R s"
  shows "flush_result R s (so_flush s)"
proof (cases "so_idx s = []")
  case True
  then show ?thesis using ok by (simp add: so_flush_def flush_result_def)
next
  case False
  let ?s = "sortBuf s"
  have q: "quiet ?s = quiet s" "so_done ?s = so_done s" by (simp_all add: sortBuf_def quiet_def)
  obtain e s1 where nf: "newRunFile ?s = (e, s1)" by fastforce
  note fl = so_flush_def [of s, unfolded if_not_P [OF False] Let_def nf prod.case]
  note io1 = newRunFile_io [OF nf]
  show ?thesis
  proof (cases e)
    case (Some x)
    then show ?thesis using io1(2) q by (auto simp: fl flush_result_def)
  next
    case None
    obtain r s2 where w: "write_recs (map (rec_at (so_arena s1)) (so_idx s1)) [] s1 = (r, s2)" by fastforce
    obtain r3 s3 where fr: "finish_run r s2 = (r3, s3)" by fastforce
    have "outcome s1 (r, s2) (\<lambda>f. f = enc_recs (buffered s1))"
      using write_recs_outcome [of s1 "buffered s1" "[]"] w unfolding buffered_def by simp
    then have "outcome s1 (finish_run r s2) (\<lambda>f. f = enc_recs (buffered s1))" by (rule finish_run_outcome)
    then have o: "io_step s1 s3" "quiet s1 \<Longrightarrow> \<not> isl r3" "\<And>f. r3 = Inr f \<Longrightarrow> f = enc_recs (buffered s1)"
      unfolding fr by (auto simp: outcome_def)
    have io: "io_step ?s s3" using io1(1) o(1) by (rule io_step_trans)
    show ?thesis
    proof (cases r3)
      case (Inl x)
      then show ?thesis using o(2) io_step_quiet [OF io1(1)] q by (auto simp: fl None w fr flush_result_def)
    next
      case (Inr f)
      have b: "buffered s1 = buffered ?s" "buffered s3 = buffered ?s" using io_step_buffered io1(1) io by auto
      have ok3: "so_ok R s3" using io io_step_so_ok so_ok_sortBuf [OF ok] by blast
      then obtain Q where Q: "holds_recs Q (so_runs s3)" "R = Q + mset (buffered s3)" "\<forall>kv \<in> set (buffered s3). fits kv"
        "so_err s3 = None" by (auto simp: so_ok_def)
      have "good_run (buffered ?s)" using sorted_sortBuf [of s] Q(3) b by (simp add: good_run_def)
      then have "holds_recs (mset (buffered s3)) [f]" using o(3) [OF Inr] b by (auto simp: holds_recs_def list_all2_Cons1)
      from holds_recs_append [OF Q(1) this] have "so_ok R (s3\<lparr>so_runs := so_runs s3 @ [f], so_arena := [], so_idx := []\<rparr>)"
        using Q by (auto simp: so_ok_def buffered_def)
      moreover have "so_done s3 = so_done s" using io q by (simp add: io_step_def)
      moreover have "quiet (s3\<lparr>so_runs := so_runs s3 @ [f], so_arena := [], so_idx := []\<rparr>)" if "quiet s"
        using io_step_quiet [OF io] that q by (simp add: quiet_def)
      ultimately show ?thesis by (simp add: fl None w fr Inr flush_result_def)
    qed
  qed
qed

lemma rec_at_append: "rf_off r + rf_klen r + rf_vlen r \<le> length a \<Longrightarrow> rec_at (a @ b) r = rec_at a r"
  by (simp add: rec_at_def)

lemma so_Add_spec:
  assumes ok: "so_ok R s" "\<not> so_done s" "fits (k, v)"
  shows "(quiet s \<longrightarrow> fst (so_Add k v s) = None \<and> quiet (snd (so_Add k v s))) \<and>
     (fst (so_Add k v s) = None \<longrightarrow> so_ok (add_mset (k, v) R) (snd (so_Add k v s)) \<and> \<not> so_done (snd (so_Add k v s)))"
proof -
  let ?r = "\<lparr>rf_off = length (so_arena s), rf_klen = length k, rf_vlen = length v\<rparr>"
  let ?s = "s\<lparr>so_idx := so_idx s @ [?r], so_arena := so_arena s @ k @ v, so_n := Suc (so_n s)\<rparr>"
  have err: "so_err s = None" using ok by (simp add: so_ok_def)
  have "buffered ?s = buffered s @ [(k, v)]"
    using ok(1) by (auto simp: buffered_def so_ok_def rec_at_append) (simp add: rec_at_def)
  then have ok1: "so_ok (add_mset (k, v) R) ?s" using ok unfolding so_ok_def by auto
  have q: "quiet ?s = quiet s" "so_done ?s = so_done s" by (simp_all add: quiet_def)
  obtain e s2 where f: "so_flush ?s = (e, s2)" by fastforce
  have fr: "flush_result (add_mset (k, v) R) ?s (e, s2)" using so_flush_spec [OF ok1] f by simp
  have a: "so_Add k v s = (if length (so_arena ?s) + length (so_idx ?s) * 24 \<ge> so_memBytes ?s
      then (case e of Some err \<Rightarrow> (Some err, s2\<lparr>so_err := Some err\<rparr>) | None \<Rightarrow> (None, s2)) else (None, ?s))"
    unfolding so_Add_def using err ok(2) f by (simp add: Let_def)
  show ?thesis
  proof (cases "length (so_arena ?s) + length (so_idx ?s) * 24 \<ge> so_memBytes ?s")
    case True
    then show ?thesis using fr q ok(2) unfolding a if_P [OF True] by (cases e) (simp_all add: flush_result_def)
  next
    case False
    then show ?thesis using ok1 q ok(2) unfolding a if_not_P [OF False] by simp
  qed
qed

subsection \<open>Adding, iterating, draining\<close>

fun add_all :: "(bytes \<times> bytes) list \<Rightarrow> Sorter \<Rightarrow> error option \<times> Sorter" where
  "add_all [] s = (None, s)"
| "add_all (kv # kvs) s =
     (case so_Add (fst kv) (snd kv) s of (Some e, s1) \<Rightarrow> (Some e, s1) | (None, s1) \<Rightarrow> add_all kvs s1)"

definition sort_all :: "(bytes \<times> bytes) list \<Rightarrow> Sorter \<Rightarrow> error + (bytes \<times> bytes) list" where
  "sort_all kvs s =
     (case add_all kvs s of
        (Some e, _) \<Rightarrow> Inl e
      | (None, s1) \<Rightarrow>
          (case so_Iter s1 of
             (Inl e, _) \<Rightarrow> Inl e
           | (Inr it, s2) \<Rightarrow> (case drain it s2 of ((_, Some e), _) \<Rightarrow> Inl e | ((out, None), _) \<Rightarrow> Inr out)))"

lemma add_all_spec:
  assumes "so_ok R s" "\<not> so_done s" "\<forall>kv \<in> set kvs. fits kv"
  shows "(quiet s \<longrightarrow> fst (add_all kvs s) = None \<and> quiet (snd (add_all kvs s))) \<and>
     (fst (add_all kvs s) = None \<longrightarrow> so_ok (mset kvs + R) (snd (add_all kvs s)))"
  using assms
proof (induction kvs arbitrary: s R)
  case (Cons kv kvs)
  obtain e s1 where a: "so_Add (fst kv) (snd kv) s = (e, s1)" by fastforce
  have "fits (fst kv, snd kv)" using Cons(4) by simp
  note sp = so_Add_spec [OF Cons(2,3) this, unfolded a fst_conv snd_conv]
  show ?case
  proof (cases e)
    case None
    then have "so_ok (add_mset kv R) s1" "\<not> so_done s1" using sp by auto
    from Cons(1) [OF this] Cons(4) sp None a show ?thesis by simp
  qed (use sp a in simp)
qed simp

text \<open>An iterator that will deliver the records \<open>R\<close>.\<close>

definition it_ok :: "(bytes \<times> bytes) multiset \<Rightarrow> iter \<Rightarrow> Sorter \<Rightarrow> bool" where
  "it_ok R it s \<longleftrightarrow>
     (case it of
        MemIter i \<Rightarrow> R = mset (drop i (buffered s)) \<and> sorted (map bkey (buffered s))
      | MergeIter m \<Rightarrow> rm_ok m R)"

lemma quiet_upd [simp]:
  "quiet (s\<lparr>so_done := d\<rparr>) = quiet s" "quiet (s\<lparr>so_err := e\<rparr>) = quiet s" "quiet (s\<lparr>so_runs := r\<rparr>) = quiet s"
  "quiet (sortBuf s) = quiet s"
  by (simp_all add: quiet_def sortBuf_def)

lemma so_Iter_spec:
  assumes ok: "so_ok R s0" and i: "so_Iter s0 = (r, s')"
  shows "(quiet s0 \<longrightarrow> \<not> isl r \<and> quiet s') \<and> (\<forall>it. r = Inr it \<longrightarrow> it_ok R it s')"
proof (cases "so_runs s0 = []")
  case True
  let ?s = "s0\<lparr>so_done := True\<rparr>"
  have "so_err s0 = None" using ok by (simp add: so_ok_def)
  then have r: "r = Inr (MemIter 0)" "s' = sortBuf ?s" using i True by (simp_all add: so_Iter_def Let_def)
  have b: "buffered ?s = buffered s0" by (simp add: buffered_def)
  have "R = mset (buffered s0)" using ok True by (auto simp: so_ok_def holds_recs_def)
  then show ?thesis using sorted_sortBuf [of ?s] buffered_sortBuf(1) [of ?s] r b by (simp add: it_ok_def)
next
  case False
  let ?s = "s0\<lparr>so_done := True\<rparr>"
  have err: "so_err s0 = None" using ok by (simp add: so_ok_def)
  have "so_ok R ?s" using ok unfolding so_ok_def by (simp add: buffered_def)
  obtain e s1 where f: "so_flush ?s = (e, s1)" by fastforce
  have fr: "flush_result R ?s (e, s1)" using so_flush_spec [OF \<open>so_ok R ?s\<close>] f by simp
  have rn: "so_runs ?s \<noteq> []" using False by simp
  note i1 = i [unfolded so_Iter_def err option.case Let_def if_not_P [OF rn] f prod.case]
  show ?thesis
  proof (cases e)
    case (Some x)
    then show ?thesis using fr i1 by (auto simp: flush_result_def so_fail_def)
  next
    case None
    note i2 = i1 [unfolded None option.case]
    have ok1: "so_ok R s1" "so_idx s1 = []" "quiet s0 \<Longrightarrow> quiet s1" using fr None by (auto simp: flush_result_def)
    then have h: "holds_recs R (so_runs s1)" by (auto simp: so_ok_def buffered_def)
    obtain c s2 where c: "compact (so_runs s1) s1 = (c, s2)" by fastforce
    note co = compact_outcome [OF h, of s1, unfolded c outcome_def fst_conv snd_conv]
    note i3 = i2 [unfolded c prod.case]
    show ?thesis
    proof (cases c)
      case (Inl x)
      then show ?thesis using co i3 ok1(3) by (auto simp: so_fail_def)
    next
      case (Inr runs)
      let ?s3 = "s2\<lparr>so_runs := runs\<rparr>"
      obtain ls where ls: "runs_ok runs ls" "mset (concat ls) = R" using co Inr by (auto simp: holds_recs_def)
      obtain m s4 where m: "newRecMerge runs ?s3 = (m, s4)" by fastforce
      note mo = newRecMerge_outcome [OF ls(1), of ?s3, unfolded m outcome_def fst_conv snd_conv]
      have q: "quiet s0 \<Longrightarrow> quiet ?s3" using ok1(3) io_step_quiet co by auto
      have i4: "(r, s') = (case m of Inl e \<Rightarrow> so_fail e s4 | Inr m \<Rightarrow> (Inr (MergeIter m), s4))"
        using i3 m unfolding Inr by simp
      show ?thesis
      proof (cases m)
        case (Inl x)
        then show ?thesis using mo i4 q by (auto simp: so_fail_def)
      next
        case Inr
        then show ?thesis using mo i4 q io_step_quiet [of ?s3 s4] ls(2) by (auto simp: it_ok_def)
      qed
    qed
  qed
qed

lemma so_Next_spec:
  assumes "it_ok R it s" "so_Next it s = ((r, it'), s')"
  shows "(quiet s \<longrightarrow> \<not> isl r \<and> quiet s') \<and> (r = Inr None \<longrightarrow> R = {#}) \<and>
     (\<forall>kv. r = Inr (Some kv) \<longrightarrow> (\<exists>R'. R = add_mset kv R' \<and> it_ok R' it' s' \<and> (\<forall>y \<in># R'. bkey kv \<le> bkey y)))"
proof (cases it)
  case (MergeIter m)
  obtain m' where n: "rm_next m s = ((r, m'), s')" "it' = MergeIter m'"
    using assms(2) MergeIter by (auto split: prod.splits)
  have "rm_ok m R" using assms(1) MergeIter by (simp add: it_ok_def)
  from rm_next_spec [OF this n(1)] show ?thesis
    by (auto simp: delivers_def it_ok_def n(2) dest: io_step_quiet)
next
  case (MemIter i)
  have l: "length (buffered s) = length (so_idx s)" by (simp add: buffered_def)
  have R: "R = mset (drop i (buffered s))" "sorted (map bkey (buffered s))" using assms(1) MemIter by (simp_all add: it_ok_def)
  show ?thesis
  proof (cases "i \<ge> length (so_idx s)")
    case True
    then show ?thesis using assms(2) MemIter R(1) l by auto
  next
    case False
    let ?kv = "rec_at (so_arena s) (so_idx s ! i)"
    have d: "drop i (buffered s) = ?kv # drop (Suc i) (buffered s)"
      using False l Cons_nth_drop_Suc [of i "buffered s"] by (simp add: buffered_def)
    have "sorted (map bkey (drop i (buffered s)))" using R(2) by (simp add: drop_map [symmetric] sorted_wrt_drop)
    then have "\<forall>y \<in># mset (drop (Suc i) (buffered s)). bkey ?kv \<le> bkey y" unfolding d by simp
    moreover have "r = Inr (Some ?kv)" "it' = MemIter (Suc i)" "s' = s" using assms(2) MemIter False by auto
    ultimately show ?thesis using R d by (auto simp: it_ok_def)
  qed
qed

lemma drain_spec:
  "it_ok R it s \<Longrightarrow> drain it s = ((out, e), s') \<Longrightarrow>
     (quiet s \<longrightarrow> e = None) \<and> (e = None \<longrightarrow> mset out = R \<and> sorted (map bkey out))"
proof (induction it s arbitrary: R out e s' rule: drain.induct)
  case (1 it s)
  obtain r it' s1 where n: "so_Next it s = ((r, it'), s1)" by (metis prod.exhaust)
  note sp = so_Next_spec [OF 1(2) n]
  note d = 1(3) [unfolded drain.simps [of it s] n prod.case]
  show ?case
  proof (cases r)
    case (Inl x)
    then show ?thesis using d sp by auto
  next
    case (Inr o')
    show ?thesis
    proof (cases o')
      case None
      then show ?thesis using d sp Inr by auto
    next
      case (Some kv)
      obtain R' where R: "R = add_mset kv R'" "it_ok R' it' s1" "\<forall>y \<in># R'. bkey kv \<le> bkey y" using sp Inr Some by blast
      obtain out' e' s2 where dr: "drain it' s1 = ((out', e'), s2)" by (metis prod.exhaust)
      have o: "out = kv # out'" "e = e'" using d [unfolded Inr Some sum.case option.case dr prod.case] by auto
      note ih = 1(1) [OF n [symmetric] refl Inr Some R(2) dr]
      have "\<forall>y \<in> set out'. bkey kv \<le> bkey y" if "e' = None" using ih that R(3) by (metis set_mset_mset)
      then show ?thesis using ih sp Inr o R(1) by auto
    qed
  qed
qed

lemma NewSorter_ok: "so_ok {#} (NewSorter m faults)" "\<not> so_done (NewSorter m faults)" "so_faults (NewSorter m faults) = faults"
  by (simp_all add: so_ok_def NewSorter_def holds_recs_def buffered_def)

lemma sort_all_spec:
  assumes "so_ok {#} s" "\<not> so_done s" "\<forall>kv \<in> set kvs. fits kv"
  shows "(quiet s \<longrightarrow> \<not> isl (sort_all kvs s)) \<and>
     (\<forall>out. sort_all kvs s = Inr out \<longrightarrow> mset out = mset kvs \<and> sorted (map bkey out))"
proof -
  obtain e s1 where a: "add_all kvs s = (e, s1)" by fastforce
  note sp = add_all_spec [OF assms, unfolded a fst_conv snd_conv]
  show ?thesis
  proof (cases e)
    case None
    then have ok: "so_ok (mset kvs) s1" using sp by simp
    obtain r s2 where i: "so_Iter s1 = (r, s2)" by fastforce
    note ispec = so_Iter_spec [OF ok i]
    show ?thesis
    proof (cases r)
      case (Inr it)
      obtain out e2 s3 where d: "drain it s2 = ((out, e2), s3)" by (metis prod.exhaust)
      have "it_ok (mset kvs) it s2" using ispec Inr by blast
      from drain_spec [OF this d] show ?thesis using sp ispec None Inr a i d
        by (cases e2) (auto simp: sort_all_def)
    qed (use sp ispec None a i in \<open>auto simp: sort_all_def\<close>)
  qed (use sp a in \<open>auto simp: sort_all_def\<close>)
qed

text \<open>
  C16. The external sorter. Records whose key and value are at most 1 GiB long are added to a new sorter
  with any memory limit and drained through its iterator, while any of its file operations may fail. When no
  call reports an error the records that come out are a permutation of those added, in key order; and
  when no file operation fails, no call reports an error.
\<close>

theorem sorter_sorts:
  assumes "\<forall>kv \<in> set kvs. length (fst kv) \<le> maxRecordBytes \<and> length (snd kv) \<le> maxRecordBytes"
  shows "(\<forall>out. sort_all kvs (NewSorter mem faults) = Inr out \<longrightarrow>
            mset out = mset kvs \<and> sorted_wrt (\<lambda>a b. \<not> bytes_less (fst b) (fst a)) out) \<and>
         (set faults \<subseteq> {None} \<longrightarrow> (\<exists>out. sort_all kvs (NewSorter mem faults) = Inr out))"
proof -
  have "\<forall>kv \<in> set kvs. fits kv" using assms by (simp add: fits_def)
  note sp = sort_all_spec [OF NewSorter_ok(1,2) this, of mem faults]
  moreover have "quiet (NewSorter mem faults) \<longleftrightarrow> set faults \<subseteq> {None}" by (simp add: quiet_def NewSorter_ok)
  ultimately show ?thesis
    by (auto simp: bytes_less_bkey not_less sorted_wrt_map isl_def split: sum.splits) (metis sum.exhaust)
qed

theorem sorter_sorts_witness:
  "\<exists>out. sort_all [([2, 1], [7]), ([1], [8, 9]), ([2], [])] (NewSorter 40 []) = Inr out \<and>
     mset out = mset [([2, 1], [7]), ([1], [8, 9]), ([2], [])] \<and> sorted_wrt (\<lambda>a b. \<not> bytes_less (fst b) (fst a)) out"
  using sorter_sorts [of "[([2, 1], [7]), ([1], [8, 9]), ([2], [])]" 40 "[]"] by (auto simp: maxRecordBytes_def)

end
