(* ===== verification/Chunker.thy ===== *)
theory Chunker
  imports Prelude
begin

text \<open>
  \<^verbatim>\<open>internal/backup/chunker/fastcdc.go\<close>: the content-defined splitter. The gear table, which
  \<^verbatim>\<open>init\<close> draws from \<^verbatim>\<open>math/rand\<close> with a fixed seed, is a parameter \<open>gear\<close>: every theorem holds for
  every table. The working buffer of \<^verbatim>\<open>Iter\<close> is kept as the number \<open>pos\<close> of consumed bytes and the
  list \<open>live\<close> of unconsumed ones, so \<^verbatim>\<open>len(buf)\<close> is \<open>pos + length live\<close>; the consumed bytes are never
  read again. A reader is the bytes it has left and how it ends: with end of file or with an error.
  The consumer's early stop only cuts the produced sequence short, so the model yields all of it.
\<close>

unbundle bit_operations_syntax

subsection \<open>The chunker and its parameters\<close>

record Chunker =
  ck_min :: nat
  ck_avg :: nat
  ck_max :: nat
  ck_maskTight :: "32 word"
  ck_maskLoose :: "32 word"

definition DefaultMinSize :: int where "DefaultMinSize = 4 * 1024"
definition DefaultAvgSize :: int where "DefaultAvgSize = 64 * 1024"
definition DefaultMaxSize :: int where "DefaultMaxSize = 256 * 1024"

text \<open>The loop \<^verbatim>\<open>for v >>= 1; v != 0; v >>= 1\<close> of \<open>log2Floor\<close>, entered with \<open>v\<close> not yet halved.\<close>

fun log2_loop :: "nat \<Rightarrow> nat \<Rightarrow> nat" where
  "log2_loop v out = (if v div 2 = 0 then out else log2_loop (v div 2) (Suc out))"

declare log2_loop.simps [simp del]

definition log2Floor :: "nat \<Rightarrow> nat" where
  "log2Floor v = (if v = 0 then 0 else log2_loop v 0)"

definition bitsToMask :: "int \<Rightarrow> 32 word" where
  "bitsToMask bits =
     (if bits \<le> 0 then 0 else if bits \<ge> 32 then NOT 0 else push_bit (nat bits) 1 - 1)"

text \<open>\<open>None\<close> is the panic on invalid bounds.\<close>

definition NewWithParams :: "int \<Rightarrow> int \<Rightarrow> int \<Rightarrow> Chunker option" where
  "NewWithParams mn av mx =
     (if mn \<le> 0 \<or> av < mn \<or> mx < av then None
      else let bits = int (log2Floor (nat av))
           in Some \<lparr>ck_min = nat mn, ck_avg = nat av, ck_max = nat mx,
                    ck_maskTight = bitsToMask (bits + 2), ck_maskLoose = bitsToMask (bits - 2)\<rparr>)"

definition New :: "Chunker option" where
  "New = NewWithParams DefaultMinSize DefaultAvgSize DefaultMaxSize"

subsection \<open>findBoundary\<close>

text \<open>
  One of the two scanning loops, from index \<open>i\<close> up to \<open>e\<close>: the cut position if the hash hits the
  mask, and the index and hash the loop was left with.
\<close>

function gear_loop :: "(8 word \<Rightarrow> 32 word) \<Rightarrow> 32 word \<Rightarrow> bytes \<Rightarrow> nat \<Rightarrow> nat \<Rightarrow> 32 word \<Rightarrow>
    nat option \<times> nat \<times> 32 word" where
  "gear_loop gear msk buf e i h =
     (if i < e then
        (let h' = push_bit 1 h + gear (buf ! i) in
         if h' AND msk = 0 then (Some (i + 1), i, h') else gear_loop gear msk buf e (i + 1) h')
      else (None, i, h))"
  by pat_completeness auto
termination
  by (relation "measure (\<lambda>(gear, msk, buf, e, i, h). e - i)") auto

declare gear_loop.simps [simp del]

definition findBoundary :: "(8 word \<Rightarrow> 32 word) \<Rightarrow> Chunker \<Rightarrow> bytes \<Rightarrow> nat" where
  "findBoundary gear c buf =
     (let n = length buf in
      if n \<le> ck_min c then n
      else let avgEnd = (if ck_avg c > n then n else ck_avg c) in
        case gear_loop gear (ck_maskTight c) buf avgEnd (ck_min c) 0 of
          (Some b, _, _) \<Rightarrow> b
        | (None, i, h) \<Rightarrow>
            (case gear_loop gear (ck_maskLoose c) buf n i h of
               (Some b, _, _) \<Rightarrow> b
             | (None, _, _) \<Rightarrow> n))"

subsection \<open>Readers\<close>

text \<open>
  \<^verbatim>\<open>io.ReadFull\<close> into a slice of \<open>k\<close> bytes: the bytes and the error. A reader that ends (\<open>rd_err\<close> is \<open>None\<close>)
  reports \<^verbatim>\<open>io.EOF\<close>; \<^verbatim>\<open>io.ReadAtLeast\<close> turns exactly that error into \<^verbatim>\<open>io.ErrUnexpectedEOF\<close> once it has read
  something, and hands every other error through.
\<close>

definition ReadFull :: "error reader \<Rightarrow> nat \<Rightarrow> bytes \<times> error option \<times> error reader" where
  "ReadFull r k =
     (if k \<le> length (rd_data r) then (take k (rd_data r), None, r\<lparr>rd_data := drop k (rd_data r)\<rparr>)
      else
        let err = (case rd_err r of None \<Rightarrow> Sentinel IoEOF | Some e \<Rightarrow> e);
            err' = (if rd_data r \<noteq> [] \<and> err = Sentinel IoEOF then Sentinel IoErrUnexpectedEOF else err)
        in (rd_data r, Some err', r\<lparr>rd_data := []\<rparr>))"

subsection \<open>Iter\<close>

record Chunk =
  ch_Data :: bytes
  ch_Offset :: nat

text \<open>
  The refill at the top of the loop body: compact when the free tail is below half of the buffer
  and something was consumed, then fill the tail. An error that is \<^verbatim>\<open>io.EOF\<close> or \<^verbatim>\<open>io.ErrUnexpectedEOF\<close>
  or wraps one of them ends the input. The result is the new \<open>(pos, live, eof)\<close>, or the read error.
\<close>

definition ends_input :: "error \<Rightarrow> bool" where
  "ends_input err \<longleftrightarrow> is_err err IoEOF \<or> is_err err IoErrUnexpectedEOF"

definition refill :: "Chunker \<Rightarrow> error reader \<Rightarrow> nat \<Rightarrow> bytes \<Rightarrow> bool \<Rightarrow>
    (error + nat \<times> bytes \<times> bool) \<times> error reader" where
  "refill c r pos live eof =
     (if eof then (Inr (pos, live, eof), r)
      else
        let free = ck_max c - (pos + length live);
            pos' = (if free < ck_max c div 2 then 0 else pos)
        in case ReadFull r (ck_max c - (pos' + length live)) of
             (d, None, r') \<Rightarrow> (Inr (pos', live @ d, False), r')
           | (d, Some err, r') \<Rightarrow>
               if ends_input err then (Inr (pos', live @ d, True), r') else (Inl err, r'))"

lemma refill_measure:
  "refill c r pos live eof = (Inr (pos', live', eof'), r') \<Longrightarrow>
     length live' + length (rd_data r') = length live + length (rd_data r)"
  by (auto simp: refill_def ReadFull_def Let_def split: if_splits option.splits prod.splits)

lemma gear_loop_bounds:
  "gear_loop gear msk buf e i h = (r, j, h') \<Longrightarrow>
     (case r of Some b \<Rightarrow> i < b \<and> b \<le> e | None \<Rightarrow> j = max i e)"
  by (induction gear msk buf e i h rule: gear_loop.induct)
    (subst (asm) gear_loop.simps, auto simp: Let_def split: if_splits option.splits)

lemma findBoundary_le: "findBoundary gear c buf \<le> length buf"
  by (auto simp: findBoundary_def Let_def split: prod.splits option.splits
      dest!: gear_loop_bounds)

lemma findBoundary_pos: "buf \<noteq> [] \<Longrightarrow> 0 < findBoundary gear c buf"
  by (auto simp: findBoundary_def Let_def split: prod.splits option.splits
      dest!: gear_loop_bounds)

lemma findBoundary_min: "ck_min c \<le> length buf \<Longrightarrow> ck_min c \<le> findBoundary gear c buf"
  by (auto simp: findBoundary_def Let_def split: prod.splits option.splits
      dest!: gear_loop_bounds)

function Iter_loop :: "(8 word \<Rightarrow> 32 word) \<Rightarrow> Chunker \<Rightarrow> error reader \<Rightarrow> nat \<Rightarrow> bytes \<Rightarrow> nat \<Rightarrow> bool \<Rightarrow>
    Chunk list \<times> error option" where
  "Iter_loop gear c r pos live offset eof =
     (case refill c r pos live eof of
        (Inl e, _) \<Rightarrow> ([], Some e)
      | (Inr (pos', live', eof'), r') \<Rightarrow>
          if live' = [] then ([], None)
          else if eof' \<and> length live' \<le> ck_min c
          then ([\<lparr>ch_Data = live', ch_Offset = offset\<rparr>], None)
          else
            let b = findBoundary gear c live';
                boundary = (if b > length live' then length live' else b)
            in case Iter_loop gear c r' (pos' + boundary) (drop boundary live')
                      (offset + boundary) eof' of
                 (rest, e) \<Rightarrow> (\<lparr>ch_Data = take boundary live', ch_Offset = offset\<rparr> # rest, e))"
  by pat_completeness auto
termination
proof (relation "measure (\<lambda>(gear, c, r, pos, live, offset, eof). length live + length (rd_data r))",
    goal_cases)
  case (2 gear c r pos live offset eof x r' t pos' t' live' eof' b boundary)
  then show ?case
    using refill_measure [of c r pos live eof pos' live' eof' r']
      findBoundary_pos [of live' gear c] findBoundary_le [of gear c live']
    by (cases live') auto
qed simp

declare Iter_loop.simps [simp del]

definition Iter :: "(8 word \<Rightarrow> 32 word) \<Rightarrow> Chunker \<Rightarrow> error reader \<Rightarrow> Chunk list \<times> error option" where
  "Iter gear c r = Iter_loop gear c r 0 [] 0 False"

definition IterCopying :: "(8 word \<Rightarrow> 32 word) \<Rightarrow> Chunker \<Rightarrow> error reader \<Rightarrow> Chunk list \<times> error option" where
  "IterCopying gear c r =
     (case Iter gear c r of
        (cs, e) \<Rightarrow> (map (\<lambda>ck. \<lparr>ch_Data = ch_Data ck, ch_Offset = ch_Offset ck\<rparr>) cs, e))"

subsection \<open>Specification: cutting a list\<close>

text \<open>
  The reference splitter has no buffer and no reader: it looks at the next \<open>ck_max\<close> bytes of what
  is left and cuts where \<open>findBoundary\<close> says.
\<close>

function cuts :: "(8 word \<Rightarrow> 32 word) \<Rightarrow> Chunker \<Rightarrow> nat \<Rightarrow> bytes \<Rightarrow> Chunk list" where
  "cuts gear c off bs =
     (if bs = [] \<or> ck_max c = 0 then []
      else let b = findBoundary gear c (take (ck_max c) bs)
           in \<lparr>ch_Data = take b bs, ch_Offset = off\<rparr> # cuts gear c (off + b) (drop b bs))"
  by pat_completeness auto
termination
proof (relation "measure (\<lambda>(gear, c, off, bs). length bs)", goal_cases)
  case (2 gear c off bs b)
  then show ?case using findBoundary_pos [of "take (ck_max c) bs" gear c] by auto
qed simp

declare cuts.simps [simp del]

lemma cuts_Nil [simp]: "cuts gear c off [] = []"
  by (simp add: cuts.simps)

definition valid_chunker :: "Chunker \<Rightarrow> bool" where
  "valid_chunker c \<longleftrightarrow> 0 < ck_min c \<and> ck_min c \<le> ck_avg c \<and> ck_avg c \<le> ck_max c"

lemma NewWithParams_valid: "NewWithParams mn av mx = Some c \<Longrightarrow> valid_chunker c \<and> int (ck_max c) = mx"
  by (auto simp: NewWithParams_def valid_chunker_def Let_def split: if_splits)

definition cut_at :: "(8 word \<Rightarrow> 32 word) \<Rightarrow> Chunker \<Rightarrow> bytes \<Rightarrow> nat" where
  "cut_at gear c bs = findBoundary gear c (take (ck_max c) bs)"

lemma cut_bounds:
  assumes "bs \<noteq> []" "valid_chunker c"
  shows "0 < cut_at gear c bs" "cut_at gear c bs \<le> ck_max c" "cut_at gear c bs \<le> length bs"
    "ck_min c \<le> cut_at gear c bs \<or> cut_at gear c bs = length bs"
proof -
  have m: "0 < ck_max c" "ck_min c \<le> ck_max c" using assms(2) by (auto simp: valid_chunker_def)
  show "0 < cut_at gear c bs"
    unfolding cut_at_def using m assms(1) by (intro findBoundary_pos) auto
  show "cut_at gear c bs \<le> ck_max c" "cut_at gear c bs \<le> length bs"
    using findBoundary_le [of gear c "take (ck_max c) bs"] by (auto simp: cut_at_def)
  show "ck_min c \<le> cut_at gear c bs \<or> cut_at gear c bs = length bs"
  proof (cases "ck_min c \<le> length bs")
    case True
    then show ?thesis using m findBoundary_min [of c "take (ck_max c) bs"] by (simp add: cut_at_def)
  next
    case False
    then show ?thesis using m by (simp add: cut_at_def findBoundary_def)
  qed
qed

lemma cuts_step:
  "bs \<noteq> [] \<Longrightarrow> valid_chunker c \<Longrightarrow> cuts gear c off bs =
     \<lparr>ch_Data = take (cut_at gear c bs) bs, ch_Offset = off\<rparr>
       # cuts gear c (off + cut_at gear c bs) (drop (cut_at gear c bs) bs)"
  by (subst cuts.simps) (auto simp: valid_chunker_def cut_at_def Let_def)

lemma cuts_induct [consumes 1, case_names Nil Cut]:
  assumes "valid_chunker c" and "\<And>off. P off []"
    and "\<And>off bs. bs \<noteq> [] \<Longrightarrow> P (off + cut_at gear c bs) (drop (cut_at gear c bs) bs) \<Longrightarrow> P off bs"
  shows "P off bs"
proof (induction "length bs" arbitrary: off bs rule: less_induct)
  case less
  show ?case
  proof (cases "bs = []")
    case False
    then have "length (drop (cut_at gear c bs) bs) < length bs"
      using cut_bounds(1) [OF False assms(1), of gear] by simp
    then show ?thesis using less assms(3) [OF False] by blast
  qed (simp add: assms(2))
qed

subsection \<open>The buffered loop computes the cuts\<close>

text \<open>
  Between two iterations the buffer is either fresh, or full with a consumed front; after the end
  of the input the reader has nothing left.
\<close>

definition iter_inv :: "Chunker \<Rightarrow> error reader \<Rightarrow> nat \<Rightarrow> bytes \<Rightarrow> bool \<Rightarrow> bool" where
  "iter_inv c r pos live eof \<longleftrightarrow> pos + length live \<le> ck_max c \<and>
     (if eof then rd_data r = []
      else (pos = 0 \<and> live = []) \<or> (0 < pos \<and> pos + length live = ck_max c))"

lemma iter_inv_pos: "2 \<le> ck_max c \<Longrightarrow> iter_inv c r pos live False \<Longrightarrow>
    (if ck_max c - (pos + length live) < ck_max c div 2 then 0 else pos) = (0::nat)"
  by (auto simp: iter_inv_def)

lemma refill_ok:
  assumes "2 \<le> ck_max c" "iter_inv c r pos live eof" "refill c r pos live eof = (Inr (pos', live', eof'), r')"
  shows "live' @ rd_data r' = live @ rd_data r" "live' = take (ck_max c) (live @ rd_data r)"
    "rd_err r' = rd_err r"
    "if eof' then rd_data r' = [] \<and> pos' + length live' \<le> ck_max c else pos' = 0 \<and> length live' = ck_max c"
  using assms iter_inv_pos [OF assms(1), of r pos live]
  by (auto simp: refill_def ReadFull_def iter_inv_def Let_def split: if_splits option.splits)

lemma ends_input_simps [simp]: "ends_input (Sentinel IoEOF)" "ends_input (Sentinel IoErrUnexpectedEOF)"
  by (simp_all add: ends_input_def)

lemma refill_fails:
  assumes "2 \<le> ck_max c" "iter_inv c r pos live eof" "refill c r pos live eof = (Inl e, r')"
  shows "rd_err r = Some e" "\<not> ends_input e" "\<not> eof"
  using assms
  by (auto simp: refill_def ReadFull_def Let_def split: if_splits option.splits)

text \<open>How a reader ends that \<^verbatim>\<open>Iter\<close> takes for a complete one.\<close>

definition clean_end :: "error reader \<Rightarrow> bool" where
  "clean_end r \<longleftrightarrow> (\<forall>e. rd_err r = Some e \<longrightarrow> ends_input e)"

lemma clean_end_None: "rd_err r = None \<Longrightarrow> clean_end r"
  by (simp add: clean_end_def)

lemma clean_end_cong: "rd_err r' = rd_err r \<Longrightarrow> clean_end r' = clean_end r"
  by (simp add: clean_end_def)

lemma iter_inv_next:
  assumes "if eof' then rd_data r' = [] \<and> pos' + length live' \<le> ck_max c else pos' = 0 \<and> length live' = ck_max c"
    and "0 < b" "b \<le> length live'"
  shows "iter_inv c r' (pos' + b) (drop b live') eof'"
  using assms by (auto simp: iter_inv_def split: if_splits)

lemma Iter_loop_step:
  "refill c r pos live eof = (Inr (pos', live', eof'), r') \<Longrightarrow>
   Iter_loop gear c r pos live off eof =
     (if live' = [] then ([], None)
      else if eof' \<and> length live' \<le> ck_min c then ([\<lparr>ch_Data = live', ch_Offset = off\<rparr>], None)
      else case Iter_loop gear c r' (pos' + findBoundary gear c live')
             (drop (findBoundary gear c live') live') (off + findBoundary gear c live') eof' of
             (rest, e) \<Rightarrow>
               (\<lparr>ch_Data = take (findBoundary gear c live') live', ch_Offset = off\<rparr> # rest, e))"
  by (subst Iter_loop.simps) (simp add: Let_def findBoundary_le leD)

lemma Iter_loop_cuts:
  assumes "2 \<le> ck_max c" "valid_chunker c" "iter_inv c r pos live eof" "clean_end r"
  shows "Iter_loop gear c r pos live off eof = (cuts gear c off (live @ rd_data r), None)"
  using assms
proof (induction gear c r pos live off eof rule: Iter_loop.induct)
  case (1 gear c r pos live off eof)
  let ?bs = "live @ rd_data r"
  obtain pos' live' eof' r' where rf: "refill c r pos live eof = (Inr (pos', live', eof'), r')"
    using refill_fails [OF 1(2,4)] 1(5) unfolding clean_end_def
    by (cases "refill c r pos live eof") (metis old.sum.exhaust prod_cases3)
  note ok = refill_ok [OF 1(2,4) rf]
  let ?b = "findBoundary gear c live'"
  show ?case
  proof (cases "?bs = []")
    case True
    then show ?thesis unfolding Iter_loop_step [OF rf] using ok(2) by simp
  next
    case False
    have l': "live' \<noteq> []" using False ok(2) 1(2) by auto
    have b: "0 < ?b" "?b \<le> length live'" using findBoundary_pos [OF l'] findBoundary_le by auto
    have drp: "drop ?b live' @ rd_data r' = drop ?b ?bs" "take ?b ?bs = take ?b live'"
      using ok(1) b(2) by (metis drop_append diff_is_0_eq drop0, metis diff_is_0_eq take0 take_append append_Nil2)
    have cs: "cuts gear c off ?bs =
        \<lparr>ch_Data = take ?b live', ch_Offset = off\<rparr> # cuts gear c (off + ?b) (drop ?b ?bs)"
      using cuts_step [OF False 1(3)] ok(2) drp(2) by (simp add: cut_at_def)
    show ?thesis
    proof (cases "eof' \<and> length live' \<le> ck_min c")
      case True
      then have "?b = length live'" by (simp add: findBoundary_def)
      moreover have "drop (length live') ?bs = []" using True ok(1,4) by (metis append_Nil2 drop_eq_Nil le_refl)
      ultimately show ?thesis unfolding Iter_loop_step [OF rf] using cs True l' by simp
    next
      case False
      have "Iter_loop gear c r' (pos' + ?b) (drop ?b live') (off + ?b) eof' =
          (cuts gear c (off + ?b) (drop ?b live' @ rd_data r'), None)"
        using 1(1) [OF rf [symmetric] refl refl refl l' False refl refl] 1(2,3,5) b ok(3,4)
        by (simp add: iter_inv_next clean_end_cong [OF ok(3)])
      then show ?thesis unfolding Iter_loop_step [OF rf] using cs drp l' False by auto
    qed
  qed
qed

lemma Iter_loop_error:
  assumes "2 \<le> ck_max c" "valid_chunker c" "iter_inv c r pos live False" "rd_err r = Some e" "\<not> ends_input e"
  shows "\<exists>cs rest. Iter_loop gear c r pos live off False = (cs, Some e) \<and>
    cuts gear c off (live @ rd_data r @ ext) = cs @ rest"
  using assms
proof (induction "length live + length (rd_data r)" arbitrary: r pos live off rule: less_induct)
  case less
  show ?case
  proof (cases "refill c r pos live False")
    case (Pair x r')
    show ?thesis
    proof (cases x)
      case (Inl e')
      with Pair refill_fails [OF less(2,4)] less(5) show ?thesis
        by (subst Iter_loop.simps) auto
    next
      case (Inr y)
      obtain pos' live' eof' where y: "y = (pos', live', eof')" by (cases y)
      note rf = Pair [unfolded Inr y]
      note ok = refill_ok [OF less(2,4) rf]
      have eof': "\<not> eof'"
        using rf less(5,6) by (auto simp: refill_def ReadFull_def Let_def split: if_splits)
      let ?b = "findBoundary gear c live'" and ?bs = "live @ rd_data r @ ext"
      have l': "live' \<noteq> []" using eof' ok(4) less(2) by auto
      have b: "0 < ?b" "?b \<le> length live'" using findBoundary_pos [OF l'] findBoundary_le by auto
      have bs: "?bs = live' @ rd_data r' @ ext" using ok(1) by (metis append_assoc)
      have "length (drop ?b live') + length (rd_data r') < length live + length (rd_data r)"
        using b ok(1) by (metis add_less_le_mono diff_less length_append length_drop le_refl
            length_greater_0_conv l')
      then obtain cs rest where
        it: "Iter_loop gear c r' (pos' + ?b) (drop ?b live') (off + ?b) False = (cs, Some e)" and
        cu: "cuts gear c (off + ?b) (drop ?b live' @ rd_data r' @ ext) = cs @ rest"
        using less(1) [of "drop ?b live'" r' "pos' + ?b" "off + ?b"] less(2,3,5,6) ok(3,4) b eof'
          iter_inv_next [of eof' r' pos' live' c ?b] by auto
      have "cut_at gear c ?bs = ?b" unfolding bs cut_at_def using ok(4) eof' by simp
      then have "cuts gear c off ?bs = \<lparr>ch_Data = take ?b live', ch_Offset = off\<rparr> # cs @ rest"
        using cuts_step [OF _ less(3), of ?bs gear off] l' cu b(2) unfolding bs by simp
      then show ?thesis unfolding Iter_loop_step [OF rf] using it l' eof' by auto
    qed
  qed
qed

subsection \<open>What the cuts are\<close>

lemma cuts_concat:
  assumes v: "valid_chunker c"
  shows "concat (map ch_Data (cuts gear c off bs)) = bs"
  using v
proof (induction off bs rule: cuts_induct [where gear = gear])
  case (Cut off bs)
  then show ?case using cuts_step [OF Cut(1) v, of gear off] by simp
qed simp

lemma cuts_sizes:
  assumes v: "valid_chunker c"
  shows "ck \<in> set (cuts gear c off bs) \<Longrightarrow>
     0 < length (ch_Data ck) \<and> length (ch_Data ck) \<le> ck_max c"
  using v
proof (induction off bs rule: cuts_induct [where gear = gear])
  case (Cut off bs)
  then show ?case using cuts_step [OF Cut(1) v, of gear off] cut_bounds [OF Cut(1) v, of gear]
    by auto
qed simp

lemma cuts_min_size:
  assumes v: "valid_chunker c"
  shows "ck \<in> set (butlast (cuts gear c off bs)) \<Longrightarrow> ck_min c \<le> length (ch_Data ck)"
  using v
proof (induction off bs rule: cuts_induct [where gear = gear])
  case (Cut off bs)
  let ?b = "cut_at gear c bs"
  note eq = cuts_step [OF Cut(1) v, of gear off] and b = cut_bounds [OF Cut(1) v, of gear]
  show ?case
  proof (cases "drop ?b bs = []")
    case False
    then have "ck_min c \<le> ?b" "?b < length bs" using b by auto
    then show ?thesis using Cut(2,3) unfolding eq by (auto split: if_splits)
  qed (use Cut(3) eq in simp)
qed simp

lemma cuts_slices:
  assumes v: "valid_chunker c"
  shows "ck \<in> set (cuts gear c off bs) \<Longrightarrow>
     off \<le> ch_Offset ck \<and> ch_Data ck = take (length (ch_Data ck)) (drop (ch_Offset ck - off) bs)"
  using v
proof (induction off bs rule: cuts_induct [where gear = gear])
  case (Cut off bs)
  let ?b = "cut_at gear c bs"
  note b = cut_bounds [OF Cut(1) v, of gear]
  from Cut(3) consider "ck = \<lparr>ch_Data = take ?b bs, ch_Offset = off\<rparr>"
    | "ck \<in> set (cuts gear c (off + ?b) (drop ?b bs))"
    unfolding cuts_step [OF Cut(1) v, of gear off] by auto
  then show ?case
  proof cases
    case 1
    then show ?thesis using b by (simp add: min_def)
  next
    case 2
    note IH = Cut(2) [OF 2]
    then have "?b + (ch_Offset ck - (off + ?b)) = ch_Offset ck - off" by arith
    with IH show ?thesis by (simp add: add.commute)
  qed
qed simp

lemma cuts_offset_free:
  assumes v: "valid_chunker c"
  shows "map ch_Data (cuts gear c off' bs) = map ch_Data (cuts gear c off bs)"
  using v
proof (induction off bs arbitrary: off' rule: cuts_induct [where gear = gear])
  case (Cut off bs)
  show ?case
    unfolding cuts_step [OF Cut(1) v, of gear off] cuts_step [OF Cut(1) v, of gear off']
    using Cut(2) by simp
qed simp

lemma cuts_drop:
  "valid_chunker c \<Longrightarrow> drop i (cuts gear c off bs) =
     (let n = length (concat (map ch_Data (take i (cuts gear c off bs))))
      in cuts gear c (off + n) (drop n bs))"
proof (induction i arbitrary: off bs)
  case (Suc i)
  show ?case
  proof (cases "bs = []")
    case False
    show ?thesis
      unfolding cuts_step [OF False Suc(2), of gear off]
      using Suc(1) [OF Suc(2), of "off + cut_at gear c bs" "drop (cut_at gear c bs) bs"]
        cut_bounds(3) [OF False Suc(2), of gear]
      by (simp add: Let_def min_def add.commute add.left_commute add.assoc)
  qed simp
qed simp

lemma Iter_clean:
  assumes "NewWithParams mn av mx = Some c" "2 \<le> mx" "clean_end r"
  shows "Iter gear c r = (cuts gear c 0 (rd_data r), None)"
proof -
  from NewWithParams_valid [OF assms(1)] assms(2) have v: "valid_chunker c" "2 \<le> ck_max c" by auto
  have "iter_inv c r 0 [] False" by (simp add: iter_inv_def)
  from Iter_loop_cuts [OF v(2,1) this assms(3), of gear 0] show ?thesis by (simp add: Iter_def)
qed

lemmas Iter_cuts = Iter_clean [OF _ _ clean_end_None]

subsection \<open>Properties\<close>

text \<open>
  C4. Chunking loses nothing and respects its bounds. For bounds \<^verbatim>\<open>NewWithParams\<close> accepts with a
  maximum of at least 2, and a reader that ends without an error, \<^verbatim>\<open>Iter\<close> terminates without
  error; the chunks, in order, concatenate to the input; each chunk is the slice of the input at
  its offset, is not empty and has at most \<^verbatim>\<open>max\<close> bytes; each but the last has at least \<^verbatim>\<open>min\<close>.
\<close>

theorem Iter_splits_stream:
  assumes "NewWithParams mn av mx = Some c" "2 \<le> mx" "rd_err r = None"
  shows "\<exists>cs. Iter gear c r = (cs, None) \<and> concat (map ch_Data cs) = rd_data r \<and>
    (\<forall>ck \<in> set cs. 0 < length (ch_Data ck) \<and> length (ch_Data ck) \<le> ck_max c \<and>
       ch_Data ck = take (length (ch_Data ck)) (drop (ch_Offset ck) (rd_data r))) \<and>
    (\<forall>ck \<in> set (butlast cs). ck_min c \<le> length (ch_Data ck))"
proof -
  have v: "valid_chunker c" using NewWithParams_valid [OF assms(1)] by simp
  show ?thesis
    unfolding Iter_cuts [OF assms]
    using cuts_concat [OF v] cuts_sizes [OF v] cuts_min_size [OF v]
      cuts_slices [OF v, where off = 0] by auto
qed

text \<open>Bounds 2, 4 and 6: past the minimum, any byte cuts once the average is reached.\<close>

definition ex_chunker :: Chunker where
  "ex_chunker = \<lparr>ck_min = 2, ck_avg = 4, ck_max = 6, ck_maskTight = 15, ck_maskLoose = 0\<rparr>"

lemma ex_chunker_New: "NewWithParams 2 4 6 = Some ex_chunker"
  by code_simp

definition ex_stream :: "bytes \<Rightarrow> error option \<Rightarrow> error reader" where
  "ex_stream d e = \<lparr>rd_data = d, rd_err = e\<rparr>"

theorem Iter_splits_stream_witness:
  "\<exists>cs. Iter ucast ex_chunker (ex_stream [1, 2, 3, 16, 5, 6, 7, 8, 9] None) = (cs, None) \<and>
     concat (map ch_Data cs) = [1, 2, 3, 16, 5, 6, 7, 8, 9]"
  using Iter_splits_stream [OF ex_chunker_New, where gear = ucast and
      r = "ex_stream [1, 2, 3, 16, 5, 6, 7, 8, 9] None"]
  by (auto simp: ex_stream_def)

text \<open>
  C5. Boundaries are content-defined. If two streams end in the same bytes \<open>s\<close> and both have a chunk
  boundary where \<open>s\<close> begins, then from there on their chunks are the same byte strings: what came
  before, and at which offset, has no influence, so the store deduplicates them.
\<close>

theorem chunks_resynchronise:
  assumes "NewWithParams mn av mx = Some c" "2 \<le> mx"
    and "rd_err r1 = None" "rd_data r1 = a @ s" "Iter gear c r1 = (cs1, e1)" "concat (map ch_Data (take i cs1)) = a"
    and "rd_err r2 = None" "rd_data r2 = b @ s" "Iter gear c r2 = (cs2, e2)" "concat (map ch_Data (take j cs2)) = b"
  shows "map ch_Data (drop i cs1) = map ch_Data (drop j cs2)"
proof -
  have v: "valid_chunker c" using NewWithParams_valid [OF assms(1)] by simp
  have cs: "cs1 = cuts gear c 0 (a @ s)" "cs2 = cuts gear c 0 (b @ s)"
    using assms(4,5,8,9) Iter_cuts [OF assms(1,2,3), where gear = gear]
      Iter_cuts [OF assms(1,2,7), where gear = gear] by auto
  have "drop i cs1 = cuts gear c (length a) s" "drop j cs2 = cuts gear c (length b) s"
    using cuts_drop [OF v, where off = 0 and i = i and bs = "a @ s" and gear = gear]
      cuts_drop [OF v, where off = 0 and i = j and bs = "b @ s" and gear = gear] assms(6,10)
    by (simp_all add: cs Let_def)
  then show ?thesis using cuts_offset_free [OF v] by metis
qed

lemma ex_stream_Iter:
  "Iter ucast ex_chunker (ex_stream [1, 2, 3, 16, 5, 6, 7, 8] None) =
     ([\<lparr>ch_Data = [1, 2, 3, 16, 5], ch_Offset = 0\<rparr>, \<lparr>ch_Data = [6, 7, 8], ch_Offset = 5\<rparr>], None)"
  "Iter ucast ex_chunker (ex_stream [9, 9, 16, 6, 7, 8] None) =
     ([\<lparr>ch_Data = [9, 9, 16], ch_Offset = 0\<rparr>, \<lparr>ch_Data = [6, 7, 8], ch_Offset = 3\<rparr>], None)"
  by code_simp+

theorem chunks_resynchronise_witness:
  "map ch_Data (drop 1 (fst (Iter ucast ex_chunker (ex_stream [1, 2, 3, 16, 5, 6, 7, 8] None)))) =
   map ch_Data (drop 1 (fst (Iter ucast ex_chunker (ex_stream [9, 9, 16, 6, 7, 8] None))))"
  by (rule chunks_resynchronise [OF ex_chunker_New _ _ _ surjective_pairing _ _ _ surjective_pairing,
        where a = "[1, 2, 3, 16, 5]" and b = "[9, 9, 16]" and s = "[6, 7, 8]"])
    (simp_all add: ex_stream_Iter, simp_all add: ex_stream_def)

text \<open>
  C6. How \<^verbatim>\<open>Iter\<close> treats a reader that fails after some bytes. An error that neither is nor wraps
  \<^verbatim>\<open>io.EOF\<close> or \<^verbatim>\<open>io.ErrUnexpectedEOF\<close> is the error \<^verbatim>\<open>Iter\<close> ends with, and the chunks produced before it are
  the first chunks of every stream that continues the bytes read so far, so a retry of the same stream
  deduplicates them. An error that is or wraps one of the two is taken for the end of the stream: the
  bytes read so far are chunked as if they were all of it, and no error is reported.
\<close>

theorem Iter_error_prefix:
  assumes "NewWithParams mn av mx = Some c" "2 \<le> mx" "rd_err r = Some e"
  shows "if is_err e IoEOF \<or> is_err e IoErrUnexpectedEOF
    then Iter gear c r = Iter gear c (r\<lparr>rd_err := None\<rparr>) \<and> snd (Iter gear c r) = None
    else snd (Iter gear c r) = Some e \<and>
      (\<forall>ext. \<exists>rest. fst (Iter gear c \<lparr>rd_data = rd_data r @ ext, rd_err = None\<rparr>) = fst (Iter gear c r) @ rest)"
proof -
  from NewWithParams_valid [OF assms(1)] assms(2) have v: "valid_chunker c" "2 \<le> ck_max c" by auto
  have i: "iter_inv c r 0 [] False" by (simp add: iter_inv_def)
  show ?thesis
  proof (cases "ends_input e")
    case True
    then have "clean_end r" using assms(3) by (simp add: clean_end_def)
    from Iter_clean [OF assms(1,2) this] Iter_cuts [OF assms(1,2), of "r\<lparr>rd_err := None\<rparr>"]
    show ?thesis using True by (simp add: ends_input_def)
  next
    case False
    from Iter_loop_error [OF v(2,1) i assms(3) False, where gear = gear and off = 0]
      Iter_cuts [OF assms(1,2), of "\<lparr>rd_data = rd_data r @ ext, rd_err = None\<rparr>" for ext]
    show ?thesis using False by (simp add: ends_input_def Iter_def) (metis fst_conv snd_conv)
  qed
qed

theorem Iter_error_prefix_witness:
  "snd (Iter ucast ex_chunker (ex_stream [1, 2, 3, 16, 5, 6, 7] (Some (SysErr EIO)))) = Some (SysErr EIO) \<and>
   (\<exists>rest. fst (Iter ucast ex_chunker (ex_stream [1, 2, 3, 16, 5, 6, 7, 8] None)) =
      fst (Iter ucast ex_chunker (ex_stream [1, 2, 3, 16, 5, 6, 7] (Some (SysErr EIO)))) @ rest) \<and>
   snd (Iter ucast ex_chunker (ex_stream [1, 2, 3, 16, 5, 6, 7] (Some (Sentinel IoErrUnexpectedEOF)))) = None"
  using Iter_error_prefix [OF ex_chunker_New _, where gear = ucast and r = "ex_stream [1, 2, 3, 16, 5, 6, 7] (Some (SysErr EIO))"]
    Iter_error_prefix [OF ex_chunker_New _, where gear = ucast and
      r = "ex_stream [1, 2, 3, 16, 5, 6, 7] (Some (Sentinel IoErrUnexpectedEOF))"]
  by (auto simp: ex_stream_def dest!: spec [where x = "[8 :: 8 word]"])

text \<open>
  C7. The smallest bounds \<^verbatim>\<open>NewWithParams\<close> accepts do not chunk: with a buffer of one byte the test
  \<^verbatim>\<open>cap(buf)-len(buf) < c.max/2\<close> never compacts, the next \<^verbatim>\<open>io.ReadFull\<close> reads into an empty slice, and
  \<^verbatim>\<open>Iter\<close> ends without an error after the first byte, whatever follows it.
\<close>

theorem Iter_unit_bounds_truncate:
  assumes "NewWithParams 1 1 1 = Some c" "rd_data r = x # xs" "rd_err r = None" "xs \<noteq> []"
  shows "Iter gear c r = ([\<lparr>ch_Data = [x], ch_Offset = 0\<rparr>], None)"
proof -
  have c: "ck_min c = 1" "ck_max c = 1"
    using assms(1) by (auto simp: NewWithParams_def Let_def)
  have rf: "refill c r 0 [] False = (Inr (0, [x], False), r\<lparr>rd_data := xs\<rparr>)"
    "refill c (r\<lparr>rd_data := xs\<rparr>) 1 [] False = (Inr (1, [], False), r\<lparr>rd_data := xs\<rparr>)"
    using assms by (auto simp: refill_def ReadFull_def c)
  have "findBoundary gear c [x] = 1" by (simp add: findBoundary_def c)
  then show ?thesis unfolding Iter_def Iter_loop_step [OF rf(1)] using Iter_loop_step [OF rf(2)] by simp
qed

theorem Iter_unit_bounds_truncate_witness:
  "\<exists>c. NewWithParams 1 1 1 = Some c \<and>
     Iter ucast c (ex_stream [1, 2, 3] None) = ([\<lparr>ch_Data = [1], ch_Offset = 0\<rparr>], None)"
proof -
  have "NewWithParams 1 1 1 = Some (the (NewWithParams 1 1 1))" by code_simp
  then show ?thesis
    using Iter_unit_bounds_truncate [where r = "ex_stream [1, 2, 3] None" and x = 1 and xs = "[2, 3]"
        and gear = ucast and c = "the (NewWithParams 1 1 1)"]
    by (auto simp: ex_stream_def)
qed

end
