(* ===== verification/Json.thy ===== *)
theory Json
  imports Prelude
begin

text \<open>
  The parts of \<^verbatim>\<open>encoding/json\<close> the sources use: values and their scanner, the streaming
  \<^verbatim>\<open>Decoder\<close> with its \<^verbatim>\<open>Token\<close>, \<^verbatim>\<open>More\<close> and \<^verbatim>\<open>Decode\<close> methods and the token states that place commas and colons,
  and the compact output of \<^verbatim>\<open>Marshal\<close>. Text is a list of bytes read as characters; bytes from 128 on are passed
  through (the sources keep only ASCII in the strings they compare). Numbers keep their literal.

  The scanner recurses under a fuel that the callers set to one more than twice the length of the input: of two nested
  calls at least one consumes a byte, so the fuel does not run out. Lemma \<open>scan_fuel\<close> shows that a result does not
  depend on it.
\<close>

datatype json =
    JNull
  | JBool bool
  | JNum string
  | JStr string
  | JArr "json list"
  | JObj "(string \<times> json) list"

definition json_eof :: "error" where "json_eof = Sentinel IoErrUnexpectedEOF"
definition json_syntax :: "error" where "json_syntax = ErrorNew ''invalid character''"

subsection \<open>Scanning values\<close>

definition isSpace :: "char \<Rightarrow> bool" where
  "isSpace c \<longleftrightarrow> c = CHR '' '' \<or> c = CHR 0x09 \<or> c = CHR 0x0D \<or> c = CHR 0x0A"

definition skip_ws :: "string \<Rightarrow> string" where
  "skip_ws s = dropWhile isSpace s"

definition isDigit :: "char \<Rightarrow> bool" where
  "isDigit c \<longleftrightarrow> CHR ''0'' \<le> c \<and> c \<le> CHR ''9''"

text \<open>The UTF-8 encoding of a code point; a lone surrogate becomes U+FFFD.\<close>

definition utf8 :: "nat \<Rightarrow> string" where
  "utf8 n =
     (if n < 128 then [char_of n]
      else if n < 2048 then [char_of (192 + n div 64), char_of (128 + n mod 64)]
      else if n \<ge> 65536 then
        [char_of (240 + n div 262144), char_of (128 + n div 4096 mod 64), char_of (128 + n div 64 mod 64), char_of (128 + n mod 64)]
      else let n = (if 55296 \<le> n \<and> n < 57344 then 65533 else n) in
        [char_of (224 + n div 4096), char_of (128 + n div 64 mod 64), char_of (128 + n mod 64)])"

fun hex4 :: "string \<Rightarrow> (nat \<times> string) option" where
  "hex4 (a # b # c # d # s) =
     (case (hexNibble a, hexNibble b, hexNibble c, hexNibble d) of
        (Some x, Some y, Some z, Some u) \<Rightarrow> Some (((x * 16 + y) * 16 + z) * 16 + u, s)
      | _ \<Rightarrow> None)"
| "hex4 _ = None"

text \<open>After \<^verbatim>\<open>\u\<close>: four digits, or a pair of surrogates.\<close>

definition scan_u :: "string \<Rightarrow> (string \<times> string) option" where
  "scan_u s =
     (case hex4 s of
        None \<Rightarrow> None
      | Some (n, r) \<Rightarrow>
          (case (if 55296 \<le> n \<and> n < 56320 \<and> take 2 r = [CHR 0x5C, CHR ''u''] then hex4 (drop 2 r) else None) of
             Some (m, r2) \<Rightarrow>
               if 56320 \<le> m \<and> m < 57344 then Some (utf8 (65536 + (n - 55296) * 1024 + (m - 56320)), r2)
               else Some (utf8 n, r)
           | None \<Rightarrow> Some (utf8 n, r)))"

definition simple_escape :: "char \<Rightarrow> char option" where
  "simple_escape c =
     (if c = CHR 0x22 \<or> c = CHR 0x5C \<or> c = CHR ''/'' then Some c
      else if c = CHR ''b'' then Some (CHR 0x08)
      else if c = CHR ''f'' then Some (CHR 0x0C)
      else if c = CHR ''n'' then Some (CHR 0x0A)
      else if c = CHR ''r'' then Some (CHR 0x0D)
      else if c = CHR ''t'' then Some (CHR 0x09)
      else None)"

text \<open>The rest of a string literal, after its opening quote.\<close>

fun scan_string :: "nat \<Rightarrow> string \<Rightarrow> error + string \<times> string" where
  "scan_string 0 s = Inl json_eof"
| "scan_string (Suc n) [] = Inl json_eof"
| "scan_string (Suc n) (c # s) =
     (if c = CHR 0x22 then Inr ([], s)
      else if c < CHR '' '' then Inl json_syntax
      else if c = CHR 0x5C then
        (case s of
           [] \<Rightarrow> Inl json_eof
         | e # s1 \<Rightarrow>
             (case (if e = CHR ''u'' then scan_u s1
                    else map_option (\<lambda>x. ([x], s1)) (simple_escape e)) of
                None \<Rightarrow> Inl json_syntax
              | Some (xs, s2) \<Rightarrow> (case scan_string n s2 of Inl e \<Rightarrow> Inl e | Inr (t, r) \<Rightarrow> Inr (xs @ t, r))))
      else (case scan_string n s of Inl e \<Rightarrow> Inl e | Inr (t, r) \<Rightarrow> Inr (c # t, r)))"

definition span_digits :: "string \<Rightarrow> string \<times> string" where
  "span_digits s = (takeWhile isDigit s, dropWhile isDigit s)"

definition scan_digits :: "string \<Rightarrow> error + string \<times> string" where
  "scan_digits s =
     (case span_digits s of (ds, r) \<Rightarrow> if ds = [] then Inl (if r = [] then json_eof else json_syntax) else Inr (ds, r))"

text \<open>A number literal: integer part, fraction, exponent.\<close>

definition scan_int :: "string \<Rightarrow> error + string \<times> string" where
  "scan_int s = (if s \<noteq> [] \<and> hd s = CHR ''0'' then Inr (''0'', tl s) else scan_digits s)"

definition scan_frac :: "string \<Rightarrow> error + string \<times> string" where
  "scan_frac s =
     (if s \<noteq> [] \<and> hd s = CHR ''.'' then
        (case scan_digits (tl s) of Inl e \<Rightarrow> Inl e | Inr (ds, r) \<Rightarrow> Inr (CHR ''.'' # ds, r))
      else Inr ([], s))"

definition scan_exp :: "string \<Rightarrow> error + string \<times> string" where
  "scan_exp s =
     (if s \<noteq> [] \<and> (hd s = CHR ''e'' \<or> hd s = CHR ''E'') then
        (let k = (if tl s \<noteq> [] \<and> (hd (tl s) = CHR ''+'' \<or> hd (tl s) = CHR ''-'') then 2 else 1) in
         case scan_digits (drop k s) of Inl e \<Rightarrow> Inl e | Inr (ds, r) \<Rightarrow> Inr (take k s @ ds, r))
      else Inr ([], s))"

definition scan_number :: "string \<Rightarrow> error + string \<times> string" where
  "scan_number s =
     (let k = (if s \<noteq> [] \<and> hd s = CHR ''-'' then 1 else 0) in
      case scan_int (drop k s) of
        Inl e \<Rightarrow> Inl e
      | Inr (ip, r1) \<Rightarrow>
          (case scan_frac r1 of
             Inl e \<Rightarrow> Inl e
           | Inr (fr, r2) \<Rightarrow>
               (case scan_exp r2 of
                  Inl e \<Rightarrow> Inl e
                | Inr (ex, r3) \<Rightarrow> Inr (take k s @ ip @ fr @ ex, r3))))"

definition scan_lit :: "string \<Rightarrow> json \<Rightarrow> string \<Rightarrow> error + json \<times> string" where
  "scan_lit l v s =
     (if HasPrefix s l then Inr (v, drop (length l) s)
      else Inl (if HasPrefix l s then json_eof else json_syntax))"

fun scan_value :: "nat \<Rightarrow> string \<Rightarrow> error + json \<times> string"
and scan_elems :: "nat \<Rightarrow> string \<Rightarrow> error + json list \<times> string"
and scan_members :: "nat \<Rightarrow> string \<Rightarrow> error + (string \<times> json) list \<times> string" where
  "scan_value 0 s = Inl json_eof"
| "scan_value (Suc n) s =
     (case skip_ws s of
        [] \<Rightarrow> Inl json_eof
      | c # r \<Rightarrow>
          if c = CHR 0x7B then
            (case skip_ws r of
               [] \<Rightarrow> Inl json_eof
             | d # r1 \<Rightarrow>
                 if d = CHR 0x7D then Inr (JObj [], r1)
                 else (case scan_members n (d # r1) of Inl e \<Rightarrow> Inl e | Inr (ms, r2) \<Rightarrow> Inr (JObj ms, r2)))
          else if c = CHR 0x5B then
            (case skip_ws r of
               [] \<Rightarrow> Inl json_eof
             | d # r1 \<Rightarrow>
                 if d = CHR 0x5D then Inr (JArr [], r1)
                 else (case scan_elems n (d # r1) of Inl e \<Rightarrow> Inl e | Inr (vs, r2) \<Rightarrow> Inr (JArr vs, r2)))
          else if c = CHR 0x22 then
            (case scan_string (Suc (length r)) r of Inl e \<Rightarrow> Inl e | Inr (t, r1) \<Rightarrow> Inr (JStr t, r1))
          else if c = CHR ''t'' then scan_lit ''true'' (JBool True) (c # r)
          else if c = CHR ''f'' then scan_lit ''false'' (JBool False) (c # r)
          else if c = CHR ''n'' then scan_lit ''null'' JNull (c # r)
          else if c = CHR ''-'' \<or> isDigit c then
            (case scan_number (c # r) of Inl e \<Rightarrow> Inl e | Inr (l, r1) \<Rightarrow> Inr (JNum l, r1))
          else Inl json_syntax)"
| "scan_elems 0 s = Inl json_eof"
| "scan_elems (Suc n) s =
     (case scan_value n s of
        Inl e \<Rightarrow> Inl e
      | Inr (v, r) \<Rightarrow>
          (case skip_ws r of
             [] \<Rightarrow> Inl json_eof
           | c # r1 \<Rightarrow>
               if c = CHR '','' then (case scan_elems n r1 of Inl e \<Rightarrow> Inl e | Inr (vs, r2) \<Rightarrow> Inr (v # vs, r2))
               else if c = CHR 0x5D then Inr ([v], r1)
               else Inl json_syntax))"
| "scan_members 0 s = Inl json_eof"
| "scan_members (Suc n) s =
     (case skip_ws s of
        [] \<Rightarrow> Inl json_eof
      | q # r \<Rightarrow>
          if q \<noteq> CHR 0x22 then Inl json_syntax
          else (case scan_string (Suc (length r)) r of
              Inl e \<Rightarrow> Inl e
            | Inr (k, r1) \<Rightarrow>
                (case skip_ws r1 of
                   [] \<Rightarrow> Inl json_eof
                 | c # r2 \<Rightarrow>
                     if c \<noteq> CHR '':'' then Inl json_syntax
                     else (case scan_value n r2 of
                         Inl e \<Rightarrow> Inl e
                       | Inr (v, r3) \<Rightarrow>
                           (case skip_ws r3 of
                              [] \<Rightarrow> Inl json_eof
                            | d # r4 \<Rightarrow>
                                if d = CHR '','' then
                                  (case scan_members n r4 of Inl e \<Rightarrow> Inl e | Inr (ms, r5) \<Rightarrow> Inr ((k, v) # ms, r5))
                                else if d = CHR 0x7D then Inr ([(k, v)], r4)
                                else Inl json_syntax)))))"

definition string_of_bytes :: "bytes \<Rightarrow> string" where
  "string_of_bytes bs = map (\<lambda>b. char_of (unat b)) bs"

definition bytes_of_string :: "string \<Rightarrow> bytes" where
  "bytes_of_string s = map (\<lambda>c. word_of_nat (of_char c)) s"

text \<open>\<^verbatim>\<open>json.Unmarshal\<close> into a generic value: one value and nothing but white space after it.\<close>

definition Unmarshal :: "string \<Rightarrow> error + json" where
  "Unmarshal s =
     (case scan_value (Suc (2 * length s)) s of
        Inl e \<Rightarrow> Inl e
      | Inr (v, r) \<Rightarrow> if skip_ws r = [] then Inr v else Inl json_syntax)"

subsection \<open>The streaming decoder\<close>

datatype tokenState =
    tokenTopValue | tokenArrayStart | tokenArrayValue | tokenArrayComma
  | tokenObjectStart | tokenObjectKey | tokenObjectColon | tokenObjectValue | tokenObjectComma

record Decoder =
  dc_rest :: string
  dc_err :: "error option"
  dc_state :: tokenState
  dc_stack :: "tokenState list"

definition NewDecoder :: "error reader \<Rightarrow> Decoder" where
  "NewDecoder r = \<lparr>dc_rest = string_of_bytes (rd_data r), dc_err = rd_err r, dc_state = tokenTopValue, dc_stack = []\<rparr>"

datatype Token = TDelim char | TValue json

definition peek :: "Decoder \<Rightarrow> (error + char) \<times> Decoder" where
  "peek d =
     (let d1 = d\<lparr>dc_rest := skip_ws (dc_rest d)\<rparr> in
      case dc_rest d1 of
        [] \<Rightarrow> (Inl (case dc_err d1 of Some e \<Rightarrow> e | None \<Rightarrow> Sentinel IoEOF), d1)
      | c # _ \<Rightarrow> (Inr c, d1))"

definition More :: "Decoder \<Rightarrow> bool" where
  "More d = (case peek d of (Inr c, _) \<Rightarrow> c \<noteq> CHR 0x5D \<and> c \<noteq> CHR 0x7D | (Inl _, _) \<Rightarrow> False)"

definition tokenValueAllowed :: "Decoder \<Rightarrow> bool" where
  "tokenValueAllowed d \<longleftrightarrow> dc_state d \<in> {tokenTopValue, tokenArrayStart, tokenArrayValue, tokenObjectValue}"

definition tokenValueEnd :: "Decoder \<Rightarrow> Decoder" where
  "tokenValueEnd d =
     d\<lparr>dc_state := (case dc_state d of
                      tokenArrayStart \<Rightarrow> tokenArrayComma
                    | tokenArrayValue \<Rightarrow> tokenArrayComma
                    | tokenObjectValue \<Rightarrow> tokenObjectComma
                    | x \<Rightarrow> x)\<rparr>"

text \<open>Consume the comma or colon that the state calls for.\<close>

definition tokenPrepareForDecode :: "Decoder \<Rightarrow> error option \<times> Decoder" where
  "tokenPrepareForDecode d =
     (case dc_state d of
        tokenArrayComma \<Rightarrow>
          (case peek d of
             (Inl e, d1) \<Rightarrow> (Some e, d1)
           | (Inr c, d1) \<Rightarrow>
               if c \<noteq> CHR '','' then (Some (ErrorNew ''expected comma after array element''), d1)
               else (None, d1\<lparr>dc_rest := tl (dc_rest d1), dc_state := tokenArrayValue\<rparr>))
      | tokenObjectColon \<Rightarrow>
          (case peek d of
             (Inl e, d1) \<Rightarrow> (Some e, d1)
           | (Inr c, d1) \<Rightarrow>
               if c \<noteq> CHR '':'' then (Some (ErrorNew ''expected colon after object key''), d1)
               else (None, d1\<lparr>dc_rest := tl (dc_rest d1), dc_state := tokenObjectValue\<rparr>))
      | _ \<Rightarrow> (None, d))"

text \<open>Scan one value; a value cut off by the end of the input is an error.\<close>

definition readValue :: "Decoder \<Rightarrow> (error + json) \<times> Decoder" where
  "readValue d =
     (case scan_value (Suc (2 * length (dc_rest d))) (dc_rest d) of
        Inr (v, r) \<Rightarrow> (Inr v, d\<lparr>dc_rest := r\<rparr>)
      | Inl e \<Rightarrow>
          (Inl (if e = json_eof then
                  (case dc_err d of Some x \<Rightarrow> x | None \<Rightarrow> if skip_ws (dc_rest d) = [] then Sentinel IoEOF else json_eof)
                else e), d))"

definition Decode :: "Decoder \<Rightarrow> (error + json) \<times> Decoder" where
  "Decode d =
     (case tokenPrepareForDecode d of
        (Some e, d1) \<Rightarrow> (Inl e, d1)
      | (None, d1) \<Rightarrow>
          if \<not> tokenValueAllowed d1 then (Inl (ErrorNew ''not at beginning of value''), d1)
          else case readValue d1 of
            (Inl e, d2) \<Rightarrow> (Inl e, d2)
          | (Inr v, d2) \<Rightarrow> (Inr v, tokenValueEnd d2))"

definition tokenError :: "Decoder \<Rightarrow> (error + Token) \<times> Decoder" where
  "tokenError d = (Inl json_syntax, d)"

text \<open>One turn of \<^verbatim>\<open>Token\<close>'s loop at a character that is neither a comma nor a colon.\<close>

definition token_at :: "char \<Rightarrow> Decoder \<Rightarrow> (error + Token) \<times> Decoder" where
  "token_at c d =
     (let adv = d\<lparr>dc_rest := tl (dc_rest d)\<rparr>;
          pop = tokenValueEnd (adv\<lparr>dc_state := hd (dc_stack d @ [tokenTopValue]), dc_stack := tl (dc_stack d)\<rparr>)
      in if c = CHR 0x5B then
           (if \<not> tokenValueAllowed d then tokenError d
            else (Inr (TDelim c), adv\<lparr>dc_stack := dc_state d # dc_stack d, dc_state := tokenArrayStart\<rparr>))
         else if c = CHR 0x5D then
           (if dc_state d \<noteq> tokenArrayStart \<and> dc_state d \<noteq> tokenArrayComma then tokenError d else (Inr (TDelim c), pop))
         else if c = CHR 0x7B then
           (if \<not> tokenValueAllowed d then tokenError d
            else (Inr (TDelim c), adv\<lparr>dc_stack := dc_state d # dc_stack d, dc_state := tokenObjectStart\<rparr>))
         else if c = CHR 0x7D then
           (if dc_state d \<noteq> tokenObjectStart \<and> dc_state d \<noteq> tokenObjectComma then tokenError d else (Inr (TDelim c), pop))
         else if c = CHR 0x22 \<and> (dc_state d = tokenObjectStart \<or> dc_state d = tokenObjectKey) then
           (case Decode (d\<lparr>dc_state := tokenTopValue\<rparr>) of
              (Inl e, d1) \<Rightarrow> (Inl e, d1\<lparr>dc_state := dc_state d\<rparr>)
            | (Inr v, d1) \<Rightarrow> (Inr (TValue v), d1\<lparr>dc_state := tokenObjectColon\<rparr>))
         else if \<not> tokenValueAllowed d then tokenError d
         else case Decode d of
           (Inl e, d1) \<Rightarrow> (Inl e, d1)
         | (Inr v, d1) \<Rightarrow> (Inr (TValue v), d1))"

text \<open>After a comma or a colon no state admits another one, so the loop turns at most twice.\<close>

definition Token :: "Decoder \<Rightarrow> (error + Token) \<times> Decoder" where
  "Token d =
     (case peek d of
        (Inl e, d1) \<Rightarrow> (Inl e, d1)
      | (Inr c, d1) \<Rightarrow>
          if c = CHR '':'' \<or> c = CHR '','' then
            (case (if c = CHR '':'' \<and> dc_state d1 = tokenObjectColon then Some tokenObjectValue
                   else if c = CHR '','' \<and> dc_state d1 = tokenArrayComma then Some tokenArrayValue
                   else if c = CHR '','' \<and> dc_state d1 = tokenObjectComma then Some tokenObjectKey
                   else None) of
               None \<Rightarrow> tokenError d1
             | Some st \<Rightarrow>
                 (case peek (d1\<lparr>dc_rest := tl (dc_rest d1), dc_state := st\<rparr>) of
                    (Inl e, d2) \<Rightarrow> (Inl e, d2)
                  | (Inr c2, d2) \<Rightarrow> if c2 = CHR '':'' \<or> c2 = CHR '','' then tokenError d2 else token_at c2 d2))
          else token_at c d1)"

subsection \<open>Every successful read consumes input\<close>

lemma skip_ws_length: "length (skip_ws s) \<le> length s"
  by (simp add: skip_ws_def length_dropWhile_le)

lemma hex4_length: "hex4 s = Some (n, r) \<Longrightarrow> length r < length s"
  by (cases s rule: hex4.cases) (auto split: option.splits)

lemma scan_u_length: "scan_u s = Some (t, r) \<Longrightarrow> length r < length s"
  by (auto simp: scan_u_def dest!: hex4_length split: option.splits if_splits)

lemma scan_string_length: "scan_string n s = Inr (t, r) \<Longrightarrow> length r < length s"
proof (induction n s arbitrary: t r rule: scan_string.induct)
  case (3 n c s)
  show ?case
  proof (cases "c = CHR 0x22 \<or> c < CHR '' ''")
    case True
    then show ?thesis using 3(3) by (auto split: if_splits)
  next
    case no: False
    show ?thesis
    proof (cases "c = CHR 0x5C")
      case False
      then obtain t' where "scan_string n s = Inr (t', r)" using 3(3) no by (auto split: sum.splits prod.splits)
      then show ?thesis using 3(2) no False by fastforce
    next
      case True
      then obtain e s1 where s: "s = e # s1" using 3(3) no by (cases s) auto
      obtain xs s2 where x: "(if e = CHR ''u'' then scan_u s1 else map_option (\<lambda>x. ([x], s1)) (simple_escape e)) = Some (xs, s2)"
        using 3(3) no True s by (auto split: option.splits)
      have l: "length s2 \<le> length s1" using x scan_u_length by (fastforce split: if_splits)
      obtain t' where "scan_string n s2 = Inr (t', r)"
        using 3(3) no True s x by (auto split: sum.splits prod.splits)
      then have "length r < length s2" using 3(1) no True s x by blast
      then show ?thesis using l s by simp
    qed
  qed
qed auto

lemma scan_digits_length: "scan_digits s = Inr (t, r) \<Longrightarrow> length r < length s"
proof (cases s)
  case (Cons c cs)
  assume "scan_digits s = Inr (t, r)"
  then show ?thesis using length_dropWhile_le [of isDigit cs] Cons
    by (auto simp: scan_digits_def span_digits_def less_Suc_eq_le split: if_splits)
qed (simp add: scan_digits_def span_digits_def)

lemma scan_int_length: "scan_int s = Inr (t, r) \<Longrightarrow> length r < length s"
  by (cases s) (auto simp: scan_int_def scan_digits_length split: if_splits dest: scan_digits_length)

lemma scan_frac_length: "scan_frac s = Inr (t, r) \<Longrightarrow> length r \<le> length s"
  by (cases s) (auto simp: scan_frac_def split: if_splits sum.splits prod.splits dest!: scan_digits_length)

lemma scan_exp_length: "scan_exp s = Inr (t, r) \<Longrightarrow> length r \<le> length s"
  by (auto simp: scan_exp_def Let_def split: if_splits sum.splits prod.splits dest!: scan_digits_length)

lemma scan_number_length: "scan_number s = Inr (t, r) \<Longrightarrow> length r < length s"
  by (auto simp: scan_number_def Let_def split: if_splits sum.splits prod.splits
      dest!: scan_int_length scan_frac_length scan_exp_length)

lemma scan_lit_length: "scan_lit l v s = Inr (x, r) \<Longrightarrow> l \<noteq> [] \<Longrightarrow> length r < length s"
  by (auto simp: scan_lit_def HasPrefix_iff split: if_splits)

lemma skip_ws_Cons: "skip_ws s = c # r \<Longrightarrow> length r < length s"
  using skip_ws_length [of s] by simp

definition shrinks :: "(string \<Rightarrow> error + 'a \<times> string) \<Rightarrow> bool" where
  "shrinks f \<longleftrightarrow> (\<forall>s x r. f s = Inr (x, r) \<longrightarrow> length r < length s)"

lemma shrinksD: "shrinks f \<Longrightarrow> f s = Inr (x, r) \<Longrightarrow> length r < length s"
  by (simp add: shrinks_def)

lemma scan_elems_shrinks:
  assumes v: "shrinks (scan_value n)" and e: "shrinks (scan_elems n)"
  shows "shrinks (scan_elems (Suc n))"
  unfolding shrinks_def
proof (intro allI impI)
  fix s x r assume s: "scan_elems (Suc n) s = Inr (x, r)"
  obtain a q where a: "scan_value n s = Inr (a, q)" using s by (auto split: sum.splits)
  obtain c q1 where c: "skip_ws q = c # q1" using s a by (auto split: list.splits)
  have l: "length q < length s" "length q1 < length q" using shrinksD [OF v a] skip_ws_Cons [OF c] by auto
  show "length r < length s"
  proof (cases "c = CHR '',''")
    case True
    then obtain vs where "scan_elems n q1 = Inr (vs, r)" using s a c by (auto split: sum.splits prod.splits)
    then show ?thesis using shrinksD [OF e] l by fastforce
  next
    case False
    then show ?thesis using s a c l by (auto split: if_splits)
  qed
qed

lemma scan_members_shrinks:
  assumes v: "shrinks (scan_value n)" and e: "shrinks (scan_members n)"
  shows "shrinks (scan_members (Suc n))"
  unfolding shrinks_def
proof (intro allI impI)
  fix s x r assume s: "scan_members (Suc n) s = Inr (x, r)"
  obtain c q where c: "skip_ws s = c # q" "c = CHR 0x22" using s by (auto split: list.splits if_splits)
  note s1 = s [unfolded scan_members.simps c list.case, simplified]
  obtain k q1 where k: "scan_string (Suc (length q)) q = Inr (k, q1)" using s1 by (auto split: sum.splits)
  note s2 = s1 [unfolded k sum.case prod.case]
  obtain c2 q2 where c2: "skip_ws q1 = c2 # q2" "c2 = CHR '':''" using s2 by (auto split: list.splits if_splits)
  note s3 = s2 [unfolded c2 list.case, simplified]
  obtain a q3 where a: "scan_value n q2 = Inr (a, q3)" using s3 by (auto split: sum.splits)
  note s4 = s3 [unfolded a sum.case prod.case]
  obtain d q4 where d: "skip_ws q3 = d # q4" using s4 by (auto split: list.splits)
  have l: "length q4 < length s"
    using skip_ws_Cons [OF c(1)] scan_string_length [OF k] skip_ws_Cons [OF c2(1)] shrinksD [OF v a] skip_ws_Cons [OF d] by simp
  show "length r < length s"
  proof (cases "d = CHR '',''")
    case True
    then obtain vs where "scan_members n q4 = Inr (vs, r)" using s4 d by (auto split: sum.splits prod.splits)
    then show ?thesis using shrinksD [OF e] l by fastforce
  next
    case False
    then show ?thesis using s4 d l by (auto split: if_splits)
  qed
qed

lemma scan_value_shrinks:
  assumes e: "shrinks (scan_elems n)" and m: "shrinks (scan_members n)"
  shows "shrinks (scan_value (Suc n))"
  unfolding shrinks_def
proof (intro allI impI)
  fix s x r assume s: "scan_value (Suc n) s = Inr (x, r)"
  obtain c q where c: "skip_ws s = c # q" using s by (auto split: list.splits)
  have l: "length q < length s" "length (c # q) \<le> length s" using skip_ws_Cons [OF c] by auto
  note s1 = s [unfolded scan_value.simps c list.case]
  have "length r < length (c # q)"
  proof (cases "c = CHR 0x7B \<or> c = CHR 0x5B")
    case True
    then obtain d q1 where d: "skip_ws q = d # q1" using s1 by (cases "skip_ws q") auto
    have l1: "length q1 < length q" "length (d # q1) \<le> length q" using skip_ws_Cons [OF d] by auto
    from True s1 d consider "r = q1" | vs where "scan_members n (d # q1) = Inr (vs, r)" | vs where "scan_elems n (d # q1) = Inr (vs, r)"
      by (auto split: if_splits sum.splits prod.splits)
    then show ?thesis using l1 shrinksD [OF e] shrinksD [OF m] by cases fastforce+
  next
    case False
    note s2 = s1 [unfolded if_not_P [OF False [unfolded de_Morgan_disj, THEN conjunct1]] if_not_P [OF False [unfolded de_Morgan_disj, THEN conjunct2]]]
    from s2 consider t where "scan_string (Suc (length q)) q = Inr (t, r)" | l v where "scan_lit l v (c # q) = Inr (x, r)" "l \<noteq> []"
      | t where "scan_number (c # q) = Inr (t, r)"
      by (auto split: if_splits sum.splits prod.splits)
    then show ?thesis using scan_string_length scan_lit_length scan_number_length by cases fastforce+
  qed
  then show "length r < length s" using l by simp
qed

lemma scan_shrinks: "shrinks (scan_value n) \<and> shrinks (scan_elems n) \<and> shrinks (scan_members n)"
proof (induction n)
  case 0
  then show ?case by (simp add: shrinks_def)
next
  case (Suc n)
  then show ?case using scan_value_shrinks scan_elems_shrinks scan_members_shrinks by blast
qed

declare scan_value.simps [simp del] scan_elems.simps [simp del] scan_members.simps [simp del]

lemma scan_value_length: "scan_value n s = Inr (v, r) \<Longrightarrow> length r < length s"
  by (rule shrinksD [OF conjunct1 [OF scan_shrinks]])

text \<open>A scan that succeeds needs no more fuel than the bytes it consumes.\<close>

lemma scan_fuel:
  "scan_value n s = Inr (v, r) \<Longrightarrow> length s \<le> length r + m \<Longrightarrow> scan_value m s = Inr (v, r)"
  "scan_elems n s = Inr (vs, r) \<Longrightarrow> length s \<le> length r + m \<Longrightarrow> scan_elems m s = Inr (vs, r)"
  "scan_members n s = Inr (ms, r) \<Longrightarrow> length s \<le> length r + m \<Longrightarrow> scan_members m s = Inr (ms, r)"
proof (induction n s and n s and n s arbitrary: m v r and m vs r and m ms r rule: scan_value_scan_elems_scan_members.induct)
  case (2 n s)
  obtain c q where c: "skip_ws s = c # q" using 2(3) by (auto simp: scan_value.simps split: list.splits)
  have lq: "length q < length s" using skip_ws_Cons [OF c] .
  obtain k where k: "m = Suc k" using 2(4) scan_value_length [OF 2(3)] by (cases m) auto
  note a = 2(3) [unfolded scan_value.simps c list.case]
  show ?case
  proof (cases "c = CHR 0x7B \<or> c = CHR 0x5B")
    case True
    then obtain d q1 where d: "skip_ws q = d # q1" using a by (cases "skip_ws q") auto
    have l: "length (d # q1) \<le> length q" using skip_ws_Cons [OF d] by simp
    show ?thesis
    proof (cases "c = CHR 0x7B")
      case obj: True
      show ?thesis
      proof (cases "d = CHR 0x7D")
        case False
        then obtain ms where m: "scan_members n (d # q1) = Inr (ms, r)" "v = JObj ms" using a obj d by (auto split: sum.splits)
        have "scan_members k (d # q1) = Inr (ms, r)"
          using 2(1) [OF c obj d False m(1)] 2(4) k l lq by simp
        then show ?thesis using m(2) obj d False by (simp add: k scan_value.simps c)
      qed (use a obj d in \<open>simp add: k scan_value.simps c\<close>)
    next
      case arr: False
      then have cc: "c = CHR 0x5B" using True by simp
      show ?thesis
      proof (cases "d = CHR 0x5D")
        case False
        then obtain vs where m: "scan_elems n (d # q1) = Inr (vs, r)" "v = JArr vs" using a cc d by (auto split: sum.splits)
        have "scan_elems k (d # q1) = Inr (vs, r)"
          using 2(2) [OF c arr cc d False m(1)] 2(4) k l lq by simp
        then show ?thesis using m(2) cc d False by (simp add: k scan_value.simps c)
      qed (use a cc d in \<open>simp add: k scan_value.simps c\<close>)
    qed
  qed (use a in \<open>simp add: k scan_value.simps c\<close>)
next
  case (4 n s)
  obtain v q where v: "scan_value n s = Inr (v, q)" using 4(3) by (auto simp: scan_elems.simps split: sum.splits)
  obtain c q1 where c: "skip_ws q = c # q1" using 4(3) v by (auto simp: scan_elems.simps split: list.splits)
  have l: "length q < length s" "length q1 < length q" using scan_value_length [OF v] skip_ws_Cons [OF c] by auto
  note a = 4(3) [unfolded scan_elems.simps v c list.case sum.case prod.case]
  show ?case
  proof (cases "c = CHR '',''")
    case True
    then obtain ws where w: "scan_elems n q1 = Inr (ws, r)" "vs = v # ws" using a by (auto split: sum.splits)
    note lw = shrinksD [OF conjunct1 [OF conjunct2 [OF scan_shrinks]] w(1)]
    obtain k where k: "m = Suc k" using 4(4) l lw by (cases m) auto
    have "scan_value k s = Inr (v, q)" using 4(1) [OF v] 4(4) k l lw by simp
    moreover have "scan_elems k q1 = Inr (ws, r)" using 4(2) [OF v refl c True w(1)] 4(4) k l lw by simp
    ultimately show ?thesis using w(2) True by (simp add: k scan_elems.simps c)
  next
    case False
    then have e: "c = CHR 0x5D" "vs = [v]" "r = q1" using a by (auto split: if_splits)
    obtain k where k: "m = Suc k" using 4(4) l e by (cases m) auto
    have "scan_value k s = Inr (v, q)" using 4(1) [OF v] 4(4) k l e by simp
    then show ?thesis using e by (simp add: k scan_elems.simps c)
  qed
next
  case (6 n s)
  obtain c q where c: "skip_ws s = c # q" "c = CHR 0x22" using 6(3) by (auto simp: scan_members.simps split: list.splits if_splits)
  note s1 = 6(3) [unfolded scan_members.simps c list.case, simplified]
  obtain x q1 where x: "scan_string (Suc (length q)) q = Inr (x, q1)" using s1 by (auto split: sum.splits)
  note s2 = s1 [unfolded x sum.case prod.case]
  obtain c2 q2 where c2: "skip_ws q1 = c2 # q2" "c2 = CHR '':''" using s2 by (auto split: list.splits if_splits)
  note s3 = s2 [unfolded c2 list.case, simplified]
  obtain v q3 where v: "scan_value n q2 = Inr (v, q3)" using s3 by (auto split: sum.splits)
  note s4 = s3 [unfolded v sum.case prod.case]
  obtain d q4 where d: "skip_ws q3 = d # q4" using s4 by (auto split: list.splits)
  note a = s4 [unfolded d list.case]
  have l: "length q < length s" "length q2 < length q" "length q3 < length q2" "length q4 < length q3"
    using skip_ws_Cons [OF c(1)] scan_string_length [OF x] skip_ws_Cons [OF c2(1)] scan_value_length [OF v] skip_ws_Cons [OF d] by auto
  have q: "q2 = tl (skip_ws q1)" using c2 by simp
  show ?case
  proof (cases "d = CHR '',''")
    case True
    then obtain ws where w: "scan_members n q4 = Inr (ws, r)" "ms = (x, v) # ws" using a by (auto split: sum.splits)
    note lw = shrinksD [OF conjunct2 [OF conjunct2 [OF scan_shrinks]] w(1)]
    obtain k where k: "m = Suc k" using 6(4) l lw by (cases m) auto
    have "scan_value k q2 = Inr (v, q3)" using 6(1) [OF c(1) _ x refl c2(1) _ v] c(2) c2(2) 6(4) k l lw by simp
    moreover have "scan_members k q4 = Inr (ws, r)" using 6(2) [OF c(1) _ x refl c2(1) _ v refl d True w(1)] c(2) c2(2) 6(4) k l lw by simp
    ultimately show ?thesis using w(2) True c(2) c2(2) x d by (simp add: k scan_members.simps c(1) c2(1))
  next
    case False
    then have e: "d = CHR 0x7D" "ms = [(x, v)]" "r = q4" using a by (auto split: if_splits)
    obtain k where k: "m = Suc k" using 6(4) l e by (cases m) auto
    have "scan_value k q2 = Inr (v, q3)" using 6(1) [OF c(1) _ x refl c2(1) _ v] c(2) c2(2) 6(4) k l e by simp
    then show ?thesis using e c(2) c2(2) x d by (simp add: k scan_members.simps c(1) c2(1))
  qed
qed (simp_all add: scan_value.simps scan_elems.simps scan_members.simps)

lemma scan_fuel_2: "scan_value n s = Inr (v, r) \<Longrightarrow> scan_value (Suc (2 * length s)) s = Inr (v, r)"
  by (erule scan_fuel) simp

subsection \<open>The decoder consumes input\<close>

definition reads :: "Decoder \<Rightarrow> Decoder \<Rightarrow> bool" where
  "reads d d' \<longleftrightarrow> length (dc_rest d') < length (dc_rest d)"

lemma peek_rest: "peek d = (Inr c, d') \<Longrightarrow> dc_rest d' = c # tl (dc_rest d') \<and> length (dc_rest d') \<le> length (dc_rest d)"
  using skip_ws_length [of "dc_rest d"] by (auto simp: peek_def Let_def split: list.splits)

lemma tokenValueEnd_rest [simp]: "dc_rest (tokenValueEnd d) = dc_rest d"
  by (simp add: tokenValueEnd_def)

lemma readValue_reads: "readValue d = (Inr v, d') \<Longrightarrow> reads d d'"
  by (auto simp: readValue_def reads_def dest: scan_value_length split: sum.splits)

lemma prepare_rest: "tokenPrepareForDecode d = (None, d') \<Longrightarrow> length (dc_rest d') \<le> length (dc_rest d)"
  by (auto simp: tokenPrepareForDecode_def dest!: peek_rest split: tokenState.splits prod.splits sum.splits if_splits)

lemma Decode_reads: "Decode d = (Inr v, d') \<Longrightarrow> reads d d'"
proof -
  assume a: "Decode d = (Inr v, d')"
  then obtain d1 where p: "tokenPrepareForDecode d = (None, d1)" by (auto simp: Decode_def split: prod.splits option.splits)
  obtain d2 where r: "readValue d1 = (Inr v, d2)" "d' = tokenValueEnd d2"
    using a p by (auto simp: Decode_def split: prod.splits sum.splits if_splits)
  then show ?thesis using prepare_rest [OF p] readValue_reads [OF r(1)] by (simp add: reads_def)
qed

lemma token_at_reads:
  assumes c: "dc_rest d \<noteq> []" and t: "token_at c d = (Inr t, d')"
  shows "reads d d'"
proof -
  have tl: "length (tl (dc_rest d)) < length (dc_rest d)" using c by (cases "dc_rest d") auto
  show ?thesis
  proof (cases "c = CHR 0x5B \<or> c = CHR 0x5D \<or> c = CHR 0x7B \<or> c = CHR 0x7D")
    case True
    then show ?thesis using t tl by (auto simp: token_at_def Let_def reads_def tokenError_def split: if_splits)
  next
    case False
    from t False consider v d1 where "Decode (d\<lparr>dc_state := tokenTopValue\<rparr>) = (Inr v, d1)" "dc_rest d' = dc_rest d1"
      | v where "Decode d = (Inr v, d')"
      by (auto simp: token_at_def Let_def tokenError_def split: if_splits prod.splits sum.splits)
    then show ?thesis using Decode_reads by cases (fastforce simp: reads_def)+
  qed
qed

lemma Token_reads: "Token d = (Inr t, d') \<Longrightarrow> reads d d'"
proof -
  assume a: "Token d = (Inr t, d')"
  obtain c d1 where p: "peek d = (Inr c, d1)" using a by (auto simp: Token_def split: prod.splits sum.splits)
  note p1 = peek_rest [OF p]
  show ?thesis
  proof (cases "c = CHR '':'' \<or> c = CHR '',''")
    case False
    then have "token_at c d1 = (Inr t, d')" using a p by (simp add: Token_def)
    moreover have "dc_rest d1 \<noteq> []" using p1 by (metis list.distinct(1))
    ultimately have "reads d1 d'" using token_at_reads by blast
    then show ?thesis using p1 by (simp add: reads_def)
  next
    case True
    then obtain st where st: "(if c = CHR '':'' \<and> dc_state d1 = tokenObjectColon then Some tokenObjectValue
        else if c = CHR '','' \<and> dc_state d1 = tokenArrayComma then Some tokenArrayValue
        else if c = CHR '','' \<and> dc_state d1 = tokenObjectComma then Some tokenObjectKey else None) = Some st"
      using a p by (auto simp: Token_def tokenError_def split: option.splits if_splits)
    let ?d = "d1\<lparr>dc_rest := tl (dc_rest d1), dc_state := st\<rparr>"
    obtain c2 d2 where p2: "peek ?d = (Inr c2, d2)" "token_at c2 d2 = (Inr t, d')"
      using a unfolding Token_def p prod.case sum.case if_P [OF True] st option.case
      by (auto simp: tokenError_def split: prod.splits sum.splits if_splits)
    have "length (dc_rest d2) \<le> length (tl (dc_rest d1))" "dc_rest d2 \<noteq> []"
      using peek_rest [OF p2(1)] by simp (metis peek_rest [OF p2(1)] list.distinct(1))
    moreover have "length (tl (dc_rest d1)) \<le> length (dc_rest d)" using conjunct2 [OF p1] by simp
    ultimately show ?thesis using token_at_reads [OF _ p2(2)] by (simp add: reads_def)
  qed
qed

end
