(* ===== verification/ManifestStream.thy ===== *)
theory ManifestStream
  imports Json Spill ChunkKey
begin

text \<open>
  \<^verbatim>\<open>internal/repo/manifeststream.go\<close>: the readers that walk a backup manifest or a WAL segment manifest token by
  token and hand every chunk hash to a callback. The callback changes a state \<open>'s\<close> and may fail. The loops
  end because each turn consumes input.
\<close>

type_synonym 's visit = "string \<Rightarrow> 's \<Rightarrow> error option \<times> 's"

definition MaxStreamedMetadataBytes :: int where "MaxStreamedMetadataBytes = 17592186044416"

definition msExpectDelim :: "char \<Rightarrow> Decoder \<Rightarrow> error option \<times> Decoder" where
  "msExpectDelim want d =
     (case Token d of
        (Inl err, d1) \<Rightarrow> (Some (if is_err err IoEOF then Sentinel IoErrUnexpectedEOF else err), d1)
      | (Inr tok, d1) \<Rightarrow> if tok = TDelim want then (None, d1) else (Some (Errorf ''manifest: expected delimiter'' []), d1))"

definition msReadKey :: "Decoder \<Rightarrow> (error + string) \<times> Decoder" where
  "msReadKey d =
     (case Token d of
        (Inl err, d1) \<Rightarrow> (Inl err, d1)
      | (Inr (TValue (JStr k)), d1) \<Rightarrow> (Inr k, d1)
      | (Inr _, d1) \<Rightarrow> (Inl (Errorf ''manifest: expected object key'' []), d1))"

definition msSkipValue :: "Decoder \<Rightarrow> error option \<times> Decoder" where
  "msSkipValue d = (case Decode d of (Inl err, d1) \<Rightarrow> (Some err, d1) | (Inr _, d1) \<Rightarrow> (None, d1))"

text \<open>\<^verbatim>\<open>strings.EqualFold\<close> on ASCII.\<close>

definition EqualFold :: "string \<Rightarrow> string \<Rightarrow> bool" where
  "EqualFold a b \<longleftrightarrow> ToLower a = ToLower b"

text \<open>
  Decoding into \<^verbatim>\<open>struct{Hash string `json:"hash"`}\<close>: keys match without regard to case, the last one counts,
  null leaves the zero value, anything else but a string is a type error.
\<close>

fun hash_field :: "(string \<times> json) list \<Rightarrow> string \<Rightarrow> error + string" where
  "hash_field [] h = Inr h"
| "hash_field ((k, v) # ms) h =
     (if EqualFold k ''hash'' then
        (case v of
           JStr s \<Rightarrow> hash_field ms s
         | JNull \<Rightarrow> hash_field ms h
         | _ \<Rightarrow> Inl (ErrorNew ''json: cannot unmarshal into Go struct field chunkRef.hash''))
      else hash_field ms h)"

definition chunkRef_of :: "json \<Rightarrow> error + string" where
  "chunkRef_of v =
     (case v of
        JObj ms \<Rightarrow> hash_field ms []
      | JNull \<Rightarrow> Inr []
      | _ \<Rightarrow> Inl (ErrorNew ''json: cannot unmarshal into Go value of type repo.chunkRef''))"

definition decode_chunkRef :: "Decoder \<Rightarrow> (error + string) \<times> Decoder" where
  "decode_chunkRef d =
     (case Decode d of
        (Inl err, d1) \<Rightarrow> (Inl err, d1)
      | (Inr v, d1) \<Rightarrow> (chunkRef_of v, d1))"

lemma msExpectDelim_reads: "msExpectDelim c d = (None, d') \<Longrightarrow> reads d d'"
  by (auto simp: msExpectDelim_def dest: Token_reads split: prod.splits sum.splits if_splits)

lemma msReadKey_reads: "msReadKey d = (Inr k, d') \<Longrightarrow> reads d d'"
  by (auto simp: msReadKey_def dest: Token_reads split: prod.splits sum.splits Token.splits json.splits)

lemma msSkipValue_reads: "msSkipValue d = (None, d') \<Longrightarrow> reads d d'"
  by (auto simp: msSkipValue_def dest: Decode_reads split: prod.splits sum.splits)

lemma decode_chunkRef_reads: "decode_chunkRef d = (Inr h, d') \<Longrightarrow> reads d d'"
  by (auto simp: decode_chunkRef_def dest: Decode_reads split: prod.splits sum.splits)

lemma reads_trans: "reads a b \<Longrightarrow> reads b c \<Longrightarrow> reads a c"
  by (simp add: reads_def)

function chunks_loop :: "'s visit \<Rightarrow> Decoder \<Rightarrow> 's \<Rightarrow> error option \<times> Decoder \<times> 's" where
  "chunks_loop visit d s =
     (if More d then
        (case decode_chunkRef d of
           (Inl err, d1) \<Rightarrow> (Some err, d1, s)
         | (Inr h, d1) \<Rightarrow>
             (case visit h s of
                (Some err, s1) \<Rightarrow> (Some err, d1, s1)
              | (None, s1) \<Rightarrow> chunks_loop visit d1 s1))
      else (None, d, s))"
  by pat_completeness auto
termination
  by (relation "measure (\<lambda>(v, d, s). length (dc_rest d))") (auto dest!: decode_chunkRef_reads [OF sym] simp: reads_def)

declare chunks_loop.simps [simp del]

text \<open>The opening of an array that may be null: \<open>Inr False\<close> for null.\<close>

definition open_array :: "string \<Rightarrow> Decoder \<Rightarrow> (error + bool) \<times> Decoder" where
  "open_array what d =
     (case Token d of
        (Inl err, d1) \<Rightarrow> (Inl err, d1)
      | (Inr tok, d1) \<Rightarrow>
          if tok = TValue JNull then (Inr False, d1)
          else if tok = TDelim (CHR 0x5B) then (Inr True, d1)
          else (Inl (Errorf what []), d1))"

definition streamChunksArray :: "'s visit \<Rightarrow> Decoder \<Rightarrow> 's \<Rightarrow> error option \<times> Decoder \<times> 's" where
  "streamChunksArray visit d s =
     (case open_array ''manifest: chunks is not an array'' d of
        (Inl err, d1) \<Rightarrow> (Some err, d1, s)
      | (Inr False, d1) \<Rightarrow> (None, d1, s)
      | (Inr True, d1) \<Rightarrow>
          (case chunks_loop visit d1 s of
             (Some err, d2, s1) \<Rightarrow> (Some err, d2, s1)
           | (None, d2, s1) \<Rightarrow> (case msExpectDelim (CHR 0x5D) d2 of (e, d3) \<Rightarrow> (e, d3, s1))))"

lemma chunks_loop_rest: "chunks_loop visit d s = (e, d', s') \<Longrightarrow> e = None \<Longrightarrow> length (dc_rest d') \<le> length (dc_rest d)"
proof (induction visit d s arbitrary: e d' s' rule: chunks_loop.induct)
  case (1 visit d s)
  show ?case
  proof (cases "More d")
    case True
    note c = 1(2) [unfolded chunks_loop.simps [of visit d s] if_P [OF True] 1(3)]
    obtain h d1 where h: "decode_chunkRef d = (Inr h, d1)" using c by (auto split: prod.splits sum.splits)
    obtain s1 where v: "visit h s = (None, s1)" using c h by (auto split: prod.splits option.splits)
    have "length (dc_rest d') \<le> length (dc_rest d1)"
      using 1(1) [OF True h [symmetric] refl v [symmetric] refl _ refl, of d' s'] c h v by simp
    then show ?thesis using decode_chunkRef_reads [OF h] by (simp add: reads_def)
  next
    case False
    then show ?thesis using 1(2) by (subst (asm) chunks_loop.simps) simp
  qed
qed

lemma streamChunksArray_reads: "streamChunksArray visit d s = (None, d', s') \<Longrightarrow> reads d d'"
  by (auto simp: streamChunksArray_def open_array_def reads_def
      dest!: Token_reads chunks_loop_rest msExpectDelim_reads split: prod.splits sum.splits bool.splits option.splits if_splits)

text \<open>One object: each member whose key matches \<open>name\<close> is walked by \<open>inner\<close>, the others are skipped.\<close>

definition member_step :: "string \<Rightarrow> (Decoder \<Rightarrow> 's \<Rightarrow> error option \<times> Decoder \<times> 's) \<Rightarrow> Decoder \<Rightarrow> 's \<Rightarrow>
    error option \<times> Decoder \<times> 's" where
  "member_step name inner d s =
     (case msReadKey d of
        (Inl err, d1) \<Rightarrow> (Some err, d1, s)
      | (Inr key, d1) \<Rightarrow>
          if \<not> EqualFold key name then (case msSkipValue d1 of (e, d2) \<Rightarrow> (e, d2, s))
          else inner d1 s)"

lemma member_step_reads:
  assumes "member_step name inner d s = (None, d', s')" "\<And>d s d' s'. inner d s = (None, d', s') \<Longrightarrow> reads d d'"
  shows "reads d d'"
proof -
  obtain key d1 where k: "msReadKey d = (Inr key, d1)" using assms(1) by (auto simp: member_step_def split: prod.splits sum.splits)
  have "reads d1 d'" using assms k by (auto simp: member_step_def split: prod.splits if_splits dest: msSkipValue_reads)
  then show ?thesis using msReadKey_reads [OF k] reads_trans by blast
qed

lemma member_chunks_reads: "member_step name (streamChunksArray visit) d s = (None, d', s') \<Longrightarrow> reads d d'"
  by (erule member_step_reads) (rule streamChunksArray_reads)

function file_members :: "'s visit \<Rightarrow> Decoder \<Rightarrow> 's \<Rightarrow> error option \<times> Decoder \<times> 's" where
  "file_members visit d s =
     (if More d then
        (case member_step ''chunks'' (streamChunksArray visit) d s of
           (Some err, d1, s1) \<Rightarrow> (Some err, d1, s1)
         | (None, d1, s1) \<Rightarrow> file_members visit d1 s1)
      else (None, d, s))"
  by pat_completeness auto
termination
  by (relation "measure (\<lambda>(v, d, s). length (dc_rest d))")
    (auto dest!: member_chunks_reads [OF sym] simp: reads_def)

declare file_members.simps [simp del]

lemma file_members_rest: "file_members visit d s = (e, d', s') \<Longrightarrow> e = None \<Longrightarrow> length (dc_rest d') \<le> length (dc_rest d)"
proof (induction visit d s arbitrary: e d' s' rule: file_members.induct)
  case (1 visit d s)
  show ?case
  proof (cases "More d")
    case True
    note c = 1(2) [unfolded file_members.simps [of visit d s] if_P [OF True] 1(3)]
    obtain d1 s1 where m: "member_step ''chunks'' (streamChunksArray visit) d s = (None, d1, s1)"
      using c by (auto split: prod.splits option.splits)
    have "length (dc_rest d') \<le> length (dc_rest d1)" using 1(1) [OF True m [symmetric] refl refl _ refl, of d' s'] c m by simp
    then show ?thesis using member_chunks_reads [OF m] by (simp add: reads_def)
  next
    case False
    then show ?thesis using 1(2) by (subst (asm) file_members.simps) simp
  qed
qed

definition file_object :: "'s visit \<Rightarrow> Decoder \<Rightarrow> 's \<Rightarrow> error option \<times> Decoder \<times> 's" where
  "file_object visit d s =
     (case msExpectDelim (CHR 0x7B) d of
        (Some err, d1) \<Rightarrow> (Some err, d1, s)
      | (None, d1) \<Rightarrow>
          (case file_members visit d1 s of
             (Some err, d2, s1) \<Rightarrow> (Some err, d2, s1)
           | (None, d2, s1) \<Rightarrow> (case msExpectDelim (CHR 0x7D) d2 of (e, d3) \<Rightarrow> (e, d3, s1))))"

lemma file_object_reads: "file_object visit d s = (None, d', s') \<Longrightarrow> reads d d'"
  by (auto simp: file_object_def reads_def dest!: msExpectDelim_reads file_members_rest split: prod.splits option.splits)

function files_loop :: "'s visit \<Rightarrow> Decoder \<Rightarrow> 's \<Rightarrow> error option \<times> Decoder \<times> 's" where
  "files_loop visit d s =
     (if More d then
        (case file_object visit d s of
           (Some err, d1, s1) \<Rightarrow> (Some err, d1, s1)
         | (None, d1, s1) \<Rightarrow> files_loop visit d1 s1)
      else (None, d, s))"
  by pat_completeness auto
termination
  by (relation "measure (\<lambda>(v, d, s). length (dc_rest d))") (auto dest!: file_object_reads [OF sym] simp: reads_def)

declare files_loop.simps [simp del]

definition streamFilesArray :: "'s visit \<Rightarrow> Decoder \<Rightarrow> 's \<Rightarrow> error option \<times> Decoder \<times> 's" where
  "streamFilesArray visit d s =
     (case open_array ''manifest: files is not an array'' d of
        (Inl err, d1) \<Rightarrow> (Some err, d1, s)
      | (Inr False, d1) \<Rightarrow> (None, d1, s)
      | (Inr True, d1) \<Rightarrow>
          (case files_loop visit d1 s of
             (Some err, d2, s1) \<Rightarrow> (Some err, d2, s1)
           | (None, d2, s1) \<Rightarrow> (case msExpectDelim (CHR 0x5D) d2 of (e, d3) \<Rightarrow> (e, d3, s1))))"

lemma files_loop_rest: "files_loop visit d s = (e, d', s') \<Longrightarrow> e = None \<Longrightarrow> length (dc_rest d') \<le> length (dc_rest d)"
proof (induction visit d s arbitrary: e d' s' rule: files_loop.induct)
  case (1 visit d s)
  show ?case
  proof (cases "More d")
    case True
    note c = 1(2) [unfolded files_loop.simps [of visit d s] if_P [OF True] 1(3)]
    obtain d1 s1 where m: "file_object visit d s = (None, d1, s1)" using c by (auto split: prod.splits option.splits)
    have "length (dc_rest d') \<le> length (dc_rest d1)" using 1(1) [OF True m [symmetric] refl refl _ refl, of d' s'] c m by simp
    then show ?thesis using file_object_reads [OF m] by (simp add: reads_def)
  next
    case False
    then show ?thesis using 1(2) by (subst (asm) files_loop.simps) simp
  qed
qed

lemma streamFilesArray_reads: "streamFilesArray visit d s = (None, d', s') \<Longrightarrow> reads d d'"
  by (auto simp: streamFilesArray_def open_array_def reads_def
      dest!: Token_reads files_loop_rest msExpectDelim_reads split: prod.splits sum.splits bool.splits option.splits if_splits)

lemma member_files_reads: "member_step name (streamFilesArray visit) d s = (None, d', s') \<Longrightarrow> reads d d'"
  by (erule member_step_reads) (rule streamFilesArray_reads)

function backup_members :: "'s visit \<Rightarrow> Decoder \<Rightarrow> 's \<Rightarrow> error option \<times> Decoder \<times> 's" where
  "backup_members visit d s =
     (if More d then
        (case member_step ''files'' (streamFilesArray visit) d s of
           (Some err, d1, s1) \<Rightarrow> (Some err, d1, s1)
         | (None, d1, s1) \<Rightarrow> backup_members visit d1 s1)
      else (None, d, s))"
  by pat_completeness auto
termination
  by (relation "measure (\<lambda>(v, d, s). length (dc_rest d))") (auto dest!: member_files_reads [OF sym] simp: reads_def)

declare backup_members.simps [simp del]

text \<open>A whole document: an object whose members the loop walks. The reader ends after 16 TiB.\<close>

definition limit_metadata :: "error reader \<Rightarrow> error reader" where
  "limit_metadata r =
     (if MaxStreamedMetadataBytes \<le> int (length (rd_data r)) then LimitReader r (nat MaxStreamedMetadataBytes) else r)"

definition stream_object :: "('s visit \<Rightarrow> Decoder \<Rightarrow> 's \<Rightarrow> error option \<times> Decoder \<times> 's) \<Rightarrow> error reader \<Rightarrow> 's visit \<Rightarrow> 's \<Rightarrow>
    error option \<times> 's" where
  "stream_object members r visit s =
     (case msExpectDelim (CHR 0x7B) (NewDecoder (limit_metadata r)) of
        (Some err, _) \<Rightarrow> (Some err, s)
      | (None, d1) \<Rightarrow>
          (case members visit d1 s of
             (Some err, _, s1) \<Rightarrow> (Some err, s1)
           | (None, d2, s1) \<Rightarrow> (case msExpectDelim (CHR 0x7D) d2 of (e, _) \<Rightarrow> (e, s1))))"

definition streamBackupChunkRefs :: "error reader \<Rightarrow> 's visit \<Rightarrow> 's \<Rightarrow> error option \<times> 's" where
  "streamBackupChunkRefs r visit s = stream_object backup_members r visit s"

text \<open>The members of a segment manifest are walked as those of a file entry.\<close>

definition streamSegmentChunkRefs :: "error reader \<Rightarrow> 's visit \<Rightarrow> 's \<Rightarrow> error option \<times> 's" where
  "streamSegmentChunkRefs r visit s = stream_object file_members r visit s"

subsection \<open>What a stream visits\<close>

text \<open>The visits of a list, and the visitor that only collects.\<close>

fun visits :: "'s visit \<Rightarrow> string list \<Rightarrow> 's \<Rightarrow> error option \<times> 's" where
  "visits visit [] s = (None, s)"
| "visits visit (h # hs) s = (case visit h s of (Some e, s1) \<Rightarrow> (Some e, s1) | (None, s1) \<Rightarrow> visits visit hs s1)"

definition collect :: "string list visit" where
  "collect h acc = (None, acc @ [h])"

lemma visits_append: "visits visit (a @ b) s = (None, s') \<longleftrightarrow> (\<exists>s1. visits visit a s = (None, s1) \<and> visits visit b s1 = (None, s'))"
  by (induction a arbitrary: s) (auto split: prod.splits option.splits)

text \<open>A walker that succeeds visits what the collecting walker collects, and reads the same input.\<close>

definition collects :: "('s visit \<Rightarrow> Decoder \<Rightarrow> 's \<Rightarrow> error option \<times> Decoder \<times> 's) \<Rightarrow>
    (string list visit \<Rightarrow> Decoder \<Rightarrow> string list \<Rightarrow> error option \<times> Decoder \<times> string list) \<Rightarrow> bool" where
  "collects f g \<longleftrightarrow> (\<forall>visit d s d' s' acc. f visit d s = (None, d', s') \<longrightarrow>
     (\<exists>hs. g collect d acc = (None, d', acc @ hs) \<and> visits visit hs s = (None, s')))"

lemma collectsD: "collects f g \<Longrightarrow> f visit d s = (None, d', s') \<Longrightarrow>
    \<exists>hs. g collect d acc = (None, d', acc @ hs) \<and> visits visit hs s = (None, s')"
  by (simp add: collects_def)

lemma chunks_loop_collects: "collects chunks_loop chunks_loop"
proof -
  have "\<exists>hs. chunks_loop collect d acc = (None, d', acc @ hs) \<and> visits visit hs s = (None, s')"
    if "chunks_loop visit d s = (None, d', s')" for visit d d' acc and s s' :: 's
    using that
  proof (induction visit d s arbitrary: d' s' acc rule: chunks_loop.induct)
    case (1 visit d s)
    show ?case
    proof (cases "More d")
      case True
      note c = 1(2) [unfolded chunks_loop.simps [of visit d s] if_P [OF True]]
      obtain h d1 where h: "decode_chunkRef d = (Inr h, d1)" using c by (auto split: prod.splits sum.splits)
      obtain s1 where v: "visit h s = (None, s1)" using c h by (auto split: prod.splits option.splits)
      have "chunks_loop visit d1 s1 = (None, d', s')" using c h v by simp
      from 1(1) [OF True h [symmetric] refl v [symmetric] refl this, of "acc @ [h]"]
      obtain hs where "chunks_loop collect d1 (acc @ [h]) = (None, d', (acc @ [h]) @ hs)" "visits visit hs s1 = (None, s')" by blast
      moreover have "chunks_loop collect d acc = chunks_loop collect d1 (acc @ [h])"
        using True h by (subst chunks_loop.simps) (simp add: collect_def)
      ultimately show ?thesis using v by (intro exI [of _ "h # hs"]) simp
    next
      case False
      then have "chunks_loop visit d s = (None, d, s)" "chunks_loop collect d acc = (None, d, acc)"
        by (subst chunks_loop.simps, simp)+
      then show ?thesis using 1(2) by (intro exI [of _ "[]"]) simp
    qed
  qed
  then show ?thesis unfolding collects_def by blast
qed

lemma streamChunksArray_collects: "collects streamChunksArray streamChunksArray"
  unfolding collects_def
proof (intro allI impI)
  fix visit d acc d' and s s' :: 's
  assume a: "streamChunksArray visit d s = (None, d', s')"
  obtain b d1 where o: "open_array ''manifest: chunks is not an array'' d = (Inr b, d1)"
    using a by (auto simp: streamChunksArray_def split: prod.splits sum.splits)
  show "\<exists>hs. streamChunksArray collect d acc = (None, d', acc @ hs) \<and> visits visit hs s = (None, s')"
  proof (cases b)
    case False
    then show ?thesis using a o by (intro exI [of _ "[]"]) (simp add: streamChunksArray_def)
  next
    case True
    obtain d2 where l: "chunks_loop visit d1 s = (None, d2, s')" "msExpectDelim (CHR 0x5D) d2 = (None, d')"
      using a o True by (auto simp: streamChunksArray_def split: prod.splits option.splits)
    from collectsD [OF chunks_loop_collects l(1), of acc] l(2) o True show ?thesis by (auto simp: streamChunksArray_def)
  qed
qed

lemma member_step_collects:
  assumes "collects f g"
  shows "collects (\<lambda>visit. member_step name (f visit)) (\<lambda>visit. member_step name (g visit))"
  unfolding collects_def
proof (intro allI impI)
  fix visit d s d' s' acc
  assume a: "member_step name (f visit) d s = (None, d', s')"
  obtain k d1 where k: "msReadKey d = (Inr k, d1)" using a by (auto simp: member_step_def split: prod.splits sum.splits)
  show "\<exists>hs. member_step name (g collect) d acc = (None, d', acc @ hs) \<and> visits visit hs s = (None, s')"
  proof (cases "EqualFold k name")
    case True
    then have "f visit d1 s = (None, d', s')" using a k by (simp add: member_step_def)
    from collectsD [OF assms this, of acc] show ?thesis using k True by (simp add: member_step_def)
  next
    case False
    then show ?thesis using a k by (intro exI [of _ "[]"]) (auto simp: member_step_def split: prod.splits)
  qed
qed

text \<open>The three loops have one shape: turn while there is more.\<close>

lemma loop_collects:
  assumes st: "collects f g"
    and lf: "\<And>visit d s. F visit d s = (if More d then (case f visit d s of (Some err, d1, s1) \<Rightarrow> (Some err, d1, s1)
        | (None, d1, s1) \<Rightarrow> F visit d1 s1) else (None, d, s))"
    and lg: "\<And>visit d s. G visit d s = (if More d then (case g visit d s of (Some err, d1, s1) \<Rightarrow> (Some err, d1, s1)
        | (None, d1, s1) \<Rightarrow> G visit d1 s1) else (None, d, s))"
    and rd: "\<And>visit d s d' s'. f visit d s = (None, d', s') \<Longrightarrow> reads d d'"
  shows "collects F G"
proof -
  have "\<exists>hs. G collect d acc = (None, d', acc @ hs) \<and> visits visit hs s = (None, s')"
    if "F visit d s = (None, d', s')" for visit d s d' s' acc
    using that
  proof (induction "length (dc_rest d)" arbitrary: d s acc rule: less_induct)
    case less
    show ?case
    proof (cases "More d")
      case True
      obtain d1 s1 where f: "f visit d s = (None, d1, s1)" "F visit d1 s1 = (None, d', s')"
        using less(2) True by (subst (asm) lf) (auto split: prod.splits option.splits)
      obtain hs where hs: "g collect d acc = (None, d1, acc @ hs)" "visits visit hs s = (None, s1)"
        using collectsD [OF st f(1), of acc] by blast
      have "length (dc_rest d1) < length (dc_rest d)" using rd [OF f(1)] by (simp add: reads_def)
      from less(1) [OF this f(2), of "acc @ hs"]
      obtain hs' where "G collect d1 (acc @ hs) = (None, d', (acc @ hs) @ hs')" "visits visit hs' s1 = (None, s')" by blast
      then show ?thesis using hs True by (intro exI [of _ "hs @ hs'"]) (subst lg, auto simp: visits_append)
    next
      case False
      then have "F visit d s = (None, d, s)" "G collect d acc = (None, d, acc)" by (subst lf, simp) (subst lg, simp add: False)
      then show ?thesis using less(2) by (intro exI [of _ "[]"]) simp
    qed
  qed
  then show ?thesis unfolding collects_def by blast
qed

lemma file_members_collects: "collects file_members file_members"
  by (rule loop_collects [OF member_step_collects [OF streamChunksArray_collects] file_members.simps file_members.simps])
    (rule member_chunks_reads)

lemma file_object_collects: "collects file_object file_object"
  unfolding collects_def
proof (intro allI impI)
  fix visit d acc d' and s s' :: 's
  assume a: "file_object visit d s = (None, d', s')"
  obtain d1 d2 where m: "msExpectDelim (CHR 0x7B) d = (None, d1)" "file_members visit d1 s = (None, d2, s')"
    "msExpectDelim (CHR 0x7D) d2 = (None, d')" using a by (auto simp: file_object_def split: prod.splits option.splits)
  from collectsD [OF file_members_collects m(2), of acc] m(1,3)
  show "\<exists>hs. file_object collect d acc = (None, d', acc @ hs) \<and> visits visit hs s = (None, s')" by (auto simp: file_object_def)
qed

lemma files_loop_collects: "collects files_loop files_loop"
  by (rule loop_collects [OF file_object_collects files_loop.simps files_loop.simps]) (rule file_object_reads)

lemma streamFilesArray_collects: "collects streamFilesArray streamFilesArray"
  unfolding collects_def
proof (intro allI impI)
  fix visit d acc d' and s s' :: 's
  assume a: "streamFilesArray visit d s = (None, d', s')"
  obtain b d1 where o: "open_array ''manifest: files is not an array'' d = (Inr b, d1)"
    using a by (auto simp: streamFilesArray_def split: prod.splits sum.splits)
  show "\<exists>hs. streamFilesArray collect d acc = (None, d', acc @ hs) \<and> visits visit hs s = (None, s')"
  proof (cases b)
    case False
    then show ?thesis using a o by (intro exI [of _ "[]"]) (simp add: streamFilesArray_def)
  next
    case True
    obtain d2 where l: "files_loop visit d1 s = (None, d2, s')" "msExpectDelim (CHR 0x5D) d2 = (None, d')"
      using a o True by (auto simp: streamFilesArray_def split: prod.splits option.splits)
    from collectsD [OF files_loop_collects l(1), of acc] l(2) o True show ?thesis by (auto simp: streamFilesArray_def)
  qed
qed

lemma backup_members_collects: "collects backup_members backup_members"
  by (rule loop_collects [OF member_step_collects [OF streamFilesArray_collects] backup_members.simps backup_members.simps])
    (rule member_files_reads)

lemma stream_object_collects:
  assumes "collects f g" "stream_object f r visit s = (None, s')"
  shows "\<exists>hs. stream_object g r collect [] = (None, hs) \<and> visits visit hs s = (None, s')"
proof -
  obtain d1 d2 d3 where m: "msExpectDelim (CHR 0x7B) (NewDecoder (limit_metadata r)) = (None, d1)" "f visit d1 s = (None, d2, s')"
    "msExpectDelim (CHR 0x7D) d2 = (None, d3)" using assms(2) by (auto simp: stream_object_def split: prod.splits option.splits)
  from collectsD [OF assms(1) m(2), of "[]"] m(1,3) show ?thesis by (auto simp: stream_object_def)
qed

text \<open>The chunk hashes a manifest names.\<close>

definition backup_refs :: "bytes \<Rightarrow> error option \<times> string list" where
  "backup_refs b = streamBackupChunkRefs (bytes_NewReader b) collect []"

definition segment_refs :: "bytes \<Rightarrow> error option \<times> string list" where
  "segment_refs b = streamSegmentChunkRefs (bytes_NewReader b) collect []"

lemma streamBackup_refs:
  "streamBackupChunkRefs (bytes_NewReader b) visit s = (None, s') \<Longrightarrow>
     \<exists>hs. backup_refs b = (None, hs) \<and> visits visit hs s = (None, s')"
  unfolding streamBackupChunkRefs_def backup_refs_def by (rule stream_object_collects [OF backup_members_collects])

lemma streamSegment_refs:
  "streamSegmentChunkRefs (bytes_NewReader b) visit s = (None, s') \<Longrightarrow>
     \<exists>hs. segment_refs b = (None, hs) \<and> visits visit hs s = (None, s')"
  unfolding streamSegmentChunkRefs_def segment_refs_def by (rule stream_object_collects [OF file_members_collects])

end
