(* ===== verification/GoTime.thy ===== *)
theory GoTime
  imports Json
begin

text \<open>
  The time formats of the sources (RFC 3339 with nanoseconds, as \<^verbatim>\<open>time.Time\<close> marshals to JSON, and the compact
  stamp of identifiers), their parser, and the conversions of \<^verbatim>\<open>encoding/json\<close> between documents and struct
  fields. Instants are UTC.
\<close>

subsection \<open>Formatting\<close>

definition day_ns :: int where "day_ns = 24 * hour"

definition fmt_date :: "string \<Rightarrow> instant \<Rightarrow> string" where
  "fmt_date sep t = fmt_d 4 (Year t) @ sep @ fmt_d 2 (Month t) @ sep @ fmt_d 2 (Day t)"

definition fmt_clock :: "string \<Rightarrow> instant \<Rightarrow> string" where
  "fmt_clock sep t =
     (let s = t mod day_ns div second in fmt_d 2 (s div 3600) @ sep @ fmt_d 2 (s div 60 mod 60) @ sep @ fmt_d 2 (s mod 60))"

definition fmt_RFC3339Nano :: "instant \<Rightarrow> string" where
  "fmt_RFC3339Nano t = fmt_date ''-'' t @ ''T'' @ fmt_clock '':'' t @ fmt_frac 9 (t mod second) @ ''Z''"

text \<open>Layout \<^verbatim>\<open>20060102T150405Z\<close>.\<close>

definition fmt_stamp :: "instant \<Rightarrow> string" where
  "fmt_stamp t = fmt_date [] t @ ''T'' @ fmt_clock [] t @ ''Z''"

subsection \<open>Parsing\<close>

definition digit_val :: "char \<Rightarrow> nat" where
  "digit_val c = of_char c - 48"

definition digits_val :: "string \<Rightarrow> nat" where
  "digits_val s = foldl (\<lambda>n c. n * 10 + digit_val c) 0 s"

definition take_num :: "nat \<Rightarrow> string \<Rightarrow> (nat \<times> string) option" where
  "take_num n s = (if length (take n s) = n \<and> list_all isDigit (take n s) then Some (digits_val (take n s), drop n s) else None)"

definition take_char :: "char \<Rightarrow> string \<Rightarrow> string option" where
  "take_char c s = (case s of [] \<Rightarrow> None | x # r \<Rightarrow> if x = c then Some r else None)"

definition is_leap :: "nat \<Rightarrow> bool" where
  "is_leap y \<longleftrightarrow> y mod 4 = 0 \<and> (y mod 100 \<noteq> 0 \<or> y mod 400 = 0)"

definition days_in :: "nat \<Rightarrow> nat \<Rightarrow> nat" where
  "days_in m y = (if m = 2 then (if is_leap y then 29 else 28) else if m \<in> {4, 6, 9, 11} then 30 else 31)"

text \<open>The day number of a date, counted from 1 January of year 1; years start in March.\<close>

definition days_of :: "nat \<Rightarrow> nat \<Rightarrow> nat \<Rightarrow> int" where
  "days_of y m d =
     (let y' = int y - (if m \<le> 2 then 1 else 0); mp = (int m + 9) mod 12;
          era = y' div 400; yoe = y' mod 400; doy = (153 * mp + 2) div 5 + int d - 1
      in era * 146097 + yoe * 365 + yoe div 4 - yoe div 100 + doy - 306)"

text \<open>The zone of a timestamp: the offset to subtract, in seconds.\<close>

definition parse_zone :: "string \<Rightarrow> int option" where
  "parse_zone s =
     (if s = ''Z'' then Some 0
      else case s of
        [] \<Rightarrow> None
      | c # r \<Rightarrow>
          if c \<noteq> CHR ''+'' \<and> c \<noteq> CHR ''-'' then None
          else case take_num 2 r of
            None \<Rightarrow> None
          | Some (h, r1) \<Rightarrow>
              (case take_char (CHR '':'') r1 of
                 None \<Rightarrow> None
               | Some r2 \<Rightarrow>
                   (case take_num 2 r2 of
                      Some (m, []) \<Rightarrow> if h \<le> 24 \<and> m < 60 then Some ((if c = CHR ''+'' then 1 else -1) * (int h * 3600 + int m * 60)) else None
                    | _ \<Rightarrow> None)))"

definition parse_frac :: "string \<Rightarrow> (int \<times> string) option" where
  "parse_frac s =
     (case s of
        [] \<Rightarrow> Some (0, [])
      | c # r \<Rightarrow>
          if c \<noteq> CHR ''.'' then Some (0, s)
          else let ds = takeWhile isDigit r in
            if ds = [] then None
            else Some (int (digits_val (take 9 (ds @ replicate 9 (CHR ''0'')))), dropWhile isDigit r))"

fun take_all :: "(nat \<times> char option) list \<Rightarrow> string \<Rightarrow> (nat list \<times> string) option" where
  "take_all [] s = Some ([], s)"
| "take_all ((n, sep) # fs) s =
     (case take_num n s of
        None \<Rightarrow> None
      | Some (v, r) \<Rightarrow>
          (case (case sep of None \<Rightarrow> Some r | Some c \<Rightarrow> take_char c r) of
             None \<Rightarrow> None
           | Some r1 \<Rightarrow> (case take_all fs r1 of None \<Rightarrow> None | Some (vs, r2) \<Rightarrow> Some (v # vs, r2))))"

definition parse_RFC3339 :: "string \<Rightarrow> instant option" where
  "parse_RFC3339 s =
     (case take_all [(4, Some (CHR ''-'')), (2, Some (CHR ''-'')), (2, Some (CHR ''T'')), (2, Some (CHR '':'')),
                     (2, Some (CHR '':'')), (2, None)] s of
        Some ([y, mo, d, h, mi, se], r) \<Rightarrow>
          if mo < 1 \<or> 12 < mo \<or> d < 1 \<or> days_in mo y < d \<or> 23 < h \<or> 59 < mi \<or> 59 < se then None
          else (case parse_frac r of
              None \<Rightarrow> None
            | Some (ns, r1) \<Rightarrow>
                (case parse_zone r1 of
                   None \<Rightarrow> None
                 | Some off \<Rightarrow>
                     Some (days_of y mo d * day_ns + (int h * 3600 + int mi * 60 + int se - off) * second + ns)))
      | _ \<Rightarrow> None)"

subsection \<open>Struct fields\<close>

text \<open>The value a field of a struct takes: the last member whose key matches without regard to case; null counts as absent.\<close>

definition json_field :: "string \<Rightarrow> (string \<times> json) list \<Rightarrow> json option" where
  "json_field name ms =
     (case rev (filter (\<lambda>(k, v). map (\<lambda>c. if CHR ''A'' \<le> c \<and> c \<le> CHR ''Z'' then char_of (of_char c + 32 :: nat) else c) k = name \<and> v \<noteq> JNull) ms) of
        [] \<Rightarrow> None
      | (k, v) # _ \<Rightarrow> Some v)"

definition type_error :: error where
  "type_error = ErrorNew ''json: cannot unmarshal into Go value''"

definition str_field :: "string \<Rightarrow> (string \<times> json) list \<Rightarrow> error + string" where
  "str_field name ms = (case json_field name ms of None \<Rightarrow> Inr [] | Some (JStr s) \<Rightarrow> Inr s | _ \<Rightarrow> Inl type_error)"

definition time_field :: "string \<Rightarrow> (string \<times> json) list \<Rightarrow> error + instant" where
  "time_field name ms =
     (case json_field name ms of
        None \<Rightarrow> Inr zero_time
      | Some (JStr s) \<Rightarrow> (case parse_RFC3339 s of None \<Rightarrow> Inl (ErrorNew ''parsing time'') | Some t \<Rightarrow> Inr t)
      | _ \<Rightarrow> Inl type_error)"

text \<open>An \<^verbatim>\<open>int64\<close> takes only integer literals.\<close>

definition int_lit :: "string \<Rightarrow> int option" where
  "int_lit s =
     (let (neg, ds) = (if s \<noteq> [] \<and> hd s = CHR ''-'' then (True, tl s) else (False, s));
          n = int (digits_val ds); v = (if neg then - n else n)
      in if ds = [] \<or> \<not> list_all isDigit ds \<or> v < - (2 ^ 63) \<or> 2 ^ 63 \<le> v then None else Some v)"

definition int_field :: "string \<Rightarrow> (string \<times> json) list \<Rightarrow> error + int" where
  "int_field name ms =
     (case json_field name ms of
        None \<Rightarrow> Inr 0
      | Some (JNum l) \<Rightarrow> (case int_lit l of None \<Rightarrow> Inl type_error | Some v \<Rightarrow> Inr v)
      | _ \<Rightarrow> Inl type_error)"

subsection \<open>Output\<close>

text \<open>A string literal: quotes, backslashes and control characters are escaped, and the characters HTML gives a meaning.\<close>

definition hex2 :: "nat \<Rightarrow> string" where
  "hex2 n = [hextable (n div 16), hextable (n mod 16)]"

definition escape_char :: "char \<Rightarrow> string" where
  "escape_char c =
     (if c = CHR 0x22 \<or> c = CHR 0x5C then [CHR 0x5C, c]
      else if c = CHR 0x08 then [CHR 0x5C, CHR ''b'']
      else if c = CHR 0x0C then [CHR 0x5C, CHR ''f'']
      else if c = CHR 0x0A then [CHR 0x5C, CHR ''n'']
      else if c = CHR 0x0D then [CHR 0x5C, CHR ''r'']
      else if c = CHR 0x09 then [CHR 0x5C, CHR ''t'']
      else if c < CHR '' '' \<or> c = CHR ''<'' \<or> c = CHR ''>'' \<or> c = CHR ''&'' \<or> c = CHR 0x7F then
        (if c = CHR 0x7F then [c] else [CHR 0x5C] @ ''u00'' @ hex2 (of_char c))
      else [c])"

definition print_string :: "string \<Rightarrow> string" where
  "print_string s = [CHR 0x22] @ concat (map escape_char s) @ [CHR 0x22]"

fun print_json :: "json \<Rightarrow> string" where
  "print_json JNull = ''null''"
| "print_json (JBool b) = (if b then ''true'' else ''false'')"
| "print_json (JNum l) = l"
| "print_json (JStr s) = print_string s"
| "print_json (JArr vs) = [CHR 0x5B] @ Join (CHR '','') (map print_json vs) @ [CHR 0x5D]"
| "print_json (JObj ms) = [CHR 0x7B] @ Join (CHR '','') (map (\<lambda>(k, v). print_string k @ [CHR '':''] @ print_json v) ms) @ [CHR 0x7D]"

definition Marshal :: "json \<Rightarrow> bytes" where
  "Marshal v = bytes_of_string (print_json v)"

definition JTime :: "instant \<Rightarrow> json" where
  "JTime t = JStr (fmt_RFC3339Nano t)"

definition JInt :: "int \<Rightarrow> json" where
  "JInt i = JNum (fmt_d 0 i)"

end
