(* ===== verification/ManifestTree.thy ===== *)
theory ManifestTree
  imports ManifestStream GoTime
begin

text \<open>
  The streaming readers of \<^verbatim>\<open>manifeststream.go\<close> against a reference: the references a parsed manifest holds. A decoder
  stands before a value, before the remaining elements of an array or before the remaining members of an object;
  each call of \<^verbatim>\<open>Token\<close> or \<^verbatim>\<open>Decode\<close> moves it to the next such place, as the scanner of a whole value does.
\<close>

subsection \<open>The references of a parsed manifest\<close>

fun mapM :: "('a \<Rightarrow> error + 'b) \<Rightarrow> 'a list \<Rightarrow> error + 'b list" where
  "mapM f [] = Inr []"
| "mapM f (x # xs) =
     (case f x of
        Inl e \<Rightarrow> Inl e
      | Inr y \<Rightarrow> (case mapM f xs of Inl e \<Rightarrow> Inl e | Inr ys \<Rightarrow> Inr (y # ys)))"

definition array_of :: "json \<Rightarrow> error + json list" where
  "array_of v = (case v of JArr vs \<Rightarrow> Inr vs | JNull \<Rightarrow> Inr [] | _ \<Rightarrow> Inl (ErrorNew ''not an array''))"

definition chunks_tree :: "json \<Rightarrow> error + string list" where
  "chunks_tree v = (case array_of v of Inl e \<Rightarrow> Inl e | Inr vs \<Rightarrow> mapM chunkRef_of vs)"

text \<open>The members of an object named \<open>name\<close>, each read by \<open>f\<close>.\<close>

definition members_tree :: "string \<Rightarrow> (json \<Rightarrow> error + string list) \<Rightarrow> (string \<times> json) list \<Rightarrow> error + string list" where
  "members_tree name f ms =
     (case mapM f (map snd (filter (\<lambda>(k, v). EqualFold k name) ms)) of Inl e \<Rightarrow> Inl e | Inr hss \<Rightarrow> Inr (concat hss))"

definition object_tree :: "string \<Rightarrow> (json \<Rightarrow> error + string list) \<Rightarrow> json \<Rightarrow> error + string list" where
  "object_tree name f v = (case v of JObj ms \<Rightarrow> members_tree name f ms | _ \<Rightarrow> Inl (ErrorNew ''not an object''))"

definition files_tree :: "json \<Rightarrow> error + string list" where
  "files_tree v =
     (case array_of v of
        Inl e \<Rightarrow> Inl e
      | Inr vs \<Rightarrow> (case mapM (object_tree ''chunks'' chunks_tree) vs of Inl e \<Rightarrow> Inl e | Inr hss \<Rightarrow> Inr (concat hss)))"

definition backup_tree :: "json \<Rightarrow> error + string list" where
  "backup_tree = object_tree ''files'' files_tree"

definition segment_tree :: "json \<Rightarrow> error + string list" where
  "segment_tree = object_tree ''chunks'' chunks_tree"

subsection \<open>Places of a decoder\<close>

fun after_value :: "tokenState \<Rightarrow> tokenState" where
  "after_value tokenArrayStart = tokenArrayComma"
| "after_value tokenArrayValue = tokenArrayComma"
| "after_value tokenArrayComma = tokenArrayComma"
| "after_value tokenObjectColon = tokenObjectComma"
| "after_value tokenObjectValue = tokenObjectComma"
| "after_value st = st"

definition past :: "Decoder \<Rightarrow> string \<Rightarrow> Decoder" where
  "past d r = d\<lparr>dc_rest := r, dc_state := after_value (dc_state d)\<rparr>"

lemma past_simps [simp]: "dc_stack (past d r) = dc_stack d" "dc_rest (past d r) = r" "dc_err (past d r) = dc_err d" "past (past d q) r = past d r"
  by (cases "dc_state d"; simp add: past_def)+

lemma tokenValueEnd_after: "dc_state d \<in> {tokenTopValue, tokenArrayStart, tokenArrayValue, tokenObjectValue} \<Longrightarrow>
    tokenValueEnd d = d\<lparr>dc_state := after_value (dc_state d)\<rparr>"
  by (auto simp: tokenValueEnd_def)

text \<open>Before a value: at the top, at an array element, after a key.\<close>

definition value_at :: "Decoder \<Rightarrow> json \<Rightarrow> string \<Rightarrow> bool" where
  "value_at d v r \<longleftrightarrow> (\<exists>n s. scan_value n s = Inr (v, r) \<and>
     (case dc_state d of
        tokenTopValue \<Rightarrow> s = dc_rest d
      | tokenArrayStart \<Rightarrow> s = dc_rest d
      | tokenArrayComma \<Rightarrow> skip_ws (dc_rest d) = CHR '','' # s
      | tokenObjectColon \<Rightarrow> skip_ws (dc_rest d) = CHR '':'' # s
      | _ \<Rightarrow> False))"

definition elems_at :: "Decoder \<Rightarrow> json list \<Rightarrow> string \<Rightarrow> bool" where
  "elems_at d vs r \<longleftrightarrow>
     (vs = [] \<and> dc_state d \<in> {tokenArrayStart, tokenArrayComma} \<and> skip_ws (dc_rest d) = CHR 0x5D # r) \<or>
     (\<exists>n s. scan_elems n s = Inr (vs, r) \<and>
       ((dc_state d = tokenArrayStart \<and> s = skip_ws (dc_rest d) \<and> hd s \<noteq> CHR 0x5D) \<or>
        (dc_state d = tokenArrayComma \<and> skip_ws (dc_rest d) = CHR '','' # s)))"

definition members_at :: "Decoder \<Rightarrow> (string \<times> json) list \<Rightarrow> string \<Rightarrow> bool" where
  "members_at d ms r \<longleftrightarrow>
     (ms = [] \<and> dc_state d \<in> {tokenObjectStart, tokenObjectComma} \<and> skip_ws (dc_rest d) = CHR 0x7D # r) \<or>
     (\<exists>n s. scan_members n s = Inr (ms, r) \<and>
       ((dc_state d = tokenObjectStart \<and> s = skip_ws (dc_rest d)) \<or>
        (dc_state d = tokenObjectComma \<and> skip_ws (dc_rest d) = CHR '','' # s)))"

lemma skip_ws_idem [simp]: "skip_ws (skip_ws s) = skip_ws s"
  by (induction s) (auto simp: skip_ws_def)

lemma skip_ws_first: "skip_ws s = c # r \<Longrightarrow> \<not> isSpace c \<and> skip_ws (c # r) = c # r"
  using hd_dropWhile [of isSpace s] skip_ws_idem [of s] by (auto simp: skip_ws_def)

lemma scan_skip [simp]: "scan_value n (skip_ws s) = scan_value n s" "scan_members n (skip_ws s) = scan_members n s"
  by (cases n; simp add: scan_value.simps scan_members.simps)+

lemma scan_elems_skip [simp]: "scan_elems n (skip_ws s) = scan_elems n s"
  by (cases n) (simp_all add: scan_elems.simps)

lemma peek_skip: "skip_ws (dc_rest d) = c # r \<Longrightarrow> peek d = (Inr c, d\<lparr>dc_rest := c # r\<rparr>)"
  by (simp add: peek_def)

text \<open>The first character of a value, and what the scanner does there.\<close>

lemma value_first:
  assumes "scan_value n s = Inr (v, r)"
  obtains c q where "skip_ws s = c # q" "c \<noteq> CHR '',''" "c \<noteq> CHR '':''" "c \<noteq> CHR 0x5D" "c \<noteq> CHR 0x7D"
    "c = CHR 0x7B \<longleftrightarrow> (\<exists>ms. v = JObj ms)" "c = CHR 0x5B \<longleftrightarrow> (\<exists>vs. v = JArr vs)"
proof -
  obtain k where k: "n = Suc k" using assms by (cases n) (auto simp: scan_value.simps)
  obtain c q where c: "skip_ws s = c # q" using assms k by (auto simp: scan_value.simps split: list.splits)
  note a = assms [unfolded k scan_value.simps c list.case]
  have "(c \<in> {CHR 0x7B, CHR 0x5B, CHR 0x22, CHR ''t'', CHR ''f'', CHR ''n'', CHR ''-''} \<or> isDigit c) \<and>
      (c = CHR 0x7B \<longleftrightarrow> (\<exists>ms. v = JObj ms)) \<and> (c = CHR 0x5B \<longleftrightarrow> (\<exists>vs. v = JArr vs))"
    using a by (auto simp: scan_lit_def split: if_splits sum.splits prod.splits list.splits)
  moreover have "\<not> isDigit (CHR '','')" "\<not> isDigit (CHR '':'')" "\<not> isDigit (CHR 0x5D)" "\<not> isDigit (CHR 0x7D)"
    by (simp_all add: isDigit_def less_eq_char_def)
  ultimately show thesis using that [OF c] by auto
qed

subsection \<open>One step of the decoder\<close>

lemma value_at_Decode:
  assumes "value_at d v r"
  shows "Decode d = (Inr v, past d r)"
proof -
  obtain n s where s: "scan_value n s = Inr (v, r)" and st: "case dc_state d of tokenTopValue \<Rightarrow> s = dc_rest d
      | tokenArrayStart \<Rightarrow> s = dc_rest d
      | tokenArrayComma \<Rightarrow> skip_ws (dc_rest d) = CHR '','' # s | tokenObjectColon \<Rightarrow> skip_ws (dc_rest d) = CHR '':'' # s
      | _ \<Rightarrow> False" using assms by (auto simp: value_at_def)
  note f = scan_fuel_2 [OF s]
  show ?thesis using st f
    by (auto simp: Decode_def tokenPrepareForDecode_def peek_skip tokenValueAllowed_def readValue_def past_def tokenValueEnd_def
        split: tokenState.splits)
qed

text \<open>The loop of \<^verbatim>\<open>Token\<close> steps over the comma or colon before a value.\<close>

definition enter :: "Decoder \<Rightarrow> string \<Rightarrow> Decoder" where
  "enter d s = d\<lparr>dc_rest := s, dc_state := (case dc_state d of tokenArrayComma \<Rightarrow> tokenArrayValue | tokenObjectColon \<Rightarrow> tokenObjectValue | st \<Rightarrow> st)\<rparr>"

lemma value_at_Token:
  assumes "value_at d v r"
  obtains n c q where "scan_value n (c # q) = Inr (v, r)" "skip_ws (c # q) = c # q" "Token d = token_at c (enter d (c # q))"
    "c \<noteq> CHR 0x5D" "c \<noteq> CHR 0x7D" "c = CHR 0x7B \<longleftrightarrow> (\<exists>ms. v = JObj ms)" "c = CHR 0x5B \<longleftrightarrow> (\<exists>vs. v = JArr vs)"
proof -
  obtain n s where s: "scan_value n s = Inr (v, r)" and st: "case dc_state d of tokenTopValue \<Rightarrow> s = dc_rest d
      | tokenArrayStart \<Rightarrow> s = dc_rest d
      | tokenArrayComma \<Rightarrow> skip_ws (dc_rest d) = CHR '','' # s | tokenObjectColon \<Rightarrow> skip_ws (dc_rest d) = CHR '':'' # s
      | _ \<Rightarrow> False" using assms by (auto simp: value_at_def)
  obtain c q where c: "skip_ws s = c # q" "c \<noteq> CHR '',''" "c \<noteq> CHR '':''" "c \<noteq> CHR 0x5D" "c \<noteq> CHR 0x7D"
    "c = CHR 0x7B \<longleftrightarrow> (\<exists>ms. v = JObj ms)" "c = CHR 0x5B \<longleftrightarrow> (\<exists>vs. v = JArr vs)"
    using value_first [OF s] by metis
  have t: "Token d = token_at c (enter d (c # q))"
    using st c(1-3) by (cases d) (auto simp: Token_def peek_skip enter_def split: tokenState.splits)
  have "scan_value n (c # q) = Inr (v, r)" using s c(1) scan_skip(1) [of n s] by simp
  then show thesis using that skip_ws_first [OF c(1)] t c(4-7) by metis
qed

lemma enter_simps [simp]: "dc_stack (enter d s) = dc_stack d" "dc_rest (enter d s) = s"
  by (simp_all add: enter_def)

lemma enter_allowed: "value_at d v r \<Longrightarrow> tokenValueAllowed (enter d s)"
  by (auto simp: value_at_def tokenValueAllowed_def enter_def split: tokenState.splits)

lemma past_enter: "value_at d v r \<Longrightarrow> (enter d s)\<lparr>dc_rest := r, dc_state := after_value (dc_state (enter d s))\<rparr> = past d r"
  by (auto simp: value_at_def enter_def past_def split: tokenState.splits)

text \<open>Opening an array: the decoder then stands before its elements.\<close>

definition opened :: "Decoder \<Rightarrow> Decoder \<Rightarrow> bool" where
  "opened d d1 \<longleftrightarrow> (\<exists>st. dc_stack d1 = st # dc_stack d \<and> st \<in> {tokenTopValue, tokenArrayStart, tokenArrayValue, tokenObjectValue} \<and>
     after_value st = after_value (dc_state d)) \<and> dc_err d1 = dc_err d"

lemma Token_array:
  assumes "value_at d (JArr vs) r"
  obtains d1 where "Token d = (Inr (TDelim (CHR 0x5B)), d1)" "elems_at d1 vs r" "opened d d1"
proof -
  obtain n c q where t: "scan_value n (c # q) = Inr (JArr vs, r)" "skip_ws (c # q) = c # q" "Token d = token_at c (enter d (c # q))"
    "c = CHR 0x5B" using value_at_Token [OF assms] by (metis json.inject(4))
  define d1 where "d1 = (enter d (c # q))\<lparr>dc_rest := q, dc_stack := dc_state (enter d (c # q)) # dc_stack d, dc_state := tokenArrayStart\<rparr>"
  have "Token d = (Inr (TDelim (CHR 0x5B)), d1)"
    using t(3,4) enter_allowed [OF assms] by (simp add: token_at_def Let_def d1_def)
  moreover obtain k where k: "n = Suc k" using t(1) by (cases n) (auto simp: scan_value.simps)
  obtain e q1 where e: "skip_ws q = e # q1" using t(1,2,4) k by (auto simp: scan_value.simps split: list.splits)
  have "elems_at d1 vs r"
  proof (cases "e = CHR 0x5D")
    case True
    then show ?thesis using t(1,2,4) k e by (simp add: scan_value.simps elems_at_def d1_def)
  next
    case False
    then have "scan_elems k (e # q1) = Inr (vs, r)" using t(1,2,4) k e by (auto simp: scan_value.simps split: sum.splits)
    then show ?thesis using False e unfolding elems_at_def d1_def by auto
  qed
  moreover have "opened d d1"
    using assms by (auto simp: opened_def d1_def enter_def value_at_def split: tokenState.splits)
  ultimately show thesis using that by blast
qed

lemma Token_object:
  assumes "value_at d (JObj ms) r"
  obtains d1 where "Token d = (Inr (TDelim (CHR 0x7B)), d1)" "members_at d1 ms r" "opened d d1"
proof -
  obtain n c q where t: "scan_value n (c # q) = Inr (JObj ms, r)" "skip_ws (c # q) = c # q" "Token d = token_at c (enter d (c # q))"
    "c = CHR 0x7B" using value_at_Token [OF assms] by (metis json.inject(5))
  define d1 where "d1 = (enter d (c # q))\<lparr>dc_rest := q, dc_stack := dc_state (enter d (c # q)) # dc_stack d, dc_state := tokenObjectStart\<rparr>"
  have "Token d = (Inr (TDelim (CHR 0x7B)), d1)"
    using t(3,4) enter_allowed [OF assms] by (simp add: token_at_def Let_def d1_def)
  moreover obtain k where k: "n = Suc k" using t(1) by (cases n) (auto simp: scan_value.simps)
  obtain e q1 where e: "skip_ws q = e # q1" using t(1,2,4) k by (auto simp: scan_value.simps split: list.splits)
  have "members_at d1 ms r"
  proof (cases "e = CHR 0x7D")
    case True
    then show ?thesis using t(1,2,4) k e by (simp add: scan_value.simps members_at_def d1_def)
  next
    case False
    then have "scan_members k (e # q1) = Inr (ms, r)" using t(1,2,4) k e by (auto simp: scan_value.simps split: sum.splits)
    then show ?thesis using False e unfolding members_at_def d1_def by auto
  qed
  moreover have "opened d d1"
    using assms by (auto simp: opened_def d1_def enter_def value_at_def split: tokenState.splits)
  ultimately show thesis using that by blast
qed

lemma Token_scalar:
  assumes "value_at d v r" "\<not> (\<exists>ms. v = JObj ms)" "\<not> (\<exists>vs. v = JArr vs)"
  shows "Token d = (Inr (TValue v), past d r)"
proof -
  obtain n c q where t: "scan_value n (c # q) = Inr (v, r)" "Token d = token_at c (enter d (c # q))"
    "c \<noteq> CHR 0x5D" "c \<noteq> CHR 0x7D" "c \<noteq> CHR 0x7B" "c \<noteq> CHR 0x5B" using value_at_Token [OF assms(1)] assms(2,3) by metis
  let ?e = "enter d (c # q)"
  have st: "dc_state ?e \<in> {tokenTopValue, tokenArrayStart, tokenArrayValue, tokenObjectValue}"
    using enter_allowed [OF assms(1), of "c # q"] by (simp add: tokenValueAllowed_def)
  have "Decode ?e = (Inr v, ?e\<lparr>dc_rest := r, dc_state := after_value (dc_state ?e)\<rparr>)"
    using st scan_fuel_2 [OF t(1)]
    by (auto simp: Decode_def tokenPrepareForDecode_def tokenValueAllowed_def readValue_def tokenValueEnd_def)
  moreover have "\<not> (dc_state ?e = tokenObjectStart \<or> dc_state ?e = tokenObjectKey)" using st by auto
  ultimately show ?thesis
    using t(2-) enter_allowed [OF assms(1), of "c # q"] past_enter [OF assms(1), of "c # q"] by (simp add: token_at_def Let_def)
qed

text \<open>The end of an array or object restores the place after the value.\<close>

lemma opened_stack:
  assumes "opened d d1"
  obtains st where "dc_stack d1 = st # dc_stack d" "st \<in> {tokenTopValue, tokenArrayStart, tokenArrayValue, tokenObjectValue}"
    "after_value st = after_value (dc_state d)" "dc_err d1 = dc_err d"
  using assms by (auto simp: opened_def)

lemma Decoder_eqI:
  "dc_rest a = dc_rest b \<Longrightarrow> dc_err a = dc_err b \<Longrightarrow> dc_state a = dc_state b \<Longrightarrow> dc_stack a = dc_stack b \<Longrightarrow> (a :: Decoder) = b"
  by (cases a; cases b) simp

lemma elems_end:
  assumes "elems_at d1 [] r" "opened d d1"
  shows "\<not> More d1 \<and> msExpectDelim (CHR 0x5D) d1 = (None, past d r)"
proof -
  have c: "dc_state d1 \<in> {tokenArrayStart, tokenArrayComma}" "skip_ws (dc_rest d1) = CHR 0x5D # r"
    using assms(1) by (auto simp: elems_at_def elim!: scan_elems.elims split: sum.splits list.splits if_splits)
  obtain st where st: "dc_stack d1 = st # dc_stack d" "st \<in> {tokenTopValue, tokenArrayStart, tokenArrayValue, tokenObjectValue}"
    "after_value st = after_value (dc_state d)" "dc_err d1 = dc_err d" using opened_stack [OF assms(2)] .
  have "Token d1 = (Inr (TDelim (CHR 0x5D)), past d r)"
    using c st by (auto simp: Token_def peek_skip token_at_def Let_def past_def tokenValueEnd_def intro!: Decoder_eqI)
  then show ?thesis using c by (simp add: More_def peek_skip msExpectDelim_def)
qed

lemma members_end:
  assumes "members_at d1 [] r" "opened d d1"
  shows "\<not> More d1 \<and> msExpectDelim (CHR 0x7D) d1 = (None, past d r)"
proof -
  have c: "dc_state d1 \<in> {tokenObjectStart, tokenObjectComma}" "skip_ws (dc_rest d1) = CHR 0x7D # r"
    using assms(1) by (auto simp: members_at_def elim!: scan_members.elims split: sum.splits list.splits if_splits)
  obtain st where st: "dc_stack d1 = st # dc_stack d" "st \<in> {tokenTopValue, tokenArrayStart, tokenArrayValue, tokenObjectValue}"
    "after_value st = after_value (dc_state d)" "dc_err d1 = dc_err d" using opened_stack [OF assms(2)] .
  have "Token d1 = (Inr (TDelim (CHR 0x7D)), past d r)"
    using c st by (auto simp: Token_def peek_skip token_at_def Let_def past_def tokenValueEnd_def intro!: Decoder_eqI)
  then show ?thesis using c by (simp add: More_def peek_skip msExpectDelim_def)
qed

lemma opened_past [simp]: "opened d (past d1 r) = opened d d1"
  by (simp add: opened_def past_def)

lemma elems_step:
  assumes "elems_at d (v # vs) r"
  obtains r1 where "More d" "value_at d v r1" "elems_at (past d r1) vs r"
proof -
  obtain n s where s: "scan_elems n s = Inr (v # vs, r)"
    and st: "(dc_state d = tokenArrayStart \<and> s = skip_ws (dc_rest d) \<and> hd s \<noteq> CHR 0x5D) \<or>
       (dc_state d = tokenArrayComma \<and> skip_ws (dc_rest d) = CHR '','' # s)" using assms by (auto simp: elems_at_def)
  obtain k where k: "n = Suc k" using s by (cases n) (auto simp: scan_elems.simps)
  obtain q where v: "scan_value k s = Inr (v, q)" using s k by (auto simp: scan_elems.simps split: sum.splits list.splits if_splits)
  obtain c q1 where c: "skip_ws q = c # q1" using s k v by (auto simp: scan_elems.simps split: list.splits)
  have va: "value_at d v q" using st v unfolding value_at_def by (intro exI [of _ k]) auto
  obtain e t where e: "skip_ws s = e # t" "e \<noteq> CHR 0x5D" "e \<noteq> CHR 0x7D" using value_first [OF v] by metis
  have "More d" using st e by (auto simp: More_def peek_skip)
  moreover have "elems_at (past d q) vs r"
    using s k v c st by (auto simp: scan_elems.simps elems_at_def past_def split: sum.splits if_splits)
  ultimately show thesis using that va by blast
qed

lemma members_step:
  assumes "members_at d ((k, v) # ms) r"
  obtains d1 r1 where "More d" "msReadKey d = (Inr k, d1)" "value_at d1 v r1" "members_at (past d1 r1) ms r"
    "dc_stack d1 = dc_stack d" "dc_err d1 = dc_err d"
proof -
  obtain n s where s: "scan_members n s = Inr ((k, v) # ms, r)"
    and st: "(dc_state d = tokenObjectStart \<and> s = skip_ws (dc_rest d)) \<or>
       (dc_state d = tokenObjectComma \<and> skip_ws (dc_rest d) = CHR '','' # s)" using assms by (auto simp: members_at_def)
  obtain m where m: "n = Suc m" using s by (cases n) (auto simp: scan_members.simps)
  obtain c q where c: "skip_ws s = c # q" "c = CHR 0x22" using s m by (auto simp: scan_members.simps split: list.splits if_splits)
  note s1 = s [unfolded m scan_members.simps c list.case, simplified]
  obtain x q1 where x: "scan_string (Suc (length q)) q = Inr (x, q1)" using s1 by (auto split: sum.splits)
  note s2 = s1 [unfolded x sum.case prod.case]
  obtain c2 q2 where c2: "skip_ws q1 = c2 # q2" "c2 = CHR '':''" using s2 by (auto split: list.splits if_splits)
  note s3 = s2 [unfolded c2 list.case, simplified]
  obtain u q3 where u: "scan_value m q2 = Inr (u, q3)" using s3 by (auto split: sum.splits)
  note s4 = s3 [unfolded u sum.case prod.case]
  obtain e q4 where e: "skip_ws q3 = e # q4" using s4 by (auto split: list.splits)
  have kv: "x = k" "u = v" using s4 e by (auto split: if_splits sum.splits)
  define d1 where "d1 = d\<lparr>dc_rest := q1, dc_state := tokenObjectColon\<rparr>"
  have sv: "scan_value (Suc (2 * length (c # q))) (c # q) = Inr (JStr k, q1)"
    using x c(2) kv(1) skip_ws_first [OF c(1)] by (simp add: scan_value.simps)
  have dec: "Decode (d\<lparr>dc_rest := c # q, dc_state := tokenTopValue\<rparr>) = (Inr (JStr k), d\<lparr>dc_rest := q1, dc_state := tokenTopValue\<rparr>)"
    using sv by (cases d) (simp add: Decode_def tokenPrepareForDecode_def tokenValueAllowed_def readValue_def tokenValueEnd_def)
  have ta: "token_at (CHR 0x22) (d\<lparr>dc_rest := c # q, dc_state := y\<rparr>) = (Inr (TValue (JStr k)), d1)"
    if "y = tokenObjectStart \<or> y = tokenObjectKey" for y
    using dec that by (cases d) (simp add: token_at_def Let_def d1_def)
  have "Token d = (Inr (TValue (JStr k)), d1)"
    using st
  proof (elim disjE conjE)
    assume a: "dc_state d = tokenObjectStart" "s = skip_ws (dc_rest d)"
    then have "Token d = token_at (CHR 0x22) (d\<lparr>dc_rest := c # q\<rparr>)" using c by (simp add: Token_def peek_skip)
    moreover have "d\<lparr>dc_rest := c # q\<rparr> = d\<lparr>dc_rest := c # q, dc_state := tokenObjectStart\<rparr>" using a(1) by (cases d) simp
    ultimately show ?thesis using ta [of tokenObjectStart] by metis
  next
    assume a: "dc_state d = tokenObjectComma" "skip_ws (dc_rest d) = CHR '','' # s"
    then have "Token d = token_at (CHR 0x22) (d\<lparr>dc_rest := c # q, dc_state := tokenObjectKey\<rparr>)"
      using c by (cases d) (simp add: Token_def peek_skip)
    then show ?thesis using ta by simp
  qed
  then have rk: "msReadKey d = (Inr k, d1)" by (simp add: msReadKey_def)
  have "More d" using st c by (auto simp: More_def peek_skip)
  moreover have "value_at d1 v q3" using u kv(2) c2 unfolding value_at_def by (intro exI [of _ m] exI [of _ q2]) (simp add: d1_def)
  moreover have "members_at (past d1 q3) ms r"
    using s4 e by (auto simp: members_at_def past_def d1_def split: if_splits sum.splits)
  ultimately show thesis using that [OF _ rk] by (simp add: d1_def)
qed

subsection \<open>The walkers\<close>

text \<open>
  \<open>outcome\<close> says what a walker returns: it makes the visits \<open>hs\<close> and stops at the first that fails; after the
  last one it stands at a place that \<open>P\<close> accepts. Without a list of visits it must fail.
\<close>

definition outcome :: "error option \<times> Decoder \<times> 's \<Rightarrow> error + string list \<Rightarrow> 's visit \<Rightarrow> 's \<Rightarrow> (Decoder \<Rightarrow> bool) \<Rightarrow> bool" where
  "outcome res t visit s P \<longleftrightarrow>
     (case res of (e, d', s') \<Rightarrow>
        (case t of
           Inl _ \<Rightarrow> e \<noteq> None
         | Inr hs \<Rightarrow> (e, s') = visits visit hs s \<and> (e = None \<longrightarrow> P d')))"

lemma outcome_simps [simp]:
  "outcome (e, d', s') (Inl x) visit s P \<longleftrightarrow> e \<noteq> None"
  "outcome (e, d', s') (Inr hs) visit s P \<longleftrightarrow> (e, s') = visits visit hs s \<and> (e = None \<longrightarrow> P d')"
  by (simp_all add: outcome_def)

lemma outcome_mono: "outcome res t visit s P \<Longrightarrow> (\<And>d. P d \<Longrightarrow> Q d) \<Longrightarrow> outcome res t visit s Q"
  by (cases res; cases t) auto

text \<open>Running two walkers in sequence.\<close>

lemma visits_seq: "visits visit (a @ b) s = (case visits visit a s of (Some e, s1) \<Rightarrow> (Some e, s1) | (None, s1) \<Rightarrow> visits visit b s1)"
  by (induction a arbitrary: s) (auto split: prod.splits option.splits)

lemma outcome_seq:
  assumes a: "outcome (e1, d1, s1) t1 visit s P" and b: "\<And>d1. e1 = None \<Longrightarrow> P d1 \<Longrightarrow> outcome (f d1 s1) t2 visit s1 Q"
  shows "outcome (case e1 of Some e \<Rightarrow> (Some e, d1, s1) | None \<Rightarrow> f d1 s1)
    (case t1 of Inl e \<Rightarrow> Inl e | Inr hs \<Rightarrow> (case t2 of Inl e \<Rightarrow> Inl e | Inr gs \<Rightarrow> Inr (hs @ gs))) visit s Q"
proof (cases t1)
  case (Inl x)
  then obtain e where "e1 = Some e" using a by (cases e1) simp_all
  then show ?thesis using Inl by simp
next
  case (Inr hs)
  have v: "visits visit hs s = (e1, s1)" and p: "e1 = None \<Longrightarrow> P d1" using a Inr by simp_all
  show ?thesis
  proof (cases e1)
    case None
    obtain e2 d2 s2 where f: "f d1 s1 = (e2, d2, s2)" using prod_cases3 by blast
    have "outcome (e2, d2, s2) t2 visit s1 Q" using b [OF None p [OF None]] f by simp
    then show ?thesis using f Inr None v by (cases t2) (simp_all add: visits_seq)
  next
    case (Some e)
    then show ?thesis using v Inr by (cases t2) (simp_all add: visits_seq)
  qed
qed

definition walks :: "('s visit \<Rightarrow> Decoder \<Rightarrow> 's \<Rightarrow> error option \<times> Decoder \<times> 's) \<Rightarrow> (json \<Rightarrow> error + string list) \<Rightarrow> bool" where
  "walks f t \<longleftrightarrow> (\<forall>visit d s v r. value_at d v r \<longrightarrow> outcome (f visit d s) (t v) visit s (\<lambda>d'. d' = past d r))"

lemma walksD: "walks f t \<Longrightarrow> value_at d v r \<Longrightarrow> outcome (f visit d s) (t v) visit s (\<lambda>d'. d' = past d r)"
  by (simp add: walks_def)

definition concatM :: "('a \<Rightarrow> error + 'b list) \<Rightarrow> 'a list \<Rightarrow> error + 'b list" where
  "concatM f xs = (case mapM f xs of Inl e \<Rightarrow> Inl e | Inr yss \<Rightarrow> Inr (concat yss))"

lemma concatM_simps [simp]:
  "concatM f [] = Inr []"
  "concatM f (x # xs) = (case f x of Inl e \<Rightarrow> Inl e | Inr hs \<Rightarrow> (case concatM f xs of Inl e \<Rightarrow> Inl e | Inr gs \<Rightarrow> Inr (hs @ gs)))"
  by (auto simp: concatM_def split: sum.splits)

lemma mapM_concatM: "mapM f xs = concatM (\<lambda>x. case f x of Inl e \<Rightarrow> Inl e | Inr y \<Rightarrow> Inr [y]) xs"
  by (induction xs) (auto split: sum.splits)

lemma chunks_loop_outcome:
  "elems_at d vs r \<Longrightarrow> outcome (chunks_loop visit d s) (mapM chunkRef_of vs) visit s
     (\<lambda>d'. elems_at d' [] r \<and> (\<forall>d0. opened d0 d \<longrightarrow> opened d0 d'))"
proof (induction vs arbitrary: d s)
  case Nil
  then have "\<not> More d" using elems_end [of d r "d\<lparr>dc_stack := []\<rparr>"]
    by (auto simp: elems_at_def More_def peek_skip elim!: scan_elems.elims split: sum.splits list.splits if_splits)
  then show ?case using Nil by (subst chunks_loop.simps) simp
next
  case (Cons v vs)
  obtain r1 where r1: "More d" "value_at d v r1" "elems_at (past d r1) vs r" using elems_step [OF Cons(2)] .
  have dc: "decode_chunkRef d = (chunkRef_of v, past d r1)" by (simp add: decode_chunkRef_def value_at_Decode [OF r1(2)])
  show ?case
  proof (cases "chunkRef_of v")
    case (Inl e)
    then show ?thesis using r1 dc by (subst chunks_loop.simps) simp
  next
    case (Inr h)
    obtain e1 s1 where v: "visit h s = (e1, s1)" by fastforce
    have a: "outcome (e1, past d r1, s1) (Inr [h]) visit s (\<lambda>d'. d' = past d r1)" using v by (auto split: option.splits)
    have "outcome (case e1 of Some e \<Rightarrow> (Some e, past d r1, s1) | None \<Rightarrow> chunks_loop visit (past d r1) s1)
        (case Inr [h] of Inl e \<Rightarrow> Inl e | Inr hs \<Rightarrow> (case mapM chunkRef_of vs of Inl e \<Rightarrow> Inl e | Inr gs \<Rightarrow> Inr (hs @ gs))) visit s
        (\<lambda>d'. elems_at d' [] r \<and> (\<forall>d0. opened d0 d \<longrightarrow> opened d0 d'))"
      by (rule outcome_seq [OF a]) (use Cons(1) [OF r1(3)] in simp)
    then show ?thesis using r1(1) dc Inr v by (subst chunks_loop.simps) (simp split: option.splits sum.splits)
  qed
qed

text \<open>An array that may be null, whose elements a loop walks.\<close>

lemma array_outcome:
  assumes loop: "\<And>d vs s. elems_at d vs r \<Longrightarrow> outcome (loop d s) (t vs) visit s
      (\<lambda>d'. elems_at d' [] r \<and> (\<forall>d0. opened d0 d \<longrightarrow> opened d0 d'))"
    and t0: "t [] = Inr []" and v: "value_at d v r"
  shows "outcome (case open_array msg d of
        (Inl err, d1) \<Rightarrow> (Some err, d1, s)
      | (Inr False, d1) \<Rightarrow> (None, d1, s)
      | (Inr True, d1) \<Rightarrow>
          (case loop d1 s of
             (Some err, d2, s1) \<Rightarrow> (Some err, d2, s1)
           | (None, d2, s1) \<Rightarrow> (case msExpectDelim (CHR 0x5D) d2 of (e, d3) \<Rightarrow> (e, d3, s1))))
    (case array_of v of Inl e \<Rightarrow> Inl e | Inr vs \<Rightarrow> t vs) visit s (\<lambda>d'. d' = past d r)"
proof (cases "\<exists>vs. v = JArr vs")
  case True
  then obtain vs where vs: "v = JArr vs" by blast
  obtain d1 where d1: "Token d = (Inr (TDelim (CHR 0x5B)), d1)" "elems_at d1 vs r" "opened d d1" using Token_array v vs by metis
  have oa: "open_array msg d = (Inr True, d1)" using d1(1) by (simp add: open_array_def)
  obtain e2 d2 s2 where l: "loop d1 s = (e2, d2, s2)" using prod_cases3 by blast
  note o = loop [OF d1(2), of s, unfolded l]
  show ?thesis
  proof (cases "t vs")
    case (Inl x)
    then show ?thesis using o oa l vs by (cases e2) (auto simp: array_of_def)
  next
    case (Inr hs)
    then show ?thesis using o oa l vs elems_end [of d2 r d] d1(3) by (cases e2) (auto simp: array_of_def)
  qed
next
  case no: False
  show ?thesis
  proof (cases "v = JNull")
    case True
    have "Token d = (Inr (TValue JNull), past d r)" using Token_scalar [OF v] True by simp
    then show ?thesis using True t0 by (simp add: open_array_def array_of_def)
  next
    case False
    have "(\<exists>d1. Token d = (Inr (TDelim (CHR 0x7B)), d1)) \<or> Token d = (Inr (TValue v), past d r)"
      using Token_scalar [OF v] Token_object [of d _ r] v no by metis
    then have "\<exists>d1 e. open_array msg d = (Inl e, d1)" using False by (auto simp: open_array_def)
    moreover have "\<exists>e. array_of v = Inl e" using False no by (cases v) (auto simp: array_of_def)
    ultimately show ?thesis by auto
  qed
qed

lemma streamChunksArray_walks: "walks streamChunksArray chunks_tree"
  unfolding walks_def streamChunksArray_def chunks_tree_def
  by (intro allI impI array_outcome chunks_loop_outcome) simp_all

text \<open>The members of an object, each with a matching key walked by \<open>inner\<close>.\<close>

lemma members_outcome:
  assumes w: "walks inner t"
    and unf: "\<And>d s. loop d s = (if More d then
        (case member_step name (inner visit) d s of
           (Some err, d1, s1) \<Rightarrow> (Some err, d1, s1)
         | (None, d1, s1) \<Rightarrow> loop d1 s1)
      else (None, d, s))"
  shows "members_at d ms r \<Longrightarrow> outcome (loop d s) (members_tree name t ms) visit s
     (\<lambda>d'. members_at d' [] r \<and> (\<forall>d0. opened d0 d \<longrightarrow> opened d0 d'))"
proof (induction ms arbitrary: d s)
  case Nil
  then have "\<not> More d"
    by (auto simp: members_at_def More_def peek_skip elim!: scan_members.elims split: sum.splits list.splits if_splits)
  then show ?case using Nil by (subst unf) (simp add: members_tree_def)
next
  case (Cons kv ms)
  obtain k v where kv: "kv = (k, v)" by fastforce
  obtain d1 r1 where r1: "More d" "msReadKey d = (Inr k, d1)" "value_at d1 v r1" "members_at (past d1 r1) ms r"
    "dc_stack d1 = dc_stack d" "dc_err d1 = dc_err d" using members_step Cons(2) kv by metis
  have op: "opened d0 d \<Longrightarrow> opened d0 (past d1 r1)" for d0 using r1(5,6) by (simp add: opened_def)
  define tv where "tv = (if EqualFold k name then t v else Inr [])"
  have tree: "members_tree name t (kv # ms) =
      (case tv of Inl e \<Rightarrow> Inl e | Inr hs \<Rightarrow> (case members_tree name t ms of Inl e \<Rightarrow> Inl e | Inr gs \<Rightarrow> Inr (hs @ gs)))"
    using kv by (auto simp: members_tree_def tv_def split: sum.splits)
  obtain e2 d2 s2 where m: "member_step name (inner visit) d s = (e2, d2, s2)" using prod_cases3 by blast
  have "outcome (e2, d2, s2) tv visit s (\<lambda>d'. d' = past d1 r1)"
  proof (cases "EqualFold k name")
    case True
    then show ?thesis using walksD [OF w r1(3), of visit s] m r1(2) by (simp add: member_step_def tv_def)
  next
    case False
    then show ?thesis using m r1(2) value_at_Decode [OF r1(3)] by (simp add: member_step_def msSkipValue_def tv_def)
  qed
  then have "outcome (case e2 of Some e \<Rightarrow> (Some e, d2, s2) | None \<Rightarrow> loop d2 s2) (members_tree name t (kv # ms)) visit s
      (\<lambda>d'. members_at d' [] r \<and> (\<forall>d0. opened d0 d \<longrightarrow> opened d0 d'))"
    unfolding tree by (rule outcome_seq) (use op in \<open>auto intro: outcome_mono [OF Cons(1) [OF r1(4)]]\<close>)
  then show ?case using r1(1) m by (subst unf) (simp split: option.splits)
qed

text \<open>A whole object: its opening brace, its members, its closing brace.\<close>

lemma object_outcome:
  assumes loop: "\<And>d ms s. members_at d ms r \<Longrightarrow> outcome (loop d s) (members_tree name t ms) visit s
      (\<lambda>d'. members_at d' [] r \<and> (\<forall>d0. opened d0 d \<longrightarrow> opened d0 d'))"
    and v: "value_at d v r"
  shows "outcome (case msExpectDelim (CHR 0x7B) d of
        (Some err, d1) \<Rightarrow> (Some err, d1, s)
      | (None, d1) \<Rightarrow>
          (case loop d1 s of
             (Some err, d2, s1) \<Rightarrow> (Some err, d2, s1)
           | (None, d2, s1) \<Rightarrow> (case msExpectDelim (CHR 0x7D) d2 of (e, d3) \<Rightarrow> (e, d3, s1))))
    (object_tree name t v) visit s (\<lambda>d'. d' = past d r)"
proof (cases "\<exists>ms. v = JObj ms")
  case True
  then obtain ms where ms: "v = JObj ms" by blast
  obtain d1 where d1: "Token d = (Inr (TDelim (CHR 0x7B)), d1)" "members_at d1 ms r" "opened d d1" using Token_object v ms by metis
  have oa: "msExpectDelim (CHR 0x7B) d = (None, d1)" using d1(1) by (simp add: msExpectDelim_def)
  obtain e2 d2 s2 where l: "loop d1 s = (e2, d2, s2)" using prod_cases3 by blast
  note o = loop [OF d1(2), of s, unfolded l]
  show ?thesis
  proof (cases "members_tree name t ms")
    case (Inl x)
    then show ?thesis using o oa l ms by (cases e2) (auto simp: object_tree_def)
  next
    case (Inr hs)
    then show ?thesis using o oa l ms members_end [of d2 r d] d1(3) by (cases e2) (auto simp: object_tree_def)
  qed
next
  case no: False
  have "(\<exists>d1. Token d = (Inr (TDelim (CHR 0x5B)), d1)) \<or> Token d = (Inr (TValue v), past d r)"
    using Token_scalar [OF v] Token_array [of d _ r] v no by metis
  then have "\<exists>d1 e. msExpectDelim (CHR 0x7B) d = (Some e, d1)" by (auto simp: msExpectDelim_def)
  moreover have "\<exists>e. object_tree name t v = Inl e" using no by (cases v) (auto simp: object_tree_def)
  ultimately show ?thesis by auto
qed

lemma file_object_walks: "walks file_object (object_tree ''chunks'' chunks_tree)"
  unfolding walks_def file_object_def
  by (intro allI impI object_outcome members_outcome [OF streamChunksArray_walks file_members.simps])

lemma files_loop_outcome:
  "elems_at d vs r \<Longrightarrow> outcome (files_loop visit d s) (concatM (object_tree ''chunks'' chunks_tree) vs) visit s
     (\<lambda>d'. elems_at d' [] r \<and> (\<forall>d0. opened d0 d \<longrightarrow> opened d0 d'))"
proof (induction vs arbitrary: d s)
  case Nil
  then have "\<not> More d"
    by (auto simp: elems_at_def More_def peek_skip elim!: scan_elems.elims split: sum.splits list.splits if_splits)
  then show ?case using Nil by (subst files_loop.simps) simp
next
  case (Cons v vs)
  obtain r1 where r1: "More d" "value_at d v r1" "elems_at (past d r1) vs r" using elems_step [OF Cons(2)] .
  obtain e2 d2 s2 where m: "file_object visit d s = (e2, d2, s2)" using prod_cases3 by blast
  have "outcome (case e2 of Some e \<Rightarrow> (Some e, d2, s2) | None \<Rightarrow> files_loop visit d2 s2)
      (concatM (object_tree ''chunks'' chunks_tree) (v # vs)) visit s
      (\<lambda>d'. elems_at d' [] r \<and> (\<forall>d0. opened d0 d \<longrightarrow> opened d0 d'))"
    unfolding concatM_simps
    by (rule outcome_seq [OF walksD [OF file_object_walks r1(2), of visit s, unfolded m]]) (use Cons(1) [OF r1(3)] in simp)
  then show ?case using r1(1) m by (subst files_loop.simps) (simp split: option.splits)
qed

lemma streamFilesArray_walks: "walks streamFilesArray files_tree"
  unfolding walks_def streamFilesArray_def files_tree_def concatM_def [symmetric]
  by (intro allI impI array_outcome files_loop_outcome) simp_all

subsection \<open>Streaming agrees with the tree\<close>

lemma value_at_top:
  assumes "Unmarshal (string_of_bytes (rd_data r)) = Inr v"
  obtains q where "value_at (NewDecoder r) v q"
proof -
  obtain q where "scan_value (Suc (2 * length (string_of_bytes (rd_data r)))) (string_of_bytes (rd_data r)) = Inr (v, q)"
    using assms by (auto simp: Unmarshal_def split: sum.splits if_splits)
  then show thesis using that [of q] unfolding value_at_def by (auto simp: NewDecoder_def)
qed

lemma stream_object_outcome:
  assumes loop: "\<And>d ms r s. members_at d ms r \<Longrightarrow> outcome (members visit d s) (members_tree name t ms) visit s
      (\<lambda>d'. members_at d' [] r \<and> (\<forall>d0. opened d0 d \<longrightarrow> opened d0 d'))"
    and u: "Unmarshal (string_of_bytes b) = Inr v" and l: "int (length b) < MaxStreamedMetadataBytes"
  shows "case object_tree name t v of
      Inr hs \<Rightarrow> stream_object members (bytes_NewReader b) visit s = visits visit hs s
    | Inl _ \<Rightarrow> fst (stream_object members (bytes_NewReader b) visit s) \<noteq> None"
proof -
  let ?r = "bytes_NewReader b :: error reader" and ?d = "NewDecoder (bytes_NewReader b)"
  obtain q where q: "value_at ?d v q" using value_at_top [of ?r v] u by auto
  have lim: "limit_metadata ?r = ?r" using l by (simp add: limit_metadata_def)
  define run where "run = (case msExpectDelim (CHR 0x7B) ?d of
        (Some err, d1) \<Rightarrow> (Some err, d1, s)
      | (None, d1) \<Rightarrow>
          (case members visit d1 s of
             (Some err, d2, s1) \<Rightarrow> (Some err, d2, s1)
           | (None, d2, s1) \<Rightarrow> (case msExpectDelim (CHR 0x7D) d2 of (e, d3) \<Rightarrow> (e, d3, s1))))"
  have o: "outcome run (object_tree name t v) visit s (\<lambda>d'. d' = past ?d q)"
    unfolding run_def by (rule object_outcome [OF loop q])
  have "stream_object members ?r visit s = (fst run, snd (snd run))"
    unfolding stream_object_def lim run_def by (simp split: prod.splits option.splits)
  then show ?thesis using o by (cases run; cases "object_tree name t v") simp_all
qed

text \<open>
  C22. The streaming readers find the references a full parse finds, in document order, and fail where a full parse
  finds a value of the wrong type. For a manifest that is valid JSON and below the 16 TiB limit,
  \<^verbatim>\<open>streamBackupChunkRefs\<close> hands the callback exactly the hashes of \<^verbatim>\<open>files[].chunks[].hash\<close>, and
  \<^verbatim>\<open>streamSegmentChunkRefs\<close> exactly those of \<^verbatim>\<open>chunks[].hash\<close>, stopping at the first callback error; when the parsed
  value does not have that shape, both return an error whatever the callback does.
\<close>

theorem manifest_stream_agrees_with_parse:
  assumes "Unmarshal (string_of_bytes b) = Inr v" "int (length b) < MaxStreamedMetadataBytes"
  shows "(case backup_tree v of
        Inr hs \<Rightarrow> streamBackupChunkRefs (bytes_NewReader b) visit s = visits visit hs s
      | Inl _ \<Rightarrow> fst (streamBackupChunkRefs (bytes_NewReader b) visit s) \<noteq> None) \<and>
    (case segment_tree v of
        Inr hs \<Rightarrow> streamSegmentChunkRefs (bytes_NewReader b) visit s = visits visit hs s
      | Inl _ \<Rightarrow> fst (streamSegmentChunkRefs (bytes_NewReader b) visit s) \<noteq> None)"
  unfolding backup_tree_def segment_tree_def streamBackupChunkRefs_def streamSegmentChunkRefs_def
  by (intro conjI stream_object_outcome [OF _ assms]
      members_outcome [OF streamFilesArray_walks backup_members.simps] members_outcome [OF streamChunksArray_walks file_members.simps])

definition ex_manifest :: string where
  "ex_manifest = print_json (JObj [(''id'', JStr ''b1''),
     (''files'', JArr [JObj [(''path'', JStr ''base''), (''chunks'', JArr [JObj [(''hash'', JStr ''aa'')], JObj [(''hash'', JStr ''bb'')]])],
                       JObj [(''chunks'', JNull)]])])"

theorem manifest_stream_agrees_with_parse_witness:
  "streamBackupChunkRefs (bytes_NewReader (bytes_of_string ex_manifest)) collect [] = (None, [''aa'', ''bb''])"
proof -
  obtain v where v: "Unmarshal (string_of_bytes (bytes_of_string ex_manifest)) = Inr v" "backup_tree v = Inr [''aa'', ''bb'']"
  proof -
    have "(case Unmarshal (string_of_bytes (bytes_of_string ex_manifest)) of Inr v \<Rightarrow> backup_tree v = Inr [''aa'', ''bb''] | Inl _ \<Rightarrow> False)"
      by code_simp
    then show thesis using that by (auto split: sum.splits)
  qed
  have "int (length (bytes_of_string ex_manifest)) < MaxStreamedMetadataBytes" by code_simp
  from manifest_stream_agrees_with_parse [OF v(1) this, of collect "[]"] v(2) show ?thesis by (simp add: collect_def)
qed

end
