(* ===== verification/Gc.thy ===== *)
theory Gc
  imports ManifestStream Cas GoTime
begin

text \<open>
  Reference collection of \<^verbatim>\<open>internal/repo/gc.go\<close>, the manifest snapshot of \<^verbatim>\<open>gcsweep.go\<close> and the staging-key test of
  \<^verbatim>\<open>stale_temp_key_guard.go\<close>. A \<^verbatim>\<open>RefSet\<close> is the spilling hash set it wraps. A loop over \<^verbatim>\<open>sp.List\<close> runs its body on the
  infos the listing yields and then meets the error the listing ends with. The harvest workers of a scan take each job as
  it is sent, so a harvest error ends the dispatch at once; the code reaches the same error after it drained the queue.
\<close>

subsection \<open>Loops over a listing\<close>

type_synonym ('s, 'w) body = "ObjectInfo \<Rightarrow> 's \<Rightarrow> 'w \<Rightarrow> error option \<times> 's \<times> 'w"

fun range_infos :: "('s, 'w) body \<Rightarrow> ObjectInfo list \<Rightarrow> 's \<Rightarrow> 'w \<Rightarrow> error option \<times> 's \<times> 'w" where
  "range_infos body [] s w = (None, s, w)"
| "range_infos body (i # is) s w =
     (case body i s w of
        (Some err, s1, w1) \<Rightarrow> (Some err, s1, w1)
      | (None, s1, w1) \<Rightarrow> range_infos body is s1 w1)"

definition range_list :: "'w StoragePlugin \<Rightarrow> ctx \<Rightarrow> string \<Rightarrow> ('s, 'w) body \<Rightarrow> 's \<Rightarrow> 'w \<Rightarrow> error option \<times> 's \<times> 'w" where
  "range_list sp ctx prefix body s w =
     (case sp_List sp ctx prefix w of ((infos, lerr), w1) \<Rightarrow>
        (case range_infos body infos s w1 of
           (Some err, s1, w2) \<Rightarrow> (Some err, s1, w2)
         | (None, s1, w2) \<Rightarrow> (lerr, s1, w2)))"

text \<open>A body that first asks the context.\<close>

definition ctx_checked :: "'w runtime \<Rightarrow> ctx \<Rightarrow> ('s, 'w) body \<Rightarrow> ('s, 'w) body" where
  "ctx_checked rt ctx body i s w =
     (case rt_CtxErr rt ctx w of
        (Some err, w1) \<Rightarrow> (Some err, s, w1)
      | (None, w1) \<Rightarrow> body i s w1)"

subsection \<open>Options\<close>

text \<open>
  \<^verbatim>\<open>spill.Options\<close>. The directory shows only in how its file operations end: the scripts of faults and of free space of
  the \<open>n\<close>-th set created there.
\<close>

record SpillOptions =
  opt_MemEntries :: int
  opt_MaxBloomBytes :: int
  opt_faults :: "nat \<Rightarrow> errno option list"
  opt_free :: "nat \<Rightarrow> nat option list"

definition new_set :: "nat \<Rightarrow> SpillOptions \<Rightarrow> HashSet" where
  "new_set n o' = NewHashSet (opt_MemEntries o') (opt_MaxBloomBytes o') (opt_faults o' n) (opt_free o' n)"

definition DefaultTombstoneGracePeriod :: duration where "DefaultTombstoneGracePeriod = 24 * hour"
definition DefaultOrphanMinAge :: duration where "DefaultOrphanMinAge = 24 * hour"

record CollectReferencesOptions =
  cro_TombstoneGrace :: duration
  cro_Now :: instant
  cro_RefSpill :: SpillOptions

definition effectiveGrace :: "CollectReferencesOptions \<Rightarrow> duration" where
  "effectiveGrace o' =
     (if cro_TombstoneGrace o' = 0 then DefaultTombstoneGracePeriod
      else if cro_TombstoneGrace o' < 0 then 0
      else cro_TombstoneGrace o')"

definition cro_effectiveNow :: "'w runtime \<Rightarrow> CollectReferencesOptions \<Rightarrow> 'w \<Rightarrow> instant \<times> 'w" where
  "cro_effectiveNow rt o' w = (if cro_Now o' = zero_time then rt_Now rt w else (cro_Now o', w))"

record FindOrphansOptions =
  fo_MinAge :: duration
  fo_Now :: instant

definition effectiveMinAge :: "FindOrphansOptions \<Rightarrow> duration" where
  "effectiveMinAge o' =
     (if fo_MinAge o' = 0 then DefaultOrphanMinAge
      else if fo_MinAge o' < 0 then 0
      else fo_MinAge o')"

definition fo_effectiveNow :: "'w runtime \<Rightarrow> FindOrphansOptions \<Rightarrow> 'w \<Rightarrow> instant \<times> 'w" where
  "fo_effectiveNow rt o' w = (if fo_Now o' = zero_time then rt_Now rt w else (fo_Now o', w))"

definition age_cutoff :: "'w runtime \<Rightarrow> FindOrphansOptions \<Rightarrow> 'w \<Rightarrow> instant \<times> 'w" where
  "age_cutoff rt o' w =
     (if effectiveMinAge o' > 0 then (case fo_effectiveNow rt o' w of (t, w1) \<Rightarrow> (t - effectiveMinAge o', w1))
      else (zero_time, w))"

text \<open>The age floor: an object without a time or younger than the cutoff is kept.\<close>

definition too_young :: "duration \<Rightarrow> instant \<Rightarrow> ObjectInfo \<Rightarrow> bool" where
  "too_young minAge cutoff info \<longleftrightarrow> minAge > 0 \<and> (oi_ModTime info = zero_time \<or> oi_ModTime info > cutoff)"

subsection \<open>Reference sets\<close>

definition NewRefSetWithOptions :: "SpillOptions \<Rightarrow> HashSet" where
  "NewRefSetWithOptions o' = new_set 0 o'"

definition RefSet_Add :: "Hash \<Rightarrow> HashSet \<Rightarrow> HashSet" where
  "RefSet_Add h refs = snd (Add h refs)"

subsection \<open>Harvesting one manifest\<close>

datatype harvestKind = harvestBackup | harvestWAL

definition unparseableRef :: "string \<Rightarrow> string \<Rightarrow> error \<Rightarrow> error" where
  "unparseableRef key hash err = Errorf ''gc: manifest references an unparseable chunk hash'' [err]"

definition harvest_visit :: "string \<Rightarrow> HashSet visit" where
  "harvest_visit key hash refs =
     (case parseHexHash hash of
        Inl err \<Rightarrow> (Some (unparseableRef key hash err), refs)
      | Inr h \<Rightarrow> (None, RefSet_Add h refs))"

definition harvestManifest :: "'w StoragePlugin \<Rightarrow> ctx \<Rightarrow> string \<Rightarrow> harvestKind \<Rightarrow> HashSet \<Rightarrow> 'w \<Rightarrow>
    error option \<times> HashSet \<times> 'w" where
  "harvestManifest sp ctx key kind refs w =
     (case sp_Get sp ctx key w of
        (Inl err, w1) \<Rightarrow> (if is_err err ErrNotFound then None else Some err, refs, w1)
      | (Inr rc, w1) \<Rightarrow>
          (case (case kind of
                   harvestBackup \<Rightarrow> streamBackupChunkRefs rc (harvest_visit key) refs
                 | harvestWAL \<Rightarrow> streamSegmentChunkRefs rc (harvest_visit key) refs) of
             (e, refs1) \<Rightarrow> (e, refs1, w1)))"

definition isStaleTempKey :: "string \<Rightarrow> bool" where
  "isStaleTempKey key \<longleftrightarrow> Contains (Basename key) ''.json.tmp.'' \<or> Contains (Basename key) ''.history.tmp.''"

subsection \<open>The manifest snapshot\<close>

record manifestSnapshot =
  ms_refs :: HashSet
  ms_harvested :: HashSet
  ms_opts :: CollectReferencesOptions
  ms_stale :: "string list"
  ms_minAge :: duration
  ms_ageCutoff :: instant

definition newManifestSnapshot :: "SpillOptions \<Rightarrow> CollectReferencesOptions \<Rightarrow> manifestSnapshot" where
  "newManifestSnapshot refSpill opts =
     (let memo = 262144;
          mem = (if opt_MemEntries refSpill > 0 \<and> opt_MemEntries refSpill < memo then opt_MemEntries refSpill else memo)
      in \<lparr>ms_refs = NewRefSetWithOptions refSpill,
          ms_harvested = new_set 1 (refSpill\<lparr>opt_MemEntries := mem, opt_MaxBloomBytes := 0\<rparr>),
          ms_opts = opts, ms_stale = [], ms_minAge = 0, ms_ageCutoff = zero_time\<rparr>)"

text \<open>The bytes of an integer, least significant first.\<close>

definition le_bytes :: "nat \<Rightarrow> int \<Rightarrow> bytes" where
  "le_bytes n x = map (\<lambda>i. word_of_int (x div 256 ^ i)) [0..<n]"

definition Unix :: "instant \<Rightarrow> int" where
  "Unix t = t div second - 62135596800"

definition digest_input :: "ObjectInfo \<Rightarrow> bytes" where
  "digest_input info =
     bytes_of_string (oi_Key info) @ [0] @ le_bytes 8 (int (oi_Size info)) @ le_bytes 4 (oi_ModTime info mod second) @
     le_bytes 8 (Unix (oi_ModTime info))"

definition harvestDigest :: "(bytes \<Rightarrow> Hash) \<Rightarrow> ObjectInfo \<Rightarrow> Hash" where
  "harvestDigest sha info = sha (digest_input info)"

definition fresh :: "(bytes \<Rightarrow> Hash) \<Rightarrow> ObjectInfo \<Rightarrow> manifestSnapshot \<Rightarrow> bool \<times> manifestSnapshot" where
  "fresh sha info s =
     (case hs_Has (harvestDigest sha info) (ms_harvested s) of (b, h) \<Rightarrow> (b, s\<lparr>ms_harvested := h\<rparr>))"

definition isStaleAged :: "manifestSnapshot \<Rightarrow> ObjectInfo \<Rightarrow> bool" where
  "isStaleAged s info \<longleftrightarrow> (if ms_minAge s \<le> 0 then True else oi_ModTime info \<noteq> zero_time \<and> \<not> oi_ModTime info > ms_ageCutoff s)"

text \<open>One job of a harvest worker: a cancelled context drains it, and the scan then ends with the context's error.\<close>

definition harvest_job :: "(bytes \<Rightarrow> Hash) \<Rightarrow> 'w runtime \<Rightarrow> 'w StoragePlugin \<Rightarrow> ctx \<Rightarrow> harvestKind \<Rightarrow> ObjectInfo \<Rightarrow>
    manifestSnapshot \<Rightarrow> 'w \<Rightarrow> error option \<times> manifestSnapshot \<times> 'w" where
  "harvest_job sha rt sp ctx kind info s w =
     (case rt_CtxErr rt ctx w of
        (Some err, w1) \<Rightarrow> (Some err, s, w1)
      | (None, w1) \<Rightarrow>
          (case harvestManifest sp ctx (oi_Key info) kind (ms_refs s) w1 of
             (Some err, refs, w2) \<Rightarrow> (Some err, s\<lparr>ms_refs := refs\<rparr>, w2)
           | (None, refs, w2) \<Rightarrow>
               (None, s\<lparr>ms_refs := refs, ms_harvested := snd (Add (harvestDigest sha info) (ms_harvested s))\<rparr>, w2)))"

definition tombstone_id :: "string \<Rightarrow> string" where
  "tombstone_id key = (let parts = Split CHR ''/'' key in parts ! 1 @ ''/'' @ parts ! 3)"

text \<open>The first pass, over \<^verbatim>\<open>manifests/\<close>: expired tombstones, manifests, stale temporaries.\<close>

definition classify :: "manifestSnapshot \<Rightarrow> duration \<Rightarrow> instant \<Rightarrow> bool \<Rightarrow> ObjectInfo \<Rightarrow>
    string list \<times> string list \<times> ObjectInfo list \<Rightarrow> string list \<times> string list \<times> ObjectInfo list" where
  "classify s grace graceCutoff collectStale info acc =
     (case acc of (stale, tombstoned, backupKeys) \<Rightarrow>
      if HasSuffix (oi_Key info) ''/manifest.json.tombstone'' then
        (if grace > 0 \<and> (oi_ModTime info = zero_time \<or> oi_ModTime info > graceCutoff) then acc
         else if length (Split CHR ''/'' (oi_Key info)) \<ge> 4 then (stale, tombstone_id (oi_Key info) # tombstoned, backupKeys)
         else acc)
      else if HasSuffix (oi_Key info) ''/manifest.json'' then (stale, tombstoned, backupKeys @ [info])
      else if collectStale \<and> isStaleTempKey (oi_Key info) then
        (if isStaleAged s info then (stale @ [oi_Key info], tombstoned, backupKeys) else acc)
      else acc)"

definition dispatch_backup :: "(bytes \<Rightarrow> Hash) \<Rightarrow> 'w runtime \<Rightarrow> 'w StoragePlugin \<Rightarrow> ctx \<Rightarrow> string list \<Rightarrow>
    (manifestSnapshot, 'w) body" where
  "dispatch_backup sha rt sp ctx tombstoned info s w =
     (if length (Split CHR ''/'' (oi_Key info)) \<ge> 5 \<and> tombstone_id (oi_Key info) \<in> set tombstoned then (None, s, w)
      else case fresh sha info s of
        (True, s1) \<Rightarrow> (None, s1, w)
      | (False, s1) \<Rightarrow> harvest_job sha rt sp ctx harvestBackup info s1 w)"

definition dispatch_segment :: "(bytes \<Rightarrow> Hash) \<Rightarrow> 'w runtime \<Rightarrow> 'w StoragePlugin \<Rightarrow> ctx \<Rightarrow> bool \<Rightarrow>
    (string list \<times> manifestSnapshot, 'w) body" where
  "dispatch_segment sha rt sp ctx wantStale info acc w =
     (case acc of (stale, s) \<Rightarrow>
      if isStaleTempKey (oi_Key info) then
        (None, (if wantStale \<and> isStaleAged s info then stale @ [oi_Key info] else stale, s), w)
      else if \<not> HasSuffix (oi_Key info) ''.json'' then (None, (stale, s), w)
      else case fresh sha info s of
        (True, s1) \<Rightarrow> (None, (stale, s1), w)
      | (False, s1) \<Rightarrow>
          (case harvest_job sha rt sp ctx harvestWAL info s1 w of (e, s2, w1) \<Rightarrow> (e, (stale, s2), w1)))"

definition listAndDispatch :: "(bytes \<Rightarrow> Hash) \<Rightarrow> 'w runtime \<Rightarrow> 'w StoragePlugin \<Rightarrow> ctx \<Rightarrow> bool \<Rightarrow> manifestSnapshot \<Rightarrow> 'w \<Rightarrow>
    error option \<times> manifestSnapshot \<times> 'w" where
  "listAndDispatch sha rt sp ctx collectStale s w =
     (case cro_effectiveNow rt (ms_opts s) w of (now, w0) \<Rightarrow>
      (let grace = effectiveGrace (ms_opts s); graceCutoff = now - grace in
       case range_list sp ctx ''manifests/''
              (ctx_checked rt ctx (\<lambda>i acc w. (None, classify s grace graceCutoff collectStale i acc, w))) ([], [], []) w0 of
         (Some err, _, w1) \<Rightarrow> (Some err, s, w1)
       | (None, (stale, tombstoned, backupKeys), w1) \<Rightarrow>
           (case range_infos (dispatch_backup sha rt sp ctx tombstoned) backupKeys s w1 of
              (Some err, s1, w2) \<Rightarrow> (Some err, s1, w2)
            | (None, s1, w2) \<Rightarrow>
                (case range_list sp ctx ''wal/'' (ctx_checked rt ctx (dispatch_segment sha rt sp ctx collectStale)) (stale, s1) w2 of
                   (Some err, (_, s2), w3) \<Rightarrow> (Some err, s2, w3)
                 | (None, (stale1, s2), w3) \<Rightarrow>
                     (case range_list sp ctx ''logical/'' (ctx_checked rt ctx (dispatch_segment sha rt sp ctx False)) (stale1, s2) w3 of
                        (Some err, (_, s3), w4) \<Rightarrow> (Some err, s3, w4)
                      | (None, (stale2, s3), w4) \<Rightarrow>
                          (None, if collectStale then s3\<lparr>ms_stale := sort stale2\<rparr> else s3, w4))))))"

definition scan :: "(bytes \<Rightarrow> Hash) \<Rightarrow> 'w runtime \<Rightarrow> 'w StoragePlugin \<Rightarrow> ctx \<Rightarrow> bool \<Rightarrow> manifestSnapshot \<Rightarrow> 'w \<Rightarrow>
    error option \<times> manifestSnapshot \<times> 'w" where
  "scan sha rt sp ctx collectStale s w =
     (case listAndDispatch sha rt sp ctx collectStale s w of
        (Some err, s1, w1) \<Rightarrow> (Some err, s1, w1)
      | (None, s1, w1) \<Rightarrow>
          (case hs_err (ms_harvested s1) of
             Some err \<Rightarrow> (Some (Errorf ''harvest memo unreliable'' [err]), s1, w1)
           | None \<Rightarrow> (case rt_CtxErr rt ctx w1 of (e, w2) \<Rightarrow> (e, s1, w2))))"

definition CollectReferencesWithOptions :: "(bytes \<Rightarrow> Hash) \<Rightarrow> 'w runtime \<Rightarrow> 'w StoragePlugin \<Rightarrow> ctx \<Rightarrow>
    CollectReferencesOptions \<Rightarrow> 'w \<Rightarrow> (error + HashSet) \<times> 'w" where
  "CollectReferencesWithOptions sha rt sp ctx opts w =
     (case scan sha rt sp ctx False (newManifestSnapshot (cro_RefSpill opts) opts) w of
        (Some err, _, w1) \<Rightarrow> (Inl err, w1)
      | (None, s, w1) \<Rightarrow>
          (case hs_err (ms_refs s) of
             Some err \<Rightarrow> (Inl err, w1)
           | None \<Rightarrow> (Inr (ms_refs s), w1)))"

definition CollectReferences :: "(bytes \<Rightarrow> Hash) \<Rightarrow> 'w runtime \<Rightarrow> 'w StoragePlugin \<Rightarrow> ctx \<Rightarrow> SpillOptions \<Rightarrow> 'w \<Rightarrow>
    (error + HashSet) \<times> 'w" where
  "CollectReferences sha rt sp ctx env w =
     CollectReferencesWithOptions sha rt sp ctx
       \<lparr>cro_TombstoneGrace = 0, cro_Now = zero_time,
        cro_RefSpill = env\<lparr>opt_MemEntries := 0, opt_MaxBloomBytes := 0\<rparr>\<rparr> w"

subsection \<open>Samples\<close>

record hashSample =
  sm_limit :: nat
  sm_buf :: "Hash list"

definition sample_trim :: "hashSample \<Rightarrow> hashSample" where
  "sample_trim s =
     (let b = sortHashes (sm_buf s) in s\<lparr>sm_buf := if length b > sm_limit s then take (sm_limit s) b else b\<rparr>)"

definition sample_offer :: "Hash \<Rightarrow> hashSample \<Rightarrow> hashSample" where
  "sample_offer h s =
     (let s1 = s\<lparr>sm_buf := sm_buf s @ [h]\<rparr> in
      if length (sm_buf s1) \<ge> 2 * sm_limit s1 then sample_trim s1 else s1)"

definition sample_sorted :: "hashSample \<Rightarrow> Hash list" where
  "sample_sorted s = sm_buf (sample_trim s)"

subsection \<open>Orphans\<close>

record orphanScan =
  os_orphans :: "Hash list"
  os_sample :: hashSample
  os_total :: nat
  os_refs :: HashSet

definition orphan_body :: "duration \<Rightarrow> instant \<Rightarrow> int \<Rightarrow> (orphanScan, 'w) body" where
  "orphan_body minAge cutoff limit info s w =
     (case ParseChunkKey (oi_Key info) of
        Inl _ \<Rightarrow> (None, s, w)
      | Inr hash \<Rightarrow>
          (case hs_Has hash (os_refs s) of (b, refs) \<Rightarrow>
           (let s1 = s\<lparr>os_refs := refs\<rparr> in
            if b then (None, s1, w)
            else if too_young minAge cutoff info then (None, s1, w)
            else (let s2 = s1\<lparr>os_total := os_total s1 + 1\<rparr> in
                  (None, if limit < 0 then s2\<lparr>os_orphans := os_orphans s2 @ [hash]\<rparr>
                         else if limit > 0 then s2\<lparr>os_sample := sample_offer hash (os_sample s2)\<rparr>
                         else s2, w)))))"

definition FindOrphansLimit :: "'w runtime \<Rightarrow> 'w StoragePlugin \<Rightarrow> ctx \<Rightarrow> FindOrphansOptions \<Rightarrow> int \<Rightarrow> HashSet \<Rightarrow> 'w \<Rightarrow>
    (error + Hash list \<times> nat) \<times> HashSet \<times> 'w" where
  "FindOrphansLimit rt sp ctx opts limit refs w =
     (case age_cutoff rt opts w of (cutoff, w0) \<Rightarrow>
      (case range_list sp ctx ''chunks/sha256/'' (ctx_checked rt ctx (orphan_body (effectiveMinAge opts) cutoff limit))
              \<lparr>os_orphans = [], os_sample = \<lparr>sm_limit = nat limit, sm_buf = []\<rparr>, os_total = 0, os_refs = refs\<rparr> w0 of
         (Some err, s, w1) \<Rightarrow> (Inl err, os_refs s, w1)
       | (None, s, w1) \<Rightarrow>
           (let orphans = (if limit \<ge> 0 then sample_sorted (os_sample s) else os_orphans s)
            in (Inr (sortHashes orphans, os_total s), os_refs s, w1))))"

definition FindOrphansWithOptions :: "'w runtime \<Rightarrow> 'w StoragePlugin \<Rightarrow> ctx \<Rightarrow> FindOrphansOptions \<Rightarrow> HashSet \<Rightarrow> 'w \<Rightarrow>
    (error + Hash list) \<times> HashSet \<times> 'w" where
  "FindOrphansWithOptions rt sp ctx opts refs w =
     (case FindOrphansLimit rt sp ctx opts (- 1) refs w of
        (Inl err, refs1, w1) \<Rightarrow> (Inl err, refs1, w1)
      | (Inr (orphans, _), refs1, w1) \<Rightarrow> (Inr orphans, refs1, w1))"

definition FindOrphans :: "'w runtime \<Rightarrow> 'w StoragePlugin \<Rightarrow> ctx \<Rightarrow> HashSet \<Rightarrow> 'w \<Rightarrow> (error + Hash list) \<times> HashSet \<times> 'w" where
  "FindOrphans rt sp ctx refs w = FindOrphansWithOptions rt sp ctx \<lparr>fo_MinAge = - 1, fo_Now = zero_time\<rparr> refs w"

definition stale_body :: "duration \<Rightarrow> instant \<Rightarrow> (string list, 'w) body" where
  "stale_body minAge cutoff info stale w =
     (if \<not> isStaleTempKey (oi_Key info) then (None, stale, w)
      else if too_young minAge cutoff info then (None, stale, w)
      else (None, stale @ [oi_Key info], w))"

definition FindStaleTempManifests :: "'w runtime \<Rightarrow> 'w StoragePlugin \<Rightarrow> ctx \<Rightarrow> FindOrphansOptions \<Rightarrow> 'w \<Rightarrow> (error + string list) \<times> 'w" where
  "FindStaleTempManifests rt sp ctx opts w =
     (case age_cutoff rt opts w of (cutoff, w0) \<Rightarrow>
      (let body = ctx_checked rt ctx (stale_body (effectiveMinAge opts) cutoff) in
       case range_list sp ctx ''manifests/'' body [] w0 of
         (Some err, _, w1) \<Rightarrow> (Inl err, w1)
       | (None, stale, w1) \<Rightarrow>
           (case range_list sp ctx ''wal/'' body stale w1 of
              (Some err, _, w2) \<Rightarrow> (Inl err, w2)
            | (None, stale1, w2) \<Rightarrow> (Inr (sort stale1), w2))))"

subsection \<open>Missing chunks\<close>

text \<open>The callback of \<^verbatim>\<open>FindMissingLimit\<close> over the keys \<^verbatim>\<open>ForEach\<close> visits.\<close>

fun missing_loop :: "'w runtime \<Rightarrow> 'w StoragePlugin \<Rightarrow> ctx \<Rightarrow> int \<Rightarrow> Hash list \<Rightarrow> Hash list \<Rightarrow> nat \<Rightarrow> 'w \<Rightarrow>
    (Hash list \<times> nat \<times> error option) \<times> 'w" where
  "missing_loop rt sp ctx limit [] missing tot w = ((missing, tot, None), w)"
| "missing_loop rt sp ctx limit (h # hs) missing tot w =
     (case rt_CtxErr rt ctx w of
        (Some err, w1) \<Rightarrow> ((missing, tot, Some err), w1)
      | (None, w1) \<Rightarrow>
          (case sp_Stat sp ctx (ChunkKey h) w1 of
             (Inr _, w2) \<Rightarrow> missing_loop rt sp ctx limit hs missing tot w2
           | (Inl err, w2) \<Rightarrow>
               if is_err err ErrNotFound then
                 missing_loop rt sp ctx limit hs
                   (if limit < 0 \<or> int (length missing) < limit then missing @ [h] else missing) (tot + 1) w2
               else ((missing, tot, Some (Errorf ''repo: FindMissing: stat'' [err])), w2)))"

definition FindMissingLimit :: "'w runtime \<Rightarrow> 'w StoragePlugin \<Rightarrow> ctx \<Rightarrow> int \<Rightarrow> HashSet \<Rightarrow> 'w \<Rightarrow>
    (Hash list \<times> nat \<times> error option) \<times> HashSet \<times> 'w" where
  "FindMissingLimit rt sp ctx limit refs w =
     (case hs_ForEach refs of ((ks, ferr), refs1) \<Rightarrow>
        (case missing_loop rt sp ctx limit ks [] 0 w of
           ((missing, tot, Some err), w1) \<Rightarrow> ((missing, tot, Some err), refs1, w1)
         | ((missing, tot, None), w1) \<Rightarrow> ((missing, tot, ferr), refs1, w1)))"

definition FindMissing :: "'w runtime \<Rightarrow> 'w StoragePlugin \<Rightarrow> ctx \<Rightarrow> HashSet \<Rightarrow> 'w \<Rightarrow>
    (Hash list \<times> error option) \<times> HashSet \<times> 'w" where
  "FindMissing rt sp ctx refs w =
     (case FindMissingLimit rt sp ctx (- 1) refs w of ((missing, _, err), refs1, w1) \<Rightarrow> ((missing, err), refs1, w1))"

subsection \<open>Scrub\<close>

record ScrubResult =
  sr_Sampled :: nat
  sr_OK :: nat
  sr_Mismatches :: "Hash list"
  sr_MismatchCount :: nat
  sr_Bytes :: nat

definition ScrubMismatchListLimit :: nat where "ScrubMismatchListLimit = 1024"

definition noteMismatch :: "Hash \<Rightarrow> ScrubResult \<Rightarrow> ScrubResult" where
  "noteMismatch h r =
     (let r1 = r\<lparr>sr_MismatchCount := sr_MismatchCount r + 1\<rparr> in
      if length (sr_Mismatches r1) < ScrubMismatchListLimit then r1\<lparr>sr_Mismatches := sr_Mismatches r1 @ [h]\<rparr> else r1)"

fun scrub_loop :: "(bytes \<Rightarrow> Hash) \<Rightarrow> 'w runtime \<Rightarrow> ctx \<Rightarrow> nat \<Rightarrow> error option \<Rightarrow> Hash list \<Rightarrow> ScrubResult \<Rightarrow> 'w CAS \<Rightarrow> 'w \<Rightarrow>
    (ScrubResult \<times> error option) \<times> 'w CAS \<times> 'w" where
  "scrub_loop sha rt ctx limit ferr [] res c w = ((res, ferr), c, w)"
| "scrub_loop sha rt ctx limit ferr (h # hs) res c w =
     (if limit > 0 \<and> sr_Sampled res \<ge> limit then ((res, None), c, w)
      else case rt_CtxErr rt ctx w of
        (Some err, w1) \<Rightarrow> ((res, Some err), c, w1)
      | (None, w1) \<Rightarrow>
          (case GetChunkBytes sha ctx h c w1 of
             (Inl err, c1, w2) \<Rightarrow>
               if is_err err ContextCanceled \<or> is_err err DeadlineExceeded then ((res, Some err), c1, w2)
               else scrub_loop sha rt ctx limit ferr hs
                 ((noteMismatch h res)\<lparr>sr_Sampled := sr_Sampled res + 1\<rparr>) c1 w2
           | (Inr body, c1, w2) \<Rightarrow>
               if sha body \<noteq> h then
                 scrub_loop sha rt ctx limit ferr hs ((noteMismatch h res)\<lparr>sr_Sampled := sr_Sampled res + 1\<rparr>) c1 w2
               else scrub_loop sha rt ctx limit ferr hs
                 (res\<lparr>sr_OK := sr_OK res + 1, sr_Sampled := sr_Sampled res + 1, sr_Bytes := sr_Bytes res + length body\<rparr>) c1 w2))"

definition Scrub :: "(bytes \<Rightarrow> Hash) \<Rightarrow> 'w runtime \<Rightarrow> ctx \<Rightarrow> nat \<Rightarrow> HashSet \<Rightarrow> 'w CAS \<Rightarrow> 'w \<Rightarrow>
    (ScrubResult \<times> error option) \<times> HashSet \<times> 'w CAS \<times> 'w" where
  "Scrub sha rt ctx limit refs c w =
     (case hs_ForEach refs of ((ks, ferr), refs1) \<Rightarrow>
        (case scrub_loop sha rt ctx limit ferr ks
                \<lparr>sr_Sampled = 0, sr_OK = 0, sr_Mismatches = [], sr_MismatchCount = 0, sr_Bytes = 0\<rparr> c w of
           (r, c1, w1) \<Rightarrow> (r, refs1, c1, w1)))"

end
