(* ===== verification/GcFence.thy ===== *)
theory GcFence
  imports Gc
begin

text \<open>
  \<^verbatim>\<open>internal/repo/gcfence.go\<close>: the run records a collection publishes, the pins a writer leaves for the chunks it
  deduplicated against, and the commit fence that makes a writer wait for the delete batch in progress. The source of adopted
  hashes is passed to each call, since \<^verbatim>\<open>adoptedSource\<close> reads its CAS when it is asked. The poll loop of \<^verbatim>\<open>pinAndWait\<close>
  sleeps 250 ms a turn and gives up after five minutes, so it turns at most \<open>1202\<close> times; that is its fuel.
\<close>

definition gcRunsPrefix :: string where "gcRunsPrefix = ''gc/runs/''"
definition gcPinsPrefix :: string where "gcPinsPrefix = ''gc/pins/''"

definition GCFenceSettle :: duration where "GCFenceSettle = 60 * second"
definition GCFenceWriterBudget :: duration where "GCFenceWriterBudget = 30 * second"
definition GCRunTTL :: duration where "GCRunTTL = 2 * minute"
definition GCPinTTL :: duration where "GCPinTTL = 6 * hour"
definition GCFenceMaxWait :: duration where "GCFenceMaxWait = 5 * minute"
definition gcFencePoll :: duration where "gcFencePoll = 250000000"
definition gcRunRecordRetention :: duration where "gcRunRecordRetention = 24 * hour"

subsection \<open>Run records and pins\<close>

record gcRunRecord =
  gr_Schema :: string
  gr_RunID :: string
  gr_State :: string
  gr_Seq :: int
  gr_StartedAt :: instant
  gr_HeartbeatAt :: instant
  gr_ExpiresAt :: instant

definition gcRunSchema :: string where "gcRunSchema = ''pg_hardstorage.gc_run.v1''"

definition liveAt :: "gcRunRecord \<Rightarrow> instant \<Rightarrow> bool" where
  "liveAt r now \<longleftrightarrow> gr_State r = ''running'' \<and> now < gr_ExpiresAt r"

record gcPin =
  pin_Schema :: string
  pin_Owner :: string
  pin_CreatedAt :: instant
  pin_Hashes :: "Hash list"

definition gcPinSchema :: string where "gcPinSchema = ''pg_hardstorage.gc_pin.v1''"

text \<open>The documents of the two types, and their decoding.\<close>

definition run_json :: "gcRunRecord \<Rightarrow> json" where
  "run_json r =
     JObj [(''schema'', JStr (gr_Schema r)), (''run_id'', JStr (gr_RunID r)), (''state'', JStr (gr_State r)),
           (''seq'', JInt (gr_Seq r)), (''started_at'', JTime (gr_StartedAt r)), (''heartbeat_at'', JTime (gr_HeartbeatAt r)),
           (''expires_at'', JTime (gr_ExpiresAt r))]"

definition run_of_json :: "json \<Rightarrow> error + gcRunRecord" where
  "run_of_json v =
     (case v of
        JObj ms \<Rightarrow>
          (case (str_field ''schema'' ms, str_field ''run_id'' ms, str_field ''state'' ms, int_field ''seq'' ms,
                 time_field ''started_at'' ms, time_field ''heartbeat_at'' ms, time_field ''expires_at'' ms) of
             (Inr sc, Inr rid, Inr st, Inr sq, Inr t1, Inr t2, Inr t3) \<Rightarrow>
               Inr \<lparr>gr_Schema = sc, gr_RunID = rid, gr_State = st, gr_Seq = sq, gr_StartedAt = t1, gr_HeartbeatAt = t2,
                    gr_ExpiresAt = t3\<rparr>
           | _ \<Rightarrow> Inl type_error)
      | JNull \<Rightarrow> Inr \<lparr>gr_Schema = [], gr_RunID = [], gr_State = [], gr_Seq = 0, gr_StartedAt = zero_time,
                      gr_HeartbeatAt = zero_time, gr_ExpiresAt = zero_time\<rparr>
      | _ \<Rightarrow> Inl type_error)"

definition pin_json :: "gcPin \<Rightarrow> json" where
  "pin_json p =
     JObj ([(''schema'', JStr (pin_Schema p))] @ (if pin_Owner p = [] then [] else [(''owner'', JStr (pin_Owner p))]) @
           [(''created_at'', JTime (pin_CreatedAt p)), (''hashes'', JArr (map (\<lambda>h. JStr (MarshalText h)) (pin_Hashes p)))])"

fun hashes_of :: "json list \<Rightarrow> error + Hash list" where
  "hashes_of [] = Inr []"
| "hashes_of (v # vs) =
     (case (case v of JStr s \<Rightarrow> UnmarshalText s | JNull \<Rightarrow> Inr zero_hash | _ \<Rightarrow> Inl type_error) of
        Inl e \<Rightarrow> Inl e
      | Inr h \<Rightarrow> (case hashes_of vs of Inl e \<Rightarrow> Inl e | Inr hs \<Rightarrow> Inr (h # hs)))"

definition hashes_field :: "(string \<times> json) list \<Rightarrow> error + Hash list" where
  "hashes_field ms = (case json_field ''hashes'' ms of None \<Rightarrow> Inr [] | Some (JArr vs) \<Rightarrow> hashes_of vs | _ \<Rightarrow> Inl type_error)"

definition pin_of_json :: "json \<Rightarrow> error + gcPin" where
  "pin_of_json v =
     (case v of
        JObj ms \<Rightarrow>
          (case (str_field ''schema'' ms, str_field ''owner'' ms, time_field ''created_at'' ms, hashes_field ms) of
             (Inr sc, Inr ow, Inr t, Inr hs) \<Rightarrow> Inr \<lparr>pin_Schema = sc, pin_Owner = ow, pin_CreatedAt = t, pin_Hashes = hs\<rparr>
           | _ \<Rightarrow> Inl type_error)
      | JNull \<Rightarrow> Inr \<lparr>pin_Schema = [], pin_Owner = [], pin_CreatedAt = zero_time, pin_Hashes = []\<rparr>
      | _ \<Rightarrow> Inl type_error)"

definition newFenceID :: "'w runtime \<Rightarrow> 'w \<Rightarrow> string \<times> 'w" where
  "newFenceID rt w =
     (case rt_Rand rt 8 w of (b, w1) \<Rightarrow>
        (case rt_Now rt w1 of (t, w2) \<Rightarrow> (fmt_stamp t @ ''-'' @ EncodeToString b, w2)))"

definition putJSON :: "'w StoragePlugin \<Rightarrow> ctx \<Rightarrow> string \<Rightarrow> json \<Rightarrow> 'w unit_op" where
  "putJSON sp ctx key v w =
     (let body = Marshal v in
      case sp_Put sp ctx key (bytes_NewReader body) (zero_PutOptions\<lparr>po_ContentLength := int (length body)\<rparr>) w of
        (Inl err, w1) \<Rightarrow> (Some err, w1)
      | (Inr _, w1) \<Rightarrow> (None, w1))"

definition getJSON :: "(json \<Rightarrow> error + 'a) \<Rightarrow> 'w StoragePlugin \<Rightarrow> ctx \<Rightarrow> string \<Rightarrow> 'w \<Rightarrow> (error + 'a) \<times> 'w" where
  "getJSON decode sp ctx key w =
     (case sp_Get sp ctx key w of
        (Inl err, w1) \<Rightarrow> (Inl err, w1)
      | (Inr rc, w1) \<Rightarrow>
          (case ReadAllLimited rc MaxMetadataBytes of
             Inl err \<Rightarrow> (Inl err, w1)
           | Inr body \<Rightarrow>
               (case Unmarshal (string_of_bytes body) of
                  Inl err \<Rightarrow> (Inl err, w1)
                | Inr v \<Rightarrow> (decode v, w1))))"

definition run_body :: "'w runtime \<Rightarrow> 'w StoragePlugin \<Rightarrow> ctx \<Rightarrow> ((string \<times> gcRunRecord) list, 'w) body" where
  "run_body rt sp ctx info runs w =
     (if \<not> HasSuffix (oi_Key info) ''.json'' then (None, runs, w)
      else
        (let named = (\<lambda>r. if gr_RunID r = [] then r\<lparr>gr_RunID := oi_Key info\<rparr> else r);
             unread = \<lparr>gr_Schema = [], gr_RunID = oi_Key info, gr_State = ''running'', gr_Seq = 0, gr_StartedAt = zero_time,
                       gr_HeartbeatAt = zero_time, gr_ExpiresAt = oi_ModTime info + GCRunTTL\<rparr>
         in case getJSON run_of_json sp ctx (oi_Key info) w of
           (Inr r, w1) \<Rightarrow> (None, AList.update (oi_Key info) (named r) runs, w1)
         | (Inl gerr, w1) \<Rightarrow>
             if is_err gerr ErrNotFound then (None, runs, w1)
             else (case rt_CtxErr rt ctx w1 of
                 (Some err, w2) \<Rightarrow> (Some err, runs, w2)
               | (None, w2) \<Rightarrow>
                   if oi_ModTime info = zero_time then
                     (case rt_Now rt w2 of (t, w3) \<Rightarrow>
                        (None, AList.update (oi_Key info) (named (unread\<lparr>gr_ExpiresAt := t + GCRunTTL\<rparr>)) runs, w3))
                   else (None, AList.update (oi_Key info) (named unread) runs, w2))))"

definition listGCRuns :: "'w runtime \<Rightarrow> 'w StoragePlugin \<Rightarrow> ctx \<Rightarrow> 'w \<Rightarrow> (error + (string \<times> gcRunRecord) list) \<times> 'w" where
  "listGCRuns rt sp ctx w =
     (case range_list sp ctx gcRunsPrefix (run_body rt sp ctx) [] w of
        (Some err, _, w1) \<Rightarrow> (Inl err, w1)
      | (None, runs, w1) \<Rightarrow> (Inr runs, w1))"

subsection \<open>The commit fence\<close>

definition ErrAdoptedChunkSwept :: error where
  "ErrAdoptedChunkSwept = ErrorNew ''repo: adopted chunk deleted by a concurrent gc''"

text \<open>What \<^verbatim>\<open>Len\<close> and \<^verbatim>\<open>ForEachHash\<close> of a \<^verbatim>\<open>HashSource\<close> report.\<close>

record HashSource =
  src_Len :: int
  src_hashes :: "Hash list"
  src_err :: "error option"

definition sliceSource :: "Hash list \<Rightarrow> HashSource" where
  "sliceSource hs = \<lparr>src_Len = int (length hs), src_hashes = hs, src_err = None\<rparr>"

definition AdoptedSource :: "'w CAS \<Rightarrow> HashSource" where
  "AdoptedSource c =
     (case AdoptedLen c of (n, c1) \<Rightarrow>
        (case ForEachAdopted c1 of ((hs, err), _) \<Rightarrow> \<lparr>src_Len = n, src_hashes = hs, src_err = err\<rparr>))"

record CommitFence =
  cf_owner :: string
  cf_start :: instant
  cf_seenRuns :: "string list"
  cf_pinned :: bool
  cf_pinnedAt :: instant

definition pinPartHashes :: int where "pinPartHashes = 1048576"

text \<open>The \<^verbatim>\<open>flush\<close> closure: one pin object, unless the part is empty.\<close>

definition pin_flush :: "'w StoragePlugin \<Rightarrow> ctx \<Rightarrow> string \<Rightarrow> string \<Rightarrow> instant \<Rightarrow> Hash list \<Rightarrow> nat \<Rightarrow> 'w \<Rightarrow>
    error option \<times> nat \<times> 'w" where
  "pin_flush sp ctx fid owner created part parts w =
     (if part = [] then (None, parts, w)
      else
        (let key = gcPinsPrefix @ fid @ (if parts > 0 then ''-p'' @ fmt_d 6 (int parts) else []) @ ''.json'' in
         case putJSON sp ctx key
                (pin_json \<lparr>pin_Schema = gcPinSchema, pin_Owner = owner, pin_CreatedAt = created, pin_Hashes = part\<rparr>) w of
           (Some err, w1) \<Rightarrow> (Some (Errorf ''repo: gc fence: write pin'' [err]), parts, w1)
         | (None, w1) \<Rightarrow> (None, parts + 1, w1)))"

fun pin_loop :: "'w StoragePlugin \<Rightarrow> ctx \<Rightarrow> string \<Rightarrow> string \<Rightarrow> instant \<Rightarrow> error option \<Rightarrow> Hash list \<Rightarrow> Hash list \<Rightarrow> nat \<Rightarrow> 'w \<Rightarrow>
    error option \<times> 'w" where
  "pin_loop sp ctx fid owner created ferr [] part parts w =
     (case ferr of
        Some err \<Rightarrow> (Some err, w)
      | None \<Rightarrow> (case pin_flush sp ctx fid owner created part parts w of (e, _, w1) \<Rightarrow> (e, w1)))"
| "pin_loop sp ctx fid owner created ferr (h # hs) part parts w =
     (let part1 = part @ [h] in
      if int (length part1) \<ge> pinPartHashes then
        (case pin_flush sp ctx fid owner created part1 parts w of
           (Some err, _, w1) \<Rightarrow> (Some err, w1)
         | (None, parts1, w1) \<Rightarrow> pin_loop sp ctx fid owner created ferr hs [] parts1 w1)
      else pin_loop sp ctx fid owner created ferr hs part1 parts w)"

text \<open>One round of polls: the runs still to be waited for.\<close>

fun poll_runs :: "'w StoragePlugin \<Rightarrow> ctx \<Rightarrow> instant \<Rightarrow> (string \<times> int) list \<Rightarrow> 'w \<Rightarrow> (string \<times> int) list \<times> 'w" where
  "poll_runs sp ctx now [] w = ([], w)"
| "poll_runs sp ctx now ((k, seq) # ws) w =
     (case getJSON run_of_json sp ctx k w of (r, w1) \<Rightarrow>
        (case poll_runs sp ctx now ws w1 of (rest, w2) \<Rightarrow>
           ((case r of
               Inl gerr \<Rightarrow> if is_err gerr ErrNotFound then rest else (k, seq) # rest
             | Inr rec \<Rightarrow> if \<not> liveAt rec now \<or> gr_Seq rec > seq then rest else (k, seq) # rest), w2)))"

definition fence_timeout :: error where
  "fence_timeout = Errorf ''repo: gc fence: a running gc did not finish its delete batch'' []"

fun wait_loop :: "nat \<Rightarrow> 'w runtime \<Rightarrow> 'w StoragePlugin \<Rightarrow> ctx \<Rightarrow> instant \<Rightarrow> (string \<times> int) list \<Rightarrow> 'w unit_op" where
  "wait_loop 0 rt sp ctx deadline waitFor w = (if waitFor = [] then None else Some fence_timeout, w)"
| "wait_loop (Suc n) rt sp ctx deadline waitFor w =
     (if waitFor = [] then (None, w)
      else case rt_Now rt w of (t, w1) \<Rightarrow>
        if t > deadline then (Some fence_timeout, w1)
        else (case rt_Sleep rt ctx gcFencePoll w1 of
            (Some err, w2) \<Rightarrow> (Some err, w2)
          | (None, w2) \<Rightarrow>
              (case rt_Now rt w2 of (now, w3) \<Rightarrow>
                 (case poll_runs sp ctx now waitFor w3 of (rest, w4) \<Rightarrow> wait_loop n rt sp ctx deadline rest w4))))"

definition gcFencePolls :: nat where "gcFencePolls = 1202"

definition pinAndWait :: "'w runtime \<Rightarrow> 'w StoragePlugin \<Rightarrow> ctx \<Rightarrow> HashSource \<Rightarrow> CommitFence \<Rightarrow> 'w \<Rightarrow>
    error option \<times> CommitFence \<times> 'w" where
  "pinAndWait rt sp ctx src f w =
     (case (if cf_pinned f then (None, f, w)
            else case newFenceID rt w of (fid, w1) \<Rightarrow>
              (case rt_Now rt w1 of (created, w2) \<Rightarrow>
                 (case pin_loop sp ctx fid (cf_owner f) created (src_err src) (src_hashes src) [] 0 w2 of
                    (Some err, w3) \<Rightarrow> (Some err, f, w3)
                  | (None, w3) \<Rightarrow>
                      (case rt_Now rt w3 of (t, w4) \<Rightarrow> (None, f\<lparr>cf_pinned := True, cf_pinnedAt := t\<rparr>, w4))))) of
        (Some err, f1, w1) \<Rightarrow> (Some err, f1, w1)
      | (None, f1, w1) \<Rightarrow>
          (case listGCRuns rt sp ctx w1 of
             (Inl err, w2) \<Rightarrow> (Some (Errorf ''repo: gc fence: read gc run records'' [err]), f1, w2)
           | (Inr runs, w2) \<Rightarrow>
               (case rt_Now rt w2 of (now, w3) \<Rightarrow>
                (let f2 = f1\<lparr>cf_seenRuns := remdups (map fst runs @ cf_seenRuns f1)\<rparr>;
                     waitFor = map (\<lambda>(k, r). (k, gr_Seq r)) (filter (\<lambda>(k, r). liveAt r now) runs)
                 in case rt_Now rt w3 of (t, w4) \<Rightarrow>
                      (case wait_loop gcFencePolls rt sp ctx (t + GCFenceMaxWait) waitFor w4 of
                         (e, w5) \<Rightarrow> (e, f2, w5))))))"

definition BeginCommitFenceSource :: "'w runtime \<Rightarrow> 'w StoragePlugin \<Rightarrow> ctx \<Rightarrow> HashSource \<Rightarrow> string \<Rightarrow> 'w \<Rightarrow>
    (error + CommitFence) \<times> 'w" where
  "BeginCommitFenceSource rt sp ctx src owner w =
     (case rt_Now rt w of (start, w0) \<Rightarrow>
      (let f = \<lparr>cf_owner = owner, cf_start = start, cf_seenRuns = [], cf_pinned = False, cf_pinnedAt = zero_time\<rparr> in
       if src_Len src = 0 then (Inr f, w0)
       else case listGCRuns rt sp ctx w0 of
         (Inl err, w1) \<Rightarrow> (Inl (Errorf ''repo: gc fence: read gc run records'' [err]), w1)
       | (Inr runs, w1) \<Rightarrow>
           (case rt_Now rt w1 of (now, w2) \<Rightarrow>
            (let f1 = f\<lparr>cf_seenRuns := map fst runs\<rparr> in
             if list_ex (\<lambda>(k, r). liveAt r now) runs then
               (case pinAndWait rt sp ctx src f1 w2 of
                  (Some err, _, w3) \<Rightarrow> (Inl err, w3)
                | (None, f2, w3) \<Rightarrow> (Inr f2, w3))
             else (Inr f1, w2)))))"

definition BeginCommitFence :: "'w runtime \<Rightarrow> 'w StoragePlugin \<Rightarrow> ctx \<Rightarrow> Hash list \<Rightarrow> string \<Rightarrow> 'w \<Rightarrow>
    (error + CommitFence) \<times> 'w" where
  "BeginCommitFence rt sp ctx adopted owner w = BeginCommitFenceSource rt sp ctx (sliceSource adopted) owner w"

text \<open>The re-check after a late pin: the adopted hashes whose object is gone.\<close>

fun confirm_loop :: "'w runtime \<Rightarrow> 'w StoragePlugin \<Rightarrow> ctx \<Rightarrow> error option \<Rightarrow> Hash list \<Rightarrow> nat \<Rightarrow> 'w \<Rightarrow> (error option \<times> nat) \<times> 'w" where
  "confirm_loop rt sp ctx ferr [] n w = ((ferr, n), w)"
| "confirm_loop rt sp ctx ferr (h # hs) n w =
     (case rt_CtxErr rt ctx w of
        (Some err, w1) \<Rightarrow> ((Some err, n), w1)
      | (None, w1) \<Rightarrow>
          (case sp_Stat sp ctx (ChunkKey h) w1 of
             (Inl serr, w2) \<Rightarrow> confirm_loop rt sp ctx ferr hs (if is_err serr ErrNotFound then n + 1 else n) w2
           | (Inr _, w2) \<Rightarrow> confirm_loop rt sp ctx ferr hs n w2))"

definition Confirm :: "'w runtime \<Rightarrow> 'w StoragePlugin \<Rightarrow> ctx \<Rightarrow> HashSource \<Rightarrow> CommitFence \<Rightarrow> 'w \<Rightarrow>
    error option \<times> CommitFence \<times> 'w" where
  "Confirm rt sp ctx src f w =
     (if src_Len src = 0 then (None, f, w)
      else case rt_Now rt w of (t0, w0) \<Rightarrow>
      (let elapsed = t0 - cf_start f in
       case (if cf_pinned f then (case rt_Now rt w0 of (t, w1) \<Rightarrow> (t - cf_pinnedAt f < GCPinTTL div 2, w1)) else (False, w0)) of
         (True, w1) \<Rightarrow> (None, f, w1)
       | (False, w1) \<Rightarrow>
           if \<not> cf_pinned f \<and> elapsed \<le> GCFenceWriterBudget then (None, f, w1)
           else (case listGCRuns rt sp ctx w1 of
               (Inl err, w2) \<Rightarrow> (Some (Errorf ''repo: gc fence: confirm: read gc run records'' [err]), f, w2)
             | (Inr runs, w2) \<Rightarrow>
                 (case rt_Now rt w2 of (now, w3) \<Rightarrow>
                  (let started = list_ex (\<lambda>(k, r). k \<notin> set (cf_seenRuns f) \<or> liveAt r now) runs in
                   if \<not> started \<and> elapsed < gcRunRecordRetention div 2 then (None, f, w3)
                   else (case pinAndWait rt sp ctx src f w3 of
                       (Some err, f1, w4) \<Rightarrow> (Some err, f1, w4)
                     | (None, f1, w4) \<Rightarrow>
                         (case confirm_loop rt sp ctx (src_err src) (src_hashes src) 0 w4 of
                            ((Some err, _), w5) \<Rightarrow> (Some err, f1, w5)
                          | ((None, n), w5) \<Rightarrow>
                              (if n > 0 then Some (Errorf ''the manifest was committed but is not restorable'' [ErrAdoptedChunkSwept])
                               else None, f1, w5))))))))"

definition FencedCommit :: "'w runtime \<Rightarrow> 'w StoragePlugin \<Rightarrow> ctx \<Rightarrow> 'w CAS option \<Rightarrow> Hash list \<Rightarrow> string \<Rightarrow> 'w unit_op \<Rightarrow> 'w \<Rightarrow>
    (nat \<times> error option) \<times> 'w CAS option \<times> 'w" where
  "FencedCommit rt sp ctx cas adopted owner commit w =
     (case BeginCommitFence rt sp ctx adopted owner w of
        (Inl err, w1) \<Rightarrow> ((0, Some err), cas, w1)
      | (Inr fence, w1) \<Rightarrow>
          (case (case cas of
                   None \<Rightarrow> (([], 0, None), None, w1)
                 | Some c \<Rightarrow> (case VerifyAdopted rt ctx adopted c w1 of (r, c1, w2) \<Rightarrow> (r, Some c1, w2))) of
             ((_, unchecked, Some err), cas1, w2) \<Rightarrow> ((unchecked, Some err), cas1, w2)
           | ((missing, unchecked, None), cas1, w2) \<Rightarrow>
               if missing \<noteq> [] then
                 ((unchecked, Some (Errorf ''before the manifest could commit'' [ErrAdoptedChunkSwept])), cas1, w2)
               else (case commit w2 of
                   (Some err, w3) \<Rightarrow> ((unchecked, Some err), cas1, w3)
                 | (None, w3) \<Rightarrow>
                     (case Confirm rt sp ctx (sliceSource adopted) fence w3 of (e, _, w4) \<Rightarrow> ((unchecked, e), cas1, w4)))))"

subsection \<open>The pins a sweep honours\<close>

record gcPinSet =
  ps_read :: "string list"
  ps_hashes :: HashSet

definition newGCPinSet :: "SpillOptions \<Rightarrow> gcPinSet" where
  "newGCPinSet o' = \<lparr>ps_read = [], ps_hashes = new_set 2 o'\<rparr>"

definition pin_body :: "'w StoragePlugin \<Rightarrow> ctx \<Rightarrow> instant \<Rightarrow> (gcPinSet, 'w) body" where
  "pin_body sp ctx now info p w =
     (if oi_Key info \<in> set (ps_read p) \<or> \<not> HasSuffix (oi_Key info) ''.json'' then (None, p, w)
      else case getJSON pin_of_json sp ctx (oi_Key info) w of
        (Inl gerr, w1) \<Rightarrow>
          if is_err gerr ErrNotFound then (None, p, w1) else (Some (Errorf ''read pin'' [gerr]), p, w1)
      | (Inr pin, w1) \<Rightarrow>
          (let p1 = p\<lparr>ps_read := oi_Key info # ps_read p\<rparr> in
           (None, if now - pin_CreatedAt pin < GCPinTTL
                  then p1\<lparr>ps_hashes := fold (\<lambda>h s. snd (Add h s)) (pin_Hashes pin) (ps_hashes p1)\<rparr> else p1, w1)))"

definition pins_refresh :: "'w StoragePlugin \<Rightarrow> ctx \<Rightarrow> instant \<Rightarrow> gcPinSet \<Rightarrow> 'w \<Rightarrow> error option \<times> gcPinSet \<times> 'w" where
  "pins_refresh sp ctx now p w = range_list sp ctx gcPinsPrefix (pin_body sp ctx now) p w"

end
