(* ===== verification/GcSweep.thy ===== *)
theory GcSweep
  imports GcFence
begin

text \<open>
  The sweep of \<^verbatim>\<open>internal/repo/gcsweep.go\<close>: publish a run record, collect references, list the orphans, wait for the fence to
  settle, and delete the orphans in batches, each checkpoint re-reading pins, leases and manifests. The deletes of a batch run
  in the order they are started. The host name and the file operations of the orphan log (one fault of the script each) are
  part of the environment. Left out: the heartbeat goroutine, which rewrites the run record while the sweep works, the
  removal of old files in the local temporary directory (\<^verbatim>\<open>reapStaleSpill\<close>), warnings, and the two hooks of the tests.
\<close>

subsection \<open>Options and results\<close>

record 'w SweepOptions =
  sw_TombstoneGrace :: duration
  sw_MinChunkAge :: duration
  sw_Apply :: bool
  sw_LiveLeases :: "('w \<Rightarrow> (error + string list) \<times> 'w) option"
  sw_BatchSize :: int
  sw_BatchDuration :: duration
  sw_Now :: "('w \<Rightarrow> instant \<times> 'w) option"
  sw_RefSpill :: SpillOptions
  sw_hostname :: string
  sw_log_faults :: "errno option list"

definition ErrSweepBackupInFlight :: error where
  "ErrSweepBackupInFlight = ErrorNew ''repo: gc: a backup is in flight''"

definition SweepOrphanSampleLimit :: nat where "SweepOrphanSampleLimit = 1024"
definition maxSweepFailures :: nat where "maxSweepFailures = 1024"
definition sweepOrphanMemRecords :: int where "sweepOrphanMemRecords = 1048576"

record SweepResult =
  sr_RefCount :: nat
  sr_OrphanCount :: nat
  sr_Orphans :: "Hash list"
  sr_OrphanBytes :: nat
  sr_StaleTemps :: "string list"
  sr_Deleted :: nat
  sr_DeletedBytes :: nat
  sr_StaleTempDeleted :: nat
  sr_StagingReaped :: nat
  sr_StagingReapedBytes :: nat
  sr_Failures :: "string list"
  sr_FailureCount :: nat
  sr_SkippedReferenced :: nat
  sr_StoppedEarly :: string
  sr_RunID :: string

definition zero_SweepResult :: SweepResult where
  "zero_SweepResult =
     \<lparr>sr_RefCount = 0, sr_OrphanCount = 0, sr_Orphans = [], sr_OrphanBytes = 0, sr_StaleTemps = [], sr_Deleted = 0,
      sr_DeletedBytes = 0, sr_StaleTempDeleted = 0, sr_StagingReaped = 0, sr_StagingReapedBytes = 0, sr_Failures = [],
      sr_FailureCount = 0, sr_SkippedReferenced = 0, sr_StoppedEarly = [], sr_RunID = []\<rparr>"

text \<open>A failure keeps the name of its object; the text of the error is left out.\<close>

definition noteFailure :: "string \<Rightarrow> SweepResult \<Rightarrow> SweepResult" where
  "noteFailure msg r =
     (let r1 = r\<lparr>sr_FailureCount := sr_FailureCount r + 1\<rparr> in
      if length (sr_Failures r1) < maxSweepFailures then r1\<lparr>sr_Failures := sr_Failures r1 @ [msg]\<rparr> else r1)"

subsection \<open>The orphan log\<close>

record orphanInfo =
  oh_hash :: Hash
  oh_size :: nat

record orphanLog =
  ol_mem :: "orphanInfo list"
  ol_file :: "bytes option"
  ol_nFile :: nat
  ol_err :: "error option"
  ol_faults :: "errno option list"

definition orphanRecLen :: nat where "orphanRecLen = 40"

definition log_fault :: "orphanLog \<Rightarrow> error option \<times> orphanLog" where
  "log_fault l = (case ol_faults l of [] \<Rightarrow> (None, l) | f # fs \<Rightarrow> (map_option SysErr f, l\<lparr>ol_faults := fs\<rparr>))"

definition orphan_rec :: "orphanInfo \<Rightarrow> bytes" where
  "orphan_rec o' = hash_bytes (oh_hash o') @ le_bytes 8 (int (oh_size o'))"

definition le_value :: "bytes \<Rightarrow> nat" where
  "le_value bs = foldr (\<lambda>b n. unat b + 256 * n) bs 0"

definition orphan_of_rec :: "bytes \<Rightarrow> orphanInfo" where
  "orphan_of_rec rec = \<lparr>oh_hash = hash_of_bytes (take 32 rec), oh_size = le_value (drop 32 rec)\<rparr>"

definition log_failed :: "error \<Rightarrow> orphanLog \<Rightarrow> error option \<times> orphanLog" where
  "log_failed err l =
     (let e = Errorf ''repo: gc: spill orphan list'' [err] in (Some e, l\<lparr>ol_err := Some e\<rparr>))"

fun log_write :: "orphanInfo list \<Rightarrow> orphanLog \<Rightarrow> error option \<times> orphanLog" where
  "log_write [] l = (None, l)"
| "log_write (m # ms) l =
     (case log_fault l of
        (Some err, l1) \<Rightarrow> log_failed err l1
      | (None, l1) \<Rightarrow> log_write ms (l1\<lparr>ol_file := Some (the (ol_file l1) @ orphan_rec m)\<rparr>))"

definition log_add :: "orphanInfo \<Rightarrow> orphanLog \<Rightarrow> error option \<times> orphanLog" where
  "log_add o' l =
     (case ol_err l of
        Some err \<Rightarrow> (Some err, l)
      | None \<Rightarrow>
          (let l1 = l\<lparr>ol_mem := ol_mem l @ [o']\<rparr> in
           if int (length (ol_mem l1)) < sweepOrphanMemRecords then (None, l1)
           else case (if ol_file l1 = None then
                        (case log_fault l1 of
                           (Some err, l2) \<Rightarrow> log_failed err l2
                         | (None, l2) \<Rightarrow> (None, l2\<lparr>ol_file := Some []\<rparr>))
                      else (None, l1)) of
             (Some err, l2) \<Rightarrow> (Some err, l2)
           | (None, l2) \<Rightarrow>
               (case log_write (ol_mem l2) l2 of
                  (Some err, l3) \<Rightarrow> (Some err, l3)
                | (None, l3) \<Rightarrow> (None, l3\<lparr>ol_nFile := ol_nFile l3 + length (ol_mem l3), ol_mem := []\<rparr>))))"

type_synonym ('s, 'w) batch_fn = "orphanInfo list \<Rightarrow> 's \<Rightarrow> 'w \<Rightarrow> error option \<times> 's \<times> 'w"

text \<open>The records of the spill file, in batches of \<open>n\<close>; the last one may be short.\<close>

fun file_batches :: "nat \<Rightarrow> ('s, 'w) batch_fn \<Rightarrow> nat \<Rightarrow> bytes \<Rightarrow> orphanInfo list \<Rightarrow> orphanLog \<Rightarrow> 's \<Rightarrow> 'w \<Rightarrow>
    error option \<times> orphanLog \<times> 's \<times> 'w" where
  "file_batches n fn 0 r buf l s w =
     (if buf = [] then (None, l, s, w) else case fn buf s w of (e, s1, w1) \<Rightarrow> (e, l, s1, w1))"
| "file_batches n fn (Suc k) r buf l s w =
     (case log_fault l of
        (Some err, l1) \<Rightarrow> (Some (Errorf ''repo: gc: read orphan list'' [err]), l1, s, w)
      | (None, l1) \<Rightarrow>
          (let buf1 = buf @ [orphan_of_rec (take orphanRecLen r)]; r1 = drop orphanRecLen r in
           if length buf1 = n then
             (case fn buf1 s w of
                (Some err, s1, w1) \<Rightarrow> (Some err, l1, s1, w1)
              | (None, s1, w1) \<Rightarrow> file_batches n fn k r1 [] l1 s1 w1)
           else file_batches n fn k r1 buf1 l1 s w))"

function mem_batches :: "nat \<Rightarrow> ('s, 'w) batch_fn \<Rightarrow> orphanInfo list \<Rightarrow> 's \<Rightarrow> 'w \<Rightarrow> error option \<times> 's \<times> 'w" where
  "mem_batches n fn xs s w =
     (if xs = [] \<or> n = 0 then (None, s, w)
      else case fn (take n xs) s w of
        (Some err, s1, w1) \<Rightarrow> (Some err, s1, w1)
      | (None, s1, w1) \<Rightarrow> mem_batches n fn (drop n xs) s1 w1)"
  by pat_completeness auto
termination
  by (relation "measure (\<lambda>(n, fn, xs, s, w). length xs)") auto

declare mem_batches.simps [simp del]

definition log_batches :: "nat \<Rightarrow> ('s, 'w) batch_fn \<Rightarrow> orphanLog \<Rightarrow> 's \<Rightarrow> 'w \<Rightarrow> error option \<times> 's \<times> 'w" where
  "log_batches n fn l s w =
     (case ol_err l of
        Some err \<Rightarrow> (Some err, s, w)
      | None \<Rightarrow>
          (case ol_file l of
             None \<Rightarrow> mem_batches n fn (SliceStable (\<lambda>a b. oh_hash a < oh_hash b) (ol_mem l)) s w
           | Some f \<Rightarrow>
               (case log_fault l of
                  (Some err, _) \<Rightarrow> (Some (Errorf ''repo: gc: spill orphan list'' [err]), s, w)
                | (None, l1) \<Rightarrow>
                    (case file_batches n fn (ol_nFile l1) f [] l1 s w of
                       (Some err, _, s1, w1) \<Rightarrow> (Some err, s1, w1)
                     | (None, _, s1, w1) \<Rightarrow> mem_batches n fn (ol_mem l) s1 w1))))"

subsection \<open>The run record\<close>

record gcRun =
  run_key :: string
  run_rec :: gcRunRecord
  run_publishedAt :: instant
  run_lastBeat :: instant

definition run_write :: "'w runtime \<Rightarrow> 'w StoragePlugin \<Rightarrow> ctx \<Rightarrow> gcRun \<Rightarrow> 'w \<Rightarrow> error option \<times> gcRun \<times> 'w" where
  "run_write rt sp ctx r w =
     (case rt_Now rt w of (now, w1) \<Rightarrow>
      (let r1 = r\<lparr>run_rec := (run_rec r)\<lparr>gr_HeartbeatAt := now, gr_ExpiresAt := now + GCRunTTL\<rparr>\<rparr> in
       case putJSON sp ctx (run_key r1) (run_json (run_rec r1)) w1 of
         (Some err, w2) \<Rightarrow> (Some err, r1, w2)
       | (None, w2) \<Rightarrow> (case rt_Now rt w2 of (t, w3) \<Rightarrow> (None, r1\<lparr>run_lastBeat := t\<rparr>, w3))))"

definition sanitizeRunHost :: "string \<Rightarrow> string" where
  "sanitizeRunHost h =
     filter (\<lambda>c. list_ex (\<lambda>(lo, hi). lo \<le> c \<and> c \<le> hi)
       [(CHR ''a'', CHR ''z''), (CHR ''A'', CHR ''Z''), (CHR ''0'', CHR ''9''), (CHR ''-'', CHR ''-'')]) h"

definition startGCRun :: "'w runtime \<Rightarrow> 'w StoragePlugin \<Rightarrow> ctx \<Rightarrow> string \<Rightarrow> instant \<Rightarrow> 'w \<Rightarrow> (error + gcRun) \<times> 'w" where
  "startGCRun rt sp ctx host start w =
     (case newFenceID rt w of (fid, w1) \<Rightarrow>
      (let rid = fid @ (if host \<noteq> [] then ''-'' @ sanitizeRunHost host else []);
           r = \<lparr>run_key = gcRunsPrefix @ rid @ ''.json'',
                run_rec = \<lparr>gr_Schema = gcRunSchema, gr_RunID = rid, gr_State = ''running'', gr_Seq = 0, gr_StartedAt = start,
                           gr_HeartbeatAt = zero_time, gr_ExpiresAt = zero_time\<rparr>,
                run_publishedAt = zero_time, run_lastBeat = zero_time\<rparr>
       in case run_write rt sp ctx r w1 of
            (Some err, _, w2) \<Rightarrow> (Inl err, w2)
          | (None, r1, w2) \<Rightarrow> (case rt_Now rt w2 of (t, w3) \<Rightarrow> (Inr (r1\<lparr>run_publishedAt := t\<rparr>), w3))))"

definition run_advance :: "'w runtime \<Rightarrow> 'w StoragePlugin \<Rightarrow> ctx \<Rightarrow> gcRun \<Rightarrow> 'w \<Rightarrow> error option \<times> gcRun \<times> 'w" where
  "run_advance rt sp ctx r w = run_write rt sp ctx (r\<lparr>run_rec := (run_rec r)\<lparr>gr_Seq := gr_Seq (run_rec r) + 1\<rparr>\<rparr>) w"

definition checkFresh :: "'w runtime \<Rightarrow> gcRun \<Rightarrow> 'w unit_op" where
  "checkFresh rt r w =
     (case rt_Now rt w of (t, w1) \<Rightarrow>
        (if t - run_lastBeat r > GCRunTTL div 2 then Some (Errorf ''repo: gc: run record not refreshed'' []) else None, w1))"

definition expire_pin :: "'w StoragePlugin \<Rightarrow> ctx \<Rightarrow> instant \<Rightarrow> (unit, 'w) body" where
  "expire_pin sp ctx now info u w =
     (case getJSON pin_of_json sp ctx (oi_Key info) w of
        (Inl _, w1) \<Rightarrow> (None, u, w1)
      | (Inr pin, w1) \<Rightarrow>
          if now - pin_CreatedAt pin > GCPinTTL then (case sp_Delete sp ctx (oi_Key info) w1 of (_, w2) \<Rightarrow> (None, u, w2))
          else (None, u, w1))"

definition expire_run :: "'w StoragePlugin \<Rightarrow> ctx \<Rightarrow> string \<Rightarrow> instant \<Rightarrow> (unit, 'w) body" where
  "expire_run sp ctx own now info u w =
     (if oi_Key info = own then (None, u, w)
      else case getJSON run_of_json sp ctx (oi_Key info) w of
        (Inl _, w1) \<Rightarrow> (None, u, w1)
      | (Inr rec, w1) \<Rightarrow>
          if \<not> liveAt rec now \<and> now - gr_HeartbeatAt rec > gcRunRecordRetention
          then (case sp_Delete sp ctx (oi_Key info) w1 of (_, w2) \<Rightarrow> (None, u, w2))
          else (None, u, w1))"

definition run_finish :: "'w runtime \<Rightarrow> 'w StoragePlugin \<Rightarrow> gcRun \<Rightarrow> 'w \<Rightarrow> 'w" where
  "run_finish rt sp r w =
     (case run_write rt sp CleanupCtx (r\<lparr>run_rec := (run_rec r)\<lparr>gr_State := ''finished''\<rparr>\<rparr>) w of (_, _, w1) \<Rightarrow>
      (case rt_Now rt w1 of (now, w2) \<Rightarrow>
       (case range_list sp CleanupCtx gcPinsPrefix (expire_pin sp CleanupCtx now) () w2 of (_, _, w3) \<Rightarrow>
        (case range_list sp CleanupCtx gcRunsPrefix (expire_run sp CleanupCtx (run_key r) now) () w3 of (_, _, w4) \<Rightarrow> w4))))"

subsection \<open>Listing the orphans\<close>

record orphanListing =
  li_res :: SweepResult
  li_sample :: hashSample
  li_log :: orphanLog
  li_refs :: HashSet

definition sweep_orphan_body :: "bool \<Rightarrow> duration \<Rightarrow> instant \<Rightarrow> instant \<Rightarrow> (orphanListing, 'w) body" where
  "sweep_orphan_body apply' minAge cutoff start info s w =
     (case ParseChunkKey (oi_Key info) of
        Inl _ \<Rightarrow> (None, s, w)
      | Inr h \<Rightarrow>
          (case hs_Has h (li_refs s) of (b, refs) \<Rightarrow>
           (let s1 = s\<lparr>li_refs := refs\<rparr> in
            if b then (None, s1, w)
            else if too_young minAge cutoff info then (None, s1, w)
            else if oi_ModTime info \<noteq> zero_time \<and> oi_ModTime info > start then (None, s1, w)
            else
              (let s2 = s1\<lparr>li_res := (li_res s1)\<lparr>sr_OrphanCount := sr_OrphanCount (li_res s1) + 1,
                                                   sr_OrphanBytes := sr_OrphanBytes (li_res s1) + oi_Size info\<rparr>,
                           li_sample := sample_offer h (li_sample s1)\<rparr>
               in if \<not> apply' then (None, s2, w)
                  else (case log_add \<lparr>oh_hash = h, oh_size = oi_Size info\<rparr> (li_log s2) of
                      (e, l) \<Rightarrow> (e, s2\<lparr>li_log := l\<rparr>, w))))))"

subsection \<open>Deleting\<close>

text \<open>\<^verbatim>\<open>strings.Join(xs, ", ")\<close>.\<close>

fun join_comma :: "string list \<Rightarrow> string" where
  "join_comma [] = []"
| "join_comma [x] = x"
| "join_comma (x # y # ys) = x @ '', '' @ join_comma (y # ys)"

record sweepState =
  st_res :: SweepResult
  st_snap :: manifestSnapshot
  st_pins :: gcPinSet
  st_run :: gcRun
  st_remaining :: int
  st_deadline :: instant

definition sweep_clock :: "'w runtime \<Rightarrow> 'w SweepOptions \<Rightarrow> 'w \<Rightarrow> instant \<times> 'w" where
  "sweep_clock rt opts w = (case sw_Now opts of Some f \<Rightarrow> f w | None \<Rightarrow> rt_Now rt w)"

definition checkpoint_tail :: "(bytes \<Rightarrow> Hash) \<Rightarrow> 'w runtime \<Rightarrow> 'w StoragePlugin \<Rightarrow> ctx \<Rightarrow> duration \<Rightarrow> instant \<Rightarrow> sweepState \<Rightarrow> 'w \<Rightarrow>
    error option \<times> sweepState \<times> 'w" where
  "checkpoint_tail sha rt sp ctx slc began s w =
     (case scan sha rt sp ctx False (st_snap s) w of
        (Some err, snap, w1) \<Rightarrow>
          (Some (Errorf ''repo: gc: rescan references before delete'' [err]), s\<lparr>st_snap := snap\<rparr>, w1)
      | (None, snap, w1) \<Rightarrow>
          (let s1 = s\<lparr>st_snap := snap\<rparr>; maxCheckpoint = GCFenceMaxWait * 3 div 5 in
           case hs_err (ms_refs snap) of
             Some err \<Rightarrow> (Some (Errorf ''repo: gc: reference set unreliable'' [err]), s1, w1)
           | None \<Rightarrow>
               (case rt_Now rt w1 of (t, w2) \<Rightarrow>
                (let left = maxCheckpoint - (t - began);
                     window = (if left < max slc 0 then max left 0 else max slc 0)
                 in case rt_Now rt w2 of (t2, w3) \<Rightarrow> (None, s1\<lparr>st_deadline := t2 + window\<rparr>, w3)))))"

definition checkpoint :: "(bytes \<Rightarrow> Hash) \<Rightarrow> 'w runtime \<Rightarrow> 'w StoragePlugin \<Rightarrow> ctx \<Rightarrow> 'w SweepOptions \<Rightarrow> duration \<Rightarrow> sweepState \<Rightarrow> 'w \<Rightarrow>
    error option \<times> sweepState \<times> 'w" where
  "checkpoint sha rt sp ctx opts slc s w =
     (case rt_Now rt w of (began, w0) \<Rightarrow>
      (case run_advance rt sp ctx (st_run s) w0 of
         (Some err, r, w1) \<Rightarrow> (Some (Errorf ''repo: gc: publish batch checkpoint'' [err]), s\<lparr>st_run := r\<rparr>, w1)
       | (None, r, w1) \<Rightarrow>
           (case sweep_clock rt opts w1 of (now, w2) \<Rightarrow>
            (case pins_refresh sp ctx now (st_pins s) w2 of
               (Some err, p, w3) \<Rightarrow> (Some (Errorf ''repo: gc: read writer pins'' [err]), s\<lparr>st_run := r, st_pins := p\<rparr>, w3)
             | (None, p, w3) \<Rightarrow>
                 (let s1 = s\<lparr>st_run := r, st_pins := p\<rparr> in
                  case hs_err (ps_hashes p) of
                    Some err \<Rightarrow> (Some (Errorf ''repo: gc: writer pin set unreliable'' [err]), s1, w3)
                  | None \<Rightarrow>
                      (case sw_LiveLeases opts of
                         None \<Rightarrow> checkpoint_tail sha rt sp ctx slc began s1 w3
                       | Some f \<Rightarrow>
                           (case f w3 of
                              (Inl err, w4) \<Rightarrow> (Some (Errorf ''repo: gc: re-scan backup leases'' [err]), s1, w4)
                            | (Inr live, w4) \<Rightarrow>
                                if live \<noteq> [] then
                                  (Some (Errorf ''started during the sweep'' [ErrSweepBackupInFlight]),
                                   s1\<lparr>st_res := (st_res s1)\<lparr>sr_StoppedEarly := ''backup started: '' @ join_comma live\<rparr>\<rparr>, w4)
                                else checkpoint_tail sha rt sp ctx slc began s1 w4)))))))"

text \<open>One delete of a batch: an orphan that is referenced or pinned by now is skipped.\<close>

definition sweep_delete :: "'w StoragePlugin \<Rightarrow> ctx \<Rightarrow> orphanInfo \<Rightarrow> sweepState \<Rightarrow> 'w \<Rightarrow> sweepState \<times> 'w" where
  "sweep_delete sp ctx o' s w =
     (case hs_Has (oh_hash o') (ms_refs (st_snap s)) of (b, refs) \<Rightarrow>
      (let s1 = s\<lparr>st_snap := (st_snap s)\<lparr>ms_refs := refs\<rparr>\<rparr>; skip = (\<lambda>s. s\<lparr>st_res := (st_res s)\<lparr>sr_SkippedReferenced := sr_SkippedReferenced (st_res s) + 1\<rparr>\<rparr>) in
       if b then (skip s1, w)
       else case hs_Has (oh_hash o') (ps_hashes (st_pins s1)) of (pb, ph) \<Rightarrow>
         (let s2 = s1\<lparr>st_pins := (st_pins s1)\<lparr>ps_hashes := ph\<rparr>\<rparr> in
          if pb then (skip s2, w)
          else case DeleteLazy sp ctx (ChunkKey (oh_hash o')) w of
            (Some err, w1) \<Rightarrow> (s2\<lparr>st_res := noteFailure (Hash_String (oh_hash o')) (st_res s2)\<rparr>, w1)
          | (None, w1) \<Rightarrow>
              (s2\<lparr>st_res := (st_res s2)\<lparr>sr_Deleted := sr_Deleted (st_res s2) + 1,
                                         sr_DeletedBytes := sr_DeletedBytes (st_res s2) + oh_size o'\<rparr>\<rparr>, w1))))"

fun sweep_deletes :: "'w StoragePlugin \<Rightarrow> ctx \<Rightarrow> orphanInfo list \<Rightarrow> sweepState \<Rightarrow> 'w \<Rightarrow> sweepState \<times> 'w" where
  "sweep_deletes sp ctx [] s w = (s, w)"
| "sweep_deletes sp ctx (o' # os) s w = (case sweep_delete sp ctx o' s w of (s1, w1) \<Rightarrow> sweep_deletes sp ctx os s1 w1)"

definition sweep_batch :: "(bytes \<Rightarrow> Hash) \<Rightarrow> 'w runtime \<Rightarrow> 'w StoragePlugin \<Rightarrow> ctx \<Rightarrow> 'w SweepOptions \<Rightarrow> duration \<Rightarrow>
    (sweepState, 'w) batch_fn" where
  "sweep_batch sha rt sp ctx opts slc batch s w =
     (case rt_Now rt w of (t, w0) \<Rightarrow>
      (case (if \<not> t < st_deadline s then checkpoint sha rt sp ctx opts slc s w0 else (None, s, w0)) of
         (Some err, s1, w1) \<Rightarrow> (Some err, s1, w1)
       | (None, s1, w1) \<Rightarrow>
           (case checkFresh rt (st_run s1) w1 of
              (Some err, w2) \<Rightarrow> (Some err, s1, w2)
            | (None, w2) \<Rightarrow>
                (case sweep_deletes sp ctx batch s1 w2 of (s2, w3) \<Rightarrow>
                 (case rt_CtxErr rt ctx w3 of (e, w4) \<Rightarrow>
                    (e, s2\<lparr>st_remaining := st_remaining s2 - int (length batch)\<rparr>, w4))))))"

fun delete_stale :: "'w StoragePlugin \<Rightarrow> ctx \<Rightarrow> string list \<Rightarrow> SweepResult \<Rightarrow> 'w \<Rightarrow> SweepResult \<times> 'w" where
  "delete_stale sp ctx [] res w = (res, w)"
| "delete_stale sp ctx (key # ks) res w =
     (case sp_Delete sp ctx key w of
        (Some err, w1) \<Rightarrow> delete_stale sp ctx ks (noteFailure key res) w1
      | (None, w1) \<Rightarrow> delete_stale sp ctx ks (res\<lparr>sr_StaleTempDeleted := sr_StaleTempDeleted res + 1\<rparr>) w1)"

fun prune_all :: "'w StoragePlugin \<Rightarrow> ctx \<Rightarrow> string list \<Rightarrow> 'w \<Rightarrow> 'w" where
  "prune_all sp ctx [] w = w"
| "prune_all sp ctx (p # ps) w = (case PruneEmptyDirsOf sp ctx p False w of (_, w1) \<Rightarrow> prune_all sp ctx ps w1)"

text \<open>After the last batch: stale temporaries, empty directories, old staging files.\<close>

definition sweep_end :: "'w StoragePlugin \<Rightarrow> ctx \<Rightarrow> string list \<Rightarrow> SweepResult \<Rightarrow> 'w \<Rightarrow> SweepResult \<times> 'w" where
  "sweep_end sp ctx stale res w =
     (case delete_stale sp ctx stale res w of (res1, w1) \<Rightarrow>
      (case prune_all sp ctx [''chunks'', ''manifests'', ''wal'', ''logical''] w1 of w2 \<Rightarrow>
       (case ReapStagingOf sp ctx DefaultStagingReapAge w2 of ((st, err), w3) \<Rightarrow>
        (let res2 = (if err = None then res1\<lparr>sr_StagingReaped := rs_Removed st, sr_StagingReapedBytes := rs_Bytes st\<rparr> else res1)
         in (res2\<lparr>sr_Failures := sort (sr_Failures res2)\<rparr>, w3)))))"

subsection \<open>The sweep\<close>

text \<open>The part after the listing of an applying run.\<close>

definition sweep_apply :: "(bytes \<Rightarrow> Hash) \<Rightarrow> 'w runtime \<Rightarrow> 'w StoragePlugin \<Rightarrow> ctx \<Rightarrow> 'w SweepOptions \<Rightarrow> gcRun \<Rightarrow> manifestSnapshot \<Rightarrow>
    orphanLog \<Rightarrow> SweepResult \<Rightarrow> 'w \<Rightarrow> (SweepResult option \<times> error option) \<times> gcRun \<times> 'w" where
  "sweep_apply sha rt sp ctx opts r snap log res w =
     (case rt_Now rt w of (t, w0) \<Rightarrow>
      (case (if GCFenceSettle - (t - run_publishedAt r) > 0 then rt_Sleep rt ctx (GCFenceSettle - (t - run_publishedAt r)) w0 else (None, w0)) of
         (Some err, w1) \<Rightarrow> ((None, Some err), r, w1)
       | (None, w1) \<Rightarrow>
           (let batchSize = (if sw_BatchSize opts \<le> 0 then 4096 else nat (sw_BatchSize opts));
                slc = (if sw_BatchDuration opts = 0 \<and> sw_BatchSize opts \<le> 0 then GCFenceMaxWait div 5 else sw_BatchDuration opts);
                s = \<lparr>st_res = res, st_snap = snap, st_pins = newGCPinSet (sw_RefSpill opts), st_run = r,
                     st_remaining = int (sr_OrphanCount res), st_deadline = zero_time\<rparr>
            in case log_batches batchSize (sweep_batch sha rt sp ctx opts slc) log s w1 of
                 (Some berr, s1, w2) \<Rightarrow> ((Some (st_res s1), Some berr), st_run s1, w2)
               | (None, s1, w2) \<Rightarrow>
                   (case sweep_end sp ctx (ms_stale (st_snap s1)) (st_res s1) w2 of
                      (res1, w3) \<Rightarrow> ((Some res1, None), st_run s1, w3)))))"

text \<open>References and orphans; the run is there when the sweep applies.\<close>

definition sweep_body :: "(bytes \<Rightarrow> Hash) \<Rightarrow> 'w runtime \<Rightarrow> 'w StoragePlugin \<Rightarrow> ctx \<Rightarrow> 'w SweepOptions \<Rightarrow> instant \<Rightarrow> gcRun option \<Rightarrow>
    SweepResult \<Rightarrow> 'w \<Rightarrow> (SweepResult option \<times> error option) \<times> gcRun option \<times> 'w" where
  "sweep_body sha rt sp ctx opts start run res w =
     (let minAge = effectiveMinAge \<lparr>fo_MinAge = sw_MinChunkAge opts, fo_Now = start\<rparr>; cutoff = start - minAge;
          snap = (newManifestSnapshot (sw_RefSpill opts)
                    \<lparr>cro_TombstoneGrace = sw_TombstoneGrace opts, cro_Now = start, cro_RefSpill = sw_RefSpill opts\<rparr>)
                 \<lparr>ms_minAge := minAge, ms_ageCutoff := cutoff\<rparr>
      in case scan sha rt sp ctx True snap w of
           (Some err, _, w1) \<Rightarrow> ((None, Some (Errorf ''repo: gc: collect references'' [err])), run, w1)
         | (None, snap1, w1) \<Rightarrow>
             (case hs_err (ms_refs snap1) of
                Some err \<Rightarrow> ((None, Some (Errorf ''repo: gc: reference set unreliable'' [err])), run, w1)
              | None \<Rightarrow>
                  (case sp_List sp ctx ''chunks/sha256/'' w1 of ((infos, lerr), w1') \<Rightarrow>
                   case range_infos (ctx_checked rt ctx (sweep_orphan_body (sw_Apply opts) minAge cutoff start)) infos
                          \<lparr>li_res = res, li_sample = \<lparr>sm_limit = SweepOrphanSampleLimit, sm_buf = []\<rparr>,
                           li_log = \<lparr>ol_mem = [], ol_file = None, ol_nFile = 0, ol_err = None, ol_faults = sw_log_faults opts\<rparr>,
                           li_refs = ms_refs snap1\<rparr> w1' of
                     (Some err, _, w2) \<Rightarrow> ((None, Some err), run, w2)
                   | (None, li, w2) \<Rightarrow>
                       if lerr \<noteq> None then ((None, Some (Errorf ''repo: gc: list chunks'' [the lerr])), run, w2)
                       else (case hs_Len (li_refs li) of (n, refs) \<Rightarrow>
                        (let res1 = (li_res li)\<lparr>sr_RefCount := n, sr_StaleTemps := ms_stale snap1, sr_Orphans := sample_sorted (li_sample li)\<rparr>;
                             snap2 = snap1\<lparr>ms_refs := refs\<rparr>
                         in case run of
                              None \<Rightarrow> ((Some res1, None), None, w2)
                            | Some r \<Rightarrow>
                                (case sweep_apply sha rt sp ctx opts r snap2 (li_log li) res1 w2 of
                                   (out, r1, w3) \<Rightarrow> (out, Some r1, w3)))))))"

definition Sweep :: "(bytes \<Rightarrow> Hash) \<Rightarrow> 'w runtime \<Rightarrow> 'w StoragePlugin \<Rightarrow> ctx \<Rightarrow> 'w SweepOptions \<Rightarrow> 'w \<Rightarrow>
    (SweepResult option \<times> error option) \<times> 'w" where
  "Sweep sha rt sp ctx opts w =
     (case sweep_clock rt opts w of (start, w0) \<Rightarrow>
      if \<not> sw_Apply opts then (case sweep_body sha rt sp ctx opts start None zero_SweepResult w0 of (out, _, w1) \<Rightarrow> (out, w1))
      else case startGCRun rt sp ctx (sw_hostname opts) start w0 of
        (Inl err, w1) \<Rightarrow> ((None, Some (Errorf ''repo: gc: publish run record'' [err])), w1)
      | (Inr r, w1) \<Rightarrow>
          (let res = zero_SweepResult\<lparr>sr_RunID := gr_RunID (run_rec r)\<rparr>;
               go = (\<lambda>w. case sweep_body sha rt sp ctx opts start (Some r) res w of
                       (out, Some r1, w1) \<Rightarrow> (out, run_finish rt sp r1 w1)
                     | (out, None, w1) \<Rightarrow> (out, run_finish rt sp r w1))
           in case sw_LiveLeases opts of
                None \<Rightarrow> go w1
              | Some f \<Rightarrow>
                  (case f w1 of
                     (Inl err, w2) \<Rightarrow> ((None, Some (Errorf ''repo: gc: scan backup leases'' [err])), run_finish rt sp r w2)
                   | (Inr live, w2) \<Rightarrow>
                       if live \<noteq> [] then ((None, Some (Errorf ''for'' [ErrSweepBackupInFlight])), run_finish rt sp r w2)
                       else go w2)))"

end
