(* ===== verification/StreamPrefix.thy ===== *)
theory StreamPrefix
  imports ManifestStream
begin

text \<open>
  A reader that fails after some bytes may still deliver a whole manifest. What the streaming readers then find is what they
  would find in the complete object: the scanner and the decoder give the same result when more input follows.
\<close>

subsection \<open>The scanner\<close>

lemma hex4_more: "hex4 s = Some (n, r) \<Longrightarrow> hex4 (s @ t) = Some (n, r @ t)"
  by (cases s rule: hex4.cases) (auto split: option.splits)

lemma hex4_none: "hex4 s = None \<Longrightarrow> 4 \<le> length s \<Longrightarrow> hex4 (s @ t) = None"
  by (cases s rule: hex4.cases) (auto split: option.splits)

lemma skip_ws_more: "skip_ws s = c # r \<Longrightarrow> skip_ws (s @ t) = c # r @ t"
  unfolding skip_ws_def by (induction s) (auto split: if_splits)

lemma scan_u_more:
  assumes u: "scan_u s = Some (x, r)" and ok: "scan_string n r = Inr y"
  shows "scan_u (s @ t) = Some (x, r @ t)"
proof -
  obtain k r1 where k: "hex4 s = Some (k, r1)" using u by (auto simp: scan_u_def split: option.splits)
  note k' = hex4_more [OF k, of t]
  show ?thesis
  proof (cases "55296 \<le> k \<and> k < 56320 \<and> take 2 r1 = [CHR 0x5C, CHR ''u'']")
    case True
    then obtain q where q: "r1 = CHR 0x5C # CHR ''u'' # q" by (cases r1; cases "tl r1") auto
    show ?thesis
    proof (cases "hex4 q")
      case (Some p)
      then show ?thesis using u True q k k' hex4_more [of q "fst p" "snd p" t] by (cases p) (auto simp: scan_u_def split: if_splits)
    next
      case None
      then have r: "r = r1" using u True q k by (simp add: scan_u_def)
      have "4 \<le> length q"
      proof (rule ccontr)
        assume "\<not> 4 \<le> length q"
        then have "hex4 q = None" "scan_u q = None" by (cases q rule: hex4.cases; simp add: scan_u_def)+
        then show False using ok r q by (cases n) auto
      qed
      from hex4_none [OF None this, of t] show ?thesis using u k k' None True unfolding q by (auto simp: scan_u_def)
    qed
  next
    case False
    then have r: "r = r1" "x = utf8 k" using u k by (auto simp: scan_u_def)
    have "take 2 (r1 @ t) \<noteq> [CHR 0x5C, CHR ''u'']" if "55296 \<le> k \<and> k < 56320"
    proof (cases r1)
      case Nil
      then show ?thesis using ok r by (cases n) auto
    next
      case (Cons a as)
      show ?thesis
      proof (cases as)
        case Nil
        then have "a = CHR 0x22" using ok r Cons by (cases n; cases "n - 1") (auto split: if_splits)
        then show ?thesis using Cons by (cases "as @ t") auto
      qed (use False that Cons in auto)
    qed
    then show ?thesis using r k' by (auto simp: scan_u_def)
  qed
qed

lemma scan_string_more: "scan_string n s = Inr (x, r) \<Longrightarrow> n \<le> m \<Longrightarrow> scan_string m (s @ t) = Inr (x, r @ t)"
proof (induction n s arbitrary: x r m rule: scan_string.induct)
  case (3 n c s)
  obtain k where m: "m = Suc k" "n \<le> k" using 3(4) by (cases m) auto
  show ?case
  proof (cases "c = CHR 0x22 \<or> c < CHR '' ''")
    case True
    then show ?thesis using 3(3) m by (auto split: if_splits)
  next
    case no: False
    show ?thesis
    proof (cases "c = CHR 0x5C")
      case False
      then obtain y where y: "scan_string n s = Inr (y, r)" "x = c # y" using 3(3) no by (auto split: sum.splits prod.splits)
      have "scan_string k (s @ t) = Inr (y, r @ t)" using 3(2) [OF _ _ False y(1) m(2)] no by blast
      then show ?thesis using no False m y by simp
    next
      case True
      then obtain e s1 where s: "s = e # s1" using 3(3) no by (cases s) auto
      obtain xs s2 where u: "(if e = CHR ''u'' then scan_u s1 else map_option (\<lambda>x. ([x], s1)) (simple_escape e)) = Some (xs, s2)"
        using 3(3) no True s by (auto split: option.splits)
      obtain y where y: "scan_string n s2 = Inr (y, r)" "x = xs @ y"
        using 3(3) no True s u by (auto split: sum.splits prod.splits)
      have "scan_string k (s2 @ t) = Inr (y, r @ t)" using 3(1) no True s u y(1) m(2) by blast
      moreover have "(if e = CHR ''u'' then scan_u (s1 @ t) else map_option (\<lambda>x. ([x], s1 @ t)) (simple_escape e)) = Some (xs, s2 @ t)"
        using u scan_u_more [OF _ y(1), of s1 xs t] by (auto split: if_splits)
      ultimately show ?thesis using no True m y s by auto
    qed
  qed
qed auto

lemma scan_digits_more: "scan_digits s = Inr (x, r) \<Longrightarrow> r \<noteq> [] \<Longrightarrow> scan_digits (s @ t) = Inr (x, r @ t)"
proof -
  assume a: "scan_digits s = Inr (x, r)" "r \<noteq> []"
  then have x: "x = takeWhile isDigit s" "r = dropWhile isDigit s" "x \<noteq> []"
    by (auto simp: scan_digits_def span_digits_def split: if_splits)
  then obtain c where "c \<in> set s" "\<not> isDigit c" using a(2) by (metis dropWhile_eq_Nil_conv)
  then have "takeWhile isDigit (s @ t) = x" "dropWhile isDigit (s @ t) = r @ t" using x by auto
  then show ?thesis using x(3) by (simp add: scan_digits_def span_digits_def)
qed

lemma scan_int_more: "scan_int s = Inr (x, r) \<Longrightarrow> r \<noteq> [] \<Longrightarrow> scan_int (s @ t) = Inr (x, r @ t)"
  using scan_digits_more [of s x r t] scan_int_length [of s x r] by (cases s) (auto simp: scan_int_def split: if_splits)

lemma scan_frac_more: "scan_frac s = Inr (x, r) \<Longrightarrow> r \<noteq> [] \<Longrightarrow> scan_frac (s @ t) = Inr (x, r @ t)"
  using scan_digits_more [of "tl s" _ r t] by (cases s) (auto simp: scan_frac_def split: if_splits sum.splits prod.splits)

lemma scan_exp_more: "scan_exp s = Inr (x, r) \<Longrightarrow> r \<noteq> [] \<Longrightarrow> scan_exp (s @ t) = Inr (x, r @ t)"
proof (cases s)
  case (Cons c q)
  assume a: "scan_exp s = Inr (x, r)" "r \<noteq> []"
  show ?thesis
  proof (cases "c = CHR ''e'' \<or> c = CHR ''E''")
    case True
    define k where "k = (if q \<noteq> [] \<and> (hd q = CHR ''+'' \<or> hd q = CHR ''-'') then 2 else 1 :: nat)"
    obtain ds where d: "scan_digits (drop k s) = Inr (ds, r)" "x = take k s @ ds"
      using a True Cons by (auto simp: scan_exp_def Let_def k_def split: sum.splits if_splits)
    have "drop k s \<noteq> []" using scan_digits_length [OF d(1)] by auto
    then have "k < length s" by simp
    then have "drop k (s @ t) = drop k s @ t" "take k (s @ t) = take k s" "q \<noteq> []" using Cons by (auto simp: k_def split: if_splits)
    moreover have "k = (if q @ t \<noteq> [] \<and> (hd (q @ t) = CHR ''+'' \<or> hd (q @ t) = CHR ''-'') then 2 else 1 :: nat)"
      using \<open>q \<noteq> []\<close> by (simp add: k_def)
    ultimately show ?thesis using True Cons d scan_digits_more [OF d(1) a(2), of t]
      by (simp add: scan_exp_def Let_def del: drop_append take_append)
  qed (use a Cons in \<open>auto simp: scan_exp_def\<close>)
qed (auto simp: scan_exp_def)

lemma scan_number_more: "scan_number s = Inr (x, r) \<Longrightarrow> r \<noteq> [] \<Longrightarrow> scan_number (s @ t) = Inr (x, r @ t)"
proof -
  assume a: "scan_number s = Inr (x, r)" "r \<noteq> []"
  define k where "k = (if s \<noteq> [] \<and> hd s = CHR ''-'' then 1 else 0 :: nat)"
  obtain ip r1 where i: "scan_int (drop k s) = Inr (ip, r1)" using a by (auto simp: scan_number_def Let_def k_def split: sum.splits)
  obtain fr r2 where f: "scan_frac r1 = Inr (fr, r2)" using a i by (auto simp: scan_number_def Let_def k_def split: sum.splits)
  obtain ex where e: "scan_exp r2 = Inr (ex, r)" "x = take k s @ ip @ fr @ ex"
    using a i f by (auto simp: scan_number_def Let_def k_def split: sum.splits)
  have ne: "r2 \<noteq> []" "r1 \<noteq> []" "drop k s \<noteq> []"
    using scan_exp_length [OF e(1)] scan_frac_length [OF f] scan_int_length [OF i] a(2) by (cases r; auto)+
  then have "drop k (s @ t) = drop k s @ t" "take k (s @ t) = take k s" "s \<noteq> []" by auto
  moreover have "k = (if s @ t \<noteq> [] \<and> hd (s @ t) = CHR ''-'' then 1 else 0 :: nat)" using \<open>s \<noteq> []\<close> by (simp add: k_def)
  ultimately show ?thesis
    using scan_int_more [OF i ne(2), of t] scan_frac_more [OF f ne(1), of t] scan_exp_more [OF e(1) a(2), of t] e(2)
    by (simp add: scan_number_def Let_def del: drop_append take_append)
qed

lemma scan_lit_more: "scan_lit l v s = Inr (x, r) \<Longrightarrow> scan_lit l v (s @ t) = Inr (x, r @ t)"
  by (auto simp: scan_lit_def HasPrefix_iff split: if_splits)

lemma scan_more:
  "scan_value n s = Inr (v, r) \<Longrightarrow> r \<noteq> [] \<Longrightarrow> scan_value n (s @ t) = Inr (v, r @ t)"
  "scan_elems n s = Inr (vs, r) \<Longrightarrow> scan_elems n (s @ t) = Inr (vs, r @ t)"
  "scan_members n s = Inr (ms, r) \<Longrightarrow> scan_members n (s @ t) = Inr (ms, r @ t)"
proof (induction n s and n s and n s arbitrary: v r and vs r and ms r rule: scan_value_scan_elems_scan_members.induct)
  case (2 n s)
  obtain c q where c: "skip_ws s = c # q" using 2(3) by (auto simp: scan_value.simps split: list.splits)
  note c' = skip_ws_more [OF c, of t] and a = 2(3) [unfolded scan_value.simps c list.case]
  show ?case
  proof (cases "c = CHR 0x7B \<or> c = CHR 0x5B")
    case True
    then obtain d q1 where d: "skip_ws q = d # q1" using a by (cases "skip_ws q") auto
    note d' = skip_ws_more [OF d, of t]
    show ?thesis
    proof (cases "c = CHR 0x7B")
      case obj: True
      show ?thesis
      proof (cases "d = CHR 0x7D")
        case False
        then obtain ms where m: "scan_members n (d # q1) = Inr (ms, r)" "v = JObj ms" using a obj d by (auto split: sum.splits)
        show ?thesis using 2(1) [OF c obj d False m(1)] m(2) obj d' False by (simp add: scan_value.simps c')
      qed (use a obj d d' in \<open>simp add: scan_value.simps c'\<close>)
    next
      case arr: False
      then have cc: "c = CHR 0x5B" using True by simp
      show ?thesis
      proof (cases "d = CHR 0x5D")
        case False
        then obtain vs where m: "scan_elems n (d # q1) = Inr (vs, r)" "v = JArr vs" using a cc d by (auto split: sum.splits)
        show ?thesis using 2(2) [OF c arr cc d False m(1)] m(2) cc d' False by (simp add: scan_value.simps c')
      qed (use a cc d d' in \<open>simp add: scan_value.simps c'\<close>)
    qed
  next
    case False
    note b = a [unfolded if_not_P [OF False [unfolded de_Morgan_disj, THEN conjunct1]] if_not_P [OF False [unfolded de_Morgan_disj, THEN conjunct2]]]
    show ?thesis
    proof (cases "c = CHR 0x22")
      case True
      then obtain x where x: "scan_string (Suc (length q)) q = Inr (x, r)" "v = JStr x" using b by (auto split: sum.splits)
      have "scan_string (Suc (length (q @ t))) (q @ t) = Inr (x, r @ t)" by (rule scan_string_more [OF x(1)]) simp
      then show ?thesis using True x(2) by (simp add: scan_value.simps c')
    next
      case nq: False
      show ?thesis
      proof (cases "c = CHR ''t'' \<or> c = CHR ''f'' \<or> c = CHR ''n''")
        case True
        then show ?thesis using b scan_lit_more [of _ _ "c # q" v r t] by (auto simp: scan_value.simps c')
      next
        case nl: False
        then obtain x where x: "scan_number (c # q) = Inr (x, r)" "v = JNum x" "c = CHR ''-'' \<or> isDigit c"
          using b nq by (auto split: sum.splits if_splits)
        have "scan_number (c # q @ t) = Inr (x, r @ t)" using scan_number_more [OF x(1) 2(4), of t] by simp
        then show ?thesis using False nq nl x(2,3) by (simp add: scan_value.simps c')
      qed
    qed
  qed
next
  case (4 n s)
  obtain v q where v: "scan_value n s = Inr (v, q)" using 4(3) by (auto simp: scan_elems.simps split: sum.splits)
  obtain c q1 where c: "skip_ws q = c # q1" using 4(3) v by (auto simp: scan_elems.simps split: list.splits)
  have "q \<noteq> []" using c by (auto simp: skip_ws_def)
  note v' = 4(1) [OF v this] and c' = skip_ws_more [OF c, of t]
  note a = 4(3) [unfolded scan_elems.simps v c list.case sum.case prod.case]
  show ?case
  proof (cases "c = CHR '',''")
    case True
    then obtain ws where w: "scan_elems n q1 = Inr (ws, r)" "vs = v # ws" using a by (auto split: sum.splits)
    show ?thesis using 4(2) [OF v refl c True w(1)] w(2) True by (simp add: scan_elems.simps v' c')
  qed (use a in \<open>auto simp: scan_elems.simps v' c' split: if_splits\<close>)
next
  case (6 n s)
  obtain c q where c: "skip_ws s = c # q" "c = CHR 0x22" using 6(3) by (auto simp: scan_members.simps split: list.splits if_splits)
  note s1 = 6(3) [unfolded scan_members.simps c list.case, simplified]
  obtain x q1 where x: "scan_string (Suc (length q)) q = Inr (x, q1)" using s1 by (auto split: sum.splits)
  note s2 = s1 [unfolded x sum.case prod.case]
  obtain c2 q2 where c2: "skip_ws q1 = c2 # q2" "c2 = CHR '':''" using s2 by (auto split: list.splits if_splits)
  note s3 = s2 [unfolded c2 list.case, simplified]
  obtain v q3 where v: "scan_value n q2 = Inr (v, q3)" using s3 by (auto split: sum.splits)
  note s4 = s3 [unfolded v sum.case prod.case]
  obtain d q4 where d: "skip_ws q3 = d # q4" using s4 by (auto split: list.splits)
  note a = s4 [unfolded d list.case]
  have "q3 \<noteq> []" using d by (auto simp: skip_ws_def)
  have v': "scan_value n (q2 @ t) = Inr (v, q3 @ t)"
    using 6(1) [OF c(1) _ x refl c2(1) _ v \<open>q3 \<noteq> []\<close>] c(2) c2(2) by simp
  have x': "scan_string (Suc (length (q @ t))) (q @ t) = Inr (x, q1 @ t)" by (rule scan_string_more [OF x]) simp
  note m = skip_ws_more [OF c(1), of t] skip_ws_more [OF c2(1), of t] skip_ws_more [OF d, of t]
  show ?case
  proof (cases "d = CHR '',''")
    case True
    then obtain ws where w: "scan_members n q4 = Inr (ws, r)" "ms = (x, v) # ws" using a by (auto split: sum.splits)
    have "scan_members n (q4 @ t) = Inr (ws, r @ t)" using 6(2) [OF c(1) _ x refl c2(1) _ v refl d True w(1)] c(2) c2(2) by simp
    then show ?thesis using w(2) True c(2) c2(2) m x' v' by (simp add: scan_members.simps)
  next
    case False
    then have "d = CHR 0x7D" "ms = [(x, v)]" "r = q4" using a by (auto split: if_splits)
    then show ?thesis using c(2) c2(2) m x' v' by (simp add: scan_members.simps)
  qed
qed (simp_all add: scan_value.simps scan_elems.simps scan_members.simps)

subsection \<open>The decoder\<close>

text \<open>The decoder on a longer input, and the input that still holds a token.\<close>

definition extend :: "string \<Rightarrow> Decoder \<Rightarrow> Decoder" where
  "extend t d = d\<lparr>dc_rest := dc_rest d @ t, dc_err := None\<rparr>"

definition live :: "Decoder \<Rightarrow> bool" where
  "live d \<longleftrightarrow> skip_ws (dc_rest d) \<noteq> []"

lemma extend_simps [simp]: "dc_state (extend t d) = dc_state d" "dc_stack (extend t d) = dc_stack d"
  "dc_rest (extend t d) = dc_rest d @ t" "tokenValueAllowed (extend t d) = tokenValueAllowed d"
  "tokenValueEnd (extend t d) = extend t (tokenValueEnd d)"
  by (simp_all add: extend_def tokenValueAllowed_def tokenValueEnd_def)

lemma extend_upd [simp]: "(extend t d)\<lparr>dc_state := st\<rparr> = extend t (d\<lparr>dc_state := st\<rparr>)"
  "(extend t d)\<lparr>dc_stack := ss\<rparr> = extend t (d\<lparr>dc_stack := ss\<rparr>)"
  by (simp_all add: extend_def)

lemma live_ne: "live d \<Longrightarrow> dc_rest d \<noteq> []"
  by (auto simp: live_def skip_ws_def)

lemma peek_live: "peek d = (Inr c, d') \<Longrightarrow> live d \<and> dc_rest d' = c # tl (dc_rest d') \<and> skip_ws (dc_rest d) = dc_rest d'"
  by (auto simp: peek_def live_def Let_def split: list.splits)

lemma peek_extend: "peek d = (Inr c, d') \<Longrightarrow> peek (extend t d) = (Inr c, extend t d')"
  using skip_ws_more [of "dc_rest d" c _ t] by (auto simp: peek_def extend_def Let_def split: list.splits)

lemma More_live: "More d \<Longrightarrow> live d"
  by (auto simp: More_def dest: peek_live split: prod.splits sum.splits)

lemma More_extend: "live d \<Longrightarrow> More (extend t d) = More d"
proof -
  assume "live d"
  then obtain c d' where "peek d = (Inr c, d')" by (cases "skip_ws (dc_rest d)") (auto simp: live_def peek_def Let_def)
  from this peek_extend [OF this, of t] show ?thesis by (simp add: More_def)
qed

text \<open>Consuming the character at which a decoder stands.\<close>

lemma tl_extend: "dc_rest d \<noteq> [] \<Longrightarrow> (extend t d)\<lparr>dc_rest := tl (dc_rest d @ t)\<rparr> = extend t (d\<lparr>dc_rest := tl (dc_rest d)\<rparr>)"
  by (simp add: extend_def)

lemma prepare_extend:
  assumes "tokenPrepareForDecode d = (None, d')"
  shows "tokenPrepareForDecode (extend t d) = (None, extend t d') \<and> (live d' \<longrightarrow> live d)"
proof (cases "dc_state d = tokenArrayComma \<or> dc_state d = tokenObjectColon")
  case True
  then obtain c d1 where p: "peek d = (Inr c, d1)" using assms by (auto simp: tokenPrepareForDecode_def split: prod.splits sum.splits)
  note p1 = peek_live [OF p]
  have ne: "dc_rest d1 \<noteq> []" using p1 by (metis list.distinct(1))
  show ?thesis
    using True assms p peek_extend [OF p, of t] tl_extend [OF ne, of t] p1
    by (auto simp: tokenPrepareForDecode_def extend_def split: if_splits)
next
  case False
  then show ?thesis using assms by (cases "dc_state d") (auto simp: tokenPrepareForDecode_def)
qed

lemma scan_value_live: "scan_value n s = Inr (v, r) \<Longrightarrow> skip_ws s \<noteq> []"
  by (cases n) (auto simp: scan_value.simps split: list.splits)

lemma readValue_extend:
  assumes "readValue d = (Inr v, d')" "dc_rest d' \<noteq> []"
  shows "readValue (extend t d) = (Inr v, extend t d') \<and> live d"
proof -
  obtain r where r: "scan_value (Suc (2 * length (dc_rest d))) (dc_rest d) = Inr (v, r)" "d' = d\<lparr>dc_rest := r\<rparr>"
    using assms(1) by (auto simp: readValue_def split: sum.splits)
  have "scan_value (Suc (2 * length (dc_rest d))) (dc_rest d @ t) = Inr (v, r @ t)"
    using scan_more(1) [OF r(1)] r(2) assms(2) by simp
  from scan_fuel(1) [OF this] have "scan_value (Suc (2 * length (dc_rest d @ t))) (dc_rest d @ t) = Inr (v, r @ t)" by simp
  then show ?thesis using r scan_value_live [OF r(1)] by (simp add: readValue_def live_def extend_def)
qed

lemma Decode_extend:
  assumes "Decode d = (Inr v, d')" "dc_rest d' \<noteq> []"
  shows "Decode (extend t d) = (Inr v, extend t d') \<and> live d"
proof -
  obtain d1 where p: "tokenPrepareForDecode d = (None, d1)" using assms(1) by (auto simp: Decode_def split: prod.splits option.splits)
  obtain d2 where r: "tokenValueAllowed d1" "readValue d1 = (Inr v, d2)" "d' = tokenValueEnd d2"
    using assms(1) p by (auto simp: Decode_def split: prod.splits sum.splits if_splits)
  have "dc_rest d2 \<noteq> []" using assms(2) r(3) by simp
  then show ?thesis using readValue_extend [OF r(2), of t] prepare_extend [OF p, of t] r by (simp add: Decode_def)
qed

lemma token_at_extend:
  assumes c: "dc_rest d = c # q" and k: "token_at c d = (Inr tok, d')" and ne: "dc_rest d' \<noteq> [] \<or> (\<exists>x. tok = TDelim x)"
  shows "token_at c (extend t d) = (Inr tok, extend t d')"
proof (cases "c = CHR 0x5B \<or> c = CHR 0x5D \<or> c = CHR 0x7B \<or> c = CHR 0x7D")
  case True
  have e: "(extend t d)\<lparr>dc_rest := q @ t\<rparr> = extend t (d\<lparr>dc_rest := q\<rparr>)" by (simp add: extend_def)
  show ?thesis using True k c e by (auto simp: token_at_def Let_def tokenError_def split: if_splits)
next
  case False
  then have "dc_rest d' \<noteq> []" using k ne by (auto simp: token_at_def Let_def tokenError_def split: if_splits prod.splits sum.splits)
  show ?thesis
  proof (cases "c = CHR 0x22 \<and> (dc_state d = tokenObjectStart \<or> dc_state d = tokenObjectKey)")
    case True
    then obtain v d1 where v: "Decode (d\<lparr>dc_state := tokenTopValue\<rparr>) = (Inr v, d1)" "tok = TValue v" "d' = d1\<lparr>dc_state := tokenObjectColon\<rparr>"
      using k False by (auto simp: token_at_def Let_def split: prod.splits sum.splits)
    have "Decode (extend t (d\<lparr>dc_state := tokenTopValue\<rparr>)) = (Inr v, extend t d1)"
      using Decode_extend [OF v(1), of t] v(3) \<open>dc_rest d' \<noteq> []\<close> by simp
    then show ?thesis using True v(2,3) by (simp add: token_at_def Let_def)
  next
    case nk: False
    then obtain v where v: "tokenValueAllowed d" "Decode d = (Inr v, d')" "tok = TValue v"
      using k False by (auto simp: token_at_def Let_def tokenError_def split: prod.splits sum.splits if_splits)
    show ?thesis
      using False nk v Decode_extend [OF v(2) \<open>dc_rest d' \<noteq> []\<close>, of t]
      unfolding token_at_def Let_def by auto
  qed
qed

lemma Token_extend:
  assumes k: "Token d = (Inr tok, d')" and ne: "dc_rest d' \<noteq> [] \<or> (\<exists>x. tok = TDelim x)"
  shows "Token (extend t d) = (Inr tok, extend t d') \<and> live d"
proof -
  obtain c d1 where p: "peek d = (Inr c, d1)" using k by (auto simp: Token_def split: prod.splits sum.splits)
  note p1 = peek_live [OF p] and p2 = peek_extend [OF p, of t]
  have ne1: "dc_rest d1 \<noteq> []" using p1 by (metis list.distinct(1))
  show ?thesis
  proof (cases "c = CHR '':'' \<or> c = CHR '',''")
    case False
    then have "token_at c d1 = (Inr tok, d')" using k p by (simp add: Token_def)
    from token_at_extend [OF _ this ne] p1 have "token_at c (extend t d1) = (Inr tok, extend t d')" by blast
    then show ?thesis using False p1 p2 by (simp add: Token_def)
  next
    case True
    define st where "st = (if c = CHR '':'' \<and> dc_state d1 = tokenObjectColon then Some tokenObjectValue
        else if c = CHR '','' \<and> dc_state d1 = tokenArrayComma then Some tokenArrayValue
        else if c = CHR '','' \<and> dc_state d1 = tokenObjectComma then Some tokenObjectKey else None)"
    obtain s1 where s1: "st = Some s1"
      using k p True by (cases st) (auto simp: Token_def tokenError_def st_def)
    let ?d = "d1\<lparr>dc_rest := tl (dc_rest d1), dc_state := s1\<rparr>"
    obtain c2 d2 where q: "peek ?d = (Inr c2, d2)" "\<not> (c2 = CHR '':'' \<or> c2 = CHR '','')" "token_at c2 d2 = (Inr tok, d')"
      using k s1 unfolding Token_def p prod.case sum.case if_P [OF True] st_def [symmetric]
      by (auto simp: tokenError_def split: prod.splits sum.splits if_splits)
    have e: "(extend t d1)\<lparr>dc_rest := tl (dc_rest d1 @ t), dc_state := s1\<rparr> = extend t ?d"
      using ne1 by (simp add: extend_def)
    have "token_at c2 (extend t d2) = (Inr tok, extend t d')"
      using token_at_extend [OF _ q(3) ne] peek_live [OF q(1)] by blast
    then show ?thesis
      using p1 peek_extend [OF q(1), of t] q(2) s1 e
      unfolding Token_def p2 prod.case sum.case if_P [OF True] extend_simps st_def [symmetric] by simp
  qed
qed

subsection \<open>The walkers\<close>

lemma msExpectDelim_extend: "msExpectDelim c d = (None, d') \<Longrightarrow> msExpectDelim c (extend t d) = (None, extend t d') \<and> live d"
  using Token_extend [of d "TDelim c" d' t] by (auto simp: msExpectDelim_def split: prod.splits sum.splits if_splits)

lemma msReadKey_extend: "msReadKey d = (Inr k, d') \<Longrightarrow> live d' \<Longrightarrow> msReadKey (extend t d) = (Inr k, extend t d') \<and> live d"
proof -
  assume a: "msReadKey d = (Inr k, d')" "live d'"
  then have "Token d = (Inr (TValue (JStr k)), d')" by (auto simp: msReadKey_def split: prod.splits sum.splits Token.splits json.splits)
  from Token_extend [OF this] live_ne [OF a(2)] show ?thesis by (simp add: msReadKey_def)
qed

lemma msSkipValue_extend: "msSkipValue d = (None, d') \<Longrightarrow> live d' \<Longrightarrow> msSkipValue (extend t d) = (None, extend t d') \<and> live d"
proof -
  assume a: "msSkipValue d = (None, d')" "live d'"
  then obtain v where "Decode d = (Inr v, d')" by (auto simp: msSkipValue_def split: prod.splits sum.splits)
  from Decode_extend [OF this live_ne [OF a(2)]] show ?thesis by (simp add: msSkipValue_def)
qed

lemma decode_chunkRef_extend: "decode_chunkRef d = (Inr h, d') \<Longrightarrow> live d' \<Longrightarrow> decode_chunkRef (extend t d) = (Inr h, extend t d') \<and> live d"
proof -
  assume a: "decode_chunkRef d = (Inr h, d')" "live d'"
  then obtain v where "Decode d = (Inr v, d')" "chunkRef_of v = Inr h" by (auto simp: decode_chunkRef_def split: prod.splits sum.splits)
  from Decode_extend [OF this(1) live_ne [OF a(2)]] this(2) show ?thesis by (simp add: decode_chunkRef_def)
qed

lemma open_array_extend: "open_array m d = (Inr b, d') \<Longrightarrow> b \<or> live d' \<Longrightarrow> open_array m (extend t d) = (Inr b, extend t d') \<and> live d"
proof -
  assume a: "open_array m d = (Inr b, d')" "b \<or> live d'"
  then obtain tok where tok: "Token d = (Inr tok, d')" "tok = (if b then TDelim (CHR 0x5B) else TValue JNull)"
    by (auto simp: open_array_def split: prod.splits sum.splits if_splits)
  have "dc_rest d' \<noteq> [] \<or> (\<exists>x. tok = TDelim x)" using a(2) tok(2) live_ne by (cases b) auto
  from Token_extend [OF tok(1) this] tok(2) show ?thesis by (cases b) (simp_all add: open_array_def)
qed

text \<open>A walker that ends before more input does the same on the longer input.\<close>

definition extends :: "(Decoder \<Rightarrow> 's \<Rightarrow> error option \<times> Decoder \<times> 's) \<Rightarrow> bool" where
  "extends f \<longleftrightarrow> (\<forall>d s d' s' t. f d s = (None, d', s') \<longrightarrow> live d' \<longrightarrow> f (extend t d) s = (None, extend t d', s') \<and> live d)"

lemma extendsD: "extends f \<Longrightarrow> f d s = (None, d', s') \<Longrightarrow> live d' \<Longrightarrow> f (extend t d) s = (None, extend t d', s') \<and> live d"
  by (simp add: extends_def)

lemma loop_extends:
  assumes step: "extends step" and unf: "\<And>d s. loop d s = (if More d then
        (case step d s of (Some err, d1, s1) \<Rightarrow> (Some err, d1, s1) | (None, d1, s1) \<Rightarrow> loop d1 s1) else (None, d, s))"
    and reads: "\<And>d s d' s'. step d s = (None, d', s') \<Longrightarrow> reads d d'"
  shows "extends loop"
proof -
  have "loop d s = (None, d', s') \<Longrightarrow> live d' \<Longrightarrow> loop (extend t d) s = (None, extend t d', s') \<and> live d" for d s d' s' t
  proof (induction "length (dc_rest d)" arbitrary: d s rule: less_induct)
    case less
    show ?case
    proof (cases "More d")
      case True
      obtain d1 s1 where st: "step d s = (None, d1, s1)" "loop d1 s1 = (None, d', s')"
        using less(2) True by (subst (asm) unf) (auto split: prod.splits option.splits)
      have "length (dc_rest d1) < length (dc_rest d)" using reads [OF st(1)] by (simp add: reads_def)
      from less(1) [OF this st(2) less(3)] have l: "loop (extend t d1) s1 = (None, extend t d', s')" "live d1" by auto
      have "live d" by (rule More_live [OF True])
      then show ?thesis using extendsD [OF step st(1) l(2), of t] l(1) True by (subst unf) (simp add: More_extend)
    next
      case False
      then have "d' = d" "s' = s" using less(2) by (subst (asm) unf, simp)+
      then show ?thesis using False less(3) by (subst unf) (simp add: More_extend)
    qed
  qed
  then show ?thesis by (simp add: extends_def)
qed

lemma array_extends:
  assumes "extends loop"
  shows "extends (\<lambda>d s. case open_array m d of
        (Inl err, d1) \<Rightarrow> (Some err, d1, s)
      | (Inr False, d1) \<Rightarrow> (None, d1, s)
      | (Inr True, d1) \<Rightarrow>
          (case loop d1 s of
             (Some err, d2, s1) \<Rightarrow> (Some err, d2, s1)
           | (None, d2, s1) \<Rightarrow> (case msExpectDelim (CHR 0x5D) d2 of (e, d3) \<Rightarrow> (e, d3, s1))))" (is "extends ?f")
  unfolding extends_def
proof (intro allI impI)
  fix d s d' s' t assume f: "?f d s = (None, d', s')" and l: "live d'"
  obtain b d1 where o: "open_array m d = (Inr b, d1)" using f by (auto split: prod.splits sum.splits)
  show "?f (extend t d) s = (None, extend t d', s') \<and> live d"
  proof (cases b)
    case True
    obtain d2 where d2: "loop d1 s = (None, d2, s')" "msExpectDelim (CHR 0x5D) d2 = (None, d')"
      using f o True by (auto split: prod.splits option.splits)
    show ?thesis
      using open_array_extend [OF o, of t] extendsD [OF assms d2(1), of t] msExpectDelim_extend [OF d2(2), of t] True by simp
  next
    case False
    then have "d' = d1" "s' = s" using f o by auto
    then show ?thesis using open_array_extend [OF o, of t] l False by simp
  qed
qed

lemma chunk_step_extends: "extends (\<lambda>d s. case decode_chunkRef d of
    (Inl err, d1) \<Rightarrow> (Some err, d1, s)
  | (Inr h, d1) \<Rightarrow> (case visit h s of (Some err, s1) \<Rightarrow> (Some err, d1, s1) | (None, s1) \<Rightarrow> (None, d1, s1)))"
  unfolding extends_def using decode_chunkRef_extend by (fastforce split: prod.splits sum.splits option.splits)

lemma chunks_loop_extends: "extends (chunks_loop visit)"
proof (rule loop_extends [OF chunk_step_extends])
  show "chunks_loop visit d s = (if More d then
        (case (case decode_chunkRef d of
            (Inl err, d1) \<Rightarrow> (Some err, d1, s)
          | (Inr h, d1) \<Rightarrow> (case visit h s of (Some err, s1) \<Rightarrow> (Some err, d1, s1) | (None, s1) \<Rightarrow> (None, d1, s1))) of
           (Some err, d1, s1) \<Rightarrow> (Some err, d1, s1) | (None, d1, s1) \<Rightarrow> chunks_loop visit d1 s1) else (None, d, s))" for d s
    by (subst chunks_loop.simps) (auto split: prod.splits sum.splits option.splits)
qed (auto dest: decode_chunkRef_reads split: prod.splits sum.splits option.splits)

lemma member_step_extends:
  assumes "extends inner"
  shows "extends (member_step name inner)"
  unfolding extends_def
proof (intro allI impI)
  fix d s d' s' t assume f: "member_step name inner d s = (None, d', s')" and l: "live d'"
  obtain k d1 where k: "msReadKey d = (Inr k, d1)" using f by (auto simp: member_step_def split: prod.splits sum.splits)
  have "live d1 \<and> member_step name inner (extend t d) s = (None, extend t d', s') \<and> live d"
  proof (cases "EqualFold k name")
    case True
    then have "inner d1 s = (None, d', s')" using f k by (simp add: member_step_def)
    then show ?thesis using extendsD [OF assms _ l, of d1 s s' t] msReadKey_extend [OF k, of t] True by (simp add: member_step_def)
  next
    case False
    then have "msSkipValue d1 = (None, d')" "s' = s" using f k by (auto simp: member_step_def split: prod.splits)
    then show ?thesis using msSkipValue_extend [of d1 d' t] l msReadKey_extend [OF k, of t] False by (simp add: member_step_def)
  qed
  then show "member_step name inner (extend t d) s = (None, extend t d', s') \<and> live d" by blast
qed

lemma streamChunksArray_extends: "extends (streamChunksArray visit)"
  unfolding streamChunksArray_def [abs_def] by (rule array_extends [OF chunks_loop_extends])

lemma file_members_extends: "extends (file_members visit)"
  by (rule loop_extends [OF member_step_extends [OF streamChunksArray_extends] file_members.simps]) (rule member_chunks_reads)

lemma file_object_extends: "extends (file_object visit)"
  unfolding extends_def
proof (intro allI impI)
  fix d s d' s' t assume f: "file_object visit d s = (None, d', s')"
  obtain d1 d2 where d: "msExpectDelim (CHR 0x7B) d = (None, d1)" "file_members visit d1 s = (None, d2, s')"
    "msExpectDelim (CHR 0x7D) d2 = (None, d')" using f by (auto simp: file_object_def split: prod.splits option.splits)
  show "file_object visit (extend t d) s = (None, extend t d', s') \<and> live d"
    using msExpectDelim_extend [OF d(1), of t] msExpectDelim_extend [OF d(3), of t] extendsD [OF file_members_extends d(2), of t]
    by (simp add: file_object_def)
qed

lemma files_loop_extends: "extends (files_loop visit)"
  by (rule loop_extends [OF file_object_extends files_loop.simps]) (rule file_object_reads)

lemma streamFilesArray_extends: "extends (streamFilesArray visit)"
  unfolding streamFilesArray_def [abs_def] by (rule array_extends [OF files_loop_extends])

lemma backup_members_extends: "extends (backup_members visit)"
  by (rule loop_extends [OF member_step_extends [OF streamFilesArray_extends] backup_members.simps]) (rule member_files_reads)

subsection \<open>A reader that fails\<close>

lemma NewDecoder_take: "NewDecoder \<lparr>rd_data = b, rd_err = None\<rparr> =
    extend (string_of_bytes (drop n b)) (NewDecoder \<lparr>rd_data = take n b, rd_err = e\<rparr>)"
  by (simp add: NewDecoder_def extend_def string_of_bytes_def flip: map_append)

lemma limit_metadata_small: "int (length (rd_data r)) < MaxStreamedMetadataBytes \<Longrightarrow> limit_metadata r = r"
  by (simp add: limit_metadata_def)

lemma stream_object_prefix:
  assumes e: "\<And>visit. extends (members visit :: Decoder \<Rightarrow> 's \<Rightarrow> _)" and l: "int (length b) < MaxStreamedMetadataBytes"
    and s: "stream_object members \<lparr>rd_data = take n b, rd_err = err\<rparr> visit s = (None, s')"
  shows "stream_object members (bytes_NewReader b) visit s = (None, s')"
proof -
  let ?r = "\<lparr>rd_data = take n b, rd_err = err\<rparr>" and ?t = "string_of_bytes (drop n b)"
  have lim: "limit_metadata ?r = ?r" "limit_metadata \<lparr>rd_data = b, rd_err = None\<rparr> = \<lparr>rd_data = b, rd_err = None\<rparr>"
    using l by (simp_all add: limit_metadata_small)
  obtain d1 d2 d3 where m: "msExpectDelim (CHR 0x7B) (NewDecoder ?r) = (None, d1)" "members visit d1 s = (None, d2, s')"
    "msExpectDelim (CHR 0x7D) d2 = (None, d3)" using s unfolding stream_object_def lim by (auto split: prod.splits option.splits)
  show ?thesis
    unfolding stream_object_def bytes_NewReader_def lim NewDecoder_take [of b n err]
    using msExpectDelim_extend [OF m(1), of ?t] msExpectDelim_extend [OF m(3), of ?t] extendsD [OF e m(2), of ?t] by simp
qed

lemma streamBackup_prefix:
  "int (length b) < MaxStreamedMetadataBytes \<Longrightarrow> streamBackupChunkRefs \<lparr>rd_data = take n b, rd_err = err\<rparr> visit s = (None, s') \<Longrightarrow>
     streamBackupChunkRefs (bytes_NewReader b) visit s = (None, s')"
  unfolding streamBackupChunkRefs_def by (rule stream_object_prefix [OF backup_members_extends])

lemma streamSegment_prefix:
  "int (length b) < MaxStreamedMetadataBytes \<Longrightarrow> streamSegmentChunkRefs \<lparr>rd_data = take n b, rd_err = err\<rparr> visit s = (None, s') \<Longrightarrow>
     streamSegmentChunkRefs (bytes_NewReader b) visit s = (None, s')"
  unfolding streamSegmentChunkRefs_def by (rule stream_object_prefix [OF file_members_extends])

end
