(* ===== verification/GcRefs.thy ===== *)
theory GcRefs
  imports GcSweep SpillProps StreamPrefix
begin

text \<open>
  What reference collection finds, stated on the objects of the repository: the hashes a stored manifest names, the manifests
  that count as live, and the reference set after a scan. The locale \<open>gc_store\<close> adds to the storage contract what a
  collection relies on: a predicate \<open>tidy\<close> that every operation it calls keeps and under which listings hold only
  well-formed keys below their prefix.
\<close>

subsection \<open>References of a store\<close>

definition backup_hashes :: "bytes \<Rightarrow> Hash set" where
  "backup_hashes b = {h. \<exists>s \<in> set (snd (backup_refs b)). parseHexHash s = Inr h}"

definition segment_hashes :: "bytes \<Rightarrow> Hash set" where
  "segment_hashes b = {h. \<exists>s \<in> set (snd (segment_refs b)). parseHexHash s = Inr h}"

definition manifest_hashes :: "string \<Rightarrow> bytes \<Rightarrow> Hash set" where
  "manifest_hashes k b = (if HasPrefix k ''manifests/'' then backup_hashes b else segment_hashes b)"

text \<open>The part of a store that holds manifests.\<close>

definition in_area :: "string \<Rightarrow> bool" where
  "in_area k \<longleftrightarrow> HasPrefix k ''manifests/'' \<or> HasPrefix k ''wal/'' \<or> HasPrefix k ''logical/''"

definition manifest_area :: "store \<Rightarrow> store" where
  "manifest_area m k = (if in_area k then m k else None)"

definition area_hashes :: "store \<Rightarrow> Hash set" where
  "area_hashes m = {h. \<exists>k b t. m k = Some (b, t) \<and> h \<in> manifest_hashes k b}"

definition stored_infos :: "store \<Rightarrow> ObjectInfo set" where
  "stored_infos m = {i. \<exists>b. m (oi_Key i) = Some (b, oi_ModTime i) \<and> oi_Size i = length b}"

text \<open>An expired tombstone for the backup a manifest key names.\<close>

definition tombstoned :: "duration \<Rightarrow> instant \<Rightarrow> store \<Rightarrow> string \<Rightarrow> bool" where
  "tombstoned grace cutoff m k \<longleftrightarrow> 5 \<le> length (Split CHR ''/'' k) \<and>
     (\<exists>tk b t. m tk = Some (b, t) \<and> HasPrefix tk ''manifests/'' \<and> HasSuffix tk ''/manifest.json.tombstone'' \<and>
        4 \<le> length (Split CHR ''/'' tk) \<and> tombstone_id tk = tombstone_id k \<and> \<not> (0 < grace \<and> (t = zero_time \<or> cutoff < t)))"

definition live_manifest :: "duration \<Rightarrow> instant \<Rightarrow> store \<Rightarrow> string \<Rightarrow> bool" where
  "live_manifest grace cutoff m k \<longleftrightarrow>
     (HasPrefix k ''manifests/'' \<and> HasSuffix k ''/manifest.json'' \<and> \<not> tombstoned grace cutoff m k) \<or>
     ((HasPrefix k ''wal/'' \<or> HasPrefix k ''logical/'') \<and> HasSuffix k ''.json'' \<and> \<not> isStaleTempKey k)"

definition referenced :: "duration \<Rightarrow> instant \<Rightarrow> store \<Rightarrow> Hash \<Rightarrow> bool" where
  "referenced grace cutoff m h \<longleftrightarrow>
     (\<exists>k b t. m k = Some (b, t) \<and> live_manifest grace cutoff m k \<and> h \<in> manifest_hashes k b)"

text \<open>The sizes the reference set and the streaming readers are built for.\<close>

definition bounded_store :: "store \<Rightarrow> bool" where
  "bounded_store m \<longleftrightarrow> finite (area_hashes m) \<and> card (area_hashes m) + 1 < 2 ^ 59 \<and> finite (dom m) \<and> card (dom m) + 1 < 2 ^ 59 \<and>
     (\<forall>k b t. m k = Some (b, t) \<longrightarrow> int (length b) < MaxStreamedMetadataBytes)"

lemma live_area: "live_manifest grace cutoff m k \<Longrightarrow> in_area k"
  by (auto simp: live_manifest_def in_area_def)

lemma referenced_area: "referenced grace cutoff (manifest_area m) h \<longleftrightarrow> referenced grace cutoff m h"
proof -
  have t: "tombstoned grace cutoff (manifest_area m) k = tombstoned grace cutoff m k" for k
    unfolding tombstoned_def manifest_area_def in_area_def by (auto split: if_splits)
  have l: "live_manifest grace cutoff (manifest_area m) k = live_manifest grace cutoff m k" for k
    by (simp add: live_manifest_def t)
  show ?thesis unfolding referenced_def l using live_area by (fastforce simp: manifest_area_def)
qed

lemma info_key_inj: "i \<in> stored_infos m \<Longrightarrow> j \<in> stored_infos m \<Longrightarrow> oi_Key i = oi_Key j \<Longrightarrow> i = j"
  by (cases i; cases j) (auto simp: stored_infos_def)

lemma card_stored_infos:
  assumes "finite (dom m)"
  shows "finite (stored_infos m) \<and> card (stored_infos m) \<le> card (dom m)"
proof -
  have i: "inj_on oi_Key (stored_infos m)" using info_key_inj by (auto simp: inj_on_def)
  have s: "oi_Key ` stored_infos m \<subseteq> dom m" by (auto simp: stored_infos_def)
  have "finite (stored_infos m)" using finite_imageD [OF finite_subset [OF s assms] i] .
  then show ?thesis using card_inj_on_le [OF i s assms] by blast
qed

subsection \<open>Adding references\<close>

lemma Add_bounded:
  assumes "hs_inv s" "hs_abs s \<subseteq> U" "finite U" "card U + 1 < 2 ^ 59" "k \<in> U" "Add k s = (b, s')"
  shows "hs_inv s' \<and> hs_abs s \<subseteq> hs_abs s' \<and> hs_abs s' \<subseteq> insert k (hs_abs s) \<and>
    (hs_err s' = None \<longrightarrow> hs_err s = None \<and> (k \<noteq> zero_hash \<longrightarrow> k \<in> hs_abs s'))"
proof -
  have "length (hs_keys s) \<le> card U" using card_keys [OF assms(1)] card_mono [OF assms(3,2)] by simp
  then show ?thesis using Add_any [OF assms(1) _ assms(6)] assms(4) by auto
qed

lemma harvest_visits:
  assumes "visits (harvest_visit key) hs refs = (None, refs')" "hs_inv refs" "hs_abs refs \<subseteq> U" "finite U" "card U + 1 < 2 ^ 59"
    "\<And>s h. s \<in> set hs \<Longrightarrow> parseHexHash s = Inr h \<Longrightarrow> h \<in> U"
  shows "hs_inv refs' \<and> hs_abs refs \<subseteq> hs_abs refs' \<and> hs_abs refs' \<subseteq> U \<and>
    (hs_err refs' = None \<longrightarrow> hs_err refs = None \<and> (\<forall>s h. s \<in> set hs \<longrightarrow> parseHexHash s = Inr h \<longrightarrow> h \<noteq> zero_hash \<longrightarrow> h \<in> hs_abs refs'))"
  using assms
proof (induction hs arbitrary: refs)
  case (Cons s hs)
  obtain h where h: "parseHexHash s = Inr h" using Cons(2) by (auto simp: harvest_visit_def split: sum.splits)
  define r1 where "r1 = RefSet_Add h refs"
  have v: "visits (harvest_visit key) hs r1 = (None, refs')" using Cons(2) h by (simp add: harvest_visit_def [of key s] r1_def)
  have hU: "h \<in> U" using Cons(7) [of s h] h by simp
  have a: "hs_inv r1 \<and> hs_abs refs \<subseteq> hs_abs r1 \<and> hs_abs r1 \<subseteq> insert h (hs_abs refs) \<and>
      (hs_err r1 = None \<longrightarrow> hs_err refs = None \<and> (h \<noteq> zero_hash \<longrightarrow> h \<in> hs_abs r1))"
    using Add_bounded [OF Cons(3,4,5,6) hU prod.collapse [symmetric]] by (simp add: r1_def RefSet_Add_def)
  have r1: "hs_abs r1 \<subseteq> U" using a hU Cons(4) by blast
  have ih: "hs_inv refs' \<and> hs_abs r1 \<subseteq> hs_abs refs' \<and> hs_abs refs' \<subseteq> U \<and> (hs_err refs' = None \<longrightarrow> hs_err r1 = None \<and>
      (\<forall>s h. s \<in> set hs \<longrightarrow> parseHexHash s = Inr h \<longrightarrow> h \<noteq> zero_hash \<longrightarrow> h \<in> hs_abs refs'))"
  proof (rule Cons(1) [OF v conjunct1 [OF a] r1 Cons(5,6)])
    show "h' \<in> U" if "s' \<in> set hs" "parseHexHash s' = Inr h'" for s' h' using Cons(7) [of s' h'] that by simp
  qed
  show ?case
  proof (intro conjI impI allI)
    show "hs_inv refs'" "hs_abs refs' \<subseteq> U" "hs_abs refs \<subseteq> hs_abs refs'" using ih a by auto
    assume e: "hs_err refs' = None"
    show "hs_err refs = None" using ih a e by blast
    fix s' h' assume "s' \<in> set (s # hs)" "parseHexHash s' = Inr h'" "h' \<noteq> zero_hash"
    then show "h' \<in> hs_abs refs'" using ih a e h by (cases "s' = s") auto
  qed
qed simp

subsection \<open>The snapshot\<close>

text \<open>
  \<open>C\<close> is the set of manifests harvested so far: their digests are the memo, their hashes are in the reference set as long as
  neither set has met an error. The all-zero hash is excepted, which a spilled set loses.
\<close>

definition set_ok :: "manifestSnapshot \<Rightarrow> bool" where
  "set_ok s \<longleftrightarrow> hs_err (ms_refs s) = None \<and> hs_err (ms_harvested s) = None"

definition info_hashes :: "store \<Rightarrow> ObjectInfo \<Rightarrow> Hash set" where
  "info_hashes m i = (case m (oi_Key i) of None \<Rightarrow> {} | Some (b, t) \<Rightarrow> manifest_hashes (oi_Key i) b)"

definition snap_inv :: "(bytes \<Rightarrow> Hash) \<Rightarrow> store \<Rightarrow> ObjectInfo set \<Rightarrow> manifestSnapshot \<Rightarrow> bool" where
  "snap_inv sha m C s \<longleftrightarrow> C \<subseteq> stored_infos m \<and> hs_inv (ms_refs s) \<and> hs_abs (ms_refs s) \<subseteq> area_hashes m \<and>
     hs_inv (ms_harvested s) \<and> hs_abs (ms_harvested s) \<subseteq> harvestDigest sha ` C \<and>
     (set_ok s \<longrightarrow> (\<forall>i \<in> C. \<forall>h \<in> info_hashes m i. h \<noteq> zero_hash \<longrightarrow> h \<in> hs_abs (ms_refs s)))"

text \<open>A step that harvests at least the manifests in \<open>I\<close>.\<close>

definition harvests :: "(bytes \<Rightarrow> Hash) \<Rightarrow> store \<Rightarrow> manifestSnapshot \<Rightarrow> manifestSnapshot \<Rightarrow> ObjectInfo set \<Rightarrow> bool" where
  "harvests sha m s s' I \<longleftrightarrow> (\<forall>C. snap_inv sha m C s \<longrightarrow>
     (\<exists>C'. C \<subseteq> C' \<and> snap_inv sha m C' s' \<and> (set_ok s' \<longrightarrow> set_ok s \<and> I \<subseteq> C')))"

lemma harvests_refl [simp]: "harvests sha m s s {}"
  by (auto simp: harvests_def)

lemma harvests_trans: "harvests sha m s s1 I \<Longrightarrow> harvests sha m s1 s2 J \<Longrightarrow> harvests sha m s s2 (I \<union> J)"
  unfolding harvests_def
proof (intro allI impI)
  fix C assume a: "\<forall>C. snap_inv sha m C s \<longrightarrow> (\<exists>C'. C \<subseteq> C' \<and> snap_inv sha m C' s1 \<and> (set_ok s1 \<longrightarrow> set_ok s \<and> I \<subseteq> C'))"
    "\<forall>C. snap_inv sha m C s1 \<longrightarrow> (\<exists>C'. C \<subseteq> C' \<and> snap_inv sha m C' s2 \<and> (set_ok s2 \<longrightarrow> set_ok s1 \<and> J \<subseteq> C'))" "snap_inv sha m C s"
  obtain C1 where c1: "C \<subseteq> C1" "snap_inv sha m C1 s1" "set_ok s1 \<longrightarrow> set_ok s \<and> I \<subseteq> C1" using a(1,3) by blast
  obtain C2 where c2: "C1 \<subseteq> C2" "snap_inv sha m C2 s2" "set_ok s2 \<longrightarrow> set_ok s1 \<and> J \<subseteq> C2" using a(2) c1(2) by blast
  show "\<exists>C'. C \<subseteq> C' \<and> snap_inv sha m C' s2 \<and> (set_ok s2 \<longrightarrow> set_ok s \<and> I \<union> J \<subseteq> C')"
    using c1 c2 by (intro exI [of _ C2]) blast
qed

lemma harvests_mono: "harvests sha m s s' I \<Longrightarrow> J \<subseteq> I \<Longrightarrow> harvests sha m s s' J"
  unfolding harvests_def by (meson subset_trans)

lemma harvests_upd [simp]:
  "harvests sha m s (s'\<lparr>ms_stale := x\<rparr>) I = harvests sha m s s' I"
proof -
  have a: "set_ok (s'\<lparr>ms_stale := x\<rparr>) = set_ok s'" by (simp add: set_ok_def)
  have b: "snap_inv sha m C (s'\<lparr>ms_stale := x\<rparr>) = snap_inv sha m C s'" for C unfolding snap_inv_def a by simp
  show ?thesis unfolding harvests_def a b by (rule refl)
qed

lemma fresh_harvests:
  assumes i: "i \<in> stored_infos m" and inj: "inj_on (harvestDigest sha) (stored_infos m)" and f: "fresh sha i s = (b, s')"
  shows "harvests sha m s s' (if b then {i} else {})"
proof -
  obtain h where h: "hs_Has (harvestDigest sha i) (ms_harvested s) = (b, h)" "s' = s\<lparr>ms_harvested := h\<rparr>"
    using f by (auto simp: fresh_def split: prod.splits)
  show ?thesis
    unfolding harvests_def
  proof (intro allI impI)
    fix C assume s: "snap_inv sha m C s"
    then have ok: "hs_keeps (ms_harvested s) h" "hs_err h = None \<longrightarrow> hs_err (ms_harvested s) = None \<and>
        (b \<longleftrightarrow> harvestDigest sha i \<in> hs_abs (ms_harvested s))"
      using Has_ok [OF _ h(1)] by (auto simp: snap_inv_def)
    have "snap_inv sha m C s'"
      using s ok keeps_inv [OF ok(1)] keeps_abs [OF ok(1)] by (auto simp: snap_inv_def set_ok_def h(2))
    moreover have "set_ok s' \<longrightarrow> set_ok s \<and> (b \<longrightarrow> i \<in> C)"
    proof
      assume e: "set_ok s'"
      then have e: "hs_err h = None" "hs_err (ms_refs s) = None" by (simp_all add: set_ok_def h(2))
      have "i \<in> C" if b
      proof -
        have "harvestDigest sha i \<in> hs_abs (ms_harvested s)" using ok(2) e(1) that by simp
        then obtain j where j: "j \<in> C" "harvestDigest sha j = harvestDigest sha i" using s by (fastforce simp: snap_inv_def)
        have "C \<subseteq> stored_infos m" using s by (simp add: snap_inv_def)
        then have "j = i" using j i inj_onD [OF inj j(2)] by blast
        then show ?thesis using j(1) by simp
      qed
      then show "set_ok s \<and> (b \<longrightarrow> i \<in> C)" using ok e by (auto simp: set_ok_def)
    qed
    ultimately show "\<exists>C'. C \<subseteq> C' \<and> snap_inv sha m C' s' \<and> (set_ok s' \<longrightarrow> set_ok s \<and> (if b then {i} else {}) \<subseteq> C')"
      by (intro exI [of _ C]) auto
  qed
qed

text \<open>Recording a manifest whose references have been added.\<close>

lemma record_harvests:
  assumes i: "i \<in> stored_infos m" and bd: "bounded_store m"
    and v: "hs_inv (ms_refs s) \<Longrightarrow> hs_abs (ms_refs s) \<subseteq> area_hashes m \<Longrightarrow>
      hs_inv refs \<and> hs_abs (ms_refs s) \<subseteq> hs_abs refs \<and> hs_abs refs \<subseteq> area_hashes m \<and>
      (hs_err refs = None \<longrightarrow> hs_err (ms_refs s) = None \<and> (\<forall>h \<in> info_hashes m i. h \<noteq> zero_hash \<longrightarrow> h \<in> hs_abs refs))"
  shows "harvests sha m s (s\<lparr>ms_refs := refs, ms_harvested := snd (Add (harvestDigest sha i) (ms_harvested s))\<rparr>) {i}"
    (is "harvests sha m s ?s' {i}")
  unfolding harvests_def
proof (intro allI impI)
  fix C assume s: "snap_inv sha m C s"
  let ?D = "harvestDigest sha ` stored_infos m" and ?H = "ms_harvested s" and ?k = "harvestDigest sha i"
  have fin: "finite ?D" "card ?D + 1 < 2 ^ 59"
    using card_stored_infos [of m] bd card_image_le [of "stored_infos m" "harvestDigest sha"] by (auto simp: bounded_store_def)
  have C: "hs_inv ?H" "hs_abs ?H \<subseteq> harvestDigest sha ` C" "C \<subseteq> stored_infos m" using s by (auto simp: snap_inv_def)
  have a: "hs_inv (snd (Add ?k ?H))" "hs_abs (snd (Add ?k ?H)) \<subseteq> insert ?k (hs_abs ?H)"
    "hs_err (snd (Add ?k ?H)) = None \<longrightarrow> hs_err ?H = None"
    using Add_bounded [OF C(1) _ fin _ prod.collapse [symmetric], of ?k] C(2,3) i by blast+
  have r: "hs_inv refs \<and> hs_abs (ms_refs s) \<subseteq> hs_abs refs \<and> hs_abs refs \<subseteq> area_hashes m \<and>
      (hs_err refs = None \<longrightarrow> hs_err (ms_refs s) = None \<and> (\<forall>h \<in> info_hashes m i. h \<noteq> zero_hash \<longrightarrow> h \<in> hs_abs refs))"
    by (rule v) (use s in \<open>auto simp: snap_inv_def\<close>)
  have ok: "set_ok ?s' \<Longrightarrow> set_ok s" using a(3) r by (auto simp: set_ok_def)
  have "snap_inv sha m (insert i C) ?s'"
    unfolding snap_inv_def
  proof (intro conjI impI ballI)
    fix j h assume "set_ok ?s'" "j \<in> insert i C" "h \<in> info_hashes m j" "h \<noteq> zero_hash"
    then show "h \<in> hs_abs (ms_refs ?s')" using r ok s by (auto simp: snap_inv_def set_ok_def)
  qed (use i C a r s in \<open>auto simp: snap_inv_def\<close>)
  then show "\<exists>C'. C \<subseteq> C' \<and> snap_inv sha m C' ?s' \<and> (set_ok ?s' \<longrightarrow> set_ok s \<and> {i} \<subseteq> C')"
    using ok by (intro exI [of _ "insert i C"]) auto
qed

end
