(* ===== verification/GcStore.thy ===== *)
theory GcStore
  imports GcRefs
begin

text \<open>
  What a scan of the manifests reads, proved from the storage contract. The locale \<open>gc_store\<close> adds to \<open>runtime_store\<close> what
  a collection relies on beyond it: the keys a listing yields are files below the listed directory and may be read and
  deleted (\<open>okfile\<close>), those with the extension of an object are objects, a reader that fails has delivered a prefix of the
  object, and pruning and reaping leave the objects alone.
\<close>

definition gc_dirs :: "string set" where
  "gc_dirs = {''manifests'', ''wal'', ''logical'', ''chunks/sha256'', ''gc/runs'', ''gc/pins''}"

definition object_name :: "string \<Rightarrow> bool" where
  "object_name k \<longleftrightarrow> HasSuffix k ''.json'' \<or> HasSuffix k ''.json.tombstone'' \<or> HasSuffix k ''.chk''"

subsection \<open>Generic loops\<close>

lemma range_infos_rel:
  assumes step: "\<And>i s w s1 w1. i \<in> set is \<Longrightarrow> A w \<Longrightarrow> body i s w = (None, s1, w1) \<Longrightarrow> A w1 \<and> R s s1 (J i)"
    and refl: "\<And>s. R s s {}" and trans: "\<And>a b c I K. R a b I \<Longrightarrow> R b c K \<Longrightarrow> R a c (I \<union> K)"
    and "A w" "range_infos body is s w = (None, s', w')"
  shows "A w' \<and> R s s' (\<Union> (J ` set is))"
  using step assms(4,5)
proof (induction "is" arbitrary: s w)
  case (Cons i "is")
  obtain s1 w1 where b: "body i s w = (None, s1, w1)" "range_infos body is s1 w1 = (None, s', w')"
    using Cons(4) by (auto split: prod.splits option.splits)
  have "A w1" "R s s1 (J i)" using Cons(2) [OF _ Cons(3) b(1)] Cons(3) b(1) by auto
  moreover have "A w' \<and> R s1 s' (\<Union> (J ` set is))"
    by (rule Cons(1) [OF _ \<open>A w1\<close> b(2)]) (rule Cons(2), auto)
  ultimately show ?case using trans by simp
qed (use refl in simp)

lemma range_infos_inv:
  assumes "\<And>i s w e s1 w1. i \<in> set is \<Longrightarrow> Q s w \<Longrightarrow> body i s w = (e, s1, w1) \<Longrightarrow> Q s1 w1"
    "Q s w" "range_infos body is s w = (e, s', w')"
  shows "Q s' w'"
  using assms
proof (induction "is" arbitrary: s w)
  case (Cons i "is")
  obtain e1 s1 w1 where b: "body i s w = (e1, s1, w1)" by (metis prod.exhaust)
  have q: "Q s1 w1" by (rule Cons(2) [OF _ Cons(3) b]) simp
  have "Q s' w'" if "range_infos body is s1 w1 = (e, s', w')"
    by (rule Cons(1) [OF _ q that]) (rule Cons(2), auto)
  then show ?case using Cons(4) b q by (cases e1) auto
qed simp

lemma range_fold:
  assumes "range_infos (ctx_checked rt ctx (\<lambda>i acc w. (None, f i acc, w))) is acc w = (None, acc', w')"
  shows "acc' = fold f is acc"
  using assms by (induction "is" arbitrary: acc w) (auto simp: ctx_checked_def split: prod.splits option.splits)

subsection \<open>The first pass\<close>

definition expired_tombstone :: "duration \<Rightarrow> instant \<Rightarrow> ObjectInfo \<Rightarrow> bool" where
  "expired_tombstone grace cutoff i \<longleftrightarrow> HasSuffix (oi_Key i) ''/manifest.json.tombstone'' \<and>
     \<not> (grace > 0 \<and> (oi_ModTime i = zero_time \<or> oi_ModTime i > cutoff)) \<and> 4 \<le> length (Split CHR ''/'' (oi_Key i))"

definition stale_info :: "manifestSnapshot \<Rightarrow> ObjectInfo \<Rightarrow> bool" where
  "stale_info s i \<longleftrightarrow> isStaleTempKey (oi_Key i) \<and> isStaleAged s i"

lemma suffix_disjoint: "HasSuffix k ''/manifest.json'' \<Longrightarrow> \<not> HasSuffix k ''/manifest.json.tombstone''"
  by (auto simp: HasSuffix_iff)

lemma classify_fold:
  assumes "fold (classify s grace cutoff cs) is (st, tb, bk) = (st', tb', bk')"
  shows "set st' \<subseteq> set st \<union> oi_Key ` {i \<in> set is. stale_info s i} \<and>
    set tb' = set tb \<union> (tombstone_id \<circ> oi_Key) ` {i \<in> set is. expired_tombstone grace cutoff i} \<and>
    set bk' = set bk \<union> {i \<in> set is. HasSuffix (oi_Key i) ''/manifest.json''}"
  using assms
proof (induction "is" arbitrary: st tb bk)
  case (Cons i "is")
  obtain st1 tb1 bk1 where c: "classify s grace cutoff cs i (st, tb, bk) = (st1, tb1, bk1)" by (metis prod.exhaust)
  note ih = Cons(1) [of st1 tb1 bk1]
  have f: "fold (classify s grace cutoff cs) is (st1, tb1, bk1) = (st', tb', bk')" using Cons(2) c by simp
  have c: "set st1 \<subseteq> set st \<union> (if stale_info s i then {oi_Key i} else {})"
    "set tb1 = set tb \<union> (if expired_tombstone grace cutoff i then {tombstone_id (oi_Key i)} else {})"
    "set bk1 = set bk \<union> (if HasSuffix (oi_Key i) ''/manifest.json'' then {i} else {})"
    using c suffix_disjoint [of "oi_Key i"]
    by (auto simp: classify_def stale_info_def expired_tombstone_def split: if_splits)
  have st: "set st' \<subseteq> set st \<union> oi_Key ` {j \<in> set (i # is). stale_info s j}"
    using ih [OF f] c(1) by (cases "stale_info s i") (auto 4 3)
  show ?case using ih [OF f] c(2,3) by (intro conjI st) auto
qed simp

subsection \<open>The contract of a collection\<close>

text \<open>Snapshots that differ only in their sets.\<close>

definition frames :: "manifestSnapshot \<Rightarrow> manifestSnapshot \<Rightarrow> bool" where
  "frames s s' \<longleftrightarrow> ms_opts s' = ms_opts s \<and> ms_minAge s' = ms_minAge s \<and> ms_ageCutoff s' = ms_ageCutoff s \<and> ms_stale s' = ms_stale s"

definition snap_step :: "(bytes \<Rightarrow> Hash) \<Rightarrow> store \<Rightarrow> manifestSnapshot \<Rightarrow> manifestSnapshot \<Rightarrow> ObjectInfo set \<Rightarrow> bool" where
  "snap_step sha m s s' I \<longleftrightarrow> frames s s' \<and> harvests sha m s s' I"

lemma snap_step_refl: "snap_step sha m s s {}"
  by (simp add: snap_step_def frames_def)

lemma snap_step_trans: "snap_step sha m a b I \<Longrightarrow> snap_step sha m b c K \<Longrightarrow> snap_step sha m a c (I \<union> K)"
  using harvests_trans by (auto simp: snap_step_def frames_def)

lemma snap_step_mono: "snap_step sha m s s' I \<Longrightarrow> J \<subseteq> I \<Longrightarrow> snap_step sha m s s' J"
  using harvests_mono by (auto simp: snap_step_def)

lemma fresh_step:
  assumes "i \<in> stored_infos m" "inj_on (harvestDigest sha) (stored_infos m)" "fresh sha i s = (b, s')"
  shows "snap_step sha m s s' (if b then {i} else {})"
  using fresh_harvests [OF assms] assms(3) by (auto simp: snap_step_def frames_def fresh_def split: prod.splits)

text \<open>The manifests a scan has to read.\<close>

definition live_infos :: "duration \<Rightarrow> instant \<Rightarrow> store \<Rightarrow> ObjectInfo set" where
  "live_infos grace cutoff m = {i \<in> stored_infos m. live_manifest grace cutoff m (oi_Key i)}"

definition readable :: "(bytes \<Rightarrow> Hash) \<Rightarrow> store \<Rightarrow> bool" where
  "readable sha m \<longleftrightarrow> bounded_store m \<and> inj_on (harvestDigest sha) (stored_infos m)"

locale gc_store = runtime_store sp good okkey objs pend rt
  for sp :: "'w StoragePlugin" and good okkey objs pend and rt :: "'w runtime" +
  fixes okfile :: "string \<Rightarrow> bool"
  assumes objs_okkey: "objs w k \<noteq> None \<Longrightarrow> okkey k"
    and chunk_okkey: "okkey (ChunkKey h)"
    and run_okkey: "CHR ''/'' \<notin> set r \<Longrightarrow> CHR ''.'' \<notin> set r \<Longrightarrow> okkey (gcRunsPrefix @ r @ ''.json'')"
    and get_file: "good w \<Longrightarrow> okfile k \<Longrightarrow> sp_Get sp ctx k w = (r', w') \<Longrightarrow> good w' \<and> objs w' = objs w"
    and get_prefix: "good w \<Longrightarrow> okkey k \<Longrightarrow> sp_Get sp ctx k w = (Inr rc, w') \<Longrightarrow>
      \<exists>b t n. objs w k = Some (b, t) \<and> rd_data rc = take n b"
    and delete_file: "good w \<Longrightarrow> okfile k \<Longrightarrow> sp_Delete sp ctx k w = (e', w') \<Longrightarrow>
      good w' \<and> (objs w' = objs w \<or> objs w' = (objs w)(k := None))"
    and list_file: "good w \<Longrightarrow> d \<in> gc_dirs \<Longrightarrow> sp_List sp ctx (d @ ''/'') w = ((is, e'), w') \<Longrightarrow> i \<in> set is \<Longrightarrow>
      okfile (oi_Key i) \<and> (object_name (oi_Key i) \<longrightarrow> okkey (oi_Key i)) \<and> (oi_Key i = d \<or> HasPrefix (oi_Key i) (d @ ''/''))"
    and prune_state: "good w \<Longrightarrow> d \<in> {''chunks'', ''manifests'', ''wal'', ''logical''} \<Longrightarrow>
      PruneEmptyDirsOf sp ctx d b w = (pr, w') \<Longrightarrow> good w' \<and> objs w' = objs w"
    and reap_state: "good w \<Longrightarrow> ReapStagingOf sp ctx age w = (st, w') \<Longrightarrow> good w' \<and> objs w' = objs w"
begin

definition kept :: "'w \<Rightarrow> 'w \<Rightarrow> bool" where
  "kept w w' \<longleftrightarrow> (good w \<longrightarrow> good w' \<and> objs w' = objs w)"

lemma kept_refl [simp]: "kept w w"
  by (simp add: kept_def)

lemma kept_trans: "kept w w1 \<Longrightarrow> kept w1 w2 \<Longrightarrow> kept w w2"
  by (simp add: kept_def)

lemma kept_ops:
  "rt_Now rt w = (t, w') \<Longrightarrow> kept w w'" "rt_CtxErr rt ctx w = (ce, w') \<Longrightarrow> kept w w'" "rt_Rand rt n w = (b, w') \<Longrightarrow> kept w w'"
  "rt_Sleep rt ctx d w = (se, w') \<Longrightarrow> kept w w'" "sp_List sp ctx p w = (lr, w') \<Longrightarrow> kept w w'"
  "okfile k \<Longrightarrow> sp_Get sp ctx k w = (gr, w') \<Longrightarrow> kept w w'"
  unfolding kept_def
  subgoal by (rule impI, drule (1) now_state) simp
  subgoal by (rule impI, drule (1) ctx_state) simp
  subgoal by (rule impI, drule (1) rand_state) simp
  subgoal by (rule impI, drule (1) sleep_state) simp
  subgoal by (rule impI, drule (1) list_state) simp
  subgoal by (rule impI, drule (2) get_file) simp
  done

text \<open>A world whose manifests are \<open>m\<close>.\<close>

definition at :: "store \<Rightarrow> 'w \<Rightarrow> bool" where
  "at m w \<longleftrightarrow> good w \<and> manifest_area (objs w) = m"

lemma at_kept: "at m w \<Longrightarrow> kept w w' \<Longrightarrow> at m w'"
  by (auto simp: at_def kept_def)

lemma harvest_kept: "okfile key \<Longrightarrow> harvestManifest sp ctx key kind refs w = (e, refs', w') \<Longrightarrow> kept w w'"
proof -
  assume f: "okfile key" and h: "harvestManifest sp ctx key kind refs w = (e, refs', w')"
  obtain r w1 where g: "sp_Get sp ctx key w = (r, w1)" by fastforce
  have "w' = w1" using h unfolding harvestManifest_def g prod.case by (cases r) (simp_all split: prod.splits)
  then show ?thesis using kept_ops(6) [OF f g] by simp
qed

lemma harvest_refs:
  assumes w: "at m w" and i: "i \<in> stored_infos m" and bd: "bounded_store m"
    and kind: "kind = harvestBackup \<longleftrightarrow> HasPrefix (oi_Key i) ''manifests/''"
    and h: "harvestManifest sp ctx (oi_Key i) kind refs w = (None, refs', w')" and inv: "hs_inv refs" "hs_abs refs \<subseteq> area_hashes m"
  shows "hs_inv refs' \<and> hs_abs refs \<subseteq> hs_abs refs' \<and> hs_abs refs' \<subseteq> area_hashes m \<and>
    (hs_err refs' = None \<longrightarrow> hs_err refs = None \<and> (\<forall>h \<in> info_hashes m i. h \<noteq> zero_hash \<longrightarrow> h \<in> hs_abs refs'))"
proof -
  let ?key = "oi_Key i"
  obtain b where b: "m ?key = Some (b, oi_ModTime i)" using i by (auto simp: stored_infos_def)
  then have ob: "objs w ?key = Some (b, oi_ModTime i)" using w by (auto simp: at_def manifest_area_def split: if_splits)
  then have k: "okkey ?key" using objs_okkey by blast
  have g: "good w" using w by (simp add: at_def)
  have len: "int (length b) < MaxStreamedMetadataBytes" using bd b unfolding bounded_store_def by blast
  obtain r w1 where gt: "sp_Get sp ctx ?key w = (r, w1)" by fastforce
  have "r \<noteq> Inl err" for err using h gt get_missing [OF g k, of ctx err w1] ob by (auto simp: harvestManifest_def split: if_splits)
  then obtain rc where rc: "r = Inr rc" by (cases r) auto
  obtain n where n: "rd_data rc = take n b" using get_prefix [OF g k gt [unfolded rc]] ob by auto
  then obtain re where rc': "rc = \<lparr>rd_data = take n b, rd_err = re\<rparr>" by (cases rc) simp
  note h = h [unfolded harvestManifest_def gt rc prod.case sum.case]
  obtain hs where hs: "snd (case kind of harvestBackup \<Rightarrow> backup_refs b | harvestWAL \<Rightarrow> segment_refs b) = hs"
      "visits (harvest_visit ?key) hs refs = (None, refs')"
  proof (cases kind)
    case harvestBackup
    then have "streamBackupChunkRefs rc (harvest_visit ?key) refs = (None, refs')" using h by (auto split: prod.splits)
    from streamBackup_refs [OF streamBackup_prefix [OF len this [unfolded rc']]] obtain hs where
      "backup_refs b = (None, hs)" "visits (harvest_visit ?key) hs refs = (None, refs')" by blast
    then show thesis using that harvestBackup by simp
  next
    case harvestWAL
    then have "streamSegmentChunkRefs rc (harvest_visit ?key) refs = (None, refs')" using h by (auto split: prod.splits)
    from streamSegment_refs [OF streamSegment_prefix [OF len this [unfolded rc']]] obtain hs where
      "segment_refs b = (None, hs)" "visits (harvest_visit ?key) hs refs = (None, refs')" by blast
    then show thesis using that harvestWAL by simp
  qed
  have mh: "manifest_hashes ?key b = {x. \<exists>s \<in> set hs. parseHexHash s = Inr x}"
    using hs(1) kind by (cases kind) (auto simp: manifest_hashes_def backup_hashes_def segment_hashes_def)
  then have sub: "s \<in> set hs \<Longrightarrow> parseHexHash s = Inr x \<Longrightarrow> x \<in> area_hashes m" for s x using b by (auto simp: area_hashes_def)
  have ih: "info_hashes m i = {x. \<exists>s \<in> set hs. parseHexHash s = Inr x}" using b mh by (simp add: info_hashes_def)
  note bd = bd [unfolded bounded_store_def]
  have "hs_inv refs' \<and> hs_abs refs \<subseteq> hs_abs refs' \<and> hs_abs refs' \<subseteq> area_hashes m \<and> (hs_err refs' = None \<longrightarrow> hs_err refs = None \<and>
      (\<forall>s h. s \<in> set hs \<longrightarrow> parseHexHash s = Inr h \<longrightarrow> h \<noteq> zero_hash \<longrightarrow> h \<in> hs_abs refs'))"
    by (rule harvest_visits [OF hs(2) inv conjunct1 [OF bd] conjunct1 [OF conjunct2 [OF bd]]]) (rule sub)
  then show ?thesis unfolding ih by blast
qed

lemma job_step:
  assumes w: "at m w" and i: "i \<in> stored_infos m" and r: "readable sha m"
    and kind: "kind = harvestBackup \<longleftrightarrow> HasPrefix (oi_Key i) ''manifests/''"
    and j: "harvest_job sha rt sp ctx kind i s w = (None, s', w')"
  shows "snap_step sha m s s' {i}"
proof -
  have bd: "bounded_store m" using r by (simp add: readable_def)
  obtain w1 refs w2 where c: "rt_CtxErr rt ctx w = (None, w1)" "harvestManifest sp ctx (oi_Key i) kind (ms_refs s) w1 = (None, refs, w2)"
    "s' = s\<lparr>ms_refs := refs, ms_harvested := snd (Add (harvestDigest sha i) (ms_harvested s))\<rparr>"
    using j unfolding harvest_job_def by (auto split: prod.splits option.splits)
  have "at m w1" using at_kept [OF w kept_ops(2) [OF c(1)]] .
  note hr = harvest_refs [OF this i bd kind c(2)]
  show ?thesis unfolding snap_step_def c(3) by (intro conjI record_harvests [OF i bd hr]) (simp_all add: frames_def)
qed

lemma job_kept: "okfile (oi_Key i) \<Longrightarrow> harvest_job sha rt sp ctx kind i s w = (e, s', w') \<Longrightarrow> kept w w'"
proof -
  assume f: "okfile (oi_Key i)" and j: "harvest_job sha rt sp ctx kind i s w = (e, s', w')"
  obtain ce w1 where c: "rt_CtxErr rt ctx w = (ce, w1)" by fastforce
  obtain he refs w2 where h: "harvestManifest sp ctx (oi_Key i) kind (ms_refs s) w1 = (he, refs, w2)" by (metis prod.exhaust)
  note k = kept_ops(2) [OF c] kept_trans [OF kept_ops(2) [OF c] harvest_kept [OF f h]]
  show ?thesis using j k unfolding harvest_job_def c prod.case h by (cases ce; cases he) simp_all
qed

lemma backup_kept:
  assumes "okfile (oi_Key i)" "dispatch_backup sha rt sp ctx tb i s w = (e, s', w')"
  shows "kept w w'"
proof -
  obtain b s1 where f: "fresh sha i s = (b, s1)" by fastforce
  show ?thesis using assms(2) job_kept [OF assms(1)] unfolding dispatch_backup_def f
    by (cases b) (auto split: if_splits)
qed

lemma backup_step:
  assumes w: "at m w" and i: "i \<in> stored_infos m" "HasPrefix (oi_Key i) ''manifests/''" and r: "readable sha m"
    and d: "dispatch_backup sha rt sp ctx tb i s w = (None, s', w')"
  shows "snap_step sha m s s' (if 5 \<le> length (Split CHR ''/'' (oi_Key i)) \<and> tombstone_id (oi_Key i) \<in> set tb then {} else {i})"
proof -
  obtain b s1 where f: "fresh sha i s = (b, s1)" by fastforce
  have inj: "inj_on (harvestDigest sha) (stored_infos m)" using r by (simp add: readable_def)
  note fs = fresh_step [OF i(1) inj f]
  note d = d [unfolded dispatch_backup_def f prod.case]
  show ?thesis
  proof (cases "5 \<le> length (Split CHR ''/'' (oi_Key i)) \<and> tombstone_id (oi_Key i) \<in> set tb")
    case True
    then show ?thesis using d snap_step_refl by simp
  next
    case False
    then show ?thesis using d fs snap_step_trans [OF fs job_step [OF w i(1) r]] i(2) by (cases b) auto
  qed
qed

text \<open>The state of a segment listing: stale keys found and the snapshot.\<close>

definition seg_step :: "(bytes \<Rightarrow> Hash) \<Rightarrow> store \<Rightarrow> ObjectInfo set \<Rightarrow> string list \<times> manifestSnapshot \<Rightarrow> string list \<times> manifestSnapshot \<Rightarrow>
    ObjectInfo set \<Rightarrow> bool" where
  "seg_step sha m L a b I \<longleftrightarrow> snap_step sha m (snd a) (snd b) I \<and> set (fst b) \<subseteq> set (fst a) \<union> oi_Key ` {i \<in> L. stale_info (snd a) i}"

lemma seg_step_refl: "seg_step sha m L a a {}"
  by (simp add: seg_step_def snap_step_refl)

lemma seg_step_trans: "seg_step sha m L a b I \<Longrightarrow> seg_step sha m L b c K \<Longrightarrow> seg_step sha m L a c (I \<union> K)"
proof -
  assume a: "seg_step sha m L a b I" "seg_step sha m L b c K"
  then have "stale_info (snd b) i = stale_info (snd a) i" for i
    by (auto simp: seg_step_def snap_step_def frames_def stale_info_def isStaleAged_def)
  then show ?thesis using a snap_step_trans unfolding seg_step_def by blast
qed

lemma segment_kept:
  assumes "okfile (oi_Key i)" "ctx_checked rt ctx (dispatch_segment sha rt sp ctx ws) i a w = (e, b, w')"
  shows "kept w w'"
proof -
  obtain ce w1 where c: "rt_CtxErr rt ctx w = (ce, w1)" by fastforce
  obtain st s where a: "a = (st, s)" by fastforce
  obtain fb s1 where f: "fresh sha i s = (fb, s1)" by fastforce
  obtain je s2 w2 where j: "harvest_job sha rt sp ctx harvestWAL i s1 w1 = (je, s2, w2)" by (metis prod.exhaust)
  note k = kept_ops(2) [OF c] kept_trans [OF kept_ops(2) [OF c] job_kept [OF assms(1) j]]
  show ?thesis using assms(2) k unfolding ctx_checked_def c prod.case dispatch_segment_def a f j
    by (cases ce; cases fb) (auto split: if_splits)
qed

lemma segment_step:
  assumes w: "at m w" and i: "HasSuffix (oi_Key i) ''.json'' \<longrightarrow> i \<in> stored_infos m" "\<not> HasPrefix (oi_Key i) ''manifests/''" "i \<in> L"
    and r: "readable sha m" and d: "ctx_checked rt ctx (dispatch_segment sha rt sp ctx ws) i a w = (None, b, w')"
  shows "seg_step sha m L a b (if isStaleTempKey (oi_Key i) \<or> \<not> HasSuffix (oi_Key i) ''.json'' then {} else {i})"
proof -
  obtain w1 where c: "rt_CtxErr rt ctx w = (None, w1)" using d by (auto simp: ctx_checked_def split: prod.splits option.splits)
  have w1: "at m w1" using at_kept [OF w kept_ops(2) [OF c]] .
  obtain st s where a: "a = (st, s)" by fastforce
  obtain fb s1 where f: "fresh sha i s = (fb, s1)" by fastforce
  note d = d [unfolded ctx_checked_def c prod.case option.case dispatch_segment_def a f]
  have inj: "inj_on (harvestDigest sha) (stored_infos m)" using r by (simp add: readable_def)
  show ?thesis
  proof (cases "isStaleTempKey (oi_Key i) \<or> \<not> HasSuffix (oi_Key i) ''.json''")
    case True
    then show ?thesis using d i(3) by (auto simp: seg_step_def snap_step_refl stale_info_def a split: if_splits)
  next
    case False
    then have si: "i \<in> stored_infos m" using i(1) by simp
    note fs = fresh_step [OF si inj f]
    show ?thesis
    proof (cases fb)
      case True
      then show ?thesis using False d fs by (auto simp: seg_step_def a)
    next
      case nf: False
      obtain je s2 w2 where j: "harvest_job sha rt sp ctx harvestWAL i s1 w1 = (je, s2, w2)" by (metis prod.exhaust)
      have e: "je = None" "b = (st, s2)" using d False nf j by auto
      have "snap_step sha m s1 s2 {i}" by (rule job_step [OF w1 si r _ j [unfolded e(1)]]) (simp add: i(2))
      then show ?thesis using False nf snap_step_trans [OF fs] e(2) by (simp add: seg_step_def a)
    qed
  qed
qed

subsection \<open>A whole scan\<close>

lemma range_listD: "range_list sp ctx p body s w = (None, s', w') \<Longrightarrow>
    \<exists>is w1. sp_List sp ctx p w = ((is, None), w1) \<and> range_infos body is s w1 = (None, s', w')"
  by (auto simp: range_list_def split: prod.splits option.splits)

lemma range_list_kept:
  assumes d: "d \<in> gc_dirs" and b: "\<And>i s w e s1 w1. okfile (oi_Key i) \<Longrightarrow> body i s w = (e, s1, w1) \<Longrightarrow> kept w w1"
    and l: "range_list sp ctx (d @ ''/'') body s w = (e, s', w')"
  shows "kept w w'"
proof (cases "good w")
  case True
  obtain "is" le w1 where li: "sp_List sp ctx (d @ ''/'') w = ((is, le), w1)" by (metis prod.exhaust)
  obtain e2 s2 w2 where r: "range_infos body is s w1 = (e2, s2, w2)" by (metis prod.exhaust)
  have w': "w' = w2" using l li r unfolding range_list_def by (cases e2) simp_all
  have "kept w w2"
  proof (rule range_infos_inv [OF _ _ r, where Q = "\<lambda>s v. kept w v"])
    show "kept w w1" by (rule kept_ops(5) [OF li])
    fix i s v e s1 v1 assume "i \<in> set is" "kept w v" "body i s v = (e, s1, v1)"
    then show "kept w v1" using b [of i s v e s1 v1] list_file [OF True d li, of i] kept_trans by blast
  qed
  then show ?thesis using w' by simp
qed (simp add: kept_def)

lemma listed_stored:
  assumes "at m w" "d \<in> {''manifests'', ''wal'', ''logical''}" "sp_List sp ctx (d @ ''/'') w = ((is, e), w')" "i \<in> set is"
  shows "okfile (oi_Key i) \<and> (okkey (oi_Key i) \<longrightarrow> HasPrefix (oi_Key i) (d @ ''/'') \<longrightarrow> i \<in> stored_infos m) \<and>
    (object_name (oi_Key i) \<longrightarrow> HasPrefix (oi_Key i) (d @ ''/'') \<and> i \<in> stored_infos m)"
proof -
  have g: "good w" "d \<in> gc_dirs" using assms(1,2) by (auto simp: at_def gc_dirs_def)
  note l = list_file [OF g assms(3,4)]
  have "\<not> object_name d" using assms(2) by (auto simp: object_name_def HasSuffix_def)
  moreover have s: "i \<in> stored_infos m" if "okkey (oi_Key i)" "HasPrefix (oi_Key i) (d @ ''/'')"
  proof -
    have "in_area (oi_Key i)" using that(2) assms(2) by (auto simp: in_area_def)
    then show ?thesis using list_sound [OF g(1) assms(3,4) that(1)] assms(1) by (auto simp: at_def stored_infos_def manifest_area_def)
  qed
  ultimately show ?thesis using l by auto
qed

lemma listed_complete:
  assumes w: "at m w" and d: "d \<in> {''manifests'', ''wal'', ''logical''}" and l: "sp_List sp ctx (d @ ''/'') w = ((is, None), w')"
    and i: "i \<in> stored_infos m" "HasPrefix (oi_Key i) (d @ ''/'')" "object_name (oi_Key i)"
  shows "i \<in> set is"
proof -
  have g: "good w" using w by (simp add: at_def)
  have o: "objs w (oi_Key i) \<noteq> None" using i(1) w by (auto simp: stored_infos_def at_def manifest_area_def split: if_splits)
  obtain j where j: "j \<in> set is" "oi_Key j = oi_Key i" using list_complete [OF g l objs_okkey [OF o] i(2) o] by blast
  then have "j \<in> stored_infos m" using listed_stored [OF w d l j(1)] i(3) by simp
  then show ?thesis using info_key_inj [OF _ i(1) j(2)] j(1) by simp
qed

text \<open>A stale temporary the scan may offer for deletion.\<close>

definition stale_key :: "store \<Rightarrow> duration \<Rightarrow> instant \<Rightarrow> string \<Rightarrow> bool" where
  "stale_key m minAge cutoff k \<longleftrightarrow> isStaleTempKey k \<and> okfile k \<and> in_area k \<and>
     (\<forall>b t. m k = Some (b, t) \<longrightarrow> minAge \<le> 0 \<or> t \<noteq> zero_time \<and> t \<le> cutoff)"

lemma stale_listed:
  assumes "at m w" "d \<in> {''manifests'', ''wal'', ''logical''}" "sp_List sp ctx (d @ ''/'') w = ((is, e), w')" "i \<in> set is" "stale_info s i"
  shows "stale_key m (ms_minAge s) (ms_ageCutoff s) (oi_Key i)"
proof -
  have "\<not> isStaleTempKey d" using assms(2) by (elim insertE emptyE) (simp only:, code_simp)+
  then have "oi_Key i \<noteq> d" using assms(5) by (auto simp: stale_info_def)
  moreover have "d \<in> gc_dirs" using assms(2) by (auto simp: gc_dirs_def)
  ultimately have pre: "HasPrefix (oi_Key i) (d @ ''/'')" using list_file [OF _ _ assms(3,4)] assms(1) by (auto simp: at_def)
  then have area: "in_area (oi_Key i)" using assms(2) by (auto simp: in_area_def)
  have "i \<in> stored_infos m" if "m (oi_Key i) \<noteq> None"
  proof -
    have "objs w (oi_Key i) \<noteq> None" using that assms(1) by (auto simp: at_def manifest_area_def split: if_splits)
    then show ?thesis using listed_stored [OF assms(1-4)] objs_okkey pre by simp
  qed
  then have "m (oi_Key i) = Some (b, t) \<Longrightarrow> t = oi_ModTime i" for b t by (auto simp: stored_infos_def)
  then show ?thesis using assms(5) listed_stored [OF assms(1-4)] area
    by (auto simp: stale_key_def stale_info_def isStaleAged_def split: if_splits)
qed

lemma segments_pass:
  assumes w: "at m w" and d: "d \<in> {''wal'', ''logical''}" and r: "readable sha m"
    and l: "range_list sp ctx (d @ ''/'') (ctx_checked rt ctx (dispatch_segment sha rt sp ctx ws)) (st, s) w = (None, (st', s'), w')"
  shows "at m w' \<and> snap_step sha m s s' {i \<in> stored_infos m. HasPrefix (oi_Key i) (d @ ''/'') \<and> HasSuffix (oi_Key i) ''.json'' \<and>
      \<not> isStaleTempKey (oi_Key i)} \<and> (\<forall>k \<in> set st'. k \<in> set st \<or> stale_key m (ms_minAge s) (ms_ageCutoff s) k)"
proof -
  let ?J = "\<lambda>i. if isStaleTempKey (oi_Key i) \<or> \<not> HasSuffix (oi_Key i) ''.json'' then {} else {i}"
  have dd: "d \<in> {''manifests'', ''wal'', ''logical''}" "d \<in> gc_dirs" using d by (auto simp: gc_dirs_def)
  obtain "is" w1 where li: "sp_List sp ctx (d @ ''/'') w = ((is, None), w1)"
    and ri: "range_infos (ctx_checked rt ctx (dispatch_segment sha rt sp ctx ws)) is (st, s) w1 = (None, (st', s'), w')"
    using range_listD [OF l] by blast
  have w1: "at m w1" using at_kept [OF w kept_ops(5) [OF li]] .
  have st: "at m v1 \<and> seg_step sha m (set is) a b (?J i)"
    if i: "i \<in> set is" and v: "at m v" and c: "ctx_checked rt ctx (dispatch_segment sha rt sp ctx ws) i a v = (None, b, v1)" for i a v b v1
  proof -
    have f: "okfile (oi_Key i)" "HasSuffix (oi_Key i) ''.json'' \<longrightarrow> i \<in> stored_infos m"
      using listed_stored [OF w dd(1) li i] by (auto simp: object_name_def)
    have "oi_Key i = d \<or> HasPrefix (oi_Key i) (d @ ''/'')" using list_file [OF _ dd(2) li i] w by (auto simp: at_def)
    then have n: "\<not> HasPrefix (oi_Key i) ''manifests/''" using d by (auto simp: HasPrefix_iff)
    show ?thesis using segment_step [OF v f(2) n i r c] at_kept [OF v segment_kept [OF f(1) c]] by simp
  qed
  have "at m w' \<and> seg_step sha m (set is) (st, s) (st', s') (\<Union> (?J ` set is))"
    by (rule range_infos_rel [where A = "at m" and R = "seg_step sha m (set is)" and J = ?J, OF st seg_step_refl seg_step_trans w1 ri])
  then have a: "at m w'" "snap_step sha m s s' (\<Union> (?J ` set is))" "set st' \<subseteq> set st \<union> oi_Key ` {i \<in> set is. stale_info s i}"
    by (auto simp: seg_step_def)
  have "{i \<in> stored_infos m. HasPrefix (oi_Key i) (d @ ''/'') \<and> HasSuffix (oi_Key i) ''.json'' \<and> \<not> isStaleTempKey (oi_Key i)} \<subseteq> \<Union> (?J ` set is)"
    using listed_complete [OF w dd(1) li] by (auto simp: object_name_def)
  moreover have "stale_key m (ms_minAge s) (ms_ageCutoff s) (oi_Key i)" if "i \<in> set is" "stale_info s i" for i
    by (rule stale_listed [OF w dd(1) li that])
  ultimately show ?thesis using a snap_step_mono [OF a(2)] by blast
qed

lemma backups_pass:
  assumes w: "at m w" and r: "readable sha m" and bk: "set bk \<subseteq> {i \<in> stored_infos m. HasPrefix (oi_Key i) ''manifests/'' \<and> okfile (oi_Key i)}"
    and ri: "range_infos (dispatch_backup sha rt sp ctx tb) bk s w = (None, s', w')"
  shows "at m w' \<and> snap_step sha m s s' {i \<in> set bk. \<not> (5 \<le> length (Split CHR ''/'' (oi_Key i)) \<and> tombstone_id (oi_Key i) \<in> set tb)}"
proof -
  let ?J = "\<lambda>i. if 5 \<le> length (Split CHR ''/'' (oi_Key i)) \<and> tombstone_id (oi_Key i) \<in> set tb then {} else {i}"
  have st: "at m v1 \<and> snap_step sha m a b (?J i)"
    if i: "i \<in> set bk" and v: "at m v" and c: "dispatch_backup sha rt sp ctx tb i a v = (None, b, v1)" for i a v b v1
  proof -
    have f: "okfile (oi_Key i)" "i \<in> stored_infos m" "HasPrefix (oi_Key i) ''manifests/''" using bk i by auto
    show ?thesis using backup_step [OF v f(2,3) r c] at_kept [OF v backup_kept [OF f(1) c]] by simp
  qed
  have "at m w' \<and> snap_step sha m s s' (\<Union> (?J ` set bk))"
    by (rule range_infos_rel [where A = "at m" and R = "snap_step sha m" and J = ?J, OF st snap_step_refl snap_step_trans w ri])
  then show ?thesis by (auto intro: snap_step_mono)
qed

lemma classify_pass:
  assumes w: "at m w"
    and l: "range_list sp ctx ''manifests/'' (ctx_checked rt ctx (\<lambda>i acc w. (None, classify s grace cutoff cs i acc, w))) ([], [], []) w =
      (None, (st, tb, bk), w')"
  shows "(\<forall>k \<in> set st. stale_key m (ms_minAge s) (ms_ageCutoff s) k) \<and>
    set bk = {i \<in> stored_infos m. HasPrefix (oi_Key i) ''manifests/'' \<and> HasSuffix (oi_Key i) ''/manifest.json''} \<and>
    (\<forall>i \<in> set bk. okfile (oi_Key i)) \<and>
    (\<forall>i \<in> set bk. 5 \<le> length (Split CHR ''/'' (oi_Key i)) \<and> tombstone_id (oi_Key i) \<in> set tb \<longrightarrow> tombstoned grace cutoff m (oi_Key i))"
proof -
  obtain "is" w1 where li: "sp_List sp ctx (''manifests'' @ ''/'') w = ((is, None), w1)"
    and ri: "range_infos (ctx_checked rt ctx (\<lambda>i acc w. (None, classify s grace cutoff cs i acc, w))) is ([], [], []) w1 = (None, (st, tb, bk), w')"
    using range_listD [OF l] by auto
  have d: "''manifests'' \<in> {''manifests'', ''wal'', ''logical''}" by simp
  note f = classify_fold [OF range_fold [OF ri, symmetric]]
  have b: "set bk = {i \<in> set is. HasSuffix (oi_Key i) ''/manifest.json''}" and tb: "set tb = (tombstone_id \<circ> oi_Key) ` {i \<in> set is. expired_tombstone grace cutoff i}"
    and st: "set st \<subseteq> oi_Key ` {i \<in> set is. stale_info s i}" using f by simp_all
  have js: "HasSuffix k ''/manifest.json'' \<Longrightarrow> object_name k" "HasSuffix k ''/manifest.json.tombstone'' \<Longrightarrow> object_name k" for k
    by (auto simp: object_name_def HasSuffix_iff)
  note ls = listed_stored [OF w d li] and lc = listed_complete [OF w d li]
  have bk: "set bk = {i \<in> stored_infos m. HasPrefix (oi_Key i) ''manifests/'' \<and> HasSuffix (oi_Key i) ''/manifest.json''}"
  proof -
    have "i \<in> stored_infos m \<and> HasPrefix (oi_Key i) ''manifests/''" if "i \<in> set is" "HasSuffix (oi_Key i) ''/manifest.json''" for i
      using ls [OF that(1)] js(1) [OF that(2)] by simp
    moreover have "i \<in> set is" if "i \<in> stored_infos m" "HasPrefix (oi_Key i) ''manifests/''" "HasSuffix (oi_Key i) ''/manifest.json''" for i
      using lc [OF that(1) _ js(1) [OF that(3)]] that(2) by simp
    ultimately show ?thesis unfolding b by blast
  qed
  have tm: "tombstoned grace cutoff m (oi_Key i)"
    if i: "5 \<le> length (Split CHR ''/'' (oi_Key i))" "tombstone_id (oi_Key i) \<in> set tb" for i
  proof -
    obtain j where j: "j \<in> set is" "expired_tombstone grace cutoff j" "tombstone_id (oi_Key j) = tombstone_id (oi_Key i)"
      using i(2) unfolding tb by auto
    then have js': "j \<in> stored_infos m" "HasPrefix (oi_Key j) ''manifests/''"
      using ls [OF j(1)] js(2) [of "oi_Key j"] j(2) by (simp_all add: expired_tombstone_def)
    then obtain b where "m (oi_Key j) = Some (b, oi_ModTime j)" by (auto simp: stored_infos_def)
    note e = this
    show ?thesis unfolding tombstoned_def
      by (intro conjI exI [of _ "oi_Key j"] exI [of _ b] exI [of _ "oi_ModTime j"] i(1) e js'(2) j(3))
        (use j(2) in \<open>simp_all add: expired_tombstone_def\<close>)
  qed
  have sk: "stale_key m (ms_minAge s) (ms_ageCutoff s) k" if "k \<in> set st" for k
  proof -
    obtain i where "i \<in> set is" "stale_info s i" "k = oi_Key i" using st \<open>k \<in> set st\<close> by auto
    then show ?thesis using stale_listed [OF w d li] by simp
  qed
  have "okfile (oi_Key i)" if "i \<in> set bk" for i using ls [of i] that b by simp
  then show ?thesis using bk tm sk by (intro conjI ballI impI) auto
qed

text \<open>What a scan leaves: every live manifest is harvested and the stale keys qualify.\<close>

definition scanned :: "(bytes \<Rightarrow> Hash) \<Rightarrow> store \<Rightarrow> bool \<Rightarrow> manifestSnapshot \<Rightarrow> manifestSnapshot \<Rightarrow> bool" where
  "scanned sha m cs s s' \<longleftrightarrow>
     harvests sha m s s' (live_infos (effectiveGrace (ms_opts s)) (cro_Now (ms_opts s) - effectiveGrace (ms_opts s)) m) \<and>
     frames s (s'\<lparr>ms_stale := ms_stale s\<rparr>) \<and> (if cs then \<forall>k \<in> set (ms_stale s'). stale_key m (ms_minAge s) (ms_ageCutoff s) k else ms_stale s' = ms_stale s)"

lemma classify_kept:
  "range_list sp ctx ''manifests/'' (ctx_checked rt ctx (\<lambda>i acc w. (None, classify s grace cutoff cs i acc, w))) a w = (e, b, w') \<Longrightarrow> kept w w'"
  by (rule range_list_kept [where d = "''manifests''", unfolded append.simps])
    (auto simp: gc_dirs_def ctx_checked_def split: prod.splits option.splits intro: kept_ops(2))

lemma segments_kept:
  "d \<in> {''wal'', ''logical''} \<Longrightarrow>
     range_list sp ctx (d @ ''/'') (ctx_checked rt ctx (dispatch_segment sha rt sp ctx ws)) a w = (e, b, w') \<Longrightarrow> kept w w'"
  by (rule range_list_kept [OF _ segment_kept]) (auto simp: gc_dirs_def)

lemma now_kept: "cro_effectiveNow rt o' w = (t, w') \<Longrightarrow> kept w w' \<and> (cro_Now o' \<noteq> zero_time \<longrightarrow> t = cro_Now o')"
  using kept_ops(1) by (auto simp: cro_effectiveNow_def split: if_splits)

lemma dispatch_kept:
  assumes g: "good w" and l: "listAndDispatch sha rt sp ctx cs s w = (e, s', w')"
  shows "kept w w'"
proof -
  obtain now w0 where n: "cro_effectiveNow rt (ms_opts s) w = (now, w0)" by fastforce
  let ?gr = "effectiveGrace (ms_opts s)"
  obtain e1 st tb bk w1 where c: "range_list sp ctx ''manifests/''
      (ctx_checked rt ctx (\<lambda>i acc w. (None, classify s ?gr (now - ?gr) cs i acc, w))) ([], [], []) w0 = (e1, (st, tb, bk), w1)" by (metis prod.exhaust)
  have k1: "kept w w1" using kept_trans [OF conjunct1 [OF now_kept [OF n]] classify_kept [OF c]] .
  note l = l [unfolded listAndDispatch_def n prod.case Let_def c]
  show ?thesis
  proof (cases e1)
    case None
    have at0: "at (manifest_area (objs w)) w0" using at_kept [OF _ conjunct1 [OF now_kept [OF n]]] g by (simp add: at_def)
    note cp = classify_pass [OF at0 c [unfolded None]]
    obtain e2 s1 w2 where b: "range_infos (dispatch_backup sha rt sp ctx tb) bk s w1 = (e2, s1, w2)" by (metis prod.exhaust)
    have k2: "kept w w2"
    proof (rule range_infos_inv [where Q = "\<lambda>s v. kept w v", OF _ k1 b])
      fix i s v e s1 v1 assume "i \<in> set bk" "kept w v" "dispatch_backup sha rt sp ctx tb i s v = (e, s1, v1)"
      then show "kept w v1" using cp backup_kept kept_trans by blast
    qed
    obtain e3 st1 s2 w3 where wl: "range_list sp ctx (''wal'' @ ''/'') (ctx_checked rt ctx (dispatch_segment sha rt sp ctx cs)) (st, s1) w2 = (e3, (st1, s2), w3)"
      by (metis prod.exhaust)
    have k3: "kept w w3" using kept_trans [OF k2 segments_kept [OF _ wl]] by simp
    obtain e4 st2 s3 w4 where lg: "range_list sp ctx (''logical'' @ ''/'') (ctx_checked rt ctx (dispatch_segment sha rt sp ctx False)) (st1, s2) w3 = (e4, (st2, s3), w4)"
      by (metis prod.exhaust)
    have k4: "kept w w4" using kept_trans [OF k3 segments_kept [OF _ lg]] by simp
    show ?thesis using l None k2 k3 k4 unfolding b prod.case wl [unfolded append.simps] lg [unfolded append.simps]
      by (cases e2; cases e3; cases e4) simp_all
  qed (use l k1 in simp)
qed

lemma dispatch_ok:
  assumes w: "at m w" and r: "readable sha m" and z: "cro_Now (ms_opts s) \<noteq> zero_time"
    and l: "listAndDispatch sha rt sp ctx cs s w = (None, s', w')"
  shows "scanned sha m cs s s'"
proof -
  obtain now w0 where n: "cro_effectiveNow rt (ms_opts s) w = (now, w0)" by fastforce
  define gr where "gr = effectiveGrace (ms_opts s)"
  have nw: "now = cro_Now (ms_opts s)" "at m w0" using now_kept [OF n] z at_kept [OF w] by auto
  note l = l [unfolded listAndDispatch_def n prod.case Let_def gr_def [symmetric]]
  obtain st tb bk w1 where c: "range_list sp ctx ''manifests/''
      (ctx_checked rt ctx (\<lambda>i acc w. (None, classify s gr (now - gr) cs i acc, w))) ([], [], []) w0 = (None, (st, tb, bk), w1)"
    using l by (auto split: prod.splits option.splits)
  have w1: "at m w1" using at_kept [OF nw(2) classify_kept [OF c]] .
  note cp = classify_pass [OF nw(2) c] and l = l [unfolded c prod.case option.case]
  obtain s1 w2 where b: "range_infos (dispatch_backup sha rt sp ctx tb) bk s w1 = (None, s1, w2)"
    using l by (auto split: prod.splits option.splits)
  have "set bk \<subseteq> {i \<in> stored_infos m. HasPrefix (oi_Key i) ''manifests/'' \<and> okfile (oi_Key i)}" using cp by auto
  note bp = backups_pass [OF w1 r this b] and l = l [unfolded b prod.case option.case]
  obtain st1 s2 w3 where wl: "range_list sp ctx (''wal'' @ ''/'') (ctx_checked rt ctx (dispatch_segment sha rt sp ctx cs)) (st, s1) w2 = (None, (st1, s2), w3)"
    using l by (auto split: prod.splits option.splits)
  note wp = segments_pass [OF conjunct1 [OF bp] _ r wl] and l = l [unfolded wl [unfolded append.simps] prod.case option.case]
  obtain st2 s3 w4 where lg: "range_list sp ctx (''logical'' @ ''/'') (ctx_checked rt ctx (dispatch_segment sha rt sp ctx False)) (st1, s2) w3 = (None, (st2, s3), w4)"
    using l by (auto split: prod.splits option.splits)
  have w3: "at m w3" using wp by simp
  note lp = segments_pass [OF w3 _ r lg] and l = l [unfolded lg [unfolded append.simps] prod.case option.case]
  have s': "s' = (if cs then s3\<lparr>ms_stale := sort st2\<rparr> else s3)" using l by simp
  let ?B = "{i \<in> set bk. \<not> (5 \<le> length (Split CHR ''/'' (oi_Key i)) \<and> tombstone_id (oi_Key i) \<in> set tb)}"
  let ?S = "\<lambda>d. {i \<in> stored_infos m. HasPrefix (oi_Key i) (d @ ''/'') \<and> HasSuffix (oi_Key i) ''.json'' \<and> \<not> isStaleTempKey (oi_Key i)}"
  have st3: "snap_step sha m s s3 (?B \<union> ?S ''wal'' \<union> ?S ''logical'')"
    using snap_step_trans [OF snap_step_trans [OF conjunct2 [OF bp], of s2 "?S ''wal''"], of s3 "?S ''logical''"] wp lp by simp
  have "i \<in> ?B" if "i \<in> stored_infos m" "HasPrefix (oi_Key i) ''manifests/''" "HasSuffix (oi_Key i) ''/manifest.json''"
    "\<not> tombstoned gr (now - gr) m (oi_Key i)" for i using that cp by auto
  then have "live_infos gr (now - gr) m \<subseteq> ?B \<union> ?S ''wal'' \<union> ?S ''logical''" by (auto simp: live_infos_def live_manifest_def)
  then have h: "harvests sha m s s3 (live_infos gr (now - gr) m)" and f: "frames s s3" using st3 harvests_mono by (auto simp: snap_step_def)
  have fr: "frames s s1" "frames s s2" using bp wp by (auto simp: snap_step_def frames_def)
  have "\<forall>k \<in> set st2. stale_key m (ms_minAge s) (ms_ageCutoff s) k" using cp wp lp fr by (auto simp: frames_def)
  then show ?thesis unfolding scanned_def s' using h f by (simp add: nw(1) gr_def frames_def)
qed

lemma scan_kept: "good w \<Longrightarrow> scan sha rt sp ctx cs s w = (e, s', w') \<Longrightarrow> kept w w'"
proof -
  assume g: "good w" and s: "scan sha rt sp ctx cs s w = (e, s', w')"
  obtain e1 s1 w1 where l: "listAndDispatch sha rt sp ctx cs s w = (e1, s1, w1)" by (metis prod.exhaust)
  obtain e2 w2 where c: "rt_CtxErr rt ctx w1 = (e2, w2)" by fastforce
  note k = dispatch_kept [OF g l] kept_trans [OF dispatch_kept [OF g l] kept_ops(2) [OF c]]
  show ?thesis using s k unfolding scan_def l prod.case c by (cases e1; cases "hs_err (ms_harvested s1)") simp_all
qed

lemma scan_ok:
  assumes w: "at m w" and r: "readable sha m" and z: "cro_Now (ms_opts s) \<noteq> zero_time" and s: "scan sha rt sp ctx cs s w = (None, s', w')"
  shows "scanned sha m cs s s' \<and> hs_err (ms_harvested s') = None"
proof -
  obtain w1 where "listAndDispatch sha rt sp ctx cs s w = (None, s', w1)" "hs_err (ms_harvested s') = None"
    using s unfolding scan_def by (auto split: prod.splits option.splits)
  then show ?thesis using dispatch_ok [OF w r z] by blast
qed

end

end
