(* ===== verification/GcSafe.thy ===== *)
theory GcSafe
  imports GcStore
begin

text \<open>
  What a sweep does to the repository. \<open>touches D\<close> bounds the effect of an operation: objects under \<^verbatim>\<open>gc/\<close> may change, keys in
  \<open>D\<close> may go, everything else stays. The orphan log hands back only what was logged; a delete is reached only for a hash
  the reference set does not have, and the reference set has every hash a live manifest names.
\<close>

subsection \<open>The orphan log\<close>

definition log_ok :: "(Hash \<Rightarrow> bool) \<Rightarrow> orphanLog \<Rightarrow> bool" where
  "log_ok P l \<longleftrightarrow> (ol_err l = None \<longrightarrow> (\<forall>x \<in> set (ol_mem l). P (oh_hash x)) \<and>
     (\<exists>xs. (\<forall>x \<in> set xs. P (oh_hash x)) \<and> ol_nFile l = length xs \<and>
       (case ol_file l of None \<Rightarrow> [] | Some f \<Rightarrow> f) = concat (map orphan_rec xs)))"

lemma length_orphan_rec: "length (orphan_rec x) = orphanRecLen"
  by (simp add: orphan_rec_def orphanRecLen_def le_bytes_def)

lemma orphan_read: "oh_hash (orphan_of_rec (orphan_rec x)) = oh_hash x"
  by (simp add: orphan_of_rec_def orphan_rec_def)

lemma log_fault_fields:
  assumes "log_fault l = (e, l')"
  shows "ol_mem l' = ol_mem l \<and> ol_file l' = ol_file l \<and> ol_nFile l' = ol_nFile l \<and> ol_err l' = ol_err l"
  using assms by (auto simp: log_fault_def split: list.splits)

lemma log_write_ok:
  assumes "log_write ms l = (e, l')" "ol_file l = Some f" "ol_err l = None"
  shows "(e \<noteq> None \<longrightarrow> ol_err l' \<noteq> None) \<and> (e = None \<longrightarrow> ol_err l' = None \<and> ol_file l' = Some (f @ concat (map orphan_rec ms)) \<and>
    ol_mem l' = ol_mem l \<and> ol_nFile l' = ol_nFile l)"
  using assms
proof (induction ms l arbitrary: f rule: log_write.induct)
  case (2 m ms l)
  obtain fe l1 where lf: "log_fault l = (fe, l1)" by fastforce
  note ff = log_fault_fields [OF lf]
  show ?case
  proof (cases fe)
    case None
    let ?l = "l1\<lparr>ol_file := Some (the (ol_file l1) @ orphan_rec m)\<rparr>"
    have w: "log_write ms ?l = (e, l')" using 2(2) lf None by simp
    have "ol_file ?l = Some (f @ orphan_rec m)" "ol_err ?l = None" using ff 2(3,4) by auto
    from 2(1) [OF lf [symmetric] None w this] show ?thesis using ff by simp
  next
    case (Some err)
    then have "log_failed err l1 = (e, l')" using 2(2) lf by simp
    then show ?thesis by (auto simp: log_failed_def Let_def)
  qed
qed simp

lemma log_add_ok:
  assumes l: "log_ok P l" and p: "P (oh_hash x)" and a: "log_add x l = (e, l')"
  shows "log_ok P l'"
proof (cases "ol_err l")
  case (Some err)
  then show ?thesis using a l by (simp add: log_add_def)
next
  case None
  define l1 where "l1 = l\<lparr>ol_mem := ol_mem l @ [x]\<rparr>"
  have l1: "log_ok P l1" "ol_err l1 = None" using l p None by (auto simp: log_ok_def l1_def)
  note a = a [unfolded log_add_def None option.case Let_def l1_def [symmetric]]
  show ?thesis
  proof (cases "int (length (ol_mem l1)) < sweepOrphanMemRecords")
    case True
    then show ?thesis using a l1 by simp
  next
    case False
    note a = a [unfolded if_not_P [OF False]]
    obtain fe l2 where c: "(if ol_file l1 = None then (case log_fault l1 of (Some err, l2) \<Rightarrow> log_failed err l2
        | (None, l2) \<Rightarrow> (None, l2\<lparr>ol_file := Some []\<rparr>)) else (None, l1)) = (fe, l2)" by fastforce
    note a = a [unfolded c prod.case]
    show ?thesis
    proof (cases fe)
      case (Some err)
      then have "ol_err l2 \<noteq> None" using c by (auto simp: log_failed_def Let_def split: if_splits prod.splits option.splits)
      then show ?thesis using a Some by (auto simp: log_ok_def)
    next
      case fn: None
      have l2: "ol_mem l2 = ol_mem l1" "ol_err l2 = None" "ol_nFile l2 = ol_nFile l1" "ol_file l2 = Some (case ol_file l1 of None \<Rightarrow> [] | Some f \<Rightarrow> f)"
        using c fn log_fault_fields [of l1] l1(2) by (auto simp: log_failed_def Let_def split: if_splits prod.splits option.splits)
      obtain xs where xs: "\<forall>x \<in> set xs. P (oh_hash x)" "ol_nFile l2 = length xs" "ol_file l2 = Some (concat (map orphan_rec xs))"
        using l1 l2 by (auto simp: log_ok_def)
      obtain we l3 where wr: "log_write (ol_mem l2) l2 = (we, l3)" by fastforce
      note w = log_write_ok [OF wr xs(3) l2(2)] and a = a [unfolded fn option.case wr prod.case]
      show ?thesis
      proof (cases we)
        case None
        have mem: "\<forall>x \<in> set (ol_mem l2). P (oh_hash x)" using l1 l2(1) by (simp add: log_ok_def)
        have l': "l' = l3\<lparr>ol_nFile := ol_nFile l3 + length (ol_mem l3), ol_mem := []\<rparr>" using a None by simp
        show ?thesis unfolding log_ok_def l' using w None xs mem by (auto intro!: exI [of _ "xs @ ol_mem l2"])
      qed (use a w in \<open>auto simp: log_ok_def\<close>)
    qed
  qed
qed

lemma file_batches_rule:
  assumes fn: "\<And>b s w e s1 w1. \<forall>x \<in> set b. P (oh_hash x) \<Longrightarrow> Q None s w \<Longrightarrow> fn b s w = (e, s1, w1) \<Longrightarrow> Q e s1 w1"
    and err: "\<And>s w x. Q None s w \<Longrightarrow> Q (Some x) s w"
  shows "file_batches n fn k r buf l s w = (e, l', s', w') \<Longrightarrow> r = concat (map orphan_rec xs) \<Longrightarrow> length xs = k \<Longrightarrow>
    \<forall>x \<in> set xs \<union> set buf. P (oh_hash x) \<Longrightarrow> Q None s w \<Longrightarrow> Q e s' w'"
proof (induction k arbitrary: r buf l s w xs)
  case 0
  then show ?case using fn [of buf s w] by (auto split: if_splits prod.splits)
next
  case (Suc k)
  obtain x ys where xs: "xs = x # ys" using Suc(4) by (cases xs) auto
  obtain fe l1 where lf: "log_fault l = (fe, l1)" by fastforce
  define buf1 where "buf1 = buf @ [orphan_of_rec (take orphanRecLen r)]"
  have rd: "take orphanRecLen r = orphan_rec x" "drop orphanRecLen r = concat (map orphan_rec ys)"
    using Suc(3) xs by (simp_all add: length_orphan_rec [symmetric, of x])
  have b1: "\<forall>x \<in> set buf1. P (oh_hash x)" using Suc(5) xs by (auto simp: buf1_def rd(1) orphan_read)
  note f = Suc(2) [unfolded file_batches.simps lf prod.case Let_def buf1_def [symmetric] rd(2)]
  show ?case
  proof (cases fe)
    case None
    note f = f [unfolded None option.case]
    show ?thesis
    proof (cases "length buf1 = n")
      case True
      obtain e1 s1 w1 where c: "fn buf1 s w = (e1, s1, w1)" by (metis prod.exhaust)
      have q: "Q e1 s1 w1" by (rule fn [OF b1 Suc(6) c])
      show ?thesis
      proof (cases e1)
        case None
        then have "file_batches n fn k (concat (map orphan_rec ys)) [] l1 s1 w1 = (e, l', s', w')" using f True c by simp
        then show ?thesis using Suc(1) [of _ "[]" l1 s1 w1 ys] Suc(4,5) xs q None by auto
      qed (use f True c q in auto)
    next
      case False
      then have "file_batches n fn k (concat (map orphan_rec ys)) buf1 l1 s w = (e, l', s', w')" using f by simp
      then show ?thesis using Suc(1) [of _ buf1 l1 s w ys] Suc(4,5,6) xs b1 by auto
    qed
  qed (use f err Suc(6) in auto)
qed

lemma mem_batches_rule:
  assumes fn: "\<And>b s w e s1 w1. \<forall>x \<in> set b. P (oh_hash x) \<Longrightarrow> Q None s w \<Longrightarrow> fn b s w = (e, s1, w1) \<Longrightarrow> Q e s1 w1"
  shows "mem_batches n fn xs s w = (e, s', w') \<Longrightarrow> \<forall>x \<in> set xs. P (oh_hash x) \<Longrightarrow> Q None s w \<Longrightarrow> Q e s' w'"
proof (induction "length xs" arbitrary: xs s w rule: less_induct)
  case less
  show ?case
  proof (cases "xs = [] \<or> n = 0")
    case True
    then show ?thesis using less(2,4) by (simp add: mem_batches.simps)
  next
    case False
    obtain e1 s1 w1 where c: "fn (take n xs) s w = (e1, s1, w1)" by (metis prod.exhaust)
    have q: "Q e1 s1 w1" by (rule fn [OF _ less(4) c]) (use less(3) in \<open>auto dest: in_set_takeD\<close>)
    note m = less(2) [unfolded mem_batches.simps [of n fn xs] if_not_P [OF False] c prod.case]
    show ?thesis
    proof (cases e1)
      case None
      have "length (drop n xs) < length xs" using False by auto
      then show ?thesis using less(1) [of "drop n xs" s1 w1] m None q less(3) by (auto dest: in_set_dropD)
    qed (use m q in auto)
  qed
qed

lemma log_batches_rule:
  assumes fn: "\<And>b s w e s1 w1. \<forall>x \<in> set b. P (oh_hash x) \<Longrightarrow> Q None s w \<Longrightarrow> fn b s w = (e, s1, w1) \<Longrightarrow> Q e s1 w1"
    and err: "\<And>s w x. Q None s w \<Longrightarrow> Q (Some x) s w"
    and l: "log_ok P l" and q: "Q None s w" and b: "log_batches n fn l s w = (e, s', w')"
  shows "Q e s' w'"
proof (cases "ol_err l")
  case (Some x)
  then have "e = Some x" "s' = s" "w' = w" using b by (simp_all add: log_batches_def)
  then show ?thesis using err [OF q] by simp
next
  case None
  note b = b [unfolded log_batches_def None option.case]
  have mem: "\<forall>x \<in> set (ol_mem l). P (oh_hash x)" using l None by (simp add: log_ok_def)
  show ?thesis
  proof (cases "ol_file l")
    case fn': None
    then have "mem_batches n fn (SliceStable (\<lambda>a b. oh_hash a < oh_hash b) (ol_mem l)) s w = (e, s', w')" using b by simp
    from mem_batches_rule [where P = P and Q = Q, OF fn this _ q] mem show ?thesis by simp
  next
    case (Some f)
    obtain xs where xs: "\<forall>x \<in> set xs. P (oh_hash x)" "ol_nFile l = length xs" "f = concat (map orphan_rec xs)"
      using l None Some by (auto simp: log_ok_def)
    obtain fe l1 where lf: "log_fault l = (fe, l1)" by fastforce
    note b = b [unfolded Some option.case lf prod.case]
    show ?thesis
    proof (cases fe)
      case fe: None
      obtain e2 l2 s2 w2 where fb: "file_batches n fn (ol_nFile l1) f [] l1 s w = (e2, l2, s2, w2)" by (metis prod.exhaust)
      have q2: "Q e2 s2 w2"
        by (rule file_batches_rule [where P = P and Q = Q, OF fn err fb xs(3)]) (use xs log_fault_fields [OF lf] q in auto)
      note b = b [unfolded fe option.case fb prod.case]
      show ?thesis
      proof (cases e2)
        case None
        then have "mem_batches n fn (ol_mem l) s2 w2 = (e, s', w')" using b by simp
        from mem_batches_rule [where P = P and Q = Q, OF fn this mem] None q2 show ?thesis by simp
      qed (use b q2 in auto)
    qed (use b err [OF q] in auto)
  qed
qed

subsection \<open>Identifiers\<close>

lemma stamp_chars: "CHR ''/'' \<notin> set (fmt_stamp t) \<and> CHR ''.'' \<notin> set (fmt_stamp t)"
  by (simp add: fmt_stamp_def fmt_date_def fmt_clock_def Let_def fmt_d_no)

subsection \<open>What may go\<close>

definition aged :: "duration \<Rightarrow> instant \<Rightarrow> instant \<Rightarrow> bool" where
  "aged minAge cutoff t \<longleftrightarrow> \<not> (minAge > 0 \<and> (t = zero_time \<or> t > cutoff))"

text \<open>A hash under whose key, or a key that parses to it, an old enough object is stored.\<close>

definition orphan_hash :: "store \<Rightarrow> duration \<Rightarrow> instant \<Rightarrow> Hash \<Rightarrow> bool" where
  "orphan_hash m minAge start h \<longleftrightarrow> (\<exists>k b t. m k = Some (b, t) \<and> ParseChunkKey k = Inr h \<and> aged minAge (start - minAge) t \<and> (t = zero_time \<or> t \<le> start))"

definition sweepable :: "duration \<Rightarrow> duration \<Rightarrow> instant \<Rightarrow> store \<Rightarrow> string \<Rightarrow> bool" where
  "sweepable grace minAge start m k \<longleftrightarrow>
     (\<exists>h. k = ChunkKey h \<and> orphan_hash m minAge start h \<and> (referenced grace (start - grace) m h \<longrightarrow> h = zero_hash)) \<or>
     (isStaleTempKey k \<and> (\<forall>b t. m k = Some (b, t) \<longrightarrow> aged minAge (start - minAge) t))"

subsection \<open>Effects\<close>

context gc_store
begin

definition touches :: "string set \<Rightarrow> 'w \<Rightarrow> 'w \<Rightarrow> bool" where
  "touches D w w' \<longleftrightarrow> (good w \<longrightarrow> good w' \<and> (\<forall>k. objs w' k = objs w k \<or> HasPrefix k ''gc/'' \<or> (k \<in> D \<and> objs w' k = None)))"

lemma touches_kept: "kept w w' \<Longrightarrow> touches D w w'"
  by (auto simp: kept_def touches_def)

lemma touches_trans: "touches D w w1 \<Longrightarrow> touches D w1 w2 \<Longrightarrow> touches D w w2"
  unfolding touches_def by metis

lemma touches_mono: "touches D w w' \<Longrightarrow> D \<subseteq> E \<Longrightarrow> touches E w w'"
  unfolding touches_def by blast

lemma touches_at: "at m w \<Longrightarrow> touches D w w' \<Longrightarrow> (\<And>k. k \<in> D \<Longrightarrow> \<not> in_area k) \<Longrightarrow> at m w'"
proof -
  assume a: "at m w" "touches D w w'" "\<And>k. k \<in> D \<Longrightarrow> \<not> in_area k"
  have "\<not> HasPrefix k ''gc/''" if "in_area k" for k using that by (auto simp: in_area_def HasPrefix_iff)
  then have "manifest_area (objs w') = manifest_area (objs w)" 
  proof (intro ext)
    fix k show "manifest_area (objs w') k = manifest_area (objs w) k"
    proof (cases "in_area k")
      case True
      then have "objs w' k = objs w k" using a(1,2) a(3) [of k] \<open>in_area k \<Longrightarrow> \<not> HasPrefix k ''gc/''\<close> unfolding at_def touches_def by blast
      then show ?thesis by (simp add: manifest_area_def)
    qed (simp add: manifest_area_def)
  qed
  then show ?thesis using a(1,2) by (simp add: at_def touches_def)
qed

lemma delete_touches: "okfile k \<Longrightarrow> HasPrefix k ''gc/'' \<or> k \<in> D \<Longrightarrow> sp_Delete sp ctx k w = (e, w') \<Longrightarrow> touches D w w'"
  unfolding touches_def using delete_file [of w k ctx e w'] by (metis fun_upd_apply)

lemma lazy_touches: "ChunkKey h \<in> D \<Longrightarrow> DeleteLazy sp ctx (ChunkKey h) w = (e, w') \<Longrightarrow> touches D w w'"
  unfolding touches_def using lazy_good [OF _ chunk_okkey, of w ctx h e w'] lazy_ok [OF _ chunk_okkey, of w ctx h w']
    lazy_error [OF _ chunk_okkey, of w ctx h _ w'] by (cases e) (auto split: if_splits)

lemma putJSON_touches:
  assumes k: "okkey key" "HasPrefix key ''gc/''" and p: "putJSON sp ctx key v w = (e, w')"
  shows "touches D w w'"
proof -
  let ?b = "Marshal v" and ?o = "zero_PutOptions\<lparr>po_ContentLength := int (length (Marshal v))\<rparr>"
  obtain r w1 where pt: "sp_Put sp ctx key (bytes_NewReader ?b) ?o w = (r, w1)" by fastforce
  have w': "w' = w1" using p pt by (cases r) (auto simp: putJSON_def Let_def)
  have d: "po_Durability ?o = DurabilityInline" by (simp add: zero_PutOptions_def)
  show ?thesis unfolding touches_def w'
  proof (intro impI conjI allI)
    assume g: "good w"
    show "good w1" by (rule put_good [OF g k(1) pt])
    fix k'
    have "objs w1 = objs w \<or> (\<exists>t. objs w1 = (objs w)(key \<mapsto> (?b, t)))"
      using put_inline [OF g k(1) d, of ctx ?b _ w1] put_error [OF g k(1), of ctx ?b ?o _ w1] pt by (cases r) auto
    then show "objs w1 k' = objs w k' \<or> HasPrefix k' ''gc/'' \<or> k' \<in> D \<and> objs w1 k' = None" using k(2) by (auto split: if_splits)
  qed
qed

lemma getJSON_kept: "okfile k \<Longrightarrow> getJSON dec sp ctx k w = (r, w') \<Longrightarrow> kept w w'"
proof -
  assume f: "okfile k" and g: "getJSON dec sp ctx k w = (r, w')"
  obtain gr w1 where gt: "sp_Get sp ctx k w = (gr, w1)" by fastforce
  have "w' = w1" using g unfolding getJSON_def gt prod.case by (cases gr) (simp_all split: sum.splits)
  then show ?thesis using kept_ops(6) [OF f gt] by simp
qed

subsection \<open>The run record\<close>

definition run_ok :: "gcRun \<Rightarrow> bool" where
  "run_ok r \<longleftrightarrow> okkey (run_key r) \<and> HasPrefix (run_key r) ''gc/''"

lemma run_ok_rec [simp]: "run_ok (r\<lparr>run_rec := x\<rparr>) = run_ok r" "run_ok (r\<lparr>run_lastBeat := t\<rparr>) = run_ok r" "run_ok (r\<lparr>run_publishedAt := t\<rparr>) = run_ok r"
  by (simp_all add: run_ok_def)

lemma run_write_touches:
  assumes "run_ok r" "run_write rt sp ctx r w = (e, r', w')"
  shows "touches D w w' \<and> run_ok r'"
proof -
  obtain t w1 where n: "rt_Now rt w = (t, w1)" by fastforce
  define r1 where "r1 = r\<lparr>run_rec := (run_rec r)\<lparr>gr_HeartbeatAt := t, gr_ExpiresAt := t + GCRunTTL\<rparr>\<rparr>"
  have r1: "okkey (run_key r1)" "HasPrefix (run_key r1) ''gc/''" using assms(1) by (auto simp: r1_def run_ok_def)
  obtain pe w2 where p: "putJSON sp ctx (run_key r1) (run_json (run_rec r1)) w1 = (pe, w2)" by fastforce
  obtain t2 w3 where n2: "rt_Now rt w2 = (t2, w3)" by fastforce
  have t: "touches D w w2" using touches_trans [OF touches_kept [OF kept_ops(1) [OF n]] putJSON_touches [OF r1 p]] .
  have "touches D w w3" using touches_trans [OF t touches_kept [OF kept_ops(1) [OF n2]]] .
  then show ?thesis using assms(2) t r1 unfolding run_write_def n prod.case Let_def r1_def [symmetric] p
    by (cases pe) (auto simp: n2 run_ok_def)
qed

lemma fence_kept: "newFenceID rt w = (fid, w') \<Longrightarrow> kept w w' \<and> CHR ''/'' \<notin> set fid \<and> CHR ''.'' \<notin> set fid"
proof -
  assume f: "newFenceID rt w = (fid, w')"
  obtain b w1 where r: "rt_Rand rt 8 w = (b, w1)" by fastforce
  obtain t w2 where n: "rt_Now rt w1 = (t, w2)" by fastforce
  have e: "fid = fmt_stamp t @ ''-'' @ EncodeToString b" "w' = w2" using f unfolding newFenceID_def r prod.case n by auto
  have "set fid \<subseteq> set (fmt_stamp t) \<union> {CHR ''-''} \<union> set (EncodeToString b)" by (auto simp: e(1))
  then show ?thesis using kept_trans [OF kept_ops(3) [OF r] kept_ops(1) [OF n]] e(2) stamp_chars [of t] hex_no [of b] by auto
qed

lemma start_touches:
  assumes "startGCRun rt sp ctx host start w = (r, w')"
  shows "touches D w w' \<and> (\<forall>x. r = Inr x \<longrightarrow> run_ok x)"
proof -
  obtain fid w1 where f: "newFenceID rt w = (fid, w1)" by fastforce
  note fk = fence_kept [OF f]
  define rid where "rid = fid @ (if host \<noteq> [] then ''-'' @ sanitizeRunHost host else [])"
  have "CHR ''/'' \<notin> set rid" "CHR ''.'' \<notin> set rid" using fk by (auto simp: rid_def sanitizeRunHost_def)
  then have k: "okkey (gcRunsPrefix @ rid @ ''.json'')" by (rule run_okkey)
  define r0 where "r0 = \<lparr>run_key = gcRunsPrefix @ rid @ ''.json'', run_rec = \<lparr>gr_Schema = gcRunSchema, gr_RunID = rid, gr_State = ''running'', gr_Seq = 0,
    gr_StartedAt = start, gr_HeartbeatAt = zero_time, gr_ExpiresAt = zero_time\<rparr>, run_publishedAt = zero_time, run_lastBeat = zero_time\<rparr>"
  have r0: "run_ok r0" using k by (auto simp: run_ok_def r0_def gcRunsPrefix_def HasPrefix_iff)
  obtain e r1 w2 where wr: "run_write rt sp ctx r0 w1 = (e, r1, w2)" by (metis prod.exhaust)
  note t = run_write_touches [OF r0 wr, of D]
  obtain t3 w3 where n: "rt_Now rt w2 = (t3, w3)" by fastforce
  have t2: "touches D w w2" using touches_trans [OF touches_kept [OF conjunct1 [OF fk]] conjunct1 [OF t]] .
  have t3: "touches D w w3" using touches_trans [OF t2 touches_kept [OF kept_ops(1) [OF n]]] .
  show ?thesis using assms t t2 t3 unfolding startGCRun_def f prod.case Let_def rid_def [symmetric] r0_def [symmetric] wr
    by (cases e) (auto simp: n)
qed

lemma range_list_touches:
  assumes d: "d \<in> gc_dirs" and b: "\<And>i s w e s1 w1. okfile (oi_Key i) \<Longrightarrow> oi_Key i = d \<or> HasPrefix (oi_Key i) (d @ ''/'') \<Longrightarrow>
      body i s w = (e, s1, w1) \<Longrightarrow> touches D w w1"
    and l: "range_list sp ctx (d @ ''/'') body s w = (e, s', w')"
  shows "touches D w w'"
proof (cases "good w")
  case True
  obtain "is" le w1 where li: "sp_List sp ctx (d @ ''/'') w = ((is, le), w1)" by (metis prod.exhaust)
  obtain e2 s2 w2 where r: "range_infos body is s w1 = (e2, s2, w2)" by (metis prod.exhaust)
  have w': "w' = w2" using l li r unfolding range_list_def by (cases e2) simp_all
  have "touches D w w2"
  proof (rule range_infos_inv [where Q = "\<lambda>s v. touches D w v", OF _ _ r])
    show "touches D w w1" by (rule touches_kept [OF kept_ops(5) [OF li]])
    fix i s v e s1 v1 assume "i \<in> set is" "touches D w v" "body i s v = (e, s1, v1)"
    then show "touches D w v1" using b [of i s v e s1 v1] list_file [OF True d li, of i] touches_trans by blast
  qed
  then show ?thesis using w' by simp
qed (simp add: touches_def)

lemma expire_touches:
  assumes f: "okfile (oi_Key i)" "HasPrefix (oi_Key i) ''gc/''"
  shows "expire_pin sp ctx now i u w = (e, u', w') \<Longrightarrow> touches D w w'" "expire_run sp ctx own now i u w = (e, u', w') \<Longrightarrow> touches D w w'"
proof -
  have del: "touches D w w2" if "kept w w1" "sp_Delete sp ctx (oi_Key i) w1 = (de, w2)" for w1 w2 de
    using touches_trans [OF touches_kept [OF that(1)] delete_touches [OF f(1) _ that(2)]] f(2) by blast
  {
    assume x: "expire_pin sp ctx now i u w = (e, u', w')"
    obtain r w1 where g: "getJSON pin_of_json sp ctx (oi_Key i) w = (r, w1)" by fastforce
    obtain de w2 where dl: "sp_Delete sp ctx (oi_Key i) w1 = (de, w2)" by fastforce
    note k = getJSON_kept [OF f(1) g]
    show "touches D w w'" using x touches_kept [OF k] del [OF k dl] unfolding expire_pin_def g prod.case dl
      by (cases r) (simp_all split: if_splits)
  next
    assume x: "expire_run sp ctx own now i u w = (e, u', w')"
    obtain r w1 where g: "getJSON run_of_json sp ctx (oi_Key i) w = (r, w1)" by fastforce
    obtain de w2 where dl: "sp_Delete sp ctx (oi_Key i) w1 = (de, w2)" by fastforce
    note k = getJSON_kept [OF f(1) g]
    show "touches D w w'" using x touches_kept [OF k] touches_kept [OF kept_refl, of D w] del [OF k dl] unfolding expire_run_def g prod.case dl
      by (cases r) (simp_all split: if_splits)
  }
qed

lemma finish_touches:
  assumes r: "run_ok r"
  shows "touches D w (run_finish rt sp r w)"
proof -
  define r1 where "r1 = r\<lparr>run_rec := (run_rec r)\<lparr>gr_State := ''finished''\<rparr>\<rparr>"
  obtain e r2 w1 where wr: "run_write rt sp CleanupCtx r1 w = (e, r2, w1)" by (metis prod.exhaust)
  have r1: "run_ok r1" using r by (simp add: r1_def)
  obtain t w2 where n: "rt_Now rt w1 = (t, w2)" by fastforce
  obtain e3 u3 w3 where p: "range_list sp CleanupCtx gcPinsPrefix (expire_pin sp CleanupCtx t) () w2 = (e3, u3, w3)" by (metis prod.exhaust)
  obtain e4 u4 w4 where q: "range_list sp CleanupCtx gcRunsPrefix (expire_run sp CleanupCtx (run_key r) t) () w3 = (e4, u4, w4)" by (metis prod.exhaust)
  have pre: "HasPrefix k ''gc/''" if "k = d \<or> HasPrefix k (d @ ''/'')" "d \<in> {''gc/pins'', ''gc/runs''}" for k d
    using that by (auto simp: HasPrefix_iff)
  have 3: "touches D w2 w3"
    by (rule range_list_touches [where d = "''gc/pins''", OF _ expire_touches(1) [OF _ pre]])
      (use p in \<open>auto simp: gc_dirs_def gcPinsPrefix_def\<close>)
  have 4: "touches D w3 w4"
    by (rule range_list_touches [where d = "''gc/runs''", OF _ expire_touches(2) [OF _ pre]])
      (use q in \<open>auto simp: gc_dirs_def gcRunsPrefix_def\<close>)
  have 2: "touches D w w2" using touches_trans [OF conjunct1 [OF run_write_touches [OF r1 wr]] touches_kept [OF kept_ops(1) [OF n]]] .
  have "run_finish rt sp r w = w4" unfolding run_finish_def r1_def [symmetric] wr prod.case n p q ..
  then show ?thesis using touches_trans [OF 2 touches_trans [OF 3 4]] by simp
qed

lemma pins_kept: "pins_refresh sp ctx now p w = (e, p', w') \<Longrightarrow> kept w w'"
proof -
  assume r: "pins_refresh sp ctx now p w = (e, p', w')"
  have b: "kept w w1" if "okfile (oi_Key i)" "pin_body sp ctx now i s w = (e, s1, w1)" for i s w e s1 w1
  proof -
    obtain g v where "getJSON pin_of_json sp ctx (oi_Key i) w = (g, v)" by fastforce
    then show ?thesis using that(2) getJSON_kept [OF that(1)] unfolding pin_body_def
      by (cases g) (auto simp: Let_def split: if_splits)
  qed
  show ?thesis by (rule range_list_kept [where d = "''gc/pins''", OF _ b])
    (use r in \<open>auto simp: gc_dirs_def pins_refresh_def gcPinsPrefix_def\<close>)
qed

subsection \<open>The reference set during a sweep\<close>

definition refs_cover :: "store \<Rightarrow> CollectReferencesOptions \<Rightarrow> HashSet \<Rightarrow> bool" where
  "refs_cover m o' refs \<longleftrightarrow> hs_inv refs \<and>
     (\<forall>h. referenced (effectiveGrace o') (cro_Now o' - effectiveGrace o') m h \<longrightarrow> h \<noteq> zero_hash \<longrightarrow> h \<in> hs_abs refs)"

lemma refs_cover_keeps: "refs_cover m o' refs \<Longrightarrow> hs_keeps refs r \<Longrightarrow> refs_cover m o' r"
  using keeps_inv keeps_abs by (auto simp: refs_cover_def)

lemma snap_inv_refs:
  assumes "snap_inv sha m C s" "hs_keeps (ms_refs s) r" "hs_err r = None \<longrightarrow> hs_err (ms_refs s) = None"
  shows "snap_inv sha m C (s\<lparr>ms_refs := r\<rparr>)"
  using assms keeps_inv [OF assms(2)] keeps_abs [OF assms(2)] by (auto simp: snap_inv_def set_ok_def)

lemma scanned_cover:
  assumes s: "scanned sha m cs s s'" "snap_inv sha m C s" "set_ok s'"
  shows "(\<exists>C'. snap_inv sha m C' s') \<and> refs_cover m (ms_opts s) (ms_refs s')"
proof -
  let ?g = "effectiveGrace (ms_opts s)" and ?c = "cro_Now (ms_opts s) - effectiveGrace (ms_opts s)"
  have "harvests sha m s s' (live_infos ?g ?c m)" using s(1) by (simp add: scanned_def)
  then obtain C' where C': "snap_inv sha m C' s'" "live_infos ?g ?c m \<subseteq> C'" using s(2,3) unfolding harvests_def by blast
  have "h \<in> hs_abs (ms_refs s')" if h: "referenced ?g ?c m h" "h \<noteq> zero_hash" for h
  proof -
    obtain k b t where k: "m k = Some (b, t)" "live_manifest ?g ?c m k" "h \<in> manifest_hashes k b" using h(1) by (auto simp: referenced_def)
    let ?i = "\<lparr>oi_Key = k, oi_Size = length b, oi_ModTime = t\<rparr>"
    have "?i \<in> C'" using C'(2) k by (auto simp: live_infos_def stored_infos_def)
    moreover have "h \<in> info_hashes m ?i" using k by (simp add: info_hashes_def)
    ultimately show ?thesis using C'(1) s(3) h(2) unfolding snap_inv_def by blast
  qed
  then show ?thesis using C'(1) by (auto simp: refs_cover_def snap_inv_def)
qed

definition sweep_inv :: "(bytes \<Rightarrow> Hash) \<Rightarrow> store \<Rightarrow> CollectReferencesOptions \<Rightarrow> (string \<Rightarrow> bool) \<Rightarrow> sweepState \<Rightarrow> bool" where
  "sweep_inv sha m o' S s \<longleftrightarrow> (\<exists>C. snap_inv sha m C (st_snap s)) \<and> ms_opts (st_snap s) = o' \<and> refs_cover m o' (ms_refs (st_snap s)) \<and>
     run_ok (st_run s) \<and> (\<forall>k \<in> set (ms_stale (st_snap s)). S k)"

definition env_ok :: "'w SweepOptions \<Rightarrow> bool" where
  "env_ok opts \<longleftrightarrow> (\<forall>f w r w'. sw_LiveLeases opts = Some f \<longrightarrow> f w = (r, w') \<longrightarrow> kept w w') \<and>
     (\<forall>f w t w'. sw_Now opts = Some f \<longrightarrow> f w = (t, w') \<longrightarrow> kept w w')"

lemma clock_kept: "env_ok opts \<Longrightarrow> sweep_clock rt opts w = (t, w') \<Longrightarrow> kept w w'"
  using kept_ops(1) by (auto simp: sweep_clock_def env_ok_def split: option.splits)

lemma tail_step:
  assumes w: "at m w" and r: "readable sha m" and z: "cro_Now o' \<noteq> zero_time" and s: "sweep_inv sha m o' S s"
    and c: "checkpoint_tail sha rt sp ctx slc began s w = (e, s', w')"
  shows "kept w w' \<and> run_ok (st_run s') \<and> (e = None \<longrightarrow> sweep_inv sha m o' S s')"
proof -
  have g: "good w" using w by (simp add: at_def)
  obtain C where C: "snap_inv sha m C (st_snap s)" and o: "ms_opts (st_snap s) = o'" using s by (auto simp: sweep_inv_def)
  obtain se snap w1 where sc: "scan sha rt sp ctx False (st_snap s) w = (se, snap, w1)" by (metis prod.exhaust)
  note k1 = scan_kept [OF g sc] and c = c [unfolded checkpoint_tail_def sc prod.case]
  show ?thesis
  proof (cases se)
    case (Some x)
    then show ?thesis using c k1 s by (auto simp: sweep_inv_def)
  next
    case None
    note so = scan_ok [OF w r _ sc [unfolded None]]
    note c = c [unfolded None option.case Let_def]
    show ?thesis
    proof (cases "hs_err (ms_refs snap)")
      case (Some x)
      then show ?thesis using c k1 s by (auto simp: sweep_inv_def)
    next
      case rn: None
      obtain t w2 where n2: "rt_Now rt w1 = (t, w2)" by fastforce
      obtain t2 w3 where n3: "rt_Now rt w2 = (t2, w3)" by fastforce
      note c = c [unfolded rn option.case n2 prod.case n3]
      have k3: "kept w w3" using kept_trans [OF kept_trans [OF k1 kept_ops(1) [OF n2]] kept_ops(1) [OF n3]] .
      have sd: "scanned sha m False (st_snap s) snap" "set_ok snap" using so z o rn by (simp_all add: set_ok_def)
      have cv: "\<exists>C'. snap_inv sha m C' snap" "refs_cover m o' (ms_refs snap)" "ms_opts snap = o'" "ms_stale snap = ms_stale (st_snap s)"
        using scanned_cover [OF sd(1) C sd(2)] sd(1) o by (simp_all add: scanned_def frames_def)
      show ?thesis using c k3 s cv by (auto simp: sweep_inv_def)
    qed
  qed
qed

lemma checkpoint_step:
  assumes w: "at m w" and r: "readable sha m" and z: "cro_Now o' \<noteq> zero_time" and env: "env_ok opts" and s: "sweep_inv sha m o' S s"
    and c: "checkpoint sha rt sp ctx opts slc s w = (e, s', w')"
  shows "touches {} w w' \<and> run_ok (st_run s') \<and> (e = None \<longrightarrow> sweep_inv sha m o' S s')"
proof -
  obtain began w0 where n: "rt_Now rt w = (began, w0)" by fastforce
  obtain ae r1 w1 where ad: "run_advance rt sp ctx (st_run s) w0 = (ae, r1, w1)" by (metis prod.exhaust)
  obtain now w2 where cl: "sweep_clock rt opts w1 = (now, w2)" by fastforce
  obtain pe p w3 where pr: "pins_refresh sp ctx now (st_pins s) w2 = (pe, p, w3)" by (metis prod.exhaust)
  have "run_ok (st_run s)" using s by (simp add: sweep_inv_def)
  then have a: "touches {} w0 w1" "run_ok r1" using run_write_touches [OF _ ad [unfolded run_advance_def], of "{}"] by auto
  have t1: "touches {} w w1" using touches_trans [OF touches_kept [OF kept_ops(1) [OF n]] a(1)] .
  have t3: "touches {} w w3" using touches_trans [OF t1 touches_kept [OF kept_trans [OF clock_kept [OF env cl] pins_kept [OF pr]]]] .
  define s1 where "s1 = s\<lparr>st_run := r1, st_pins := p\<rparr>"
  have s1: "sweep_inv sha m o' S s1" "run_ok (st_run s1)" using s a(2) by (auto simp: s1_def sweep_inv_def)
  have tail: ?thesis if "touches {} w v" "checkpoint_tail sha rt sp ctx slc began s1 v = (e, s', w')" for v
    using tail_step [OF touches_at [OF w that(1)] r z s1(1) that(2)] touches_trans [OF that(1) touches_kept] by simp
  note c = c [unfolded checkpoint_def n prod.case ad]
  show ?thesis
  proof (cases ae)
    case (Some x)
    then show ?thesis using c t1 a(2) by auto
  next
    case None
    note c = c [unfolded None option.case cl prod.case pr Let_def s1_def [symmetric]]
    show ?thesis
    proof (cases "pe \<noteq> None \<or> hs_err (ps_hashes p) \<noteq> None")
      case True
      then show ?thesis using c t3 s1(2) a(2) by (cases pe) auto
    next
      case False
      then have pn: "pe = None" "hs_err (ps_hashes p) = None" by auto
      note c = c [unfolded pn option.case]
      show ?thesis
      proof (cases "sw_LiveLeases opts")
        case None
        then show ?thesis using c tail [OF t3] by simp
      next
        case (Some f)
        obtain lr w4 where fl: "f w3 = (lr, w4)" by fastforce
        have "kept w3 w4" using env Some fl by (auto simp: env_ok_def)
        then have t4: "touches {} w w4" using touches_trans [OF t3 touches_kept] by blast
        note c = c [unfolded Some option.case fl prod.case]
        show ?thesis using c t4 s1(2) tail [OF t4] by (cases lr) (auto split: if_splits)
      qed
    qed
  qed
qed

subsection \<open>Deleting\<close>

definition doomed :: "store \<Rightarrow> CollectReferencesOptions \<Rightarrow> (Hash \<Rightarrow> bool) \<Rightarrow> string set" where
  "doomed m o' P = {ChunkKey h | h. P h \<and> (referenced (effectiveGrace o') (cro_Now o' - effectiveGrace o') m h \<longrightarrow> h = zero_hash)}"

lemma doomed_area: "k \<in> doomed m o' P \<Longrightarrow> \<not> in_area k"
  by (auto simp: doomed_def in_area_def ChunkKey_def chunk_prefix_def HasPrefix_iff Let_def)

lemma delete_step:
  assumes s: "sweep_inv sha m o' S s" and p: "P (oh_hash x)" and d: "sweep_delete sp ctx x s w = (s', w')"
  shows "touches (doomed m o' P) w w' \<and> sweep_inv sha m o' S s'"
proof -
  obtain C where C: "snap_inv sha m C (st_snap s)" using s by (auto simp: sweep_inv_def)
  obtain b refs where h: "hs_Has (oh_hash x) (ms_refs (st_snap s)) = (b, refs)" by fastforce
  have cv: "refs_cover m o' (ms_refs (st_snap s))" using s by (simp add: sweep_inv_def)
  note hk = Has_ok [OF _ h]
  have ki: "hs_keeps (ms_refs (st_snap s)) refs" "hs_err refs = None \<longrightarrow> hs_err (ms_refs (st_snap s)) = None"
    "oh_hash x \<in> hs_abs (ms_refs (st_snap s)) \<longrightarrow> b" using hk cv by (auto simp: refs_cover_def)
  define s1 where "s1 = s\<lparr>st_snap := (st_snap s)\<lparr>ms_refs := refs\<rparr>\<rparr>"
  have s1: "sweep_inv sha m o' S s1"
    using s snap_inv_refs [OF C ki(1,2)] refs_cover_keeps [OF cv ki(1)] by (auto simp: sweep_inv_def s1_def)
  have res: "sweep_inv sha m o' S (t\<lparr>st_res := y\<rparr>) = sweep_inv sha m o' S t" "sweep_inv sha m o' S (t\<lparr>st_pins := q\<rparr>) = sweep_inv sha m o' S t" for t y q
    by (simp_all add: sweep_inv_def)
  note d = d [unfolded sweep_delete_def h prod.case Let_def s1_def [symmetric]]
  show ?thesis
  proof (cases b)
    case True
    then show ?thesis using d s1 by (auto simp: res touches_kept)
  next
    case False
    then have D: "ChunkKey (oh_hash x) \<in> doomed m o' P" using ki(3) cv p by (auto simp: doomed_def refs_cover_def)
    obtain pb ph where ph: "hs_Has (oh_hash x) (ps_hashes (st_pins s1)) = (pb, ph)" by fastforce
    obtain de w1 where dl: "DeleteLazy sp ctx (ChunkKey (oh_hash x)) w = (de, w1)" by fastforce
    show ?thesis using d False s1 lazy_touches [OF D dl] touches_kept [OF kept_refl] unfolding ph prod.case dl
      by (cases pb; cases de) (auto simp: res)
  qed
qed

lemma deletes_step:
  "sweep_inv sha m o' S s \<Longrightarrow> \<forall>x \<in> set xs. P (oh_hash x) \<Longrightarrow> sweep_deletes sp ctx xs s w = (s', w') \<Longrightarrow>
     touches (doomed m o' P) w w' \<and> sweep_inv sha m o' S s'"
proof (induction xs arbitrary: s w)
  case (Cons x xs)
  obtain s1 w1 where d: "sweep_delete sp ctx x s w = (s1, w1)" by fastforce
  note a = delete_step [where P = P, OF Cons(2) _ d]
  have "sweep_deletes sp ctx xs s1 w1 = (s', w')" using Cons(4) d by simp
  then show ?case using a Cons(1) [of s1 w1] Cons(3) touches_trans by (metis list.set_intros)
qed (simp add: touches_kept)

lemma batch_step:
  assumes w: "at m w" and r: "readable sha m" and z: "cro_Now o' \<noteq> zero_time" and env: "env_ok opts" and s: "sweep_inv sha m o' S s"
    and p: "\<forall>x \<in> set b. P (oh_hash x)" and c: "sweep_batch sha rt sp ctx opts slc b s w = (e, s', w')"
  shows "touches (doomed m o' P) w w' \<and> run_ok (st_run s') \<and> (e = None \<longrightarrow> sweep_inv sha m o' S s')"
proof -
  let ?D = "doomed m o' P"
  obtain t w0 where n: "rt_Now rt w = (t, w0)" by fastforce
  have w0: "at m w0" using at_kept [OF w kept_ops(1) [OF n]] .
  obtain ce s1 w1 where cp: "(if \<not> t < st_deadline s then checkpoint sha rt sp ctx opts slc s w0 else (None, s, w0)) = (ce, s1, w1)" by (metis prod.exhaust)
  have c1: "touches {} w0 w1 \<and> run_ok (st_run s1) \<and> (ce = None \<longrightarrow> sweep_inv sha m o' S s1)"
    using checkpoint_step [OF w0 r z env s, of ctx slc ce s1 w1] cp s touches_kept [OF kept_refl] by (auto simp: sweep_inv_def split: if_splits)
  have t1: "touches ?D w w1" using touches_trans [OF touches_kept [OF kept_ops(1) [OF n]] touches_mono [OF conjunct1 [OF c1]]] by simp
  note c = c [unfolded sweep_batch_def n prod.case cp]
  show ?thesis
  proof (cases ce)
    case (Some x)
    then show ?thesis using c c1 t1 by auto
  next
    case None
    have s1: "sweep_inv sha m o' S s1" using c1 None by simp
    obtain fe w2 where cf: "checkFresh rt (st_run s1) w1 = (fe, w2)" by fastforce
    have "kept w1 w2" using cf kept_ops(1) [of w1] by (auto simp: checkFresh_def split: prod.splits)
    then have t2: "touches ?D w w2" using touches_trans [OF t1 touches_kept] by blast
    obtain s2 w3 where ds: "sweep_deletes sp ctx b s1 w2 = (s2, w3)" by fastforce
    note d = deletes_step [OF s1 p ds]
    obtain xe w4 where cx: "rt_CtxErr rt ctx w3 = (xe, w4)" by fastforce
    have t4: "touches ?D w w4" using touches_trans [OF touches_trans [OF t2 conjunct1 [OF d]] touches_kept [OF kept_ops(2) [OF cx]]] .
    note c = c [unfolded None option.case cf prod.case ds cx]
    show ?thesis using c t2 t4 d s1 by (cases fe) (auto simp: sweep_inv_def)
  qed
qed

lemma stale_touches:
  "\<forall>k \<in> set ks. okfile k \<and> k \<in> D \<Longrightarrow> delete_stale sp ctx ks res w = (res', w') \<Longrightarrow> touches D w w'"
proof (induction ks arbitrary: res w)
  case (Cons k ks)
  obtain e w1 where d: "sp_Delete sp ctx k w = (e, w1)" by fastforce
  have t: "touches D w w1" using delete_touches [OF _ _ d] Cons(2) by simp
  show ?case
  proof (cases e)
    case None
    then show ?thesis using Cons d touches_trans [OF t] by simp
  next
    case (Some x)
    then show ?thesis using Cons d touches_trans [OF t] by simp
  qed
qed (simp add: touches_kept)

lemma prune_kept: "set ps \<subseteq> {''chunks'', ''manifests'', ''wal'', ''logical''} \<Longrightarrow> kept w (prune_all sp ctx ps w)"
proof (induction ps arbitrary: w)
  case (Cons p ps)
  obtain r w1 where p: "PruneEmptyDirsOf sp ctx p False w = (r, w1)" by fastforce
  have "p \<in> {''chunks'', ''manifests'', ''wal'', ''logical''}" using Cons(2) by simp
  then have "kept w w1" unfolding kept_def using prune_state [OF _ _ p] by blast
  then show ?case using p kept_trans Cons by simp
qed simp

lemma end_touches:
  assumes "\<forall>k \<in> set ks. okfile k \<and> k \<in> D" "sweep_end sp ctx ks res w = (res', w')"
  shows "touches D w w'"
proof -
  obtain r1 w1 where d: "delete_stale sp ctx ks res w = (r1, w1)" by fastforce
  define w2 where "w2 = prune_all sp ctx [''chunks'', ''manifests'', ''wal'', ''logical''] w1"
  obtain st err w3 where rp: "ReapStagingOf sp ctx DefaultStagingReapAge w2 = ((st, err), w3)" by (metis prod.exhaust)
  have "kept w1 w2" unfolding w2_def by (rule prune_kept) simp
  moreover have "kept w2 w3" unfolding kept_def using reap_state [OF _ rp] by blast
  moreover have "w' = w3" using assms(2) unfolding sweep_end_def d prod.case w2_def [symmetric] rp by (simp add: Let_def)
  ultimately show ?thesis using touches_trans [OF stale_touches [OF assms(1) d] touches_kept [OF kept_trans]] by simp
qed

subsection \<open>The sweep\<close>

lemma apply_touches:
  assumes w: "at m w" and r: "readable sha m" and z: "cro_Now o' \<noteq> zero_time" and env: "env_ok opts" and run: "run_ok rn"
    and snap: "snap_inv sha m C snap" "ms_opts snap = o'" "refs_cover m o' (ms_refs snap)" "\<forall>k \<in> set (ms_stale snap). okfile k \<and> k \<in> S"
    and l: "log_ok P log" and a: "sweep_apply sha rt sp ctx opts rn snap log res w = (out, rn', w')"
  shows "touches (doomed m o' P \<union> S) w w' \<and> run_ok rn'"
proof -
  let ?D = "doomed m o' P"
  obtain t w0 where n: "rt_Now rt w = (t, w0)" by fastforce
  obtain se w1 where sl: "(if GCFenceSettle - (t - run_publishedAt rn) > 0 then rt_Sleep rt ctx (GCFenceSettle - (t - run_publishedAt rn)) w0 else (None, w0)) = (se, w1)"
    by fastforce
  have "kept w0 w1" using sl kept_ops(4) by (auto split: if_splits)
  then have k1: "kept w w1" using kept_trans [OF kept_ops(1) [OF n]] by blast
  define st where "st = \<lparr>st_res = res, st_snap = snap, st_pins = newGCPinSet (sw_RefSpill opts), st_run = rn,
    st_remaining = int (sr_OrphanCount res), st_deadline = zero_time\<rparr>"
  note a = a [unfolded sweep_apply_def n prod.case sl Let_def st_def [symmetric]]
  let ?S = "\<lambda>k. okfile k \<and> k \<in> S"
  let ?Q = "\<lambda>e s v. touches ?D w v \<and> run_ok (st_run s) \<and> (e = None \<longrightarrow> sweep_inv sha m o' ?S s)"
  show ?thesis
  proof (cases se)
    case (Some x)
    then show ?thesis using a touches_kept [OF k1] run by auto
  next
    case None
    define bs where "bs = (if sw_BatchSize opts \<le> 0 then 4096 else nat (sw_BatchSize opts))"
    define slc where "slc = (if sw_BatchDuration opts = 0 \<and> sw_BatchSize opts \<le> 0 then GCFenceMaxWait div 5 else sw_BatchDuration opts)"
    obtain be s1 w2 where lb: "log_batches bs (sweep_batch sha rt sp ctx opts slc) log st w1 = (be, s1, w2)" by (metis prod.exhaust)
    have "?Q be s1 w2"
    proof (rule log_batches_rule [where Q = ?Q and P = P, OF _ _ l _ lb])
      show "?Q None st w1" using touches_kept [OF k1] run snap by (auto simp: sweep_inv_def st_def)
      fix b s v e t v1 assume b: "\<forall>x \<in> set b. P (oh_hash x)" and q: "?Q None s v" and f: "sweep_batch sha rt sp ctx opts slc b s v = (e, t, v1)"
      have v: "at m v" by (rule touches_at [OF w conjunct1 [OF q]]) (rule doomed_area)
      have iv: "sweep_inv sha m o' ?S s" using q by blast
      from batch_step [OF v r z env iv b f] q touches_trans show "?Q e t v1" by blast
    qed auto
    note a = a [unfolded None option.case, folded bs_def slc_def, unfolded lb prod.case]
    show ?thesis
    proof (cases be)
      case (Some x)
      then show ?thesis using a \<open>?Q be s1 w2\<close> touches_mono [of ?D] by auto
    next
      case None
      obtain r1 w3 where e: "sweep_end sp ctx (ms_stale (st_snap s1)) (st_res s1) w2 = (r1, w3)" by fastforce
      have iv: "sweep_inv sha m o' ?S s1" "touches ?D w w2" using \<open>?Q be s1 w2\<close> None by auto
      have "touches (?D \<union> S) w2 w3" by (rule end_touches [OF _ e]) (use iv(1) in \<open>auto simp: sweep_inv_def\<close>)
      then show ?thesis using a None e iv touches_trans [OF touches_mono [OF iv(2)], of "?D \<union> S" w3] by (auto simp: sweep_inv_def)
    qed
  qed
qed

lemma listing_ok:
  assumes g: "good w" and l: "sp_List sp ctx ''chunks/sha256/'' w = ((is, le), w1)"
    and ri: "range_infos (ctx_checked rt ctx (sweep_orphan_body ap minAge (start - minAge) start)) is li w1 = (e, li', w2)"
    and i: "hs_inv (li_refs li)" "log_ok (orphan_hash (objs w) minAge start) (li_log li)"
  shows "kept w w2 \<and> hs_keeps (li_refs li) (li_refs li') \<and> (hs_err (li_refs li') = None \<longrightarrow> hs_err (li_refs li) = None) \<and>
    log_ok (orphan_hash (objs w) minAge start) (li_log li')"
proof -
  let ?P = "orphan_hash (objs w) minAge start"
  let ?Q = "\<lambda>x v. kept w v \<and> hs_keeps (li_refs li) (li_refs x) \<and> (hs_err (li_refs x) = None \<longrightarrow> hs_err (li_refs li) = None) \<and> log_ok ?P (li_log x)"
  have "?Q li' w2"
  proof (rule range_infos_inv [where Q = ?Q, OF _ _ ri])
    show "?Q li w1" using kept_ops(5) [OF l] i keeps_refl by simp
    fix x s v e s1 v1 assume x: "x \<in> set is" and q: "?Q s v"
      and b: "ctx_checked rt ctx (sweep_orphan_body ap minAge (start - minAge) start) x s v = (e, s1, v1)"
    obtain ce v0 where c: "rt_CtxErr rt ctx v = (ce, v0)" by fastforce
    have k0: "kept w v0" using q kept_trans [OF _ kept_ops(2) [OF c]] by blast
    note b = b [unfolded ctx_checked_def c prod.case]
    show "?Q s1 v1"
    proof (cases "ce = None \<and> \<not> isl (ParseChunkKey (oi_Key x))")
      case False
      then show ?thesis using b q k0 by (cases ce; cases "ParseChunkKey (oi_Key x)") (auto simp: sweep_orphan_body_def)
    next
      case True
      then obtain h where h: "ParseChunkKey (oi_Key x) = Inr h" and cn: "ce = None" by (cases "ParseChunkKey (oi_Key x)") auto
      obtain hb refs where hh: "hs_Has h (li_refs s) = (hb, refs)" by fastforce
      note b = b [unfolded cn option.case sweep_orphan_body_def h sum.case hh prod.case Let_def]
      have hk: "hs_keeps (li_refs li) refs" "hs_err refs = None \<longrightarrow> hs_err (li_refs li) = None"
        using Has_ok [OF _ hh] q keeps_inv keeps_trans by blast+
      have "HasSuffix (oi_Key x) ''.chk''" using ParseChunkKey_shape [OF h] by (auto simp: HasSuffix_iff chunk_suffix_def)
      then have "okkey (oi_Key x)"
        using list_file [OF g, of "''chunks/sha256''" ctx "is" le w1 x] l x by (simp add: gc_dirs_def object_name_def)
      then obtain bd where ob: "objs w (oi_Key x) = Some (bd, oi_ModTime x)" using list_sound [OF g l x] by blast
      show ?thesis
      proof (cases "hb \<or> too_young minAge (start - minAge) x \<or> (oi_ModTime x \<noteq> zero_time \<and> oi_ModTime x > start)")
        case True
        then show ?thesis using b q k0 hk by (auto split: if_splits)
      next
        case False
        then have p: "?P h" using ob h unfolding orphan_hash_def
          by (intro exI [of _ "oi_Key x"] exI [of _ bd] exI [of _ "oi_ModTime x"]) (auto simp: aged_def too_young_def)
        obtain ae lg where ad: "log_add \<lparr>oh_hash = h, oh_size = oi_Size x\<rparr> (li_log s) = (ae, lg)" by fastforce
        have "log_ok ?P lg" by (rule log_add_ok [OF _ _ ad]) (use q p in auto)
        then show ?thesis using b False q k0 hk ad by (auto split: if_splits)
      qed
    qed
  qed
  then show ?thesis by blast
qed

lemma new_snap_inv:
  assumes "opt_MaxBloomBytes rs < 2 ^ 58"
  shows "snap_inv sha m {} (newManifestSnapshot rs o'\<lparr>ms_minAge := a, ms_ageCutoff := c\<rparr>)"
  using NewHashSet_inv assms by (simp add: snap_inv_def newManifestSnapshot_def NewRefSetWithOptions_def new_set_def Let_def)

lemma body_touches:
  assumes g: "good w" and r: "readable sha (manifest_area (objs w))" and z: "start \<noteq> zero_time" and env: "env_ok opts"
    and bl: "opt_MaxBloomBytes (sw_RefSpill opts) < 2 ^ 58" and run: "\<forall>x. run = Some x \<longrightarrow> run_ok x"
    and b: "sweep_body sha rt sp ctx opts start run res w = (out, run', w')"
  shows "touches {k. run \<noteq> None \<and> sweepable (effectiveGrace \<lparr>cro_TombstoneGrace = sw_TombstoneGrace opts, cro_Now = start, cro_RefSpill = sw_RefSpill opts\<rparr>)
      (effectiveMinAge \<lparr>fo_MinAge = sw_MinChunkAge opts, fo_Now = start\<rparr>) start (objs w) k} w w' \<and> (\<forall>x. run' = Some x \<longrightarrow> run_ok x)"
proof -
  define m where "m = manifest_area (objs w)"
  define o' where "o' = \<lparr>cro_TombstoneGrace = sw_TombstoneGrace opts, cro_Now = start, cro_RefSpill = sw_RefSpill opts\<rparr>"
  define minAge where "minAge = effectiveMinAge \<lparr>fo_MinAge = sw_MinChunkAge opts, fo_Now = start\<rparr>"
  define snap where "snap = newManifestSnapshot (sw_RefSpill opts) o'\<lparr>ms_minAge := minAge, ms_ageCutoff := start - minAge\<rparr>"
  let ?D = "{k. run \<noteq> None \<and> sweepable (effectiveGrace o') minAge start (objs w) k}"
  have w: "at m w" using g by (simp add: at_def m_def)
  have inv: "snap_inv sha m {} snap" unfolding snap_def by (rule new_snap_inv [OF bl])
  have f: "ms_opts snap = o'" "ms_minAge snap = minAge" "ms_ageCutoff snap = start - minAge" "cro_Now o' = start"
    by (simp_all add: snap_def newManifestSnapshot_def Let_def o'_def)
  obtain se snap1 w1 where sc: "scan sha rt sp ctx True snap w = (se, snap1, w1)" by (metis prod.exhaust)
  note k1 = scan_kept [OF g sc]
  note b = b [unfolded sweep_body_def Let_def, folded o'_def minAge_def, folded snap_def, unfolded sc prod.case]
  show ?thesis unfolding o'_def [symmetric] minAge_def [symmetric]
  proof (cases "se = None \<and> hs_err (ms_refs snap1) = None")
    case False
    then show "touches ?D w w' \<and> (\<forall>x. run' = Some x \<longrightarrow> run_ok x)"
      using b touches_kept [OF k1] run by (cases se; cases "hs_err (ms_refs snap1)") auto
  next
    case True
    then have sn: "se = None" "hs_err (ms_refs snap1) = None" by auto
    note so = scan_ok [OF w r [folded m_def] _ sc [unfolded sn(1)]]
    have sd: "scanned sha m True snap snap1" "set_ok snap1" using so z f sn(2) by (simp_all add: set_ok_def)
    obtain C where C: "snap_inv sha m C snap1" and cv: "refs_cover m o' (ms_refs snap1)" using scanned_cover [OF sd(1) inv sd(2)] f(1) by auto
    obtain "is" le w1' where l: "sp_List sp ctx ''chunks/sha256/'' w1 = ((is, le), w1')" by (metis prod.exhaust)
    have g1: "good w1" "objs w1 = objs w" using k1 g by (auto simp: kept_def)
    define li where "li = \<lparr>li_res = res, li_sample = \<lparr>sm_limit = SweepOrphanSampleLimit, sm_buf = []\<rparr>,
      li_log = \<lparr>ol_mem = [], ol_file = None, ol_nFile = 0, ol_err = None, ol_faults = sw_log_faults opts\<rparr>, li_refs = ms_refs snap1\<rparr>"
    obtain re li' w2 where ri: "range_infos (ctx_checked rt ctx (sweep_orphan_body (sw_Apply opts) minAge (start - minAge) start)) is li w1' = (re, li', w2)"
      by (metis prod.exhaust)
    let ?P = "orphan_hash (objs w) minAge start"
    have lo: "kept w1 w2 \<and> hs_keeps (ms_refs snap1) (li_refs li') \<and> (hs_err (li_refs li') = None \<longrightarrow> hs_err (ms_refs snap1) = None) \<and> log_ok ?P (li_log li')"
      using listing_ok [OF g1(1) l ri] C g1(2) by (simp add: li_def snap_inv_def log_ok_def)
    have k2: "kept w w2" using kept_trans [OF k1 conjunct1 [OF lo]] .
    note b = b [unfolded sn option.case l prod.case, folded li_def, unfolded ri prod.case]
    show "touches ?D w w' \<and> (\<forall>x. run' = Some x \<longrightarrow> run_ok x)"
    proof (cases "re = None \<and> le = None \<and> run \<noteq> None")
      case False
      then show ?thesis using b touches_kept [OF k2] run by (cases re; cases run) (auto split: if_splits prod.splits)
    next
      case True
      then obtain rn where rn: "run = Some rn" "run_ok rn" "re = None" "le = None" using run by auto
      obtain n refs where ln: "hs_Len (li_refs li') = (n, refs)" by fastforce
      have lk: "hs_keeps (ms_refs snap1) refs" "hs_err refs = None \<longrightarrow> hs_err (ms_refs snap1) = None"
        using Len_ok [OF _ ln] lo keeps_inv keeps_trans by blast+
      define snap2 where "snap2 = snap1\<lparr>ms_refs := refs\<rparr>"
      define res1 where "res1 = (li_res li')\<lparr>sr_RefCount := n, sr_StaleTemps := ms_stale snap1, sr_Orphans := sample_sorted (li_sample li')\<rparr>"
      let ?S = "{k. stale_key m minAge (start - minAge) k}"
      obtain out' rn' w3 where ap: "sweep_apply sha rt sp ctx opts rn snap2 (li_log li') res1 w2 = (out', rn', w3)" by (metis prod.exhaust)
      have st: "\<forall>k \<in> set (ms_stale snap2). okfile k \<and> k \<in> ?S" using sd(1) f by (auto simp: scanned_def snap2_def stale_key_def)
      have t3: "touches (doomed m o' ?P \<union> ?S) w2 w3 \<and> run_ok rn'"
        by (rule apply_touches [OF at_kept [OF w k2] r [folded m_def] _ env rn(2) _ _ _ st _ ap, of o' C])
          (use snap_inv_refs [OF C lk] refs_cover_keeps [OF cv lk(1)] sd(1) f z lo in \<open>auto simp: snap2_def scanned_def frames_def\<close>)
      have "doomed m o' ?P \<subseteq> ?D"
        unfolding doomed_def m_def referenced_area f(4) sweepable_def rn(1) by blast
      moreover have "?S \<subseteq> ?D"
      proof
        fix k assume "k \<in> ?S"
        then have "isStaleTempKey k" "\<forall>b t. objs w k = Some (b, t) \<longrightarrow> aged minAge (start - minAge) t"
          by (auto simp: stale_key_def aged_def m_def manifest_area_def)
        then show "k \<in> ?D" unfolding sweepable_def rn(1) by blast
      qed
      ultimately have "touches ?D w2 w3" by (intro touches_mono [OF conjunct1 [OF t3]] Un_least)
      then have "touches ?D w w3" using touches_trans [OF touches_kept [OF k2]] by simp
      moreover have "run_ok rn'" using t3 by simp
      moreover have "w' = w3" "run' = Some rn'"
        using b unfolding rn ln prod.case option.case snap2_def [symmetric] res1_def [symmetric] ap by simp_all
      ultimately show ?thesis by simp
    qed
  qed
qed

lemma sweepable_outside:
  assumes e: "\<And>k. \<not> HasPrefix k ''gc/'' \<Longrightarrow> m' k = m k" and k: "\<not> HasPrefix k ''gc/''" and s: "sweepable grace minAge start m' k"
  shows "sweepable grace minAge start m k"
proof -
  have "manifest_area m' = manifest_area m"
  proof
    fix x show "manifest_area m' x = manifest_area m x"
      using e [of x] by (auto simp: manifest_area_def in_area_def HasPrefix_iff)
  qed
  then have r: "referenced grace c m' h = referenced grace c m h" for c h by (metis referenced_area)
  have "\<not> HasPrefix x ''gc/''" if "ParseChunkKey x = Inr h" for x h
    using ParseChunkKey_shape [OF that] by (auto simp: chunk_prefix_def HasPrefix_iff)
  then have o: "orphan_hash m' minAge start h = orphan_hash m minAge start h" for h unfolding orphan_hash_def by (metis e)
  show ?thesis using s unfolding sweepable_def r o e [OF k] .
qed

theorem Sweep_touches:
  assumes g: "good w" and r: "readable sha (manifest_area (objs w))" and env: "env_ok opts" and bl: "opt_MaxBloomBytes (sw_RefSpill opts) < 2 ^ 58"
    and cl: "sweep_clock rt opts w = (start, w0)" "start \<noteq> zero_time" and s: "Sweep sha rt sp ctx opts w = (out, w')"
  shows "touches {k. sw_Apply opts \<and> sweepable (effectiveGrace \<lparr>cro_TombstoneGrace = sw_TombstoneGrace opts, cro_Now = start, cro_RefSpill = sw_RefSpill opts\<rparr>)
      (effectiveMinAge \<lparr>fo_MinAge = sw_MinChunkAge opts, fo_Now = start\<rparr>) start (objs w) k} w w'" (is "touches ?D w w'")
proof -
  let ?D' = "\<lambda>run m. {k. run \<noteq> None \<and> sweepable (effectiveGrace \<lparr>cro_TombstoneGrace = sw_TombstoneGrace opts, cro_Now = start, cro_RefSpill = sw_RefSpill opts\<rparr>)
      (effectiveMinAge \<lparr>fo_MinAge = sw_MinChunkAge opts, fo_Now = start\<rparr>) start m k}"
  have k0: "kept w w0" by (rule clock_kept [OF env cl(1)])
  note s = s [unfolded Sweep_def cl prod.case]
  have body: "touches ?D w v' \<and> (\<forall>x. run' = Some x \<longrightarrow> run_ok x)"
    if t: "touches {} w v" and run: "\<forall>x. run = Some x \<longrightarrow> run_ok x" "run \<noteq> None \<longrightarrow> sw_Apply opts"
      and b: "sweep_body sha rt sp ctx opts start run res v = (out', run', v')" for v v' run run' res out'
  proof -
    have v: "good v" "\<And>k. \<not> HasPrefix k ''gc/'' \<Longrightarrow> objs v k = objs w k" using t g by (auto simp: touches_def)
    have "at (manifest_area (objs w)) v" by (rule touches_at [OF _ t]) (use g in \<open>simp_all add: at_def\<close>)
    then have r': "readable sha (manifest_area (objs v))" using r by (simp add: at_def)
    note bt = body_touches [OF v(1) r' cl(2) env bl run(1) b]
    have "touches ?D v v'" unfolding touches_def
    proof (intro impI conjI allI)
      show "good v'" using bt v(1) by (simp add: touches_def)
      fix k
      have "objs v' k = objs v k \<or> HasPrefix k ''gc/'' \<or> k \<in> ?D' run (objs v) \<and> objs v' k = None" using bt v(1) unfolding touches_def by blast
      then show "objs v' k = objs v k \<or> HasPrefix k ''gc/'' \<or> k \<in> ?D \<and> objs v' k = None"
        using sweepable_outside [of "objs v" "objs w" k, OF v(2)] run(2) by auto
    qed
    then show ?thesis using touches_trans [OF touches_mono [OF t]] bt by simp
  qed
  show ?thesis
  proof (cases "sw_Apply opts")
    case False
    obtain o1 r1 w1 where b: "sweep_body sha rt sp ctx opts start None zero_SweepResult w0 = (o1, r1, w1)" by (metis prod.exhaust)
    then show ?thesis using body [OF touches_kept [OF k0] _ _ b] s False by simp
  next
    case True
    obtain sr w1 where st: "startGCRun rt sp ctx (sw_hostname opts) start w0 = (sr, w1)" by fastforce
    note ts = start_touches [OF st]
    have t1: "touches E w w1" for E using touches_trans [OF touches_kept [OF k0] conjunct1 [OF ts]] .
    have na: "\<not> \<not> sw_Apply opts" using True by simp
    note s = s [unfolded if_not_P [OF na] st prod.case]
    show ?thesis
    proof (cases sr)
      case (Inl err)
      then show ?thesis using s True t1 [of ?D] by simp
    next
      case (Inr rn)
      have rn: "run_ok rn" using ts Inr by simp
      have fin: "touches ?D w (run_finish rt sp x v)" if "touches ?D w v" "run_ok x" for v x
        using touches_trans [OF that(1) finish_touches [OF that(2)]] .
      define res where "res = zero_SweepResult\<lparr>sr_RunID := gr_RunID (run_rec rn)\<rparr>"
      have go: "touches ?D w (snd (case sweep_body sha rt sp ctx opts start (Some rn) res v of
            (out, Some r1, w1) \<Rightarrow> (out, run_finish rt sp r1 w1) | (out, None, w1) \<Rightarrow> (out, run_finish rt sp rn w1)))"
        if "touches {} w v" for v
      proof -
        obtain o1 r1 v1 where b: "sweep_body sha rt sp ctx opts start (Some rn) res v = (o1, r1, v1)" by (metis prod.exhaust)
        note bd = body [OF that _ _ b]
        show ?thesis using bd rn True fin unfolding b prod.case by (cases r1) auto
      qed
      note s = s [unfolded Inr sum.case Let_def, folded res_def]
      show ?thesis
      proof (cases "sw_LiveLeases opts")
        case None
        note s = s [unfolded None option.case]
        show ?thesis using go [OF t1] unfolding s snd_conv .
      next
        case (Some f)
        obtain lr w2 where fl: "f w1 = (lr, w2)" by fastforce
        have "kept w1 w2" using env Some fl by (auto simp: env_ok_def)
        then have t2: "touches E w w2" for E using touches_trans [OF t1 touches_kept] by blast
        note s = s [unfolded Some option.case fl prod.case]
        show ?thesis
        proof (cases lr)
          case (Inl x)
          then show ?thesis using s fin [OF t2 rn] by simp
        next
          case (Inr live)
          note s = s [unfolded Inr sum.case]
          show ?thesis
          proof (cases "live = []")
            case True
            then show ?thesis using go [OF t2] s by simp
          next
            case False
            then show ?thesis using s fin [OF t2 rn] by simp
          qed
        qed
      qed
    qed
  qed
qed

end

end
