(* ===== verification/FsGc.thy ===== *)
theory FsGc
  imports GcSafe CasProps
begin

text \<open>
  The filesystem backend keeps the contract of a collection (interpretation \<open>fs_gc\<close> of \<open>gc_store\<close>): a listing stays below its
  directory and yields no staging file, a failing read has delivered a prefix, pruning removes directories and reaping
  removes staging files only. The theory ends with what a sweep does to a filesystem repository.
\<close>

subsection \<open>Listings stay below their directory\<close>

definition below :: "string list \<Rightarrow> string \<Rightarrow> bool" where
  "below bs q \<longleftrightarrow> (\<exists>cs. list_all plain (bs @ cs) \<and> q = abs_path (bs @ cs))"

lemma below_child:
  assumes t: "tree_ok w" and l: "lookup w q = Some n" and d: "Dir q = p" "q \<noteq> p" and b: "below bs p"
  shows "below bs q"
proof -
  obtain qs where qs: "list_all plain qs" "q = abs_path qs" using tree_okD(2) [OF t l] by (auto simp: canon_def)
  have "qs \<noteq> []"
  proof
    assume "qs = []"
    then have "q = ''/''" using qs by (simp add: abs_path_def)
    moreover have "Dir ''/'' = ''/''" by code_simp
    ultimately show False using d by simp
  qed
  then obtain xs x where x: "qs = xs @ [x]" by (metis append_butlast_last_id)
  obtain cs where cs: "list_all plain (bs @ cs)" "p = abs_path (bs @ cs)" using b by (auto simp: below_def)
  have "abs_path xs = abs_path (bs @ cs)" using d(1) qs x cs(2) Dir_abs_path [of xs x] by simp
  then have "xs = bs @ cs" using qs x cs(1) by simp
  then have "list_all plain (bs @ (cs @ [x]))" "q = abs_path (bs @ (cs @ [x]))" using qs x by auto
  then show ?thesis unfolding below_def by blast
qed

lemma readdir_lookup:
  assumes "fs_wf w" "os_ReadDir d w = (Inr es, w')"
  shows "lookup w d = Some NDir \<and> (\<forall>(q, n) \<in> set es. lookup w q = Some n \<and> Dir q = d \<and> q \<noteq> d)"
proof -
  have es: "es = filter (\<lambda>(q, n). q \<noteq> d \<and> Dir q = d) (os_ents w)" using os_ReadDir_obs [OF assms] by simp
  have "distinct (map fst (os_ents w))" using assms(1) by (simp add: fs_wf_def tree_ok_def)
  then have "\<forall>(q, n) \<in> set es. lookup w q = Some n \<and> Dir q = d \<and> q \<noteq> d" using es by (auto simp: lookup_def)
  moreover have "lookup w d = Some NDir" using assms(2) unfolding os_ReadDir_def
    by (rule sys_cases [OF assms(1)]) (auto dest: lookup_cong split: option.splits node.splits)
  ultimately show ?thesis by blast
qed

lemma walk_below:
  "fs_wf w \<Longrightarrow> walk depth p n w = (vs, w') \<Longrightarrow> lookup w p = Some n \<Longrightarrow> below bs p \<Longrightarrow> Visit q m \<in> set vs \<Longrightarrow> lookup w q = Some m \<and> below bs q"
  "fs_wf w \<Longrightarrow> walk_list depth es w = (vs, w') \<Longrightarrow> \<forall>(p, n) \<in> set es. lookup w p = Some n \<and> below bs p \<Longrightarrow> Visit q m \<in> set vs \<Longrightarrow>
     lookup w q = Some m \<and> below bs q"
proof (induction depth p n w and depth es w arbitrary: vs w' and vs w' rule: walk_walk_list.induct)
  case (3 depth path w)
  obtain r w1 where rd: "os_ReadDir path w = (r, w1)" by fastforce
  have o: "obs w w1" using os_ReadDir_obs [OF 3(2) rd] by simp
  show ?case
  proof (cases r)
    case (Inr es)
    obtain v w2 where wl: "walk_list depth (batched_sort es) w1 = (v, w2)" by fastforce
    note rl = readdir_lookup [OF 3(2) rd [unfolded Inr]]
    have t: "tree_ok w" using 3(2) by (simp add: fs_wf_def)
    have es: "\<forall>(p, n) \<in> set (batched_sort es). lookup w1 p = Some n \<and> below bs p"
      using rl below_child [OF t _ _ _ 3(5)] obsD [OF o] by fastforce
    have vs: "vs = Visit path NDir # v" using 3(3) rd Inr wl by simp
    show ?thesis
    proof (cases "Visit q m \<in> set v")
      case True
      then show ?thesis using 3(1) [OF rd [symmetric] Inr _ wl es] obsD [OF o] by simp
    next
      case False
      then show ?thesis using vs 3(4,5,6) by simp
    qed
  qed (use 3 rd in auto)
next
  case (5 depth p n es w)
  obtain v1 w1 where w1: "walk depth p n w = (v1, w1)" by fastforce
  obtain v2 w2 where w2: "walk_list depth es w1 = (v2, w2)" by fastforce
  have o: "obs w w1" by (rule walk_obs(1) [OF 5(3) w1])
  have vs: "Visit q m \<in> set v1 \<or> Visit q m \<in> set v2" using 5(4,6) w1 w2 by auto
  then show ?case
  proof
    assume "Visit q m \<in> set v1"
    then show ?thesis using 5(1) [OF 5(3) w1] 5(5) by simp
  next
    assume "Visit q m \<in> set v2"
    then show ?thesis using 5(2) [OF w1 [symmetric] _ w2] 5(5) obsD [OF o] by simp
  qed
qed auto

lemma list_loop_keys:
  "fs_wf w \<Longrightarrow> list_loop ctx vs w = ((is, e), w') \<Longrightarrow> i \<in> set is \<Longrightarrow>
     \<exists>p j. Visit p (NFile j) \<in> set vs \<and> \<not> isFSStagingName (Basename p) \<and> oi_Key i = rel_path w p"
proof (induction vs arbitrary: w "is")
  case (Cons v vs)
  obtain ce w1 where c: "ctx_Err ctx w = (ce, w1)" by fastforce
  have o1: "obs w w1" by (rule ctx_Err_obs [OF Cons(2) c])
  have IH: ?case if o: "obs w u" and l: "list_loop ctx vs u = ((js, e), w')" and i: "i \<in> set js" for u js
  proof -
    have "rel_path u = rel_path w" "fs_wf u" using obsD [OF o] by (auto simp: rel_path_def fun_eq_iff)
    then show ?thesis using Cons(1) [OF _ l i] by fastforce
  qed
  note l = Cons(3) [unfolded list_loop.simps c prod.case]
  show ?case
  proof (cases ce)
    case (Some x)
    then show ?thesis using l Cons(4) by simp
  next
    case None
    note l = l [unfolded None option.case]
    show ?thesis
    proof (cases v)
      case (VisitErr p x)
      then show ?thesis using l Cons(4) IH [OF o1, of "is"] by (auto split: if_splits)
    next
      case (Visit p n)
      show ?thesis
      proof (cases n)
        case NDir
        then show ?thesis using l Visit Cons(4) IH [OF o1, of "is"] by simp
      next
        case (NFile j)
        obtain r w2 where s: "os_Stat p w1 = (r, w2)" by fastforce
        have o2: "obs w w2" using os_Stat_obs [OF _ s] obsD [OF o1] obs_trans [OF o1] by blast
        note l = l [unfolded Visit NFile visit.case node.case s prod.case]
        show ?thesis
        proof (cases "isFSStagingName (Basename p) \<or> isl r")
          case True
          then show ?thesis using l Cons(4) IH [OF o1, of "is"] IH [OF o2, of "is"] by (cases r) (auto split: if_splits)
        next
          case False
          then obtain k where r: "r = Inr k" by (cases r) auto
          obtain js e' w3 where ll: "list_loop ctx vs w2 = ((js, e'), w3)" by (metis prod.exhaust)
          have j: "is = file_info w2 (rel_path w2 p) k # js" "e' = e" "w3 = w'" using l False r ll by auto
          have "rel_path w2 p = rel_path w p" using obsD [OF o2] by (simp add: rel_path_def)
          then have "oi_Key (file_info w2 (rel_path w2 p) k) = rel_path w p" by (cases k) (auto simp: file_info_def)
          then show ?thesis using Cons(4) j(1) False Visit NFile IH [OF o2 ll [unfolded j(2,3)]] by auto
        qed
      qed
    qed
  qed
qed simp

definition okfile :: "string \<Rightarrow> bool" where
  "okfile k \<longleftrightarrow> list_all plain (Split CHR ''/'' k) \<and> \<not> isFSStagingName (Basename k)"

lemma object_name_ok: "object_name k \<Longrightarrow> okname (Basename k)"
proof -
  assume "object_name k"
  then obtain r e where k: "k = r @ e" "e \<in> {''.json'', ''.json.tombstone'', ''.chk''}" by (auto simp: object_name_def HasSuffix_iff)
  have "CHR ''/'' \<notin> set e" using k(2) by auto
  then have b: "Basename k = Basename r @ e" using Basename_suffix k(1) by simp
  have "\<exists>f x. f \<in> {''.chk'', ''.json''} \<and> e = f @ x" using k(2) by auto
  then obtain f x where f: "f \<in> {''.chk'', ''.json''}" "Basename k = Basename r @ f @ x" using b by auto
  then have "Contains (Basename k) f" unfolding Contains_iff by blast
  then show ?thesis using f(1) by (auto simp: okname_def simp del: Contains.simps)
qed

lemma fs_List_file:
  assumes g: "fs_good w" and d: "list_all plain (Split CHR ''/'' d)" and l: "fs_List ctx (d @ ''/'') w = ((is, e), w')" and i: "i \<in> set is"
  shows "okfile (oi_Key i) \<and> (object_name (oi_Key i) \<longrightarrow> okkey (oi_Key i)) \<and> (oi_Key i = d \<or> HasPrefix (oi_Key i) (d @ ''/''))"
proof -
  have wf: "fs_wf w" "root_ok w" "tree_ok w" using g by (auto simp: fs_good_def fs_wf_def)
  obtain rs where rs: "rs \<noteq> []" "list_all plain rs" "p_root w = abs_path rs" using wf(2) by (auto simp: root_ok_def)
  define ds where "ds = Split CHR ''/'' d"
  have ds: "list_all plain ds" "ds \<noteq> []" "Join CHR ''/'' ds = d" using d Split_ne Join_Split by (auto simp: ds_def)
  have base: "path_Join (p_root w) (Clean (''/'' @ d @ ''/'')) = abs_path (rs @ ds)"
    using Clean_trail [OF ds(2,1)] path_Join_abs [OF rs(1,2) ds(1)] by (simp add: ds(3) rs(3))
  obtain ce w1 where c: "ctx_Err ctx w = (ce, w1)" by fastforce
  have o1: "obs w w1" by (rule ctx_Err_obs [OF wf(1) c])
  obtain vs w2 where wd: "walkDirBounded (abs_path (rs @ ds)) w1 = (vs, w2)" by fastforce
  have o2: "obs w w2" using walkDirBounded_obs [OF _ wd] obsD [OF o1] obs_trans [OF o1] by blast
  have "ce = None" using l i c by (cases ce) (auto simp: fs_List_def split: if_splits)
  moreover have "p_root w1 = p_root w" "p_root w \<noteq> []" using obsD [OF o1] rs(3) by (auto simp: abs_path_def)
  ultimately have ll: "list_loop ctx vs w2 = ((is, e), w')" using l wd base unfolding fs_List_def c prod.case Let_def by simp
  have d2: "fs_wf w2" "rel_path w2 = rel_path w" using obsD [OF o2] by (auto simp: fun_eq_iff rel_path_def)
  obtain p j where p: "Visit p (NFile j) \<in> set vs" "\<not> isFSStagingName (Basename p)" "oi_Key i = rel_path w p"
    using list_loop_keys [OF d2(1) ll i] d2(2) by auto
  obtain r w1' where st: "os_Stat (abs_path (rs @ ds)) w1 = (r, w1')" by fastforce
  have o1': "obs w1 w1'" and r': "case r of Inr n \<Rightarrow> lookup w1 (abs_path (rs @ ds)) = Some n | Inl e \<Rightarrow> True"
    using os_Stat_obs [OF _ st] obsD [OF o1] by (auto split: sum.splits)
  obtain n where n: "r = Inr n" using wd st p(1) by (cases r) (auto simp: walkDirBounded_def)
  have wk: "walk (max_depth w1') (abs_path (rs @ ds)) n w1' = (vs, w2)" using wd st n by (simp add: walkDirBounded_def)
  have ow: "obs w w1'" using obs_trans [OF o1 o1'] .
  have "below (rs @ ds) (abs_path (rs @ ds))" using rs(2) ds(1) by (auto simp: below_def intro!: exI [of _ "[]"])
  then have lp: "lookup w p = Some (NFile j)" and b: "below (rs @ ds) p"
    using walk_below(1) [OF _ wk _ _ p(1), of "rs @ ds"] r' n obsD [OF o1'] obsD [OF ow] by auto
  obtain cs where cs: "list_all plain ((rs @ ds) @ cs)" "p = abs_path ((rs @ ds) @ cs)" using b by (auto simp: below_def)
  define ks where "ks = ds @ cs"
  have ks: "ks \<noteq> []" "list_all plain ks" "p = path w (Join CHR ''/'' ks)"
    using cs ds(2) rs abs_path_append [OF rs(1), of ks] by (auto simp: ks_def path_def)
  have key: "oi_Key i = Join CHR ''/'' ks"
    using p(3) ks(3) HasPrefix_iff [of p "p_root w @ ''/''"] by (simp add: rel_path_def path_def TrimPrefix_def)
  have sp: "Split CHR ''/'' (oi_Key i) = ks" unfolding key by (rule Split_Join [OF ks(1) plain_no_slash [OF ks(2)]])
  have bn: "Basename (oi_Key i) = last ks" "Basename p = last ks"
    using Basename_plain [OF ks(1,2)] Basename_below [of "p_root w" "Join CHR ''/'' ks"] by (simp_all add: key ks(3) path_def)
  have "okfile (oi_Key i)" using sp bn p(2) ks(2) by (simp add: okfile_def)
  moreover have "list_all (\<lambda>c. \<not> okname c) (butlast ks)"
  proof -
    have q: "p = abs_path ((rs @ butlast ks) @ [last ks])" "list_all plain ((rs @ butlast ks) @ [last ks])"
      using cs ks(1) by (simp_all add: ks_def)
    then have "lookup w (abs_path (rs @ butlast ks)) = Some NDir" using tree_okD(4) [OF wf(3) q(2)] lp by simp
    then have "okdir (p_root w) (abs_path (rs @ butlast ks))" using wf(1) by (simp add: fs_wf_def dirs_ok_def)
    then show ?thesis using q(2) rs(3) unfolding okdir_def by auto
  qed
  moreover have "oi_Key i = d \<or> HasPrefix (oi_Key i) (d @ ''/'')"
  proof (cases "cs = []")
    case False
    then show ?thesis using Join_append [OF ds(2) False, of "CHR ''/''"] by (auto simp: key ks_def ds(3) HasPrefix_iff)
  qed (simp add: key ks_def ds(3))
  ultimately show ?thesis using object_name_ok [of "oi_Key i"] sp bn p(2) ks(2) by (auto simp: okkey_def)
qed

subsection \<open>Reading and deleting\<close>

lemma fs_Get_any:
  assumes g: "fs_good w" and r: "fs_Get ctx k w = (r, w')"
  shows "upd w w' {}"
proof -
  have wf: "fs_wf w" using g by (simp add: fs_good_def)
  obtain e w1 where c: "ctx_Err ctx w = (e, w1)" by fastforce
  have u1: "upd w w1 {}" using ctx_Err_upd [OF wf c] by simp
  note r = r [unfolded fs_Get_def c prod.case]
  show ?thesis
  proof (cases "e = None \<and> \<not> isl (resolve w1 k)")
    case False
    then show ?thesis using r u1 by (cases e; cases "resolve w1 k") auto
  next
    case True
    then obtain full where f: "resolve w1 k = Inr full" "e = None" by (cases "resolve w1 k") auto
    obtain ro w2 where o: "os_Open full w1 = (ro, w2)" by fastforce
    have "upd w w2 {}" using upd_trans [OF u1, of w2 "{}" "{}"] os_Open_upd [OF upd_wf [OF u1] o] by simp
    moreover have "w' = w2" using r f o by (cases ro) auto
    ultimately show ?thesis by simp
  qed
qed

lemma os_Open_prefix:
  assumes w: "fs_wf w" and r: "os_Open p w = (Inr rd, w')" and n: "lookup w p \<noteq> Some NDir"
  shows "\<exists>b t n. fv w p = Some (b, t) \<and> rd_data rd = take n b"
  using w r [unfolded os_Open_def]
proof (cases rule: sys_cases)
  case (run w1)
  then have lk: "lookup w1 = lookup w" by (intro lookup_cong)
  obtain i where i: "lookup w p = Some (NFile i)" using run(5) lk n by (auto split: option.splits node.splits)
  obtain f w2 where f: "pop_fault w1 = (f, w2)" by fastforce
  have fv: "fv w p = Some (in_data (os_inodes w ! i), in_mtime (os_inodes w ! i))" using i by (simp add: fv_def)
  show ?thesis
  proof (cases f)
    case None
    then have "rd_data rd = take (length (in_data (os_inodes w ! i))) (in_data (os_inodes w ! i))"
      using run(3,5) lk i f by (auto simp: bytes_NewReader_def)
    then show ?thesis using fv by blast
  next
    case (Some x)
    then have "rd_data rd = take (snd x) (in_data (os_inodes w ! i))" using run(3,5) lk i f by (auto split: prod.splits)
    then show ?thesis using fv by blast
  qed
qed simp

lemma fs_Get_prefix:
  assumes g: "fs_good w" and k: "okkey k" and r: "fs_Get ctx k w = (Inr rd, w')"
  shows "\<exists>b t n. fs_objs w k = Some (b, t) \<and> rd_data rd = take n b"
proof -
  obtain e w1 where c: "ctx_Err ctx w = (e, w1)" by fastforce
  note s = op_start [OF g k c]
  have o: "os_Open (path w k) w1 = (Inr rd, w')"
    using r s(2) unfolding fs_Get_def c by (cases e) (auto split: prod.splits sum.splits if_splits)
  have "fv w1 = fv w" by (rule upd_empty [OF s(1)])
  then show ?thesis using os_Open_prefix [OF upd_wf [OF s(1)] o s(8)] k by (simp add: fs_objs_def)
qed

lemma resolve_plain:
  assumes r: "root_ok w" and k: "list_all plain (Split CHR ''/'' k)"
  shows "resolve w k = Inr (path w k)"
proof -
  obtain rs where rs: "rs \<noteq> []" "list_all plain rs" "p_root w = abs_path rs" using r by (auto simp: root_ok_def)
  define ks where "ks = Split CHR ''/'' k"
  have ks: "ks \<noteq> []" "list_all plain ks" "k = Join CHR ''/'' ks" using k Split_ne Join_Split by (auto simp: ks_def)
  have j: "k \<noteq> []" "hd k \<noteq> CHR ''/''" using Join_ne [OF ks(1,2)] ks(3) by auto
  have "Clean k = k" using ks by simp
  moreover have "k \<noteq> ''.''" using k by (auto simp: plain_def)
  moreover have "\<not> list_ex (\<lambda>seg. seg = ''..'') (Split CHR ''/'' k)"
    using k by (auto simp: list_ex_iff list_all_iff plain_def)
  moreover have "path_Join (p_root w) k = path w k"
    using path_Join_plain [OF rs(1) ks(1) rs(2) ks(2)] rs(3) ks(3) by (simp add: path_def)
  ultimately show ?thesis
    using j rs(3) by (cases k) (auto simp: resolve_def IsAbs_def HasPrefix_def abs_path_def Let_def)
qed

lemma fs_Delete_file:
  assumes g: "fs_good w" and k: "okfile k" and r: "fs_Delete ctx k w = (r, w')"
  shows "fs_good w' \<and> (fs_objs w' = fs_objs w \<or> fs_objs w' = (fs_objs w)(k := None))"
proof -
  have wf: "fs_wf w" "root_ok w" using g by (auto simp: fs_good_def)
  obtain e w1 where c: "ctx_Err ctx w = (e, w1)" by fastforce
  have u1: "upd w w1 {}" using ctx_Err_upd [OF wf(1) c] by simp
  have r1: "root_ok w1" "path w1 k = path w k" using u1 wf(2) by (auto simp: upd_def root_ok_def path_def)
  have rs: "resolve w1 k = Inr (path w k)" using resolve_plain [OF r1(1)] k r1(2) by (simp add: okfile_def)
  obtain r2 w2 where op: "os_Remove (path w k) w1 = (r2, w2)" by fastforce
  note u2 = remove_effect [OF u1 op]
  obtain r3 w3 where sd: "syncDir (Dir (path w k)) w2 = (r3, w3)" by fastforce
  note u3 = upd_sync [OF conjunct1 [OF u2] sd]
  have u: "upd w w' {path w k} \<and> (fv w' (path w k) = None \<or> fv w' (path w k) = fv w (path w k))"
  proof (cases e)
    case None
    then show ?thesis using r c rs op sd u2 u3 by (cases r2; cases r3) (auto simp: fs_Delete_def split: if_splits)
  next
    case (Some x)
    then show ?thesis using r c u1 upd_mono [OF u1] upd_empty [OF u1] by (auto simp: fs_Delete_def)
  qed
  have o: "fs_objs w' k' = fs_objs w k'" if "k' \<noteq> k" for k' using u upd_path [of w w' "{path w k}"] that by (auto simp: fs_objs_def upd_def)
  have "fs_objs w' = (fs_objs w)(k := fs_objs w' k)" by (rule ext) (simp add: o)
  moreover have "fs_objs w' k = fs_objs w k \<or> fs_objs w' k = None" using u upd_path [of w w' "{path w k}"] by (auto simp: fs_objs_def)
  ultimately have "fs_objs w' = fs_objs w \<or> fs_objs w' = (fs_objs w)(k := None)" by (metis fun_upd_triv)
  then show ?thesis using upd_good [OF g conjunct1 [OF u]] by blast
qed

subsection \<open>Pruning and reaping\<close>

text \<open>Only directories went away.\<close>

definition pruned :: "fs \<Rightarrow> fs \<Rightarrow> bool" where
  "pruned w w' \<longleftrightarrow> upd w w' {} \<and> (\<forall>q. lookup w' q = lookup w q \<or> (lookup w q = Some NDir \<and> lookup w' q = None))"

lemma pruned_refl: "fs_wf w \<Longrightarrow> pruned w w"
  by (simp add: pruned_def)

lemma pruned_trans: "pruned w w1 \<Longrightarrow> pruned w1 w2 \<Longrightarrow> pruned w w2"
  unfolding pruned_def using upd_trans [of w w1 "{}" w2 "{}" "{}"] by (metis empty_subsetI)

lemma pruned_obs: "obs w w' \<Longrightarrow> pruned w w'"
  using obsD by (auto simp: obs_def pruned_def)

lemma pruned_wf: "pruned w w' \<Longrightarrow> fs_wf w'"
  using upd_wf by (auto simp: pruned_def)

lemma os_Remove_lookup:
  assumes w: "fs_wf w" and r: "os_Remove p w = (r, w')"
  shows "lookup w' q = lookup w q \<or> (q = p \<and> lookup w' q = None)"
  using w r [unfolded os_Remove_def]
  by (cases rule: sys_cases) (auto dest!: lookup_cong split: option.splits node.splits if_splits)

lemma remove_pruned:
  assumes w: "fs_wf w" and d: "\<And>i. lookup w p \<noteq> Some (NFile i)" and r: "os_Remove p w = (r, w')"
  shows "pruned w w'"
proof -
  have fv: "fv w p = None" using d by (auto simp: fv_def split: option.splits node.splits)
  have "upd w w' {}"
  proof (cases r)
    case (Inr x)
    then have u: "upd w w' {p}" "fv w' p = fv w p" using os_Remove_upd [OF w r] fv by auto
    then have "fv w' q = fv w q" for q by (cases "q = p") (auto simp: upd_def)
    then show ?thesis using u(1) by (simp add: upd_def)
  qed (use os_Remove_upd [OF w r] in auto)
  moreover have "lookup w' q = lookup w q \<or> (lookup w q = Some NDir \<and> lookup w' q = None)" for q
    using os_Remove_lookup [OF w r, of q] d by (cases "lookup w p"; cases "the (lookup w p)") auto
  ultimately show ?thesis by (simp add: pruned_def)
qed

lemma prune_pruned:
  "fs_wf w \<Longrightarrow> prune depth ctx p self n w = (r, w') \<Longrightarrow> pruned w w'"
  "fs_wf w \<Longrightarrow> prune_list depth ctx es emp n w = (r, w') \<Longrightarrow> pruned w w'"
proof (induction depth ctx p self n w and depth ctx es emp n w arbitrary: r w' and r w' rule: prune_prune_list.induct)
  case (1 ctx path self n w)
  then show ?case by (auto simp: pruned_refl)
next
  case (2 depth ctx path self n w)
  obtain ce w1 where c: "ctx_Err ctx w = (ce, w1)" by fastforce
  have p1: "pruned w w1" by (rule pruned_obs [OF ctx_Err_obs [OF 2(2) c]])
  note r = 2(3) [unfolded prune.simps c prod.case]
  show ?case
  proof (cases ce)
    case (Some x)
    then show ?thesis using r p1 by auto
  next
    case None
    obtain dr w2 where rd: "os_ReadDir path w1 = (dr, w2)" by fastforce
    have o2: "obs w1 w2" using os_ReadDir_obs [OF pruned_wf [OF p1] rd] by simp
    have p2: "pruned w w2" using pruned_trans [OF p1 pruned_obs [OF o2]] .
    note r = r [unfolded None option.case rd prod.case]
    show ?thesis
    proof (cases dr)
      case (Inl x)
      then show ?thesis using r p2 by auto
    next
      case (Inr es)
      obtain lr n1 w3 where pl: "prune_list depth ctx es True n w2 = ((lr, n1), w3)" by (metis prod.exhaust)
      have p3: "pruned w2 w3" by (rule 2(1) [OF c [symmetric] None rd [symmetric] Inr pruned_wf [OF p2] pl])
      have wp: "pruned w w3" using pruned_trans [OF p2 p3] .
      note r = r [unfolded Inr sum.case pl prod.case]
      show ?thesis
      proof (cases lr)
        case (Inl x)
        then show ?thesis using r wp by auto
      next
        case (Inr emp)
        obtain rr w4 where rm: "os_Remove path w3 = (rr, w4)" by fastforce
        have "lookup w2 path = Some NDir" using readdir_lookup [OF pruned_wf [OF p1]] rd \<open>dr = Inr es\<close> obsD [OF o2] by auto
        then have "lookup w3 path \<noteq> Some (NFile i)" for i using p3 unfolding pruned_def by (metis node.distinct(1) option.distinct(1) option.inject)
        then have p4: "pruned w w4" using pruned_trans [OF wp remove_pruned [OF pruned_wf [OF wp] _ rm]] by blast
        show ?thesis using r Inr wp p4 rm by (cases rr) (auto split: if_splits)
      qed
    qed
  qed
next
  case (5 depth ctx p es emp n w)
  obtain pr n1 w1 where p: "prune depth ctx p True n w = ((pr, n1), w1)" by (metis prod.exhaust)
  have p1: "pruned w w1" by (rule 5(1) [OF 5(3) p])
  show ?case
  proof (cases pr)
    case (Inr gone)
    then show ?thesis using 5(4) p 5(2) [OF p [symmetric] refl Inr pruned_wf [OF p1]] pruned_trans [OF p1] by simp
  qed (use 5(4) p p1 in auto)
qed (auto simp: pruned_refl)

lemma upd_sub_objs:
  assumes g: "fs_good w" and u: "upd w w' S" and S: "\<And>p. p \<in> S \<Longrightarrow> isFSStagingName (Basename p)"
  shows "fs_good w' \<and> fs_objs w' = fs_objs w"
proof -
  have "path w k \<notin> S" if "okkey k" for k
    using S [of "path w k"] that Basename_below [of "p_root w" k] by (auto simp: okkey_def path_def)
  then show ?thesis using upd_good [OF g u] upd_objs [OF u] by blast
qed

lemma fs_Prune_state:
  assumes g: "fs_good w" and p: "fs_PruneEmptyDirs ctx d b w = (r, w')"
  shows "fs_good w' \<and> fs_objs w' = fs_objs w"
proof -
  have wf: "fs_wf w" using g by (simp add: fs_good_def)
  define rv where "rv = (if Trim_slash d \<noteq> [] then resolve w (Trim_slash d) else Inr (p_root w))"
  note p = p [unfolded fs_PruneEmptyDirs_def rv_def [symmetric]]
  have "upd w w' {}"
  proof (cases "p_root w = [] \<or> isl rv")
    case True
    then show ?thesis using p wf by (cases rv) (auto split: if_splits)
  next
    case False
    then obtain full where f: "rv = Inr full" and nr: "p_root w \<noteq> []" by (cases rv) auto
    obtain pr n w1 where pn: "prune (max_depth w) ctx full b 0 w = ((pr, n), w1)" by (metis prod.exhaust)
    have u1: "upd w w1 {}" using prune_pruned(1) [OF wf pn] by (simp add: pruned_def)
    obtain s1 w2 where s1: "syncDir full w1 = (s1, w2)" by fastforce
    have u2: "upd w w2 {}" using upd_trans [OF u1, of w2 "{}" "{}"] syncDir_upd [OF upd_wf [OF u1] s1] by simp
    obtain s2 w3 where s2: "syncDir (Dir full) w2 = (s2, w3)" by fastforce
    have u3: "upd w w3 {}" using upd_trans [OF u2, of w3 "{}" "{}"] syncDir_upd [OF upd_wf [OF u2] s2] by simp
    show ?thesis using p nr u1 u2 u3 unfolding f sum.case pn prod.case s1 s2 by (cases pr) (auto split: if_splits)
  qed
  then show ?thesis using upd_sub_objs [OF g] by blast
qed

definition reapable :: "string set" where
  "reapable = {p. isReapableStagingName (Basename p)}"

lemma reap_loop_upd:
  "fs_wf w \<Longrightarrow> reap_loop ctx pending cutoff vs st dirs w = (r, w') \<Longrightarrow> upd w w' reapable"
proof (induction vs arbitrary: st dirs w)
  case (Cons v vs)
  obtain ce w1 where c: "ctx_Err ctx w = (ce, w1)" by fastforce
  have u1: "upd w w1 {}" using ctx_Err_upd [OF Cons(2) c] by simp
  have IH: "upd w w' reapable" if "upd w u reapable" "reap_loop ctx pending cutoff vs st' dirs' u = (r, w')" for u st' dirs'
    using upd_trans [OF that(1) Cons(1) [OF upd_wf [OF that(1)] that(2)]] by simp
  have u1': "upd w w1 reapable" using upd_mono [OF u1] by simp
  note l = Cons(3) [unfolded reap_loop.simps c prod.case]
  show ?case
  proof (cases ce)
    case (Some x)
    then show ?thesis using l u1' by auto
  next
    case None
    note l = l [unfolded None option.case]
    show ?thesis
    proof (cases v)
      case (VisitErr p x)
      then show ?thesis using l u1' IH [OF u1'] by (auto split: if_splits)
    next
      case (Visit p n)
      show ?thesis
      proof (cases "n = NDir \<or> \<not> isReapableStagingName (Basename p) \<or> p \<in> set pending")
        case True
        then show ?thesis using l Visit IH [OF u1'] by (cases n) auto
      next
        case False
        then obtain i where n: "n = NFile i" "isReapableStagingName (Basename p)" "p \<notin> set pending" by (cases n) auto
        obtain sr w2 where s: "os_Stat p w1 = (sr, w2)" by fastforce
        have u2: "upd w w2 {}" using upd_trans [OF u1, of w2 "{}" "{}"] os_Stat_upd [OF upd_wf [OF u1] s] by simp
        have u2': "upd w w2 reapable" using upd_mono [OF u2] by simp
        obtain rr w3 where rm: "os_Remove p w2 = (rr, w3)" by fastforce
        have "upd w w3 {p}" using remove_effect [OF u2 rm] by simp
        then have u3: "upd w w3 reapable" using upd_mono n(2) by (auto simp: reapable_def)
        note l = l [unfolded Visit n(1) visit.case node.case s prod.case Let_def rm]
        show ?thesis using l n u2' u3 IH [OF u2'] IH [OF u3] by (cases sr; cases rr) (auto split: if_splits)
      qed
    qed
  qed
qed auto

lemma sync_dirs_upd: "fs_wf w \<Longrightarrow> sync_dirs ds e w = (r, w') \<Longrightarrow> upd w w' {}"
proof (induction ds arbitrary: e w)
  case (Cons d ds)
  obtain s w1 where s: "syncDir d w = (s, w1)" by fastforce
  have u: "upd w w1 {}" using syncDir_upd [OF Cons(2) s] by simp
  then show ?case using Cons(1) [OF upd_wf [OF u]] Cons(3) s upd_trans [OF u, of w' "{}" "{}"] by auto
qed auto

lemma fs_Reap_state:
  assumes g: "fs_good w" and r: "fs_ReapStaging ctx age w = (r, w')"
  shows "fs_good w' \<and> fs_objs w' = fs_objs w"
proof (cases "p_root w = []")
  case True
  then show ?thesis using r g by (simp add: fs_ReapStaging_def Let_def)
next
  case False
  have wf: "fs_wf w" using g by (simp add: fs_good_def)
  obtain now w1 where n: "time_Now w = (now, w1)" by fastforce
  have u1: "upd w w1 {}" by (rule time_Now_upd [OF wf n])
  obtain vs w2 where wd: "walkDirBounded (p_root w1) w1 = (vs, w2)" by fastforce
  have u2: "upd w w2 {}" using upd_trans [OF u1, of w2 "{}" "{}"] walkDirBounded_obs [OF upd_wf [OF u1] wd] by (simp add: obs_def)
  obtain st dirs err w3 where rl: "reap_loop ctx (map fst (p_deferred w)) (now - age) vs \<lparr>rs_Removed = 0, rs_Bytes = 0, rs_Unsupported = False\<rparr> [] w2 = ((st, dirs, err), w3)"
    by (metis prod.exhaust)
  have u3: "upd w w3 reapable" using upd_trans [OF u2 reap_loop_upd [OF upd_wf [OF u2] rl], of reapable] by simp
  obtain err' w4 where sd: "sync_dirs dirs err w3 = (err', w4)" by fastforce
  have u4: "upd w w4 reapable" using upd_trans [OF u3 sync_dirs_upd [OF upd_wf [OF u3] sd], of reapable] by simp
  have "w' = w4" using r False unfolding fs_ReapStaging_def Let_def n prod.case wd rl sd by simp
  then show ?thesis using upd_sub_objs [OF g u4] by (auto simp: reapable_def isReapableStagingName_def isFSStagingName_def)
qed

lemma run_okkey: "CHR ''/'' \<notin> set r \<Longrightarrow> CHR ''.'' \<notin> set r \<Longrightarrow> okkey (gcRunsPrefix @ r @ ''.json'')"
proof -
  assume r: "CHR ''/'' \<notin> set r" "CHR ''.'' \<notin> set r"
  let ?ks = "[''gc'', ''runs'', r @ ''.json'']"
  have k: "gcRunsPrefix @ r @ ''.json'' = Join CHR ''/'' ?ks" by (simp add: gcRunsPrefix_def)
  have p: "list_all plain ?ks" using r by (auto simp: plain_def)
  have o: "okname (last ?ks)" by (simp add: okname_def Contains_dot_suffix [OF r(2)] HasPrefix_def)
  have "\<not> HasSuffix (r @ ''.json'') ''.tmp''" by (auto simp: HasSuffix_iff dest: arg_cong [where f = last])
  then have st: "\<not> isFSStagingName (last ?ks)" unfolding isFSStagingName_def by (simp add: Contains_dot_suffix [OF r(2)] HasPrefix_def)
  have d: "list_all (\<lambda>c. \<not> okname c) (butlast ?ks)" by (simp add: okname_def HasPrefix_def)
  show ?thesis unfolding k by (rule okkeyI [OF _ p o st d]) simp
qed

interpretation fs_gc: gc_store "fs_plugin psha statfs" fs_good okkey fs_objs fs_pend fs_runtime okfile
  for psha statfs
proof
  fix w k r w' ctx d "is" e i b pr age st h and rc :: "error reader"
  show "okkey k" if "fs_objs w k \<noteq> None" using that by (auto simp: fs_objs_def split: if_splits)
  show "okkey (ChunkKey h)" by (rule okkey_ChunkKey)
  show "okkey (gcRunsPrefix @ k @ ''.json'')" if "CHR ''/'' \<notin> set k" "CHR ''.'' \<notin> set k" using that by (rule run_okkey)
  show "fs_good w' \<and> fs_objs w' = fs_objs w" if "fs_good w" "sp_Get (fs_plugin psha statfs) ctx k w = (r, w')"
    using read_laws [OF that(1) fs_Get_any [OF that(1)]] that(2) by simp
  show "\<exists>b t n. fs_objs w k = Some (b, t) \<and> rd_data rc = take n b"
    if "fs_good w" "okkey k" "sp_Get (fs_plugin psha statfs) ctx k w = (Inr rc, w')" using fs_Get_prefix [OF that(1,2)] that(3) by simp
  show "fs_good w' \<and> (fs_objs w' = fs_objs w \<or> fs_objs w' = (fs_objs w)(k := None))"
    if "fs_good w" "okfile k" "sp_Delete (fs_plugin psha statfs) ctx k w = (e, w')" for e using fs_Delete_file [OF that(1,2)] that(3) by simp
  show "okfile (oi_Key i) \<and> (object_name (oi_Key i) \<longrightarrow> okkey (oi_Key i)) \<and> (oi_Key i = d \<or> HasPrefix (oi_Key i) (d @ ''/''))"
    if "fs_good w" "d \<in> gc_dirs" "sp_List (fs_plugin psha statfs) ctx (d @ ''/'') w = ((is, e), w')" "i \<in> set is"
    by (rule fs_List_file [OF that(1) _ _ that(4)]) (use that(2,3) in \<open>auto simp: gc_dirs_def plain_def\<close>)
  show "fs_good w' \<and> fs_objs w' = fs_objs w" if "fs_good w" "PruneEmptyDirsOf (fs_plugin psha statfs) ctx d b w = (pr, w')"
    using fs_Prune_state [OF that(1)] that(2) by (simp add: PruneEmptyDirsOf_def fs_plugin_def)
  show "fs_good w' \<and> fs_objs w' = fs_objs w" if "fs_good w" "ReapStagingOf (fs_plugin psha statfs) ctx age w = (st, w')"
    using fs_Reap_state [OF that(1)] that by (auto simp: ReapStagingOf_def fs_plugin_def Let_def split: if_splits)
qed

end
