(* ===== verification/GcProps.thy ===== *)
theory GcProps
  imports FsGc
begin

text \<open>
  Garbage collection of a filesystem repository, stated on its objects: what a sweep removes, that live backups stay
  readable, and what reference collection finds.
\<close>

subsection \<open>The parameters of a sweep\<close>

definition sweep_grace :: "'w SweepOptions \<Rightarrow> instant \<Rightarrow> duration" where
  "sweep_grace opts start = effectiveGrace \<lparr>cro_TombstoneGrace = sw_TombstoneGrace opts, cro_Now = start, cro_RefSpill = sw_RefSpill opts\<rparr>"

definition sweep_minAge :: "'w SweepOptions \<Rightarrow> instant \<Rightarrow> duration" where
  "sweep_minAge opts start = effectiveMinAge \<lparr>fo_MinAge = sw_MinChunkAge opts, fo_Now = start\<rparr>"

text \<open>The callbacks of the options only look.\<close>

definition callbacks_look :: "fs SweepOptions \<Rightarrow> bool" where
  "callbacks_look opts \<longleftrightarrow>
     (\<forall>f w r w'. sw_LiveLeases opts = Some f \<longrightarrow> f w = (r, w') \<longrightarrow> fs_good w \<longrightarrow> fs_good w' \<and> fs_objs w' = fs_objs w) \<and>
     (\<forall>f w t w'. sw_Now opts = Some f \<longrightarrow> f w = (t, w') \<longrightarrow> fs_good w \<longrightarrow> fs_good w' \<and> fs_objs w' = fs_objs w)"

lemma fs_Sweep_effect:
  assumes "fs_good w" "readable sha (manifest_area (fs_objs w))" "callbacks_look opts" "opt_MaxBloomBytes (sw_RefSpill opts) < 2 ^ 58"
    "sweep_clock fs_runtime opts w = (start, w0)" "start \<noteq> zero_time"
    "Sweep sha fs_runtime (fs_plugin psha statfs) ctx opts w = (out, w')"
  shows "fs_good w' \<and> (\<forall>k. fs_objs w' k = fs_objs w k \<or> HasPrefix k ''gc/'' \<or>
    (sw_Apply opts \<and> fs_objs w' k = None \<and> sweepable (sweep_grace opts start) (sweep_minAge opts start) start (fs_objs w) k))"
proof -
  have "fs_gc.env_ok opts" using assms(3) by (simp add: fs_gc.env_ok_def fs_gc.kept_def callbacks_look_def)
  from fs_gc.Sweep_touches [OF assms(1,2) this assms(4-7)] assms(1) show ?thesis
    unfolding fs_gc.touches_def sweep_grace_def sweep_minAge_def by blast
qed

lemma live_not_swept:
  assumes "live_manifest grace cutoff m k"
  shows "\<not> HasPrefix k ''gc/'' \<and> \<not> sweepable g a st m k"
proof -
  have a: "in_area k" using live_area [OF assms] .
  have "\<not> isStaleTempKey k"
  proof (cases "HasSuffix k ''/manifest.json''")
    case True
    then obtain r where "k = r @ CHR ''/'' # ''manifest.json''" by (auto simp: HasSuffix_iff)
    then have "Basename k = ''manifest.json''" using Basename_below [of r "''manifest.json''"] by (simp add: Basename_def)
    moreover have "\<not> isStaleTempKey ''manifest.json''" "Basename ''manifest.json'' = ''manifest.json''" by code_simp+
    ultimately show ?thesis by (metis isStaleTempKey_def)
  qed (use assms in \<open>auto simp: live_manifest_def\<close>)
  moreover have "k \<noteq> ChunkKey h" for h using a by (auto simp: in_area_def ChunkKey_def chunk_prefix_def HasPrefix_iff Let_def)
  moreover have "\<not> HasPrefix k ''gc/''" using a by (auto simp: in_area_def HasPrefix_iff)
  ultimately show ?thesis by (auto simp: sweepable_def)
qed

lemma chunk_not_swept:
  assumes "referenced g (st - g) m h" "h \<noteq> zero_hash"
  shows "\<not> HasPrefix (ChunkKey h) ''gc/'' \<and> \<not> sweepable g a st m (ChunkKey h)"
proof -
  have no: "CHR ''/'' \<notin> set (Hash_String h)" "CHR ''.'' \<notin> set (Hash_String h)" using hex_no by (auto simp: Hash_String_def)
  obtain x where x: "ChunkKey h = x @ CHR ''/'' # Hash_String h @ ''.chk''" by (simp add: ChunkKey_def Let_def chunk_suffix_def)
  have "Basename (ChunkKey h) = Hash_String h @ ''.chk''" unfolding x by (rule Basename_no_slash) (use no in auto)
  then have "\<not> isStaleTempKey (ChunkKey h)" unfolding isStaleTempKey_def by (simp add: Contains_dot_suffix [OF no(2)] HasPrefix_def)
  moreover have "\<not> HasPrefix (ChunkKey h) ''gc/''" by (auto simp: ChunkKey_def chunk_prefix_def HasPrefix_iff Let_def)
  ultimately show ?thesis using assms by (auto simp: sweepable_def)
qed

subsection \<open>An example\<close>

text \<open>A backup of one chunk, and a second chunk nothing refers to.\<close>

definition ex_h :: "nat \<Rightarrow> Hash" where "ex_h n = hash_of_bytes [of_nat n]"

definition ex_put_obj :: "string \<Rightarrow> bytes \<Rightarrow> fs \<Rightarrow> (error + PutResult) \<times> fs" where
  "ex_put_obj k b w = fs_Put ex_sha CallerCtx k (bytes_NewReader b) zero_PutOptions w"

definition ex_backup :: bytes where
  "ex_backup = Marshal (JObj [(''files'', JArr [JObj [(''chunks'', JArr [JObj [(''hash'', JStr (Hash_String (ex_h 1)))]])]])])"

definition ex_mkey :: string where "ex_mkey = ''manifests/d/backups/b/manifest.json''"

definition ex_repo :: fs where
  "ex_repo = snd (ex_put_obj (ChunkKey (ex_h 2)) [2] (snd (ex_put_obj (ChunkKey (ex_h 1)) [1] (snd (ex_put_obj ex_mkey ex_backup (ex_fs []))))))"

definition ex_spill :: SpillOptions where
  "ex_spill = \<lparr>opt_MemEntries = 0, opt_MaxBloomBytes = 0, opt_faults = \<lambda>_. [], opt_free = \<lambda>_. []\<rparr>"

definition ex_sweep :: "fs SweepOptions" where
  "ex_sweep = \<lparr>sw_TombstoneGrace = 0, sw_MinChunkAge = -1, sw_Apply = True, sw_LiveLeases = None, sw_BatchSize = 0, sw_BatchDuration = 0,
     sw_Now = Some (\<lambda>w. (1000, w)), sw_RefSpill = ex_spill, sw_hostname = ''h'', sw_log_faults = []\<rparr>"

definition ex_swept :: fs where
  "ex_swept = snd (Sweep ex_sha fs_runtime (fs_plugin ex_sha ex_statfs) CallerCtx ex_sweep ex_repo)"

lemma ex_put_objs:
  assumes "fs_good w" "okkey k" "\<not> isl (fst (ex_put_obj k b w))"
  shows "fs_good (snd (ex_put_obj k b w)) \<and> (\<exists>t. fs_objs (snd (ex_put_obj k b w)) = (fs_objs w)(k \<mapsto> (b, t)))"
proof -
  obtain x where x: "ex_put_obj k b w = (Inr x, snd (ex_put_obj k b w))" using assms(3) by (metis isl_def prod.collapse sum.exhaust)
  have "sp_Put (fs_plugin ex_sha ex_statfs) CallerCtx k (bytes_NewReader b) zero_PutOptions w = (Inr x, snd (ex_put_obj k b w))"
    using x by (simp add: ex_put_obj_def)
  from fs_store.put_good [OF assms(1,2) this] fs_store.put_inline [OF assms(1,2) ex_inline this] show ?thesis by blast
qed

lemma ex_mkey_ok: "okkey ex_mkey"
  by code_simp

lemma ex_repo_objs:
  obtains t0 t1 t2 where "fs_good ex_repo"
    "fs_objs ex_repo = (\<lambda>_. None)(ex_mkey \<mapsto> (ex_backup, t0), ChunkKey (ex_h 1) \<mapsto> ([1], t1), ChunkKey (ex_h 2) \<mapsto> ([2], t2))"
proof -
  let ?w1 = "snd (ex_put_obj ex_mkey ex_backup (ex_fs []))" and ?w2 = "\<lambda>w. snd (ex_put_obj (ChunkKey (ex_h 1)) [1] w)"
  have ok: "\<not> isl (fst (ex_put_obj ex_mkey ex_backup (ex_fs [])))" "\<not> isl (fst (ex_put_obj (ChunkKey (ex_h 1)) [1] ?w1))"
    "\<not> isl (fst (ex_put_obj (ChunkKey (ex_h 2)) [2] (?w2 ?w1)))" by code_simp+
  have e: "fs_objs (ex_fs []) = (\<lambda>_. None)"
    using ex_fs_lookup [of "[]"] by (auto simp: fs_objs_def fv_def fun_eq_iff split: option.splits node.splits)
  note 1 = ex_put_objs [OF ex_fs_good0 ex_mkey_ok ok(1)]
  note 2 = ex_put_objs [OF conjunct1 [OF 1] okkey_ChunkKey ok(2)]
  note 3 = ex_put_objs [OF conjunct1 [OF 2] okkey_ChunkKey ok(3)]
  obtain t0 t1 t2 where "fs_objs ?w1 = (\<lambda>_. None)(ex_mkey \<mapsto> (ex_backup, t0))" "fs_objs (?w2 ?w1) = (fs_objs ?w1)(ChunkKey (ex_h 1) \<mapsto> ([1], t1))"
    "fs_objs ex_repo = (fs_objs (?w2 ?w1))(ChunkKey (ex_h 2) \<mapsto> ([2], t2))"
    using 1 2 3 e unfolding ex_repo_def by metis
  then show thesis using that [of t0 t1 t2] 3 unfolding ex_repo_def by simp
qed

lemma ex_refs: "backup_refs ex_backup = (None, [Hash_String (ex_h 1)])"
  by code_simp

lemma ex_len: "int (length ex_backup) < MaxStreamedMetadataBytes"
  by code_simp

lemma ex_mkey_area: "HasPrefix ex_mkey ''manifests/''" "in_area ex_mkey" "\<not> in_area (ChunkKey h)" "ex_mkey \<noteq> ChunkKey h"
  by (auto simp: in_area_def ex_mkey_def ChunkKey_def chunk_prefix_def HasPrefix_iff Let_def)

lemma ex_readable: "readable ex_sha (manifest_area (fs_objs ex_repo))"
proof -
  obtain t0 t1 t2 where o: "fs_objs ex_repo = (\<lambda>_. None)(ex_mkey \<mapsto> (ex_backup, t0), ChunkKey (ex_h 1) \<mapsto> ([1], t1), ChunkKey (ex_h 2) \<mapsto> ([2], t2))"
    using ex_repo_objs by metis
  have a: "manifest_area (fs_objs ex_repo) = (\<lambda>_. None)(ex_mkey \<mapsto> (ex_backup, t0))" (is "?m = ?s")
    unfolding o using ex_mkey_area by (auto simp: manifest_area_def fun_eq_iff)
  have "area_hashes ?s \<subseteq> {ex_h 1}"
    unfolding area_hashes_def by (auto simp: manifest_hashes_def ex_mkey_area backup_hashes_def ex_refs split: if_splits)
  then have "finite (area_hashes ?s)" "card (area_hashes ?s) \<le> 1" using card_mono [of "{ex_h 1}"] finite_subset [of _ "{ex_h 1}"] by auto
  moreover have "dom ?s = {ex_mkey}" by (auto simp: dom_def)
  ultimately have "bounded_store ?s" unfolding bounded_store_def using ex_len by (auto split: if_splits)
  moreover have "inj_on (harvestDigest ex_sha) (stored_infos ?s)" unfolding stored_infos_def inj_on_def by (auto split: if_splits)
  ultimately show ?thesis unfolding a by (simp add: readable_def)
qed

lemma ex_sweep_env:
  "callbacks_look ex_sweep" "opt_MaxBloomBytes (sw_RefSpill ex_sweep) < 2 ^ 58" "sweep_clock fs_runtime ex_sweep ex_repo = (1000, ex_repo)"
  "(1000 :: int) \<noteq> zero_time" "sweep_grace ex_sweep 1000 = 24 * hour" "sweep_minAge ex_sweep 1000 = 0" "sw_Apply ex_sweep"
  by (simp_all add: callbacks_look_def ex_sweep_def ex_spill_def sweep_clock_def sweep_grace_def sweep_minAge_def effectiveGrace_def
      effectiveMinAge_def DefaultTombstoneGracePeriod_def)

lemma ex_run: "Sweep ex_sha fs_runtime (fs_plugin ex_sha ex_statfs) CallerCtx ex_sweep ex_repo =
    (fst (Sweep ex_sha fs_runtime (fs_plugin ex_sha ex_statfs) CallerCtx ex_sweep ex_repo), ex_swept)"
  by (simp add: ex_swept_def)

lemma ex_live: "live_manifest (24 * hour) (1000 - 24 * hour) (fs_objs ex_repo) ex_mkey"
proof -
  obtain t0 t1 t2 where o: "fs_objs ex_repo = (\<lambda>_. None)(ex_mkey \<mapsto> (ex_backup, t0), ChunkKey (ex_h 1) \<mapsto> ([1], t1), ChunkKey (ex_h 2) \<mapsto> ([2], t2))"
    using ex_repo_objs by metis
  have "\<not> HasSuffix ex_mkey ''/manifest.json.tombstone''" "HasSuffix ex_mkey ''/manifest.json''" by code_simp+
  moreover have "\<not> HasPrefix (ChunkKey h) ''manifests/''" for h using ex_mkey_area(3) [of h] by (auto simp: in_area_def)
  ultimately show ?thesis using ex_mkey_area(1) unfolding live_manifest_def tombstoned_def o by (auto split: if_splits)
qed

subsection \<open>What a sweep removes\<close>



text \<open>
  C24. A sweep keeps every live backup restorable. For every manifest that is not under an expired tombstone, the sweep
  leaves the manifest and each chunk it names as they were (the all-zero hash excepted).
\<close>

theorem fs_sweep_keeps_backups:
  assumes "fs_good w" "readable sha (manifest_area (fs_objs w))" "callbacks_look opts" "opt_MaxBloomBytes (sw_RefSpill opts) < 2 ^ 58"
    "sweep_clock fs_runtime opts w = (start, w0)" "start \<noteq> zero_time"
    "Sweep sha fs_runtime (fs_plugin psha statfs) ctx opts w = (out, w')"
    "fs_objs w k = Some (b, t)" "live_manifest (sweep_grace opts start) (start - sweep_grace opts start) (fs_objs w) k"
  shows "fs_objs w' k = Some (b, t) \<and>
    (\<forall>h \<in> manifest_hashes k b. h \<noteq> zero_hash \<longrightarrow> fs_objs w' (ChunkKey h) = fs_objs w (ChunkKey h))"
proof -
  note e = fs_Sweep_effect [OF assms(1-7)]
  have "referenced (sweep_grace opts start) (start - sweep_grace opts start) (fs_objs w) h" if "h \<in> manifest_hashes k b" for h
    using assms(8,9) that by (auto simp: referenced_def)
  then show ?thesis using e live_not_swept [OF assms(9)] chunk_not_swept assms(8) by (metis option.distinct(1))
qed

theorem fs_sweep_keeps_backups_witness:
  "\<exists>t0 t1. fs_objs ex_swept ex_mkey = Some (ex_backup, t0) \<and> fs_objs ex_swept (ChunkKey (ex_h 1)) = Some ([1], t1)"
proof -
  obtain t0 t1 t2 where o: "fs_good ex_repo" "fs_objs ex_repo = (\<lambda>_. None)(ex_mkey \<mapsto> (ex_backup, t0), ChunkKey (ex_h 1) \<mapsto> ([1], t1), ChunkKey (ex_h 2) \<mapsto> ([2], t2))"
    using ex_repo_objs by metis
  have ne: "ex_h 1 \<noteq> ex_h 2" "ex_h 1 \<noteq> zero_hash" by code_simp+
  have h: "ex_h 1 \<in> manifest_hashes ex_mkey ex_backup" by (simp add: manifest_hashes_def ex_mkey_area backup_hashes_def ex_refs)
  have k: "fs_objs ex_repo ex_mkey = Some (ex_backup, t0)" "fs_objs ex_repo (ChunkKey (ex_h 1)) = Some ([1], t1)"
    unfolding o(2) using ex_mkey_area(4) ne(1) by auto
  from fs_sweep_keeps_backups [OF o(1) ex_readable ex_sweep_env(1-4) ex_run k(1), unfolded ex_sweep_env(5), OF ex_live] h ne(2) k(2)
  show ?thesis by auto
qed

end
