(* ===== verification/JsonRound.thy ===== *)
theory JsonRound
  imports GoTime
begin

text \<open>
  What \<^verbatim>\<open>json.Marshal\<close> writes, \<^verbatim>\<open>json.Unmarshal\<close> reads back: the scanner inverts the printer on every value whose numbers are
  integer literals. The run records, pins, leases and claims of the repository are such values.
\<close>

subsection \<open>Strings\<close>

lemma utf8_ascii: "of_char c < (128 :: nat) \<Longrightarrow> utf8 (of_char c) = [c]"
  by (simp add: utf8_def)

lemma hex4_escape:
  assumes "n < 256"
  shows "hex4 (CHR ''0'' # CHR ''0'' # hextable (n div 16) # hextable (n mod 16) # s) = Some (n, s)"
proof -
  have "n div 16 < 16" "n mod 16 < 16" using assms by auto
  moreover have "hexNibble CHR ''0'' = Some 0" by code_simp
  ultimately show ?thesis by (simp add: mult_div_mod_eq mult.commute)
qed

lemma scan_u_escape: "of_char c < (128 :: nat) \<Longrightarrow> scan_u (''00'' @ hex2 (of_char c) @ s) = Some ([c], s)"
  using hex4_escape [of "of_char c" s] by (simp add: scan_u_def hex2_def utf8_ascii del: hex4.simps)

text \<open>A character is written as itself, with a numeric escape, or with a letter after the backslash.\<close>

lemma escape_cases:
  "escape_char c = [c] \<and> c \<noteq> CHR 0x22 \<and> c \<noteq> CHR 0x5C \<and> \<not> c < CHR '' '' \<or>
   escape_char c = [CHR 0x5C] @ ''u00'' @ hex2 (of_char c) \<and> of_char c < (128 :: nat) \<or>
   (case escape_char c of [b, e] \<Rightarrow> b = CHR 0x5C \<and> simple_escape e = Some c \<and> e \<noteq> CHR ''u'' | _ \<Rightarrow> False)"
proof -
  have "\<forall>c. escape_char c = [c] \<and> c \<noteq> CHR 0x22 \<and> c \<noteq> CHR 0x5C \<and> \<not> c < CHR '' '' \<or>
     escape_char c = [CHR 0x5C] @ ''u00'' @ hex2 (of_char c) \<and> of_char c < (128 :: nat) \<or>
     (case escape_char c of [b, e] \<Rightarrow> b = CHR 0x5C \<and> simple_escape e = Some c \<and> e \<noteq> CHR ''u'' | _ \<Rightarrow> False)"
    by code_simp
  then show ?thesis by blast
qed

lemma backslash: "\<not> CHR 0x5C < CHR '' ''" "CHR 0x5C \<noteq> CHR 0x22"
  by code_simp+

lemma scan_escape:
  assumes "scan_string n s = Inr (t, r)"
  shows "scan_string (Suc n) (escape_char c @ s) = Inr (c # t, r)"
proof -
  consider "escape_char c = [c]" "c \<noteq> CHR 0x22" "c \<noteq> CHR 0x5C" "\<not> c < CHR '' ''"
    | "escape_char c = [CHR 0x5C] @ ''u00'' @ hex2 (of_char c)" "of_char c < (128 :: nat)"
    | e where "escape_char c = [CHR 0x5C, e]" "simple_escape e = Some c" "e \<noteq> CHR ''u''"
    using escape_cases [of c] by (auto split: list.splits)
  then show ?thesis
  proof cases
    case 1
    then show ?thesis using assms by simp
  next
    case 2
    then show ?thesis using assms scan_u_escape [OF 2(2), of s] by (simp add: backslash)
  next
    case 3
    then show ?thesis using assms by (simp add: backslash)
  qed
qed

lemma scan_print_chars: "length s < n \<Longrightarrow> scan_string n (concat (map escape_char s) @ CHR 0x22 # r) = Inr (s, r)"
proof (induction s arbitrary: n)
  case Nil
  then show ?case by (cases n) auto
next
  case (Cons c s)
  then obtain k where "n = Suc k" "length s < k" by (cases n) auto
  then show ?case using scan_escape [OF Cons.IH] by simp
qed

lemma length_escapes: "length s \<le> length (concat (map escape_char s))"
proof (induction s)
  case (Cons c s)
  have "1 \<le> length (escape_char c)" by (simp add: escape_char_def hex2_def)
  then show ?case using Cons by simp
qed simp

lemma scan_print_string:
  "scan_string (Suc (length (concat (map escape_char s) @ CHR 0x22 # r))) (concat (map escape_char s) @ CHR 0x22 # r) = Inr (s, r)"
  by (rule scan_print_chars) (use length_escapes [of s] in simp)

subsection \<open>Numbers\<close>

text \<open>An integer literal: no leading zero, an optional minus sign.\<close>

definition int_text :: "string \<Rightarrow> bool" where
  "int_text l =
     (let ds = (if l \<noteq> [] \<and> hd l = CHR ''-'' then tl l else l)
      in ds \<noteq> [] \<and> list_all isDigit ds \<and> (hd ds = CHR ''0'' \<longrightarrow> tl ds = []))"

text \<open>What follows a value in a document.\<close>

definition stops :: "string \<Rightarrow> bool" where
  "stops r \<longleftrightarrow> r = [] \<or> hd r \<in> {CHR '','', CHR 0x5D, CHR 0x7D}"

lemma stops_simps [simp]: "stops []" "stops (CHR '','' # r)" "stops (CHR 0x5D # r)" "stops (CHR 0x7D # r)"
  by (simp_all add: stops_def)

lemma stops_digits: "stops r \<Longrightarrow> list_all isDigit ds \<Longrightarrow> span_digits (ds @ r) = (ds, r)"
proof -
  assume r: "stops r" and ds: "list_all isDigit ds"
  have "\<not> isDigit CHR '',''" "\<not> isDigit CHR 0x5D" "\<not> isDigit CHR 0x7D" by code_simp+
  then have "takeWhile isDigit r = []" "dropWhile isDigit r = r" using r by (cases r; auto simp: stops_def)+
  then show ?thesis using ds by (auto simp: span_digits_def list_all_iff)
qed

lemma scan_int_text:
  assumes "ds \<noteq> []" "list_all isDigit ds" "hd ds = CHR ''0'' \<longrightarrow> tl ds = []" "stops r"
  shows "scan_int (ds @ r) = Inr (ds, r)"
  using assms stops_digits [OF assms(4,2)] by (cases ds) (auto simp: scan_int_def scan_digits_def)

lemma scan_number_text:
  assumes "int_text l" "stops r"
  shows "scan_number (l @ r) = Inr (l, r)"
proof -
  have m: "\<not> isDigit CHR ''-''" by code_simp
  have fr: "scan_frac r = Inr ([], r)" "scan_exp r = Inr ([], r)" using assms(2) by (auto simp: scan_frac_def scan_exp_def stops_def)
  show ?thesis
  proof (cases "l \<noteq> [] \<and> hd l = CHR ''-''")
    case True
    then obtain ds where l: "l = CHR ''-'' # ds" by (cases l) auto
    have "scan_int (ds @ r) = Inr (ds, r)" by (rule scan_int_text) (use assms l in \<open>auto simp: int_text_def\<close>)
    then show ?thesis by (simp add: scan_number_def l fr)
  next
    case False
    have "scan_int (l @ r) = Inr (l, r)" by (rule scan_int_text) (use assms False in \<open>auto simp: int_text_def Let_def\<close>)
    moreover have "l \<noteq> []" using assms(1) False by (auto simp: int_text_def)
    ultimately show ?thesis using False by (simp add: scan_number_def fr)
  qed
qed

lemma digit_char_isDigit: "n < 10 \<Longrightarrow> isDigit (digit_char n)"
proof -
  have "\<forall>n \<in> set [0..<10]. isDigit (digit_char n)" by code_simp
  then show "n < 10 \<Longrightarrow> ?thesis" by simp
qed

lemma digit_char_0: "n < 10 \<Longrightarrow> digit_char n = CHR ''0'' \<longleftrightarrow> n = 0"
proof -
  have "\<forall>n \<in> set [0..<10]. digit_char n = CHR ''0'' \<longleftrightarrow> n = 0" by code_simp
  then show "n < 10 \<Longrightarrow> ?thesis" by simp
qed

lemma dec_digits_isDigit: "list_all isDigit (dec_digits n)"
  using dec_digits_set [of "Collect isDigit" n] digit_char_isDigit by (auto simp: list_all_iff)

lemma dec_digits_nonempty: "dec_digits n \<noteq> []"
  by (subst dec_digits.simps) simp

lemma dec_digits_head: "hd (dec_digits n) = CHR ''0'' \<longleftrightarrow> n = 0"
proof (induction n rule: dec_digits.induct)
  case (1 n)
  show ?case
  proof (cases "n < 10")
    case True
    then show ?thesis by (simp add: dec_digits.simps [of n] digit_char_0)
  next
    case False
    then show ?thesis using 1 [OF False] dec_digits_nonempty [of "n div 10"] by (simp add: dec_digits.simps [of n])
  qed
qed

lemma int_text_fmt: "int_text (fmt_d 0 i)"
proof -
  have m: "\<not> isDigit CHR ''-''" by code_simp
  have h: "hd (dec_digits n) \<noteq> CHR ''-''" for n
    using dec_digits_isDigit [of n] dec_digits_nonempty [of n] m by (cases "dec_digits n") auto
  have z: "tl (dec_digits 0) = []" by (simp add: dec_digits.simps [of 0])
  show ?thesis using dec_digits_isDigit dec_digits_nonempty dec_digits_head h z
    by (auto simp: int_text_def fmt_d_def pad_zero_def Let_def)
qed

subsection \<open>Values\<close>

fun json_ok :: "json \<Rightarrow> bool" where
  "json_ok (JNum l) = int_text l"
| "json_ok (JArr vs) = (\<forall>v \<in> set vs. json_ok v)"
| "json_ok (JObj ms) = (\<forall>m \<in> set ms. json_ok (snd m))"
| "json_ok _ = True"

lemma json_ok_JInt [simp]: "json_ok (JInt i)" "json_ok (JTime t)"
  by (simp_all add: JInt_def int_text_fmt JTime_def)

lemma print_head:
  assumes "json_ok v"
  shows "\<exists>c cs. print_json v = c # cs \<and> \<not> isSpace c \<and> c \<noteq> CHR 0x5D \<and> c \<noteq> CHR 0x7D"
proof (cases v)
  case (JNum l)
  have "\<forall>c. isDigit c \<or> c = CHR ''-'' \<longrightarrow> \<not> isSpace c \<and> c \<noteq> CHR 0x5D \<and> c \<noteq> CHR 0x7D" by code_simp
  moreover obtain c cs where "l = c # cs" "isDigit c \<or> c = CHR ''-''"
    using assms JNum by (cases l) (auto simp: int_text_def Let_def split: if_splits)
  ultimately show ?thesis using JNum by auto
qed (auto simp: print_string_def isSpace_def)

lemma skip_print: "json_ok v \<Longrightarrow> skip_ws (print_json v @ r) = print_json v @ r"
  using print_head [of v] by (auto simp: skip_ws_def)

lemma scan_at_length:
  "scan_value n s = Inr (v, r) \<Longrightarrow> length s \<le> m \<Longrightarrow> scan_value m s = Inr (v, r)"
  "scan_elems n s = Inr (vs, r) \<Longrightarrow> length s \<le> m \<Longrightarrow> scan_elems m s = Inr (vs, r)"
  "scan_members n s = Inr (ms, r) \<Longrightarrow> length s \<le> m \<Longrightarrow> scan_members m s = Inr (ms, r)"
  by (erule scan_fuel; simp)+

definition reads_back :: "json \<Rightarrow> bool" where
  "reads_back v \<longleftrightarrow> (\<forall>r. stops r \<longrightarrow> (\<exists>n. scan_value n (print_json v @ r) = Inr (v, r)))"

lemma reads_backI: "(\<And>r. stops r \<Longrightarrow> \<exists>n. scan_value n (print_json v @ r) = Inr (v, r)) \<Longrightarrow> reads_back v"
  unfolding reads_back_def by blast

lemma reads_backD:
  assumes "reads_back v" "stops r" "length (print_json v @ r) \<le> m"
  shows "scan_value m (print_json v @ r) = Inr (v, r)"
proof -
  obtain n where "scan_value n (print_json v @ r) = Inr (v, r)" using assms(1,2) unfolding reads_back_def by blast
  then show ?thesis by (rule scan_at_length(1)) (rule assms(3))
qed

lemma scan_print_elems:
  assumes "vs \<noteq> []" "\<And>v. v \<in> set vs \<Longrightarrow> reads_back v"
  shows "\<exists>n. scan_elems n (Join (CHR '','') (map print_json vs) @ CHR 0x5D # r) = Inr (vs, r)"
  using assms
proof (induction "CHR '',''" "map print_json vs" arbitrary: vs rule: Join.induct)
  case (2 x)
  then obtain v where v: "vs = [v]" by auto
  let ?n = "length (print_json v @ CHR 0x5D # r)"
  have "scan_value ?n (print_json v @ CHR 0x5D # r) = Inr (v, CHR 0x5D # r)" by (rule reads_backD) (use 2(3) [of v] v in auto)
  then have "scan_elems (Suc ?n) (print_json v @ CHR 0x5D # r) = Inr ([v], r)" by (simp add: scan_elems.simps skip_ws_def isSpace_def)
  then show ?case using v by auto
next
  case (3 x y ys)
  then obtain v vs' where v: "vs = v # vs'" "vs' \<noteq> []" "map print_json vs' = y # ys" by auto
  let ?t = "Join (CHR '','') (map print_json vs') @ CHR 0x5D # r"
  obtain n where n: "scan_elems n ?t = Inr (vs', r)" using 3(1) [of vs'] 3(4) v by auto
  let ?m = "max n (length (print_json v @ CHR '','' # ?t))"
  have "scan_value ?m (print_json v @ CHR '','' # ?t) = Inr (v, CHR '','' # ?t)"
    by (rule reads_backD) (use 3(4) [of v] v in auto)
  moreover have "scan_elems ?m ?t = Inr (vs', r)" by (rule scan_at_length(2) [OF n]) simp
  ultimately have "scan_elems (Suc ?m) (print_json v @ CHR '','' # ?t) = Inr (vs, r)"
    using v(1) by (simp add: scan_elems.simps skip_ws_def isSpace_def)
  moreover have "Join (CHR '','') (map print_json vs) @ CHR 0x5D # r = print_json v @ CHR '','' # ?t" using v by simp
  ultimately show ?case by metis
qed auto

definition print_member :: "string \<times> json \<Rightarrow> string" where
  "print_member m = print_string (fst m) @ [CHR '':''] @ print_json (snd m)"

text \<open>One member of an object up to the character after its value.\<close>

lemma scan_member:
  assumes "reads_back v" "stops (d # q)" "length (print_json v @ d # q) \<le> m" "\<not> isSpace d"
  shows "scan_members (Suc m) (print_member (k, v) @ d # q) =
    (if d = CHR '','' then (case scan_members m q of Inl e \<Rightarrow> Inl e | Inr (ms, r) \<Rightarrow> Inr ((k, v) # ms, r))
     else if d = CHR 0x7D then Inr ([(k, v)], q) else Inl json_syntax)"
proof -
  let ?r = "CHR '':'' # print_json v @ d # q"
  have q: "skip_ws (print_member (k, v) @ d # q) = CHR 0x22 # concat (map escape_char k) @ CHR 0x22 # ?r"
    by (simp add: print_member_def print_string_def skip_ws_def isSpace_def)
  have c: "skip_ws ?r = ?r" "skip_ws (d # q) = d # q" using assms(4) by (simp_all add: skip_ws_def isSpace_def)
  have s: "scan_string (Suc (length (concat (map escape_char k) @ CHR 0x22 # ?r))) (concat (map escape_char k) @ CHR 0x22 # ?r) = Inr (k, ?r)"
    by (rule scan_print_string)
  show ?thesis unfolding scan_members.simps q by (simp only: list.case s sum.case prod.case c reads_backD [OF assms(1-3)] simp_thms if_False if_True)
qed

lemma scan_print_members:
  assumes "ms \<noteq> []" "\<And>m. m \<in> set ms \<Longrightarrow> reads_back (snd m)"
  shows "\<exists>n. scan_members n (Join (CHR '','') (map print_member ms) @ CHR 0x7D # r) = Inr (ms, r)"
  using assms
proof (induction "CHR '',''" "map print_member ms" arbitrary: ms rule: Join.induct)
  case (2 x)
  then obtain k v where m: "ms = [(k, v)]" by (cases ms) auto
  have "scan_members (Suc (length (print_json v @ CHR 0x7D # r))) (print_member (k, v) @ CHR 0x7D # r) = Inr ([(k, v)], r)"
    using scan_member [of v "CHR 0x7D" r "length (print_json v @ CHR 0x7D # r)" k] 2(3) [of "(k, v)"] m by (simp add: isSpace_def)
  then show ?case using m by auto
next
  case (3 x y ys)
  then obtain k v ms' where m: "ms = (k, v) # ms'" "ms' \<noteq> []" "map print_member ms' = y # ys" by (cases ms) auto
  let ?t = "Join (CHR '','') (map print_member ms') @ CHR 0x7D # r"
  obtain n where n: "scan_members n ?t = Inr (ms', r)" using 3(1) [of ms'] 3(4) m by auto
  let ?m = "max n (length (print_json v @ CHR '','' # ?t))"
  have "scan_members ?m ?t = Inr (ms', r)" by (rule scan_at_length(3) [OF scan_at_length(3) [OF n order_refl]]) simp
  then have "scan_members (Suc ?m) (print_member (k, v) @ CHR '','' # ?t) = Inr (ms, r)"
    using scan_member [of v "CHR '',''" ?t ?m k] 3(4) [of "(k, v)"] m(1) by (simp add: isSpace_def)
  moreover have "Join (CHR '','') (map print_member ms) @ CHR 0x7D # r = print_member (k, v) @ CHR '','' # ?t" using m by simp
  ultimately show ?case by metis
qed auto

lemma print_json_obj: "print_json (JObj ms) = [CHR 0x7B] @ Join (CHR '','') (map print_member ms) @ [CHR 0x7D]"
proof -
  have "print_member = (\<lambda>(k, v). print_string k @ [CHR '':''] @ print_json v)" by (auto simp: print_member_def)
  then show ?thesis by simp
qed

lemma head_of_elems:
  assumes "vs \<noteq> []" "\<And>v. v \<in> set vs \<Longrightarrow> json_ok v"
  shows "\<exists>d q. Join (CHR '','') (map print_json vs) @ r = d # q \<and> \<not> isSpace d \<and> d \<noteq> CHR 0x5D"
proof -
  obtain v vs' where v: "vs = v # vs'" using assms(1) by (cases vs) auto
  show ?thesis using print_head [of v] assms(2) [of v] v by (cases vs') auto
qed

lemma head_of_members:
  assumes "ms \<noteq> []"
  shows "\<exists>q. Join (CHR '','') (map print_member ms) @ r = CHR 0x22 # q"
proof -
  obtain m ms' where m: "ms = m # ms'" using assms by (cases ms) auto
  show ?thesis using m by (cases ms') (auto simp: print_member_def print_string_def)
qed

lemma print_reads_back: "json_ok v \<Longrightarrow> reads_back v"
proof (induction v)
  case (JBool b)
  have "scan_value (Suc 0) (print_json (JBool b) @ r) = Inr (JBool b, r)" for r
    by (cases b) (simp_all add: scan_value.simps skip_ws_def isSpace_def scan_lit_def HasPrefix_def)
  then show ?case by (intro reads_backI) blast
next
  case JNull
  have "scan_value (Suc 0) (print_json JNull @ r) = Inr (JNull, r)" for r
    by (simp add: scan_value.simps skip_ws_def isSpace_def scan_lit_def HasPrefix_def)
  then show ?case by (intro reads_backI) blast
next
  case (JNum l)
  obtain c cs where l: "l = c # cs" "isDigit c \<or> c = CHR ''-''"
    using JNum by (cases l) (auto simp: int_text_def Let_def split: if_splits)
  have "\<forall>c. isDigit c \<or> c = CHR ''-'' \<longrightarrow> \<not> isSpace c \<and> c \<notin> {CHR 0x7B, CHR 0x5B, CHR 0x22, CHR ''t'', CHR ''f'', CHR ''n''}" by code_simp
  then have "\<not> isSpace c" "c \<notin> {CHR 0x7B, CHR 0x5B, CHR 0x22, CHR ''t'', CHR ''f'', CHR ''n''}" using l(2) by blast+
  moreover have "scan_number (l @ r) = Inr (l, r)" if "stops r" for r using JNum that by (intro scan_number_text) auto
  ultimately have "scan_value (Suc 0) (print_json (JNum l) @ r) = Inr (JNum l, r)" if "stops r" for r
    using l that by (auto simp: scan_value.simps skip_ws_def)
  then show ?case by (intro reads_backI) blast
next
  case (JStr s)
  have "scan_value (Suc 0) (print_json (JStr s) @ r) = Inr (JStr s, r)" for r
    using scan_print_string [of s r] by (simp add: scan_value.simps skip_ws_def isSpace_def print_string_def)
  then show ?case by (intro reads_backI) blast
next
  case (JArr vs)
  have "\<exists>n. scan_value n (print_json (JArr vs) @ r) = Inr (JArr vs, r)" for r
  proof (cases "vs = []")
    case True
    have "scan_value (Suc 0) (print_json (JArr vs) @ r) = Inr (JArr vs, r)"
      using True by (simp add: scan_value.simps skip_ws_def isSpace_def)
    then show ?thesis by blast
  next
    case False
    obtain n where n: "scan_elems n (Join (CHR '','') (map print_json vs) @ CHR 0x5D # r) = Inr (vs, r)"
      using scan_print_elems [OF False, of r] JArr by auto
    obtain d q where d: "Join (CHR '','') (map print_json vs) @ CHR 0x5D # r = d # q" "\<not> isSpace d" "d \<noteq> CHR 0x5D"
      using head_of_elems [OF False, of "CHR 0x5D # r"] JArr by auto
    have "scan_value (Suc n) (print_json (JArr vs) @ r) = Inr (JArr vs, r)"
      using n d by (simp add: scan_value.simps skip_ws_def isSpace_def)
    then show ?thesis by blast
  qed
  then show ?case by (intro reads_backI) blast
next
  case (JObj ms)
  have ih: "reads_back (snd m)" if "m \<in> set ms" for m
    using JObj that by (metis json_ok.simps(3) snds.intros)
  have "\<exists>n. scan_value n (print_json (JObj ms) @ r) = Inr (JObj ms, r)" for r
  proof (cases "ms = []")
    case True
    have "scan_value (Suc 0) (print_json (JObj ms) @ r) = Inr (JObj ms, r)"
      using True by (simp add: scan_value.simps skip_ws_def isSpace_def)
    then show ?thesis by blast
  next
    case False
    obtain n where n: "scan_members n (Join (CHR '','') (map print_member ms) @ CHR 0x7D # r) = Inr (ms, r)"
      using scan_print_members [OF False ih, of r] by auto
    obtain q where d: "Join (CHR '','') (map print_member ms) @ CHR 0x7D # r = CHR 0x22 # q"
      using head_of_members [OF False, of "CHR 0x7D # r"] by auto
    have "scan_value (Suc n) (print_json (JObj ms) @ r) = Inr (JObj ms, r)"
      unfolding print_json_obj using n d by (simp add: scan_value.simps skip_ws_def isSpace_def)
    then show ?thesis by blast
  qed
  then show ?case by (intro reads_backI) blast
qed

lemma string_of_bytes_of_string [simp]: "string_of_bytes (bytes_of_string s) = s"
proof -
  have "char_of (unat (word_of_nat (of_char c) :: 8 word)) = c" for c
    using nat_of_char_less_256 [of c] by (simp add: unat_of_nat take_bit_nat_eq_self)
  then show ?thesis by (simp add: string_of_bytes_def bytes_of_string_def comp_def)
qed

lemma Unmarshal_print: "json_ok v \<Longrightarrow> Unmarshal (print_json v) = Inr v"
  using reads_backD [OF print_reads_back, of v "[]" "Suc (2 * length (print_json v))"] by (simp add: Unmarshal_def skip_ws_def)

lemma Unmarshal_Marshal: "json_ok v \<Longrightarrow> Unmarshal (string_of_bytes (Marshal v)) = Inr v"
  by (simp add: Marshal_def Unmarshal_print)

end
