(* ===== verification/TimeRound.thy ===== *)
theory TimeRound
  imports JsonRound
begin

text \<open>
  The text of an instant determines it: what \<^verbatim>\<open>time.Time\<close> marshals to, the parser reads back, for every instant of the years
  1 to 9999. The core is that the date of a day number gives back the number.
\<close>

subsection \<open>Dates\<close>

text \<open>The years of an era of 146097 days: centuries, four-year cycles, years.\<close>

lemma era_years:
  fixes doe :: int
  assumes "0 \<le> doe" "doe < 146097"
  defines "yoe \<equiv> (doe - doe div 1460 + doe div 36524 - doe div 146096) div 365"
  defines "doy \<equiv> doe - (365 * yoe + yoe div 4 - yoe div 100)"
  shows "0 \<le> yoe \<and> yoe < 400 \<and> 0 \<le> doy \<and> doy \<le> 365 \<and>
    (doy = 365 \<longrightarrow> (yoe + 1) mod 4 = 0 \<and> ((yoe + 1) mod 100 \<noteq> 0 \<or> yoe + 1 = 400))"
proof (cases "doe = 146096")
  case True
  then show ?thesis by (simp add: yoe_def doy_def)
next
  case False
  define c r where "c = doe div 36524" and "r = doe mod 36524"
  define q s where "q = r div 1461" and "s = r mod 1461"
  have d: "doe = 36524 * c + r" "r = 1461 * q + s" by (simp_all add: c_def r_def q_def s_def)
  have b: "0 \<le> c" "c \<le> 3" "0 \<le> r" "r < 36524" "0 \<le> q" "q \<le> 24" "0 \<le> s" "s \<le> 1460"
    using assms(1,2) False by (auto simp: c_def r_def q_def s_def)
  define j where "j = min 3 (s div 365)"
  have j: "0 \<le> j" "j \<le> 3" "0 \<le> s - 365 * j" "s - 365 * j \<le> 365" "s - 365 * j = 365 \<longrightarrow> s = 1460 \<and> j = 3"
  proof -
    define e where "e = s div 365"
    have "s = 365 * e + s mod 365" "0 \<le> s mod 365" "s mod 365 < 365" "0 \<le> e"
      using b(7) by (simp_all add: e_def pos_imp_zdiv_nonneg_iff)
    then show "0 \<le> j" "j \<le> 3" "0 \<le> s - 365 * j" "s - 365 * j \<le> 365" "s - 365 * j = 365 \<longrightarrow> s = 1460 \<and> j = 3"
      using b(8) unfolding j_def e_def [symmetric] min_def by (auto split: if_splits)
  qed
  have f: "doe div 1460 = 25 * c + q + (24 * c + q + s) div 1460" using d by (simp add: algebra_simps)
  have g: "doe div 146096 = 0" "doe div 36524 = c" using assms(1,2) False by (auto simp: c_def)
  have "(s - (24 * c + q + s) div 1460) div 365 = j"
  proof (cases "24 * c + q + s < 1460")
    case True
    then have "(24 * c + q + s) div 1460 = 0" using b by simp
    moreover have "s < 1460" using True b by linarith
    ultimately show ?thesis using b(7) unfolding j_def by simp
  next
    case False
    then have "(24 * c + q + s) div 1460 = 1" by (intro int_div_pos_eq [where r = "24 * c + q + s - 1460"]) (use b in linarith)+
    moreover have "(s - 1) div 365 = 3" by (rule int_div_pos_eq [where r = "s - 1096"]) (use False b in linarith)+
    moreover have "s div 365 \<ge> 3" using False b by (simp add: zdiv_mono1 [of 1095 s 365, simplified])
    ultimately show ?thesis unfolding j_def by simp
  qed
  moreover have "doe - doe div 1460 + doe div 36524 - doe div 146096 = 365 * (100 * c + 4 * q) + (s - (24 * c + q + s) div 1460)"
    unfolding f g using d by simp
  ultimately have y: "yoe = 100 * c + 4 * q + j" unfolding yoe_def by simp
  have l: "yoe div 4 = 25 * c + q" "yoe div 100 = c" unfolding y
    by (rule int_div_pos_eq [where r = j], use j in simp_all) (rule int_div_pos_eq [where r = "4 * q + j"], use b j in simp_all)
  have dy: "doy = s - 365 * j" unfolding doy_def l using d y by simp
  have leap: "(yoe + 1) mod 4 = 0 \<and> (yoe + 1) mod 100 \<noteq> 0" if "doy = 365"
  proof -
    have "s = 1460" "j = 3" using that dy j(5) by auto
    then have "q \<le> 23" using d(2) b(4) by linarith
    have "(yoe + 1) mod 4 = 0" by (rule int_mod_pos_eq [where q = "25 * c + q + 1"]) (use y \<open>j = 3\<close> in simp_all)
    moreover have "(yoe + 1) mod 100 = 4 * (q + 1)" by (rule int_mod_pos_eq [where q = c]) (use y b \<open>j = 3\<close> \<open>q \<le> 23\<close> in simp_all)
    ultimately show ?thesis using b by simp
  qed
  show ?thesis using leap dy j y b by auto
qed

text \<open>Months are counted from March.\<close>

lemma month_range: "0 \<le> (m :: int) \<Longrightarrow> m \<le> 11 \<Longrightarrow> m \<in> {0, 1, 2, 3, 4, 5, 6, 7, 8, 9, 10, 11}"
proof -
  assume "0 \<le> m" "m \<le> 11"
  then have "m \<in> set [0..11]" by simp
  moreover have "[0..11] = [0, 1, 2, 3, 4, 5, 6, 7, 8, 9, 10, 11 :: int]" by code_simp
  ultimately show ?thesis by (simp only: list.set)
qed

lemma month_days:
  fixes doy :: int
  assumes "0 \<le> doy" "doy \<le> 365"
  defines "mp \<equiv> (5 * doy + 2) div 153"
  defines "d \<equiv> doy - (153 * mp + 2) div 5 + 1"
  shows "0 \<le> mp \<and> mp \<le> 11 \<and> 1 \<le> d \<and> d \<le> (if mp = 11 then (if doy = 365 then 29 else 28) else if mp \<in> {1, 3, 6, 8} then 30 else 31)"
proof -
  have m: "153 * mp \<le> 5 * doy + 2" "5 * doy + 2 < 153 * mp + 153"
    using mult_div_mod_eq [of 153 "5 * doy + 2"] pos_mod_bound [of 153 "5 * doy + 2"] pos_mod_sign [of 153 "5 * doy + 2"]
    unfolding mp_def by linarith+
  then have "0 \<le> mp" "mp \<le> 11" using assms(1,2) by linarith+
  from month_range [OF this] m have "mp \<in> {0, 1, 2, 3, 4, 5, 6, 7, 8, 9, 10, 11}" "153 * mp \<le> 5 * doy + 2" "5 * doy + 2 < 153 * mp + 153" by auto
  then show ?thesis using assms(1,2) unfolding d_def by auto
qed

lemma civil_date:
  assumes "civil n = (y, m, d)"
  shows "days_of (nat y) (nat m) (nat d) = n \<or> y < 0" "1 \<le> m" "m \<le> 12" "1 \<le> d" "0 \<le> y \<Longrightarrow> d \<le> int (days_in (nat m) (nat y))"
proof -
  define z era doe where "z = n + 306" and "era = z div 146097" and "doe = z mod 146097"
  define yoe where "yoe = (doe - doe div 1460 + doe div 36524 - doe div 146096) div 365"
  define doy where "doy = doe - (365 * yoe + yoe div 4 - yoe div 100)"
  define mp where "mp = (5 * doy + 2) div 153"
  have e: "0 \<le> doe" "doe < 146097" by (simp_all add: doe_def)
  note yy = era_years [OF e, folded yoe_def, folded doy_def]
  note mm = month_days [OF conjunct1 [OF conjunct2 [OF conjunct2 [OF yy]]] conjunct1 [OF conjunct2 [OF conjunct2 [OF conjunct2 [OF yy]]]], folded mp_def]
  have v: "m = (if mp < 10 then mp + 3 else mp - 9)" "d = doy - (153 * mp + 2) div 5 + 1" "y = yoe + era * 400 + (if m \<le> 2 then 1 else 0)"
    using assms [unfolded civil_def Let_def, folded z_def, folded era_def doe_def, folded yoe_def, folded doy_def, folded mp_def] by auto
  have mv: "1 \<le> m" "m \<le> 12" "1 \<le> d" using mm v by auto
  then show "1 \<le> m" "m \<le> 12" "1 \<le> d" by auto
  have mp: "(m + 9) mod 12 = mp" "m \<le> 2 \<longleftrightarrow> 10 \<le> mp" using mm v(1) by (auto split: if_splits)
  have yr: "y - (if m \<le> 2 then 1 else 0) = yoe + era * 400" using v(3) by simp
  have "(yoe + era * 400) div 400 = era" "(yoe + era * 400) mod 400 = yoe" using yy by auto
  moreover have "n = era * 146097 + doe - 306" by (simp add: z_def era_def doe_def)
  moreover have "(if nat m \<le> 2 then 1 else 0) = (if m \<le> 2 then 1 else 0 :: int)" using mv by (simp add: nat_le_iff)
  ultimately have "days_of (nat y) (nat m) (nat d) = n" if "0 \<le> y"
  proof -
    have i: "int (nat y) = y" "int (nat m) = m" "int (nat d) = d" using that mv by auto
    have "(153 * mp + 2) div 5 + d - 1 = doy" using v(2) by simp
    then show ?thesis unfolding days_of_def Let_def i \<open>(if nat m \<le> 2 then 1 else 0) = _\<close> yr mp(1)
      \<open>(yoe + era * 400) div 400 = era\<close> \<open>(yoe + era * 400) mod 400 = yoe\<close> using doy_def \<open>n = _\<close> by linarith
  qed
  then show "days_of (nat y) (nat m) (nat d) = n \<or> y < 0" by linarith
  assume y0: "0 \<le> y"
  have leap: "is_leap (nat y)" if "mp = 11" "doy = 365"
  proof -
    have y1: "y = yoe + 1 + era * 400" using that(1) v(3) mp(2) by simp
    have "(yoe + 1) mod 4 = 0" "(yoe + 1) mod 100 \<noteq> 0 \<or> yoe + 1 = 400" using yy that(2) by auto
    moreover have "y mod 4 = (yoe + 1) mod 4" "y mod 100 = (yoe + 1) mod 100" "y mod 400 = (yoe + 1) mod 400"
      using mod_mult_self2 [of "yoe + 1" 4 "100 * era"] mod_mult_self2 [of "yoe + 1" 100 "4 * era"] mod_mult_self2 [of "yoe + 1" 400 era]
      by (simp_all add: y1 algebra_simps)
    ultimately have "y mod 4 = 0" "y mod 100 \<noteq> 0 \<or> y mod 400 = 0" by auto
    then have "int (nat y mod 4) = 0" "int (nat y mod 100) \<noteq> 0 \<or> int (nat y mod 400) = 0" using y0 by (simp_all add: zmod_int)
    then show ?thesis unfolding is_leap_def by auto
  qed
  have "0 \<le> mp" "mp \<le> 11" using mm by auto
  then have "mp \<in> {0, 1, 2, 3, 4, 5, 6, 7, 8, 9, 10, 11}" by (rule month_range)
  then have nm: "nat m = 2 \<longleftrightarrow> mp = 11" "nat m \<in> {4, 6, 9, 11} \<longleftrightarrow> mp \<in> {1, 3, 6, 8}" using v(1) by auto
  have "d \<le> (if mp = 11 then (if doy = 365 then 29 else 28) else if mp \<in> {1, 3, 6, 8} then 30 else 31)" using mm v(2) by blast
  then show "d \<le> int (days_in (nat m) (nat y))" using leap unfolding days_in_def nm by (auto split: if_splits)
qed

subsection \<open>Digits\<close>

lemma digit_val_char: "n < 10 \<Longrightarrow> digit_val (digit_char n) = n"
proof -
  have "\<forall>n \<in> set [0..<10]. digit_val (digit_char n) = n" by code_simp
  then show "n < 10 \<Longrightarrow> ?thesis" by simp
qed

lemma digits_val_snoc: "digits_val (ds @ [c]) = digits_val ds * 10 + digit_val c"
  by (simp add: digits_val_def)

lemma digits_val_dec: "digits_val (dec_digits n) = n"
proof (induction n rule: dec_digits.induct)
  case (1 n)
  show ?case
  proof (cases "n < 10")
    case True
    then show ?thesis by (simp add: dec_digits.simps [of n] digit_val_char digits_val_def)
  next
    case False
    then show ?thesis using 1 [OF False] by (simp add: dec_digits.simps [of n] digits_val_snoc digit_val_char)
  qed
qed

lemma digits_val_zeros: "digits_val (replicate k (CHR ''0'') @ ds) = digits_val ds"
proof -
  have "foldl (\<lambda>n c. n * 10 + digit_val c) 0 (replicate k (CHR ''0'')) = 0"
    by (induction k) (simp_all add: digit_val_def)
  then show ?thesis by (simp add: digits_val_def)
qed

lemma length_dec_digits: "n < 10 ^ Suc k \<Longrightarrow> length (dec_digits n) \<le> Suc k"
proof (induction n arbitrary: k rule: dec_digits.induct)
  case (1 n)
  show ?case
  proof (cases "n < 10")
    case True
    then show ?thesis by (simp add: dec_digits.simps [of n])
  next
    case False
    then obtain j where k: "k = Suc j" using 1(2) by (cases k) auto
    have "n div 10 < 10 ^ Suc j" using 1(2) k by (simp add: less_mult_imp_div_less mult.commute)
    then show ?thesis using 1(1) [OF False] False k by (simp add: dec_digits.simps [of n])
  qed
qed

lemma pad_digits:
  assumes "n < 10 ^ Suc k"
  shows "length (pad_zero (Suc k) (dec_digits n)) = Suc k" "list_all isDigit (pad_zero (Suc k) (dec_digits n))"
    "digits_val (pad_zero (Suc k) (dec_digits n)) = n"
proof -
  have z: "isDigit CHR ''0''" by code_simp
  show "length (pad_zero (Suc k) (dec_digits n)) = Suc k" using length_dec_digits [OF assms] by (simp add: pad_zero_def)
  show "list_all isDigit (pad_zero (Suc k) (dec_digits n))" using dec_digits_isDigit [of n] z by (auto simp: pad_zero_def list_all_iff)
  show "digits_val (pad_zero (Suc k) (dec_digits n)) = n" by (simp add: pad_zero_def digits_val_zeros digits_val_dec)
qed

lemma take_num_fmt:
  assumes "0 \<le> v" "v < 10 ^ Suc k"
  shows "take_num (Suc k) (fmt_d (Suc k) v @ r) = Some (nat v, r)"
proof -
  have "nat v < 10 ^ Suc k" using assms by (simp add: nat_less_iff)
  from pad_digits [OF this] show ?thesis using assms(1) by (simp add: take_num_def fmt_d_def)
qed

lemma take_num_2: "0 \<le> v \<Longrightarrow> v < 100 \<Longrightarrow> take_num 2 (fmt_d 2 v @ r) = Some (nat v, r)"
  using take_num_fmt [of v 1 r] by (simp add: numeral_2_eq_2)

lemma take_num_4: "0 \<le> v \<Longrightarrow> v < 10000 \<Longrightarrow> take_num 4 (fmt_d 4 v @ r) = Some (nat v, r)"
  using take_num_fmt [of v 3 r] by (simp add: eval_nat_numeral)

subsection \<open>Fractions\<close>

lemma strip_zeros:
  assumes "ds = rev (dropWhile (\<lambda>c. c = CHR ''0'') (rev p))" "length p = n"
  shows "take n (ds @ replicate n (CHR ''0'')) = p"
proof -
  let ?z = "takeWhile (\<lambda>c. c = CHR ''0'') (rev p)"
  have z: "?z = replicate (length ?z) (CHR ''0'')" by (rule replicate_eqI) (auto dest: set_takeWhileD)
  have p: "p = ds @ rev ?z" using takeWhile_dropWhile_id [of "\<lambda>c. c = CHR ''0''" "rev p"] assms(1) by (metis rev_append rev_rev_ident)
  then have "length ds + length ?z = n" using assms(2) by (metis length_append length_rev)
  moreover have "rev ?z = replicate (length ?z) (CHR ''0'')" using z by (metis rev_replicate)
  ultimately have "p = ds @ replicate (n - length ds) (CHR ''0'')" using p by (metis add_diff_cancel_left')
  moreover have "length ds \<le> n" using p assms(2) by (metis length_append le_add1)
  ultimately show ?thesis by simp
qed

lemma parse_frac_fmt:
  assumes "0 \<le> v" "v < second"
  shows "parse_frac (fmt_frac 9 v @ ''Z'') = Some (v, ''Z'')"
proof -
  define p where "p = pad_zero 9 (dec_int v)"
  define ds where "ds = rev (dropWhile (\<lambda>c. c = CHR ''0'') (rev p))"
  have n: "nat v < 10 ^ Suc 8" "dec_int v = dec_digits (nat v)"
    using assms dec_int_digits [of "nat v"] by (simp_all add: second_def nat_less_iff)
  note p9 = pad_digits [OF n(1), unfolded n(2) [symmetric]]
  have p: "length p = 9" "list_all isDigit p" "digits_val p = nat v" using p9 by (simp_all add: p_def)
  have t: "take 9 (ds @ replicate 9 (CHR ''0'')) = p" by (rule strip_zeros [OF ds_def p(1)])
  have f: "fmt_frac 9 v = (if ds = [] then [] else CHR ''.'' # ds)"
    using assms by (simp add: fmt_frac_def p_def ds_def second_def)
  have "set ds \<subseteq> set p" using set_dropWhileD by (fastforce simp: ds_def)
  then have d: "list_all isDigit ds" using p(2) by (auto simp: list_all_iff)
  show ?thesis
  proof (cases "ds = []")
    case True
    then have "p = replicate 9 (CHR ''0'')" using t by simp
    then have "nat v = 0" using p(3) digits_val_zeros [of 9 "[]"] by (simp add: digits_val_def)
    then show ?thesis using f True assms by (simp add: parse_frac_def)
  next
    case False
    have z: "\<not> isDigit CHR ''Z''" by code_simp
    have "takeWhile isDigit (ds @ ''Z'') = ds" "dropWhile isDigit (ds @ ''Z'') = ''Z''" using d z by (auto simp: list_all_iff)
    then show ?thesis using f False t p(3) assms by (simp add: parse_frac_def Let_def)
  qed
qed

subsection \<open>Instants\<close>

text \<open>\<^verbatim>\<open>MarshalJSON\<close> refuses years outside 0 to 9999.\<close>

definition year_ok :: "instant \<Rightarrow> bool" where
  "year_ok t \<longleftrightarrow> 0 \<le> Year t \<and> Year t \<le> 9999"

lemma parse_fmt_RFC3339:
  assumes "year_ok t"
  shows "parse_RFC3339 (fmt_RFC3339Nano t) = Some t"
proof -
  define s where "s = t mod day_ns div second"
  have ns: "day_ns = 86400 * second" "second = 1000000000" by (simp_all add: day_ns_def hour_def minute_def second_def)
  have s: "0 \<le> s" "s < 86400" unfolding s_def ns using zdiv_mono1 [of "t mod 86400000000000" 86399999999999 1000000000] by simp_all
  have c: "civil (day_of t) = (Year t, Month t, Day t)" by (simp add: Year_def Month_def Day_def)
  note cd = civil_date [OF c]
  have dd: "Day t \<le> 31" using cd(5) assms by (auto simp: year_ok_def days_in_def split: if_splits)
  have hms: "s div 3600 < 24" "0 \<le> s div 3600" "s div 60 mod 60 < 60" "s mod 60 < 60" using s by auto
  have "take_all [(4, Some (CHR ''-'')), (2, Some (CHR ''-'')), (2, Some (CHR ''T'')), (2, Some (CHR '':'')), (2, Some (CHR '':'')), (2, None)]
      (fmt_RFC3339Nano t) = Some ([nat (Year t), nat (Month t), nat (Day t), nat (s div 3600), nat (s div 60 mod 60), nat (s mod 60)],
      fmt_frac 9 (t mod second) @ ''Z'')"
    using assms cd(2-4) dd hms s unfolding fmt_RFC3339Nano_def fmt_date_def fmt_clock_def Let_def s_def [symmetric] year_ok_def
    by (simp add: take_num_2 take_num_4 take_char_def)
  moreover have "parse_frac (fmt_frac 9 (t mod second) @ ''Z'') = Some (t mod second, ''Z'')"
    by (rule parse_frac_fmt) (simp_all add: second_def)
  moreover have "days_of (nat (Year t)) (nat (Month t)) (nat (Day t)) = day_of t" using cd(1) assms by (auto simp: year_ok_def)
  moreover have "day_of t * day_ns + (s div 3600 * 3600 + s div 60 mod 60 * 60 + s mod 60) * second + t mod second = t"
  proof -
    have "s div 3600 = s div 60 div 60" using zdiv_zmult2_eq [of 60 s 60] by simp
    then have "(s div 3600 * 3600 + s div 60 mod 60 * 60 + s mod 60) = s"
      using div_mult_mod_eq [of "s div 60" 60] div_mult_mod_eq [of s 60] by linarith
    moreover have "day_of t * day_ns + t mod day_ns = t" using div_mult_mod_eq [of t day_ns] by (simp only: day_of_def day_ns_def)
    moreover have "t mod second = t mod day_ns mod second" unfolding ns by (rule sym, rule mod_mod_cancel) simp
    moreover have "s * second + t mod day_ns mod second = t mod day_ns" by (simp add: s_def)
    ultimately show ?thesis by (simp only: add.assoc)
  qed
  moreover have "\<not> (nat (Month t) < 1 \<or> 12 < nat (Month t) \<or> nat (Day t) < 1 \<or> days_in (nat (Month t)) (nat (Year t)) < nat (Day t) \<or>
      23 < nat (s div 3600) \<or> 59 < nat (s div 60 mod 60) \<or> 59 < nat (s mod 60))"
    using cd(2-5) hms assms by (auto simp: year_ok_def)
  moreover have "int (nat (s div 3600)) = s div 3600" "int (nat (s div 60 mod 60)) = s div 60 mod 60" "int (nat (s mod 60)) = s mod 60"
    using hms s by simp_all
  moreover have "parse_zone ''Z'' = Some 0" by (simp add: parse_zone_def)
  ultimately show ?thesis unfolding parse_RFC3339_def by (simp only: option.case list.case prod.case if_False diff_zero)
qed

lemma int_lit_fmt:
  assumes "- (2 ^ 63) \<le> i" "i < 2 ^ 63"
  shows "int_lit (fmt_d 0 i) = Some i"
proof -
  have h: "hd (dec_digits n) \<noteq> CHR ''-''" for n
  proof -
    have "\<not> isDigit CHR ''-''" by code_simp
    then show ?thesis using dec_digits_isDigit [of n] dec_digits_nonempty [of n] by (cases "dec_digits n") auto
  qed
  show ?thesis
    using assms h dec_digits_isDigit dec_digits_nonempty by (auto simp: int_lit_def fmt_d_def pad_zero_def digits_val_dec Let_def)
qed

end
