(* ===== verification/Lease.thy ===== *)
theory Lease
  imports TimeRound Storage ChunkKey
begin

text \<open>
  \<^verbatim>\<open>internal/backup/lease.go\<close> and \<^verbatim>\<open>lease_wedge.go\<close>: the lease that keeps two runners from backing up one deployment at a
  time. The lease is a JSON object in the repository; an expired or released one is taken over after winning a claim object
  that only one breaker can create. The clock of a lease is a reader of the world, as in the source; the hooks of the tests
  are left out, and the environment of \<^verbatim>\<open>defaultLeaseOwner\<close> (host name, process id) comes with the options.
\<close>

definition LeaseSchema :: string where "LeaseSchema = ''pg_hardstorage.backup.lease.v1''"
definition DefaultLeaseTTL :: duration where "DefaultLeaseTTL = 15 * minute"
definition maxLeaseBodyBytes :: int where "maxLeaseBodyBytes = 65536"
definition reclaimEchoRetries :: nat where "reclaimEchoRetries = 3"
definition defaultLeaseSettle :: duration where "defaultLeaseSettle = 400 * 1000000"
definition maxClaimGenerations :: nat where "maxClaimGenerations = 8"
definition wedgeGrace :: duration where "wedgeGrace = hour"

definition ErrBackupInProgress :: error where
  "ErrBackupInProgress = ErrorNew ''backup: another backup is already in progress for this deployment''"

definition ErrLeaseNotEnforceable :: error where
  "ErrLeaseNotEnforceable = ErrorNew ''backup: repository backend cannot enforce the backup lease''"

definition ErrLeaseLost :: error where
  "ErrLeaseLost = ErrorNew ''backup: lease no longer held (reclaimed by another holder)''"

definition backupLeaseKey :: "string \<Rightarrow> string" where
  "backupLeaseKey deployment = ''leases/'' @ deployment @ ''/backup.json''"

subsection \<open>The documents\<close>

record leaseBody =
  lb_Schema :: string
  lb_Deployment :: string
  lb_Owner :: string
  lb_AcquiredAt :: instant
  lb_ExpiresAt :: instant
  lb_Released :: bool
  lb_ReleasedAt :: instant

definition zero_leaseBody :: leaseBody where
  "zero_leaseBody = \<lparr>lb_Schema = [], lb_Deployment = [], lb_Owner = [], lb_AcquiredAt = zero_time, lb_ExpiresAt = zero_time,
     lb_Released = False, lb_ReleasedAt = zero_time\<rparr>"

definition lease_json :: "leaseBody \<Rightarrow> json" where
  "lease_json b =
     JObj ([(''schema'', JStr (lb_Schema b)), (''deployment'', JStr (lb_Deployment b)), (''owner'', JStr (lb_Owner b)),
            (''acquired_at'', JTime (lb_AcquiredAt b)), (''expires_at'', JTime (lb_ExpiresAt b))] @
           (if lb_Released b then [(''released'', JBool True)] else []) @
           (if lb_ReleasedAt b = zero_time then [] else [(''released_at'', JTime (lb_ReleasedAt b))]))"

definition bool_field :: "string \<Rightarrow> (string \<times> json) list \<Rightarrow> error + bool" where
  "bool_field name ms = (case json_field name ms of None \<Rightarrow> Inr False | Some (JBool b) \<Rightarrow> Inr b | _ \<Rightarrow> Inl type_error)"

definition lease_of_json :: "json \<Rightarrow> error + leaseBody" where
  "lease_of_json v =
     (case v of
        JObj ms \<Rightarrow>
          (case (str_field ''schema'' ms, str_field ''deployment'' ms, str_field ''owner'' ms, time_field ''acquired_at'' ms,
                 time_field ''expires_at'' ms, bool_field ''released'' ms, time_field ''released_at'' ms) of
             (Inr sc, Inr dp, Inr ow, Inr aa, Inr ea, Inr rl, Inr ra) \<Rightarrow>
               Inr \<lparr>lb_Schema = sc, lb_Deployment = dp, lb_Owner = ow, lb_AcquiredAt = aa, lb_ExpiresAt = ea, lb_Released = rl,
                    lb_ReleasedAt = ra\<rparr>
           | _ \<Rightarrow> Inl type_error)
      | JNull \<Rightarrow> Inr zero_leaseBody
      | _ \<Rightarrow> Inl type_error)"

text \<open>\<^verbatim>\<open>time.Time\<close> refuses to marshal a year of more than four digits.\<close>

definition lease_times_ok :: "leaseBody \<Rightarrow> bool" where
  "lease_times_ok b \<longleftrightarrow> year_ok (lb_AcquiredAt b) \<and> year_ok (lb_ExpiresAt b) \<and> (lb_ReleasedAt b \<noteq> zero_time \<longrightarrow> year_ok (lb_ReleasedAt b))"

definition year_error :: error where
  "year_error = ErrorNew ''Time.MarshalJSON: year outside of range [0,9999]''"

record breakClaim =
  bc_Schema :: string
  bc_Deployment :: string
  bc_BrokenOwner :: string
  bc_BrokenAt :: instant
  bc_Breaker :: string
  bc_ClaimedAt :: instant

definition claim_json :: "breakClaim \<Rightarrow> json" where
  "claim_json c =
     JObj [(''schema'', JStr (bc_Schema c)), (''deployment'', JStr (bc_Deployment c)), (''broken_owner'', JStr (bc_BrokenOwner c)),
           (''broken_acquired_at'', JTime (bc_BrokenAt c)), (''breaker'', JStr (bc_Breaker c)), (''claimed_at'', JTime (bc_ClaimedAt c))]"

definition claim_of_json :: "json \<Rightarrow> error + breakClaim" where
  "claim_of_json v =
     (case v of
        JObj ms \<Rightarrow>
          (case (str_field ''schema'' ms, str_field ''deployment'' ms, str_field ''broken_owner'' ms,
                 time_field ''broken_acquired_at'' ms, str_field ''breaker'' ms, time_field ''claimed_at'' ms) of
             (Inr sc, Inr dp, Inr bo, Inr ba, Inr br, Inr ca) \<Rightarrow>
               Inr \<lparr>bc_Schema = sc, bc_Deployment = dp, bc_BrokenOwner = bo, bc_BrokenAt = ba, bc_Breaker = br, bc_ClaimedAt = ca\<rparr>
           | _ \<Rightarrow> Inl type_error)
      | JNull \<Rightarrow> Inr \<lparr>bc_Schema = [], bc_Deployment = [], bc_BrokenOwner = [], bc_BrokenAt = zero_time, bc_Breaker = [],
                      bc_ClaimedAt = zero_time\<rparr>
      | _ \<Rightarrow> Inl type_error)"

definition breakClaimKey :: "(bytes \<Rightarrow> Hash) \<Rightarrow> string \<Rightarrow> leaseBody \<Rightarrow> string" where
  "breakClaimKey sha deployment victim =
     (let h = hash_bytes (sha (bytes_of_string (lb_Owner victim @ [CHR 0x00] @ fmt_RFC3339Nano (lb_AcquiredAt victim))))
      in ''leases/'' @ deployment @ ''/breaks/'' @ EncodeToString (take 8 h) @ ''.json'')"

subsection \<open>Reading and writing\<close>

text \<open>\<^verbatim>\<open>io.LimitReader\<close> with the limit an integer, as the source has it.\<close>

definition limit_reader :: "error reader \<Rightarrow> int \<Rightarrow> error reader" where
  "limit_reader r n = LimitReader r (nat n)"

lemma limit_reader_code [code]:
  "limit_reader r n = (if int (length (rd_data r)) < n then r else LimitReader r (nat n))"
  by (cases r) (auto simp: limit_reader_def LimitReader_def)

record 'w LeaseOptions =
  lo_Owner :: string
  lo_TTL :: duration
  lo_now :: "('w \<Rightarrow> instant \<times> 'w) option"
  lo_settle :: duration
  lo_AllowUnenforceable :: bool
  lo_hostname :: "error + string"
  lo_pid :: int

record 'w Lease =
  l_deployment :: string
  l_ttl :: duration
  l_now :: "'w \<Rightarrow> instant \<times> 'w"
  l_settle :: duration
  l_body :: leaseBody

definition defaultLeaseOwner :: "'w LeaseOptions \<Rightarrow> string" where
  "defaultLeaseOwner opts =
     (let host = (case lo_hostname opts of Inl _ \<Rightarrow> ''unknown-host'' | Inr h \<Rightarrow> if h = [] then ''unknown-host'' else h)
      in host @ ''/pid-'' @ fmt_d 0 (lo_pid opts))"

definition freshBody :: "'w Lease \<Rightarrow> string \<Rightarrow> 'w \<Rightarrow> leaseBody \<times> 'w" where
  "freshBody l owner w =
     (case l_now l w of (t, w1) \<Rightarrow>
        (\<lparr>lb_Schema = LeaseSchema, lb_Deployment = l_deployment l, lb_Owner = owner, lb_AcquiredAt = t, lb_ExpiresAt = t + l_ttl l,
          lb_Released = False, lb_ReleasedAt = zero_time\<rparr>, w1))"

definition lease_put :: "'w StoragePlugin \<Rightarrow> ctx \<Rightarrow> 'w Lease \<Rightarrow> leaseBody \<Rightarrow> bool \<Rightarrow> 'w unit_op" where
  "lease_put sp ctx l b ifNotExists w =
     (if \<not> lease_times_ok b then (Some year_error, w)
      else let enc = Marshal (lease_json b) in
        case sp_Put sp ctx (backupLeaseKey (l_deployment l)) (bytes_NewReader enc)
               (zero_PutOptions\<lparr>po_ContentLength := int (length enc), po_IfNotExists := ifNotExists\<rparr>) w of
          (Inl err, w1) \<Rightarrow> (Some err, w1)
        | (Inr _, w1) \<Rightarrow> (None, w1))"

definition decode_lease :: "bytes \<Rightarrow> error + leaseBody" where
  "decode_lease raw =
     (case (case Unmarshal (string_of_bytes raw) of Inl e \<Rightarrow> Inl e | Inr v \<Rightarrow> lease_of_json v) of
        Inl err \<Rightarrow> Inl (Errorf ''decode lease'' [err])
      | Inr b \<Rightarrow> Inr b)"

definition lease_read :: "'w StoragePlugin \<Rightarrow> ctx \<Rightarrow> 'w Lease \<Rightarrow> 'w \<Rightarrow> (error + leaseBody) \<times> 'w" where
  "lease_read sp ctx l w =
     (case sp_Get sp ctx (backupLeaseKey (l_deployment l)) w of
        (Inl err, w1) \<Rightarrow> (Inl err, w1)
      | (Inr rc, w1) \<Rightarrow>
          (case ReadAll (limit_reader rc maxLeaseBodyBytes) of
             Inl err \<Rightarrow> (Inl err, w1)
           | Inr raw \<Rightarrow> (decode_lease raw, w1)))"

definition readClaim :: "'w StoragePlugin \<Rightarrow> ctx \<Rightarrow> string \<Rightarrow> 'w \<Rightarrow> (error + breakClaim) \<times> 'w" where
  "readClaim sp ctx key w =
     (case sp_Get sp ctx key w of
        (Inl err, w1) \<Rightarrow> (Inl err, w1)
      | (Inr rc, w1) \<Rightarrow>
          (case ReadAll (limit_reader rc maxLeaseBodyBytes) of
             Inl err \<Rightarrow> (Inl err, w1)
           | Inr raw \<Rightarrow> ((case Unmarshal (string_of_bytes raw) of Inl e \<Rightarrow> Inl e | Inr v \<Rightarrow> claim_of_json v), w1)))"

definition putClaim :: "'w StoragePlugin \<Rightarrow> ctx \<Rightarrow> 'w Lease \<Rightarrow> string \<Rightarrow> leaseBody \<Rightarrow> string \<Rightarrow> 'w unit_op" where
  "putClaim sp ctx l key victim owner w =
     (case l_now l w of (t, w1) \<Rightarrow>
        (let c = \<lparr>bc_Schema = LeaseSchema, bc_Deployment = l_deployment l, bc_BrokenOwner = lb_Owner victim,
                  bc_BrokenAt = lb_AcquiredAt victim, bc_Breaker = owner, bc_ClaimedAt = t\<rparr>;
             enc = Marshal (claim_json c)
         in if \<not> (year_ok (bc_BrokenAt c) \<and> year_ok t) then (Some (Errorf ''backup: encode break claim'' [year_error]), w1)
            else case sp_Put sp ctx key (bytes_NewReader enc)
                        (zero_PutOptions\<lparr>po_ContentLength := int (length enc), po_IfNotExists := True\<rparr>) w1 of
              (Inr _, w2) \<Rightarrow> (None, w2)
            | (Inl err, w2) \<Rightarrow>
                (Some (if is_err err ErrAlreadyExists then ErrBackupInProgress
                       else Errorf ''backup: claim break of stale lease'' [err]), w2)))"

definition claim_gen_key :: "(bytes \<Rightarrow> Hash) \<Rightarrow> string \<Rightarrow> leaseBody \<Rightarrow> nat \<Rightarrow> string" where
  "claim_gen_key sha deployment victim gen =
     (let key = breakClaimKey sha deployment victim
      in if gen > 0 then TrimSuffix key ''.json'' @ ''.'' @ fmt_d 0 (int gen) @ ''.json'' else key)"

text \<open>The loop over claim generations; the first argument counts those left.\<close>

fun claim_loop :: "nat \<Rightarrow> (bytes \<Rightarrow> Hash) \<Rightarrow> 'w StoragePlugin \<Rightarrow> ctx \<Rightarrow> 'w Lease \<Rightarrow> leaseBody \<Rightarrow> string \<Rightarrow> nat \<Rightarrow> 'w \<Rightarrow>
    (string \<times> error option) \<times> 'w" where
  "claim_loop 0 sha sp ctx l victim owner gen w = (([], Some ErrBackupInProgress), w)"
| "claim_loop (Suc n) sha sp ctx l victim owner gen w =
     (let key = claim_gen_key sha (l_deployment l) victim gen in
      case putClaim sp ctx l key victim owner w of
        (None, w1) \<Rightarrow> ((key, None), w1)
      | (Some err, w1) \<Rightarrow>
          if \<not> errors_Is err ErrBackupInProgress then ((key, Some err), w1)
          else (case readClaim sp ctx key w1 of
              (Inl _, w2) \<Rightarrow> (([], Some ErrBackupInProgress), w2)
            | (Inr prev, w2) \<Rightarrow>
                (case l_now l w2 of (t, w3) \<Rightarrow>
                   if t - bc_ClaimedAt prev < wedgeGrace then (([], Some ErrBackupInProgress), w3)
                   else claim_loop n sha sp ctx l victim owner (gen + 1) w3)))"

definition claimBreakKey :: "(bytes \<Rightarrow> Hash) \<Rightarrow> 'w StoragePlugin \<Rightarrow> ctx \<Rightarrow> 'w Lease \<Rightarrow> leaseBody \<Rightarrow> string \<Rightarrow> 'w \<Rightarrow>
    (string \<times> error option) \<times> 'w" where
  "claimBreakKey sha sp ctx l victim owner w = claim_loop maxClaimGenerations sha sp ctx l victim owner 0 w"

definition dropClaim :: "'w StoragePlugin \<Rightarrow> string \<Rightarrow> 'w \<Rightarrow> 'w" where
  "dropClaim sp key w = snd (sp_Delete sp CleanupCtx key w)"

definition same_lease :: "leaseBody \<Rightarrow> leaseBody \<Rightarrow> bool" where
  "same_lease a b \<longleftrightarrow> lb_Owner a = lb_Owner b \<and> lb_AcquiredAt a = lb_AcquiredAt b"

definition settleVerifyObserved :: "'w runtime \<Rightarrow> 'w StoragePlugin \<Rightarrow> ctx \<Rightarrow> 'w Lease \<Rightarrow> leaseBody \<Rightarrow> 'w \<Rightarrow>
    (leaseBody \<times> error option) \<times> 'w" where
  "settleVerifyObserved rt sp ctx l mine w =
     (case (if l_settle l > 0 then rt_Sleep rt ctx (l_settle l) w else (None, w)) of
        (Some err, w1) \<Rightarrow> ((zero_leaseBody, Some err), w1)
      | (None, w1) \<Rightarrow>
          (case lease_read sp ctx l w1 of
             (Inl err, w2) \<Rightarrow> ((zero_leaseBody, Some (Errorf ''backup: verify lease after write'' [err])), w2)
           | (Inr cur, w2) \<Rightarrow>
               if \<not> same_lease cur mine then ((cur, Some ErrBackupInProgress), w2)
               else ((cur, None), w2)))"

definition settleVerify :: "'w runtime \<Rightarrow> 'w StoragePlugin \<Rightarrow> ctx \<Rightarrow> 'w Lease \<Rightarrow> leaseBody \<Rightarrow> 'w unit_op" where
  "settleVerify rt sp ctx l mine w = (case settleVerifyObserved rt sp ctx l mine w of ((_, err), w1) \<Rightarrow> (err, w1))"

subsection \<open>Renewal and release\<close>

definition Renew :: "'w runtime \<Rightarrow> 'w StoragePlugin \<Rightarrow> ctx \<Rightarrow> 'w Lease \<Rightarrow> 'w \<Rightarrow> error option \<times> 'w Lease \<times> 'w" where
  "Renew rt sp ctx l w =
     (let mine = l_body l in
      case lease_read sp ctx l w of
        (Inl err, w1) \<Rightarrow> (Some (Errorf ''backup: renew lease'' [err]), l, w1)
      | (Inr cur, w1) \<Rightarrow>
          if \<not> same_lease cur mine then (Some ErrLeaseLost, l, w1)
          else case l_now l w1 of (t1, w2) \<Rightarrow>
            if \<not> t1 < lb_ExpiresAt cur then (Some ErrLeaseLost, l, w2)
            else case l_now l w2 of (t2, w3) \<Rightarrow>
              if \<not> t2 + 2 * l_settle l < lb_ExpiresAt cur then (Some ErrLeaseLost, l, w3)
              else case l_now l w3 of (t3, w4) \<Rightarrow>
                (let next' = mine\<lparr>lb_ExpiresAt := t3 + l_ttl l\<rparr> in
                 if \<not> lb_ExpiresAt next' > lb_ExpiresAt cur then (None, l, w4)
                 else case lease_put sp ctx l next' False w4 of
                   (Some err, w5) \<Rightarrow> (Some (Errorf ''backup: renew lease'' [err]), l, w5)
                 | (None, w5) \<Rightarrow>
                     (case settleVerify rt sp ctx l next' w5 of
                        (Some err, w6) \<Rightarrow> (Some (if errors_Is err ErrBackupInProgress then ErrLeaseLost else err), l, w6)
                      | (None, w6) \<Rightarrow> (None, l\<lparr>l_body := next'\<rparr>, w6))))"

definition Release :: "'w StoragePlugin \<Rightarrow> ctx \<Rightarrow> 'w Lease \<Rightarrow> 'w unit_op" where
  "Release sp ctx l w =
     (let mine = l_body l in
      case lease_read sp ctx l w of
        (Inl err, w1) \<Rightarrow> (if is_err err ErrNotFound then None else Some (Errorf ''backup: release lease'' [err]), w1)
      | (Inr cur, w1) \<Rightarrow>
          if \<not> same_lease cur mine then (None, w1)
          else case l_now l w1 of (now, w2) \<Rightarrow>
            (case lease_put sp ctx l (mine\<lparr>lb_ExpiresAt := now, lb_Released := True, lb_ReleasedAt := now\<rparr>) False w2 of
               (Some err, w3) \<Rightarrow> (Some (Errorf ''backup: release lease'' [err]), w3)
             | (None, w3) \<Rightarrow> (None, w3)))"

text \<open>The first \<open>n\<close> ticks of the renewal loop, and the errors it hands to its callback.\<close>

fun Maintain :: "nat \<Rightarrow> 'w runtime \<Rightarrow> 'w StoragePlugin \<Rightarrow> ctx \<Rightarrow> 'w Lease \<Rightarrow> 'w \<Rightarrow> error list \<times> 'w Lease \<times> 'w" where
  "Maintain 0 rt sp ctx l w = ([], l, w)"
| "Maintain (Suc n) rt sp ctx l w =
     (let interval = (if l_ttl l div 3 \<le> 0 then minute else l_ttl l div 3) in
      case rt_Sleep rt ctx interval w of
        (Some _, w1) \<Rightarrow> ([], l, w1)
      | (None, w1) \<Rightarrow>
          (case Renew rt sp ctx l w1 of
             (None, l1, w2) \<Rightarrow> Maintain n rt sp ctx l1 w2
           | (Some err, l1, w2) \<Rightarrow>
               if errors_Is err ErrLeaseLost then ([err], l1, w2)
               else (case Maintain n rt sp ctx l1 w2 of (errs, r) \<Rightarrow> (err # errs, r))))"

subsection \<open>Acquisition\<close>

definition abandonReclaim :: "'w StoragePlugin \<Rightarrow> 'w Lease \<Rightarrow> 'w \<Rightarrow> 'w" where
  "abandonReclaim sp l w = snd (Release sp CleanupCtx l w)"

fun reclaim_verify :: "nat \<Rightarrow> 'w runtime \<Rightarrow> 'w StoragePlugin \<Rightarrow> ctx \<Rightarrow> 'w Lease \<Rightarrow> leaseBody \<Rightarrow> leaseBody \<Rightarrow> 'w \<Rightarrow> (error + 'w Lease) \<times> 'w" where
  "reclaim_verify n rt sp ctx l body recheck w =
     (case settleVerifyObserved rt sp ctx l body w of
        ((_, None), w1) \<Rightarrow> (Inr (l\<lparr>l_body := body\<rparr>), w1)
      | ((obs, Some verr), w1) \<Rightarrow>
          (case n of
             Suc m \<Rightarrow>
               if errors_Is verr ErrBackupInProgress \<and> same_lease obs recheck then
                 (case lease_put sp ctx l body False w1 of
                    (Some perr, w2) \<Rightarrow> (Inl (Errorf ''backup: retake stale lease'' [perr]), abandonReclaim sp l w2)
                  | (None, w2) \<Rightarrow> reclaim_verify m rt sp ctx l body recheck w2)
               else (Inl verr, if \<not> errors_Is verr ErrBackupInProgress then abandonReclaim sp l w1 else w1)
           | 0 \<Rightarrow> (Inl verr, if \<not> errors_Is verr ErrBackupInProgress then abandonReclaim sp l w1 else w1)))"

declare reclaim_verify.simps [simp del]

text \<open>A fresh lease, when the object is absent; \<open>what\<close> is the text of other errors.\<close>

definition acquire_absent :: "'w StoragePlugin \<Rightarrow> ctx \<Rightarrow> 'w Lease \<Rightarrow> string \<Rightarrow> string \<Rightarrow> 'w \<Rightarrow> (error + 'w Lease) \<times> 'w" where
  "acquire_absent sp ctx l owner what w =
     (case freshBody l owner w of (body, w1) \<Rightarrow>
        (case lease_put sp ctx l body True w1 of
           (Some err, w2) \<Rightarrow> (Inl (if is_err err ErrAlreadyExists then ErrBackupInProgress else Errorf what [err]), w2)
         | (None, w2) \<Rightarrow> (Inr (l\<lparr>l_body := body\<rparr>), w2)))"

text \<open>The takeover of a stale lease, from the claim on.\<close>

definition reclaim :: "(bytes \<Rightarrow> Hash) \<Rightarrow> 'w runtime \<Rightarrow> 'w StoragePlugin \<Rightarrow> ctx \<Rightarrow> 'w Lease \<Rightarrow> string \<Rightarrow> leaseBody \<Rightarrow> 'w \<Rightarrow>
    (error + 'w Lease) \<times> 'w" where
  "reclaim sha rt sp ctx l owner recheck w =
     (case claimBreakKey sha sp ctx l recheck owner w of
        ((_, Some err), w1) \<Rightarrow> (Inl err, w1)
      | ((claimKey, None), w1) \<Rightarrow>
          (case lease_read sp ctx l w1 of
             (Inl cerr, w2) \<Rightarrow>
               if \<not> is_err cerr ErrNotFound then
                 (Inl (Errorf ''backup: recheck stale lease'' [cerr]), dropClaim sp claimKey w2)
               else (Inl ErrBackupInProgress, w2)
           | (Inr cur, w2) \<Rightarrow>
               if \<not> same_lease cur recheck then (Inl ErrBackupInProgress, w2)
               else case freshBody l owner w2 of (body, w3) \<Rightarrow>
                 (case lease_put sp ctx l body False w3 of
                    (Some err, w4) \<Rightarrow> (Inl (Errorf ''backup: retake stale lease'' [err]), dropClaim sp claimKey w4)
                  | (None, w4) \<Rightarrow> reclaim_verify reclaimEchoRetries rt sp ctx (l\<lparr>l_body := body\<rparr>) body recheck w4)))"

text \<open>The second look at a lease that was found expired or released.\<close>

definition acquire_stale :: "(bytes \<Rightarrow> Hash) \<Rightarrow> 'w runtime \<Rightarrow> 'w StoragePlugin \<Rightarrow> ctx \<Rightarrow> 'w Lease \<Rightarrow> string \<Rightarrow> leaseBody \<Rightarrow> 'w \<Rightarrow>
    (error + 'w Lease) \<times> 'w" where
  "acquire_stale sha rt sp ctx l owner existing w =
     (case lease_read sp ctx l w of
        (Inl rcerr, w1) \<Rightarrow>
          if is_err rcerr ErrNotFound then acquire_absent sp ctx l owner ''backup: retake stale lease'' w1
          else (Inl (Errorf ''backup: recheck stale lease'' [rcerr]), w1)
      | (Inr recheck, w1) \<Rightarrow>
          if \<not> same_lease recheck existing then (Inl ErrBackupInProgress, w1)
          else if lb_Released recheck then reclaim sha rt sp ctx l owner recheck w1
          else case l_now l w1 of (t, w2) \<Rightarrow>
            if t < lb_ExpiresAt recheck then (Inl ErrBackupInProgress, w2)
            else reclaim sha rt sp ctx l owner recheck w2)"

text \<open>What to do about the lease object that exists.\<close>

definition acquire_existing :: "(bytes \<Rightarrow> Hash) \<Rightarrow> 'w runtime \<Rightarrow> 'w StoragePlugin \<Rightarrow> ctx \<Rightarrow> 'w Lease \<Rightarrow> string \<Rightarrow> 'w \<Rightarrow>
    (error + 'w Lease) \<times> 'w" where
  "acquire_existing sha rt sp ctx l owner w =
     (case lease_read sp ctx l w of
        (Inl rerr, w1) \<Rightarrow>
          if is_err rerr ErrNotFound then acquire_absent sp ctx l owner ''backup: acquire lease'' w1
          else (Inl (Errorf ''backup: a lease exists but could not be read'' [rerr]), w1)
      | (Inr existing, w1) \<Rightarrow>
          if lb_Released existing then acquire_stale sha rt sp ctx l owner existing w1
          else case l_now l w1 of (t, w2) \<Rightarrow>
            if t < lb_ExpiresAt existing then (Inl (Errorf ''held'' [ErrBackupInProgress]), w2)
            else acquire_stale sha rt sp ctx l owner existing w2)"

definition AcquireBackupLease :: "(bytes \<Rightarrow> Hash) \<Rightarrow> 'w runtime \<Rightarrow> 'w StoragePlugin \<Rightarrow> ctx \<Rightarrow> string \<Rightarrow> 'w LeaseOptions \<Rightarrow> 'w \<Rightarrow>
    (error + 'w Lease) \<times> 'w" where
  "AcquireBackupLease sha rt sp ctx deployment opts w =
     (if deployment = [] then (Inl (ErrorNew ''backup: lease requires a deployment''), w)
      else
        (let ttl = (if lo_TTL opts \<le> 0 then DefaultLeaseTTL else lo_TTL opts);
             now = (case lo_now opts of None \<Rightarrow> rt_Now rt | Some f \<Rightarrow> f);
             owner = (if lo_Owner opts = [] then defaultLeaseOwner opts else lo_Owner opts);
             settle = (if lo_settle opts \<le> 0 then defaultLeaseSettle else lo_settle opts);
             l = \<lparr>l_deployment = deployment, l_ttl = ttl, l_now = now, l_settle = settle, l_body = zero_leaseBody\<rparr>
         in if \<not> lo_AllowUnenforceable opts \<and> \<not> cap_ConditionalPut (sp_Capabilities sp) then
              (Inl (Errorf ''backend emulates IfNotExists'' [ErrLeaseNotEnforceable]), w)
            else case freshBody l owner w of (body, w1) \<Rightarrow>
              (case lease_put sp ctx l body True w1 of
                 (None, w2) \<Rightarrow> (Inr (l\<lparr>l_body := body\<rparr>), w2)
               | (Some err, w2) \<Rightarrow>
                   if \<not> is_err err ErrAlreadyExists then (Inl (Errorf ''backup: acquire lease'' [err]), w2)
                   else acquire_existing sha rt sp ctx l owner w2)))"

subsection \<open>Inspection\<close>

record LeaseWedge =
  lw_Deployment :: string
  lw_LeaseKey :: string
  lw_ClaimKey :: string
  lw_Breaker :: string
  lw_ClaimedAt :: instant
  lw_LeaseOwner :: string
  lw_LeaseAcquiredAt :: instant

definition decode_reader :: "(json \<Rightarrow> error + 'a) \<Rightarrow> error reader \<Rightarrow> error + 'a" where
  "decode_reader f rc =
     (case Decode (NewDecoder (limit_reader rc 1048576)) of (Inl e, _) \<Rightarrow> Inl e | (Inr v, _) \<Rightarrow> f v)"

definition InspectLeaseSuccession :: "(bytes \<Rightarrow> Hash) \<Rightarrow> 'w StoragePlugin \<Rightarrow> ctx \<Rightarrow> string \<Rightarrow> instant \<Rightarrow> 'w \<Rightarrow>
    (error + LeaseWedge option) \<times> 'w" where
  "InspectLeaseSuccession sha sp ctx deployment now w =
     (case sp_Get sp ctx (backupLeaseKey deployment) w of
        (Inl err, w1) \<Rightarrow> (if is_err err ErrNotFound then Inr None else Inl (Errorf ''backup: inspect lease'' [err]), w1)
      | (Inr rc, w1) \<Rightarrow>
          (case decode_reader lease_of_json rc of
             Inl derr \<Rightarrow> (Inl (Errorf ''backup: inspect lease: parse'' [derr]), w1)
           | Inr body \<Rightarrow>
               if \<not> lb_Released body \<and> now < lb_ExpiresAt body then (Inr None, w1)
               else (let claimKey = breakClaimKey sha deployment body in
                 case sp_Get sp ctx claimKey w1 of
                   (Inl err, w2) \<Rightarrow> (if is_err err ErrNotFound then Inr None else Inl (Errorf ''backup: inspect break claim'' [err]), w2)
                 | (Inr crc, w2) \<Rightarrow>
                     (case decode_reader claim_of_json crc of
                        Inl derr \<Rightarrow> (Inl (Errorf ''backup: inspect break claim: parse'' [derr]), w2)
                      | Inr claim \<Rightarrow>
                          (if now - bc_ClaimedAt claim < wedgeGrace then Inr None
                           else Inr (Some \<lparr>lw_Deployment = deployment, lw_LeaseKey = backupLeaseKey deployment, lw_ClaimKey = claimKey,
                                           lw_Breaker = bc_Breaker claim, lw_ClaimedAt = bc_ClaimedAt claim,
                                           lw_LeaseOwner = lb_Owner body, lw_LeaseAcquiredAt = lb_AcquiredAt body\<rparr>), w2)))))"

end
