(* ===== verification/FsClock.thy ===== *)
theory FsClock
  imports FsBackend
begin

text \<open>
  The operations of the filesystem backend do not touch the clock of the world: of the operations that a lease or a fence
  calls, only reading the time and sleeping move it.
\<close>

definition clock :: "'a os_scheme \<Rightarrow> instant \<times> duration list" where
  "clock w = (os_now w, os_ticks w)"

lemma clock_updates [simp]:
  "clock (w\<lparr>os_faults := f\<rparr>) = clock w" "clock (w\<lparr>os_inodes := i\<rparr>) = clock w" "clock (w\<lparr>os_ents := en\<rparr>) = clock w"
  "clock (w\<lparr>os_journal := j\<rparr>) = clock w" "clock (w\<lparr>os_disk := dk\<rparr>) = clock w" "clock (w\<lparr>os_drawn := n\<rparr>) = clock w"
  "clock (w\<lparr>os_ctxerrs := c\<rparr>) = clock w"
  by (simp_all add: clock_def)

lemma clock_fs [simp]: "clock (v\<lparr>p_deferred := q\<rparr>) = clock v"
  by (simp add: clock_def)

lemma clock_ent [simp]: "clock (set_ent p n w) = clock w" "clock (del_ent p w) = clock w" "clock (set_data i b w) = clock w"
  by (simp_all add: set_ent_def del_ent_def set_data_def)

lemma clock_pop: "pop_fault w = (f, w') \<Longrightarrow> clock w' = clock w"
  by (auto simp: pop_fault_def split: list.splits)

lemma clock_sys: "sys f w = (r, w') \<Longrightarrow> (\<And>v r v'. f v = (r, v') \<Longrightarrow> clock v' = clock v) \<Longrightarrow> clock w' = clock w"
  by (auto simp: sys_def dest!: clock_pop split: prod.splits option.splits)

lemma clock_mkdirs: "clock (fold (\<lambda>p w. if lookup w p = None then set_ent p NDir w else w) ps w) = clock w"
  by (induction ps arbitrary: w) auto

lemma clock_os:
  "os_Stat p w = (r1, w') \<Longrightarrow> clock w' = clock w"
  "os_Open p w = (r2, w') \<Longrightarrow> clock w' = clock w"
  "os_CreateExcl p w = (r3, w') \<Longrightarrow> clock w' = clock w"
  "file_Sync i w = (r4, w') \<Longrightarrow> clock w' = clock w"
  "file_Close i w = (r4, w') \<Longrightarrow> clock w' = clock w"
  "os_Link p q w = (r4, w') \<Longrightarrow> clock w' = clock w"
  "os_Rename p q w = (r4, w') \<Longrightarrow> clock w' = clock w"
  "os_Remove p w = (r4, w') \<Longrightarrow> clock w' = clock w"
  "os_MkdirAll p w = (r4, w') \<Longrightarrow> clock w' = clock w"
  "dir_Sync p w = (r4, w') \<Longrightarrow> clock w' = clock w"
  by (auto simp: os_Stat_def os_Open_def os_CreateExcl_def file_Sync_def file_Close_def os_Link_def os_Rename_def os_Remove_def
      os_MkdirAll_def dir_Sync_def clock_mkdirs Let_def dest: clock_pop elim!: clock_sys
      split: option.splits node.splits prod.splits if_splits)

lemma clock_file_Copy: "file_Copy i r w = (x, w') \<Longrightarrow> clock w' = clock w"
  by (auto simp: file_Copy_def dest!: clock_pop split: prod.splits option.splits)

lemma clock_drop [simp]: "clock (drop_Remove p w) = clock w" "clock (drop_Close i w) = clock w"
  by (simp_all add: drop_Remove_def drop_Close_def clock_os(8) [OF surjective_pairing] clock_os(5) [OF surjective_pairing])

lemma clock_ctx: "ctx_Err ctx w = (e, w') \<Longrightarrow> clock w' = clock w"
  by (auto simp: ctx_Err_def split: ctx.splits list.splits)

lemma clock_rand: "randHex w = (h, w') \<Longrightarrow> clock w' = clock w"
  by (auto simp: randHex_def rand_Read_def)

lemma clock_syncDir: "syncDir d w = (e, w') \<Longrightarrow> clock w' = clock w"
  by (auto simp: syncDir_def dest!: clock_os(2,10) split: prod.splits sum.splits)

lemma clock_missing_dirs: "missing_dirs ds w = (r, w') \<Longrightarrow> clock w' = clock w"
proof (induction ds arbitrary: w r w')
  case (Cons d ds)
  then show ?case by (auto dest!: clock_os(1) split: prod.splits sum.splits if_splits)
qed simp

lemma clock_sync_parents: "sync_parents ms w = (e, w') \<Longrightarrow> clock w' = clock w"
proof (induction ms arbitrary: w)
  case (Cons m ms)
  then show ?case by (auto dest!: clock_syncDir split: prod.splits option.splits)
qed simp

lemma clock_mkdirAllDurable: "mkdirAllDurable d w = (e, w') \<Longrightarrow> clock w' = clock w"
  by (auto simp: mkdirAllDurable_def dest!: clock_os(1,9) clock_missing_dirs clock_sync_parents split: prod.splits sum.splits if_splits)

lemma clock_mkdir_retry: "mkdir_retry n err d w = (e, w') \<Longrightarrow> clock w' = clock w"
proof (induction n arbitrary: err w)
  case (Suc n)
  then show ?case by (auto dest!: clock_mkdirAllDurable split: prod.splits option.splits if_splits)
qed simp

lemma clock_create_retry: "create_retry n p w = (r, w') \<Longrightarrow> clock w' = clock w"
proof (induction n arbitrary: w)
  case (Suc n)
  show ?case using Suc.prems Suc.IH unfolding create_retry.simps [of "Suc n"]
    by (auto simp: mkdirAllRetry_def dest!: clock_os(3) clock_mkdir_retry split: prod.splits sum.splits option.splits if_splits)
qed (auto simp: create_retry.simps dest!: clock_os(3) split: prod.splits sum.splits)

lemma clock_writeAndVerify: "writeAndVerify sha i r opts w = (x, w') \<Longrightarrow> clock w' = clock w"
  by (auto simp: writeAndVerify_def Let_def dest!: clock_file_Copy split: prod.splits sum.splits if_splits)

lemmas clock_put = clock_rand clock_create_retry clock_writeAndVerify clock_syncDir clock_os(1,4-7)

lemma clock_putDeferred: "putDeferred sha k full r opts w = (x, w') \<Longrightarrow> clock w' = clock w"
  by (auto simp: putDeferred_def createStaging_def recordDeferred_def Let_def dest!: clock_put split: prod.splits sum.splits if_splits)

lemma clock_putExclusive: "putExclusive sha k full r opts w = (x, w') \<Longrightarrow> clock w' = clock w"
  by (auto simp: putExclusive_def createStaging_def Let_def dest!: clock_put clock_putDeferred split: prod.splits sum.splits if_splits option.splits)

lemma clock_putOverwrite: "putOverwrite sha k full r opts w = (x, w') \<Longrightarrow> clock w' = clock w"
  by (auto simp: putOverwrite_def createStaging_def Let_def dest!: clock_put split: prod.splits sum.splits if_splits option.splits)

lemma clock_fs_Put: "fs_Put sha ctx k r opts w = (x, w') \<Longrightarrow> clock w' = clock w"
  by (auto simp: fs_Put_def mkdirAllRetry_def dest!: clock_ctx clock_mkdir_retry clock_putExclusive clock_putOverwrite
      split: prod.splits sum.splits if_splits option.splits)

lemma clock_fs_Delete: "fs_Delete ctx k w = (x, w') \<Longrightarrow> clock w' = clock w"
  by (auto simp: fs_Delete_def dest!: clock_ctx clock_os(8) clock_syncDir split: prod.splits sum.splits if_splits option.splits)

lemma clock_fs_Get: "fs_Get ctx k w = (x, w') \<Longrightarrow> clock w' = clock w"
  by (auto simp: fs_Get_def dest!: clock_ctx clock_os(2) split: prod.splits sum.splits if_splits option.splits)

end
