(* ===== verification/FenceProps.thy ===== *)
theory FenceProps
  imports GcFence CasProps FsClock TimeRound
begin

text \<open>
  The commit fence ends. \<^verbatim>\<open>pinAndWait\<close> polls the records of running collections in a loop without a counter; \<open>wait_while\<close>
  is that loop. Over a clock that does not run backwards a wait costs at least the length of the sleep, so the deadline
  passes within the number of turns that \<open>wait_loop\<close> has as its fuel, and the two agree.
\<close>

partial_function (option) wait_while ::
  "'w runtime \<Rightarrow> 'w StoragePlugin \<Rightarrow> ctx \<Rightarrow> instant \<Rightarrow> (string \<times> int) list \<Rightarrow> 'w \<Rightarrow> (error option \<times> 'w) option" where
  "wait_while rt sp ctx deadline waitFor w =
     (if waitFor = [] then Some (None, w)
      else case rt_Now rt w of (t, w1) \<Rightarrow>
        if t > deadline then Some (Some fence_timeout, w1)
        else (case rt_Sleep rt ctx gcFencePoll w1 of
            (Some err, w2) \<Rightarrow> Some (Some err, w2)
          | (None, w2) \<Rightarrow>
              (case rt_Now rt w2 of (now, w3) \<Rightarrow>
                 (case poll_runs sp ctx now waitFor w3 of (rest, w4) \<Rightarrow> wait_while rt sp ctx deadline rest w4))))"

subsection \<open>Clocks that do not run backwards\<close>

locale steady_clock =
  fixes rt :: "'w runtime" and sp :: "'w StoragePlugin" and steady :: "'w \<Rightarrow> bool" and clk :: "'w \<Rightarrow> instant"
  assumes now_clock: "steady w \<Longrightarrow> rt_Now rt w = (t, w') \<Longrightarrow> steady w' \<and> clk w \<le> t \<and> t \<le> clk w'"
    and sleep_clock: "steady w \<Longrightarrow> 0 \<le> d \<Longrightarrow> rt_Sleep rt ctx d w = (None, w') \<Longrightarrow> steady w' \<and> clk w + d \<le> clk w'"
    and get_clock: "steady w \<Longrightarrow> sp_Get sp ctx k w = (r, w') \<Longrightarrow> steady w' \<and> clk w \<le> clk w'"
begin

lemma getJSON_clock: "steady w \<Longrightarrow> getJSON dec sp ctx k w = (r, w') \<Longrightarrow> steady w' \<and> clk w \<le> clk w'"
  by (auto simp: getJSON_def dest: get_clock split: prod.splits sum.splits)

lemma poll_runs_clock: "steady w \<Longrightarrow> poll_runs sp ctx now ws w = (rest, w') \<Longrightarrow> steady w' \<and> clk w \<le> clk w'"
proof (induction ws arbitrary: w rest w')
  case (Cons x ws)
  obtain k seq where x: "x = (k, seq)" by fastforce
  obtain r w1 where g: "getJSON run_of_json sp ctx k w = (r, w1)" by fastforce
  obtain rest1 w2 where p: "poll_runs sp ctx now ws w1 = (rest1, w2)" by fastforce
  have "w' = w2" using Cons.prems(2) x g p by simp
  then show ?case using getJSON_clock [OF Cons.prems(1) g] Cons.IH [OF _ p] by auto
qed simp

text \<open>With \<open>n\<close> polls left before the deadline, \<open>n + 1\<close> turns are enough.\<close>

lemma wait_while_ends:
  assumes "steady w" "deadline < clk w + int n * gcFencePoll"
  shows "wait_while rt sp ctx deadline ws w = Some (wait_loop (Suc n) rt sp ctx deadline ws w)"
  using assms
proof (induction n arbitrary: ws w)
  case 0
  obtain t w1 where t: "rt_Now rt w = (t, w1)" by fastforce
  have "deadline < t" using now_clock [OF 0(1) t] 0(2) by simp
  then show ?case by (simp add: wait_while.simps [of rt sp ctx deadline ws w] t)
next
  case (Suc n)
  obtain t w1 where t: "rt_Now rt w = (t, w1)" by fastforce
  obtain e w2 where s: "rt_Sleep rt ctx gcFencePoll w1 = (e, w2)" by fastforce
  obtain now w3 where n: "rt_Now rt w2 = (now, w3)" by fastforce
  obtain rest w4 where p: "poll_runs sp ctx now ws w3 = (rest, w4)" by fastforce
  note c1 = now_clock [OF Suc.prems(1) t]
  have "wait_while rt sp ctx deadline rest w4 = Some (wait_loop (Suc n) rt sp ctx deadline rest w4)" if "e = None"
  proof (rule Suc.IH)
    note c2 = sleep_clock [OF conjunct1 [OF c1] _ s [unfolded that]]
    have g: "0 \<le> gcFencePoll" by (simp add: gcFencePoll_def)
    note c3 = now_clock [OF conjunct1 [OF c2 [OF g]] n] note c4 = poll_runs_clock [OF conjunct1 [OF c3] p]
    show "steady w4" using c4 by simp
    have "clk w + gcFencePoll \<le> clk w4" using c1 c2 [OF g] c3 c4 by linarith
    then show "deadline < clk w4 + int n * gcFencePoll" using Suc.prems(2) by (simp add: algebra_simps)
  qed
  then show ?case by (subst wait_while.simps) (auto simp: t s n p split: option.splits)
qed

lemma fence_wait:
  assumes "steady w" "t \<le> clk w"
  shows "wait_while rt sp ctx (t + GCFenceMaxWait) ws w = Some (wait_loop gcFencePolls rt sp ctx (t + GCFenceMaxWait) ws w)"
proof -
  have n: "gcFencePolls = Suc 1201" by (simp add: gcFencePolls_def)
  show ?thesis unfolding n
    by (rule wait_while_ends [OF assms(1)]) (use assms(2) in \<open>simp add: GCFenceMaxWait_def gcFencePoll_def second_def minute_def\<close>)
qed

end

subsection \<open>The clock of the filesystem world\<close>

definition steady_fs :: "fs \<Rightarrow> bool" where
  "steady_fs w \<longleftrightarrow> list_all (\<lambda>d. 0 \<le> d) (os_ticks w)"

lemma clock_steady: "clock w' = clock w \<Longrightarrow> steady_fs w \<Longrightarrow> steady_fs w' \<and> os_now w \<le> os_now w'"
  by (simp add: clock_def steady_fs_def)

interpretation fs_clock: steady_clock fs_runtime "fs_plugin sha statfs" steady_fs os_now
proof unfold_locales
  fix w :: fs and t w'
  assume "steady_fs w" "rt_Now fs_runtime w = (t, w')"
  then show "steady_fs w' \<and> os_now w \<le> t \<and> t \<le> os_now w'"
    by (auto simp: steady_fs_def fs_runtime_def time_Now_def split: list.splits)
next
  fix w :: fs and d ctx w'
  assume "steady_fs w" "0 \<le> d" "rt_Sleep fs_runtime ctx d w = (None, w')"
  then show "steady_fs w' \<and> os_now w + d \<le> os_now w'"
    by (auto simp: steady_fs_def fs_runtime_def time_After_def clock_def dest!: clock_ctx split: prod.splits option.splits)
next
  fix w :: fs and ctx k r w'
  assume "steady_fs w" "sp_Get (fs_plugin sha statfs) ctx k w = (r, w')"
  then show "steady_fs w' \<and> os_now w \<le> os_now w'" by (intro clock_steady) (auto dest: clock_fs_Get)
qed

subsection \<open>The fence ends\<close>

text \<open>
  C25. The commit fence does not wait for ever. On a filesystem repository whose clock does not run backwards the poll loop
  of \<^verbatim>\<open>pinAndWait\<close>, entered at an instant \<open>t\<close> with the deadline five minutes later, returns whatever the collections do and
  whichever system calls fail, and what it returns is what \<open>wait_loop\<close> computes in at most \<open>gcFencePolls\<close> turns.
\<close>

theorem commit_fence_ends:
  assumes "steady_fs w" "t \<le> os_now w"
  shows "wait_while fs_runtime (fs_plugin sha statfs) ctx (t + GCFenceMaxWait) ws w =
    Some (wait_loop gcFencePolls fs_runtime (fs_plugin sha statfs) ctx (t + GCFenceMaxWait) ws w)"
  using assms by (rule fs_clock.fence_wait)

theorem commit_fence_ends_witness:
  "wait_while fs_runtime (fs_plugin ex_sha ex_statfs) CallerCtx (0 + GCFenceMaxWait) [(''gc/runs/a.json'', 1)] (ex_fs []) =
    Some (None, snd (the (wait_while fs_runtime (fs_plugin ex_sha ex_statfs) CallerCtx (0 + GCFenceMaxWait) [(''gc/runs/a.json'', 1)] (ex_fs []))))"
proof -
  have s: "steady_fs (ex_fs [])" "0 \<le> os_now (ex_fs [])" by code_simp+
  have "fst (wait_loop 1202 fs_runtime (fs_plugin ex_sha ex_statfs) CallerCtx (0 + GCFenceMaxWait) [(''gc/runs/a.json'', 1)] (ex_fs [])) = None"
    by code_simp
  then show ?thesis using commit_fence_ends [OF s, of ex_sha ex_statfs CallerCtx "[(''gc/runs/a.json'', 1)]"]
    by (simp add: gcFencePolls_def prod_eq_iff)
qed

subsection \<open>Records and pins\<close>





end
