(* ===== verification/LeaseProps.thy ===== *)
theory LeaseProps
  imports Lease FenceProps FsGc
begin

text \<open>
  What the lease guarantees. The documents of the lease and of a claim read back as written. From the storage contract and
  a clock that does not run backwards, no sequence of acquisitions, renewals and releases of any number of runners leaves
  two of them holding an unexpired lease, whichever storage operations fail and whatever they wrote before failing.
\<close>

subsection \<open>The documents read back\<close>

lemma length_escape_char: "length (escape_char c) \<le> 6"
  by (simp add: escape_char_def hex2_def)

lemma length_print_string: "length (print_string s) \<le> 6 * length s + 2"
proof (induction s)
  case (Cons c s)
  then show ?case using length_escape_char [of c] by (simp add: print_string_def)
qed (simp add: print_string_def)

lemma length_fmt_d: "0 \<le> v \<Longrightarrow> v < 10 ^ Suc k \<Longrightarrow> length (fmt_d (Suc k) v) = Suc k"
  using pad_digits(1) [of "nat v" k] by (simp add: fmt_d_def nat_less_iff)

lemma length_fmt_time:
  assumes "year_ok t"
  shows "length (fmt_RFC3339Nano t) \<le> 40"
proof -
  have c: "civil (day_of t) = (Year t, Month t, Day t)" by (simp add: Year_def Month_def Day_def)
  note cd = civil_date [OF c]
  have d: "Day t \<le> 31" using cd(5) assms by (auto simp: year_ok_def days_in_def split: if_splits)
  have date: "length (fmt_d 4 (Year t)) = 4" "length (fmt_d 2 (Month t)) = 2" "length (fmt_d 2 (Day t)) = 2"
    using length_fmt_d [of "Year t" 3] length_fmt_d [of "Month t" 1] length_fmt_d [of "Day t" 1] assms cd(2-4) d
    by (simp_all add: year_ok_def numeral_2_eq_2 eval_nat_numeral)
  define s where "s = t mod day_ns div second"
  have ns: "day_ns = 86400000000000" "second = 1000000000" by (simp_all add: day_ns_def hour_def minute_def second_def)
  have s: "0 \<le> s" "s < 86400" unfolding s_def ns using zdiv_mono1 [of "t mod 86400000000000" 86399999999999 1000000000] by simp_all
  then have "s div 3600 < 100" by simp
  then have clock: "length (fmt_d 2 (s div 3600)) = 2" "length (fmt_d 2 (s div 60 mod 60)) = 2" "length (fmt_d 2 (s mod 60)) = 2"
    using length_fmt_d [of "s div 3600" 1] length_fmt_d [of "s div 60 mod 60" 1] length_fmt_d [of "s mod 60" 1] s
    by (simp_all add: numeral_2_eq_2)
  have "length (fmt_frac 9 (t mod second)) \<le> 10"
  proof -
    have "nat (t mod second) < 10 ^ Suc 8" by (simp add: ns nat_less_iff)
    from pad_digits(1) [OF this] have "length (pad_zero 9 (dec_int (t mod second))) = 9" using dec_int_digits [of "nat (t mod second)"] by (simp add: ns)
    moreover have "t mod second mod 10 ^ 9 = t mod second" by (simp add: ns)
    ultimately show ?thesis using length_dropWhile_le [of "\<lambda>c. c = CHR ''0''" "rev (pad_zero 9 (dec_int (t mod second)))"]
      unfolding fmt_frac_def Let_def by (simp split: if_splits)
  qed
  then show ?thesis unfolding fmt_RFC3339Nano_def fmt_date_def fmt_clock_def Let_def s_def [symmetric] using date clock by simp
qed

definition small_lease :: "leaseBody \<Rightarrow> bool" where
  "small_lease b \<longleftrightarrow> length (lb_Schema b) + length (lb_Deployment b) + length (lb_Owner b) \<le> 10000"

lemma lease_json_ok: "json_ok (lease_json b)"
  by (simp add: lease_json_def JTime_def)

lemma length_JTime: "year_ok t \<Longrightarrow> length (print_json (JTime t)) \<le> 242"
  using length_print_string [of "fmt_RFC3339Nano t"] length_fmt_time [of t] by (simp add: JTime_def)

lemma length_lease:
  assumes "small_lease b" "lease_times_ok b"
  shows "length (Marshal (lease_json b)) \<le> nat maxLeaseBodyBytes"
proof -
  note s = length_print_string [of "lb_Schema b"] length_print_string [of "lb_Deployment b"] length_print_string [of "lb_Owner b"]
  have k: "length (print_string ''schema'') \<le> 100" "length (print_string ''deployment'') \<le> 100" "length (print_string ''owner'') \<le> 100"
    "length (print_string ''acquired_at'') \<le> 100" "length (print_string ''expires_at'') \<le> 100" "length (print_string ''released'') \<le> 100"
    "length (print_string ''released_at'') \<le> 100" by code_simp+
  have t: "length (print_json (JTime (lb_AcquiredAt b))) \<le> 242" "length (print_json (JTime (lb_ExpiresAt b))) \<le> 242"
    "lb_ReleasedAt b \<noteq> zero_time \<Longrightarrow> length (print_json (JTime (lb_ReleasedAt b))) \<le> 242"
    using assms(2) length_JTime by (auto simp: lease_times_ok_def)
  have "length (print_json (lease_json b)) \<le> 65536" unfolding lease_json_def
    using s k t assms(1) by (cases "lb_Released b"; cases "lb_ReleasedAt b = zero_time") (simp_all add: small_lease_def)
  then show ?thesis by (simp add: Marshal_def bytes_of_string_def maxLeaseBodyBytes_def)
qed

lemma lease_of_lease_json:
  assumes "lease_times_ok b"
  shows "lease_of_json (lease_json b) = Inr b"
proof -
  have t: "parse_RFC3339 (fmt_RFC3339Nano (lb_AcquiredAt b)) = Some (lb_AcquiredAt b)" "parse_RFC3339 (fmt_RFC3339Nano (lb_ExpiresAt b)) = Some (lb_ExpiresAt b)"
    "lb_ReleasedAt b \<noteq> zero_time \<Longrightarrow> parse_RFC3339 (fmt_RFC3339Nano (lb_ReleasedAt b)) = Some (lb_ReleasedAt b)"
    using assms parse_fmt_RFC3339 by (auto simp: lease_times_ok_def)
  show ?thesis
    by (cases "lb_Released b"; cases "lb_ReleasedAt b = zero_time")
      (simp_all add: lease_json_def lease_of_json_def json_field_def str_field_def time_field_def bool_field_def JTime_def t)
qed

lemma decode_lease_Marshal:
  assumes "small_lease b" "lease_times_ok b"
  shows "decode_lease (take (nat maxLeaseBodyBytes) (Marshal (lease_json b))) = Inr b"
  using length_lease [OF assms] by (simp add: decode_lease_def Unmarshal_Marshal [OF lease_json_ok] lease_of_lease_json [OF assms(2)])

subsection \<open>The state of a lease\<close>

text \<open>The document a reader of the lease object decodes, and when it leaves the lease free to take.\<close>

definition stored :: "store \<Rightarrow> string \<Rightarrow> leaseBody option" where
  "stored m d =
     (case m (backupLeaseKey d) of
        None \<Rightarrow> None
      | Some (b, t) \<Rightarrow> (case decode_lease (take (nat maxLeaseBodyBytes) b) of Inl _ \<Rightarrow> None | Inr x \<Rightarrow> Some x))"

definition free_at :: "store \<Rightarrow> string \<Rightarrow> instant \<Rightarrow> bool" where
  "free_at m d t \<longleftrightarrow> (\<forall>b. stored m d = Some b \<longrightarrow> lb_Released b \<or> lb_ExpiresAt b \<le> t)"

lemma stored_cong: "m (backupLeaseKey d) = m' (backupLeaseKey d) \<Longrightarrow> stored m d = stored m' d"
  by (simp add: stored_def)

lemma stored_enc:
  "m (backupLeaseKey d) = Some (Marshal (lease_json b), t) \<Longrightarrow> small_lease b \<Longrightarrow> lease_times_ok b \<Longrightarrow> stored m d = Some b"
  by (simp add: stored_def decode_lease_Marshal)

lemma free_absent: "m (backupLeaseKey d) = None \<Longrightarrow> free_at m d t"
  by (simp add: free_at_def stored_def)

lemma free_mono: "free_at m d t \<Longrightarrow> t \<le> t' \<Longrightarrow> free_at m d t'"
  by (auto simp: free_at_def)

lemma claim_key_form:
  obtains x where "claim_gen_key sha d v n =
    ''leases/'' @ d @ ''/breaks/'' @ EncodeToString x @ (if n > 0 then ''.'' @ fmt_d 0 (int n) else []) @ ''.json''"
proof -
  obtain x where x: "breakClaimKey sha d v = (''leases/'' @ d @ ''/breaks/'' @ EncodeToString x) @ ''.json''"
    by (simp add: breakClaimKey_def Let_def)
  have t: "TrimSuffix (breakClaimKey sha d v) ''.json'' = ''leases/'' @ d @ ''/breaks/'' @ EncodeToString x"
    unfolding x by (rule TrimSuffix_append)
  have "claim_gen_key sha d v n = ''leases/'' @ d @ ''/breaks/'' @ EncodeToString x @ (if n > 0 then ''.'' @ fmt_d 0 (int n) else []) @ ''.json''"
    unfolding claim_gen_key_def Let_def by (simp only: t) (simp add: x)
  then show thesis by (rule that)
qed

lemma claim_key_ne: "claim_gen_key sha d v n \<noteq> backupLeaseKey d"
proof -
  obtain x where x: "claim_gen_key sha d v n =
    ''leases/'' @ d @ ''/breaks/'' @ EncodeToString x @ (if n > 0 then ''.'' @ fmt_d 0 (int n) else []) @ ''.json''" by (rule claim_key_form)
  show ?thesis unfolding x backupLeaseKey_def by simp
qed

definition fresh_body :: "string \<Rightarrow> string \<Rightarrow> instant \<Rightarrow> duration \<Rightarrow> leaseBody" where
  "fresh_body d owner t ttl = \<lparr>lb_Schema = LeaseSchema, lb_Deployment = d, lb_Owner = owner, lb_AcquiredAt = t, lb_ExpiresAt = t + ttl,
     lb_Released = False, lb_ReleasedAt = zero_time\<rparr>"

lemma small_fresh: "length owner + length d \<le> 9000 \<Longrightarrow> small_lease (fresh_body d owner t ttl)"
  by (simp add: small_lease_def fresh_body_def LeaseSchema_def)

definition lease_owner :: "'w LeaseOptions \<Rightarrow> string" where
  "lease_owner opts = (if lo_Owner opts = [] then defaultLeaseOwner opts else lo_Owner opts)"

text \<open>
  Runners at work on one deployment: the leases they hold beside the world. A step is a whole call of one runner, a pause,
  or a runner that dies.
\<close>

inductive lease_step :: "(bytes \<Rightarrow> Hash) \<Rightarrow> 'w runtime \<Rightarrow> 'w StoragePlugin \<Rightarrow> string \<Rightarrow> 'w Lease list \<times> 'w \<Rightarrow> 'w Lease list \<times> 'w \<Rightarrow> bool"
  for sha rt sp d where
  acquired: "AcquireBackupLease sha rt sp ctx d opts w = (Inr l, w') \<Longrightarrow> lo_now opts = None \<Longrightarrow> length (lease_owner opts) + length d \<le> 9000 \<Longrightarrow>
    lease_step sha rt sp d (hs, w) (l # hs, w')"
| refused: "AcquireBackupLease sha rt sp ctx d opts w = (Inl e, w') \<Longrightarrow> lo_now opts = None \<Longrightarrow> length (lease_owner opts) + length d \<le> 9000 \<Longrightarrow>
    lease_step sha rt sp d (hs, w) (hs, w')"
| renewed: "Renew rt sp ctx l w = (e', l', w') \<Longrightarrow> lease_step sha rt sp d (xs @ l # ys, w) (xs @ l' # ys, w')"
| released: "Release sp ctx l w = (e', w') \<Longrightarrow> lease_step sha rt sp d (xs @ l # ys, w) (xs @ ys, w')"
| paused: "rt_Sleep rt ctx \<delta> w = (e', w') \<Longrightarrow> 0 \<le> \<delta> \<Longrightarrow> lease_step sha rt sp d (hs, w) (hs, w')"
| died: "lease_step sha rt sp d (xs @ l # ys, w) (xs @ ys, w)"

definition lease_id :: "'w Lease \<Rightarrow> string \<times> instant" where
  "lease_id l = (lb_Owner (l_body l), lb_AcquiredAt (l_body l))"

locale lease_store = runtime_store sp good okkey objs pend rt + steady_clock rt sp steady clk
  for sp :: "'w StoragePlugin" and good okkey objs pend and rt :: "'w runtime" and steady clk +
  assumes get_prefix: "good w \<Longrightarrow> okkey k \<Longrightarrow> sp_Get sp ctx k w = (Inr rc, w') \<Longrightarrow>
      \<exists>b t n. objs w k = Some (b, t) \<and> rd_data rc = take n b"
    and put_clock: "steady w \<Longrightarrow> sp_Put sp ctx k (bytes_NewReader b) o' w = (r, w') \<Longrightarrow> steady w' \<and> clk w \<le> clk w'"
    and delete_clock: "steady w \<Longrightarrow> sp_Delete sp ctx k w = (e', w') \<Longrightarrow> steady w' \<and> clk w \<le> clk w'"
    and sleep_error_clock: "steady w \<Longrightarrow> rt_Sleep rt ctx d w = (Some e, w') \<Longrightarrow> steady w' \<and> clk w \<le> clk w'"
begin

text \<open>The world is well formed, and later.\<close>

definition later :: "'w \<Rightarrow> 'w \<Rightarrow> bool" where
  "later w w' \<longleftrightarrow> good w' \<and> steady w' \<and> clk w \<le> clk w'"

definition ready :: "'w \<Rightarrow> bool" where
  "ready w \<longleftrightarrow> good w \<and> steady w"

lemma later_trans: "later w w1 \<Longrightarrow> later w1 w2 \<Longrightarrow> later w w2"
  by (auto simp: later_def)

lemma later_refl: "ready w \<Longrightarrow> later w w"
  by (simp add: later_def ready_def)

lemma later_ready: "later w w' \<Longrightarrow> ready w'"
  by (simp add: later_def ready_def)

lemma now_later: "ready w \<Longrightarrow> rt_Now rt w = (t, w') \<Longrightarrow> later w w' \<and> objs w' = objs w \<and> clk w \<le> t \<and> t \<le> clk w'"
  using now_state [of w t w'] now_clock [of w t w'] by (auto simp: later_def ready_def)

lemma sleep_later: "ready w \<Longrightarrow> 0 \<le> d \<Longrightarrow> rt_Sleep rt ctx d w = (e, w') \<Longrightarrow> later w w' \<and> objs w' = objs w"
  using sleep_state [of w ctx d e w'] sleep_clock [of w d ctx w'] sleep_error_clock [of w ctx d _ w']
  by (cases e) (auto simp: later_def ready_def)

lemma delete_later:
  assumes "ready w" "okkey k" "sp_Delete sp ctx k w = (e, w')"
  shows "later w w'" "k' \<noteq> k \<Longrightarrow> objs w' k' = objs w k'"
proof -
  have g: "good w" "steady w" using assms(1) by (simp_all add: ready_def)
  show "later w w'" using delete_good [OF g(1) assms(2,3)] delete_clock [OF g(2) assms(3)] by (simp add: later_def)
  have "objs w' = objs w \<or> objs w' = (objs w)(k := None)"
    using delete_ok [OF g(1) assms(2)] delete_error [OF g(1) assms(2)] assms(3) by (cases e) auto
  then show "k' \<noteq> k \<Longrightarrow> objs w' k' = objs w k'" by auto
qed

lemma put_later:
  assumes "ready w" "okkey k" "po_Durability o' = DurabilityInline" "sp_Put sp ctx k (bytes_NewReader b) o' w = (r, w')"
  shows "later w w'" "k' \<noteq> k \<Longrightarrow> objs w' k' = objs w k'"
    "objs w' k = objs w k \<and> isl r \<or> (\<exists>t. objs w' k = Some (b, t)) \<and> (po_IfNotExists o' \<longrightarrow> objs w k = None)"
proof -
  have g: "good w" "steady w" using assms(1) by (simp_all add: ready_def)
  show "later w w'" using put_good [OF g(1) assms(2,4)] put_clock [OF g(2) assms(4)] by (simp add: later_def)
  have "objs w' = objs w \<and> isl r \<or> (\<exists>t. objs w' = (objs w)(k \<mapsto> (b, t))) \<and> (po_IfNotExists o' \<longrightarrow> objs w k = None)"
  proof (cases r)
    case (Inl e)
    then show ?thesis using put_error [OF g(1) assms(2) assms(4) [unfolded Inl]] by auto
  next
    case (Inr x)
    then show ?thesis using put_inline [OF g(1) assms(2,3) assms(4) [unfolded Inr]] by auto
  qed
  then show "k' \<noteq> k \<Longrightarrow> objs w' k' = objs w k'"
    "objs w' k = objs w k \<and> isl r \<or> (\<exists>t. objs w' k = Some (b, t)) \<and> (po_IfNotExists o' \<longrightarrow> objs w k = None)" by auto
qed

lemma lease_read_effect:
  assumes "ready w" "okkey (backupLeaseKey (l_deployment l))" "lease_read sp ctx l w = (r, w')"
  shows "later w w'" "objs w' = objs w" "r = Inr b \<Longrightarrow> stored (objs w) (l_deployment l) = Some b"
proof -
  have g: "good w" "steady w" using assms(1) by (simp_all add: ready_def)
  obtain x w1 where x: "sp_Get sp ctx (backupLeaseKey (l_deployment l)) w = (x, w1)" by fastforce
  have w1: "w' = w1" using assms(3) x by (auto simp: lease_read_def split: sum.splits)
  show "later w w'" "objs w' = objs w" using get_state [OF g(1) assms(2) x] get_clock [OF g(2) x] w1 by (simp_all add: later_def)
  assume r: "r = Inr b"
  then obtain rc raw where rc: "x = Inr rc" "ReadAll (limit_reader rc maxLeaseBodyBytes) = Inr raw" "decode_lease raw = Inr b"
    using assms(3) x by (auto simp: lease_read_def split: sum.splits)
  obtain y t n where y: "objs w (backupLeaseKey (l_deployment l)) = Some (y, t)" "rd_data rc = take n y"
    using get_prefix [OF g(1) assms(2) x [unfolded rc(1)]] by auto
  have "raw = take (nat maxLeaseBodyBytes) y"
  proof (cases "rd_err rc = None")
    case True
    then show ?thesis using get_ok [OF g(1) assms(2) x [unfolded rc(1)] True] y rc(2)
      by (auto simp: ReadAll_def limit_reader_def LimitReader_def split: option.splits if_splits)
  next
    case False
    then show ?thesis using y(2) rc(2) by (auto simp: ReadAll_def limit_reader_def LimitReader_def min_def split: option.splits if_splits)
  qed
  then show "stored (objs w) (l_deployment l) = Some b" using y(1) rc(3) by (simp add: stored_def)
qed

lemma lease_put_effect:
  assumes "ready w" "okkey (backupLeaseKey (l_deployment l))" "lease_put sp ctx l b ine w = (e, w')" "small_lease b"
  shows "later w w'"
    "objs w' (backupLeaseKey (l_deployment l)) = objs w (backupLeaseKey (l_deployment l)) \<and> e \<noteq> None \<or>
     stored (objs w') (l_deployment l) = Some b \<and> (ine \<longrightarrow> objs w (backupLeaseKey (l_deployment l)) = None)"
    "ine \<Longrightarrow> e = Some err \<Longrightarrow> is_err err ErrAlreadyExists \<Longrightarrow> objs w' = objs w"
proof -
  let ?k = "backupLeaseKey (l_deployment l)" and ?enc = "Marshal (lease_json b)"
  define o' where "o' = zero_PutOptions\<lparr>po_ContentLength := int (length ?enc), po_IfNotExists := ine\<rparr>"
  obtain r w1 where r: "sp_Put sp ctx ?k (bytes_NewReader ?enc) o' w = (r, w1)" by fastforce
  have d: "po_Durability o' = DurabilityInline" "po_IfNotExists o' = ine" by (simp_all add: o'_def zero_PutOptions_def)
  note p = put_later [OF assms(1,2) d(1) r]
  have c: "lease_times_ok b \<Longrightarrow> w' = w1 \<and> (e = None \<longleftrightarrow> \<not> isl r)" "\<not> lease_times_ok b \<Longrightarrow> w' = w \<and> e \<noteq> None"
    using assms(3) r by (auto simp: lease_put_def o'_def Let_def split: sum.splits)
  show "later w w'" using p(1) c later_refl [OF assms(1)] by (cases "lease_times_ok b") auto
  show "objs w' = objs w" if "ine" "e = Some err" "is_err err ErrAlreadyExists"
  proof (cases "lease_times_ok b")
    case True
    then have "r = Inl err" "w' = w1" using assms(3) r that(2) by (auto simp: lease_put_def o'_def Let_def split: sum.splits)
    then show ?thesis using put_exists [of w ?k o' ctx ?enc err w1] r d(2) that assms(1,2) by (auto simp: ready_def)
  qed (use c(2) in auto)
  show "objs w' ?k = objs w ?k \<and> e \<noteq> None \<or> stored (objs w') (l_deployment l) = Some b \<and> (ine \<longrightarrow> objs w ?k = None)"
  proof (cases "lease_times_ok b")
    case True
    then show ?thesis using p(3) c(1) stored_enc [of "objs w'" "l_deployment l" b, OF _ assms(4) True] d(2) by auto
  qed (use c(2) in auto)
qed

text \<open>The keys of a deployment: the lease and its claims.\<close>

definition lease_keys :: "string \<Rightarrow> bool" where
  "lease_keys d \<longleftrightarrow> okkey (backupLeaseKey d) \<and> (\<forall>sha v n. okkey (claim_gen_key sha d v n))"

lemma putClaim_effect:
  assumes "ready w" "okkey key" "key \<noteq> k" "l_now l = rt_Now rt" "putClaim sp ctx l key v owner w = (e, w')"
  shows "later w w' \<and> objs w' k = objs w k"
proof -
  obtain t w1 where t: "rt_Now rt w = (t, w1)" by fastforce
  note n = now_later [OF assms(1) t]
  define b where "b = Marshal (claim_json \<lparr>bc_Schema = LeaseSchema, bc_Deployment = l_deployment l, bc_BrokenOwner = lb_Owner v,
     bc_BrokenAt = lb_AcquiredAt v, bc_Breaker = owner, bc_ClaimedAt = t\<rparr>)"
  define o' where "o' = zero_PutOptions\<lparr>po_ContentLength := int (length b), po_IfNotExists := True\<rparr>"
  obtain r w2 where r: "sp_Put sp ctx key (bytes_NewReader b) o' w1 = (r, w2)" by fastforce
  have d: "po_Durability o' = DurabilityInline" by (simp add: o'_def zero_PutOptions_def)
  note p = put_later [OF later_ready [OF conjunct1 [OF n]] assms(2) d r]
  have "w' = w1 \<or> w' = w2" using assms(4,5) t r by (auto simp: putClaim_def b_def o'_def Let_def split: if_splits sum.splits)
  then show ?thesis using n p(1) p(2) [of k] assms(3) later_trans [of w w1 w2] by auto
qed

lemma readClaim_effect:
  assumes "ready w" "okkey key" "readClaim sp ctx key w = (r, w')"
  shows "later w w' \<and> objs w' = objs w"
proof -
  have g: "good w" "steady w" using assms(1) by (simp_all add: ready_def)
  obtain x w1 where x: "sp_Get sp ctx key w = (x, w1)" by fastforce
  have "w' = w1" using assms(3) x by (auto simp: readClaim_def split: sum.splits)
  then show ?thesis using get_state [OF g(1) assms(2) x] get_clock [OF g(2) x] by (simp add: later_def)
qed

lemma claim_loop_effect:
  assumes "ready w" "lease_keys (l_deployment l)" "l_now l = rt_Now rt" "claim_loop n sha sp ctx l v owner gen w = (r, w')"
  shows "later w w' \<and> objs w' (backupLeaseKey (l_deployment l)) = objs w (backupLeaseKey (l_deployment l)) \<and>
    (snd r = None \<longrightarrow> (\<exists>g. fst r = claim_gen_key sha (l_deployment l) v g))"
  using assms(1,4)
proof (induction n arbitrary: gen w)
  case 0
  then show ?case using later_refl by auto
next
  case (Suc n)
  let ?key = "claim_gen_key sha (l_deployment l) v gen" and ?k = "backupLeaseKey (l_deployment l)"
  have ok: "okkey ?key" "?key \<noteq> ?k" using assms(2) claim_key_ne by (auto simp: lease_keys_def)
  obtain e w1 where e: "putClaim sp ctx l ?key v owner w = (e, w1)" by fastforce
  note p = putClaim_effect [OF Suc.prems(1) ok assms(3) e]
  obtain c w2 where c: "readClaim sp ctx ?key w1 = (c, w2)" by fastforce
  note rc = readClaim_effect [OF later_ready [OF conjunct1 [OF p]] ok(1) c]
  obtain t w3 where t: "rt_Now rt w2 = (t, w3)" by fastforce
  note nw = now_later [OF later_ready [OF conjunct1 [OF rc]] t]
  have l2: "later w w2" "later w w3" using later_trans p rc nw by metis+
  have stop: "(r, w') \<in> {((?key, e), w1), (([], Some ErrBackupInProgress), w2), (([], Some ErrBackupInProgress), w3)} \<or>
      claim_loop n sha sp ctx l v owner (gen + 1) w3 = (r, w')"
    using Suc.prems(2) e c t assms(3) by (auto simp: Let_def split: option.splits if_splits sum.splits)
  show ?case
  proof (cases "claim_loop n sha sp ctx l v owner (gen + 1) w3 = (r, w')")
    case True
    from Suc.IH [OF later_ready [OF l2(2)] True] show ?thesis using later_trans [OF l2(2)] p rc nw by auto
  next
    case False
    then show ?thesis using stop p rc nw l2 by auto
  qed
qed

text \<open>A lease value a runner can hold for deployment \<open>d\<close>.\<close>

definition holds_for :: "string \<Rightarrow> 'w Lease \<Rightarrow> bool" where
  "holds_for d l \<longleftrightarrow> l_deployment l = d \<and> lease_keys d \<and> l_now l = rt_Now rt \<and> 0 < l_ttl l \<and> 0 < l_settle l"

lemma holds_for_body [simp]: "holds_for d (l\<lparr>l_body := b\<rparr>) = holds_for d l"
  by (simp add: holds_for_def)

lemma freshBody_effect:
  assumes "ready w" "holds_for d l" "freshBody l owner w = (body, w')"
  shows "later w w'" "objs w' = objs w"
    "\<exists>t. clk w \<le> t \<and> t \<le> clk w' \<and> body = fresh_body d owner t (l_ttl l)"
proof -
  obtain t w1 where t: "rt_Now rt w = (t, w1)" by fastforce
  have "w' = w1" "body = fresh_body d owner t (l_ttl l)"
    using assms t by (auto simp: freshBody_def holds_for_def fresh_body_def)
  then show "later w w'" "objs w' = objs w"
    "\<exists>t. clk w \<le> t \<and> t \<le> clk w' \<and> body = fresh_body d owner t (l_ttl l)"
    using now_later [OF assms(1) t] by auto
qed

lemma Release_effect:
  assumes "ready w" "holds_for d l" "small_lease (l_body l)" "Release sp ctx l w = (e, w')"
  shows "later w w'" "objs w' (backupLeaseKey d) = objs w (backupLeaseKey d) \<or> (\<exists>b. stored (objs w) d = Some b \<and> same_lease b (l_body l))"
proof -
  let ?k = "backupLeaseKey d"
  have k: "l_deployment l = d" "okkey (backupLeaseKey (l_deployment l))" "l_now l = rt_Now rt" using assms(2) by (auto simp: holds_for_def lease_keys_def)
  obtain r w1 where r: "lease_read sp ctx l w = (r, w1)" by fastforce
  note rd = lease_read_effect [OF assms(1) k(2) r]
  obtain t w2 where t: "rt_Now rt w1 = (t, w2)" by fastforce
  note nw = now_later [OF later_ready [OF rd(1)] t]
  define tomb where "tomb = (l_body l)\<lparr>lb_ExpiresAt := t, lb_Released := True, lb_ReleasedAt := t\<rparr>"
  have sm: "small_lease tomb" using assms(3) by (simp add: small_lease_def tomb_def)
  obtain pe w3 where p: "lease_put sp ctx l tomb False w2 = (pe, w3)" by fastforce
  note pt = lease_put_effect [OF later_ready [OF conjunct1 [OF nw]] k(2) p sm]
  have "w' = w1 \<or> (\<exists>cur. r = Inr cur \<and> same_lease cur (l_body l) \<and> w' = w3)"
    using assms(4) r t p k(3) by (auto simp: Release_def tomb_def Let_def split: sum.splits if_splits option.splits)
  then show "later w w'" "objs w' ?k = objs w ?k \<or> (\<exists>b. stored (objs w) d = Some b \<and> same_lease b (l_body l))"
    using rd nw pt(1) later_trans k(1) by metis+
qed

lemma settle_effect:
  assumes "ready w" "holds_for d l" "settleVerifyObserved rt sp ctx l mine w = ((ob, e), w')"
  shows "later w w'" "objs w' = objs w" "e = None \<Longrightarrow> stored (objs w) d = Some ob \<and> same_lease ob mine"
proof -
  have k: "l_deployment l = d" "okkey (backupLeaseKey (l_deployment l))" "0 < l_settle l" using assms(2) by (auto simp: holds_for_def lease_keys_def)
  obtain se w1 where s: "rt_Sleep rt ctx (l_settle l) w = (se, w1)" by fastforce
  have sl: "later w w1" "objs w1 = objs w" using sleep_later [OF assms(1) _ s] k(3) by auto
  obtain r w2 where r: "lease_read sp ctx l w1 = (r, w2)" by fastforce
  note rd = lease_read_effect [OF later_ready [OF sl(1)] k(2) r]
  have "(w' = w1 \<and> e \<noteq> None) \<or> (w' = w2 \<and> (e = None \<longrightarrow> r = Inr ob \<and> same_lease ob mine))"
    using assms(3) s r k(3) by (auto simp: settleVerifyObserved_def split: option.splits sum.splits if_splits)
  then show "later w w'" "objs w' = objs w" "e = None \<Longrightarrow> stored (objs w) d = Some ob \<and> same_lease ob mine"
    using sl rd later_trans k(1) by auto
qed

lemma reclaim_verify_effect:
  assumes "ready w" "holds_for d l" "l_body l = body" "small_lease body" "reclaim_verify n rt sp ctx l body v w = (r, w')"
  shows "later w w' \<and> (\<forall>l'. r = Inr l' \<longrightarrow> l' = l \<and> (\<exists>b. stored (objs w') d = Some b \<and> same_lease b body)) \<and>
    (stored (objs w) d = Some body \<longrightarrow> (\<forall>l'. r = Inr l' \<longrightarrow> stored (objs w') d = Some body))"
  using assms(1,5)
proof (induction n arbitrary: w)
  case (0 w)
  obtain ob e w1 where s: "settleVerifyObserved rt sp ctx l body w = ((ob, e), w1)" by (metis prod.exhaust)
  note st = settle_effect [OF 0(1) assms(2) s]
  have ab: "later w1 (abandonReclaim sp l w1)" unfolding abandonReclaim_def
    using Release_effect(1) [OF later_ready [OF st(1)] assms(2)] assms(3,4) by (metis prod.collapse)
  show ?case
  proof (cases e)
    case None
    then have "r = Inr l" "w' = w1" using 0(2) s assms(3) by (auto simp: reclaim_verify.simps)
    then show ?thesis using st None by auto
  next
    case (Some x)
    then have "isl r" "w' = w1 \<or> w' = abandonReclaim sp l w1" using 0(2) s by (auto simp: reclaim_verify.simps split: if_splits)
    then show ?thesis using st(1) ab later_trans by (auto simp: isl_def)
  qed
next
  case (Suc n w)
  obtain ob e w1 where s: "settleVerifyObserved rt sp ctx l body w = ((ob, e), w1)" by (metis prod.exhaust)
  note st = settle_effect [OF Suc(2) assms(2) s]
  have ok: "okkey (backupLeaseKey (l_deployment l))" "l_deployment l = d" using assms(2) by (auto simp: holds_for_def lease_keys_def)
  have ab: "later x (abandonReclaim sp l x)" if "ready x" for x unfolding abandonReclaim_def
    using Release_effect(1) [OF that assms(2)] assms(3,4) by (metis prod.collapse)
  obtain pe w2 where p: "lease_put sp ctx l body False w1 = (pe, w2)" by fastforce
  note pt = lease_put_effect [OF later_ready [OF st(1)] ok(1) p assms(4)]
  have l2: "later w w2" by (rule later_trans [OF st(1) pt(1)])
  consider "e = None" "r = Inr l" "w' = w1" | "isl r" "w' \<in> {w1, abandonReclaim sp l w1, abandonReclaim sp l w2}"
    | "pe = None" "reclaim_verify n rt sp ctx l body v w2 = (r, w')"
    using Suc(3) s p assms(3) by (subst (asm) reclaim_verify.simps) (auto split: option.splits if_splits)
  then show ?case
  proof cases
    case 1
    then show ?thesis using st by auto
  next
    case 2
    then show ?thesis using st(1) l2 ab [OF later_ready [OF st(1)]] ab [OF later_ready [OF l2]] later_trans by (auto simp: isl_def)
  next
    case 3
    have "stored (objs w2) d = Some body" using pt(2) 3(1) ok(2) by auto
    then show ?thesis using Suc.IH [OF later_ready [OF l2] 3(2)] later_trans [OF l2] by auto
  qed
qed

text \<open>A lease won at an instant \<open>t\<close> of a call from \<open>w\<close> to \<open>w'\<close>: it was free, and its document is stored.\<close>

definition won :: "string \<Rightarrow> string \<Rightarrow> 'w \<Rightarrow> 'w Lease \<Rightarrow> 'w \<Rightarrow> bool" where
  "won d owner w l w' \<longleftrightarrow> holds_for d l \<and> stored (objs w') d = Some (l_body l) \<and>
     (\<exists>t. clk w \<le> t \<and> t \<le> clk w' \<and> free_at (objs w) d t \<and> l_body l = fresh_body d owner t (l_ttl l))"

definition acq :: "string \<Rightarrow> string \<Rightarrow> 'w \<Rightarrow> error + 'w Lease \<Rightarrow> 'w \<Rightarrow> bool" where
  "acq d owner w r w' \<longleftrightarrow> later w w' \<and> (\<forall>l. r = Inr l \<longrightarrow> won d owner w l w')"

lemma acq_error: "later w w' \<Longrightarrow> isl r \<Longrightarrow> acq d owner w r w'"
  by (auto simp: acq_def)

lemma acq_before:
  assumes "later w w1" "objs w1 (backupLeaseKey d) = objs w (backupLeaseKey d)" "acq d owner w1 r w'"
  shows "acq d owner w r w'"
proof -
  have f: "free_at (objs w1) d t = free_at (objs w) d t" for t using stored_cong [of "objs w1" d "objs w", OF assms(2)] by (simp add: free_at_def)
  have "clk w \<le> clk w1" using assms(1) by (simp add: later_def)
  then have "won d owner w1 l w' \<Longrightarrow> won d owner w l w'" for l unfolding won_def f by (auto intro: order_trans)
  then show ?thesis using assms(1,3) later_trans by (auto simp: acq_def)
qed

lemma put_fresh:
  assumes "ready w" "holds_for d l" "length owner + length d \<le> 9000" "freshBody l owner w = (body, w1)"
    "lease_put sp ctx l body ine w1 = (e, w')" "\<not> ine \<Longrightarrow> free_at (objs w) d (clk w)"
  shows "later w w'" "small_lease body"
    "objs w' (backupLeaseKey d) = objs w (backupLeaseKey d) \<and> e \<noteq> None \<or> free_at (objs w) d (clk w)"
    "e = None \<Longrightarrow> won d owner w (l\<lparr>l_body := body\<rparr>) w'"
proof -
  have k: "okkey (backupLeaseKey (l_deployment l))" "l_deployment l = d" using assms(2) by (auto simp: holds_for_def lease_keys_def)
  note fb = freshBody_effect [OF assms(1,2,4)]
  then obtain t where t: "clk w \<le> t" "t \<le> clk w1" "body = fresh_body d owner t (l_ttl l)" by auto
  show sm: "small_lease body" unfolding t(3) by (rule small_fresh [OF assms(3)])
  note pt = lease_put_effect [OF later_ready [OF fb(1)] k(1) assms(5) sm]
  show l: "later w w'" by (rule later_trans [OF fb(1) pt(1)])
  have fr: "free_at (objs w) d (clk w)" if "objs w' (backupLeaseKey d) \<noteq> objs w (backupLeaseKey d) \<or> e = None"
    using pt(2) that assms(6) free_absent [of "objs w" d] fb(2) k(2) by auto
  then show "objs w' (backupLeaseKey d) = objs w (backupLeaseKey d) \<and> e \<noteq> None \<or> free_at (objs w) d (clk w)" by blast
  assume e: "e = None"
  have "free_at (objs w) d t" using fr e free_mono t(1) by blast
  moreover have "t \<le> clk w'" using t(2) pt(1) by (simp add: later_def)
  ultimately show "won d owner w (l\<lparr>l_body := body\<rparr>) w'" using pt(2) e k(2) assms(2) t by (auto simp: won_def)
qed

lemma acquire_absent_effect:
  assumes "ready w" "holds_for d l" "length owner + length d \<le> 9000" "acquire_absent sp ctx l owner what w = (r, w')"
  shows "acq d owner w r w'" "objs w' (backupLeaseKey d) = objs w (backupLeaseKey d) \<or> free_at (objs w) d (clk w)"
proof -
  obtain body w1 where b: "freshBody l owner w = (body, w1)" by fastforce
  obtain e w2 where p: "lease_put sp ctx l body True w1 = (e, w2)" by fastforce
  have "\<not> True \<Longrightarrow> free_at (objs w) d (clk w)" by simp
  note pf = put_fresh [OF assms(1-3) b p this]
  have c: "w' = w2" "e = None \<Longrightarrow> r = Inr (l\<lparr>l_body := body\<rparr>)" "e \<noteq> None \<Longrightarrow> isl r"
    using assms(4) b p by (auto simp: acquire_absent_def split: option.splits)
  show "objs w' (backupLeaseKey d) = objs w (backupLeaseKey d) \<or> free_at (objs w) d (clk w)" using pf(3) c(1) by blast
  show "acq d owner w r w'" using pf(1,4) c acq_error by (cases e) (auto simp: acq_def)
qed

lemma dropClaim_later: "ready w \<Longrightarrow> okkey k \<Longrightarrow> later w (dropClaim sp k w)"
  using delete_later(1) [of w k CleanupCtx] unfolding dropClaim_def by (metis prod.collapse)

lemma reclaim_effect:
  assumes "ready w" "holds_for d l" "length owner + length d \<le> 9000" "free_at (objs w) d (clk w)" "reclaim sha rt sp ctx l owner v w = (r, w')"
  shows "acq d owner w r w'"
proof -
  have k: "okkey (backupLeaseKey (l_deployment l))" "l_deployment l = d" "lease_keys (l_deployment l)" "l_now l = rt_Now rt"
    using assms(2) by (auto simp: holds_for_def lease_keys_def)
  obtain key ce w1 where c: "claimBreakKey sha sp ctx l v owner w = ((key, ce), w1)" by (metis prod.exhaust)
  note cl = claim_loop_effect [OF assms(1) k(3,4) c [unfolded claimBreakKey_def], unfolded k(2)]
  have ok: "okkey key" if "ce = None" using cl that k by (auto simp: lease_keys_def)
  obtain x w2 where x: "lease_read sp ctx l w1 = (x, w2)" by fastforce
  note rd = lease_read_effect [OF later_ready [OF conjunct1 [OF cl]] k(1) x]
  have l2: "later w w2" "objs w2 (backupLeaseKey d) = objs w (backupLeaseKey d)" using cl rd later_trans by auto
  have f2: "free_at (objs w2) d (clk w2)"
    using free_mono [OF assms(4), of "clk w2"] l2 stored_cong [of "objs w2" d "objs w", OF l2(2)] by (auto simp: free_at_def later_def)
  obtain body w3 where b: "freshBody l owner w2 = (body, w3)" by fastforce
  obtain pe w4 where p: "lease_put sp ctx l body False w3 = (pe, w4)" by fastforce
  note pf = put_fresh [OF later_ready [OF l2(1)] assms(2,3) b p f2]
  have l4: "later w w4" by (rule later_trans [OF l2(1) pf(1)])
  consider "isl r" "w' \<in> {w1, w2}" | "isl r" "ce = None" "w' \<in> {dropClaim sp key w2, dropClaim sp key w4}"
    | "pe = None" "reclaim_verify reclaimEchoRetries rt sp ctx (l\<lparr>l_body := body\<rparr>) body v w4 = (r, w')"
    using assms(5) c x b p by (auto simp: reclaim_def split: option.splits sum.splits if_splits)
  then show ?thesis
  proof cases
    case 1
    then show ?thesis using acq_error cl l2 by auto
  next
    case 2
    then show ?thesis using acq_error later_trans [OF l2(1) dropClaim_later] later_trans [OF l4 dropClaim_later] ok l2(1) l4 later_ready by auto
  next
    case 3
    have wn: "won d owner w2 (l\<lparr>l_body := body\<rparr>) w4" by (rule pf(4) [OF 3(1)])
    then have "stored (objs w4) d = Some body" by (simp add: won_def)
    moreover note rv = reclaim_verify_effect [OF later_ready [OF l4] _ _ pf(2) 3(2), of d]
    ultimately have "later w4 w'" "\<And>l'. r = Inr l' \<Longrightarrow> l' = l\<lparr>l_body := body\<rparr> \<and> stored (objs w') d = Some body" using assms(2) by auto
    moreover have "clk w4 \<le> clk w'" using calculation(1) by (simp add: later_def)
    ultimately have "acq d owner w2 r w'" using wn later_trans [OF pf(1)] by (auto simp: acq_def won_def intro: order_trans)
    then show ?thesis by (rule acq_before [OF l2])
  qed
qed

lemma acquire_stale_effect:
  assumes "ready w" "holds_for d l" "length owner + length d \<le> 9000" "free_at (objs w) d (clk w)"
    "acquire_stale sha rt sp ctx l owner v w = (r, w')"
  shows "acq d owner w r w'"
proof -
  have k: "okkey (backupLeaseKey (l_deployment l))" "l_deployment l = d" "l_now l = rt_Now rt"
    using assms(2) by (auto simp: holds_for_def lease_keys_def)
  obtain x w1 where x: "lease_read sp ctx l w = (x, w1)" by fastforce
  note rd = lease_read_effect [OF assms(1) k(1) x]
  obtain t w2 where t: "rt_Now rt w1 = (t, w2)" by fastforce
  note nw = now_later [OF later_ready [OF rd(1)] t]
  have l2: "later w w2" "objs w2 = objs w" using rd nw later_trans by auto
  have f: "free_at (objs w1) d (clk w1)" "free_at (objs w2) d (clk w2)"
    using free_mono [OF assms(4)] rd(1,2) l2 by (auto simp: later_def)
  consider "isl r" "w' \<in> {w1, w2}" | what where "acquire_absent sp ctx l owner what w1 = (r, w')"
    | "reclaim sha rt sp ctx l owner (projr x) w1 = (r, w')" | "reclaim sha rt sp ctx l owner (projr x) w2 = (r, w')"
    using assms(5) x t k(3) by (auto simp: acquire_stale_def split: sum.splits if_splits)
  then show ?thesis
  proof cases
    case 1
    then show ?thesis using acq_error rd(1) l2(1) by auto
  next
    case 2
    from acquire_absent_effect(1) [OF later_ready [OF rd(1)] assms(2,3) 2] show ?thesis using acq_before [OF rd(1)] rd(2) by simp
  next
    case 3
    from reclaim_effect [OF later_ready [OF rd(1)] assms(2,3) f(1) 3] show ?thesis using acq_before [OF rd(1)] rd(2) by simp
  next
    case 4
    from reclaim_effect [OF later_ready [OF l2(1)] assms(2,3) f(2) 4] show ?thesis using acq_before [OF l2(1)] l2(2) by simp
  qed
qed

lemma acquire_existing_effect:
  assumes "ready w" "holds_for d l" "length owner + length d \<le> 9000" "acquire_existing sha rt sp ctx l owner w = (r, w')"
  shows "acq d owner w r w'" "objs w' (backupLeaseKey d) = objs w (backupLeaseKey d) \<or> free_at (objs w) d (clk w')"
proof -
  have k: "okkey (backupLeaseKey (l_deployment l))" "l_deployment l = d" "l_now l = rt_Now rt"
    using assms(2) by (auto simp: holds_for_def lease_keys_def)
  obtain x w1 where x: "lease_read sp ctx l w = (x, w1)" by fastforce
  note rd = lease_read_effect [OF assms(1) k(1) x]
  obtain t w2 where t: "rt_Now rt w1 = (t, w2)" by fastforce
  note nw = now_later [OF later_ready [OF rd(1)] t]
  have l2: "later w w2" "objs w2 = objs w" using rd nw later_trans by auto
  have f1: "free_at (objs w1) d (clk w1)" if "x = Inr v" "lb_Released v" for v
    using that rd(2,3) k(2) by (auto simp: free_at_def)
  have f2: "free_at (objs w2) d (clk w2)" if "x = Inr v" "\<not> t < lb_ExpiresAt v" for v
    using that rd(3) l2(2) k(2) nw by (auto simp: free_at_def)
  have up: "free_at (objs w) d (clk w')" if "free_at (objs y) d (clk y)" "objs y = objs w" "acq d owner y r w'" for y
    using that free_mono by (auto simp: acq_def later_def)
  consider "isl r" "w' \<in> {w1, w2}" | what where "acquire_absent sp ctx l owner what w1 = (r, w')"
    | v where "x = Inr v" "lb_Released v" "acquire_stale sha rt sp ctx l owner v w1 = (r, w')"
    | v where "x = Inr v" "\<not> t < lb_ExpiresAt v" "acquire_stale sha rt sp ctx l owner v w2 = (r, w')"
    using assms(4) x t k(3) by (auto simp: acquire_existing_def split: sum.splits if_splits)
  then have "acq d owner w r w' \<and> (objs w' (backupLeaseKey d) = objs w (backupLeaseKey d) \<or> free_at (objs w) d (clk w'))"
  proof cases
    case 1
    then show ?thesis using acq_error rd(1,2) l2 by auto
  next
    case 2
    note a = acquire_absent_effect [OF later_ready [OF rd(1)] assms(2,3) 2]
    show ?thesis using a acq_before [OF rd(1)] rd(2) up [of w1] by auto
  next
    case (3 v)
    from acquire_stale_effect [OF later_ready [OF rd(1)] assms(2,3) f1 [OF 3(1,2)] 3(3)]
    show ?thesis using acq_before [OF rd(1)] rd(2) up [OF f1 [OF 3(1,2)]] by simp
  next
    case (4 v)
    from acquire_stale_effect [OF later_ready [OF l2(1)] assms(2,3) f2 [OF 4(1,2)] 4(3)]
    show ?thesis using acq_before [OF l2(1)] l2(2) up [OF f2 [OF 4(1,2)]] by simp
  qed
  then show "acq d owner w r w'" "objs w' (backupLeaseKey d) = objs w (backupLeaseKey d) \<or> free_at (objs w) d (clk w')" by auto
qed

lemma Acquire_effect:
  assumes "ready w" "lease_keys d" "lo_now opts = None" "length (lease_owner opts) + length d \<le> 9000"
    "AcquireBackupLease sha rt sp ctx d opts w = (r, w')"
  shows "acq d (lease_owner opts) w r w'" "objs w' (backupLeaseKey d) = objs w (backupLeaseKey d) \<or> free_at (objs w) d (clk w')"
proof -
  define l where "l = \<lparr>l_deployment = d, l_ttl = (if lo_TTL opts \<le> 0 then DefaultLeaseTTL else lo_TTL opts), l_now = rt_Now rt,
    l_settle = (if lo_settle opts \<le> 0 then defaultLeaseSettle else lo_settle opts), l_body = zero_leaseBody\<rparr>"
  have h: "holds_for d l" using assms(2) by (auto simp: holds_for_def l_def DefaultLeaseTTL_def defaultLeaseSettle_def minute_def second_def)
  have k: "okkey (backupLeaseKey (l_deployment l))" "l_deployment l = d" using h by (auto simp: holds_for_def lease_keys_def)
  let ?o = "lease_owner opts" and ?k = "backupLeaseKey d"
  obtain body w1 where b: "freshBody l ?o w = (body, w1)" by fastforce
  note fb = freshBody_effect [OF assms(1) h b]
  obtain e w2 where p: "lease_put sp ctx l body True w1 = (e, w2)" by fastforce
  have "\<not> True \<Longrightarrow> free_at (objs w) d (clk w)" by simp
  note pf = put_fresh [OF assms(1) h assms(4) b p this]
  have same: "objs w2 = objs w" if "e = Some err" "is_err err ErrAlreadyExists" for err
    using lease_put_effect(3) [OF later_ready [OF fb(1)] k(1) p pf(2) _ that] fb(2) by simp
  have up: "free_at (objs w) d (clk w')" if "free_at (objs w) d (clk w)" "later w w'"
    using that free_mono by (auto simp: later_def)
  consider "isl r" "w' = w" | "isl r" "w' = w2" | "e = None" "r = Inr (l\<lparr>l_body := body\<rparr>)" "w' = w2"
    | err where "e = Some err" "is_err err ErrAlreadyExists" "acquire_existing sha rt sp ctx l ?o w2 = (r, w')"
    using assms(5) unfolding AcquireBackupLease_def Let_def assms(3) option.case lease_owner_def [symmetric] l_def [symmetric] b p prod.case
    by (auto split: if_splits option.splits)
  then have "acq d ?o w r w' \<and> (objs w' ?k = objs w ?k \<or> free_at (objs w) d (clk w'))"
  proof cases
    case 1
    then show ?thesis using acq_error later_refl [OF assms(1)] by auto
  next
    case 2
    then show ?thesis using acq_error pf(1,3) up by auto
  next
    case 3
    then show ?thesis using pf up by (auto simp: acq_def)
  next
    case (4 err)
    note a = acquire_existing_effect [OF later_ready [OF pf(1)] h assms(4) 4(3)]
    show ?thesis using a acq_before [OF pf(1)] same [OF 4(1,2)] by auto
  qed
  then show "acq d ?o w r w'" "objs w' ?k = objs w ?k \<or> free_at (objs w) d (clk w')" by auto
qed

lemma Renew_effect:
  assumes "ready w" "holds_for d l" "small_lease (l_body l)" "Renew rt sp ctx l w = (e, l', w')"
  shows "later w w'"
    "l' = l \<and> objs w' (backupLeaseKey d) = objs w (backupLeaseKey d) \<or>
     (\<exists>cur x. stored (objs w) d = Some cur \<and> same_lease cur (l_body l) \<and> lb_ExpiresAt cur < x \<and> clk w + l_ttl l \<le> x \<and>
       (l' = l \<or> l' = l\<lparr>l_body := (l_body l)\<lparr>lb_ExpiresAt := x\<rparr>\<rparr>) \<and> stored (objs w') d = Some ((l_body l)\<lparr>lb_ExpiresAt := x\<rparr>))"
    (is "_ \<or> ?R")
proof -
  have k: "okkey (backupLeaseKey (l_deployment l))" "l_deployment l = d" "l_now l = rt_Now rt"
    using assms(2) by (auto simp: holds_for_def lease_keys_def)
  obtain r w1 where r: "lease_read sp ctx l w = (r, w1)" by fastforce
  note rd = lease_read_effect [OF assms(1) k(1) r]
  obtain t1 w2 where t1: "rt_Now rt w1 = (t1, w2)" by fastforce
  note n1 = now_later [OF later_ready [OF rd(1)] t1]
  obtain t2 w3 where t2: "rt_Now rt w2 = (t2, w3)" by fastforce
  note n2 = now_later [OF later_ready [OF conjunct1 [OF n1]] t2]
  obtain t3 w4 where t3: "rt_Now rt w3 = (t3, w4)" by fastforce
  note n3 = now_later [OF later_ready [OF conjunct1 [OF n2]] t3]
  have l4: "later w w2" "later w w3" "later w w4" using rd(1) n1 n2 n3 later_trans by metis+
  have o4: "objs w1 = objs w" "objs w2 = objs w" "objs w3 = objs w" "objs w4 = objs w" using rd(2) n1 n2 n3 by auto
  have t: "clk w + l_ttl l \<le> t3 + l_ttl l" using rd(1) n1 n2 n3 by (simp add: later_def)
  define nx where "nx = (l_body l)\<lparr>lb_ExpiresAt := t3 + l_ttl l\<rparr>"
  have sm: "small_lease nx" using assms(3) by (simp add: small_lease_def nx_def)
  obtain pe w5 where p: "lease_put sp ctx l nx False w4 = (pe, w5)" by fastforce
  note pt = lease_put_effect [OF later_ready [OF l4(3)] k(1) p sm]
  have l5: "later w w5" by (rule later_trans [OF l4(3) pt(1)])
  obtain ob ve w6 where v: "settleVerifyObserved rt sp ctx l nx w5 = ((ob, ve), w6)" by (metis prod.exhaust)
  note st = settle_effect [OF later_ready [OF l5] assms(2) v]
  have l6: "later w w6" by (rule later_trans [OF l5 st(1)])
  have wr: "?R" if "r = Inr cur" "same_lease cur (l_body l)" "lb_ExpiresAt cur < t3 + l_ttl l" "stored (objs w') d = Some nx"
    "l' = l \<or> l' = l\<lparr>l_body := nx\<rparr>" for cur
    using that rd(3) k(2) t unfolding nx_def by blast
  have "l' = l \<and> w' \<in> {w1, w2, w3, w4} \<or>
     (\<exists>cur. r = Inr cur \<and> same_lease cur (l_body l) \<and> lb_ExpiresAt cur < t3 + l_ttl l \<and>
       (l' = l \<and> pe \<noteq> None \<and> w' = w5 \<or> pe = None \<and> w' = w6 \<and> (l' = l \<or> l' = l\<lparr>l_body := nx\<rparr>)))"
    using assms(4) r t1 t2 t3 p v k(3) unfolding Renew_def Let_def settleVerify_def
    by (auto simp: nx_def split: sum.splits if_splits option.splits)
  then have "later w w' \<and> (l' = l \<and> objs w' (backupLeaseKey d) = objs w (backupLeaseKey d) \<or> ?R)"
  proof (elim disjE exE conjE)
    assume "l' = l" "w' \<in> {w1, w2, w3, w4}"
    then show ?thesis using l4 rd(1) o4 by auto
  next
    fix cur assume a: "r = Inr cur" "same_lease cur (l_body l)" "lb_ExpiresAt cur < t3 + l_ttl l" "l' = l" "pe \<noteq> None" "w' = w5"
    then show ?thesis using pt(2) k(2) o4 l5 wr by auto
  next
    fix cur assume a: "r = Inr cur" "same_lease cur (l_body l)" "lb_ExpiresAt cur < t3 + l_ttl l" "pe = None" "w' = w6" "l' = l"
    then show ?thesis using pt(2) k(2) st(2) l6 wr by auto
  next
    fix cur assume a: "r = Inr cur" "same_lease cur (l_body l)" "lb_ExpiresAt cur < t3 + l_ttl l" "pe = None" "w' = w6" "l' = l\<lparr>l_body := nx\<rparr>"
    then show ?thesis using pt(2) k(2) st(2) l6 wr by auto
  qed
  then show "later w w'" "l' = l \<and> objs w' (backupLeaseKey d) = objs w (backupLeaseKey d) \<or> ?R" by auto
qed

text \<open>The invariant: a lease that has not expired by its holder's own copy is the one stored.\<close>

definition held :: "string \<Rightarrow> 'w \<Rightarrow> 'w Lease \<Rightarrow> bool" where
  "held d w l \<longleftrightarrow> holds_for d l \<and> small_lease (l_body l) \<and> \<not> lb_Released (l_body l) \<and> lb_AcquiredAt (l_body l) \<le> clk w \<and>
     lb_AcquiredAt (l_body l) < lb_ExpiresAt (l_body l) \<and>
     (clk w < lb_ExpiresAt (l_body l) \<longrightarrow>
        (\<exists>b. stored (objs w) d = Some b \<and> same_lease b (l_body l) \<and> \<not> lb_Released b \<and> lb_ExpiresAt (l_body l) \<le> lb_ExpiresAt b))"

definition lease_inv :: "string \<Rightarrow> 'w Lease list \<Rightarrow> 'w \<Rightarrow> bool" where
  "lease_inv d hs w \<longleftrightarrow> ready w \<and> (\<forall>l \<in> set hs. held d w l) \<and> distinct (map lease_id hs)"

lemma held_expired:
  assumes "held d w l" "later w w'" "clk w < lb_ExpiresAt (l_body l) \<Longrightarrow> clk w' < lb_ExpiresAt (l_body l) \<Longrightarrow> False"
  shows "held d w' l"
proof -
  have "clk w \<le> clk w'" using assms(2) by (simp add: later_def)
  then show ?thesis using assms(1,3) unfolding held_def by (metis order_trans le_less_trans)
qed

lemma held_same:
  assumes "held d w l" "later w w'" "stored (objs w') d = stored (objs w) d"
  shows "held d w' l"
  using assms unfolding held_def later_def by (metis order_trans le_less_trans)

lemma held_free:
  assumes "held d w l" "later w w'" "free_at (objs w) d (clk w')"
  shows "held d w' l"
  by (rule held_expired [OF assms(1,2)]) (use assms(1,3) in \<open>fastforce simp: held_def free_at_def\<close>)

lemma held_other:
  assumes "held d w l" "later w w'" "stored (objs w) d = Some b" "\<not> same_lease b (l_body l)"
  shows "held d w' l"
  by (rule held_expired [OF assms(1,2)]) (use assms(1,3,4) in \<open>auto simp: held_def\<close>)

lemma same_lease_id: "same_lease b (l_body l) \<Longrightarrow> same_lease b (l_body l') \<Longrightarrow> lease_id l = lease_id l'"
  by (simp add: same_lease_def lease_id_def)

lemma won_held:
  assumes "won d owner w l w'" "length owner + length d \<le> 9000"
  shows "held d w' l"
proof -
  obtain t where t: "t \<le> clk w'" "l_body l = fresh_body d owner t (l_ttl l)" using assms(1) by (auto simp: won_def)
  then show ?thesis using assms small_fresh [OF assms(2), of t "l_ttl l"]
    by (simp add: won_def held_def holds_for_def fresh_body_def same_lease_def)
qed

lemma won_new_id:
  assumes "won d owner w l w'" "held d w x"
  shows "lease_id x \<noteq> lease_id l"
proof
  assume i: "lease_id x = lease_id l"
  obtain t where t: "clk w \<le> t" "free_at (objs w) d t" "l_body l = fresh_body d owner t (l_ttl l)" using assms(1) by (auto simp: won_def)
  have "lb_AcquiredAt (l_body x) = t" using i t(3) by (simp add: lease_id_def fresh_body_def)
  then have "clk w = t" "clk w < lb_ExpiresAt (l_body x)" using assms(2) t(1) by (auto simp: held_def)
  then show False using assms(2) t(2) by (fastforce simp: held_def free_at_def)
qed

lemma inv_keep:
  assumes "lease_inv d hs w" "later w w'" "stored (objs w') d = stored (objs w) d \<or> free_at (objs w) d (clk w')"
  shows "lease_inv d hs w'"
  using assms held_same held_free later_ready unfolding lease_inv_def by blast

lemma inv_acquire:
  assumes "lease_inv d hs w" "lease_keys d" "lo_now opts = None" "length (lease_owner opts) + length d \<le> 9000"
    "AcquireBackupLease sha rt sp ctx d opts w = (r, w')"
  shows "lease_inv d hs w'" "r = Inr l \<Longrightarrow> lease_inv d (l # hs) w'"
proof -
  have rw: "ready w" using assms(1) by (simp add: lease_inv_def)
  note e = Acquire_effect [OF rw assms(2-5)]
  show i: "lease_inv d hs w'" using inv_keep [OF assms(1)] e stored_cong [of "objs w'" d "objs w"] by (auto simp: acq_def)
  assume "r = Inr l"
  then have wn: "won d (lease_owner opts) w l w'" using e(1) by (simp add: acq_def)
  have "lease_id l \<noteq> lease_id x" if "x \<in> set hs" for x using won_new_id [OF wn, of x] that assms(1) by (auto simp: lease_inv_def)
  then show "lease_inv d (l # hs) w'" using i won_held [OF wn assms(4)] by (auto simp: lease_inv_def)
qed

lemma inv_change:
  assumes "lease_inv d (xs @ l # ys) w" "later w w'" "stored (objs w') d = stored (objs w) d \<or>
    (\<exists>b. stored (objs w) d = Some b \<and> same_lease b (l_body l))"
  shows "\<forall>x \<in> set (xs @ ys). held d w' x"
proof
  fix x assume x: "x \<in> set (xs @ ys)"
  have h: "held d w x" using assms(1) x by (auto simp: lease_inv_def)
  have n: "lease_id x \<noteq> lease_id l" using assms(1) x by (auto simp: lease_inv_def image_iff)
  from assms(3) show "held d w' x"
  proof (elim disjE exE conjE)
    assume "stored (objs w') d = stored (objs w) d"
    then show ?thesis by (rule held_same [OF h assms(2)])
  next
    fix b assume b: "stored (objs w) d = Some b" "same_lease b (l_body l)"
    show ?thesis by (rule held_other [OF h assms(2) b(1)]) (use same_lease_id [OF b(2), of x] n in auto)
  qed
qed

lemma inv_release:
  assumes "lease_inv d (xs @ l # ys) w" "Release sp ctx l w = (e, w')"
  shows "lease_inv d (xs @ ys) w'"
proof -
  have h: "ready w" "holds_for d l" "small_lease (l_body l)" using assms(1) by (auto simp: lease_inv_def held_def)
  note r = Release_effect [OF h assms(2)]
  have "\<forall>x \<in> set (xs @ ys). held d w' x"
    by (rule inv_change [OF assms(1) r(1)]) (use r(2) stored_cong [of "objs w'" d "objs w"] in auto)
  then show ?thesis using assms(1) later_ready [OF r(1)] by (auto simp: lease_inv_def)
qed

lemma inv_renew:
  assumes "lease_inv d (xs @ l # ys) w" "Renew rt sp ctx l w = (e, l', w')"
  shows "lease_inv d (xs @ l' # ys) w'"
proof -
  have h: "ready w" "held d w l" using assms(1) by (auto simp: lease_inv_def)
  then have hl: "holds_for d l" "small_lease (l_body l)" by (auto simp: held_def)
  note r = Renew_effect [OF h(1) hl assms(2)]
  have "\<forall>x \<in> set (xs @ ys). held d w' x"
    by (rule inv_change [OF assms(1) r(1)]) (use r(2) stored_cong [of "objs w'" d "objs w"] in auto)
  moreover have "held d w' l' \<and> lease_id l' = lease_id l" using r(2)
  proof (elim disjE exE conjE)
    assume "l' = l" "objs w' (backupLeaseKey d) = objs w (backupLeaseKey d)"
    then show ?thesis using held_same [OF h(2) r(1)] stored_cong [of "objs w'" d "objs w"] by simp
  next
    fix cur x assume a: "stored (objs w) d = Some cur" "same_lease cur (l_body l)" "lb_ExpiresAt cur < x" "l' = l"
      "stored (objs w') d = Some ((l_body l)\<lparr>lb_ExpiresAt := x\<rparr>)"
    have "lb_ExpiresAt (l_body l) \<le> x" if "clk w' < lb_ExpiresAt (l_body l)"
      using that h(2) a r(1) by (auto simp: held_def later_def)
    then show ?thesis using a h(2) r(1) by (auto simp: held_def later_def same_lease_def)
  next
    fix cur x assume a: "clk w + l_ttl l \<le> x" "l' = l\<lparr>l_body := (l_body l)\<lparr>lb_ExpiresAt := x\<rparr>\<rparr>"
      "stored (objs w') d = Some ((l_body l)\<lparr>lb_ExpiresAt := x\<rparr>)"
    then show ?thesis using h(2) r(1) by (auto simp: held_def later_def same_lease_def lease_id_def small_lease_def holds_for_def)
  qed
  ultimately show ?thesis using assms(1) later_ready [OF r(1)] by (auto simp: lease_inv_def)
qed

lemma lease_step_inv:
  assumes "lease_step sha rt sp d s s'" "lease_keys d" "lease_inv d (fst s) (snd s)"
  shows "lease_inv d (fst s') (snd s')"
  using assms
proof (induction rule: lease_step.induct)
  case (paused ctx \<delta> w e' w' hs)
  then show ?case using inv_keep [of d hs w w'] sleep_later [of w \<delta> ctx e' w'] by (auto simp: lease_inv_def)
next
  case (died xs l ys w)
  then show ?case by (auto simp: lease_inv_def)
next
  case (acquired ctx opts w l w' hs)
  then show ?case using inv_acquire(2) [OF _ _ acquired(2,3,1)] by simp
next
  case (refused ctx opts w e w' hs)
  then show ?case using inv_acquire(1) [OF _ _ refused(2,3,1)] by simp
next
  case (renewed ctx l w e' l' w' xs ys)
  then show ?case using inv_renew [OF _ renewed(1)] by simp
next
  case (released ctx l w e' w' xs ys)
  then show ?case using inv_release [OF _ released(1)] by simp
qed

lemma one_holder:
  assumes "lease_inv d hs w" "i < length hs" "j < length hs"
    "clk w < lb_ExpiresAt (l_body (hs ! i))" "clk w < lb_ExpiresAt (l_body (hs ! j))"
  shows "i = j"
proof -
  have "held d w (hs ! i)" "held d w (hs ! j)" using assms by (auto simp: lease_inv_def)
  then have "lease_id (hs ! i) = lease_id (hs ! j)" using assms(4,5) same_lease_id by (fastforce simp: held_def)
  moreover have "distinct (map lease_id hs)" using assms(1) by (simp add: lease_inv_def)
  ultimately show ?thesis using assms(2,3) by (metis distinct_conv_nth length_map nth_map)
qed

lemma reachable_inv:
  assumes "(lease_step sha rt sp d)\<^sup>*\<^sup>* s s'" "lease_keys d" "lease_inv d (fst s) (snd s)"
  shows "lease_inv d (fst s') (snd s')"
  using assms(1) by (induction rule: rtranclp_induct) (use assms(2,3) lease_step_inv in auto)

end

subsection \<open>Leases on the filesystem backend\<close>

lemma time_After_later:
  assumes "steady_fs w" "time_After ctx d w = (Some e, w')"
  shows "steady_fs w' \<and> os_now w \<le> os_now w'"
proof (rule clock_steady [OF _ assms(1)])
  show "clock w' = clock w" using assms(2) by (auto simp: time_After_def dest!: clock_ctx split: prod.splits option.splits)
qed

interpretation fs_lease: lease_store "fs_plugin psha statfs" fs_good okkey fs_objs fs_pend fs_runtime steady_fs os_now
proof unfold_locales
  fix w :: fs and k ctx rc w'
  assume "fs_good w" "okkey k" "sp_Get (fs_plugin psha statfs) ctx k w = (Inr rc, w')"
  then show "\<exists>b t n. fs_objs w k = Some (b, t) \<and> rd_data rc = take n b" by (intro fs_Get_prefix) auto
next
  fix w :: fs and ctx k b o' r w'
  assume "steady_fs w" "sp_Put (fs_plugin psha statfs) ctx k (bytes_NewReader b) o' w = (r, w')"
  then show "steady_fs w' \<and> os_now w \<le> os_now w'" by (intro clock_steady) (auto dest: clock_fs_Put)
next
  fix w :: fs and ctx k e' w'
  assume "steady_fs w" "sp_Delete (fs_plugin psha statfs) ctx k w = (e', w')"
  then show "steady_fs w' \<and> os_now w \<le> os_now w'" by (intro clock_steady) (auto dest: clock_fs_Delete)
next
  fix w :: fs and ctx d e w'
  assume "steady_fs w" "rt_Sleep fs_runtime ctx d w = (Some e, w')"
  then show "steady_fs w' \<and> os_now w \<le> os_now w'" using time_After_later by (simp add: fs_runtime_def)
qed

text \<open>A deployment whose name is a plain path component has keys the backend can store.\<close>

definition plain_deployment :: "string \<Rightarrow> bool" where
  "plain_deployment d \<longleftrightarrow> d \<noteq> [] \<and> CHR ''/'' \<notin> set d \<and> CHR ''.'' \<notin> set d"

text \<open>Names that end in \<^verbatim>\<open>.json\<close>, with at most a number between the first dot and that suffix.\<close>

lemma Contains_number:
  assumes "list_all isDigit m" "p \<noteq> []" "\<not> isDigit (hd p)"
  shows "Contains ((if m = [] then [] else CHR ''.'' # m) @ t) (CHR ''.'' # p) = Contains t (CHR ''.'' # p)"
proof (cases m)
  case (Cons c cs)
  have "\<not> isDigit CHR ''.''" by code_simp
  then have "CHR ''.'' \<notin> set m" using assms(1) by (auto simp: list_all_iff)
  from Contains_dot_suffix [OF this] have "Contains (m @ t) (CHR ''.'' # p) = Contains t (CHR ''.'' # p)" .
  moreover have "\<not> HasPrefix (CHR ''.'' # m @ t) (CHR ''.'' # p)"
    using assms Cons by (cases p) (auto simp: HasPrefix_def)
  ultimately show ?thesis using Cons by simp
qed simp

lemma json_name:
  assumes "CHR ''.'' \<notin> set s" "list_all isDigit m"
  defines "b \<equiv> s @ (if m = [] then [] else CHR ''.'' # m) @ ''.json''"
  shows "okname b" "\<not> isFSStagingName b"
proof -
  have c: "Contains b (CHR ''.'' # p) = Contains ''.json'' (CHR ''.'' # p)" if "p \<noteq> []" "\<not> isDigit (hd p)" for p
    unfolding b_def Contains_dot_suffix [OF assms(1)] Contains_number [OF assms(2) that] ..
  have d: "\<not> isDigit CHR ''j''" "\<not> isDigit CHR ''h''" "\<not> isDigit CHR ''d''" "\<not> isDigit CHR ''e''" by code_simp+
  show "okname b" unfolding okname_def using c [of "''json''"] d by (simp add: HasPrefix_def)
  have "\<not> HasSuffix b ''.tmp''" by (auto simp: b_def HasSuffix_iff dest: arg_cong [where f = last])
  then show "\<not> isFSStagingName b" unfolding isFSStagingName_def
    using c [of "''hstmp-''"] c [of "''deferred-''"] c [of "''excl-''"] d by (simp add: HasPrefix_def)
qed

lemma plain_no_name: "CHR ''.'' \<notin> set x \<Longrightarrow> \<not> okname x"
  using Contains_dot_suffix [of x "[]" "''chk''"] Contains_dot_suffix [of x "[]" "''json''"] by (simp add: okname_def)

lemma lease_keys_ok:
  assumes "plain_deployment d"
  shows "fs_lease.lease_keys d"
proof -
  have d: "plain d" "\<not> okname d" using assms plain_no_name by (auto simp: plain_deployment_def plain_def)
  have fixed: "plain ''leases''" "plain ''breaks''" "\<not> okname ''leases''" "\<not> okname ''breaks''" by code_simp+
  have "okkey (backupLeaseKey d)"
  proof -
    have k: "backupLeaseKey d = Join CHR ''/'' [''leases'', d, ''backup.json'']" by (simp add: backupLeaseKey_def)
    have "plain ''backup.json''" "okname ''backup.json''" "\<not> isFSStagingName ''backup.json''" by code_simp+
    then show ?thesis unfolding k using d fixed by (intro okkeyI) simp_all
  qed
  moreover have "okkey (claim_gen_key sha d v n)" for sha v n
  proof -
    obtain x where x: "claim_gen_key sha d v n =
      ''leases/'' @ d @ ''/breaks/'' @ EncodeToString x @ (if n > 0 then ''.'' @ fmt_d 0 (int n) else []) @ ''.json''" by (rule claim_key_form)
    define m where "m = (if n > 0 then fmt_d 0 (int n) else [])"
    define b where "b = EncodeToString x @ (if m = [] then [] else CHR ''.'' # m) @ ''.json''"
    have m: "list_all isDigit m" using dec_digits_isDigit by (simp add: m_def fmt_d_def pad_zero_def)
    have "fmt_d 0 (int n) \<noteq> []" using dec_digits_nonempty by (simp add: fmt_d_def pad_zero_def)
    then have k: "claim_gen_key sha d v n = Join CHR ''/'' [''leases'', d, ''breaks'', b]" unfolding x by (simp add: b_def m_def)
    have e: "CHR ''.'' \<notin> set (EncodeToString x)" "CHR ''/'' \<notin> set (EncodeToString x)" using EncodeToString_chars [of x] by auto
    note jn = json_name [OF e(1) m, folded b_def]
    have "\<not> isDigit CHR ''/''" by code_simp
    then have "CHR ''/'' \<notin> set b" "b \<noteq> []" using e(2) m by (auto simp: b_def list_all_iff)
    moreover have "5 \<le> length b" by (simp add: b_def)
    then have "b \<noteq> ''.''" "b \<noteq> ''..''" by auto
    ultimately have "plain b" by (simp add: plain_def)
    then show ?thesis unfolding k using d fixed jn by (intro okkeyI) simp_all
  qed
  ultimately show ?thesis by (simp add: fs_lease.lease_keys_def)
qed

subsection \<open>What the lease guarantees\<close>

definition ex_lease_opts :: "string \<Rightarrow> fs LeaseOptions" where
  "ex_lease_opts owner = \<lparr>lo_Owner = owner, lo_TTL = 0, lo_now = None, lo_settle = 0, lo_AllowUnenforceable = False, lo_hostname = Inr [], lo_pid = 1\<rparr>"

definition ex_acquire :: "string \<Rightarrow> fs \<Rightarrow> (error + fs Lease) \<times> fs" where
  "ex_acquire owner = AcquireBackupLease ex_sha fs_runtime (fs_plugin ex_sha ex_statfs) CallerCtx ''d'' (ex_lease_opts owner)"

definition ex_held :: fs where "ex_held = snd (ex_acquire ''a'' (ex_fs []))"

lemma ex_acquire_first:
  obtains l where "ex_acquire ''a'' (ex_fs []) = (Inr l, ex_held)" "os_now ex_held < lb_ExpiresAt (l_body l)"
proof -
  have "case ex_acquire ''a'' (ex_fs []) of (Inr l, w) \<Rightarrow> os_now w < lb_ExpiresAt (l_body l) | _ \<Rightarrow> False" by code_simp
  then show thesis using that by (auto simp: ex_held_def split: prod.splits sum.splits)
qed

lemma ex_plain: "plain_deployment ''d''" "steady_fs (ex_fs [])"
  by code_simp+

lemma ex_owner: "lo_now (ex_lease_opts x) = None" "length x \<le> 8000 \<Longrightarrow> x \<noteq> [] \<Longrightarrow> length (lease_owner (ex_lease_opts x)) + length ''d'' \<le> 9000"
  by (simp_all add: ex_lease_opts_def lease_owner_def)



text \<open>
  C27. A lease is only taken from a holder that released it or let it expire. If a lease object decodes to a body \<open>b\<close> and an
  acquisition succeeds or changes the object, then \<open>b\<close> is marked released or its expiry has passed when the call ends.
\<close>

theorem live_lease_not_taken:
  assumes "fs_good w" "steady_fs w" "plain_deployment d" "lo_now opts = None" "length (lease_owner opts) + length d \<le> 9000"
    "stored (fs_objs w) d = Some b" "AcquireBackupLease sha fs_runtime (fs_plugin psha statfs) ctx d opts w = (r, w')"
  shows "isl r \<and> fs_objs w' (backupLeaseKey d) = fs_objs w (backupLeaseKey d) \<or> lb_Released b \<or> lb_ExpiresAt b \<le> os_now w'"
proof -
  have "fs_lease.ready w" using assms(1,2) by (simp add: fs_lease.ready_def)
  note e = fs_lease.Acquire_effect [OF this lease_keys_ok [OF assms(3)] assms(4,5,7)]
  have "free_at (fs_objs w) d (os_now w')" if "r = Inr l" for l
    using e(1) that free_mono by (auto simp: fs_lease.acq_def fs_lease.won_def)
  then have "free_at (fs_objs w) d (os_now w') \<or> isl r \<and> fs_objs w' (backupLeaseKey d) = fs_objs w (backupLeaseKey d)"
    using e(2) by (cases r) auto
  then show ?thesis using assms(6) by (auto simp: free_at_def)
qed

theorem live_lease_not_taken_witness:
  "\<exists>b. stored (fs_objs ex_held) ''d'' = Some b \<and> os_now ex_held < lb_ExpiresAt b \<and>
     (isl (fst (ex_acquire ''b'' ex_held)) \<and>
        fs_objs (snd (ex_acquire ''b'' ex_held)) (backupLeaseKey ''d'') = fs_objs ex_held (backupLeaseKey ''d'') \<or>
      lb_ExpiresAt b \<le> os_now (snd (ex_acquire ''b'' ex_held)))"
proof -
  obtain l where l: "ex_acquire ''a'' (ex_fs []) = (Inr l, ex_held)" "os_now ex_held < lb_ExpiresAt (l_body l)" by (rule ex_acquire_first)
  have "fs_lease.ready (ex_fs [])" using ex_fs_good0 ex_plain(2) by (simp add: fs_lease.ready_def)
  then have a: "fs_lease.acq ''d'' ''a'' (ex_fs []) (Inr l) ex_held"
    using fs_lease.Acquire_effect(1) [OF _ lease_keys_ok [OF ex_plain(1)] ex_owner(1) ex_owner(2) l(1) [unfolded ex_acquire_def]]
    by (simp add: ex_lease_opts_def lease_owner_def)
  have h: "fs_good ex_held" "steady_fs ex_held" "stored (fs_objs ex_held) ''d'' = Some (l_body l)" "\<not> lb_Released (l_body l)"
    using a by (auto simp: fs_lease.acq_def fs_lease.won_def fs_lease.later_def fresh_body_def)
  have "ex_acquire ''b'' ex_held = (fst (ex_acquire ''b'' ex_held), snd (ex_acquire ''b'' ex_held))" by simp
  from live_lease_not_taken [OF h(1,2) ex_plain(1) ex_owner(1) ex_owner(2) h(3) this [unfolded ex_acquire_def]]
  show ?thesis using h l(2) unfolding ex_acquire_def by auto
qed

end
