(* ===== verification/Spec2Isabelle.thy ===== *)
theory Spec2Isabelle
  imports Retention CasProps SpillProps SorterProps Chunker ManifestTree GcProps LeaseProps
begin

text \<open>
  Verification of pg_hardstorage, a backup system for PostgreSQL.

  \<^bold>\<open>The program.\<close> A backup reads the data files of a cluster, cuts each stream into content-defined chunks
  (\<^verbatim>\<open>internal/plugin/chunker\<close>), stores every chunk once under the SHA-256 of its plaintext (\<^verbatim>\<open>internal/repo\<close>, the
  content-addressed store) in an envelope that names its compression and encryption, and then commits a manifest that
  lists the chunks. WAL segments and logical streams are stored the same way. All objects live behind the storage
  interface of \<^verbatim>\<open>internal/plugin/storage\<close>, of which the filesystem backend is one implementation. Retention policies
  (\<^verbatim>\<open>internal/backup/retention\<close>) choose the manifests to delete; garbage collection (\<^verbatim>\<open>internal/repo\<close>) reads the
  chunk references of the manifests that remain, with sets and sorters that spill to disk (\<^verbatim>\<open>internal/spill\<close>), and
  deletes the chunks no manifest names. A lease object per deployment (\<^verbatim>\<open>internal/backup/lease.go\<close>) keeps two runners from
  backing up one deployment at a time.

  \<^bold>\<open>Conventions.\<close> A Go struct is a record, a method a function of it, a fallible method returns \<open>error + 'a\<close> or
  \<open>error option\<close> beside the new state. The world behind a storage plugin is a type \<open>'w\<close>; every operation threads it.
  The clock, the context and the random source are read from the world through a \<open>runtime\<close>. SHA-256, the AEAD cipher and
  the gear table are parameters. Every operation that can fail in the operating system can fail in the model: the
  filesystem and the spill files consume a script of faults, and the theorems hold for every script.

  \<^bold>\<open>Theories.\<close>
  \<^item> \<open>Prelude\<close>: strings, sorting, formatting, calendar, errors, hex and readers, as the sources use them from Go's library.
  \<^item> \<open>ChunkKey\<close> (\<^verbatim>\<open>repo/hash.go\<close>, \<^verbatim>\<open>chunkkey.go\<close>): hashes, their texts and object keys. Keys and texts determine hashes.
  \<^item> \<open>Manifest\<close>, \<open>Retention\<close> (\<^verbatim>\<open>backup/retention\<close>): the three policies and their finalisation. A policy keeps
    exactly what its rule selects closed under ancestors, never breaks a chain, keeps the newest backup.
  \<^item> \<open>Chunker\<close>: FastCDC. The chunks are a partition of the input within the size bounds and resynchronise after a change.
  \<^item> \<open>Envelope\<close> (\<^verbatim>\<open>plugin/compression\<close>, \<^verbatim>\<open>plugin/encryption\<close>): the two envelope formats and the codec registries; round trip.
  \<^item> \<open>Storage\<close>: the interface as a record, the locales \<open>object_store\<close> and \<open>runtime_store\<close> that state its contract on an
    abstract map of objects and a queue of deferred writes, the exclusive commit and its effect proved from the contract.
  \<^item> \<open>GoOS\<close>, \<open>FsBackend\<close>: a POSIX file system with a page cache, a journal and crashes, and the backend's operations over it.
    \<open>FsFrame\<close>, \<open>FsStore\<close>, \<open>FsLaws\<close> prove the contract for it (interpretation \<open>fs_store\<close>); \<open>FsProps\<close> states what callers get.
  \<^item> \<open>Spill\<close>, \<open>SpillProps\<close>: the spilling hash set against a mathematical set. \<open>Sorter\<close>, \<open>SorterProps\<close>: the external sorter.
  \<^item> \<open>Cas\<close>, \<open>CasStore\<close>, \<open>CasProps\<close> (\<^verbatim>\<open>repo/cas.go\<close>, \<^verbatim>\<open>adopted_mark.go\<close>): the chunk store. The locale \<open>cas_invariant\<close>
    gives every method an invariant from its elementary updates; \<open>cas_store\<close> proves a session invariant from the
    storage contract, interpreted on the filesystem backend.
  \<^item> \<open>Json\<close>, \<open>GoTime\<close>: the scanner, streaming decoder and printer of \<^verbatim>\<open>encoding/json\<close>, the time formats. \<open>JsonRound\<close>: the
    scanner inverts the printer. \<open>TimeRound\<close>: the parser of timestamps inverts their printer, for the years 0 to 9999.
  \<^item> \<open>ManifestStream\<close>, \<open>ManifestTree\<close> (\<^verbatim>\<open>repo/manifeststream.go\<close>): the streaming readers of chunk references, equal to a full parse.
    \<open>StreamPrefix\<close>: a reader cut short by an error visits a prefix of those references.
  \<^item> \<open>Gc\<close> (\<^verbatim>\<open>repo/gc.go\<close> and the snapshot of \<^verbatim>\<open>gcsweep.go\<close>), \<open>GcFence\<close> (\<^verbatim>\<open>gcfence.go\<close>), \<open>GcSweep\<close> (\<^verbatim>\<open>gcsweep.go\<close>): collecting
    references, orphans, missing chunks and scrub; run records, pins and the commit fence; the sweep with its checkpoints and
    batches. \<open>GcRefs\<close> says which manifests are live and which hashes they name. The locale \<open>gc_store\<close> of \<open>GcStore\<close> adds to the
    storage contract what a sweep calls and proves that a scan finds the references of every live manifest; \<open>GcSafe\<close> follows
    every step of a sweep; \<open>FsGc\<close> interprets the locale on the filesystem backend; \<open>GcProps\<close>: a sweep removes nothing but
    garbage and keeps every live backup.
  \<^item> \<open>FsClock\<close>, \<open>FenceProps\<close>: the backend leaves the clock alone; over a clock that does not run backwards (locale
    \<open>steady_clock\<close>) the commit fence ends; run records and pins read back as written.
  \<^item> \<open>Lease\<close>, \<open>LeaseProps\<close> (\<^verbatim>\<open>backup/lease.go\<close>, \<^verbatim>\<open>lease_wedge.go\<close>): the backup lease. The locale \<open>lease_store\<close> proves from the
    storage contract and a steady clock that whole calls of any number of runners, in any order and with any failures, leave
    at most one unexpired lease, and that a lease is taken only when it was released or has expired.

  \<^bold>\<open>Bounds and fuel.\<close> Loops recurse on their data or on a measure. The scanner of JSON values has a fuel of one more than
  twice the input, which lemma \<open>scan_fuel\<close> shows is never the limit. The walk of a directory tree has the longest path as its
  depth. Bloom filters are sized in 64-bit words, so results on the spilling set assume fewer than \<open>2 ^ 59\<close> keys and a sweep
  assumes fewer than \<open>2 ^ 58\<close> bytes of them. The poll loop of the commit fence has a fuel of 1202 turns, five minutes of polls of
  250 ms and one more on either side; \<open>FenceProps\<close> shows it is enough. The sweep theorems assume that the callbacks of
  the caller only look at the repository (\<open>callbacks_look\<close>) and that manifests fit the reader's limit and digests of their
  versions do not collide (\<open>readable\<close>). The lease theorems assume owner and deployment names of at most 9000 bytes together,
  since a lease object of more than 64 KiB is not read back.

  \<^bold>\<open>Not modelled.\<close> Goroutines run one after the other in the order they are started; processes interleave only as whole
  calls (the lease) or not at all. The heartbeat of a sweep, its warnings and the reaping of old spill directories are left
  out. The manifest store, restore and the WAL archive are not modelled. The command line, the HTTP
  server, the language-model assistant, the test kit, the cloud storage backends, the key-management clients and the
  PostgreSQL wire protocol are input and output around the parts above.
\<close>

end
